(* ===== verification/Prelude.thy ===== *)
theory Prelude
  imports Main "HOL-Library.Signed_Division" "HOL-Library.Word" "HOL-Library.Multiset"
begin

text \<open>
  Shared vocabulary of the development: C integers as \<open>int\<close> with the wrap-around of their
  type written out, truncating division, and the list of iterations that the body of a
  compiled loop executes for a block \<open>[s, e)\<close> handed out by the runtime.
\<close>

named_theorems wrap_simps \<open>removal of wrap-around for values in range\<close>
named_theorems iters_simps \<open>splitting and counting iteration lists\<close>

type_synonym c_long = int
type_synonym c_ulong = int
type_synonym c_uint = int
type_synonym c_int = int

subsection \<open>Integers of fixed width\<close>

text \<open>\<open>u64\<close> is conversion to \<open>unsigned long\<close> / \<open>unsigned long long\<close>, \<open>s64\<close> conversion to
  \<open>long\<close> (two's complement), \<open>u32\<close> and \<open>s32\<close> the same for \<open>unsigned\<close> and \<open>int\<close>.\<close>

definition u64 :: "int \<Rightarrow> int" where "u64 x = x mod 2 ^ 64"
definition s64 :: "int \<Rightarrow> int" where "s64 x = (x + 2 ^ 63) mod 2 ^ 64 - 2 ^ 63"
definition u32 :: "int \<Rightarrow> int" where "u32 x = x mod 2 ^ 32"
definition s32 :: "int \<Rightarrow> int" where "s32 x = (x + 2 ^ 31) mod 2 ^ 32 - 2 ^ 31"

abbreviation LONG_MAX :: int where "LONG_MAX \<equiv> 2 ^ 63 - 1"
abbreviation LONG_MIN :: int where "LONG_MIN \<equiv> - (2 ^ 63)"
abbreviation ULONG_MAX :: int where "ULONG_MAX \<equiv> 2 ^ 64 - 1"

abbreviation is_long :: "int \<Rightarrow> bool" where "is_long x \<equiv> LONG_MIN \<le> x \<and> x \<le> LONG_MAX"
abbreviation is_ulong :: "int \<Rightarrow> bool" where "is_ulong x \<equiv> 0 \<le> x \<and> x \<le> ULONG_MAX"

lemma u64_id [wrap_simps]: "0 \<le> x \<Longrightarrow> x \<le> ULONG_MAX \<Longrightarrow> u64 x = x"
  by (simp add: u64_def)

lemma s64_id [wrap_simps]: "LONG_MIN \<le> x \<Longrightarrow> x \<le> LONG_MAX \<Longrightarrow> s64 x = x"
  by (simp add: s64_def)

lemma u32_id [wrap_simps]: "0 \<le> x \<Longrightarrow> x < 2 ^ 32 \<Longrightarrow> u32 x = x"
  by (simp add: u32_def)

lemma s32_id [wrap_simps]: "- (2 ^ 31) \<le> x \<Longrightarrow> x < 2 ^ 31 \<Longrightarrow> s32 x = x"
  by (simp add: s32_def)

lemma u64_range: "0 \<le> u64 x" "u64 x \<le> ULONG_MAX"
  using pos_mod_bound [of "2 ^ 64" x] by (auto simp: u64_def)

lemma u64_nonneg [simp]: "0 \<le> u64 x"
  by (rule u64_range)

lemma u64_lt [simp]: "u64 x < 18446744073709551616"
  using u64_range(2) [of x] by simp

lemma s64_range: "LONG_MIN \<le> s64 x" "s64 x \<le> LONG_MAX"
  using pos_mod_bound [of "2 ^ 64" "x + 2 ^ 63"] pos_mod_sign [of "2 ^ 64" "x + 2 ^ 63"]
  by (auto simp: s64_def)

lemma u64_u64 [simp]: "u64 (u64 x) = u64 x"
  by (simp add: u64_def)

lemma s64_s64 [simp]: "s64 (s64 x) = s64 x"
  by (simp add: s64_def)

lemma s64_u64 [simp]: "s64 (u64 x) = s64 x"
  by (simp add: s64_def u64_def mod_add_left_eq)

lemma u64_s64 [simp]: "u64 (s64 x) = u64 x"
  by (simp add: s64_def u64_def mod_diff_left_eq)

lemma s64_add_u64 [simp]: "s64 (a + u64 b) = s64 (a + b)"
  "s64 (u64 b + a) = s64 (b + a)"
  by (metis s64_u64 u64_def mod_add_right_eq) (metis s64_u64 u64_def mod_add_left_eq)

lemma u64_add_u64 [simp]: "u64 (a + u64 b) = u64 (a + b)" "u64 (u64 b + a) = u64 (b + a)"
  by (simp_all add: u64_def mod_add_right_eq mod_add_left_eq)

lemma u64_mult_u64 [simp]: "u64 (a * u64 b) = u64 (a * b)" "u64 (u64 b * a) = u64 (b * a)"
  by (simp_all add: u64_def mod_mult_right_eq mod_mult_left_eq)

lemma u64_diff_u64 [simp]: "u64 (a - u64 b) = u64 (a - b)" "u64 (u64 b - a) = u64 (b - a)"
  by (simp_all add: u64_def mod_diff_right_eq mod_diff_left_eq)

lemma u64_uminus_u64 [simp]: "u64 (- u64 b) = u64 (- b)"
  by (simp add: u64_def mod_minus_eq)

subsection \<open>Truncating division\<close>

text \<open>C's \<open>/\<close> and \<open>%\<close> on signed operands truncate towards zero: \<open>sdiv\<close> and \<open>smod\<close>.\<close>

lemma sdiv_same_sign:
  assumes "0 \<le> d" and "k \<noteq> (0::int)"
  shows "(sgn k * d) sdiv k = d div \<bar>k\<bar>"
proof (cases "d = 0")
  case True
  then show ?thesis by (simp add: signed_divide_int_def)
next
  case False
  with assms have "sgn d = 1" by simp
  with assms show ?thesis
    by (simp add: signed_divide_int_def sgn_mult abs_mult abs_sgn_eq mult.commute sgn_if)
qed

lemma sdiv_nonneg: "0 \<le> a \<Longrightarrow> 0 < b \<Longrightarrow> a sdiv b = a div (b::int)"
  using sdiv_same_sign [of a b] by simp

lemma div_less_of_less_mult:
  assumes "0 < c" and "j < m * c"
  shows "j div c < (m::int)"
proof (rule ccontr)
  assume "\<not> j div c < m"
  then have "m * c \<le> j div c * c" using assms(1) by (intro mult_right_mono) auto
  also have "\<dots> \<le> j" using div_mult_mod_eq [of j c] pos_mod_sign [OF assms(1), of j] by linarith
  finally show False using assms(2) by simp
qed

subsection \<open>The iterations of a block\<close>

text \<open>
  The loop body compiled for a block \<open>[s, e)\<close> with step \<open>k\<close> runs
  \<open>for (i = s; k > 0 ? i < e : i > e; i += k)\<close>. \<open>niter k s e\<close> is the number of those
  iterations and \<open>iters k s e\<close> the list of the values of \<open>i\<close>, in order.
\<close>

definition niter :: "int \<Rightarrow> int \<Rightarrow> int \<Rightarrow> nat" where
  "niter k s e = nat ((sgn k * (e - s) + \<bar>k\<bar> - 1) div \<bar>k\<bar>)"

definition iters :: "int \<Rightarrow> int \<Rightarrow> int \<Rightarrow> int list" where
  "iters k s e = map (\<lambda>j. s + int j * k) [0..<niter k s e]"

lemma length_iters [simp]: "length (iters k s e) = niter k s e"
  by (simp add: iters_def)

lemma niter_pos_iff:
  assumes "k \<noteq> 0"
  shows "0 < niter k s e \<longleftrightarrow> 0 < sgn k * (e - s)"
proof -
  have k: "0 < \<bar>k\<bar>" using assms by simp
  let ?d = "sgn k * (e - s)"
  have "0 < (?d + \<bar>k\<bar> - 1) div \<bar>k\<bar> \<longleftrightarrow> \<bar>k\<bar> \<le> ?d + \<bar>k\<bar> - 1"
    using pos_imp_zdiv_pos_iff [OF k] by simp
  then show ?thesis by (auto simp: niter_def zero_less_nat_eq)
qed

lemma niter_0_iff: "k \<noteq> 0 \<Longrightarrow> niter k s e = 0 \<longleftrightarrow> sgn k * (e - s) \<le> 0"
  using niter_pos_iff [of k s e] by linarith

lemma iters_Nil [iters_simps]: "k \<noteq> 0 \<Longrightarrow> sgn k * (e - s) \<le> 0 \<Longrightarrow> iters k s e = []"
  by (simp add: iters_def niter_0_iff)

lemma iters_same [simp]: "iters k s s = []"
  by (cases "k = 0") (simp_all add: iters_def niter_def)

text \<open>The closed form is the loop: while the bound is not reached, one more iteration.\<close>

lemma niter_step:
  assumes "k \<noteq> 0" and "0 < sgn k * (e - s)"
  shows "niter k s e = Suc (niter k (s + k) e)"
proof -
  let ?d = "sgn k * (e - s)"
  have k: "0 < \<bar>k\<bar>" using assms by simp
  have d': "sgn k * (e - (s + k)) = ?d - \<bar>k\<bar>"
    by (simp add: algebra_simps abs_sgn)
  have "(?d - \<bar>k\<bar> + \<bar>k\<bar> - 1 + \<bar>k\<bar>) div \<bar>k\<bar> = 1 + (?d - \<bar>k\<bar> + \<bar>k\<bar> - 1) div \<bar>k\<bar>"
    using k by (subst div_add_self2) auto
  moreover have "?d - \<bar>k\<bar> + \<bar>k\<bar> - 1 + \<bar>k\<bar> = ?d + \<bar>k\<bar> - 1"
    by simp
  ultimately have "(?d + \<bar>k\<bar> - 1) div \<bar>k\<bar> = 1 + (?d - \<bar>k\<bar> + \<bar>k\<bar> - 1) div \<bar>k\<bar>"
    by (simp only:)
  moreover have "0 \<le> (?d - \<bar>k\<bar> + \<bar>k\<bar> - 1) div \<bar>k\<bar>"
    using k assms by (simp add: pos_imp_zdiv_nonneg_iff)
  ultimately show ?thesis
    unfolding niter_def d' by (simp add: Suc_nat_eq_nat_zadd1)
qed

lemma iters_step:
  assumes "k \<noteq> 0" and "0 < sgn k * (e - s)"
  shows "iters k s e = s # iters k (s + k) e"
  unfolding iters_def niter_step [OF assms]
  by (auto simp: upt_conv_Cons map_Suc_upt [symmetric] algebra_simps simp del: upt_Suc)

text \<open>Cutting a block after \<open>n\<close> iterations.\<close>

lemma niter_multiple: "k \<noteq> 0 \<Longrightarrow> niter k s (s + int n * k) = n"
proof -
  assume k: "k \<noteq> 0"
  have "sgn k * (s + int n * k - s) + \<bar>k\<bar> - 1 = \<bar>k\<bar> - 1 + int n * \<bar>k\<bar>"
    by (simp add: abs_sgn algebra_simps)
  moreover have "(\<bar>k\<bar> - 1 + int n * \<bar>k\<bar>) div \<bar>k\<bar> = int n"
    using k by (subst div_mult_self1) (auto simp: div_pos_pos_trivial)
  ultimately show ?thesis
    by (simp only: niter_def nat_int)
qed

lemma iters_split [iters_simps]:
  assumes "k \<noteq> 0" and "n \<le> niter k s e"
  shows "iters k s (s + int n * k) @ iters k (s + int n * k) e = iters k s e"
  using assms(2)
proof (induction n arbitrary: s)
  case 0
  then show ?case by simp
next
  case (Suc n)
  from Suc.prems have pos: "0 < sgn k * (e - s)"
    using niter_pos_iff [OF assms(1), of s e] by linarith
  have m: "0 < sgn k * (s + int (Suc n) * k - s)"
    using niter_pos_iff [OF assms(1), of s "s + int (Suc n) * k"]
      niter_multiple [OF assms(1), of s "Suc n"] by simp
  have eq: "s + int (Suc n) * k = (s + k) + int n * k"
    by (simp add: algebra_simps)
  have "n \<le> niter k (s + k) e"
    using Suc.prems niter_step [OF assms(1) pos] by simp
  from Suc.IH [OF this] show ?case
    unfolding iters_step [OF assms(1) pos]
    using iters_step [OF assms(1) m] unfolding eq by simp
qed

lemma distinct_iters: "k \<noteq> 0 \<Longrightarrow> distinct (iters k s e)"
  by (auto simp: iters_def distinct_map inj_on_def)

lemma set_iters: "set (iters k s e) = {s + int j * k | j. j < niter k s e}"
  by (auto simp: iters_def)

lemma iters_upt: "iters k s e = map (\<lambda>j. s + int j * k) [0..<niter k s e]"
  by (simp add: iters_def)

lemma iters_slice:
  assumes "k \<noteq> 0" and "a \<le> b"
  shows "iters k (s + int a * k) (s + int b * k) = map (\<lambda>j. s + int j * k) [a..<b]"
proof -
  have "s + int b * k = s + int a * k + int (b - a) * k"
    using assms(2) by (simp add: of_nat_diff algebra_simps)
  then have "niter k (s + int a * k) (s + int b * k) = b - a"
    by (simp only: niter_multiple [OF assms(1)])
  moreover have "[a..<b] = map (\<lambda>j. a + j) [0..<b - a]"
    using assms(2) by (simp add: map_add_upt add.commute)
  ultimately show ?thesis
    by (simp add: iters_def algebra_simps)
qed

subsection \<open>Small facts about lists and runs\<close>

text \<open>Sorting a list into buckets keeps every element exactly once.\<close>

lemma mset_buckets:
  assumes "\<And>x. x \<in> set xs \<Longrightarrow> g x < n"
  shows "mset (concat (map (\<lambda>i. filter (\<lambda>x. g x = i) xs) [0..<n])) = mset xs"
  using assms
proof (induction n arbitrary: xs)
  case 0
  then show ?case by (cases xs) auto
next
  case (Suc n)
  let ?ys = "filter (\<lambda>x. g x \<noteq> n) xs"
  have eq: "map (\<lambda>i. filter (\<lambda>x. g x = i) xs) [0..<n] = map (\<lambda>i. filter (\<lambda>x. g x = i) ?ys) [0..<n]"
    by (auto intro: filter_cong)
  moreover have "g x < n" if "x \<in> set ?ys" for x
    using that Suc.prems [of x] by auto
  ultimately have IH: "mset (concat (map (\<lambda>i. filter (\<lambda>x. g x = i) xs) [0..<n])) = mset ?ys"
    unfolding eq by (intro Suc.IH) simp
  have "mset (concat (map (\<lambda>i. filter (\<lambda>x. g x = i) xs) [0..<Suc n]))
      = mset ?ys + mset (filter (\<lambda>x. g x = n) xs)"
    by (simp add: IH del: mset_filter)
  also have "\<dots> = mset xs"
    by (metis add.commute mset_filter multiset_partition)
  finally show ?case .
qed

lemma concat_map_snoc: "concat (map f (xs @ [x])) = concat (map f xs) @ f x"
  by simp

end
