(* ===== verification/CDouble.thy ===== *)
theory CDouble
  imports Prelude "HOL-Library.Log_Nat" Complex_Main
begin

text \<open>
  C's \<open>double\<close>: IEEE 754 binary64 with round-to-nearest-even, the arithmetic in which the
  chunk sizes of the Bayesian-optimisation schedules are computed. A finite double is the
  rational it denotes; the two zeros are identified (no routine modelled here divides by a
  computed negative zero). \<open>pow\<close> and \<open>log\<close> of libm and the result of an out-of-range
  conversion to an integer type (undefined in C) are parameters, in the record \<open>fpenv\<close>.
\<close>

datatype dbl = Fin rat | PInf | NInf | NaN

record fpenv =
  pow_fn :: "dbl \<Rightarrow> dbl \<Rightarrow> dbl"
  log_fn :: "dbl \<Rightarrow> dbl"
  ub_ulong :: "dbl \<Rightarrow> int"
  ub_long :: "dbl \<Rightarrow> int"

subsection \<open>Rounding\<close>

definition ilog2 :: "rat \<Rightarrow> int" where
  "ilog2 x = (if 1 \<le> x then bitlen \<lfloor>x\<rfloor> - 1 else - bitlen (\<lceil>1 / x\<rceil> - 1))"

definition rne :: "rat \<Rightarrow> int" where
  "rne q = (let f = \<lfloor>q\<rfloor>; r = q - of_int f
            in if r < 1 / 2 \<or> r = 1 / 2 \<and> even f then f else f + 1)"

definition expo :: "rat \<Rightarrow> int" where
  "expo x = max (ilog2 \<bar>x\<bar> - 52) (- 1074)"

definition pack :: "rat \<Rightarrow> dbl" where
  "pack v = (if 2 ^ 1024 \<le> v then PInf else if v \<le> - (2 ^ 1024) then NInf else Fin v)"

definition rnd :: "rat \<Rightarrow> dbl" where
  "rnd x = (if x = 0 then Fin 0
            else pack (of_int (rne (x / 2 powi expo x)) * 2 powi expo x))"

subsection \<open>Arithmetic\<close>

definition dbl_of_int :: "int \<Rightarrow> dbl" where "dbl_of_int n = rnd (of_int n)"

fun dneg :: "dbl \<Rightarrow> dbl" where
  "dneg (Fin x) = Fin (- x)" | "dneg PInf = NInf" | "dneg NInf = PInf" | "dneg NaN = NaN"

fun dadd :: "dbl \<Rightarrow> dbl \<Rightarrow> dbl" where
  "dadd NaN _ = NaN" | "dadd _ NaN = NaN"
| "dadd (Fin x) (Fin y) = rnd (x + y)"
| "dadd PInf NInf = NaN" | "dadd NInf PInf = NaN"
| "dadd PInf _ = PInf" | "dadd NInf _ = NInf" | "dadd _ PInf = PInf" | "dadd _ NInf = NInf"

definition dsub :: "dbl \<Rightarrow> dbl \<Rightarrow> dbl" where "dsub a b = dadd a (dneg b)"

definition inf_sgn :: "rat \<Rightarrow> dbl" where
  "inf_sgn s = (if s = 0 then NaN else if 0 < s then PInf else NInf)"

fun dsgn :: "dbl \<Rightarrow> rat" where
  "dsgn (Fin x) = sgn x" | "dsgn PInf = 1" | "dsgn NInf = - 1" | "dsgn NaN = 0"

fun dmul :: "dbl \<Rightarrow> dbl \<Rightarrow> dbl" where
  "dmul NaN _ = NaN" | "dmul _ NaN = NaN"
| "dmul (Fin x) (Fin y) = rnd (x * y)"
| "dmul a b = inf_sgn (dsgn a * dsgn b)"

fun ddiv :: "dbl \<Rightarrow> dbl \<Rightarrow> dbl" where
  "ddiv NaN _ = NaN" | "ddiv _ NaN = NaN"
| "ddiv (Fin x) (Fin y) = (if y = 0 then inf_sgn (sgn x) else rnd (x / y))"
| "ddiv (Fin x) _ = Fin 0"
| "ddiv a (Fin y) = inf_sgn (dsgn a * (if y < 0 then - 1 else 1))"
| "ddiv _ _ = NaN"

fun isqrt :: "nat \<Rightarrow> nat" where
  "isqrt n = (if n = 0 then 0
              else let r = 2 * isqrt (n div 4) in if (r + 1) * (r + 1) \<le> n then r + 1 else r)"

declare isqrt.simps [simp del]

fun dsqrt :: "dbl \<Rightarrow> dbl" where
  "dsqrt (Fin x) =
     (if x = 0 then Fin 0 else if x < 0 then NaN
      else let e = max (ilog2 x div 2 - 52) (- 1074);
               y = x / 4 powi e;
               f = int (isqrt (nat \<lfloor>y\<rfloor>));
               h = (of_int f + 1 / 2) * (of_int f + 1 / 2);
               m = (if y < h \<or> y = h \<and> even f then f else f + 1)
           in Fin (of_int m * 2 powi e))"
| "dsqrt PInf = PInf" | "dsqrt _ = NaN"

fun dlt :: "dbl \<Rightarrow> dbl \<Rightarrow> bool" where
  "dlt (Fin x) (Fin y) = (x < y)"
| "dlt NaN _ = False" | "dlt _ NaN = False"
| "dlt a PInf = (a \<noteq> PInf)" | "dlt NInf b = (b \<noteq> NInf)" | "dlt _ _ = False"

subsection \<open>Conversion to integer types: truncation, out of range left open\<close>

definition rtrunc :: "rat \<Rightarrow> int" where
  "rtrunc q = (if q < 0 then \<lceil>q\<rceil> else \<lfloor>q\<rfloor>)"

definition dbl_to_ulong :: "fpenv \<Rightarrow> dbl \<Rightarrow> int" where
  "dbl_to_ulong fp d =
     (case d of
        Fin q \<Rightarrow> if 0 \<le> rtrunc q \<and> rtrunc q \<le> ULONG_MAX then rtrunc q else u64 (ub_ulong fp d)
      | _ \<Rightarrow> u64 (ub_ulong fp d))"

definition dbl_to_long :: "fpenv \<Rightarrow> dbl \<Rightarrow> int" where
  "dbl_to_long fp d =
     (case d of
        Fin q \<Rightarrow> if is_long (rtrunc q) then rtrunc q else s64 (ub_long fp d)
      | _ \<Rightarrow> s64 (ub_long fp d))"

definition dceil :: "dbl \<Rightarrow> dbl" where
  "dceil d = (case d of Fin q \<Rightarrow> rnd (of_int \<lceil>q\<rceil>) | _ \<Rightarrow> d)"

lemma dbl_to_ulong_range: "is_ulong (dbl_to_ulong fp d)"
  using u64_range [of "ub_ulong fp d"] by (auto simp: dbl_to_ulong_def split: dbl.split)

lemma dbl_to_long_range: "is_long (dbl_to_long fp d)"
  using s64_range [of "ub_long fp d"] by (auto simp: dbl_to_long_def split: dbl.split)

subsection \<open>The binary exponent\<close>

lemma ilog2_lower:
  assumes "0 < x"
  shows "2 powi ilog2 x \<le> x"
proof (cases "1 \<le> x")
  case True
  then have f: "0 < \<lfloor>x\<rfloor>" by simp
  from bitlen_bounds [OF f] have "2 ^ nat (bitlen \<lfloor>x\<rfloor> - 1) \<le> \<lfloor>x\<rfloor>" by simp
  then have "of_int (2 ^ nat (bitlen \<lfloor>x\<rfloor> - 1)) \<le> x"
    by (simp only: le_floor_iff)
  moreover have "0 \<le> bitlen \<lfloor>x\<rfloor> - 1" using f bitlen_nonneg [of "\<lfloor>x\<rfloor>"] bitlen_bounds [OF f]
    by (cases "bitlen \<lfloor>x\<rfloor> = 0") auto
  ultimately show ?thesis using True
    by (simp add: ilog2_def power_int_def)
next
  case False
  let ?y = "\<lceil>1 / x\<rceil> - 1"
  from False assms have "1 < 1 / x" by simp
  then have y: "0 < ?y" by simp
  from bitlen_bounds [OF y] have "?y < 2 ^ nat (bitlen ?y)" by simp
  then have "\<lceil>1 / x\<rceil> \<le> 2 ^ nat (bitlen ?y)" by simp
  then have "1 / x \<le> of_int (2 ^ nat (bitlen ?y))"
    by (simp only: ceiling_le_iff)
  then have "1 / 2 ^ nat (bitlen ?y) \<le> x"
    using assms by (simp add: field_simps)
  then show ?thesis using False bitlen_nonneg [of ?y] by (simp add: ilog2_def power_int_def)
      (auto simp: inverse_eq_divide power_one_over)
qed


lemma ilog2_less:
  assumes "0 < x" and "x < 2 powi k"
  shows "ilog2 x < k"
proof (rule ccontr)
  assume "\<not> ilog2 x < k"
  then have "(2::rat) powi k \<le> 2 powi ilog2 x"
    by (intro power_int_increasing) auto
  with ilog2_lower [OF assms(1)] assms(2) show False by simp
qed

subsection \<open>Rounding to the nearest integer\<close>

lemma rne_of_int [simp]: "rne (of_int n) = n"
  by (simp add: rne_def)

lemma rne_0 [simp]: "rne 0 = 0"
  using rne_of_int [of 0] by simp

lemma rne_error: "\<bar>of_int (rne q) - q\<bar> \<le> 1 / 2"
proof -
  have "of_int \<lfloor>q\<rfloor> \<le> q" "q < of_int \<lfloor>q\<rfloor> + 1" by linarith+
  then show ?thesis by (auto simp: rne_def Let_def abs_le_iff)
qed

subsection \<open>Values that are represented exactly\<close>

lemma expo_le:
  assumes "n \<noteq> 0" and "\<bar>n\<bar> < 2 ^ 53" and "- 1074 \<le> k"
  shows "expo (of_int n * 2 powi k) \<le> k"
proof -
  let ?x = "of_int n * 2 powi k :: rat"
  have x: "\<bar>?x\<bar> = of_int \<bar>n\<bar> * 2 powi k" by (simp add: abs_mult)
  have "of_int \<bar>n\<bar> < (2 ^ 53 :: rat)" using assms(2) by (metis of_int_less_iff of_int_numeral of_int_power)
  then have "\<bar>?x\<bar> < 2 ^ 53 * 2 powi k" by (simp only: x) (simp add: mult_strict_right_mono)
  also have "\<dots> = (2::rat) powi (53 + k)" by (simp add: power_int_add)
  finally have "ilog2 \<bar>?x\<bar> < 53 + k" using assms(1) by (intro ilog2_less) auto
  then show ?thesis using assms(3) by (simp add: expo_def)
qed

lemma pack_Fin: "\<bar>v\<bar> < 2 ^ 1024 \<Longrightarrow> pack v = Fin v"
  by (auto simp: pack_def abs_less_iff)

lemma rnd_exact:
  assumes "\<bar>n\<bar> < 2 ^ 53" and "- 1074 \<le> k" and "k \<le> 900"
  shows "rnd (of_int n * 2 powi k) = Fin (of_int n * 2 powi k)"
proof (cases "n = 0")
  case True
  then show ?thesis by (simp add: rnd_def)
next
  case False
  let ?x = "of_int n * 2 powi k :: rat" and ?e = "expo (of_int n * 2 powi k)"
  have e: "?e \<le> k" using False assms by (intro expo_le)
  have q: "?x / 2 powi ?e = of_int (n * 2 ^ nat (k - ?e))"
  proof -
    have "?x / 2 powi ?e = of_int n * 2 powi (k - ?e)" by (simp add: power_int_diff)
    also have "(2::rat) powi (k - ?e) = 2 ^ nat (k - ?e)" using e by (simp add: power_int_def)
    finally show ?thesis by simp
  qed
  have "of_int (rne (?x / 2 powi ?e)) * 2 powi ?e = ?x"
    unfolding q rne_of_int unfolding q [symmetric] by simp
  moreover have "\<bar>?x\<bar> < 2 ^ 1024"
  proof -
    have "of_int \<bar>n\<bar> < (2 ^ 53 :: rat)"
      using assms(1) by (metis of_int_less_iff of_int_numeral of_int_power)
    then have "\<bar>?x\<bar> < 2 ^ 53 * 2 powi k" by (simp add: abs_mult mult_strict_right_mono)
    also have "\<dots> \<le> 2 ^ 53 * 2 powi 900" using assms(3) by (intro mult_left_mono power_int_increasing) auto
    also have "\<dots> < 2 ^ 1024" by (simp add: power_int_def power_add [symmetric])
    finally show ?thesis .
  qed
  ultimately show ?thesis using False by (simp add: rnd_def pack_Fin)
qed

lemma rnd_of_int: "\<bar>n\<bar> < 2 ^ 53 \<Longrightarrow> rnd (of_int n) = Fin (of_int n)"
  using rnd_exact [of n 0] by simp

lemma rnd_half: "\<bar>n\<bar> < 2 ^ 53 \<Longrightarrow> rnd (of_int n / 2) = Fin (of_int n / 2)"
  using rnd_exact [of n "- 1"] by (simp add: power_int_minus field_simps)

lemma dbl_of_int_exact: "\<bar>n\<bar> < 2 ^ 53 \<Longrightarrow> dbl_of_int n = Fin (of_int n)"
  by (simp add: dbl_of_int_def rnd_of_int)

lemma rnd_0 [simp]: "rnd 0 = Fin 0"
  by (simp add: rnd_def)

lemma dbl_of_int_0 [simp]: "dbl_of_int 0 = Fin 0"
  by (simp add: dbl_of_int_def)


subsection \<open>A quotient rounded to a double still truncates to the integer quotient\<close>

text \<open>
  The chunk sizes are computed as \<open>(unsigned long) (a / b)\<close> on doubles. The rounding of the
  quotient is at most half a unit in its last place, which is less than its distance to
  the next integer as long as the dividend is below \<open>2 ^ 53\<close>, so the truncation is
  the integer quotient.
\<close>

lemma rnd_error:
  assumes "0 < x" and "expo x = ilog2 x - 52"
  shows "\<bar>of_int (rne (x / 2 powi expo x)) * 2 powi expo x - x\<bar> \<le> x / 2 ^ 53"
proof -
  let ?p = "2 powi expo x :: rat"
  have p: "0 < ?p" by simp
  have "of_int (rne (x / ?p)) * ?p - x = (of_int (rne (x / ?p)) - x / ?p) * ?p"
    by (simp add: left_diff_distrib)
  then have "\<bar>of_int (rne (x / ?p)) * ?p - x\<bar> = \<bar>of_int (rne (x / ?p)) - x / ?p\<bar> * ?p"
    using p by (simp add: abs_mult)
  also have "\<dots> \<le> 1 / 2 * ?p"
    by (intro mult_right_mono rne_error) simp
  also have "\<dots> = 2 powi ilog2 x / 2 ^ 53"
    unfolding assms(2) by (simp add: power_int_diff)
  also have "\<dots> \<le> x / 2 ^ 53"
    using ilog2_lower [OF assms(1)] by (intro divide_right_mono) auto
  finally show ?thesis .
qed

lemma ilog2_ge:
  assumes "0 < x" and "1 / 2 ^ n \<le> x"
  shows "- int n \<le> ilog2 x"
proof (cases "1 \<le> x")
  case True
  then have "0 < \<lfloor>x\<rfloor>" by simp
  then have "0 \<le> bitlen \<lfloor>x\<rfloor> - 1" using bitlen_bounds [of "\<lfloor>x\<rfloor>"] bitlen_nonneg [of "\<lfloor>x\<rfloor>"]
    by (cases "bitlen \<lfloor>x\<rfloor> = 0") auto
  with True show ?thesis by (simp add: ilog2_def)
next
  case False
  let ?y = "\<lceil>1 / x\<rceil> - 1"
  have "1 / x \<le> of_int (2 ^ n)" using assms by (simp add: field_simps)
  then have le: "\<lceil>1 / x\<rceil> \<le> 2 ^ n" by (simp only: ceiling_le_iff)
  show ?thesis
  proof (cases "0 < ?y")
    case True
    from bitlen_bounds [OF True] have "2 ^ nat (bitlen ?y - 1) < (2::int) ^ n" using le by linarith
    then have "nat (bitlen ?y - 1) < n" by simp
    with False show ?thesis by (simp add: ilog2_def)
  next
    case False
    then have "bitlen ?y = 0" by (simp add: bitlen_def floorlog_def)
    with \<open>\<not> 1 \<le> x\<close> show ?thesis by (simp add: ilog2_def)
  qed
qed

lemma floor_of_rounded:
  assumes n: "0 < n" "n < 2 ^ 53" and d: "0 < d" and v: "\<bar>v - of_int n / of_int d\<bar> \<le> of_int n / of_int d / 2 ^ 53"
    and exact: "d dvd n \<Longrightarrow> v = of_int n / (of_int d :: rat)"
  shows "\<lfloor>v\<rfloor> = n div d"
proof (cases "d dvd n")
  case True
  then have "v = of_int (n div d)" using exact d by (auto simp: dvd_def)
  then show ?thesis by simp
next
  case False
  let ?q = "of_int n / of_int d :: rat" and ?f = "n div d" and ?r = "n mod d"
  have r: "1 \<le> ?r" "?r \<le> d - 1" using False d pos_mod_bound [of d n] pos_mod_sign [of d n]
    by (auto simp: dvd_eq_mod_eq_0 int_one_le_iff_zero_less order.strict_iff_order)
  have q: "?q = of_int ?f + of_int ?r / of_int d"
  proof -
    have "(of_int n :: rat) = of_int (?f * d + ?r)" by simp
    then have "(of_int n :: rat) = of_int ?f * of_int d + of_int ?r" by (simp only: of_int_add of_int_mult)
    then show ?thesis using d by (simp add: add_divide_distrib)
  qed
  have err: "?q / 2 ^ 53 < 1 / of_int d"
  proof -
    have "of_int n < (2 ^ 53 :: rat)" using n(2) by (metis of_int_less_iff of_int_numeral of_int_power)
    then show ?thesis using d by (simp add: field_simps)
  qed
  have "1 / of_int d \<le> (of_int ?r / of_int d :: rat)" "of_int ?r / of_int d \<le> (1 - 1 / of_int d :: rat)"
    using r d by (simp_all add: field_simps)
  moreover have "\<bar>v - ?q\<bar> < 1 / of_int d" using v err by (rule le_less_trans)
  ultimately have "of_int ?f \<le> v" "v < of_int ?f + 1" unfolding q abs_less_iff by linarith+
  then show ?thesis by linarith
qed

lemma near_bounds:
  fixes v q :: rat
  assumes "\<bar>v - q\<bar> \<le> q / 2 ^ 53" and "0 < q" and "q < 2 ^ 53"
  shows "0 \<le> v \<and> \<bar>v\<bar> < 2 ^ 1024"
proof -
  have "q / 2 ^ 53 \<le> q" using assms(2) by simp
  with assms(1) have "\<bar>v - q\<bar> \<le> q" by linarith
  then have "0 \<le> v" "v \<le> 2 * q" by (auto simp: abs_le_iff)
  moreover have "2 * q < 2 ^ 1024" using assms(3) by simp
  ultimately show ?thesis by linarith
qed

lemma dbl_quotient_trunc:
  assumes n: "0 \<le> n" "n < 2 ^ 53" and d: "0 < d" "d \<le> 2 ^ 66"
  shows "\<exists>v. rnd (of_int n / of_int d) = Fin v \<and> rtrunc v = n div d"
proof (cases "n = 0")
  case True
  then show ?thesis by (simp add: rtrunc_def)
next
  case False
  with n have n0: "0 < n" by simp
  let ?q = "of_int n / of_int d :: rat"
  let ?v = "of_int (rne (?q / 2 powi expo ?q)) * 2 powi expo ?q :: rat"
  have q0: "0 < ?q" using n0 d by simp
  have nlt: "of_int n < (2 ^ 53 :: rat)" using n(2) by (metis of_int_less_iff of_int_numeral of_int_power)
  have "of_int d \<le> (2 ^ 66 :: rat)" using d(2) by (metis of_int_le_iff of_int_numeral of_int_power)
  moreover have "1 \<le> (of_int n :: rat)" using n0 by simp
  ultimately have "1 / 2 ^ 66 \<le> ?q" using d(1) by (intro frac_le) auto
  then have "- 66 \<le> ilog2 ?q" using ilog2_ge [OF q0, of 66] by simp
  moreover have "\<bar>?q\<bar> = ?q" using q0 by (rule abs_of_pos)
  ultimately have e: "expo ?q = ilog2 ?q - 52" by (simp only: expo_def)
  have qn: "?q \<le> of_int n" using d n0 by (simp add: field_simps)
  have err: "\<bar>?v - ?q\<bar> \<le> ?q / 2 ^ 53" using rnd_error [OF q0 e] .
  have qlt: "?q < 2 ^ 53" using qn nlt by (rule le_less_trans)
  from near_bounds [OF err q0 qlt] have v0: "0 \<le> ?v" and vlt: "\<bar>?v\<bar> < 2 ^ 1024" by auto
  have r: "rnd ?q = Fin ?v" using q0 vlt by (simp add: rnd_def pack_Fin)
  have "d dvd n \<Longrightarrow> ?v = ?q"
  proof -
    assume "d dvd n"
    then obtain c where c: "n = d * c" by blast
    have "0 < c" using c n0 d(1) by (simp add: zero_less_mult_iff)
    moreover have "c \<le> n" using c d(1) \<open>0 < c\<close> by simp
    ultimately have "rnd (of_int c) = Fin (of_int c)" using n(2) by (intro rnd_of_int) simp
    moreover have "?q = of_int c" using c d(1) by simp
    ultimately show ?thesis using r by simp
  qed
  from floor_of_rounded [OF n0 n(2) d(1) err this] have "\<lfloor>?v\<rfloor> = n div d" .
  then show ?thesis using r v0 by (auto simp: rtrunc_def)
qed

lemma dbl_to_ulong_quotient:
  assumes "0 \<le> n" "n < 2 ^ 53" and "0 < d" "d \<le> 2 ^ 66"
  shows "dbl_to_ulong fp (rnd (of_int n / of_int d)) = n div d"
proof -
  obtain v where v: "rnd (of_int n / of_int d) = Fin v" "rtrunc v = n div d"
    using dbl_quotient_trunc [OF assms] by blast
  have "0 \<le> n div d" using assms by (simp add: pos_imp_zdiv_nonneg_iff)
  moreover have "n div d \<le> n" using assms(1,3) using zdiv_mono2 [of n 1 d] by simp
  ultimately show ?thesis using assms(2) by (simp add: dbl_to_ulong_def v)
qed

end
