(* ===== verification/WorkShare.thy ===== *)
theory WorkShare
  imports CDouble
begin

text \<open>
  The data of \<open>gcc/libgomp/libgomp.h\<close> that the work-sharing routines use: the schedule kinds,
  the descriptor \<open>struct gomp_work_share\<close> of one loop or sections construct, the per-thread
  team state, and the schedule predicates of \<open>bo_scheduling.h\<close>. Integers are \<open>int\<close>; the
  \<open>long\<close> and the \<open>unsigned long long\<close> member of a union are one field, kept in the
  range of the member that the routine uses.
\<close>

datatype gomp_schedule_type =
    GFS_RUNTIME | GFS_STATIC | GFS_DYNAMIC | GFS_GUIDED | GFS_AUTO
  | FS_BINLPT | FS_HSS | FS_AFAC | FS_FAC2 | FS_FSS | FS_TSS | FS_CSS | FS_TAPE
  | FS_TRAP1 | FS_TAPE3 | BO_FSS | BO_FAC | BO_CSS | BO_TSS | BO_TAPE

text \<open>\<open>struct gomp_doacross_work_share\<close>: \<open>d_array\<close> has one entry of words for each unit of the
  outermost loop that is posted together; \<open>d_chunk_size\<close> and \<open>d_q\<close> are members of one union.\<close>

record doacross_ws =
  d_chunk_size :: int
  d_elt_sz :: int
  d_ncounts :: nat
  d_flattened :: bool
  d_array :: "int list list"
  d_t :: int
  d_boundary :: int
  d_shift_counts :: "nat list"

text \<open>The pointers \<open>ordered_team_ids\<close> and \<open>doacross\<close> are members of one union; a null pointer
  is \<open>[]\<close> and \<open>None\<close>.\<close>

record work_share =
  sched :: gomp_schedule_type
  param :: dbl
  mode :: c_int
  chunk_size :: int
  end_it :: int
  incr :: int
  barrier :: int
  count :: int
  next_it :: int
  loop_start :: int
  taskmap :: "int list"
  thread_start :: "int list"
  nthreads_ws :: int
  wremaining :: int
  ordered_team_ids :: "int list"
  doacross :: "doacross_ws option"
  ordered_num_used :: c_uint
  ordered_owner :: c_uint
  ordered_cur :: c_uint
  threads_completed :: c_uint

text \<open>
  \<open>thread_ctx\<close> is the part of \<open>struct gomp_team_state\<close> the iterators read:
  \<open>team_nthreads\<close> is \<open>None\<close> for an orphaned construct (\<open>team == NULL\<close>).
\<close>

record thread_ctx =
  team_nthreads :: "int option"
  team_id :: c_uint
  static_trip :: c_ulong

definition nthreads_of :: "thread_ctx \<Rightarrow> int" where
  "nthreads_of thr = (case team_nthreads thr of None \<Rightarrow> 1 | Some n \<Rightarrow> n)"

definition is_bo_schedule :: "gomp_schedule_type \<Rightarrow> bool" where
  "is_bo_schedule s \<longleftrightarrow> s = BO_FSS \<or> s = BO_CSS \<or> s = BO_TAPE \<or> s = BO_TSS"

definition is_parameterized :: "gomp_schedule_type \<Rightarrow> bool" where
  "is_parameterized s \<longleftrightarrow> is_bo_schedule s"

text \<open>A descriptor to start from: \<open>gomp_loop_init\<close> writes into recycled memory.\<close>

definition ws_zero :: work_share where
  "ws_zero = \<lparr>sched = GFS_STATIC, param = Fin 0, mode = 0, chunk_size = 0, end_it = 0, incr = 1,
     barrier = 0, count = 0, next_it = 0, loop_start = 0, taskmap = [], thread_start = [],
     nthreads_ws = 0, wremaining = 0, ordered_team_ids = [], doacross = None, ordered_num_used = 0,
     ordered_owner = 0, ordered_cur = 0, threads_completed = 0\<rparr>"

text \<open>
  The iteration space of a descriptor and the conditions under which the \<open>long\<close> arithmetic
  on it does not overflow: the distance from \<open>next\<close> to \<open>end\<close> is a \<open>long\<close> and is not
  negative in the direction of the step (\<open>gomp_loop_init\<close> makes empty loops canonical).
\<close>

definition extent :: "work_share \<Rightarrow> int" where
  "extent ws = sgn (incr ws) * (end_it ws - next_it ws)"

definition space :: "work_share \<Rightarrow> int list" where
  "space ws = iters (incr ws) (next_it ws) (end_it ws)"

definition long_loop :: "work_share \<Rightarrow> bool" where
  "long_loop ws \<longleftrightarrow> incr ws \<noteq> 0 \<and> is_long (incr ws) \<and> is_long (next_it ws) \<and> is_long (end_it ws)
     \<and> 0 \<le> extent ws \<and> extent ws \<le> LONG_MAX"

end
