(* ===== verification/IterStatic.thy ===== *)
theory IterStatic
  imports WorkShare
begin

text \<open>
  The STATIC schedule, \<open>gomp_iter_static_next\<close> of \<open>gcc/libgomp/iter.c\<close> and
  \<open>gomp_iter_ull_static_next\<close> of \<open>iter_ull.c\<close>: no shared state changes, each thread
  computes its blocks from its number and its trip count. The theorems say that the blocks
  of all threads, in order, are the iterations of the loop, each exactly once.
\<close>

subsection \<open>The routine\<close>

text \<open>
  The result is the return code, the block written to \<open>*pstart\<close>, \<open>*pend\<close> (if any) and the
  thread state. \<open>static_trip == -1\<close> compares an \<open>unsigned long\<close>, so \<open>-1\<close> is \<open>ULONG_MAX\<close>.
\<close>

definition static_total :: "work_share \<Rightarrow> int" where
  "static_total ws =
     (let s = s64 (incr ws + (if 0 < incr ws then - 1 else 1))
      in u64 (s64 (s64 (end_it ws - next_it ws) + s) sdiv incr ws))"

definition gomp_iter_static_next ::
  "thread_ctx \<Rightarrow> work_share \<Rightarrow> int \<times> (int \<times> int) option \<times> thread_ctx" where
  "gomp_iter_static_next thr ws =
    (let nthreads = nthreads_of thr in
     if static_trip thr = ULONG_MAX then (- 1, None, thr)
     else if nthreads = 1 then
       (if next_it ws = end_it ws then 1 else 0, Some (next_it ws, end_it ws),
        thr\<lparr>static_trip := ULONG_MAX\<rparr>)
     else if chunk_size ws = 0 then
       if 0 < static_trip thr then (1, None, thr)
       else
         let n = static_total ws;
             i = team_id thr;
             q0 = n div nthreads;
             t0 = n mod nthreads;
             (t, q) = (if i < t0 then (0, u64 (q0 + 1)) else (t0, q0));
             s0 = u64 (u64 (q * i) + t);
             e0 = u64 (s0 + q)
         in if s0 \<ge> e0 then (1, None, thr\<lparr>static_trip := 1\<rparr>)
            else let s = s64 (s64 (s64 s0 * incr ws) + next_it ws);
                     e = s64 (s64 (s64 e0 * incr ws) + next_it ws)
                 in (0, Some (s, e), thr\<lparr>static_trip := (if e0 = n then ULONG_MAX else 1)\<rparr>)
     else
       let n = static_total ws;
           i = team_id thr;
           c = u64 (chunk_size ws);
           s0 = u64 (u64 (u64 (static_trip thr * nthreads) + i) * c);
           e0 = u64 (s0 + c)
       in if s0 \<ge> n then (1, None, thr)
          else let e1 = (if e0 > n then n else e0);
                   s = s64 (s64 (s64 s0 * incr ws) + next_it ws);
                   e = s64 (s64 (s64 e1 * incr ws) + next_it ws)
               in (0, Some (s, e),
                   thr\<lparr>static_trip := (if e1 = n then ULONG_MAX else u64 (static_trip thr + 1))\<rparr>))"

text \<open>The unsigned variant: the direction is \<open>ws->mode\<close>, and a downward step is stored as
  \<open>2 ^ 64 - \<bar>incr\<bar>\<close>.\<close>

definition static_total_ull :: "work_share \<Rightarrow> int" where
  "static_total_ull ws =
     (if mode ws = 0
      then u64 (u64 (u64 (end_it ws - next_it ws) + incr ws) - 1) div incr ws
      else u64 (u64 (u64 (next_it ws - end_it ws) - incr ws) - 1) div u64 (- incr ws))"

definition gomp_iter_ull_static_next ::
  "thread_ctx \<Rightarrow> work_share \<Rightarrow> int \<times> (int \<times> int) option \<times> thread_ctx" where
  "gomp_iter_ull_static_next thr ws =
    (let nthreads = nthreads_of thr in
     if static_trip thr = ULONG_MAX then (- 1, None, thr)
     else if nthreads = 1 then
       (if next_it ws = end_it ws then 1 else 0, Some (next_it ws, end_it ws),
        thr\<lparr>static_trip := ULONG_MAX\<rparr>)
     else if chunk_size ws = 0 then
       if 0 < static_trip thr then (1, None, thr)
       else
         let n = static_total_ull ws;
             i = team_id thr;
             q0 = n div nthreads;
             t0 = n mod nthreads;
             (t, q) = (if i < t0 then (0, u64 (q0 + 1)) else (t0, q0));
             s0 = u64 (u64 (q * i) + t);
             e0 = u64 (s0 + q)
         in if s0 \<ge> e0 then (1, None, thr\<lparr>static_trip := 1\<rparr>)
            else let s = u64 (u64 (s0 * incr ws) + next_it ws);
                     e = u64 (u64 (e0 * incr ws) + next_it ws)
                 in (0, Some (s, e), thr\<lparr>static_trip := (if e0 = n then ULONG_MAX else 1)\<rparr>)
     else
       let n = static_total_ull ws;
           i = team_id thr;
           c = chunk_size ws;
           s0 = u64 (u64 (u64 (static_trip thr * nthreads) + i) * c);
           e0 = u64 (s0 + c)
       in if s0 \<ge> n then (1, None, thr)
          else let e1 = (if e0 > n then n else e0);
                   s = u64 (u64 (s0 * incr ws) + next_it ws);
                   e = u64 (u64 (e1 * incr ws) + next_it ws)
               in (0, Some (s, e),
                   thr\<lparr>static_trip := (if e1 = n then ULONG_MAX else u64 (static_trip thr + 1))\<rparr>))"


subsection \<open>What a call computes, on iteration numbers\<close>

text \<open>
  \<open>static_block T i r c N\<close> is a call of thread \<open>i\<close> of \<open>T \<ge> 2\<close> on its trip \<open>r\<close>, over
  a loop of \<open>N\<close> iterations, without any machine arithmetic: the blocks are intervals of
  iteration numbers. Both variants of the routine implement it.
\<close>

definition static_lo :: "int \<Rightarrow> int \<Rightarrow> int \<Rightarrow> int" where
  "static_lo N T i = i * (N div T) + min i (N mod T)"

definition static_block :: "int \<Rightarrow> int \<Rightarrow> int \<Rightarrow> int \<Rightarrow> int \<Rightarrow> int \<times> (int \<times> int) option \<times> int" where
  "static_block T i r c N =
    (if r = ULONG_MAX then (- 1, None, r)
     else if c = 0 then
       if 0 < r then (1, None, r)
       else let a = static_lo N T i; b = static_lo N T (i + 1)
            in if b \<le> a then (1, None, 1)
               else (0, Some (a, b), if b = N then ULONG_MAX else 1)
     else let a = (r * T + i) * c; b = min N (a + c)
          in if N \<le> a then (1, None, r)
             else (0, Some (a, b), if b = N then ULONG_MAX else r + 1))"

definition block_at :: "int \<Rightarrow> int \<Rightarrow> (int \<times> int) \<Rightarrow> int \<times> int" where
  "block_at s k b = (s + fst b * k, s + snd b * k)"

text \<open>The number of iterations.\<close>

definition total :: "work_share \<Rightarrow> int" where
  "total ws = int (niter (incr ws) (next_it ws) (end_it ws))"

text \<open>
  The no-overflow conditions for a \<open>long\<close> loop shared by \<open>T\<close> threads with chunk \<open>c\<close>. The
  iterator rounds the distance up to a multiple of the step, so the rounded end must be a
  \<open>long\<close> too; \<open>(trip * T + i) * c\<close> must not wrap before it passes the last iteration.
\<close>

definition static_ok :: "work_share \<Rightarrow> int \<Rightarrow> bool" where
  "static_ok ws T \<longleftrightarrow> long_loop ws \<and> extent ws + \<bar>incr ws\<bar> \<le> LONG_MAX
     \<and> is_long (next_it ws + total ws * incr ws) \<and> 1 \<le> T \<and> T < 2 ^ 31
     \<and> 0 \<le> chunk_size ws \<and> (T + 2) * chunk_size ws + extent ws \<le> LONG_MAX"

lemma total_div: "incr ws \<noteq> 0 \<Longrightarrow> 0 \<le> extent ws \<Longrightarrow> total ws = (extent ws + \<bar>incr ws\<bar> - 1) div \<bar>incr ws\<bar>"
  by (simp add: total_def niter_def extent_def pos_imp_zdiv_nonneg_iff)

lemma static_total_eq:
  assumes "static_ok ws T"
  shows "static_total ws = total ws" "total ws \<le> LONG_MAX" "0 \<le> total ws"
    "total ws * \<bar>incr ws\<bar> \<le> extent ws + \<bar>incr ws\<bar> - 1"
proof -
  let ?k = "incr ws" and ?d = "extent ws"
  have k: "?k \<noteq> 0" "0 < \<bar>?k\<bar>" and d: "0 \<le> ?d" "?d + \<bar>?k\<bar> \<le> LONG_MAX"
    and L: "is_long ?k" "?d \<le> LONG_MAX"
    using assms by (auto simp: static_ok_def long_loop_def)
  have diff: "end_it ws - next_it ws = sgn ?k * ?d"
    using k(1) by (simp add: extent_def mult.assoc [symmetric] sgn_mult_self_eq)
  have s: "s64 (?k + (if 0 < ?k then - 1 else 1)) = sgn ?k * (\<bar>?k\<bar> - 1)"
    using L k by (auto simp: wrap_simps sgn_if)
  have "s64 (end_it ws - next_it ws) = sgn ?k * ?d"
    unfolding diff using L d by (auto simp: sgn_if intro!: s64_id)
  moreover have "sgn ?k * ?d + sgn ?k * (\<bar>?k\<bar> - 1) = sgn ?k * (?d + \<bar>?k\<bar> - 1)"
    by (simp add: algebra_simps)
  then have "s64 (sgn ?k * ?d + sgn ?k * (\<bar>?k\<bar> - 1)) = sgn ?k * (?d + \<bar>?k\<bar> - 1)"
    using d k by (simp only:) (intro s64_id; auto simp: sgn_if)
  moreover have "(sgn ?k * (?d + \<bar>?k\<bar> - 1)) sdiv ?k = (?d + \<bar>?k\<bar> - 1) div \<bar>?k\<bar>"
    using k d by (intro sdiv_same_sign) auto
  moreover show t0: "0 \<le> total ws" by (simp add: total_def)
  moreover have "(?d + \<bar>?k\<bar> - 1) div \<bar>?k\<bar> \<le> ?d + \<bar>?k\<bar> - 1"
    using zdiv_mono2 [of "?d + \<bar>?k\<bar> - 1" 1 "\<bar>?k\<bar>"] d k by simp
  then show tm: "total ws \<le> LONG_MAX" using total_div [OF k(1) d(1)] d by simp
  ultimately show "static_total ws = total ws"
    using total_div [OF k(1) d(1)] by (simp add: static_total_def s u64_id)
  show "total ws * \<bar>?k\<bar> \<le> ?d + \<bar>?k\<bar> - 1"
    unfolding total_div [OF k(1) d(1)]
    using div_mult_mod_eq [of "?d + \<bar>?k\<bar> - 1" "\<bar>?k\<bar>"] pos_mod_sign [OF k(2), of "?d + \<bar>?k\<bar> - 1"]
    by linarith
qed


subsection \<open>The even split\<close>

lemma static_lo_0 [simp]: "0 \<le> N \<Longrightarrow> 0 < T \<Longrightarrow> static_lo N T 0 = 0"
  by (simp add: static_lo_def min_def)

lemma static_lo_T [simp]: "0 < T \<Longrightarrow> static_lo N T T = N"
  using pos_mod_bound [of T N] by (simp add: static_lo_def min_absorb2)

lemma static_lo_Suc: "static_lo N T (i + 1) = static_lo N T i + N div T + (if i < N mod T then 1 else 0)"
  by (auto simp: static_lo_def min_def algebra_simps)

lemma static_lo_mono:
  assumes "0 \<le> N" and "0 < T" and "i \<le> j"
  shows "static_lo N T i \<le> static_lo N T j"
proof -
  have "i * (N div T) \<le> j * (N div T)"
    using assms by (intro mult_right_mono) (auto simp: pos_imp_zdiv_nonneg_iff)
  then show ?thesis using assms(3) by (simp add: static_lo_def min_def)
qed

lemma static_lo_range:
  assumes "0 \<le> N" and "0 < T" and "0 \<le> i" and "i \<le> T"
  shows "0 \<le> static_lo N T i" "static_lo N T i \<le> N"
  using static_lo_mono [OF assms(1-3)] static_lo_mono [OF assms(1,2,4)] assms by simp_all

lemma static_lo_calc:
  assumes "0 \<le> N" and "0 < T" and "0 \<le> i" and "i < T" and "N \<le> ULONG_MAX" and "2 \<le> T"
  shows "(let (t, q) = (if i < N mod T then (0, u64 (N div T + 1)) else (N mod T, N div T));
              s0 = u64 (u64 (q * i) + t); e0 = u64 (s0 + q) in (s0, e0))
         = (static_lo N T i, static_lo N T (i + 1))"
proof -
  have r: "0 \<le> static_lo N T i" "static_lo N T i \<le> ULONG_MAX"
      "0 \<le> static_lo N T (i + 1)" "static_lo N T (i + 1) \<le> ULONG_MAX"
    using static_lo_range [of N T i] static_lo_range [of N T "i + 1"] assms by auto
  have q: "0 \<le> N div T" "N div T \<le> LONG_MAX"
    using assms zdiv_mono2 [of N 2 T] by (auto simp: pos_imp_zdiv_nonneg_iff)
  have S: "(N div T + 1) * i = static_lo N T i" if "i < N mod T"
    using that by (simp add: static_lo_def algebra_simps)
  have S': "N div T * i + N mod T = static_lo N T i" if "\<not> i < N mod T"
    using that by (simp add: static_lo_def algebra_simps)
  have U: "u64 (u64 (q * i) + t) = u64 (q * i + t)" for q t by simp
  show ?thesis
  proof (cases "i < N mod T")
    case True
    with S r q show ?thesis
      by (simp add: U static_lo_Suc wrap_simps add.assoc)
  next
    case False
    with S' r q show ?thesis
      by (simp add: U static_lo_Suc wrap_simps)
  qed
qed

subsection \<open>Both routines implement the interval computation\<close>

lemma between_mult:
  assumes "0 \<le> a" and "a \<le> (N::int)" and "lo \<le> s" "s \<le> hi" "lo \<le> s + N * k" "s + N * k \<le> hi"
  shows "lo \<le> s + a * k" "s + a * k \<le> hi"
proof -
  have "lo \<le> s + a * k \<and> s + a * k \<le> hi"
  proof (cases "0 \<le> k")
    case True
    then have "a * k \<le> N * k" "0 \<le> a * k" using assms(1,2) by (simp_all add: mult_right_mono)
    then show ?thesis using assms by linarith
  next
    case False
    then have "N * k \<le> a * k" "a * k \<le> 0" using assms(1,2) by (simp_all add: mult_right_mono_neg mult_le_0_iff)
    then show ?thesis using assms by linarith
  qed
  then show "lo \<le> s + a * k" "s + a * k \<le> hi" by auto
qed

lemma static_pos:
  assumes "static_ok ws T" and "0 \<le> a" and "a \<le> total ws"
  shows "s64 (s64 (s64 a * incr ws) + next_it ws) = next_it ws + a * incr ws"
proof -
  let ?k = "incr ws"
  have L: "is_long (next_it ws)" "is_long (next_it ws + total ws * ?k)" "extent ws + \<bar>?k\<bar> \<le> LONG_MAX"
    using assms(1) by (auto simp: static_ok_def long_loop_def)
  have "a * \<bar>?k\<bar> \<le> total ws * \<bar>?k\<bar>" using assms(3) by (intro mult_right_mono) auto
  with static_total_eq(4) [OF assms(1)] have b: "a * \<bar>?k\<bar> \<le> extent ws + \<bar>?k\<bar> - 1" by linarith
  have n: "0 \<le> a * \<bar>?k\<bar>" using assms(2) by simp
  have a: "s64 a = a" using assms static_total_eq(2) [OF assms(1)] by (intro s64_id) auto
  have ak: "s64 (a * ?k) = a * ?k"
    using b n L by (intro s64_id) (auto simp: abs_if split: if_splits)
  have "s64 (next_it ws + a * ?k) = next_it ws + a * ?k"
    using between_mult [OF assms(2,3)] L by (intro s64_id) blast+
  then show ?thesis by (simp add: a ak add.commute)
qed

text \<open>The trip counts that occur: the previous block of this thread began before the end.\<close>

definition trip_ok :: "int \<Rightarrow> int \<Rightarrow> int \<Rightarrow> int \<Rightarrow> int \<Rightarrow> bool" where
  "trip_ok T i c N r \<longleftrightarrow> r = ULONG_MAX \<or> r = 0
     \<or> 0 < r \<and> r \<le> LONG_MAX \<and> (0 < c \<longrightarrow> ((r - 1) * T + i) * c < N)"

lemma trip_chunk_bounds:
  assumes "trip_ok T i c N r" and "r \<noteq> ULONG_MAX" and "0 < c" and "2 \<le> T" and "0 \<le> i" and "i < T"
    and "0 \<le> N" and "(T + 2) * c + N \<le> B"
  shows "0 \<le> r" "0 \<le> (r * T + i) * c" "(r * T + i) * c + c \<le> B" "r * T + i \<le> B" "r * T \<le> B" "r \<le> B"
proof -
  show r: "0 \<le> r" using assms(1,2) by (auto simp: trip_ok_def)
  have "(r * T + i) * c \<le> N + T * c"
  proof (cases "r = 0")
    case True
    have "i * c \<le> T * c" using assms by (intro mult_right_mono) auto
    with True assms(7) show ?thesis by simp
  next
    case False
    with assms have "((r - 1) * T + i) * c < N" by (auto simp: trip_ok_def)
    then show ?thesis by (simp add: algebra_simps)
  qed
  with assms(3,8) show b: "(r * T + i) * c + c \<le> B" by (simp add: algebra_simps)
  show p: "0 \<le> (r * T + i) * c" using r assms by simp
  have "0 \<le> r * T + i" using r assms by simp
  then have "(r * T + i) * 1 \<le> (r * T + i) * c" using assms(3) by (intro mult_left_mono) auto
  with b assms(3) show m: "r * T + i \<le> B" by simp
  with assms(5) show rt: "r * T \<le> B" by simp
  have "r * 1 \<le> r * T" using r assms by (intro mult_left_mono) auto
  with rt show "r \<le> B" by simp
qed

lemma gomp_iter_static_next_block:
  assumes ok: "static_ok ws T" and T: "team_nthreads thr = Some T" "2 \<le> T"
    and i: "0 \<le> team_id thr" "team_id thr < T"
    and r: "trip_ok T (team_id thr) (chunk_size ws) (total ws) (static_trip thr)"
  shows "gomp_iter_static_next thr ws =
    (case static_block T (team_id thr) (static_trip thr) (chunk_size ws) (total ws) of
       (ret, b, r') \<Rightarrow> (ret, map_option (block_at (next_it ws) (incr ws)) b, thr\<lparr>static_trip := r'\<rparr>))"
proof (cases "static_trip thr = ULONG_MAX")
  case True
  then show ?thesis using T by (simp add: gomp_iter_static_next_def static_block_def nthreads_of_def)
next
  case notend: False
  let ?N = "total ws" and ?i = "team_id thr" and ?r = "static_trip thr" and ?c = "chunk_size ws"
  note n = static_total_eq [OF ok]
  have nt: "nthreads_of thr = T" "T \<noteq> 1" using T by (auto simp: nthreads_of_def)
  show ?thesis
  proof (cases "?c = 0")
    case True
    show ?thesis
    proof (cases "0 < ?r")
      case True
      then show ?thesis using notend nt \<open>?c = 0\<close>
        by (simp add: gomp_iter_static_next_def static_block_def)
    next
      case False
      have lo: "0 \<le> static_lo ?N T ?i" "static_lo ?N T ?i \<le> ?N"
          "0 \<le> static_lo ?N T (?i + 1)" "static_lo ?N T (?i + 1) \<le> ?N"
        using static_lo_range [of ?N T ?i] static_lo_range [of ?N T "?i + 1"] n T i by auto
      obtain t q where tq: "(if ?i < ?N mod T then (0, u64 (?N div T + 1)) else (?N mod T, ?N div T)) = (t, q)"
        by (cases "?i < ?N mod T") auto
      have s0: "u64 (u64 (q * ?i) + t) = static_lo ?N T ?i" "u64 (static_lo ?N T ?i + q) = static_lo ?N T (?i + 1)"
        using static_lo_calc [OF n(3) _ i _ T(2)] T(2) n(2) unfolding tq by (auto simp: Let_def simp del: u64_add_u64)
      show ?thesis
        unfolding gomp_iter_static_next_def Let_def nt n(1) tq prod.case s0
        using notend nt(2) \<open>?c = 0\<close> False lo
        by (simp add: static_block_def Let_def static_pos [OF ok] block_at_def)
    qed
  next
    case False
    then have c: "0 < ?c" "0 \<le> ?c" using ok by (auto simp: static_ok_def)
    have Nd: "?N \<le> extent ws"
    proof -
      have "?N \<le> extent ws + \<bar>incr ws\<bar> - 1 - ?N * (\<bar>incr ws\<bar> - 1)"
        using n(4) by (simp add: algebra_simps)
      moreover have "?N = 0 \<or> \<bar>incr ws\<bar> - 1 \<le> ?N * (\<bar>incr ws\<bar> - 1)"
      proof (cases "?N = 0")
        case False
        then have "1 \<le> ?N" using n(3) by linarith
        moreover have "0 \<le> \<bar>incr ws\<bar> - 1" using ok by (auto simp: static_ok_def long_loop_def)
        ultimately have "1 * (\<bar>incr ws\<bar> - 1) \<le> ?N * (\<bar>incr ws\<bar> - 1)" by (rule mult_right_mono)
        then show ?thesis by simp
      qed simp
      moreover have "0 \<le> extent ws" using ok by (simp add: static_ok_def long_loop_def)
      ultimately show ?thesis by linarith
    qed
    then have B: "(T + 2) * ?c + ?N \<le> ULONG_MAX" using ok by (auto simp: static_ok_def)
    note tb = trip_chunk_bounds [OF r notend c(1) T(2) i n(3) B]
    have cc: "u64 ?c = ?c"
    proof -
      have "1 * ?c \<le> (T + 2) * ?c" using T(2) c by (intro mult_right_mono) auto
      then show ?thesis using B n(3) c by (intro u64_id) linarith+
    qed
    have s0: "u64 (u64 (u64 (?r * T) + ?i) * ?c) = (?r * T + ?i) * ?c"
      using tb i c by (simp add: u64_id)
    have e0: "u64 ((?r * T + ?i) * ?c + ?c) = (?r * T + ?i) * ?c + ?c"
      using tb c by (intro u64_id) auto
    have r1: "u64 (?r + 1) = ?r + 1"
      using notend tb(1,6) by (intro u64_id) auto
    show ?thesis
      unfolding gomp_iter_static_next_def Let_def nt n(1) cc s0 e0 r1
      using notend nt(2) False tb(1,2,6) c n
      by (auto simp: static_block_def Let_def static_pos [OF ok] block_at_def min_def)
  qed
qed


subsection \<open>Who executes an iteration\<close>

definition static_owner :: "int \<Rightarrow> int \<Rightarrow> nat \<Rightarrow> nat" where
  "static_owner T c j = nat ((int j div c) mod T)"

lemma owner_in_block:
  assumes "0 < c" and "0 < T" and "i < nat T" and "(r * T + int i) * c \<le> int j" and "int j < (r * T + int i) * c + c"
  shows "static_owner T c j = i"
proof -
  have "int j div c = r * T + int i"
    using assms(1,4,5) by (intro int_div_pos_eq [of _ _ _ "int j - (r * T + int i) * c"]) auto
  then show ?thesis using assms(2,3) by (simp add: static_owner_def mod_add_left_eq)
qed

lemma owner_between_blocks:
  assumes "0 < c" and "0 < T" and "i < nat T" and "(r * T + int i) * c + c \<le> int j"
    and "int j < ((r + 1) * T + int i) * c"
  shows "static_owner T c j \<noteq> i"
proof
  assume "static_owner T c j = i"
  then have m: "(int j div c) mod T = int i" using assms(2) by (auto simp: static_owner_def)
  have "r * T + int i + 1 \<le> int j div c"
    using assms(1,4) zdiv_mono1 [of "(r * T + int i + 1) * c" "int j" c] by (simp add: algebra_simps)
  moreover have "int j div c < (r + 1) * T + int i"
    using assms(1,5) by (rule div_less_of_less_mult)
  moreover have "int j div c = (int j div c) div T * T + int i" using m div_mult_mod_eq [of "int j div c" T] by simp
  ultimately have "r * T < (int j div c) div T * T" "(int j div c) div T * T < (r + 1) * T" by linarith+
  then have "r < (int j div c) div T" "(int j div c) div T < r + 1"
    using assms(2) by (simp_all add: mult_less_cancel_right)
  then show False by simp
qed

lemma owner_before_first:
  assumes "0 < c" and "int j < int i * c" and "i < nat T"
  shows "static_owner T c j \<noteq> i"
proof -
  have "int j div c < int i" using assms(1,2) by (rule div_less_of_less_mult)
  moreover have "0 \<le> int j div c" using assms(1) by (simp add: pos_imp_zdiv_nonneg_iff)
  ultimately have "(int j div c) mod T = int j div c" using assms(3) by (intro mod_pos_pos_trivial) auto
  with \<open>int j div c < int i\<close> \<open>0 \<le> int j div c\<close> show ?thesis by (simp add: static_owner_def)
qed


subsection \<open>The chunked schedule\<close>

lemma filter_upt_split:
  assumes "a \<le> b" and "b \<le> (c::nat)"
  shows "filter P [a..<c] = filter P [a..<b] @ filter P [b..<c]"
  using assms by (metis filter_append le_Suc_ex upt_add_eq_append)

lemma filter_all: "(\<And>x. x \<in> set xs \<Longrightarrow> P x) \<Longrightarrow> filter P xs = xs"
  by simp

lemma filter_none: "(\<And>x. x \<in> set xs \<Longrightarrow> \<not> P x) \<Longrightarrow> filter P xs = []"
  by (simp add: filter_empty_conv)

lemma owner_filter_step:
  assumes c: "0 < c" and T: "0 < T" and i: "i < nat T" and r: "0 \<le> r" and a: "(r * T + int i) * c < int N"
  shows "filter (\<lambda>j. static_owner T c j = i) [nat ((r * T + int i) * c)..<N]
    = [nat ((r * T + int i) * c)..<nat (min (int N) ((r * T + int i) * c + c))]
      @ filter (\<lambda>j. static_owner T c j = i) [nat (((r + 1) * T + int i) * c)..<N]"
proof -
  let ?P = "\<lambda>j. static_owner T c j = i"
  let ?a = "nat ((r * T + int i) * c)" and ?b = "nat (min (int N) ((r * T + int i) * c + c))"
    and ?a' = "nat (((r + 1) * T + int i) * c)"
  have nn: "0 \<le> (r * T + int i) * c" using r T c by simp
  have ab: "?a \<le> ?b" "?b \<le> N" using nn c a by auto
  have step: "(r * T + int i) * c + c \<le> ((r + 1) * T + int i) * c"
    using mult_right_mono [of 1 T c] T c by (simp add: algebra_simps)
  have first: "filter ?P [?a..<?b] = [?a..<?b]"
    using owner_in_block [OF c T i] nn by (intro filter_all) (auto simp: nat_le_iff zless_nat_eq_int_zless)
  have rest: "filter ?P [?b..<N] = filter ?P [?a'..<N]"
  proof (cases "?a' \<le> N")
    case True
    then have b: "?b = nat ((r * T + int i) * c + c)" "?b \<le> ?a'" using step nn by auto
    have "filter ?P [?b..<?a'] = []"
      unfolding b(1) using owner_between_blocks [OF c T i] nn c
      by (intro filter_none) (auto simp: nat_le_iff zless_nat_eq_int_zless)
    then show ?thesis using filter_upt_split [OF b(2) True, of ?P] by simp
  next
    case False
    have "filter ?P [?b..<N] = []"
    proof (rule filter_none)
      fix j assume j: "j \<in> set [?b..<N]"
      then have "(r * T + int i) * c + c \<le> int j" by (auto simp: nat_le_iff min_def split: if_splits)
      moreover have "int j < ((r + 1) * T + int i) * c" using j False by (auto simp: zless_nat_eq_int_zless)
      ultimately show "\<not> static_owner T c j = i" by (rule owner_between_blocks [OF c T i])
    qed
    then show ?thesis using False by simp
  qed
  show ?thesis using filter_upt_split [OF ab, of ?P] first rest by simp
qed

subsection \<open>The unsigned routine\<close>

text \<open>The step an unsigned loop really takes, and its no-overflow conditions.\<close>

definition ull_step :: "work_share \<Rightarrow> int" where
  "ull_step ws = (if mode ws = 0 then incr ws else incr ws - 2 ^ 64)"

definition static_ull_ok :: "work_share \<Rightarrow> int \<Rightarrow> bool" where
  "static_ull_ok ws T \<longleftrightarrow>
     (let k = ull_step ws; d = sgn k * (end_it ws - next_it ws);
          N = int (niter k (next_it ws) (end_it ws))
      in 0 < incr ws \<and> incr ws \<le> ULONG_MAX \<and> is_ulong (next_it ws) \<and> is_ulong (end_it ws)
       \<and> 0 \<le> d \<and> d + \<bar>k\<bar> \<le> ULONG_MAX \<and> is_ulong (next_it ws + N * k)
       \<and> 1 \<le> T \<and> T < 2 ^ 31 \<and> 0 \<le> chunk_size ws \<and> (T + 2) * chunk_size ws + d \<le> ULONG_MAX)"

lemma static_ull_okD:
  assumes "static_ull_ok ws T"
  defines "k \<equiv> ull_step ws"
  defines "d \<equiv> sgn k * (end_it ws - next_it ws)"
  defines "N \<equiv> int (niter k (next_it ws) (end_it ws))"
  shows "k \<noteq> 0" "sgn k = (if mode ws = 0 then 1 else - 1)" "0 \<le> d" "d + \<bar>k\<bar> \<le> ULONG_MAX"
    "is_ulong (next_it ws)" "is_ulong (next_it ws + N * k)" "0 \<le> N" "N \<le> d"
    "static_total_ull ws = N" "1 \<le> T" "0 \<le> chunk_size ws" "(T + 2) * chunk_size ws + d \<le> ULONG_MAX"
proof -
  have F: "0 < incr ws" "incr ws \<le> ULONG_MAX" "is_ulong (next_it ws)" "is_ulong (end_it ws)"
    "0 \<le> d" "d + \<bar>k\<bar> \<le> ULONG_MAX" "is_ulong (next_it ws + N * k)" "1 \<le> T"
    "0 \<le> chunk_size ws" "(T + 2) * chunk_size ws + d \<le> ULONG_MAX"
    using assms(1) unfolding static_ull_ok_def Let_def k_def d_def N_def by simp_all
  show k: "k \<noteq> 0" and sk: "sgn k = (if mode ws = 0 then 1 else - 1)"
    using F(1,2) by (auto simp: k_def ull_step_def sgn_if)
  show "0 \<le> d" "d + \<bar>k\<bar> \<le> ULONG_MAX" "is_ulong (next_it ws)" "is_ulong (next_it ws + N * k)"
    "1 \<le> T" "0 \<le> chunk_size ws" "(T + 2) * chunk_size ws + d \<le> ULONG_MAX"
    using F by simp_all
  show N0: "0 \<le> N" by (simp add: N_def)
  have Nd: "N = (d + \<bar>k\<bar> - 1) div \<bar>k\<bar>"
    using k F(5) by (simp add: N_def niter_def d_def pos_imp_zdiv_nonneg_iff)
  show "N \<le> d"
  proof (cases "d = 0")
    case True
    then show ?thesis using k by (simp add: Nd div_pos_pos_trivial)
  next
    case False
    then have "(\<bar>k\<bar> - 1) * 1 \<le> (\<bar>k\<bar> - 1) * d" using F(5) k by (intro mult_left_mono) auto
    then have "d + \<bar>k\<bar> - 1 < (d + 1) * \<bar>k\<bar>" using k by (simp add: algebra_simps)
    then have "N < d + 1" unfolding Nd using k by (intro div_less_of_less_mult) auto
    then show ?thesis by simp
  qed
  show "static_total_ull ws = N"
  proof (cases "mode ws = 0")
    case True
    then have kk: "k = incr ws" "d = end_it ws - next_it ws" using sk by (auto simp: k_def ull_step_def d_def)
    then show ?thesis using True F Nd by (simp add: static_total_ull_def u64_id)
  next
    case False
    then have kk: "k = incr ws - 2 ^ 64" "d = next_it ws - end_it ws" using sk by (auto simp: k_def ull_step_def d_def)
    have u1: "u64 (next_it ws - end_it ws) = d" using kk F(5,6) k by (simp add: u64_id)
    have u3: "u64 (- incr ws) = \<bar>k\<bar>"
      using F kk by (simp add: u64_def zmod_zminus1_eq_if mod_pos_pos_trivial)
    have u2: "u64 (u64 (d - incr ws) - 1) = d + \<bar>k\<bar> - 1"
    proof -
      have "u64 (u64 (d - incr ws) - 1) = u64 (d + \<bar>k\<bar> - 1 + - 1 * 2 ^ 64)"
        using F kk by (simp add: algebra_simps)
      also have "\<dots> = u64 (d + \<bar>k\<bar> - 1)" unfolding u64_def by (rule mod_mult_self1)
      finally show ?thesis using F(5,6) k by (simp add: u64_id)
    qed
    show ?thesis using False by (simp only: static_total_ull_def u1 u2 u3 Nd if_False)
  qed
qed

lemma static_pos_ull:
  assumes "static_ull_ok ws T" and "0 \<le> a" and "a \<le> int (niter (ull_step ws) (next_it ws) (end_it ws))"
  shows "u64 (a * incr ws + next_it ws) = next_it ws + a * ull_step ws"
proof -
  note D = static_ull_okD [OF assms(1)]
  have "u64 (a * incr ws + next_it ws) = u64 (next_it ws + a * ull_step ws + (if mode ws = 0 then 0 else a) * 2 ^ 64)"
    by (simp add: ull_step_def algebra_simps)
  also have "\<dots> = u64 (next_it ws + a * ull_step ws)" unfolding u64_def by (rule mod_mult_self1)
  also have "\<dots> = next_it ws + a * ull_step ws"
    using between_mult [OF assms(2,3)] D(5,6) by (intro u64_id) blast+
  finally show ?thesis .
qed


lemma gomp_iter_ull_static_next_block:
  assumes ok: "static_ull_ok ws T" and T: "team_nthreads thr = Some T" "2 \<le> T"
    and i: "0 \<le> team_id thr" "team_id thr < T"
    and r: "trip_ok T (team_id thr) (chunk_size ws)
              (int (niter (ull_step ws) (next_it ws) (end_it ws))) (static_trip thr)"
  shows "gomp_iter_ull_static_next thr ws =
    (case static_block T (team_id thr) (static_trip thr) (chunk_size ws)
            (int (niter (ull_step ws) (next_it ws) (end_it ws))) of
       (ret, b, r') \<Rightarrow> (ret, map_option (block_at (next_it ws) (ull_step ws)) b, thr\<lparr>static_trip := r'\<rparr>))"
proof (cases "static_trip thr = ULONG_MAX")
  case True
  then show ?thesis using T by (simp add: gomp_iter_ull_static_next_def static_block_def nthreads_of_def)
next
  case notend: False
  let ?N = "int (niter (ull_step ws) (next_it ws) (end_it ws))"
  let ?i = "team_id thr" and ?r = "static_trip thr" and ?c = "chunk_size ws"
  note D = static_ull_okD [OF ok]
  have N: "0 \<le> ?N" "?N \<le> ULONG_MAX" using D(3,4,7,8) by linarith+
  have nt: "nthreads_of thr = T" "T \<noteq> 1" using T by (auto simp: nthreads_of_def)
  show ?thesis
  proof (cases "?c = 0")
    case True
    show ?thesis
    proof (cases "0 < ?r")
      case True
      then show ?thesis using notend nt \<open>?c = 0\<close>
        by (simp add: gomp_iter_ull_static_next_def static_block_def)
    next
      case False
      have lo: "0 \<le> static_lo ?N T ?i" "static_lo ?N T ?i \<le> ?N"
          "0 \<le> static_lo ?N T (?i + 1)" "static_lo ?N T (?i + 1) \<le> ?N"
        using static_lo_range [of ?N T ?i] static_lo_range [of ?N T "?i + 1"] N T i by auto
      obtain t q where tq: "(if ?i < ?N mod T then (0, u64 (?N div T + 1)) else (?N mod T, ?N div T)) = (t, q)"
        by (cases "?i < ?N mod T") auto
      have s0: "u64 (u64 (q * ?i) + t) = static_lo ?N T ?i" "u64 (static_lo ?N T ?i + q) = static_lo ?N T (?i + 1)"
        using static_lo_calc [OF N(1) _ i N(2) T(2)] T(2) unfolding tq by (auto simp: Let_def simp del: u64_add_u64)
      show ?thesis
        unfolding gomp_iter_ull_static_next_def Let_def nt D(9) tq prod.case s0
        using notend nt(2) \<open>?c = 0\<close> False lo
        by (simp add: static_block_def Let_def static_pos_ull [OF ok] block_at_def)
    qed
  next
    case False
    then have c: "0 < ?c" using D(11) by simp
    have B: "(T + 2) * ?c + ?N \<le> ULONG_MAX" using D(8,12) by linarith
    note tb = trip_chunk_bounds [OF r notend c T(2) i N(1) B]
    have s0: "u64 (u64 (u64 (?r * T) + ?i) * ?c) = (?r * T + ?i) * ?c"
      using tb i c by (simp add: u64_id)
    have e0: "u64 ((?r * T + ?i) * ?c + ?c) = (?r * T + ?i) * ?c + ?c"
      using tb c by (intro u64_id) auto
    have r1: "u64 (?r + 1) = ?r + 1"
      using notend tb(1,6) by (intro u64_id) auto
    show ?thesis
      unfolding gomp_iter_ull_static_next_def Let_def nt D(9) s0 e0 r1
      using notend nt(2) False tb(1,2,6) c N
      by (auto simp: static_block_def Let_def static_pos_ull [OF ok] block_at_def min_def)
  qed
qed

end
