(* ===== verification/StaticShare.thy ===== *)
theory StaticShare
  imports IterStatic
begin

text \<open>
  What a team gets from the STATIC schedule. The compiled loop calls the iterator until it
  returns nonzero; the locale \<open>static_iterator\<close> states what such a loop needs of the
  iterator (it computes \<open>static_block\<close>) and proves which iterations each thread runs, that
  the loop ends, and that the team runs every iteration exactly once. It is interpreted on
  the \<open>long\<close> and on the \<open>unsigned long long\<close> routine.
\<close>

type_synonym static_next = "thread_ctx \<Rightarrow> work_share \<Rightarrow> int \<times> (int \<times> int) option \<times> thread_ctx"

subsection \<open>The loop of one thread\<close>

text \<open>
  The code compiled for a static loop is \<open>for (ok = start (&s, &e); ok; ok = next (&s, &e))\<close>
  around the body's own loop over \<open>[s, e)\<close>; \<open>GOMP_loop_static_start\<close> and \<open>_next\<close> return
  \<open>!gomp_iter_static_next\<close>. \<open>static_blocks\<close> collects the blocks, in order; its fuel counts
  the calls, \<open>None\<close> is "not finished".
\<close>

fun static_blocks :: "static_next \<Rightarrow> nat \<Rightarrow> thread_ctx \<Rightarrow> work_share \<Rightarrow> (int \<times> int) list option" where
  "static_blocks nxt 0 thr ws = None"
| "static_blocks nxt (Suc f) thr ws =
    (case nxt thr ws of
       (r, b, thr') \<Rightarrow>
         if r = 0 then (case b of Some c \<Rightarrow> map_option ((#) c) (static_blocks nxt f thr' ws) | None \<Rightarrow> None)
         else Some [])"

definition exec_blocks :: "int \<Rightarrow> (int \<times> int) list \<Rightarrow> int list" where
  "exec_blocks k bs = concat (map (\<lambda>(s, e). iters k s e) bs)"

definition fresh_thread :: "int \<Rightarrow> nat \<Rightarrow> thread_ctx" where
  "fresh_thread T i = \<lparr>team_nthreads = Some T, team_id = int i, static_trip = 0\<rparr>"

text \<open>The iterations thread \<open>i\<close> of \<open>T\<close> runs, in order, for the real step \<open>k\<close>.\<close>

definition static_work :: "static_next \<Rightarrow> int \<Rightarrow> int \<Rightarrow> nat \<Rightarrow> work_share \<Rightarrow> int list option" where
  "static_work nxt k T i ws =
     map_option (exec_blocks k)
       (static_blocks nxt (niter k (next_it ws) (end_it ws) + 2) (fresh_thread T i) ws)"

definition iter_at :: "int \<Rightarrow> work_share \<Rightarrow> nat \<Rightarrow> int" where
  "iter_at k ws j = next_it ws + int j * k"

lemma iters_iter_at: "iters k (next_it ws) (end_it ws) = map (iter_at k ws) [0..<niter k (next_it ws) (end_it ws)]"
  by (simp add: iters_def iter_at_def)

lemma block_iters:
  assumes "k \<noteq> 0" and "0 \<le> a" and "a \<le> b"
  shows "(case block_at (next_it ws) k (a, b) of (s, e) \<Rightarrow> iters k s e) = map (iter_at k ws) [nat a..<nat b]"
  using iters_slice [OF assms(1), of "nat a" "nat b" "next_it ws"] assms
  by (simp add: block_at_def iter_at_def)

lemma exec_blocks_Nil [simp]: "exec_blocks k [] = []"
  by (simp add: exec_blocks_def)

lemma exec_blocks_Cons [simp]: "exec_blocks k (b # bs) = (case b of (s, e) \<Rightarrow> iters k s e) @ exec_blocks k bs"
  by (simp add: exec_blocks_def)

lemma concat_upt_blocks:
  assumes "\<And>i. i < n \<Longrightarrow> f i \<le> f (Suc i)"
  shows "concat (map (\<lambda>i. [f i..<f (Suc i)]) [0..<n]) = [f 0..<f n] \<and> f 0 \<le> (f n :: nat)"
  using assms
proof (induction n)
  case (Suc n)
  then have "f n \<le> f (Suc n)" "f 0 \<le> f n"
    "concat (map (\<lambda>i. [f i..<f (Suc i)]) [0..<n]) = [f 0..<f n]" by auto
  then show ?case using upt_add_eq_append [of "f 0" "f n" "f (Suc n) - f n"] by simp
qed simp

lemma trip_in_long:
  fixes r x i a c y N :: int
  assumes "r * 2 \<le> x" and "(x + i) * 1 \<le> a" and "1 * c \<le> y" and "a + c < N" and "y + N \<le> ULONG_MAX"
    and "0 < c" and "0 \<le> i"
  shows "r + 1 \<le> LONG_MAX"
  using assms by simp

subsection \<open>The contract of the iterator\<close>

locale static_iterator =
  fixes nxt :: static_next
    and ok :: "work_share \<Rightarrow> int \<Rightarrow> bool"
    and stp :: "work_share \<Rightarrow> int"
  assumes step_nonzero: "ok ws T \<Longrightarrow> stp ws \<noteq> 0"
    and threads: "ok ws T \<Longrightarrow> 1 \<le> T"
    and chunk_nonneg: "ok ws T \<Longrightarrow> 0 \<le> chunk_size ws"
    and room: "ok ws T \<Longrightarrow>
      (T + 2) * chunk_size ws + int (niter (stp ws) (next_it ws) (end_it ws)) \<le> ULONG_MAX"
    and forward: "ok ws T \<Longrightarrow> 0 \<le> sgn (stp ws) * (end_it ws - next_it ws)"
    and ended: "static_trip thr = ULONG_MAX \<Longrightarrow> nxt thr ws = (- 1, None, thr)"
    and alone: "ok ws 1 \<Longrightarrow> team_nthreads thr = Some 1 \<Longrightarrow> static_trip thr \<noteq> ULONG_MAX \<Longrightarrow>
      nxt thr ws = (if next_it ws = end_it ws then 1 else 0, Some (next_it ws, end_it ws),
                    thr\<lparr>static_trip := ULONG_MAX\<rparr>)"
    and shared: "ok ws T \<Longrightarrow> team_nthreads thr = Some T \<Longrightarrow> 2 \<le> T \<Longrightarrow> 0 \<le> team_id thr \<Longrightarrow>
      team_id thr < T \<Longrightarrow>
      trip_ok T (team_id thr) (chunk_size ws) (int (niter (stp ws) (next_it ws) (end_it ws))) (static_trip thr) \<Longrightarrow>
      nxt thr ws =
       (case static_block T (team_id thr) (static_trip thr) (chunk_size ws)
               (int (niter (stp ws) (next_it ws) (end_it ws))) of
          (ret, b, r') \<Rightarrow> (ret, map_option (block_at (next_it ws) (stp ws)) b, thr\<lparr>static_trip := r'\<rparr>))"
begin

lemma blocks_ended: "0 < f \<Longrightarrow> static_trip thr = ULONG_MAX \<Longrightarrow> static_blocks nxt f thr ws = Some []"
  by (cases f) (simp_all add: ended)

lemma chunked_blocks:
  assumes ok: "ok ws T" and T: "2 \<le> T" and c: "0 < chunk_size ws"
    and thr: "team_nthreads thr = Some T" "team_id thr = int i" "i < nat T"
    and r: "trip_ok T (int i) (chunk_size ws) (int (niter (stp ws) (next_it ws) (end_it ws))) (static_trip thr)"
      "static_trip thr \<noteq> ULONG_MAX"
    and fuel: "niter (stp ws) (next_it ws) (end_it ws) + 2
        \<le> f + nat ((static_trip thr * T + int i) * chunk_size ws)"  "0 < f"
  shows "\<exists>bs. static_blocks nxt f thr ws = Some bs \<and>
    exec_blocks (stp ws) bs = map (iter_at (stp ws) ws) (filter (\<lambda>j. static_owner T (chunk_size ws) j = i)
       [nat ((static_trip thr * T + int i) * chunk_size ws)..<niter (stp ws) (next_it ws) (end_it ws)])"
  using thr r fuel
proof (induction f arbitrary: thr)
  case 0
  then show ?case by simp
next
  case (Suc f)
  let ?c = "chunk_size ws" and ?n = "niter (stp ws) (next_it ws) (end_it ws)" and ?r = "static_trip thr"
  let ?N = "int ?n"
  let ?a = "(?r * T + int i) * ?c" and ?b = "min ?N ((?r * T + int i) * ?c + ?c)"
  note k = step_nonzero [OF ok]
  note B = room [OF ok]
  have i: "0 \<le> int i" "int i < T" and N: "0 \<le> ?N" using Suc.prems(3) by auto
  note tb = trip_chunk_bounds [OF Suc.prems(4,5) c T i N B]
  have call: "nxt thr ws =
    (case static_block T (int i) ?r ?c ?N of
       (ret, b, r') \<Rightarrow> (ret, map_option (block_at (next_it ws) (stp ws)) b, thr\<lparr>static_trip := r'\<rparr>))"
    using shared [OF ok _ T] Suc.prems i by simp
  have next_start: "?a + ?c \<le> ((?r + 1) * T + int i) * ?c"
    using mult_right_mono [of 1 T ?c] T c by (simp add: algebra_simps)
  show ?case
  proof (cases "?N \<le> ?a")
    case True
    then have "static_blocks nxt (Suc f) thr ws = Some []"
      using Suc.prems(5) c by (simp add: call static_block_def)
    moreover have e: "[nat ?a..<?n] = []" using True by simp
    ultimately show ?thesis unfolding e by simp
  next
    case False
    let ?r' = "if ?b = ?N then ULONG_MAX else ?r + 1"
    let ?thr = "thr\<lparr>static_trip := ?r'\<rparr>"
    let ?F = "filter (\<lambda>j. static_owner T ?c j = i)"
    have sb: "static_block T (int i) ?r ?c ?N = (0, Some (?a, ?b), ?r')"
      using Suc.prems(5) c False by (simp add: static_block_def Let_def)
    have unf: "static_blocks nxt (Suc f) thr ws =
        map_option ((#) (block_at (next_it ws) (stp ws) (?a, ?b))) (static_blocks nxt f ?thr ws)"
      by (simp add: call sb)
    have blk: "(case block_at (next_it ws) (stp ws) (?a, ?b) of (s, e) \<Rightarrow> iters (stp ws) s e)
        = map (iter_at (stp ws) ws) [nat ?a..<nat ?b]"
      using tb(2) False c by (intro block_iters [OF k]) auto
    have split: "?F [nat ?a..<?n] = [nat ?a..<nat ?b] @ ?F [nat (((?r + 1) * T + int i) * ?c)..<?n]"
      using owner_filter_step [OF c _ Suc.prems(3) tb(1), of ?n] False T by simp
    have f: "0 < f" using Suc.prems(6) False tb(2) by linarith
    have rest: "\<exists>bs. static_blocks nxt f ?thr ws = Some bs \<and>
        exec_blocks (stp ws) bs = map (iter_at (stp ws) ws) (?F [nat (((?r + 1) * T + int i) * ?c)..<?n])"
    proof (cases "?b = ?N")
      case True
      then have e: "[nat (((?r + 1) * T + int i) * ?c)..<?n] = []" using next_start by simp
      show ?thesis unfolding e using blocks_ended [OF f, of ?thr ws] True by simp
    next
      case nb: False
      have lt: "?a + ?c < ?N" using nb False by linarith
      have h1: "?r * 2 \<le> ?r * T" using tb(1) T by (intro mult_left_mono) auto
      have h2: "(?r * T + int i) * 1 \<le> ?a" using tb(1) T i c by (intro mult_left_mono) auto
      have h3: "1 * ?c \<le> (T + 2) * ?c" using T c by (intro mult_right_mono) auto
      have r1: "?r + 1 \<le> LONG_MAX" by (rule trip_in_long [OF h1 h2 h3 lt B c i(1)])
      then have tr: "trip_ok T (int i) ?c ?N (?r + 1)" using tb(1) False by (simp add: trip_ok_def)
      have "nat ?a + 1 \<le> nat (((?r + 1) * T + int i) * ?c)" using next_start tb(2) c by linarith
      with Suc.prems(6) have fl: "?n + 2 \<le> f + nat (((?r + 1) * T + int i) * ?c)" by linarith
      have thr': "?thr = thr\<lparr>static_trip := ?r + 1\<rparr>" using nb by simp
      have st: "static_trip (thr\<lparr>static_trip := ?r + 1\<rparr>) = ?r + 1" by simp
      have "?r + 1 \<noteq> ULONG_MAX" using r1 by simp
      then show ?thesis
        unfolding thr' using Suc.IH [of "thr\<lparr>static_trip := ?r + 1\<rparr>", unfolded st, OF _ _ Suc.prems(3) tr _ fl f] Suc.prems(1,2)
        by simp
    qed
    then obtain bs where bs: "static_blocks nxt f ?thr ws = Some bs"
      "exec_blocks (stp ws) bs = map (iter_at (stp ws) ws) (?F [nat (((?r + 1) * T + int i) * ?c)..<?n])"
      by blast
    show ?thesis unfolding unf bs(1) option.map(2)
      by (intro exI conjI, rule refl) (simp only: exec_blocks_Cons blk split bs(2) map_append)
  qed
qed

lemma chunked_work:
  assumes "ok ws T" and "2 \<le> T" and "0 < chunk_size ws" and "i < nat T"
  shows "static_work nxt (stp ws) T i ws = Some (map (iter_at (stp ws) ws)
    (filter (\<lambda>j. static_owner T (chunk_size ws) j = i) [0..<niter (stp ws) (next_it ws) (end_it ws)]))"
proof -
  let ?n = "niter (stp ws) (next_it ws) (end_it ws)" and ?c = "chunk_size ws"
  let ?F = "\<lambda>xs. filter (\<lambda>j. static_owner T ?c j = i) xs"
  obtain bs where bs: "static_blocks nxt (?n + 2) (fresh_thread T i) ws = Some bs"
    "exec_blocks (stp ws) bs = map (iter_at (stp ws) ws) (?F [nat (int i * ?c)..<?n])"
    using chunked_blocks [OF assms(1-3), of "fresh_thread T i" i "?n + 2"] assms(4)
    by (auto simp: fresh_thread_def trip_ok_def)
  have none: "?F [0..<min ?n (nat (int i * ?c))] = []"
    using owner_before_first [OF assms(3) _ assms(4)] by (intro filter_none) (auto simp: zless_nat_eq_int_zless)
  have "?F [0..<?n] = ?F [nat (int i * ?c)..<?n]"
  proof (cases "nat (int i * ?c) \<le> ?n")
    case True
    then show ?thesis using filter_upt_split [of 0 "nat (int i * ?c)" ?n] none by (simp add: min_absorb2)
  next
    case False
    then show ?thesis using none by (simp add: min_absorb1)
  qed
  then show ?thesis using bs by (simp add: static_work_def)
qed

lemma even_work:
  assumes ok: "ok ws T" and T: "2 \<le> T" and c: "chunk_size ws = 0" and i: "i < nat T"
  shows "static_work nxt (stp ws) T i ws = Some (map (iter_at (stp ws) ws)
    [nat (static_lo (int (niter (stp ws) (next_it ws) (end_it ws))) T (int i))
     ..<nat (static_lo (int (niter (stp ws) (next_it ws) (end_it ws))) T (int (Suc i)))])"
proof -
  let ?n = "niter (stp ws) (next_it ws) (end_it ws)" and ?thr = "fresh_thread T i"
  let ?a = "static_lo (int ?n) T (int i)" and ?b = "static_lo (int ?n) T (int (Suc i))"
  have T0: "0 < T" "0 \<le> int ?n" using T by auto
  have a: "0 \<le> ?a" using static_lo_range [OF T0(2,1), of "int i"] i by simp
  have call: "nxt thr ws =
    (case static_block T (int i) (static_trip thr) 0 (int ?n) of
       (ret, b, r') \<Rightarrow> (ret, map_option (block_at (next_it ws) (stp ws)) b, thr\<lparr>static_trip := r'\<rparr>))"
    if "team_nthreads thr = Some T" "team_id thr = int i" "static_trip thr = 0 \<or> static_trip thr = 1" for thr
    using shared [OF ok _ T, of thr] that i c by (auto simp: trip_ok_def)
  have f: "team_nthreads ?thr = Some T" "team_id ?thr = int i" "static_trip ?thr = 0"
    by (simp_all add: fresh_thread_def)
  show ?thesis
  proof (cases "?b \<le> ?a")
    case True
    then have "static_blocks nxt (?n + 2) ?thr ws = Some []"
      using call [of ?thr] f by (simp add: static_block_def Let_def add.commute)
    then show ?thesis using True by (simp add: static_work_def)
  next
    case False
    let ?thr' = "?thr\<lparr>static_trip := (if ?b = int ?n then ULONG_MAX else 1)\<rparr>"
    have "static_blocks nxt (Suc ?n) ?thr' ws = Some []"
      using call [of ?thr'] f blocks_ended [of "Suc ?n" ?thr' ws] by (auto simp: static_block_def)
    then have "static_blocks nxt (?n + 2) ?thr ws = Some [block_at (next_it ws) (stp ws) (?a, ?b)]"
      using call [of ?thr] f False by (simp add: static_block_def Let_def add.commute [of 1] del: static_blocks.simps)
        (simp add: static_block_def Let_def add.commute [of 1])
    then show ?thesis
      using block_iters [OF step_nonzero [OF ok], of ?a ?b ws] a False by (simp add: static_work_def)
  qed
qed

lemma alone_work:
  assumes ok: "ok ws 1"
  shows "static_work nxt (stp ws) 1 0 ws = Some (iters (stp ws) (next_it ws) (end_it ws))"
proof -
  let ?thr = "fresh_thread 1 0"
  have "nxt ?thr ws = (if next_it ws = end_it ws then 1 else 0, Some (next_it ws, end_it ws),
                    ?thr\<lparr>static_trip := ULONG_MAX\<rparr>)"
    by (rule alone [OF ok]) (simp_all add: fresh_thread_def)
  then show ?thesis by (simp add: static_work_def ended numeral_2_eq_2)
qed

text \<open>Every iteration is run by exactly one thread, exactly once.\<close>

lemma partition:
  assumes ok: "ok ws T"
  shows "\<exists>w. (\<forall>i < nat T. static_work nxt (stp ws) T i ws = Some (w i)) \<and>
    mset (concat (map w [0..<nat T])) = mset (iters (stp ws) (next_it ws) (end_it ws))"
proof (cases "T = 1")
  case True
  then show ?thesis using alone_work ok by (intro exI [of _ "\<lambda>_. iters (stp ws) (next_it ws) (end_it ws)"]) auto
next
  case False
  then have T: "2 \<le> T" using threads [OF ok] by simp
  let ?n = "niter (stp ws) (next_it ws) (end_it ws)" and ?c = "chunk_size ws" and ?it = "iter_at (stp ws) ws"
  show ?thesis
  proof (cases "?c = 0")
    case True
    let ?f = "\<lambda>i. nat (static_lo (int ?n) T (int i))"
    have "?f i \<le> ?f (Suc i)" for i using static_lo_mono [of "int ?n" T "int i" "int (Suc i)"] T by simp
    from concat_upt_blocks [of "nat T" ?f] this
    have "concat (map (\<lambda>i. [?f i..<?f (Suc i)]) [0..<nat T]) = [?f 0..<?f (nat T)]" by blast
    also have "\<dots> = [0..<?n]" using T by simp
    finally have "map ?it (concat (map (\<lambda>i. [?f i..<?f (Suc i)]) [0..<nat T])) = map ?it [0..<?n]" by simp
    then have "concat (map (\<lambda>i. map ?it [?f i..<?f (Suc i)]) [0..<nat T]) = map ?it [0..<?n]"
      by (simp add: map_concat o_def)
    then show ?thesis using even_work [OF ok T True]
      by (intro exI [of _ "\<lambda>i. map ?it [?f i..<?f (Suc i)]"]) (simp add: iters_iter_at)
  next
    case False
    then have c: "0 < ?c" using chunk_nonneg [OF ok] by simp
    let ?w = "\<lambda>i. filter (\<lambda>j. static_owner T ?c j = i) [0..<?n]"
    have "static_owner T ?c j < nat T" for j using T by (simp add: static_owner_def)
    then have "mset (concat (map ?w [0..<nat T])) = mset [0..<?n]" by (intro mset_buckets)
    then have "mset (map ?it (concat (map ?w [0..<nat T]))) = mset (map ?it [0..<?n])" by (metis mset_map)
    then have "mset (concat (map (\<lambda>i. map ?it (?w i)) [0..<nat T])) = mset (map ?it [0..<?n])"
      by (simp only: map_concat map_map o_def)
    then show ?thesis using chunked_work [OF ok T c]
      by (intro exI [of _ "\<lambda>i. map ?it (?w i)"]) (simp only: iters_iter_at, simp)
  qed
qed

end


subsection \<open>Both routines meet it\<close>

lemma total_le_extent:
  assumes "static_ok ws T"
  shows "total ws \<le> extent ws"
proof (cases "total ws = 0")
  case True
  then show ?thesis using assms by (simp add: static_ok_def long_loop_def)
next
  case False
  then have "1 \<le> total ws" using static_total_eq(3) [OF assms] by linarith
  moreover have "0 \<le> \<bar>incr ws\<bar> - 1" using assms by (auto simp: static_ok_def long_loop_def)
  ultimately have "1 * (\<bar>incr ws\<bar> - 1) \<le> total ws * (\<bar>incr ws\<bar> - 1)" by (rule mult_right_mono)
  with static_total_eq(4) [OF assms] show ?thesis by (simp add: algebra_simps)
qed

interpretation long_static: static_iterator gomp_iter_static_next static_ok incr
proof (unfold_locales, goal_cases)
  case (4 ws T)
  then have "total ws \<le> extent ws" by (rule total_le_extent)
  with 4 show ?case by (simp add: static_ok_def total_def)
next
  case (8 ws T thr)
  then show ?case using gomp_iter_static_next_block [of ws T thr] by (simp add: total_def)
qed (auto simp: static_ok_def long_loop_def extent_def gomp_iter_static_next_def nthreads_of_def)

interpretation ull_static: static_iterator gomp_iter_ull_static_next static_ull_ok ull_step
proof (unfold_locales, goal_cases)
  case (1 ws T)
  then show ?case by (rule static_ull_okD)
next
  case (2 ws T)
  then show ?case by (rule static_ull_okD)
next
  case (3 ws T)
  then show ?case by (rule static_ull_okD)
next
  case (4 ws T)
  then show ?case using static_ull_okD(8,12) [of ws T] by linarith
next
  case (5 ws T)
  then show ?case by (rule static_ull_okD)
next
  case (8 ws T thr)
  then show ?case by (rule gomp_iter_ull_static_next_block)
qed (auto simp: gomp_iter_ull_static_next_def nthreads_of_def)

subsection \<open>Properties\<close>

text \<open>C17. a team of any size that runs a \<open>long\<close> loop under the STATIC schedule, with or without
  a chunk size, executes every iteration of the loop exactly once, and every thread's loop
  over \<open>gomp_iter_static_next\<close> ends.\<close>

theorem static_partition:
  assumes "static_ok ws T"
  shows "\<exists>w. (\<forall>i < nat T. static_work gomp_iter_static_next (incr ws) T i ws = Some (w i)) \<and>
    mset (concat (map w [0..<nat T])) = mset (space ws)"
  using long_static.partition [OF assms] by (simp add: space_def)

theorem static_partition_witness:
  "\<exists>w. (\<forall>i < nat 3. static_work gomp_iter_static_next (- 3) 3 i
            (ws_zero\<lparr>chunk_size := 2, next_it := 40, end_it := - 7, incr := - 3\<rparr>) = Some (w i)) \<and>
    mset (concat (map w [0..<nat 3])) = mset (iters (- 3) 40 (- 7))"
  using static_partition [of "ws_zero\<lparr>chunk_size := 2, next_it := 40, end_it := - 7, incr := - 3\<rparr>" 3]
  by (simp add: static_ok_def long_loop_def extent_def total_def niter_def ws_zero_def space_def)

end
