(* ===== verification/CasLoop.thy ===== *)
theory CasLoop
  imports WorkShare
begin

text \<open>
  Threads that take blocks from one work share without a lock. Each iterator of the runtime
  is a small program over the shared descriptor (loads, \<open>__sync_val_compare_and_swap\<close>,
  \<open>__sync_fetch_and_add\<close>) modelled as a step function on the descriptor and a program
  counter with the thread's locals; one step makes at most one access to a shared field
  that changes. A team is a number of such threads, and a run is any sequence of thread
  numbers: the interleavings of a sequentially consistent memory.

  The locale \<open>chunk_server\<close> is the contract an iterator meets (when it hands out a block, the
  block starts at the shared position, advances it, and cuts the remaining iterations in
  two) and proves from it that, whatever the interleaving, the blocks handed out are a
  partition of the loop.
\<close>

subsection \<open>Teams and runs\<close>

record 'pc team_run =
  shared :: work_share
  pcs :: "nat \<Rightarrow> 'pc"
  grants :: "(nat \<times> int \<times> int) list"

text \<open>\<open>None\<close>: the call is still running. \<open>Some None\<close>: it returned false.
  \<open>Some (Some (s, e))\<close>: it returned true with the block \<open>[s, e)\<close>.\<close>

type_synonym outcome = "(int \<times> int) option option"

definition team_init :: "'pc \<Rightarrow> work_share \<Rightarrow> 'pc team_run" where
  "team_init start ws = \<lparr>shared = ws, pcs = (\<lambda>_. start), grants = []\<rparr>"

text \<open>One move of thread \<open>i\<close>: a step of its call; after a block it calls again; after
  "no more work" it is done.\<close>

definition team_move ::
  "(work_share \<Rightarrow> 'pc \<Rightarrow> work_share \<times> 'pc) \<Rightarrow> ('pc \<Rightarrow> outcome) \<Rightarrow> 'pc \<Rightarrow> nat \<Rightarrow> 'pc team_run \<Rightarrow> 'pc team_run"
where
  "team_move step result start i S =
    (case result (pcs S i) of
       None \<Rightarrow>
         (case step (shared S) (pcs S i) of (ws', p') \<Rightarrow>
           \<lparr>shared = ws', pcs = (pcs S)(i := p'),
            grants = grants S @ (case result p' of Some (Some c) \<Rightarrow> [(i, c)] | _ \<Rightarrow> [])\<rparr>)
     | Some (Some _) \<Rightarrow> S\<lparr>pcs := (pcs S)(i := start)\<rparr>
     | Some None \<Rightarrow> S)"

fun team_exec ::
  "(work_share \<Rightarrow> 'pc \<Rightarrow> work_share \<times> 'pc) \<Rightarrow> ('pc \<Rightarrow> outcome) \<Rightarrow> 'pc \<Rightarrow> nat list \<Rightarrow> 'pc team_run \<Rightarrow> 'pc team_run"
where
  "team_exec step result start [] S = S"
| "team_exec step result start (i # is) S = team_exec step result start is (team_move step result start i S)"

definition granted_iters :: "int \<Rightarrow> (nat \<times> int \<times> int) list \<Rightarrow> int list" where
  "granted_iters k gs = concat (map (\<lambda>(i, s, e). iters k s e) gs)"

lemma granted_iters_Nil [simp]: "granted_iters k [] = []"
  by (simp add: granted_iters_def)

lemma granted_iters_append [simp]: "granted_iters k (gs @ hs) = granted_iters k gs @ granted_iters k hs"
  by (simp add: granted_iters_def)

lemma granted_iters_single [simp]: "granted_iters k [(i, s, e)] = iters k s e"
  by (simp add: granted_iters_def)

definition refused :: "('pc \<Rightarrow> outcome) \<Rightarrow> nat \<Rightarrow> 'pc team_run \<Rightarrow> nat" where
  "refused result T S = card {i. i < T \<and> result (pcs S i) = Some None}"

text \<open>A call that runs with no other thread moving, for at most \<open>f\<close> steps.\<close>

fun call_alone ::
  "(work_share \<Rightarrow> 'pc \<Rightarrow> work_share \<times> 'pc) \<Rightarrow> ('pc \<Rightarrow> outcome) \<Rightarrow> nat \<Rightarrow> work_share \<Rightarrow> 'pc
    \<Rightarrow> ((int \<times> int) option \<times> work_share) option"
where
  "call_alone step result 0 ws p = None"
| "call_alone step result (Suc f) ws p =
    (case step ws p of (ws', p') \<Rightarrow>
       (case result p' of Some r \<Rightarrow> Some (r, ws') | None \<Rightarrow> call_alone step result f ws' p'))"

subsection \<open>What a run should do\<close>

text \<open>
  \<open>exact_run\<close>: in the run \<open>is\<close> of the calls of \<open>T\<close> threads, the blocks handed out, in order,
  followed by the iterations from \<open>ws->next\<close> on, are the loop; as soon as a thread is refused
  the blocks are the whole loop; and there are no more blocks than iterations.
  \<open>lone_returns\<close>: after that run a thread in the middle of a call returns within \<open>f\<close> steps if
  the others pause.
\<close>

definition exact_run ::
  "(work_share \<Rightarrow> 'pc \<Rightarrow> work_share \<times> 'pc) \<Rightarrow> ('pc \<Rightarrow> outcome) \<Rightarrow> 'pc \<Rightarrow> int \<Rightarrow> nat \<Rightarrow> nat list \<Rightarrow> work_share \<Rightarrow> bool"
where
  "exact_run step result start k T is ws \<longleftrightarrow>
    (let S = team_exec step result start is (team_init start ws) in
     granted_iters k (grants S) @ iters k (next_it (shared S)) (end_it ws) = iters k (next_it ws) (end_it ws)
     \<and> ((\<exists>i \<in> {..<T}. result (pcs S i) = Some None)
          \<longrightarrow> granted_iters k (grants S) = iters k (next_it ws) (end_it ws))
     \<and> length (grants S) \<le> niter k (next_it ws) (end_it ws))"

definition lone_returns ::
  "(work_share \<Rightarrow> 'pc \<Rightarrow> work_share \<times> 'pc) \<Rightarrow> ('pc \<Rightarrow> outcome) \<Rightarrow> 'pc \<Rightarrow> nat \<Rightarrow> nat \<Rightarrow> nat list \<Rightarrow> work_share \<Rightarrow> bool"
where
  "lone_returns step result start f T is ws \<longleftrightarrow>
    (let S = team_exec step result start is (team_init start ws) in
     \<forall>i \<in> {..<T}. result (pcs S i) = None \<longrightarrow> call_alone step result f (shared S) (pcs S i) \<noteq> None)"

subsection \<open>Taking a block\<close>

text \<open>\<open>cuts k s e l\<close>: the block \<open>[s, e)\<close> is not empty and it is a prefix of \<open>[s, l)\<close>.\<close>

definition cuts :: "int \<Rightarrow> int \<Rightarrow> int \<Rightarrow> int \<Rightarrow> bool" where
  "cuts k s e l \<longleftrightarrow> iters k s e \<noteq> [] \<and> iters k s e @ iters k e l = iters k s l"

lemma cuts_rest: "k \<noteq> 0 \<Longrightarrow> 0 < sgn k * (l - s) \<Longrightarrow> cuts k s l l"
  using niter_pos_iff [of k s l] by (simp add: cuts_def length_0_conv [symmetric] del: length_0_conv)

lemma cuts_multiple:
  assumes "k \<noteq> 0" and "1 \<le> q" and "q * \<bar>k\<bar> \<le> sgn k * (l - s)"
  shows "cuts k s (s + q * k) l"
proof -
  let ?d = "sgn k * (l - s)"
  have k: "0 < \<bar>k\<bar>" using assms(1) by simp
  have "q = q * \<bar>k\<bar> div \<bar>k\<bar>" using k by simp
  also have "\<dots> \<le> (?d + \<bar>k\<bar> - 1) div \<bar>k\<bar>" using assms(3) k by (intro zdiv_mono1) auto
  finally have "nat q \<le> niter k s l" using assms(2) by (simp add: niter_def)
  from iters_split [OF assms(1) this] assms(2)
  have "iters k s (s + q * k) @ iters k (s + q * k) l = iters k s l" by simp
  moreover have "niter k s (s + q * k) = nat q" using niter_multiple [OF assms(1), of s "nat q"] assms(2) by simp
  then have "iters k s (s + q * k) \<noteq> []" using assms(2) by (simp add: length_0_conv [symmetric] del: length_0_conv)
  ultimately show ?thesis by (simp add: cuts_def)
qed

subsection \<open>The contract\<close>

locale chunk_server =
  fixes step :: "work_share \<Rightarrow> 'pc \<Rightarrow> work_share \<times> 'pc"
    and result :: "'pc \<Rightarrow> outcome"
    and start :: 'pc
    and stp :: "work_share \<Rightarrow> int"
    and pos :: "work_share \<Rightarrow> int"
    and ok :: "nat \<Rightarrow> work_share \<Rightarrow> nat \<Rightarrow> bool"
    and lok :: "work_share \<Rightarrow> 'pc \<Rightarrow> bool"
  assumes start_running: "result start = None"
    and start_ok: "ok T ws r \<Longrightarrow> lok ws start"
    and step_ok: "ok T ws r \<Longrightarrow> r < T \<Longrightarrow> lok ws p \<Longrightarrow> result p = None \<Longrightarrow> step ws p = (ws', p') \<Longrightarrow>
      ok T ws' (if result p' = Some None then Suc r else r) \<and> lok ws' p'"
    and stable: "ok T ws r \<Longrightarrow> r < T \<Longrightarrow> lok ws p \<Longrightarrow> result p = None \<Longrightarrow> step ws p = (ws', p') \<Longrightarrow>
      lok ws q \<Longrightarrow> lok ws' q"
    and frame: "ok T ws r \<Longrightarrow> r < T \<Longrightarrow> lok ws p \<Longrightarrow> result p = None \<Longrightarrow> step ws p = (ws', p') \<Longrightarrow>
      stp ws' = stp ws \<and> end_it ws' = end_it ws"
    and quiet: "ok T ws r \<Longrightarrow> r < T \<Longrightarrow> lok ws p \<Longrightarrow> result p = None \<Longrightarrow> step ws p = (ws', p') \<Longrightarrow>
      result p' = None \<or> result p' = Some None \<Longrightarrow> pos ws' = pos ws"
    and grant: "ok T ws r \<Longrightarrow> r < T \<Longrightarrow> lok ws p \<Longrightarrow> result p = None \<Longrightarrow> step ws p = (ws', p') \<Longrightarrow>
      result p' = Some (Some (s, e)) \<Longrightarrow> s = pos ws \<and> e = pos ws' \<and> cuts (stp ws) s e (end_it ws)"
    and refuse: "ok T ws r \<Longrightarrow> r < T \<Longrightarrow> lok ws p \<Longrightarrow> result p = None \<Longrightarrow> step ws p = (ws', p') \<Longrightarrow>
      result p' = Some None \<Longrightarrow> iters (stp ws) (pos ws') (end_it ws) = []"
begin

text \<open>The invariant of a run of \<open>T\<close> threads started on \<open>ws0\<close>.\<close>

definition run_inv :: "nat \<Rightarrow> work_share \<Rightarrow> 'pc team_run \<Rightarrow> bool" where
  "run_inv T ws0 S \<longleftrightarrow>
     ok T (shared S) (refused result T S) \<and> (\<forall>i. lok (shared S) (pcs S i))
     \<and> stp (shared S) = stp ws0 \<and> end_it (shared S) = end_it ws0
     \<and> granted_iters (stp ws0) (grants S) @ iters (stp ws0) (pos (shared S)) (end_it ws0)
         = iters (stp ws0) (pos ws0) (end_it ws0)
     \<and> (\<forall>(i, s, e) \<in> set (grants S). iters (stp ws0) s e \<noteq> [])
     \<and> (0 < refused result T S \<longrightarrow> iters (stp ws0) (pos (shared S)) (end_it ws0) = [])"

lemma refused_running:
  assumes "i < T" and "result (pcs S i) = None"
  shows "refused result T (S\<lparr>pcs := (pcs S)(i := p)\<rparr>) =
    (if result p = Some None then Suc (refused result T S) else refused result T S)"
proof -
  let ?A = "{j. j < T \<and> result (pcs S j) = Some None}"
  have "{j. j < T \<and> result (((pcs S)(i := p)) j) = Some None} = (if result p = Some None then insert i ?A else ?A)"
    using assms by auto
  moreover have "i \<notin> ?A" "finite ?A" using assms by auto
  ultimately show ?thesis by (simp add: refused_def)
qed

lemma refused_less: "i < T \<Longrightarrow> result (pcs S i) \<noteq> Some None \<Longrightarrow> refused result T S < T"
proof -
  assume "i < T" "result (pcs S i) \<noteq> Some None"
  then have "{j. j < T \<and> result (pcs S j) = Some None} \<subset> {..<T}" by auto
  from psubset_card_mono [OF _ this] show ?thesis by (simp add: refused_def)
qed

lemma refused_restart:
  assumes "i < T" and "result (pcs S i) = Some (Some c)"
  shows "refused result T (S\<lparr>pcs := (pcs S)(i := start)\<rparr>) = refused result T S"
proof -
  have "{j. j < T \<and> result (((pcs S)(i := start)) j) = Some None} = {j. j < T \<and> result (pcs S j) = Some None}"
    using assms start_running by auto
  then show ?thesis by (simp add: refused_def)
qed

lemma move_inv:
  assumes inv: "run_inv T ws0 S" and i: "i < T"
  shows "run_inv T ws0 (team_move step result start i S)"
proof (cases "result (pcs S i)")
  case None
  obtain ws' p' where st: "step (shared S) (pcs S i) = (ws', p')" by fastforce
  note I = inv [unfolded run_inv_def]
  have okS: "ok T (shared S) (refused result T S)" and lk: "lok (shared S) (pcs S i)" using I by auto
  have lt: "refused result T S < T" using refused_less [OF i] None by simp
  note A = okS lt lk None st
  let ?S' = "team_move step result start i S"
  have S': "?S' = \<lparr>shared = ws', pcs = (pcs S)(i := p'),
      grants = grants S @ (case result p' of Some (Some c) \<Rightarrow> [(i, c)] | _ \<Rightarrow> [])\<rparr>"
    using None st by (simp add: team_move_def)
  have rf: "refused result T ?S' = (if result p' = Some None then Suc (refused result T S) else refused result T S)"
    using refused_running [OF i None, of p'] by (simp add: S' refused_def)
  have loks: "\<forall>j. lok ws' (pcs ?S' j)"
    using step_ok [OF A] stable [OF A] I by (simp add: S')
  note fr = frame [OF A]
  show ?thesis
  proof (cases "result p'")
    case Nn: None
    then show ?thesis
      using I step_ok [OF A] loks fr quiet [OF A] rf by (simp add: run_inv_def S')
  next
    case (Some o')
    show ?thesis
    proof (cases o')
      case None
      then have r: "result p' = Some None" using Some by simp
      then show ?thesis
        using I step_ok [OF A] loks fr quiet [OF A] refuse [OF A r] rf by (simp add: run_inv_def S')
    next
      case (Some c)
      obtain s e where c: "c = (s, e)" by fastforce
      then have r: "result p' = Some (Some (s, e))" using Some \<open>result p' = Some o'\<close> by simp
      note g = grant [OF A r]
      have "0 < refused result T S \<longrightarrow> iters (stp ws0) (pos ws') (end_it ws0) = []"
        using I g by (auto simp: cuts_def)
      then show ?thesis
        using I step_ok [OF A] loks fr g rf r by (auto simp: run_inv_def S' cuts_def)
    qed
  qed
next
  case (Some o')
  show ?thesis
  proof (cases o')
    case None
    then show ?thesis using inv Some by (simp add: team_move_def)
  next
    case (Some c)
    then have r: "result (pcs S i) = Some (Some c)" using \<open>result (pcs S i) = Some o'\<close> by simp
    then show ?thesis
      using inv refused_restart [OF i r] start_ok by (auto simp: run_inv_def team_move_def)
  qed
qed

lemma exec_inv: "run_inv T ws0 S \<Longrightarrow> set is \<subseteq> {..<T} \<Longrightarrow> run_inv T ws0 (team_exec step result start is S)"
  by (induction "is" arbitrary: S) (auto intro: move_inv)

lemma init_inv: "ok T ws 0 \<Longrightarrow> run_inv T ws (team_init start ws)"
  by (auto simp: run_inv_def team_init_def refused_def start_running start_ok)

text \<open>Safety: at any moment of any run, the blocks handed out so far, in the order in which
  they were handed out, and the iterations still unassigned, are the loop.\<close>

lemma run_partition:
  assumes "ok T ws 0" and "set is \<subseteq> {..<T}"
  defines "S \<equiv> team_exec step result start is (team_init start ws)"
  shows "granted_iters (stp ws) (grants S) @ iters (stp ws) (pos (shared S)) (end_it ws)
    = iters (stp ws) (pos ws) (end_it ws)"
  using exec_inv [OF init_inv [OF assms(1)] assms(2)] unfolding run_inv_def S_def by blast

text \<open>Completeness: as soon as one thread is told that there is no more work, every
  iteration has been handed out.\<close>

lemma run_complete:
  assumes "ok T ws 0" and "set is \<subseteq> {..<T}"
  defines "S \<equiv> team_exec step result start is (team_init start ws)"
  assumes "i < T" and "result (pcs S i) = Some None"
  shows "granted_iters (stp ws) (grants S) = iters (stp ws) (pos ws) (end_it ws)"
proof -
  have "run_inv T ws S" using exec_inv [OF init_inv [OF assms(1)] assms(2)] by (simp add: S_def)
  moreover have "0 < refused result T S"
    using assms(4,5) by (auto simp: refused_def card_gt_0_iff)
  ultimately show ?thesis by (auto simp: run_inv_def)
qed

text \<open>Every block has at least one iteration, so there are at most as many blocks as
  iterations.\<close>

lemma granted_length:
  "(\<forall>(i, s, e) \<in> set gs. iters k s e \<noteq> []) \<Longrightarrow> length gs \<le> length (granted_iters k gs)"
proof (induction gs)
  case (Cons g gs)
  obtain i s e where g: "g = (i, s, e)" by (cases g) auto
  have "1 \<le> length (iters k s e)" using Cons.prems g by (cases "iters k s e") auto
  then show ?case using Cons g by (simp add: granted_iters_def)
qed simp

lemma run_grants_bound:
  assumes "ok T ws 0" and "set is \<subseteq> {..<T}"
  defines "S \<equiv> team_exec step result start is (team_init start ws)"
  shows "length (grants S) \<le> niter (stp ws) (pos ws) (end_it ws)"
proof -
  have inv: "run_inv T ws S" using exec_inv [OF init_inv [OF assms(1)] assms(2)] by (simp add: S_def)
  then have "length (grants S) \<le> length (granted_iters (stp ws) (grants S))"
    by (intro granted_length) (simp add: run_inv_def)
  also have "\<dots> \<le> length (iters (stp ws) (pos ws) (end_it ws))"
    using inv by (metis (no_types, lifting) le_add1 length_append run_inv_def)
  finally show ?thesis by simp
qed

lemma run_exact:
  assumes "ok T ws 0" and "set is \<subseteq> {..<T}" 
    and pos: "\<And>w r. ok T w r \<Longrightarrow> iters (stp w) (pos w) (end_it w) = iters (stp w) (next_it w) (end_it w)"
  shows "exact_run step result start (stp ws) T is ws"
proof -
  let ?S = "team_exec step result start is (team_init start ws)"
  have "run_inv T ws ?S" using exec_inv [OF init_inv [OF assms(1)] assms(2)] .
  then have "stp (shared ?S) = stp ws" "end_it (shared ?S) = end_it ws" "ok T (shared ?S) (refused result T ?S)"
    by (simp_all add: run_inv_def)
  moreover have N: "niter (stp ws) (pos ws) (end_it ws) = niter (stp ws) (next_it ws) (end_it ws)"
    using arg_cong [OF pos [OF assms(1)], of length] unfolding length_iters .
  ultimately show ?thesis
    using run_partition [OF assms(1,2)] run_complete [OF assms(1,2)] run_grants_bound [OF assms(1,2)]
      pos [OF assms(1)] N pos [of "shared ?S"]
    unfolding exact_run_def Let_def by auto
qed

end

text \<open>What one call that is not interrupted does: it returns the block from the position of \<open>ws\<close> to
  that of \<open>ws'\<close>, a prefix of what is left, or nothing when nothing is left.\<close>

definition call_effect ::
  "(work_share \<Rightarrow> int) \<Rightarrow> (work_share \<Rightarrow> int) \<Rightarrow> work_share \<Rightarrow> (int \<times> int) option \<Rightarrow> work_share \<Rightarrow> bool"
where
  "call_effect stp pos ws res ws' \<longleftrightarrow> stp ws' = stp ws \<and> end_it ws' = end_it ws
     \<and> (case res of Some (s, e) \<Rightarrow> s = pos ws \<and> e = pos ws' \<and> cuts (stp ws) s e (end_it ws)
         | None \<Rightarrow> pos ws' = pos ws \<and> iters (stp ws) (pos ws') (end_it ws) = [])"

text \<open>
  An iterator that is obstruction free: a thread that runs alone returns. \<open>mu\<close> bounds the
  number of steps it still needs.
\<close>

locale obstruction_free = chunk_server +
  fixes mu :: "work_share \<Rightarrow> 'a \<Rightarrow> nat"
  assumes solo: "ok T ws r \<Longrightarrow> lok ws p \<Longrightarrow> result p = None \<Longrightarrow> step ws p = (ws', p') \<Longrightarrow>
    result p' = None \<Longrightarrow> mu ws' p' < mu ws p"
begin

lemma returns_alone:
  assumes "ok T ws r" and "r < T" and "lok ws p" and "result p = None" and "mu ws p < f"
  shows "\<exists>res ws'. call_alone step result f ws p = Some (res, ws')"
  using assms
proof (induction f arbitrary: ws p)
  case (Suc f)
  obtain ws' p' where st: "step ws p = (ws', p')" by fastforce
  show ?case
  proof (cases "result p'")
    case None
    have "mu ws' p' < f" using solo [OF Suc.prems(1,3,4) st None] Suc.prems(5) by simp
    then have "\<exists>res ws''. call_alone step result f ws' p' = Some (res, ws'')"
      using step_ok [OF Suc.prems(1-4) st] None Suc.prems(2) by (intro Suc.IH) auto
    then show ?thesis using st None by simp
  next
    case (Some o')
    then show ?thesis using st by simp
  qed
qed simp

lemma alone_call:
  assumes "ok T ws r" and "r < T" and "lok ws p" and "result p = None" and "mu ws p < f"
  shows "\<exists>res ws'. call_alone step result f ws p = Some (res, ws') \<and> ok T ws' (if res = None then Suc r else r)
    \<and> call_effect stp pos ws res ws'"
  using assms
proof (induction f arbitrary: ws p)
  case (Suc f)
  obtain ws' p' where st: "step ws p = (ws', p')" by fastforce
  note S = step_ok [OF Suc.prems(1-4) st] frame [OF Suc.prems(1-4) st] quiet [OF Suc.prems(1-4) st]
  show ?case
  proof (cases "result p'")
    case None
    have m: "mu ws' p' < f" using solo [OF Suc.prems(1,3,4) st None] Suc.prems(5) by simp
    have "ok T ws' r" "lok ws' p'" using S(1) None by simp_all
    from Suc.IH [OF this(1) Suc.prems(2) this(2) None m]
    obtain res ws'' where C: "call_alone step result f ws' p' = Some (res, ws'')" "ok T ws'' (if res = None then Suc r else r)"
      "call_effect stp pos ws' res ws''"
      by blast
    have "call_effect stp pos ws res ws''"
      using C(3) S(2,3) None by (auto simp: call_effect_def split: option.splits)
    then show ?thesis using st None C(1,2) by (intro exI [of _ res] exI [of _ ws'']) simp
  next
    case (Some res)
    then have call: "call_alone step result (Suc f) ws p = Some (res, ws')" using st by simp
    have "call_effect stp pos ws res ws'"
      using S(2,3) refuse [OF Suc.prems(1-4) st] grant [OF Suc.prems(1-4) st] Some
      by (auto simp: call_effect_def split: option.splits)
    then show ?thesis using call S(1) Some by (intro exI [of _ res] exI [of _ ws']) simp
  qed
qed simp

lemma run_lone_returns:
  assumes "ok T ws 0" and "set is \<subseteq> {..<T}" and "\<And>w p. mu w p < f"
  shows "lone_returns step result start f T is ws"
proof -
  let ?S = "team_exec step result start is (team_init start ws)"
  have inv: "run_inv T ws ?S" using exec_inv [OF init_inv [OF assms(1)] assms(2)] .
  have "call_alone step result f (shared ?S) (pcs ?S i) \<noteq> None" if "i < T" "result (pcs ?S i) = None" for i
  proof -
    have "ok T (shared ?S) (refused result T ?S)" "lok (shared ?S) (pcs ?S i)" using inv unfolding run_inv_def by blast+
    then show ?thesis using returns_alone [OF _ refused_less [OF that(1)] _ that(2) assms(3)] that(2) by fastforce
  qed
  then show ?thesis by (simp add: lone_returns_def)
qed

end

subsection \<open>Lock freedom\<close>

text \<open>A schedule that gives no move to a thread that has been told to stop.\<close>

fun live_schedule ::
  "(work_share \<Rightarrow> 'pc \<Rightarrow> work_share \<times> 'pc) \<Rightarrow> ('pc \<Rightarrow> outcome) \<Rightarrow> 'pc \<Rightarrow> nat list \<Rightarrow> 'pc team_run \<Rightarrow> bool"
where
  "live_schedule step result start [] S \<longleftrightarrow> True"
| "live_schedule step result start (i # is) S \<longleftrightarrow>
    result (pcs S i) \<noteq> Some None \<and> live_schedule step result start is (team_move step result start i S)"

definition took :: "outcome \<Rightarrow> nat" where
  "took r = (case r of Some (Some b) \<Rightarrow> 1 | _ \<Rightarrow> 0)"

lemma took_simps [simp]: "took None = 0" "took (Some None) = 0" "took (Some (Some b)) = 1"
  by (simp_all add: took_def)

text \<open>
  An iterator that is lock free: a thread can be held up only by a block that another thread takes. A
  move that takes a block adds at most one to the number of steps that the call of another thread still
  needs, and no other move adds anything; so the moves of a whole team are bounded, however unfair the schedule is.
\<close>

locale lock_free = obstruction_free +
  assumes mu_start: "mu ws start \<le> 4"
    and mu_running: "result p = None \<Longrightarrow> 1 \<le> mu ws p"
    and mu_others: "ok T ws r \<Longrightarrow> r < T \<Longrightarrow> lok ws p \<Longrightarrow> result p = None \<Longrightarrow> step ws p = (ws', p') \<Longrightarrow>
      lok ws q \<Longrightarrow> result q = None \<Longrightarrow> mu ws' q \<le> mu ws q + took (result p')"
begin

definition weight :: "work_share \<Rightarrow> 'a \<Rightarrow> nat" where
  "weight ws p = (case result p of None \<Rightarrow> mu ws p | Some None \<Rightarrow> 0 | Some (Some b) \<Rightarrow> 5)"

definition to_do :: "nat \<Rightarrow> 'a team_run \<Rightarrow> nat" where
  "to_do T S = (T + 4) * niter (stp (shared S)) (pos (shared S)) (end_it (shared S)) + (\<Sum>i<T. weight (shared S) (pcs S i))"

lemma weight_others:
  assumes "ok T ws r" "r < T" "lok ws p" "result p = None" "step ws p = (ws', p')" "lok ws q"
  shows "weight ws' q \<le> weight ws q + took (result p')"
proof (cases "result q")
  case None
  then show ?thesis using mu_others [OF assms None] by (simp add: weight_def)
qed (simp add: weight_def split: option.split)

lemma sum_weight:
  assumes i: "i < T" and own: "f' i + a \<le> f i + b" and rest: "\<And>j. j < T \<Longrightarrow> j \<noteq> i \<Longrightarrow> f' j \<le> f j + (c :: nat)"
  shows "(\<Sum>j<T. f' j) + a \<le> (\<Sum>j<T. f j) + b + (T - 1) * c"
proof -
  have s: "(\<Sum>j<T. g j) = g i + (\<Sum>j \<in> {..<T} - {i}. g j)" for g :: "nat \<Rightarrow> nat" using i by (simp add: sum.remove)
  have "(\<Sum>j \<in> {..<T} - {i}. f' j) \<le> (\<Sum>j \<in> {..<T} - {i}. f j + c)" by (rule sum_mono) (use rest in auto)
  also have "\<dots> = (\<Sum>j \<in> {..<T} - {i}. f j) + (T - 1) * c" using i by (simp add: sum.distrib)
  finally show ?thesis using own by (simp add: s)
qed

lemma move_to_do:
  assumes inv: "run_inv T ws0 S" and i: "i < T" and live: "result (pcs S i) \<noteq> Some None"
  shows "Suc (to_do T (team_move step result start i S)) \<le> to_do T S"
proof (cases "result (pcs S i)")
  case None
  obtain ws' p' where st: "step (shared S) (pcs S i) = (ws', p')" by fastforce
  have okS: "ok T (shared S) (refused result T S)" and lk: "\<And>j. lok (shared S) (pcs S j)" using inv unfolding run_inv_def by blast+
  note A = okS refused_less [OF i live] lk [of i] None st
  let ?b = "took (result p')"
  let ?S = "team_move step result start i S"
  have S': "shared ?S = ws'" "pcs ?S = (pcs S)(i := p')" using None st by (simp_all add: team_move_def)
  let ?n = "niter (stp (shared S)) (pos (shared S)) (end_it (shared S))" and ?n' = "niter (stp ws') (pos ws') (end_it ws')"
  have fr: "stp ws' = stp (shared S)" "end_it ws' = end_it (shared S)" using frame [OF A] by simp_all
  have own: "weight ws' p' + 1 \<le> weight (shared S) (pcs S i) + 5 * ?b"
  proof (cases "result p'")
    case Nn: None
    then show ?thesis using solo [OF A(1,3-5) Nn] None by (simp add: weight_def)
  next
    case (Some o')
    then show ?thesis using mu_running [OF None, of "shared S"] None by (cases o') (simp_all add: weight_def)
  qed
  have n: "?n' + ?b \<le> ?n"
  proof (cases "\<exists>s e. result p' = Some (Some (s, e))")
    case True
    then obtain s e where r: "result p' = Some (Some (s, e))" by blast
    note g = grant [OF A r]
    have ne: "iters (stp (shared S)) s e \<noteq> []"
      and cut: "iters (stp (shared S)) s e @ iters (stp (shared S)) e (end_it (shared S)) = iters (stp (shared S)) s (end_it (shared S))"
      using g by (auto simp: cuts_def)
    have "0 < niter (stp (shared S)) s e" using ne by (simp flip: length_greater_0_conv)
    moreover have "niter (stp (shared S)) s e + niter (stp (shared S)) e (end_it (shared S)) = niter (stp (shared S)) s (end_it (shared S))"
      using arg_cong [OF cut, of length] by simp
    ultimately show ?thesis using g fr r by simp
  next
    case False
    then have "result p' = None \<or> result p' = Some None" by (metis option.exhaust surj_pair)
    then show ?thesis using quiet [OF A] fr by auto
  qed
  have rest: "weight ws' (pcs S j) \<le> weight (shared S) (pcs S j) + ?b" for j by (rule weight_others [OF A lk])
  have "(\<Sum>j<T. weight ws' (((pcs S)(i := p')) j)) + 1 \<le> (\<Sum>j<T. weight (shared S) (pcs S j)) + 5 * ?b + (T - 1) * ?b"
    by (rule sum_weight [OF i]) (use own rest in simp_all)
  moreover have "5 * ?b + (T - 1) * ?b = (T + 4) * ?b" using i by (cases T) (simp_all add: algebra_simps)
  moreover have "(T + 4) * ?n' + (T + 4) * ?b \<le> (T + 4) * ?n" unfolding add_mult_distrib2 [symmetric] using n by (rule mult_le_mono2)
  ultimately show ?thesis unfolding to_do_def S' by linarith
next
  case (Some o')
  then obtain b where b: "result (pcs S i) = Some (Some b)" using live by (cases o') auto
  let ?S = "team_move step result start i S"
  have S': "shared ?S = shared S" "pcs ?S = (pcs S)(i := start)" using b by (simp_all add: team_move_def)
  have "(\<Sum>j<T. weight (shared S) (((pcs S)(i := start)) j)) + 1 \<le> (\<Sum>j<T. weight (shared S) (pcs S j)) + 0 + (T - 1) * 0"
    by (rule sum_weight [OF i]) (use b mu_start [of "shared S"] in \<open>simp_all add: weight_def start_running\<close>)
  then show ?thesis unfolding to_do_def S' by simp
qed

lemma live_bound:
  "run_inv T ws0 S \<Longrightarrow> set is \<subseteq> {..<T} \<Longrightarrow> live_schedule step result start is S \<Longrightarrow> length is \<le> to_do T S"
proof (induction "is" arbitrary: S)
  case (Cons i "is")
  let ?S = "team_move step result start i S"
  have "run_inv T ws0 ?S" using Cons.prems by (intro move_inv) auto
  then have "length is \<le> to_do T ?S" using Cons.prems by (intro Cons.IH) auto
  moreover have "Suc (to_do T ?S) \<le> to_do T S" using Cons.prems by (intro move_to_do) auto
  ultimately show ?case by simp
qed simp

lemma run_bound:
  assumes "ok T ws 0" and "set is \<subseteq> {..<T}" and "live_schedule step result start is (team_init start ws)"
  shows "length is \<le> (T + 4) * niter (stp ws) (pos ws) (end_it ws) + 4 * T"
proof -
  have w: "(\<Sum>i<T. weight ws start) \<le> 4 * T"
    using sum_bounded_above [of "{..<T}" "\<lambda>i. weight ws start" 4] by (simp add: weight_def start_running mu_start)
  have "length is \<le> to_do T (team_init start ws)" by (rule live_bound [OF init_inv [OF assms(1)] assms(2,3)])
  also have "\<dots> = (T + 4) * niter (stp ws) (pos ws) (end_it ws) + (\<Sum>i<T. weight ws start)"
    by (simp only: to_do_def team_init_def team_run.simps)
  finally show ?thesis using w by linarith
qed

end

subsection \<open>The routine that is called with the lock held\<close>

text \<open>\<open>n\<close> calls one after the other, as long as they return true.\<close>

fun locked_calls :: "(work_share \<Rightarrow> (int \<times> int) option \<times> work_share) \<Rightarrow> nat \<Rightarrow> work_share \<Rightarrow> (int \<times> int) list \<times> work_share" where
  "locked_calls f 0 ws = ([], ws)"
| "locked_calls f (Suc n) ws = (case f ws of (None, ws') \<Rightarrow> ([], ws')
     | (Some b, ws') \<Rightarrow> (case locked_calls f n ws' of (bs, ws'') \<Rightarrow> (b # bs, ws'')))"

lemma locked_calls_snoc:
  "locked_calls f n ws = (bs, w) \<Longrightarrow> length bs = n \<Longrightarrow> f w = (Some b, w') \<Longrightarrow> locked_calls f (Suc n) ws = (bs @ [b], w')"
proof (induction n arbitrary: ws bs)
  case (Suc n)
  obtain a v where a: "f ws = (Some a, v)" using Suc.prems(1,2) by (cases "f ws"; cases "fst (f ws)") auto
  obtain cs where c: "locked_calls f n v = (cs, w)" "bs = a # cs" using Suc.prems(1) a by (auto split: prod.splits)
  then have "locked_calls f (Suc n) v = (cs @ [b], w')" using Suc.IH [OF c(1) _ Suc.prems(3)] Suc.prems(2) by simp
  then show ?case using a c(2) by (subst locked_calls.simps(2)) simp
qed simp

text \<open>A lock-free form of the routine \<open>locked\<close>: the swap that succeeds does what a call of \<open>locked\<close> does at that
  moment, a thread that is told to stop would have been told so by \<open>locked\<close>, and nothing else changes the descriptor.\<close>

locale locked_form =
  fixes step :: "work_share \<Rightarrow> 'pc \<Rightarrow> work_share \<times> 'pc"
    and result :: "'pc \<Rightarrow> outcome"
    and start :: 'pc
    and ok :: "work_share \<Rightarrow> bool"
    and lok :: "work_share \<Rightarrow> 'pc \<Rightarrow> bool"
    and locked :: "work_share \<Rightarrow> (int \<times> int) option \<times> work_share"
  assumes starts: "result start = None" "ok ws \<Longrightarrow> lok ws start"
    and waits: "ok ws \<Longrightarrow> lok ws p \<Longrightarrow> result p = None \<Longrightarrow> step ws p = (ws', p') \<Longrightarrow> result p' = None \<Longrightarrow> ws' = ws \<and> lok ws p'"
    and takes: "ok ws \<Longrightarrow> lok ws p \<Longrightarrow> result p = None \<Longrightarrow> step ws p = (ws', p') \<Longrightarrow> result p' = Some (Some b) \<Longrightarrow>
      locked ws = (Some b, ws') \<and> ok ws' \<and> (\<forall>q. lok ws q \<longrightarrow> lok ws' q) \<and> lok ws' p'"
    and stops: "ok ws \<Longrightarrow> lok ws p \<Longrightarrow> result p = None \<Longrightarrow> step ws p = (ws', p') \<Longrightarrow> result p' = Some None \<Longrightarrow>
      ws' = ws \<and> locked ws = (None, ws) \<and> lok ws p'"
begin

definition lin_inv :: "work_share \<Rightarrow> 'pc team_run \<Rightarrow> bool" where
  "lin_inv ws0 S \<longleftrightarrow> ok (shared S) \<and> (\<forall>i. lok (shared S) (pcs S i))
     \<and> locked_calls locked (length (grants S)) ws0 = (map snd (grants S), shared S)
     \<and> ((\<exists>i. result (pcs S i) = Some None) \<longrightarrow> locked (shared S) = (None, shared S))"

lemma lin_move:
  assumes inv: "lin_inv ws0 S"
  shows "lin_inv ws0 (team_move step result start i S)"
proof (cases "result (pcs S i)")
  case None
  obtain ws' p' where st: "step (shared S) (pcs S i) = (ws', p')" by fastforce
  have ok: "ok (shared S)" and lk: "\<And>j. lok (shared S) (pcs S j)"
    and lc: "locked_calls locked (length (grants S)) ws0 = (map snd (grants S), shared S)"
    and stop: "\<And>i. result (pcs S i) = Some None \<Longrightarrow> locked (shared S) = (None, shared S)"
    using inv unfolding lin_inv_def by blast+
  note A = ok lk [of i] None st
  have S': "team_move step result start i S = \<lparr>shared = ws', pcs = (pcs S)(i := p'),
      grants = grants S @ (case result p' of Some (Some c) \<Rightarrow> [(i, c)] | _ \<Rightarrow> [])\<rparr>"
    using None st by (simp add: team_move_def)
  consider (wait) "result p' = None" | (stop) "result p' = Some None" | (take) b where "result p' = Some (Some b)"
    by (metis option.exhaust)
  then show ?thesis
  proof cases
    case wait
    then show ?thesis using waits [OF A wait] ok lk lc stop by (auto simp: lin_inv_def S')
  next
    case st: stop
    then show ?thesis using stops [OF A st] ok lk lc by (auto simp: lin_inv_def S')
  next
    case take
    note t = takes [OF A take]
    have "result (pcs S j) \<noteq> Some None" for j using stop [of j] t by auto
    moreover have "locked_calls locked (Suc (length (grants S))) ws0 = (map snd (grants S) @ [b], ws')"
      by (rule locked_calls_snoc [OF lc]) (use t in simp_all)
    ultimately show ?thesis using t lk take by (auto simp: lin_inv_def S')
  qed
next
  case (Some o')
  show ?thesis
  proof (cases o')
    case None
    then show ?thesis using inv Some by (simp add: team_move_def)
  next
    case (Some b)
    then show ?thesis using inv starts \<open>result (pcs S i) = Some o'\<close> by (auto simp: lin_inv_def team_move_def split: if_splits)
  qed
qed

lemma run_linear:
  assumes "ok ws"
  shows "lin_inv ws (team_exec step result start is (team_init start ws))"
proof -
  have "lin_inv ws S \<Longrightarrow> lin_inv ws (team_exec step result start is S)" for S
    by (induction "is" arbitrary: S) (auto intro: lin_move)
  then show ?thesis using assms starts by (simp add: lin_inv_def team_init_def)
qed

end

end
