(* ===== verification/CasIter.thy ===== *)
theory CasIter
  imports CasLoop
begin

text \<open>
  The iterators whose only write to the position is one compare-and-swap of \<open>next\<close>: load
  \<open>next\<close>; stop at \<open>end\<close>; compute the end of a block from the value loaded and some locals;
  swap; on failure try again from the value read. The program is given once, with the two
  things in which the iterators differ as arguments, and the contract of \<open>CasLoop\<close> is proved
  for it from laws on those arguments.
\<close>

subsection \<open>The program\<close>

text \<open>\<open>first ws\<close> is what a call does before it reads \<open>next\<close> (at most one access that changes a
  field) with the local it keeps; \<open>block ws s x\<close> is the block end computed from the position
  \<open>s\<close> and the local \<open>x\<close>, with the new value of the local.\<close>

datatype cas_pc = CasCall | CasLoad int | CasLoop int int | CasRet "(int \<times> int) option"

fun cas_result :: "cas_pc \<Rightarrow> outcome" where
  "cas_result (CasRet r) = Some r" | "cas_result _ = None"

fun cas_prog ::
  "(work_share \<Rightarrow> work_share \<times> int) \<Rightarrow> (work_share \<Rightarrow> int \<Rightarrow> int \<Rightarrow> int \<times> int)
    \<Rightarrow> work_share \<Rightarrow> cas_pc \<Rightarrow> work_share \<times> cas_pc"
where
  "cas_prog first block ws CasCall = (case first ws of (ws', x) \<Rightarrow> (ws', CasLoad x))"
| "cas_prog first block ws (CasLoad x) = (ws, CasLoop (next_it ws) x)"
| "cas_prog first block ws (CasLoop s x) =
    (if s = end_it ws then (ws, CasRet None)
     else case block ws s x of (e, x') \<Rightarrow>
       if next_it ws = s then (ws\<lparr>next_it := e\<rparr>, CasRet (Some (s, e)))
       else (ws, CasLoop (next_it ws) x'))"
| "cas_prog first block ws (CasRet r) = (ws, CasRet r)"

subsection \<open>The contract\<close>

text \<open>\<open>good\<close>: the descriptor is in order. \<open>seen ws s\<close>: \<open>s\<close> is a position that \<open>next\<close> has had.
  \<open>fit ws x\<close>: the local is usable. \<open>step_of\<close>: the signed step of the loop.\<close>

locale cas_iterator =
  fixes first :: "work_share \<Rightarrow> work_share \<times> int"
    and block :: "work_share \<Rightarrow> int \<Rightarrow> int \<Rightarrow> int \<times> int"
    and step_of :: "work_share \<Rightarrow> int"
    and good :: "work_share \<Rightarrow> bool"
    and seen :: "work_share \<Rightarrow> int \<Rightarrow> bool"
    and fit :: "work_share \<Rightarrow> int \<Rightarrow> bool"
  assumes step_nonzero: "good ws \<Longrightarrow> step_of ws \<noteq> 0"
    and step_next: "step_of (ws\<lparr>next_it := e\<rparr>) = step_of ws"
    and first_law: "good ws \<Longrightarrow> first ws = (ws', x) \<Longrightarrow>
      good ws' \<and> fit ws' x \<and> step_of ws' = step_of ws \<and> end_it ws' = end_it ws \<and> next_it ws' = next_it ws
      \<and> (\<forall>y. fit ws y \<longrightarrow> fit ws' y) \<and> (\<forall>s. seen ws s \<longrightarrow> seen ws' s)"
    and seen_next: "good ws \<Longrightarrow> seen ws (next_it ws)"
    and block_law: "good ws \<Longrightarrow> fit ws x \<Longrightarrow> next_it ws \<noteq> end_it ws \<Longrightarrow> block ws (next_it ws) x = (e, x') \<Longrightarrow>
      cuts (step_of ws) (next_it ws) e (end_it ws) \<and> good (ws\<lparr>next_it := e\<rparr>)"
    and block_fit: "good ws \<Longrightarrow> fit ws x \<Longrightarrow> seen ws s \<Longrightarrow> s \<noteq> end_it ws \<Longrightarrow> block ws s x = (e, x') \<Longrightarrow> fit ws x'"
    and stable_law: "good ws \<Longrightarrow> cuts (step_of ws) (next_it ws) e (end_it ws) \<Longrightarrow> good (ws\<lparr>next_it := e\<rparr>) \<Longrightarrow>
      (\<forall>x. fit ws x \<longrightarrow> fit (ws\<lparr>next_it := e\<rparr>) x) \<and> (\<forall>s. seen ws s \<longrightarrow> seen (ws\<lparr>next_it := e\<rparr>) s)"
begin

fun lok :: "work_share \<Rightarrow> cas_pc \<Rightarrow> bool" where
  "lok ws (CasLoad x) = fit ws x"
| "lok ws (CasLoop s x) = (fit ws x \<and> seen ws s \<and> (s = end_it ws \<longrightarrow> next_it ws = end_it ws))"
| "lok ws _ = True"

fun mu :: "work_share \<Rightarrow> cas_pc \<Rightarrow> nat" where
  "mu ws CasCall = 4"
| "mu ws (CasLoad x) = 3"
| "mu ws (CasLoop s x) = (if next_it ws = s then 1 else 2)"
| "mu ws (CasRet r) = 0"

lemma step_cases:
  assumes st: "cas_prog first block ws p = (ws', p')" and g: "good ws" and lk: "lok ws p" and r: "cas_result p = None"
  obtains (call) x where "p = CasCall" "first ws = (ws', x)" "p' = CasLoad x"
  | (load) x where "p = CasLoad x" "fit ws x" "ws' = ws" "p' = CasLoop (next_it ws) x"
  | (stop) s x where "p = CasLoop s x" "s = end_it ws" "next_it ws = end_it ws" "ws' = ws" "p' = CasRet None"
  | (fail) s x x' where "p = CasLoop s x" "s \<noteq> end_it ws" "next_it ws \<noteq> s" "fit ws x'" "ws' = ws"
      "p' = CasLoop (next_it ws) x'"
  | (take) x e where "p = CasLoop (next_it ws) x" "next_it ws \<noteq> end_it ws"
      "cuts (step_of ws) (next_it ws) e (end_it ws)" "good (ws\<lparr>next_it := e\<rparr>)" "ws' = ws\<lparr>next_it := e\<rparr>"
      "p' = CasRet (Some (next_it ws, e))"
proof (cases p)
  case CasCall
  obtain ws1 x where f: "first ws = (ws1, x)" by fastforce
  then have "ws' = ws1" "p' = CasLoad x" using st CasCall by auto
  then show ?thesis using call [OF CasCall] f by blast
next
  case (CasLoad x)
  then have "ws' = ws" "p' = CasLoop (next_it ws) x" "fit ws x" using st lk by auto
  then show ?thesis using load [OF CasLoad] by blast
next
  case (CasLoop s x)
  then have fx: "fit ws x" and sn: "seen ws s" and le: "s = end_it ws \<Longrightarrow> next_it ws = end_it ws" using lk by auto
  obtain e x' where b: "block ws s x = (e, x')" by fastforce
  show ?thesis
  proof (cases "s = end_it ws")
    case True
    then have "ws' = ws" "p' = CasRet None" using st CasLoop by simp_all
    then show ?thesis using stop [OF CasLoop True le [OF True]] by simp
  next
    case ne: False
    show ?thesis
    proof (cases "next_it ws = s")
      case False
      then have "ws' = ws" "p' = CasLoop (next_it ws) x'" using st CasLoop ne b by auto
      then show ?thesis using fail [OF CasLoop ne False block_fit [OF g fx sn ne b]] by simp
    next
      case True
      have "ws' = ws\<lparr>next_it := e\<rparr>" "p' = CasRet (Some (next_it ws, e))" using st CasLoop ne b True by simp_all
      moreover have "p = CasLoop (next_it ws) x" "next_it ws \<noteq> end_it ws" using CasLoop True ne by simp_all
      moreover have "cuts (step_of ws) (next_it ws) e (end_it ws) \<and> good (ws\<lparr>next_it := e\<rparr>)"
        using block_law [OF g fx] b True ne by simp
      ultimately show ?thesis using take [of x e] by simp
    qed
  qed
qed (use r in simp)

lemma lok_stable:
  assumes "good ws" and "cuts (step_of ws) (next_it ws) e (end_it ws)" and "good (ws\<lparr>next_it := e\<rparr>)"
    and "next_it ws \<noteq> end_it ws" and "lok ws q"
  shows "lok (ws\<lparr>next_it := e\<rparr>) q"
  using stable_law [OF assms(1-3)] assms(4,5) by (cases q) auto

lemma lok_first: "good ws \<Longrightarrow> first ws = (ws', x) \<Longrightarrow> lok ws q \<Longrightarrow> lok ws' q"
  using first_law [of ws ws' x] by (cases q) auto

lemma empty_at_end: "good ws \<Longrightarrow> iters (step_of ws) (end_it ws) (end_it ws) = []"
  by (rule iters_Nil) (simp_all add: step_nonzero)

end

sublocale cas_iterator \<subseteq> lock_free "cas_prog first block" cas_result CasCall step_of next_it
    "\<lambda>_ ws _. good ws" lok mu
proof (unfold_locales, goal_cases)
  case (3 _ ws r p ws' p')
  from 3(5,1,3,4) show ?case
    by (elim step_cases) (use first_law [OF 3(1)] in \<open>auto simp: seen_next [OF 3(1)]\<close>)
next
  case (4 _ ws r p ws' p' q)
  from 4(5,1,3,4) 4(6) show ?case
    by (elim step_cases) (auto intro: lok_stable lok_first)
next
  case (5 _ ws r p ws' p')
  from 5(5,1,3,4) show ?case by (elim step_cases) (use first_law [OF 5(1)] in \<open>auto simp: step_next\<close>)
next
  case (6 _ ws r p ws' p')
  from 6(5,1,3,4) 6(6) show ?case by (elim step_cases) (use first_law [OF 6(1)] in auto)
next
  case (7 _ ws r p ws' p' s e)
  from 7(5,1,3,4) 7(6) show ?case by (elim step_cases) auto
next
  case (8 _ ws r p ws' p')
  from 8(5,1,3,4) 8(6) show ?case by (elim step_cases) (auto simp: empty_at_end)
next
  case (9 _ ws r p ws' p')
  from 9(4,1-3) 9(5) show ?case by (elim step_cases) auto
next
  case (11 p ws)
  then show ?case by (cases p) auto
next
  case (12 T ws r p ws' p' q)
  from 12(5,1,3,4) show ?case
    by (elim step_cases) (use first_law [OF 12(1)] 12(7) in \<open>cases q; auto\<close>)+
qed auto

end
