(* ===== verification/IterDynamic.thy ===== *)
theory IterDynamic
  imports CasLoop
begin

text \<open>
  The DYNAMIC and GUIDED schedules on \<open>long\<close> loops (\<open>gcc/libgomp/iter.c\<close>): the routines
  called with the work-share lock held, and the lock-free ones, with the interpretation of
  the contract of \<open>CasLoop\<close> and the resulting properties.
\<close>

subsection \<open>DYNAMIC, with the lock held\<close>

definition gomp_iter_dynamic_next_locked :: "work_share \<Rightarrow> (int \<times> int) option \<times> work_share" where
  "gomp_iter_dynamic_next_locked ws =
    (let start = next_it ws in
     if start = end_it ws then (None, ws)
     else let chunk = chunk_size ws;
              left = s64 (end_it ws - start);
              chunk1 = (if incr ws < 0 then (if chunk < left then left else chunk)
                        else (if chunk > left then left else chunk));
              e = s64 (start + chunk1)
          in (Some (start, e), ws\<lparr>next_it := e\<rparr>))"

subsection \<open>DYNAMIC, lock-free\<close>

text \<open>
  With \<open>ws->mode\<close> set, one fetch-and-add of the chunk; otherwise a load and a
  compare-and-swap loop, in which the local \<open>chunk\<close> stays clipped.
\<close>

definition clip_chunk :: "int \<Rightarrow> int \<Rightarrow> int \<Rightarrow> int" where
  "clip_chunk inc chunk left = (if inc < 0 then (if chunk < left then left else chunk)
                                 else (if chunk > left then left else chunk))"

datatype dyn_pc = DynCall | DynLoop (dyn_start: int) (dyn_chunk: int) | DynRet "(int \<times> int) option"

fun dyn_result :: "dyn_pc \<Rightarrow> outcome" where
  "dyn_result (DynRet r) = Some r" | "dyn_result _ = None"

fun gomp_iter_dynamic_next :: "work_share \<Rightarrow> dyn_pc \<Rightarrow> work_share \<times> dyn_pc" where
  "gomp_iter_dynamic_next ws DynCall =
    (let chunk = chunk_size ws; e = end_it ws in
     if mode ws \<noteq> 0 then
       let tmp = next_it ws; ws' = ws\<lparr>next_it := s64 (tmp + chunk)\<rparr> in
       if 0 < incr ws then
         if tmp \<ge> e then (ws', DynRet None)
         else let nend = s64 (tmp + chunk) in (ws', DynRet (Some (tmp, if nend > e then e else nend)))
       else
         if tmp \<le> e then (ws', DynRet None)
         else let nend = s64 (tmp + chunk) in (ws', DynRet (Some (tmp, if nend < e then e else nend)))
     else (ws, DynLoop (next_it ws) chunk))"
| "gomp_iter_dynamic_next ws (DynLoop start chunk) =
    (let left = s64 (end_it ws - start) in
     if start = end_it ws then (ws, DynRet None)
     else let chunk' = clip_chunk (incr ws) chunk left; nend = s64 (start + chunk') in
          if next_it ws = start then (ws\<lparr>next_it := nend\<rparr>, DynRet (Some (start, nend)))
          else (ws, DynLoop (next_it ws) chunk'))"
| "gomp_iter_dynamic_next ws (DynRet r) = (ws, DynRet r)"

subsection \<open>GUIDED, with the lock held and lock-free\<close>

definition gomp_iter_guided_next_locked :: "int \<Rightarrow> work_share \<Rightarrow> (int \<times> int) option \<times> work_share" where
  "gomp_iter_guided_next_locked nthreads ws =
    (if next_it ws = end_it ws then (None, ws)
     else let start = next_it ws;
              n = u64 (s64 (end_it ws - next_it ws) sdiv incr ws);
              q = u64 (u64 (n + nthreads) - 1) div nthreads;
              q1 = (if q < u64 (chunk_size ws) then u64 (chunk_size ws) else q);
              e = (if q1 \<le> n then s64 (u64 (start + u64 (q1 * incr ws))) else end_it ws)
          in (Some (start, e), ws\<lparr>next_it := e\<rparr>))"

text \<open>The same computation in the lock-free routine.\<close>

definition guided_q :: "int \<Rightarrow> int \<Rightarrow> int \<Rightarrow> int" where
  "guided_q nthreads n chunk =
    (let q = u64 (u64 (n + nthreads) - 1) div nthreads in if q < chunk then chunk else q)"

definition guided_nend :: "int \<Rightarrow> work_share \<Rightarrow> int \<Rightarrow> int" where
  "guided_nend nthreads ws start =
    (let n = u64 (s64 (end_it ws - start) sdiv incr ws);
         q = guided_q nthreads n (u64 (chunk_size ws))
     in if q \<le> n then s64 (u64 (start + u64 (q * incr ws))) else end_it ws)"

datatype guided_pc = GuidedCall | GuidedLoop int | GuidedRet "(int \<times> int) option"

fun guided_result :: "guided_pc \<Rightarrow> outcome" where
  "guided_result (GuidedRet r) = Some r" | "guided_result _ = None"

fun gomp_iter_guided_next :: "int \<Rightarrow> work_share \<Rightarrow> guided_pc \<Rightarrow> work_share \<times> guided_pc" where
  "gomp_iter_guided_next nthreads ws GuidedCall = (ws, GuidedLoop (next_it ws))"
| "gomp_iter_guided_next nthreads ws (GuidedLoop start) =
    (if start = end_it ws then (ws, GuidedRet None)
     else let nend = guided_nend nthreads ws start
          in if next_it ws = start then (ws\<lparr>next_it := nend\<rparr>, GuidedRet (Some (start, nend)))
             else (ws, GuidedLoop (next_it ws)))"
| "gomp_iter_guided_next nthreads ws (GuidedRet r) = (ws, GuidedRet r)"

subsection \<open>Exact arithmetic on a loop that fits\<close>

text \<open>\<open>room ws\<close> is the number of whole steps from \<open>next\<close> to \<open>end\<close>: \<open>(end - next) / incr\<close>.\<close>

definition room :: "work_share \<Rightarrow> int" where
  "room ws = extent ws div \<bar>incr ws\<bar>"

lemma long_loopD:
  assumes "long_loop ws"
  shows "incr ws \<noteq> 0" "0 \<le> extent ws" "extent ws \<le> LONG_MAX" "is_long (next_it ws)" "is_long (end_it ws)"
    "is_long (incr ws)" "end_it ws = next_it ws + sgn (incr ws) * extent ws"
    "next_it ws = end_it ws \<longleftrightarrow> extent ws = 0"
  using assms by (auto simp: long_loop_def extent_def sgn_if)

lemma room_exact:
  assumes "long_loop ws"
  shows "u64 (s64 (end_it ws - next_it ws) sdiv incr ws) = room ws" "0 \<le> room ws" "room ws \<le> LONG_MAX"
    "room ws * \<bar>incr ws\<bar> \<le> extent ws"
proof -
  note D = long_loopD [OF assms]
  have k: "0 < \<bar>incr ws\<bar>" using D(1) by simp
  have diff: "end_it ws - next_it ws = sgn (incr ws) * extent ws" using D(7) by simp
  have "s64 (end_it ws - next_it ws) = sgn (incr ws) * extent ws"
    unfolding diff using D(1-3) by (intro s64_id) (auto simp: sgn_if)
  then have e: "s64 (end_it ws - next_it ws) sdiv incr ws = room ws"
    using sdiv_same_sign [OF D(2,1)] by (simp add: room_def)
  show r0: "0 \<le> room ws" using D(2) k by (simp add: room_def pos_imp_zdiv_nonneg_iff)
  have "room ws \<le> extent ws" using zdiv_mono2 [of "extent ws" 1 "\<bar>incr ws\<bar>"] D(2) k by (simp add: room_def)
  then show r1: "room ws \<le> LONG_MAX" using D(3) by simp
  show "u64 (s64 (end_it ws - next_it ws) sdiv incr ws) = room ws" unfolding e using r0 r1 by (simp add: u64_id)
  show "room ws * \<bar>incr ws\<bar> \<le> extent ws"
    using div_mult_mod_eq [of "extent ws" "\<bar>incr ws\<bar>"] pos_mod_sign [OF k, of "extent ws"]
    unfolding room_def by linarith
qed

lemma within_signed:
  fixes s a d n lo hi :: int
  assumes "s = 1 \<or> s = - 1" and "0 \<le> a" and "a \<le> d"
  shows "lo \<le> n \<and> n \<le> hi \<Longrightarrow> lo \<le> n + s * d \<and> n + s * d \<le> hi \<Longrightarrow> lo \<le> n + s * a \<and> n + s * a \<le> hi"
  using assms by auto

text \<open>Advancing by \<open>q\<close> steps that fit: no overflow, a cut of the remaining iterations, and
  the loop still fits.\<close>

lemma advance_steps:
  assumes "long_loop ws" and "1 \<le> q" and "q * \<bar>incr ws\<bar> \<le> extent ws"
  shows "s64 (next_it ws + q * incr ws) = next_it ws + q * incr ws"
    "cuts (incr ws) (next_it ws) (next_it ws + q * incr ws) (end_it ws)"
    "long_loop (ws\<lparr>next_it := next_it ws + q * incr ws\<rparr>)"
proof -
  note D = long_loopD [OF assms(1)]
  have qk: "q * incr ws = sgn (incr ws) * (q * \<bar>incr ws\<bar>)" by (simp add: abs_sgn mult.commute mult.left_commute)
  have q0: "0 \<le> q * \<bar>incr ws\<bar>" using assms(2) by simp
  have "sgn (incr ws) = 1 \<or> sgn (incr ws) = - 1" using D(1) by (auto simp: sgn_if)
  from within_signed [OF this q0 assms(3)] D(4,5)
  have L: "is_long (next_it ws + q * incr ws)" unfolding qk D(7) by blast
  then show "s64 (next_it ws + q * incr ws) = next_it ws + q * incr ws" by (intro s64_id) auto
  show "cuts (incr ws) (next_it ws) (next_it ws + q * incr ws) (end_it ws)"
    using assms D(1) by (intro cuts_multiple) (auto simp: extent_def)
  have "extent (ws\<lparr>next_it := next_it ws + q * incr ws\<rparr>) = extent ws - q * \<bar>incr ws\<bar>"
    by (simp add: extent_def abs_sgn algebra_simps)
  then show "long_loop (ws\<lparr>next_it := next_it ws + q * incr ws\<rparr>)"
    using L assms(3) q0 D by (simp add: long_loop_def)
qed

lemma advance_end:
  assumes "long_loop ws" and "next_it ws \<noteq> end_it ws"
  shows "cuts (incr ws) (next_it ws) (end_it ws) (end_it ws)" "long_loop (ws\<lparr>next_it := end_it ws\<rparr>)"
proof -
  note D = long_loopD [OF assms(1)]
  have "0 < extent ws" using D(2,8) assms(2) by linarith
  then show "cuts (incr ws) (next_it ws) (end_it ws) (end_it ws)"
    using D(1) by (intro cuts_rest) (auto simp: extent_def)
  show "long_loop (ws\<lparr>next_it := end_it ws\<rparr>)" using D(1,5,6) by (simp add: long_loop_def extent_def)
qed

text \<open>What every lock-free iterator on a \<open>long\<close> loop does when its swap succeeds.\<close>

definition takes :: "work_share \<Rightarrow> int \<Rightarrow> bool" where
  "takes ws e \<longleftrightarrow> cuts (incr ws) (next_it ws) e (end_it ws) \<and> long_loop (ws\<lparr>next_it := e\<rparr>)"

lemma takes_steps:
  assumes "long_loop ws" and "1 \<le> q" and "q \<le> room ws"
  shows "takes ws (s64 (u64 (next_it ws + u64 (q * incr ws))))"
proof -
  have "q * \<bar>incr ws\<bar> \<le> room ws * \<bar>incr ws\<bar>" using assms(3) by (intro mult_right_mono) auto
  then have "q * \<bar>incr ws\<bar> \<le> extent ws" using room_exact(4) [OF assms(1)] by linarith
  note A = advance_steps [OF assms(1,2) this]
  have "s64 (u64 (next_it ws + u64 (q * incr ws))) = next_it ws + q * incr ws" using A(1) by simp
  then show ?thesis using A(2,3) by (simp add: takes_def)
qed

lemma takes_end: "long_loop ws \<Longrightarrow> next_it ws \<noteq> end_it ws \<Longrightarrow> takes ws (end_it ws)"
  by (simp add: takes_def advance_end)


lemma takesD:
  assumes "takes ws e" and "incr ws \<noteq> 0"
  shows "0 < sgn (incr ws) * (e - next_it ws)" "long_loop (ws\<lparr>next_it := e\<rparr>)"
    "cuts (incr ws) (next_it ws) e (end_it ws)"
  using assms niter_pos_iff [of "incr ws" "next_it ws" e]
  by (auto simp: takes_def cuts_def length_greater_0_conv [symmetric] simp del: length_greater_0_conv)

lemma takes_not_at_end: "takes ws e \<Longrightarrow> incr ws \<noteq> 0 \<Longrightarrow> 0 \<le> extent (ws\<lparr>next_it := e\<rparr>)"
  by (simp add: takes_def long_loop_def)

subsection \<open>GUIDED meets the contract\<close>

definition guided_ok :: "int \<Rightarrow> work_share \<Rightarrow> bool" where
  "guided_ok nthreads ws \<longleftrightarrow> long_loop ws \<and> 1 \<le> chunk_size ws \<and> chunk_size ws \<le> LONG_MAX
     \<and> 1 \<le> nthreads \<and> nthreads < 2 ^ 32"

fun guided_lok :: "work_share \<Rightarrow> guided_pc \<Rightarrow> bool" where
  "guided_lok ws (GuidedLoop s) = (s = end_it ws \<longrightarrow> next_it ws = end_it ws)"
| "guided_lok ws _ = True"

fun guided_mu :: "work_share \<Rightarrow> guided_pc \<Rightarrow> nat" where
  "guided_mu ws GuidedCall = 3"
| "guided_mu ws (GuidedLoop s) = (if next_it ws = s then 1 else 2)"
| "guided_mu ws (GuidedRet r) = 0"

lemma guided_takes:
  assumes "guided_ok T ws" and "next_it ws \<noteq> end_it ws"
  shows "takes ws (guided_nend T ws (next_it ws))"
proof -
  have L: "long_loop ws" and c: "1 \<le> u64 (chunk_size ws)"
    using assms(1) by (auto simp: guided_ok_def u64_id)
  then have "1 \<le> guided_q T n (u64 (chunk_size ws))" for n by (simp add: guided_q_def Let_def)
  then show ?thesis
    using takes_steps [OF L] takes_end [OF L assms(2)] room_exact(1) [OF L]
    by (simp add: guided_nend_def Let_def)
qed

lemma guided_ok_next: "guided_ok T ws \<Longrightarrow> takes ws e \<Longrightarrow> guided_ok T (ws\<lparr>next_it := e\<rparr>)"
  by (simp add: guided_ok_def takes_def)

lemma guided_stable:
  assumes "guided_ok T ws" and "takes ws e" and "guided_lok ws q" and "next_it ws \<noteq> end_it ws"
  shows "guided_lok (ws\<lparr>next_it := e\<rparr>) q"
  using assms by (cases q) auto

lemma guided_step_cases:
  assumes "gomp_iter_guided_next T ws p = (ws', p')" and "guided_ok T ws" and "guided_result p = None"
  obtains (load) "p = GuidedCall" "ws' = ws" "p' = GuidedLoop (next_it ws)"
  | (stop) s where "p = GuidedLoop s" "s = end_it ws" "ws' = ws" "p' = GuidedRet None"
  | (fail) s where "p = GuidedLoop s" "s \<noteq> end_it ws" "next_it ws \<noteq> s" "ws' = ws" "p' = GuidedLoop (next_it ws)"
  | (take) e where "p = GuidedLoop (next_it ws)" "next_it ws \<noteq> end_it ws" "takes ws e" "ws' = ws\<lparr>next_it := e\<rparr>"
      "p' = GuidedRet (Some (next_it ws, e))"
proof (cases p)
  case GuidedCall
  then show ?thesis using assms(1) load by auto
next
  case (GuidedLoop s)
  show ?thesis
  proof (cases "s = end_it ws")
    case True
    then have "ws' = ws" "p' = GuidedRet None" using assms(1) GuidedLoop by auto
    then show ?thesis using stop [OF GuidedLoop True] by simp
  next
    case False
    show ?thesis
    proof (cases "next_it ws = s")
      case True
      let ?e = "guided_nend T ws (next_it ws)"
      have p: "p = GuidedLoop (next_it ws)" and n: "next_it ws \<noteq> end_it ws" using True False GuidedLoop by simp_all
      have "gomp_iter_guided_next T ws p = (ws\<lparr>next_it := ?e\<rparr>, GuidedRet (Some (next_it ws, ?e)))"
        unfolding p using n by (simp add: Let_def)
      then have "ws' = ws\<lparr>next_it := ?e\<rparr>" "p' = GuidedRet (Some (next_it ws, ?e))" using assms(1) by simp_all
      then show ?thesis using take [OF p n guided_takes [OF assms(2) n]] by simp
    next
      case nf: False
      then have "ws' = ws" "p' = GuidedLoop (next_it ws)"
        using assms(1) False GuidedLoop by (auto simp: Let_def)
      then show ?thesis using fail [OF GuidedLoop False nf] by simp
    qed
  qed
next
  case (GuidedRet r)
  then show ?thesis using assms(3) by simp
qed

interpretation guided: lock_free "gomp_iter_guided_next T" guided_result GuidedCall incr next_it
    "\<lambda>_ ws _. guided_ok T ws" guided_lok guided_mu for T
proof (unfold_locales, goal_cases)
  case (3 _ ws r p ws' p')
  then show ?case by (elim guided_step_cases) (auto simp: guided_ok_next)
next
  case (4 _ ws r p ws' p' q)
  then show ?case by (elim guided_step_cases) (auto simp: guided_stable)
next
  case (5 _ ws r p ws' p')
  then show ?case by (elim guided_step_cases) auto
next
  case (6 _ ws r p ws' p')
  then show ?case by (elim guided_step_cases) auto
next
  case (7 _ ws r p ws' p' s e)
  then show ?case by (elim guided_step_cases) (auto simp: takes_def)
next
  case (8 _ ws r p ws' p')
  then show ?case by (elim guided_step_cases) auto
next
  case (9 _ ws r p ws' p')
  then show ?case by (elim guided_step_cases) auto
next
  case (11 p ws)
  then show ?case by (cases p) auto
next
  case (12 _ ws r p ws' p' q)
  then show ?case by (elim guided_step_cases) (cases q; auto)+
qed auto

text \<open>And it is a lock-free form of the routine that is called with the lock held.\<close>

interpretation guided_lock: locked_form "gomp_iter_guided_next T" guided_result GuidedCall "guided_ok T" guided_lok
    "gomp_iter_guided_next_locked T" for T
proof (unfold_locales, goal_cases)
  case (3 ws p ws' p')
  then show ?case by (elim guided_step_cases) auto
next
  case (4 ws p ws' p' b)
  have lock: "gomp_iter_guided_next_locked T ws = (Some (next_it ws, guided_nend T ws (next_it ws)), ws\<lparr>next_it := guided_nend T ws (next_it ws)\<rparr>)"
    if "next_it ws \<noteq> end_it ws"
    using that by (simp add: gomp_iter_guided_next_locked_def guided_nend_def guided_q_def Let_def)
  from 4(4,1,3) show ?case
  proof (cases rule: guided_step_cases)
    case (take e)
    then have "e = guided_nend T ws (next_it ws)" using 4(4) by (simp add: Let_def)
    then show ?thesis using take lock 4(1,5) guided_ok_next guided_stable by auto
  qed (use 4(5) in auto)
next
  case (5 ws p ws' p')
  from 5(4,1,3) 5(2) show ?case
    by (cases rule: guided_step_cases) (use 5(5) in \<open>auto simp: gomp_iter_guided_next_locked_def\<close>)
qed auto


subsection \<open>DYNAMIC meets the contract\<close>

text \<open>
  \<open>dyn_ok T ws r\<close>: a loop set up for \<open>T\<close> threads, \<open>r\<close> of which have been told to stop. The
  chunk is a positive multiple of the step. In fetch-and-add mode \<open>next\<close> may run past \<open>end\<close>,
  by at most one chunk for the block that reached the end and one for each refused thread.
\<close>

definition dyn_ok :: "nat \<Rightarrow> work_share \<Rightarrow> nat \<Rightarrow> bool" where
  "dyn_ok T ws r \<longleftrightarrow> incr ws \<noteq> 0 \<and> is_long (incr ws) \<and> is_long (end_it ws) \<and> is_long (chunk_size ws)
     \<and> chunk_size ws mod incr ws = 0 \<and> 1 \<le> chunk_size ws div incr ws
     \<and> (mode ws = 0 \<longrightarrow> long_loop ws)
     \<and> (mode ws \<noteq> 0 \<longrightarrow> 0 < incr ws \<longrightarrow>
          LONG_MIN \<le> next_it ws \<and> end_it ws - next_it ws \<le> LONG_MAX
          \<and> next_it ws \<le> end_it ws + (int r + 1) * chunk_size ws
          \<and> end_it ws + (int T + 1) * chunk_size ws \<le> LONG_MAX)
     \<and> (mode ws \<noteq> 0 \<longrightarrow> incr ws < 0 \<longrightarrow>
          next_it ws \<le> LONG_MAX \<and> next_it ws - end_it ws \<le> LONG_MAX
          \<and> end_it ws + (int r + 1) * chunk_size ws \<le> next_it ws
          \<and> LONG_MIN \<le> end_it ws + (int T + 1) * chunk_size ws)"

definition dyn_pos :: "work_share \<Rightarrow> int" where
  "dyn_pos ws = (if mode ws \<noteq> 0 \<and> 0 < sgn (incr ws) * (next_it ws - end_it ws) then end_it ws else next_it ws)"

fun dyn_lok :: "work_share \<Rightarrow> dyn_pc \<Rightarrow> bool" where
  "dyn_lok ws (DynLoop s c) =
     (mode ws = 0 \<and> 0 \<le> sgn (incr ws) * (next_it ws - s) \<and> 0 \<le> sgn (incr ws) * (end_it ws - s)
      \<and> sgn (incr ws) * (end_it ws - s) \<le> LONG_MAX
      \<and> (c = chunk_size ws \<or> sgn (incr ws) * (end_it ws - next_it ws) \<le> sgn (incr ws) * c))"
| "dyn_lok ws _ = True"

fun dyn_mu :: "work_share \<Rightarrow> dyn_pc \<Rightarrow> nat" where
  "dyn_mu ws DynCall = 3"
| "dyn_mu ws (DynLoop s c) = (if next_it ws = s then 1 else 2)"
| "dyn_mu ws (DynRet r) = 0"

lemma clip_chunk_sgn:
  "inc \<noteq> 0 \<Longrightarrow> clip_chunk inc c l = (if sgn inc * l < sgn inc * c then l else c)"
  by (auto simp: clip_chunk_def sgn_if)

lemma dyn_chunk:
  assumes "dyn_ok T ws r"
  obtains q where "1 \<le> q" "chunk_size ws = q * incr ws" "sgn (incr ws) * chunk_size ws = q * \<bar>incr ws\<bar>"
proof
  show "1 \<le> chunk_size ws div incr ws" using assms by (simp add: dyn_ok_def)
  show c: "chunk_size ws = chunk_size ws div incr ws * incr ws"
    using assms div_mult_mod_eq [of "chunk_size ws" "incr ws"] by (simp add: dyn_ok_def)
  show "sgn (incr ws) * chunk_size ws = chunk_size ws div incr ws * \<bar>incr ws\<bar>"
    by (subst c) (simp add: abs_sgn)
qed

lemma dyn_left:
  assumes "dyn_ok T ws r" and "dyn_lok ws (DynLoop s c)"
  shows "s64 (end_it ws - s) = end_it ws - s"
  using assms by (intro s64_id) (auto simp: dyn_ok_def sgn_if split: if_splits)

lemma dyn_takes:
  assumes ok: "dyn_ok T ws r" and m: "mode ws = 0" and ne: "next_it ws \<noteq> end_it ws"
    and c: "c = chunk_size ws \<or> sgn (incr ws) * (end_it ws - next_it ws) \<le> sgn (incr ws) * c"
  shows "takes ws (s64 (next_it ws + clip_chunk (incr ws) c (end_it ws - next_it ws)))"
proof -
  have L: "long_loop ws" and k: "incr ws \<noteq> 0" using ok m by (auto simp: dyn_ok_def)
  obtain q where q: "1 \<le> q" "chunk_size ws = q * incr ws" "sgn (incr ws) * chunk_size ws = q * \<bar>incr ws\<bar>"
    using dyn_chunk [OF ok] by blast
  show ?thesis
  proof (cases "clip_chunk (incr ws) c (end_it ws - next_it ws) = end_it ws - next_it ws")
    case True
    then show ?thesis using takes_end [OF L ne] long_loopD(5) [OF L] by (simp add: s64_id)
  next
    case False
    then have cc: "clip_chunk (incr ws) c (end_it ws - next_it ws) = c"
      and le: "sgn (incr ws) * c \<le> sgn (incr ws) * (end_it ws - next_it ws)"
      using clip_chunk_sgn [OF k, of c "end_it ws - next_it ws"] by (auto split: if_splits)
    have "c = chunk_size ws"
    proof (rule ccontr)
      assume "c \<noteq> chunk_size ws"
      with c le have "sgn (incr ws) * c = sgn (incr ws) * (end_it ws - next_it ws)" by linarith
      with k have "c = end_it ws - next_it ws" by (simp add: sgn_if split: if_splits)
      with False cc show False by simp
    qed
    with q(3) le have "q * \<bar>incr ws\<bar> \<le> extent ws" unfolding extent_def by simp
    note A = advance_steps [OF L q(1) this]
    have "s64 (next_it ws + clip_chunk (incr ws) c (end_it ws - next_it ws)) = next_it ws + q * incr ws"
      unfolding cc unfolding \<open>c = chunk_size ws\<close> q(2) by (rule A(1))
    then show ?thesis using A(2,3) by (simp add: takes_def)
  qed
qed

lemma dyn_ok_next:
  assumes "dyn_ok T ws r" and "mode ws = 0" and "takes ws e"
  shows "dyn_ok T (ws\<lparr>next_it := e\<rparr>) r'"
  using assms by (simp add: dyn_ok_def takes_def)

lemma dyn_stable_take:
  assumes "dyn_ok T ws r" and "takes ws e" and "dyn_lok ws q"
  shows "dyn_lok (ws\<lparr>next_it := e\<rparr>) q"
proof (cases q)
  case (DynLoop s c)
  have "incr ws \<noteq> 0" using assms(1) by (simp add: dyn_ok_def)
  from takesD(1) [OF assms(2) this] have "0 < sgn (incr ws) * (e - next_it ws)" .
  then have "sgn (incr ws) * (end_it ws - e) \<le> sgn (incr ws) * (end_it ws - next_it ws)"
    "sgn (incr ws) * (next_it ws - s) \<le> sgn (incr ws) * (e - s)" by (simp_all add: algebra_simps)
  then show ?thesis using assms(3) DynLoop by auto
qed auto

text \<open>The fetch-and-add, in both directions.\<close>

definition faa_next :: "work_share \<Rightarrow> work_share" where
  "faa_next ws = ws\<lparr>next_it := s64 (next_it ws + chunk_size ws)\<rparr>"

lemma faa_exact:
  assumes "dyn_ok T ws r" and "r < T" and "mode ws \<noteq> 0"
  shows "s64 (next_it ws + chunk_size ws) = next_it ws + chunk_size ws"
proof -
  obtain q where q: "1 \<le> q" "chunk_size ws = q * incr ws" using dyn_chunk [OF assms(1)] by blast
  have k: "incr ws \<noteq> 0" using assms(1) by (simp add: dyn_ok_def)
  have rT: "int r + 1 \<le> int T" using assms(2) by simp
  show ?thesis
  proof (cases "0 < incr ws")
    case True
    then have c: "0 < chunk_size ws" using q by simp
    have "(int r + 1) * chunk_size ws \<le> int T * chunk_size ws" using rT c by (intro mult_right_mono) auto
    moreover have "LONG_MIN \<le> next_it ws" "next_it ws \<le> end_it ws + (int r + 1) * chunk_size ws"
      "end_it ws + (int T + 1) * chunk_size ws \<le> LONG_MAX" using assms(1,3) True unfolding dyn_ok_def by blast+
    ultimately show ?thesis using c by (intro s64_id) (simp_all add: algebra_simps)
  next
    case False
    then have c: "chunk_size ws < 0" using q k by (simp add: mult_pos_neg)
    have "int T * chunk_size ws \<le> (int r + 1) * chunk_size ws" using rT c by (intro mult_right_mono_neg) auto
    moreover have "next_it ws \<le> LONG_MAX" "end_it ws + (int r + 1) * chunk_size ws \<le> next_it ws"
      "LONG_MIN \<le> end_it ws + (int T + 1) * chunk_size ws"
      using assms(1,3) False k unfolding dyn_ok_def by (meson linorder_neqE)+
    ultimately show ?thesis using c by (intro s64_id) (simp_all add: algebra_simps)
  qed
qed


lemma faa_call:
  assumes "dyn_ok T ws r" and "r < T" and "mode ws \<noteq> 0"
  shows "gomp_iter_dynamic_next ws DynCall =
    (faa_next ws, DynRet (if 0 < sgn (incr ws) * (end_it ws - next_it ws)
                           then Some (next_it ws, dyn_pos (faa_next ws)) else None))"
proof -
  have k: "incr ws \<noteq> 0" using assms(1) by (simp add: dyn_ok_def)
  show ?thesis
    using k assms(3) faa_exact [OF assms] by (cases "0 < incr ws") (auto simp: faa_next_def dyn_pos_def Let_def)
qed

lemma faa_ok:
  assumes "dyn_ok T ws r" and "r < T" and "mode ws \<noteq> 0"
  shows "dyn_ok T (faa_next ws) (if 0 < sgn (incr ws) * (end_it ws - next_it ws) then r else Suc r)"
proof -
  obtain q where q: "1 \<le> q" "chunk_size ws = q * incr ws" using dyn_chunk [OF assms(1)] by blast
  have k: "incr ws \<noteq> 0" using assms(1) by (simp add: dyn_ok_def)
  have E: "faa_next ws = ws\<lparr>next_it := next_it ws + chunk_size ws\<rparr>" using faa_exact [OF assms] by (simp add: faa_next_def)
  define R where "R = int r * chunk_size ws"
  have X: "(int r + 1) * chunk_size ws = R + chunk_size ws" "(2 + int r) * chunk_size ws = R + 2 * chunk_size ws"
    by (simp_all add: R_def algebra_simps)
  show ?thesis
  proof (cases "0 < incr ws")
    case True
    then have c: "0 < chunk_size ws" using q by simp
    then have "0 \<le> R" by (simp add: R_def)
    then show ?thesis using assms(1,3) True c unfolding dyn_ok_def E by (auto simp: X)
  next
    case False
    then have kn: "incr ws < 0" using k by simp
    then have c: "chunk_size ws < 0" using q by (simp add: mult_pos_neg)
    then have "R \<le> 0" by (simp add: R_def mult_nonneg_nonpos)
    then show ?thesis using assms(1,3) kn c unfolding dyn_ok_def E by (auto simp: X)
  qed
qed

lemma faa_beyond:
  assumes "dyn_ok T ws r" and "r < T" and "mode ws \<noteq> 0"
    and "\<not> 0 < sgn (incr ws) * (end_it ws - next_it ws)"
  shows "dyn_pos (faa_next ws) = end_it ws" "dyn_pos ws = end_it ws"
proof -
  obtain q where q: "1 \<le> q" "chunk_size ws = q * incr ws" using dyn_chunk [OF assms(1)] by blast
  have k: "incr ws \<noteq> 0" using assms(1) by (simp add: dyn_ok_def)
  have c: "0 < sgn (incr ws) * chunk_size ws" using q k by (simp add: sgn_if zero_less_mult_iff mult_less_0_iff)
  show "dyn_pos (faa_next ws) = end_it ws"
    using faa_exact [OF assms(1-3)] assms(3,4) c k
    by (cases "0 < incr ws") (auto simp: dyn_pos_def faa_next_def)
  show "dyn_pos ws = end_it ws" using assms(3,4) k
    by (cases "0 < incr ws") (auto simp: dyn_pos_def)
qed

lemma faa_cuts:
  assumes "dyn_ok T ws r" and "r < T" and "mode ws \<noteq> 0"
    and less: "0 < sgn (incr ws) * (end_it ws - next_it ws)"
  shows "next_it ws = dyn_pos ws" "cuts (incr ws) (next_it ws) (dyn_pos (faa_next ws)) (end_it ws)"
proof -
  obtain q where q: "1 \<le> q" "chunk_size ws = q * incr ws" "sgn (incr ws) * chunk_size ws = q * \<bar>incr ws\<bar>"
    using dyn_chunk [OF assms(1)] by blast
  have k: "incr ws \<noteq> 0" using assms(1) by (simp add: dyn_ok_def)
  show "next_it ws = dyn_pos ws" using less by (auto simp: dyn_pos_def algebra_simps)
  note E = faa_exact [OF assms(1-3)]
  show "cuts (incr ws) (next_it ws) (dyn_pos (faa_next ws)) (end_it ws)"
  proof (cases "0 < sgn (incr ws) * (next_it (faa_next ws) - end_it ws)")
    case True
    then have "dyn_pos (faa_next ws) = end_it ws" using assms(3) by (simp add: dyn_pos_def faa_next_def)
    then show ?thesis using cuts_rest [OF k less] by simp
  next
    case False
    then have p: "dyn_pos (faa_next ws) = next_it ws + q * incr ws"
      using E q(2) by (simp add: dyn_pos_def faa_next_def)
    have "q * \<bar>incr ws\<bar> \<le> sgn (incr ws) * (end_it ws - next_it ws)"
      using False E q(3) by (simp add: faa_next_def algebra_simps)
    then show ?thesis unfolding p by (rule cuts_multiple [OF k q(1)])
  qed
qed

lemma faa_frame [simp]:
  "incr (faa_next ws) = incr ws" "end_it (faa_next ws) = end_it ws" "mode (faa_next ws) = mode ws"
  "chunk_size (faa_next ws) = chunk_size ws"
  by (simp_all add: faa_next_def)

lemma dyn_lok_locked: "dyn_lok ws q \<Longrightarrow> mode ws \<noteq> 0 \<Longrightarrow> dyn_lok (faa_next ws) q"
  by (cases q) auto

lemma dyn_step_cases:
  assumes st: "gomp_iter_dynamic_next ws p = (ws', p')" and ok: "dyn_ok T ws r" and rT: "r < T"
    and lok: "dyn_lok ws p" and run: "dyn_result p = None"
  obtains (fetch) "p = DynCall" "mode ws \<noteq> 0" "0 < sgn (incr ws) * (end_it ws - next_it ws)"
      "ws' = faa_next ws" "p' = DynRet (Some (next_it ws, dyn_pos (faa_next ws)))"
  | (late) "p = DynCall" "mode ws \<noteq> 0" "\<not> 0 < sgn (incr ws) * (end_it ws - next_it ws)"
      "ws' = faa_next ws" "p' = DynRet None"
  | (load) "p = DynCall" "mode ws = 0" "ws' = ws" "p' = DynLoop (next_it ws) (chunk_size ws)"
  | (stop) s c where "p = DynLoop s c" "mode ws = 0" "s = end_it ws" "ws' = ws" "p' = DynRet None"
  | (fail) s c where "p = DynLoop s c" "mode ws = 0" "s \<noteq> end_it ws" "next_it ws \<noteq> s" "ws' = ws"
      "p' = DynLoop (next_it ws) (clip_chunk (incr ws) c (end_it ws - s))"
  | (take) c e where "p = DynLoop (next_it ws) c" "mode ws = 0" "next_it ws \<noteq> end_it ws" "takes ws e"
      "ws' = ws\<lparr>next_it := e\<rparr>" "p' = DynRet (Some (next_it ws, e))"
proof (cases p)
  case DynCall
  show ?thesis
  proof (cases "mode ws = 0")
    case True
    then have "ws' = ws" "p' = DynLoop (next_it ws) (chunk_size ws)" using st DynCall True by auto
    then show ?thesis by (rule load [OF DynCall True])
  next
    case False
    note C = faa_call [OF ok rT False]
    show ?thesis
      using fetch [OF DynCall False] late [OF DynCall False] st C DynCall
      by (cases "0 < sgn (incr ws) * (end_it ws - next_it ws)") auto
  qed
next
  case (DynLoop s c)
  then have m: "mode ws = 0" and lk: "dyn_lok ws (DynLoop s c)" using lok by auto
  note left = dyn_left [OF ok lk]
  show ?thesis
  proof (cases "s = end_it ws")
    case True
    then have "ws' = ws" "p' = DynRet None" using st DynLoop by auto
    then show ?thesis using stop [OF DynLoop m True] by simp
  next
    case False
    show ?thesis
    proof (cases "next_it ws = s")
      case nf: False
      then have "ws' = ws" "p' = DynLoop (next_it ws) (clip_chunk (incr ws) c (end_it ws - s))"
        using st DynLoop False left by (auto simp: Let_def)
      then show ?thesis using fail [OF DynLoop m False nf] by simp
    next
      case eq: True
      let ?e = "s64 (s + clip_chunk (incr ws) c (end_it ws - s))"
      have "takes ws ?e" using dyn_takes [OF ok m, of c] False lk by (simp add: eq)
      moreover have "ws' = ws\<lparr>next_it := ?e\<rparr>" "p' = DynRet (Some (s, ?e))"
        using st DynLoop False left eq by (auto simp: Let_def)
      ultimately show ?thesis using take [of c ?e] DynLoop m False eq by simp
    qed
  qed
qed (use run in simp)


lemma dyn_ok_refusals: "dyn_ok T ws r \<Longrightarrow> mode ws = 0 \<Longrightarrow> dyn_ok T ws r'"
  by (simp add: dyn_ok_def)

lemma iters_none: "k \<noteq> 0 \<Longrightarrow> 0 \<le> sgn k * (s - e) \<Longrightarrow> iters k s e = []"
  by (rule iters_Nil) (simp_all add: algebra_simps)

lemma dyn_lok_load: "dyn_ok T ws r \<Longrightarrow> mode ws = 0 \<Longrightarrow> dyn_lok ws (DynLoop (next_it ws) (chunk_size ws))"
  by (simp add: dyn_ok_def long_loop_def extent_def)

lemma dyn_lok_fail:
  assumes "dyn_ok T ws r" and "dyn_lok ws (DynLoop s c)"
  shows "dyn_lok ws (DynLoop (next_it ws) (clip_chunk (incr ws) c (end_it ws - s)))"
proof -
  have k: "incr ws \<noteq> 0" and m: "mode ws = 0" using assms by (auto simp: dyn_ok_def)
  have "sgn (incr ws) * (next_it ws - s) \<ge> 0" using assms(2) by simp
  then have "sgn (incr ws) * (end_it ws - next_it ws) \<le> sgn (incr ws) * (end_it ws - s)"
    by (simp add: algebra_simps)
  then show ?thesis
    using dyn_lok_load [OF assms(1) m] assms(2) by (auto simp: clip_chunk_sgn [OF k])
qed

interpretation dynamic: lock_free gomp_iter_dynamic_next dyn_result DynCall incr dyn_pos
    dyn_ok dyn_lok dyn_mu
proof (unfold_locales, goal_cases)
  case (3 T ws r p ws' p')
  from 3(5,1-4) show ?case
    by (elim dyn_step_cases) (use faa_ok [OF 3(1,2)] in \<open>auto simp: dyn_ok_next simp del: dyn_lok.simps(1) intro: dyn_ok_refusals dyn_lok_load dyn_lok_fail\<close>)
next
  case (4 T ws r p ws' p' q)
  from 4(5,1-4,6) show ?case
    by (elim dyn_step_cases) (auto simp: dyn_stable_take dyn_lok_locked)
next
  case (5 T ws r p ws' p')
  from 5(5,1-4) show ?case by (elim dyn_step_cases) auto
next
  case (6 T ws r p ws' p')
  from 6(5,1-4) 6(6) show ?case by (elim dyn_step_cases) (use faa_beyond [OF 6(1,2)] in auto)
next
  case (7 T ws r p ws' p' s e)
  from 7(5,1-4) 7(6) show ?case
    by (elim dyn_step_cases) (use faa_cuts [OF 7(1,2)] in \<open>auto simp: takes_def dyn_pos_def\<close>)
next
  case (8 T ws r p ws' p')
  from 8(1) have "incr ws \<noteq> 0" by (simp add: dyn_ok_def)
  with 8(5,1-4) 8(6) show ?case
    by (elim dyn_step_cases) (use faa_beyond [OF 8(1,2)] in \<open>auto simp: dyn_pos_def iters_none\<close>)
next
  case (9 T ws r p ws' p')
  from 9(1) have "r < T \<or> \<not> r < T" by simp
  from 9 show ?case by (cases p) (auto simp: Let_def split: if_splits)
next
  case (11 p ws)
  then show ?case by (cases p) auto
next
  case (12 T ws r p ws' p' q)
  have late: "dyn_mu (faa_next ws) q \<le> dyn_mu ws q" if "mode ws \<noteq> 0" using 12(6) that by (cases q) auto
  from 12(5,1-4) show ?case
  proof (cases rule: dyn_step_cases)
    case fetch
    then show ?thesis using late by simp
  next
    case late': late
    then show ?thesis using late by simp
  qed (use 12(7) in \<open>cases q; auto\<close>)+
qed (auto simp: dyn_ok_def)

text \<open>With compare-and-swap, it is a lock-free form of the routine that is called with the lock held. The
  local \<open>chunk\<close>, which stays clipped, does not matter: what is left only shrinks.\<close>

definition dyn_cas_ok :: "work_share \<Rightarrow> bool" where
  "dyn_cas_ok ws \<longleftrightarrow> dyn_ok 1 ws 0 \<and> mode ws = 0"

fun dyn_cas_lok :: "work_share \<Rightarrow> dyn_pc \<Rightarrow> bool" where
  "dyn_cas_lok ws (DynLoop s c) \<longleftrightarrow> dyn_lok ws (DynLoop s c) \<and> sgn (incr ws) * c \<le> sgn (incr ws) * chunk_size ws"
| "dyn_cas_lok ws q \<longleftrightarrow> dyn_lok ws q"

lemma dyn_cas_lokD: "dyn_cas_lok ws q \<Longrightarrow> dyn_lok ws q"
  by (cases q) auto

lemma dyn_cas_stable:
  assumes "dyn_cas_ok ws" and "takes ws e" and "dyn_cas_lok ws q"
  shows "dyn_cas_lok (ws\<lparr>next_it := e\<rparr>) q"
  using dyn_stable_take [of 1 ws 0 e q] assms dyn_cas_lokD [OF assms(3)] by (cases q) (auto simp: dyn_cas_ok_def simp del: dyn_lok.simps)

lemma dyn_locked_take:
  assumes ok: "dyn_cas_ok ws" and lk: "dyn_cas_lok ws (DynLoop (next_it ws) c)" and ne: "next_it ws \<noteq> end_it ws"
  defines "e \<equiv> s64 (next_it ws + clip_chunk (incr ws) c (s64 (end_it ws - next_it ws)))"
  shows "gomp_iter_dynamic_next_locked ws = (Some (next_it ws, e), ws\<lparr>next_it := e\<rparr>)"
proof -
  have k: "incr ws \<noteq> 0" using ok by (simp add: dyn_cas_ok_def dyn_ok_def)
  have left: "s64 (end_it ws - next_it ws) = end_it ws - next_it ws"
    by (rule dyn_left [of 1 ws 0, OF _ dyn_cas_lokD [OF lk]]) (use ok in \<open>simp add: dyn_cas_ok_def\<close>)
  have "clip_chunk (incr ws) c (end_it ws - next_it ws) = clip_chunk (incr ws) (chunk_size ws) (end_it ws - next_it ws)"
    using lk k by (auto simp: clip_chunk_sgn [OF k] sgn_if split: if_splits)
  then show ?thesis using ne left
    by (simp add: gomp_iter_dynamic_next_locked_def e_def Let_def flip: clip_chunk_def)
qed

interpretation dynamic_lock: locked_form gomp_iter_dynamic_next dyn_result DynCall dyn_cas_ok dyn_cas_lok gomp_iter_dynamic_next_locked
proof (unfold_locales, goal_cases)
  case (3 ws p ws' p')
  have ok: "dyn_ok 1 ws 0" "mode ws = 0" and k: "incr ws \<noteq> 0" using 3(1) by (simp_all add: dyn_cas_ok_def dyn_ok_def)
  have "0 < (1 :: nat)" by simp
  from 3(4) ok(1) this dyn_cas_lokD [OF 3(2)] 3(3) show ?case
  proof (cases rule: dyn_step_cases)
    case load
    then show ?thesis using dyn_lok_load [OF ok] by (simp del: dyn_lok.simps)
  next
    case (fail s c)
    have "dyn_lok ws p'" unfolding fail(6) by (rule dyn_lok_fail [OF ok(1)]) (use dyn_cas_lokD [OF 3(2)] fail(1) in simp)
    moreover have "sgn (incr ws) * clip_chunk (incr ws) c (end_it ws - s) \<le> sgn (incr ws) * c" by (simp add: clip_chunk_sgn [OF k])
    ultimately show ?thesis using 3(2) fail by (simp del: dyn_lok.simps)
  qed (use 3(5) ok in auto)
next
  case (4 ws p ws' p' b)
  have ok: "dyn_ok 1 ws 0" "mode ws = 0" using 4(1) by (simp_all add: dyn_cas_ok_def)
  have "0 < (1 :: nat)" by simp
  from 4(4) ok(1) this dyn_cas_lokD [OF 4(2)] 4(3) show ?case
  proof (cases rule: dyn_step_cases)
    case (take c e)
    have e: "e = s64 (next_it ws + clip_chunk (incr ws) c (s64 (end_it ws - next_it ws)))"
      using 4(4) take(1,3,6) by (simp add: Let_def)
    have "gomp_iter_dynamic_next_locked ws = (Some (next_it ws, e), ws\<lparr>next_it := e\<rparr>)"
      unfolding e by (rule dyn_locked_take [OF 4(1) _ take(3)]) (use 4(2) take(1) in simp)
    moreover have "dyn_cas_ok ws'" using dyn_ok_next [OF ok take(4)] ok(2) take(5) by (simp add: dyn_cas_ok_def)
    ultimately show ?thesis using dyn_cas_stable [OF 4(1) take(4)] take(5,6) 4(5) by simp
  qed (use 4(5) ok in auto)
next
  case (5 ws p ws' p')
  have ok: "dyn_ok 1 ws 0" "mode ws = 0" using 5(1) by (simp_all add: dyn_cas_ok_def)
  have "0 < (1 :: nat)" by simp
  from 5(4) ok(1) this dyn_cas_lokD [OF 5(2)] 5(3) show ?case
  proof (cases rule: dyn_step_cases)
    case (stop s c)
    have k: "incr ws \<noteq> 0" and d: "0 \<le> extent ws" using ok by (auto simp: dyn_ok_def long_loop_def)
    have "0 \<le> sgn (incr ws) * (next_it ws - end_it ws)" using dyn_cas_lokD [OF 5(2)] stop(1,3) by simp
    then have "next_it ws = end_it ws" using d k by (simp add: extent_def sgn_if split: if_splits)
    then show ?thesis using stop by (simp add: gomp_iter_dynamic_next_locked_def)
  qed (use 5(5) ok in auto)
qed (auto simp: dyn_cas_ok_def)


subsection \<open>Properties\<close>

lemma dyn_pos_iters: "incr ws \<noteq> 0 \<Longrightarrow> iters (incr ws) (dyn_pos ws) (end_it ws) = iters (incr ws) (next_it ws) (end_it ws)"
  by (auto simp: dyn_pos_def iters_none)

lemma dyn_exact_run:
  assumes "dyn_ok T ws 0" and "set is \<subseteq> {..<T}"
  shows "exact_run gomp_iter_dynamic_next dyn_result DynCall (incr ws) T is ws"
  by (rule dynamic.run_exact [OF assms]) (auto simp: dyn_ok_def intro: dyn_pos_iters)

text \<open>
  C3. DYNAMIC on a \<open>long\<close> loop (\<open>gomp_iter_dynamic_next\<close>, both the fetch-and-add and the
  compare-and-swap mode): in every interleaving of the calls of \<open>T\<close> threads, the blocks handed
  out, in the order they were handed out, followed by the iterations not yet assigned, are
  exactly the iterations of the loop in order; so none is lost, repeated or run out of range;
  and as soon as the call of one thread returns false the blocks are the whole loop.
\<close>

theorem dynamic_exact:
  assumes "dyn_ok T ws 0" and "set is \<subseteq> {..<T}"
  shows "exact_run gomp_iter_dynamic_next dyn_result DynCall (incr ws) T is ws"
  using assms by (rule dyn_exact_run)

definition dyn_example :: "int \<Rightarrow> work_share" where
  "dyn_example md = ws_zero\<lparr>mode := md, chunk_size := 4, incr := 2, next_it := 1, end_it := 12\<rparr>"

lemma dyn_example_ok: "dyn_ok 3 (dyn_example md) 0"
  by (simp add: dyn_ok_def dyn_example_def ws_zero_def long_loop_def extent_def)

theorem dynamic_exact_witness:
  "granted_iters 2 (grants (team_exec gomp_iter_dynamic_next dyn_result DynCall [0, 1, 2, 0, 0]
     (team_init DynCall (dyn_example 1)))) = [1, 3, 5, 7, 9, 11]"
proof -
  have "dyn_result (pcs (team_exec gomp_iter_dynamic_next dyn_result DynCall [0, 1, 2, 0, 0]
     (team_init DynCall (dyn_example 1))) 0) = Some None" by code_simp
  then show ?thesis
    using dynamic_exact [OF dyn_example_ok, of "[0, 1, 2, 0, 0]" 1]
    by (auto simp: exact_run_def Let_def dyn_example_def) (auto simp: iters_def niter_def upt_rec)
qed

text \<open>
  C30. The lock-free forms refine the routines called with the lock held: in every interleaving of the
  calls of a team on a loop that is set up (\<open>dyn_ok\<close> without the fetch-and-add mode, \<open>guided_ok\<close>), the
  blocks handed out by \<open>gomp_iter_dynamic_next\<close> and \<open>gomp_iter_guided_next\<close>, in their order, are those
  that so many calls of \<open>gomp_iter_dynamic_next_locked\<close> and \<open>gomp_iter_guided_next_locked\<close> return one after
  the other, they leave the same descriptor, and once a thread has been told to stop the next such call
  returns false. The routines with the lock held have arithmetic of their own in the code.
\<close>

theorem lockfree_refines_locked:
  assumes "dyn_ok T ws 0" and "mode ws = 0" and "guided_ok n ws'"
  shows "(let S = team_exec gomp_iter_dynamic_next dyn_result DynCall is (team_init DynCall ws) in
      locked_calls gomp_iter_dynamic_next_locked (length (grants S)) ws = (map snd (grants S), shared S)
      \<and> ((\<exists>i. dyn_result (pcs S i) = Some None) \<longrightarrow> gomp_iter_dynamic_next_locked (shared S) = (None, shared S)))
    \<and> (let S = team_exec (gomp_iter_guided_next n) guided_result GuidedCall is (team_init GuidedCall ws') in
      locked_calls (gomp_iter_guided_next_locked n) (length (grants S)) ws' = (map snd (grants S), shared S)
      \<and> ((\<exists>i. guided_result (pcs S i) = Some None) \<longrightarrow> gomp_iter_guided_next_locked n (shared S) = (None, shared S)))"
proof -
  have "dyn_cas_ok ws" using assms(1,2) by (simp add: dyn_cas_ok_def dyn_ok_def)
  from dynamic_lock.run_linear [OF this, of "is"] guided_lock.run_linear [OF assms(3), of "is"] show ?thesis
    unfolding dynamic_lock.lin_inv_def guided_lock.lin_inv_def Let_def by blast
qed

theorem lockfree_refines_locked_witness:
  "locked_calls gomp_iter_dynamic_next_locked 2 (dyn_example 0) = ([(1, 5), (5, 9)], (dyn_example 0)\<lparr>next_it := 9\<rparr>)"
proof -
  let ?S = "team_exec gomp_iter_dynamic_next dyn_result DynCall [0, 1, 1, 0, 0] (team_init DynCall (dyn_example 0))"
  have "grants ?S = [(1, 1, 5), (0, 5, 9)]" "shared ?S = (dyn_example 0)\<lparr>next_it := 9\<rparr>"
    by (simp_all add: team_init_def team_move_def dyn_example_def ws_zero_def clip_chunk_def Let_def s64_id)
  moreover have "guided_ok 2 (dyn_example 0)" by (simp add: guided_ok_def dyn_example_def ws_zero_def long_loop_def extent_def)
  ultimately show ?thesis
    using lockfree_refines_locked [OF dyn_example_ok _ , of 0 2 "dyn_example 0" "[0, 1, 1, 0, 0]"]
    by (simp add: Let_def numeral_2_eq_2 dyn_example_def ws_zero_def)
qed

text \<open>
  C29. GUIDED on a \<open>long\<close> loop: in every interleaving of the calls of a team, the blocks handed
  out and the iterations not yet assigned are the loop in order, and once a thread is told to
  stop nothing is left.
\<close>

theorem guided_exact:
  assumes "guided_ok n ws" and "set is \<subseteq> {..<T}"
  shows "exact_run (gomp_iter_guided_next n) guided_result GuidedCall (incr ws) T is ws"
  by (rule guided.run_exact [OF assms]) simp

theorem guided_exact_witness:
  "granted_iters 2 (grants (team_exec (gomp_iter_guided_next 2) guided_result GuidedCall
     [0, 1, 1, 0, 0, 0, 0, 0, 0, 1] (team_init GuidedCall (dyn_example 0)))) = [1, 3, 5, 7, 9, 11]"
proof -
  have ok: "guided_ok 2 (dyn_example 0)"
    by (simp add: guided_ok_def dyn_example_def ws_zero_def long_loop_def extent_def)
  have "next_it (shared (team_exec (gomp_iter_guided_next 2) guided_result GuidedCall
     [0, 1, 1, 0, 0, 0, 0, 0, 0, 1] (team_init GuidedCall (dyn_example 0)))) = 12" by code_simp
  then show ?thesis
    using guided_exact [OF ok, of "[0, 1, 1, 0, 0, 0, 0, 0, 0, 1]" 2]
    by (auto simp: exact_run_def Let_def dyn_example_def) (auto simp: iters_def niter_def upt_rec)
qed

end
