(* ===== verification/IterUll.thy ===== *)
theory IterUll
  imports CasIter IterDynamic IterStatic
begin

text \<open>
  The DYNAMIC and GUIDED schedules on \<open>unsigned long long\<close> loops (\<open>gcc/libgomp/iter_ull.c\<close>).
  A loop that counts down keeps its step, and a DYNAMIC loop its chunk, as a two's complement
  unsigned number; bit 1 of \<open>ws->mode\<close> records the direction and bit 0 the fetch-and-add
  path.
\<close>

subsection \<open>DYNAMIC\<close>

definition mode_down :: "work_share \<Rightarrow> bool" where "mode_down ws = odd (mode ws div 2)"
definition mode_faa :: "work_share \<Rightarrow> bool" where "mode_faa ws = odd (mode ws)"

definition gomp_iter_ull_dynamic_next_locked :: "work_share \<Rightarrow> (int \<times> int) option \<times> work_share" where
  "gomp_iter_ull_dynamic_next_locked ws =
    (let start = next_it ws in
     if start = end_it ws then (None, ws)
     else let left = u64 (end_it ws - start);
              chunk = chunk_size ws;
              chunk1 = (if mode_down ws then (if chunk < left then left else chunk)
                        else (if chunk > left then left else chunk));
              e = u64 (start + chunk1)
          in (Some (start, e), ws\<lparr>next_it := e\<rparr>))"

definition ull_clip_chunk :: "bool \<Rightarrow> int \<Rightarrow> int \<Rightarrow> int" where
  "ull_clip_chunk down chunk left =
    (if down then (if chunk < left then left else chunk) else (if chunk > left then left else chunk))"

definition ull_dyn_fetch :: "work_share \<Rightarrow> work_share \<times> (int \<times> int) option" where
  "ull_dyn_fetch ws =
    (let e = end_it ws; chunk = chunk_size ws; tmp = next_it ws; ws' = ws\<lparr>next_it := u64 (tmp + chunk)\<rparr> in
     if \<not> mode_down ws then
       if tmp \<ge> e then (ws', None)
       else let nend = u64 (tmp + chunk) in (ws', Some (tmp, if nend > e then e else nend))
     else
       if tmp \<le> e then (ws', None)
       else let nend = u64 (tmp + chunk) in (ws', Some (tmp, if nend < e then e else nend)))"

definition ull_dyn_block :: "work_share \<Rightarrow> int \<Rightarrow> int \<Rightarrow> int \<times> int" where
  "ull_dyn_block ws start chunk =
    (let left = u64 (end_it ws - start); chunk' = ull_clip_chunk (mode_down ws) chunk left
     in (u64 (start + chunk'), chunk'))"

definition gomp_iter_ull_dynamic_cas :: "work_share \<Rightarrow> cas_pc \<Rightarrow> work_share \<times> cas_pc" where
  "gomp_iter_ull_dynamic_cas = cas_prog (\<lambda>ws. (ws, chunk_size ws)) ull_dyn_block"

definition gomp_iter_ull_dynamic_next :: "work_share \<Rightarrow> cas_pc \<Rightarrow> work_share \<times> cas_pc" where
  "gomp_iter_ull_dynamic_next ws p =
    (if p = CasCall \<and> mode_faa ws
     then case ull_dyn_fetch ws of (ws', r) \<Rightarrow> (ws', CasRet r)
     else gomp_iter_ull_dynamic_cas ws p)"

subsection \<open>GUIDED\<close>

definition ull_left :: "work_share \<Rightarrow> int \<Rightarrow> int" where
  "ull_left ws start =
    (if mode ws = 0 then u64 (end_it ws - start) div incr ws else u64 (start - end_it ws) div u64 (- incr ws))"

definition ull_guided_nend :: "int \<Rightarrow> work_share \<Rightarrow> int \<Rightarrow> int" where
  "ull_guided_nend nthreads ws start =
    (let n = ull_left ws start; q = guided_q nthreads n (chunk_size ws)
     in if q \<le> n then u64 (start + u64 (q * incr ws)) else end_it ws)"

definition gomp_iter_ull_guided_next_locked :: "int \<Rightarrow> work_share \<Rightarrow> (int \<times> int) option \<times> work_share" where
  "gomp_iter_ull_guided_next_locked nthreads ws =
    (if next_it ws = end_it ws then (None, ws)
     else let start = next_it ws;
              n = (if mode ws = 0 then u64 (end_it ws - start) div incr ws else u64 (start - end_it ws) div u64 (- incr ws));
              q = u64 (u64 (n + nthreads) - 1) div nthreads;
              q1 = (if q < chunk_size ws then chunk_size ws else q);
              e = (if q1 \<le> n then u64 (start + u64 (q1 * incr ws)) else end_it ws)
          in (Some (start, e), ws\<lparr>next_it := e\<rparr>))"

definition gomp_iter_ull_guided_next :: "int \<Rightarrow> work_share \<Rightarrow> cas_pc \<Rightarrow> work_share \<times> cas_pc" where
  "gomp_iter_ull_guided_next nthreads =
    cas_prog (\<lambda>ws. (ws, 0)) (\<lambda>ws start x. (ull_guided_nend nthreads ws start, x))"

subsection \<open>Loops that fit\<close>

text \<open>\<open>ull_fits k ws\<close>: \<open>k\<close> is the signed step behind \<open>ws->incr\<close> and \<open>end\<close> lies ahead of
  \<open>next\<close> in its direction. Nothing else is needed for the arithmetic to be exact.\<close>

definition ull_fits :: "int \<Rightarrow> work_share \<Rightarrow> bool" where
  "ull_fits k ws \<longleftrightarrow> k \<noteq> 0 \<and> \<bar>k\<bar> \<le> ULONG_MAX \<and> incr ws = u64 k \<and> is_ulong (next_it ws) \<and> is_ulong (end_it ws)
     \<and> 0 \<le> sgn k * (end_it ws - next_it ws)"

definition ull_room :: "int \<Rightarrow> work_share \<Rightarrow> int" where
  "ull_room k ws = sgn k * (end_it ws - next_it ws) div \<bar>k\<bar>"

lemma u64_add_multiple: "u64 (a + q * u64 k) = u64 (a + q * k)"
  by (metis u64_add_u64(1) u64_mult_u64(1))

lemma ull_advance:
  assumes "ull_fits k ws" and "1 \<le> q" and "q * \<bar>k\<bar> \<le> sgn k * (end_it ws - next_it ws)"
  shows "u64 (next_it ws + q * incr ws) = next_it ws + q * k"
    "cuts k (next_it ws) (next_it ws + q * k) (end_it ws)" "ull_fits k (ws\<lparr>next_it := next_it ws + q * k\<rparr>)"
proof -
  have F: "k \<noteq> 0" "incr ws = u64 k" "is_ulong (next_it ws)" "is_ulong (end_it ws)" using assms(1) by (auto simp: ull_fits_def)
  have qk: "q * k = sgn k * (q * \<bar>k\<bar>)" by (auto simp: abs_sgn mult.commute mult.left_commute)
  have e: "end_it ws = next_it ws + sgn k * (sgn k * (end_it ws - next_it ws))" using F(1) by (simp add: sgn_if)
  have "sgn k = 1 \<or> sgn k = - 1" using F(1) by (auto simp: sgn_if)
  moreover have "0 \<le> q * \<bar>k\<bar>" using assms(2) by simp
  moreover have "is_ulong (next_it ws + sgn k * (sgn k * (end_it ws - next_it ws)))" using F(4) e by metis
  ultimately have U: "is_ulong (next_it ws + q * k)"
    unfolding qk using within_signed assms(3) F(3) by blast
  then show "u64 (next_it ws + q * incr ws) = next_it ws + q * k"
    unfolding F(2) u64_add_multiple by (intro u64_id) auto
  show "cuts k (next_it ws) (next_it ws + q * k) (end_it ws)" using assms F(1) by (intro cuts_multiple) auto
  have "sgn k * (end_it ws - (next_it ws + q * k)) = sgn k * (end_it ws - next_it ws) - q * \<bar>k\<bar>"
    by (simp add: abs_sgn algebra_simps)
  then show "ull_fits k (ws\<lparr>next_it := next_it ws + q * k\<rparr>)" using U assms by (simp add: ull_fits_def)
qed

lemma ull_advance_end:
  assumes "ull_fits k ws" and "next_it ws \<noteq> end_it ws"
  shows "cuts k (next_it ws) (end_it ws) (end_it ws)" "ull_fits k (ws\<lparr>next_it := end_it ws\<rparr>)"
proof -
  have F: "k \<noteq> 0" "0 \<le> sgn k * (end_it ws - next_it ws)" using assms(1) by (auto simp: ull_fits_def)
  then have "sgn k * (end_it ws - next_it ws) \<noteq> 0" using assms(2) by (simp add: sgn_0_0)
  then have "0 < sgn k * (end_it ws - next_it ws)" using F(2) by linarith
  then show "cuts k (next_it ws) (end_it ws) (end_it ws)" using F(1) by (intro cuts_rest)
  show "ull_fits k (ws\<lparr>next_it := end_it ws\<rparr>)" using assms(1) by (simp add: ull_fits_def)
qed

lemma ull_room_bounds:
  assumes "ull_fits k ws"
  shows "0 \<le> ull_room k ws" "ull_room k ws * \<bar>k\<bar> \<le> sgn k * (end_it ws - next_it ws)"
proof -
  have F: "0 < \<bar>k\<bar>" "0 \<le> sgn k * (end_it ws - next_it ws)" using assms by (auto simp: ull_fits_def)
  then show "0 \<le> ull_room k ws" by (simp add: ull_room_def pos_imp_zdiv_nonneg_iff)
  show "ull_room k ws * \<bar>k\<bar> \<le> sgn k * (end_it ws - next_it ws)"
    using div_mult_mod_eq [of "sgn k * (end_it ws - next_it ws)" "\<bar>k\<bar>"]
      pos_mod_sign [OF F(1), of "sgn k * (end_it ws - next_it ws)"]
    unfolding ull_room_def by linarith
qed

lemma ull_steps:
  assumes "ull_fits k ws" and "1 \<le> q" and "q \<le> ull_room k ws"
  shows "u64 (next_it ws + u64 (q * incr ws)) = next_it ws + q * k"
    "cuts k (next_it ws) (next_it ws + q * k) (end_it ws)" "ull_fits k (ws\<lparr>next_it := next_it ws + q * k\<rparr>)"
proof -
  have "q * \<bar>k\<bar> \<le> ull_room k ws * \<bar>k\<bar>" using assms(3) by (intro mult_right_mono) auto
  then have "q * \<bar>k\<bar> \<le> sgn k * (end_it ws - next_it ws)" using ull_room_bounds(2) [OF assms(1)] by linarith
  note A = ull_advance [OF assms(1,2) this]
  show "u64 (next_it ws + u64 (q * incr ws)) = next_it ws + q * k" using A(1) by simp
  show "cuts k (next_it ws) (next_it ws + q * k) (end_it ws)" "ull_fits k (ws\<lparr>next_it := next_it ws + q * k\<rparr>)"
    by (fact A(2,3))+
qed

lemma ull_step_down: "0 < k \<Longrightarrow> k \<le> ULONG_MAX \<Longrightarrow> u64 (- u64 (- k)) = k"
  by (simp add: u64_id)

lemma ull_left_room:
  assumes "ull_fits (ull_step ws) ws"
  shows "ull_left ws (next_it ws) = ull_room (ull_step ws) ws"
proof -
  have F: "ull_step ws \<noteq> 0" "\<bar>ull_step ws\<bar> \<le> ULONG_MAX" "incr ws = u64 (ull_step ws)" "is_ulong (next_it ws)"
    "is_ulong (end_it ws)" "0 \<le> sgn (ull_step ws) * (end_it ws - next_it ws)"
    using assms unfolding ull_fits_def by blast+
  show ?thesis
  proof (cases "mode ws = 0")
    case True
    then have s: "ull_step ws = incr ws" by (simp add: ull_step_def)
    then have "0 < incr ws" using F(1,3) u64_nonneg [of "ull_step ws"] by linarith
    then show ?thesis using F(4-6) True s by (simp add: ull_left_def ull_room_def u64_id)
  next
    case False
    then have s: "ull_step ws = incr ws - 2 ^ 64" by (simp add: ull_step_def)
    then have n: "ull_step ws < 0" using F(3) u64_range(2) [of "ull_step ws"] by linarith
    have "u64 (- incr ws) = u64 (- ull_step ws)" unfolding F(3) by simp
    also have "\<dots> = - ull_step ws" using F(2) n by (intro u64_id) auto
    finally have "u64 (- incr ws) = \<bar>ull_step ws\<bar>" using n by simp
    then show ?thesis using F(4-6) False n by (simp add: ull_left_def ull_room_def u64_id)
  qed
qed

subsection \<open>GUIDED meets the contract\<close>

definition ull_guided_ok :: "int \<Rightarrow> work_share \<Rightarrow> bool" where
  "ull_guided_ok nthreads ws \<longleftrightarrow> ull_fits (ull_step ws) ws \<and> 1 \<le> chunk_size ws"

lemma ull_step_next [simp]: "ull_step (ws\<lparr>next_it := e\<rparr>) = ull_step ws"
  by (simp add: ull_step_def)

lemma ull_guided_block:
  assumes "ull_guided_ok T ws" and "next_it ws \<noteq> end_it ws"
  shows "cuts (ull_step ws) (next_it ws) (ull_guided_nend T ws (next_it ws)) (end_it ws)
    \<and> ull_guided_ok T (ws\<lparr>next_it := ull_guided_nend T ws (next_it ws)\<rparr>)"
proof -
  have F: "ull_fits (ull_step ws) ws" and c: "1 \<le> chunk_size ws" using assms(1) by (auto simp: ull_guided_ok_def)
  have "1 \<le> guided_q T n (chunk_size ws)" for n using c by (simp add: guided_q_def Let_def)
  then show ?thesis
    using ull_steps [OF F] ull_advance_end [OF F assms(2)] ull_left_room [OF F] c
    by (simp add: ull_guided_nend_def ull_guided_ok_def Let_def)
qed

interpretation ull_guided: cas_iterator "\<lambda>ws. (ws, 0)" "\<lambda>ws start x. (ull_guided_nend T ws start, x)" ull_step
    "ull_guided_ok T" "\<lambda>_ _. True" "\<lambda>_ _. True" for T
  by unfold_locales (auto simp: ull_guided_block, auto simp: ull_guided_ok_def ull_fits_def)

subsection \<open>DYNAMIC meets the contract on the compare-and-swap path\<close>

definition ull_dstep :: "work_share \<Rightarrow> int" where
  "ull_dstep ws = (if mode_down ws then incr ws - 2 ^ 64 else incr ws)"

text \<open>The magnitude of a chunk: a chunk that counts down is stored as \<open>2 ^ 64\<close> minus it.\<close>

definition mag :: "work_share \<Rightarrow> int \<Rightarrow> int" where
  "mag ws c = (if mode_down ws then 2 ^ 64 - c else c)"

definition ull_dyn_ok :: "work_share \<Rightarrow> bool" where
  "ull_dyn_ok ws \<longleftrightarrow> ull_fits (ull_dstep ws) ws \<and> is_ulong (chunk_size ws)
     \<and> mag ws (chunk_size ws) mod \<bar>ull_dstep ws\<bar> = 0 \<and> 1 \<le> mag ws (chunk_size ws) div \<bar>ull_dstep ws\<bar>"

definition ull_dist :: "work_share \<Rightarrow> int \<Rightarrow> int" where
  "ull_dist ws s = sgn (ull_dstep ws) * (end_it ws - s)"

definition ull_dyn_seen :: "work_share \<Rightarrow> int \<Rightarrow> bool" where
  "ull_dyn_seen ws s \<longleftrightarrow> is_ulong s \<and> ull_dist ws (next_it ws) \<le> ull_dist ws s"

definition ull_dyn_fit :: "work_share \<Rightarrow> int \<Rightarrow> bool" where
  "ull_dyn_fit ws c \<longleftrightarrow> is_ulong c \<and> (c = chunk_size ws \<or> ull_dist ws (next_it ws) \<le> mag ws c)"

lemma mode_down_next [simp]: "mode_down (ws\<lparr>next_it := e\<rparr>) = mode_down ws"
  by (simp add: mode_down_def)

lemma ull_dstep_next [simp]: "ull_dstep (ws\<lparr>next_it := e\<rparr>) = ull_dstep ws"
  by (simp add: ull_dstep_def)

lemma ull_dyn_dir:
  assumes "ull_fits (ull_dstep ws) ws"
  shows "sgn (ull_dstep ws) = (if mode_down ws then - 1 else 1)"
proof -
  have "ull_dstep ws \<noteq> 0" "0 \<le> incr ws" "incr ws < 2 ^ 64" using assms by (auto simp: ull_fits_def)
  then show ?thesis by (cases "mode_down ws") (simp_all add: ull_dstep_def)
qed

lemma ull_clip:
  assumes "ull_fits (ull_dstep ws) ws" and "is_ulong c" and "ull_dyn_seen ws s" and "s \<noteq> end_it ws"
  defines "c' \<equiv> ull_clip_chunk (mode_down ws) c (u64 (end_it ws - s))"
  shows "mag ws c' = min (mag ws c) (ull_dist ws s)" "is_ulong c'" "c' = c \<or> c' = u64 (end_it ws - s)"
proof -
  note d = ull_dyn_dir [OF assms(1)]
  have F: "is_ulong (end_it ws)" "is_ulong s" "0 \<le> ull_dist ws (next_it ws)" "ull_dist ws (next_it ws) \<le> ull_dist ws s"
    using assms(1,3) by (auto simp: ull_fits_def ull_dyn_seen_def ull_dist_def)
  have pos: "0 \<le> ull_dist ws s" using F by linarith
  show "c' = c \<or> c' = u64 (end_it ws - s)" by (auto simp: c'_def ull_clip_chunk_def)
  then show "is_ulong c'" using assms(2) u64_range [of "end_it ws - s"] by auto
  show "mag ws c' = min (mag ws c) (ull_dist ws s)"
  proof (cases "mode_down ws")
    case True
    then have "0 < s - end_it ws" using pos d assms(4) by (simp add: ull_dist_def)
    moreover have "u64 (end_it ws - s) = end_it ws - s + 2 ^ 64"
      using calculation F(1,2) u64_id [of "end_it ws - s + 2 ^ 64"] by (simp add: u64_def)
    ultimately show ?thesis using True d by (auto simp: mag_def ull_dist_def c'_def ull_clip_chunk_def)
  next
    case False
    then have "u64 (end_it ws - s) = end_it ws - s" using pos d F(1,2) by (intro u64_id) (auto simp: ull_dist_def)
    then show ?thesis using False d by (auto simp: mag_def ull_dist_def c'_def ull_clip_chunk_def)
  qed
qed

lemma u64_add_mag:
  assumes "ull_fits (ull_dstep ws) ws"
  shows "u64 (s + c) = u64 (s + sgn (ull_dstep ws) * mag ws c)"
proof (cases "mode_down ws")
  case True
  have "s + sgn (ull_dstep ws) * mag ws c = s + c + (- 1) * 2 ^ 64"
    using True ull_dyn_dir [OF assms] by (simp add: mag_def)
  then show ?thesis unfolding u64_def by (simp only: mod_mult_self1)
next
  case False
  then show ?thesis using ull_dyn_dir [OF assms] by (simp add: mag_def)
qed

lemma ull_dyn_block_next:
  assumes ok: "ull_dyn_ok ws" and fit: "ull_dyn_fit ws c" and ne: "next_it ws \<noteq> end_it ws"
    and b: "ull_dyn_block ws (next_it ws) c = (e, c')"
  shows "cuts (ull_dstep ws) (next_it ws) e (end_it ws) \<and> ull_dyn_ok (ws\<lparr>next_it := e\<rparr>)"
proof -
  let ?k = "ull_dstep ws" let ?d = "ull_dist ws (next_it ws)"
  have F: "ull_fits ?k ws" and uc: "is_ulong c" using ok fit by (auto simp: ull_dyn_ok_def ull_dyn_fit_def)
  then have sn: "ull_dyn_seen ws (next_it ws)" by (simp add: ull_dyn_seen_def ull_fits_def)
  note C = ull_clip [OF F uc sn ne]
  have c': "c' = ull_clip_chunk (mode_down ws) c (u64 (end_it ws - next_it ws))" and e: "e = u64 (next_it ws + c')"
    using b by (auto simp: ull_dyn_block_def Let_def)
  have e': "e = u64 (next_it ws + sgn ?k * min (mag ws c) ?d)" 
    using u64_add_mag [OF F, of "next_it ws" c'] C(1) unfolding e c' by (simp only:)
  have k0: "?k \<noteq> 0" using F by (simp add: ull_fits_def)
  have to_end: "next_it ws + sgn ?k * ?d = end_it ws" using k0 by (simp add: ull_dist_def sgn_if)
  have ok': "ull_dyn_ok (ws\<lparr>next_it := x\<rparr>)" if "ull_fits ?k (ws\<lparr>next_it := x\<rparr>)" for x
    using ok that by (simp add: ull_dyn_ok_def mag_def)
  show ?thesis
  proof (cases "?d \<le> mag ws c")
    case True
    then have "e = end_it ws" using e' to_end F by (simp add: min_absorb2 ull_fits_def u64_id)
    then show ?thesis using ull_advance_end [OF F ne] ok' by simp
  next
    case False
    then have cc: "c = chunk_size ws" using fit by (auto simp: ull_dyn_fit_def)
    define q where "q = mag ws c div \<bar>?k\<bar>"
    have q: "1 \<le> q" "mag ws c = q * \<bar>?k\<bar>"
      using ok cc div_mult_mod_eq [of "mag ws c" "\<bar>?k\<bar>"] by (simp_all add: q_def ull_dyn_ok_def)
    have "q * \<bar>?k\<bar> \<le> sgn ?k * (end_it ws - next_it ws)" using False q by (simp add: ull_dist_def)
    note A = ull_advance [OF F q(1) this]
    have "e = u64 (next_it ws + q * ?k)" using e' False q(2) by (simp add: min_def abs_sgn mult.commute mult.left_commute)
    also have "\<dots> = next_it ws + q * ?k" using A(3) by (simp add: ull_fits_def u64_id)
    finally show ?thesis using A(2,3) ok' by simp
  qed
qed

lemma ull_dist_take:
  assumes "ull_dyn_ok ws" and "cuts (ull_dstep ws) (next_it ws) e (end_it ws)"
  shows "ull_dist ws e \<le> ull_dist ws (next_it ws)"
proof -
  have k: "ull_dstep ws \<noteq> 0" using assms(1) by (simp add: ull_dyn_ok_def ull_fits_def)
  have "0 < niter (ull_dstep ws) (next_it ws) e"
    using assms(2) by (simp add: cuts_def length_greater_0_conv [symmetric] del: length_greater_0_conv)
  then have "0 < sgn (ull_dstep ws) * (e - next_it ws)" using niter_pos_iff [OF k] by simp
  then show ?thesis by (simp add: ull_dist_def algebra_simps)
qed

lemma ull_dist_next: "ull_dist (ws\<lparr>next_it := e\<rparr>) s = ull_dist ws s"
  by (simp add: ull_dist_def)

lemma mag_next [simp]: "mag (ws\<lparr>next_it := e\<rparr>) c = mag ws c"
  by (simp add: mag_def)

interpretation ull_dynamic: cas_iterator "\<lambda>ws. (ws, chunk_size ws)" ull_dyn_block ull_dstep ull_dyn_ok
    ull_dyn_seen ull_dyn_fit
proof (unfold_locales, goal_cases)
  case (3 ws ws' x)
  then show ?case by (auto simp: ull_dyn_fit_def ull_dyn_ok_def)
next
  case (5 ws x e x')
  then show ?case by (rule ull_dyn_block_next)
next
  case (6 ws x s e x')
  have F: "ull_fits (ull_dstep ws) ws" and u: "is_ulong x" using 6(1,2) by (auto simp: ull_dyn_ok_def ull_dyn_fit_def)
  have x': "x' = ull_clip_chunk (mode_down ws) x (u64 (end_it ws - s))" using 6(5) by (auto simp: ull_dyn_block_def Let_def)
  have sn: "ull_dist ws (next_it ws) \<le> ull_dist ws s" using 6(3) by (simp add: ull_dyn_seen_def)
  note C = ull_clip [OF F u 6(3,4), folded x']
  show ?case
  proof (cases "mag ws x \<le> ull_dist ws s")
    case True
    then have "mag ws x' = mag ws x" using C(1) by simp
    then have "x' = x" by (simp add: mag_def split: if_splits)
    then show ?thesis using 6(2) by simp
  next
    case False
    then show ?thesis using C sn by (simp add: ull_dyn_fit_def)
  qed
next
  case (7 ws e)
  then show ?case using ull_dist_take [of ws e] by (auto simp: ull_dyn_fit_def ull_dyn_seen_def ull_dist_next)
qed (auto simp: ull_dyn_ok_def ull_fits_def ull_dyn_seen_def)

end
