(* ===== verification/FloatSched.thy ===== *)
theory FloatSched
  imports IterUll CDouble
begin

text \<open>
  The self-scheduling algorithms of \<open>gcc/libgomp/schedules.h\<close> that compute a chunk for every
  request in floating point: tapering (TAPE) and trapezoid (TSS), for \<open>long\<close> and for
  \<open>unsigned long long\<close> loops. The chunk is a \<open>double\<close> computation truncated to an integer;
  whatever it gives, the clamp to at least one and the comparison with the remaining
  iterations make the loop safe.
\<close>

subsection \<open>Helpers\<close>

definition tape_min_k :: "int \<Rightarrow> int" where "tape_min_k nthreads = 1"

definition clip_ull :: "int \<Rightarrow> int \<Rightarrow> int \<Rightarrow> int" where
  "clip_ull x low hi = (if x < low then low else if x > hi then hi else x)"

definition clip :: "int \<Rightarrow> int \<Rightarrow> int \<Rightarrow> int" where
  "clip x low hi = (if x < low then low else if x > hi then hi else x)"

text \<open>\<open>1.414213562\<close> is a \<open>double\<close> literal.\<close>

definition css_raw :: "fpenv \<Rightarrow> dbl \<Rightarrow> int \<Rightarrow> int \<Rightarrow> dbl" where
  "css_raw fp p N P =
    pow_fn fp (ddiv (dmul (dmul (rnd (1414213562 / 10 ^ 9)) (dbl_of_int N)) p)
                    (dmul (dbl_of_int P) (dsqrt (log_fn fp (dbl_of_int P)))))
              (ddiv (dbl_of_int 2) (dbl_of_int 3))"

definition css_chunk_size_ull :: "fpenv \<Rightarrow> dbl \<Rightarrow> int \<Rightarrow> int \<Rightarrow> int" where
  "css_chunk_size_ull fp p N P = clip_ull (dbl_to_ulong fp (css_raw fp p N P)) 1 N"

definition css_chunk_size :: "fpenv \<Rightarrow> dbl \<Rightarrow> int \<Rightarrow> int \<Rightarrow> int" where
  "css_chunk_size fp p N P = clip (dbl_to_long fp (css_raw fp p N P)) 1 N"

definition css_transform_range :: "fpenv \<Rightarrow> dbl \<Rightarrow> dbl" where
  "css_transform_range fp p = pow_fn fp (dbl_of_int 2) (dsub (dmul (dbl_of_int 19) p) (dbl_of_int 13))"

definition fss_transform_range :: "fpenv \<Rightarrow> dbl \<Rightarrow> dbl" where
  "fss_transform_range fp p = pow_fn fp (dbl_of_int 2) (dsub (dmul (dbl_of_int 19) p) (dbl_of_int 10))"

definition fac_transform_range :: "fpenv \<Rightarrow> dbl \<Rightarrow> dbl" where
  "fac_transform_range fp p = pow_fn fp (dbl_of_int 2) (dmul (dbl_of_int 5) p)"

definition tape_transform_range :: "fpenv \<Rightarrow> dbl \<Rightarrow> dbl" where
  "tape_transform_range fp p = pow_fn fp (dbl_of_int 2) (dsub (dmul (dbl_of_int 13) p) (dbl_of_int 7))"

subsection \<open>Block ends\<close>

text \<open>\<open>R\<close>, the iterations left, and the end of a block of \<open>chunk\<close> iterations at \<open>start\<close>, the
  way the \<open>long\<close> and the \<open>unsigned long long\<close> routines compute them.\<close>

definition long_left :: "work_share \<Rightarrow> int \<Rightarrow> int" where
  "long_left ws start = u64 (s64 (end_it ws - start) sdiv incr ws)"

definition long_nend :: "work_share \<Rightarrow> int \<Rightarrow> int \<Rightarrow> int" where
  "long_nend ws start chunk =
    (if chunk < long_left ws start then s64 (u64 (start + u64 (chunk * incr ws))) else end_it ws)"

definition ull_nend :: "work_share \<Rightarrow> int \<Rightarrow> int \<Rightarrow> int" where
  "ull_nend ws start chunk =
    (if chunk < ull_left ws start
     then (if mode ws = 0 then u64 (start + u64 (chunk * incr ws)) else u64 (start + u64 (chunk * u64 (- incr ws))))
     else end_it ws)"

subsection \<open>Tapering\<close>

definition tape_chunk :: "fpenv \<Rightarrow> int \<Rightarrow> dbl \<Rightarrow> int \<Rightarrow> int" where
  "tape_chunk fp nthreads v R =
    (let K_min = tape_min_k nthreads;
         T = dbl_to_ulong fp (dadd (ddiv (dbl_of_int R) (dbl_of_int nthreads)) (ddiv (dbl_of_int K_min) (dbl_of_int 2)));
         K = dbl_to_ulong fp
               (dsub (dadd (dbl_of_int T) (ddiv (dmul v v) (dbl_of_int 2)))
                     (dmul v (dsqrt (dadd (dbl_of_int (u64 (2 * T))) (ddiv (dmul v v) (dbl_of_int 4))))))
     in if K < K_min then K_min else K)"

definition tape_block :: "fpenv \<Rightarrow> int \<Rightarrow> work_share \<Rightarrow> int \<Rightarrow> int \<Rightarrow> int \<times> int" where
  "tape_block fp nthreads ws start x =
    (long_nend ws start (tape_chunk fp nthreads (param ws) (long_left ws start)), x)"

definition bo_iter_tape_next :: "fpenv \<Rightarrow> int \<Rightarrow> work_share \<Rightarrow> cas_pc \<Rightarrow> work_share \<times> cas_pc" where
  "bo_iter_tape_next fp nthreads = cas_prog (\<lambda>ws. (ws, 0)) (tape_block fp nthreads)"

definition ull_tape_block :: "fpenv \<Rightarrow> int \<Rightarrow> work_share \<Rightarrow> int \<Rightarrow> int \<Rightarrow> int \<times> int" where
  "ull_tape_block fp nthreads ws start x =
    (ull_nend ws start (tape_chunk fp nthreads (param ws) (ull_left ws start)), x)"

definition bo_iter_ull_tape_next :: "fpenv \<Rightarrow> int \<Rightarrow> work_share \<Rightarrow> cas_pc \<Rightarrow> work_share \<times> cas_pc" where
  "bo_iter_ull_tape_next fp nthreads = cas_prog (\<lambda>ws. (ws, 0)) (ull_tape_block fp nthreads)"

subsection \<open>Trapezoid\<close>

text \<open>The number of the request is taken with one fetch-and-add on \<open>ws->count\<close>; the chunk is
  \<open>f - count * delta\<close> in unsigned arithmetic, with \<open>f\<close> kept in \<open>ws->chunk_size\<close>.\<close>

definition tss_chunk :: "fpenv \<Rightarrow> dbl \<Rightarrow> int \<Rightarrow> int \<Rightarrow> int" where
  "tss_chunk fp v f cnt =
    (let delta = dbl_to_ulong fp (ddiv (dbl_of_int 1) v);
         chunk = u64 (f - u64 (cnt * delta))
     in if chunk < 1 then 1 else chunk)"

definition tss_first :: "fpenv \<Rightarrow> work_share \<Rightarrow> work_share \<times> int" where
  "tss_first fp ws = (ws\<lparr>count := s64 (count ws + 1)\<rparr>, tss_chunk fp (param ws) (u64 (chunk_size ws)) (u64 (count ws)))"

definition bo_iter_tss_next :: "fpenv \<Rightarrow> work_share \<Rightarrow> cas_pc \<Rightarrow> work_share \<times> cas_pc" where
  "bo_iter_tss_next fp = cas_prog (tss_first fp) (\<lambda>ws start chunk. (long_nend ws start chunk, chunk))"

definition ull_tss_first :: "fpenv \<Rightarrow> work_share \<Rightarrow> work_share \<times> int" where
  "ull_tss_first fp ws = (ws\<lparr>count := u64 (count ws + 1)\<rparr>, tss_chunk fp (param ws) (chunk_size ws) (count ws))"

definition bo_iter_ull_tss_next :: "fpenv \<Rightarrow> work_share \<Rightarrow> cas_pc \<Rightarrow> work_share \<times> cas_pc" where
  "bo_iter_ull_tss_next fp = cas_prog (ull_tss_first fp) (\<lambda>ws start chunk. (ull_nend ws start chunk, chunk))"

subsection \<open>A block of at least one iteration is a cut\<close>

lemma tape_chunk_pos: "1 \<le> tape_chunk fp T v R"
  by (simp add: tape_chunk_def tape_min_k_def Let_def)

lemma tss_chunk_pos: "1 \<le> tss_chunk fp v f c"
  by (simp add: tss_chunk_def Let_def)

lemma long_nend_takes:
  assumes "long_loop ws" and "next_it ws \<noteq> end_it ws" and "1 \<le> c"
  shows "takes ws (long_nend ws (next_it ws) c)"
  using takes_steps [OF assms(1,3)] takes_end [OF assms(1,2)] room_exact(1) [OF assms(1)]
  by (simp add: long_nend_def long_left_def)

lemma ull_nend_cuts:
  assumes "ull_fits (ull_step ws) ws" and "mode ws = 0" and "next_it ws \<noteq> end_it ws" and "1 \<le> c"
  shows "cuts (incr ws) (next_it ws) (ull_nend ws (next_it ws) c) (end_it ws)"
    "ull_fits (ull_step ws) (ws\<lparr>next_it := ull_nend ws (next_it ws) c\<rparr>)"
  using ull_steps [OF assms(1,4)] ull_advance_end [OF assms(1,3)] ull_left_room [OF assms(1)] assms(2)
  by (auto simp: ull_nend_def ull_step_def)

interpretation tape: cas_iterator "\<lambda>ws. (ws, 0)" "tape_block fp T" incr long_loop "\<lambda>_ _. True" "\<lambda>_ _. True" for fp T
proof (unfold_locales, goal_cases)
  case (5 ws x e x')
  then show ?case using long_nend_takes [OF _ _ tape_chunk_pos] by (auto simp: tape_block_def takes_def)
qed (auto simp: long_loop_def)

lemma long_loop_count [simp]: "long_loop (ws\<lparr>count := c\<rparr>) = long_loop ws"
  by (simp add: long_loop_def extent_def)

interpretation tss: cas_iterator "tss_first fp" "\<lambda>ws start chunk. (long_nend ws start chunk, chunk)" incr
    long_loop "\<lambda>_ _. True" "\<lambda>_ c. 1 \<le> c" for fp
proof (unfold_locales, goal_cases)
  case (3 ws ws' x)
  then show ?case by (auto simp: tss_first_def tss_chunk_pos)
next
  case (5 ws x e x')
  then show ?case using long_nend_takes by (auto simp: takes_def)
qed (auto simp: long_loop_def)

definition ull_up :: "work_share \<Rightarrow> bool" where
  "ull_up ws \<longleftrightarrow> mode ws = 0 \<and> ull_fits (ull_step ws) ws"

lemma ull_up_incr:
  assumes "ull_up ws"
  shows "incr ws \<noteq> 0"
proof -
  have "ull_step ws \<noteq> 0" "mode ws = 0" using assms by (simp_all add: ull_up_def ull_fits_def)
  then show ?thesis by (simp add: ull_step_def)
qed

interpretation ull_tape: cas_iterator "\<lambda>ws. (ws, 0)" "ull_tape_block fp T" incr ull_up "\<lambda>_ _. True" "\<lambda>_ _. True"
  for fp T
proof (unfold_locales, goal_cases)
  case (5 ws x e x')
  then show ?case using ull_nend_cuts [OF _ _ _ tape_chunk_pos] by (auto simp: ull_tape_block_def ull_up_def)
qed (auto simp: ull_up_incr)

lemma ull_up_count [simp]: "ull_up (ws\<lparr>count := c\<rparr>) = ull_up ws"
  by (simp add: ull_up_def ull_fits_def ull_step_def)

interpretation ull_tss: cas_iterator "ull_tss_first fp" "\<lambda>ws start chunk. (ull_nend ws start chunk, chunk)" incr
    ull_up "\<lambda>_ _. True" "\<lambda>_ c. 1 \<le> c" for fp
proof (unfold_locales, goal_cases)
  case (3 ws ws' x)
  then show ?case by (auto simp: ull_tss_first_def tss_chunk_pos)
next
  case (5 ws x e x')
  then show ?case using ull_nend_cuts by (auto simp: ull_up_def)
qed (auto simp: ull_up_incr)

end
