(* ===== verification/BatchSched.thy ===== *)
theory BatchSched
  imports FloatSched
begin

text \<open>
  The batched self-scheduling algorithms of \<open>gcc/libgomp/schedules.h\<close>, factoring (FAC2) and
  factoring self-scheduling (FSS). A batch is \<open>nthreads\<close> blocks of one size: the thread that
  finds \<open>next\<close> at the batch barrier publishes the size of the next batch in
  \<open>ws->chunk_size\<close> and moves \<open>ws->barrier\<close>, each with a compare-and-swap; blocks are taken
  with a compare-and-swap of \<open>next\<close>. All three words change under the feet of a thread that
  has already read some of them.
\<close>

subsection \<open>The program\<close>

text \<open>One constructor per point of the loop at which a shared word is about to be accessed,
  with the locals \<open>start\<close>, \<open>barrier\<close>, \<open>chunk_size\<close>. \<open>BatchTrap\<close> is a thread killed by an
  integer division by zero.\<close>

datatype batch_pc =
    BCall | BBarrier int | BChunk int int | BTop int int int | BReNext int | BReBar int int
  | BCasBarrier int int int int | BReNextB int int | BTake int int
  | BRet "(int \<times> int) option" | BTrap

fun batch_result :: "batch_pc \<Rightarrow> outcome" where
  "batch_result (BRet r) = Some r" | "batch_result _ = None"

text \<open>\<open>left\<close>, \<open>nend\<close> and \<open>after\<close> are the number of iterations left, the end of a block and
  the end of a batch of \<open>PF\<close> iterations, and \<open>conv\<close> the conversion of a chunk size to its
  field, as the two widths compute them; \<open>batch R\<close> is the block size of a new batch, \<open>None\<close>
  for a trap.\<close>

record batch_ops =
  left :: "work_share \<Rightarrow> int \<Rightarrow> int"
  nend :: "work_share \<Rightarrow> int \<Rightarrow> int \<Rightarrow> int"
  after :: "work_share \<Rightarrow> int \<Rightarrow> int \<Rightarrow> int"
  conv :: "int \<Rightarrow> int"
  batch :: "work_share \<Rightarrow> int \<Rightarrow> int option"

definition batch_take :: "batch_ops \<Rightarrow> work_share \<Rightarrow> int \<Rightarrow> int \<Rightarrow> work_share \<times> batch_pc" where
  "batch_take ops ws start chunk =
    (let e = nend ops ws start chunk in
     if next_it ws = start then (ws\<lparr>next_it := e\<rparr>, BRet (Some (start, e)))
     else (ws, BBarrier (next_it ws)))"

fun batch_next :: "batch_ops \<Rightarrow> int \<Rightarrow> work_share \<Rightarrow> batch_pc \<Rightarrow> work_share \<times> batch_pc" where
  "batch_next ops nthreads ws BCall = (ws, BBarrier (next_it ws))"
| "batch_next ops nthreads ws (BBarrier start) = (ws, BChunk start (barrier ws))"
| "batch_next ops nthreads ws (BChunk start bar) = (ws, BTop start bar (u64 (chunk_size ws)))"
| "batch_next ops nthreads ws (BTop start bar chunk) =
    (if start = end_it ws then (ws, BRet None)
     else if bar = start then
       (case batch ops ws (left ops ws start) of
          None \<Rightarrow> (ws, BTrap)
        | Some F0 \<Rightarrow>
            let PF = u64 (F0 * nthreads);
                nbarrier = (if F0 \<le> 1 then end_it ws else after ops ws bar PF);
                F = (if F0 \<le> 1 then 1 else F0)
            in if u64 (chunk_size ws) = chunk
               then (ws\<lparr>chunk_size := conv ops F\<rparr>, BCasBarrier start bar F nbarrier)
               else (ws, BReNext (u64 (chunk_size ws))))
     else batch_take ops ws start chunk)"
| "batch_next ops nthreads ws (BReNext chunk) = (ws, BReBar (next_it ws) chunk)"
| "batch_next ops nthreads ws (BReBar start chunk) = (ws, BTop start (barrier ws) chunk)"
| "batch_next ops nthreads ws (BCasBarrier start bar chunk nbarrier) =
    (if barrier ws = bar then (ws\<lparr>barrier := nbarrier\<rparr>, BTake start chunk)
     else (ws, BReNextB (barrier ws) chunk))"
| "batch_next ops nthreads ws (BReNextB bar chunk) = (ws, BTop (next_it ws) bar chunk)"
| "batch_next ops nthreads ws (BTake start chunk) = batch_take ops ws start chunk"
| "batch_next ops nthreads ws (BRet r) = (ws, BRet r)"
| "batch_next ops nthreads ws BTrap = (ws, BTrap)"

subsection \<open>The two algorithms in the two widths\<close>

definition fac2_F :: "fpenv \<Rightarrow> int \<Rightarrow> dbl \<Rightarrow> int \<Rightarrow> int" where
  "fac2_F fp nthreads p R = dbl_to_ulong fp (ddiv (ddiv (dbl_of_int R) p) (dbl_of_int nthreads))"

text \<open>\<open>1 / R\<close> divides two unsigned integers, and traps when \<open>R\<close> is zero.\<close>

definition fss_F :: "fpenv \<Rightarrow> int \<Rightarrow> dbl \<Rightarrow> int \<Rightarrow> int option" where
  "fss_F fp nthreads p R =
    (if R = 0 then None
     else let temp = ddiv (dmul (dbl_of_int nthreads) p) (dbl_of_int 2);
              b2 = dmul (dmul (dbl_of_int (1 div R)) temp) temp;
              x = dadd (dadd (dbl_of_int 2) b2) (dsqrt (dmul b2 (dadd b2 (dbl_of_int 4))))
          in Some (dbl_to_ulong fp (ddiv (ddiv (dbl_of_int R) x) (dbl_of_int nthreads))))"

definition long_after :: "work_share \<Rightarrow> int \<Rightarrow> int \<Rightarrow> int" where
  "long_after ws bar PF = s64 (u64 (bar + u64 (PF * incr ws)))"

definition ull_after :: "work_share \<Rightarrow> int \<Rightarrow> int \<Rightarrow> int" where
  "ull_after ws bar PF =
    (if mode ws = 0 then u64 (bar + u64 (PF * incr ws)) else u64 (bar + u64 (PF * u64 (- incr ws))))"

definition long_ops :: "(work_share \<Rightarrow> int \<Rightarrow> int option) \<Rightarrow> batch_ops" where
  "long_ops b = \<lparr>left = long_left, nend = long_nend, after = long_after, conv = s64, batch = b\<rparr>"

definition ull_ops :: "(work_share \<Rightarrow> int \<Rightarrow> int option) \<Rightarrow> batch_ops" where
  "ull_ops b = \<lparr>left = ull_left, nend = ull_nend, after = ull_after, conv = u64, batch = b\<rparr>"

definition bo_iter_fac2_next :: "fpenv \<Rightarrow> int \<Rightarrow> work_share \<Rightarrow> batch_pc \<Rightarrow> work_share \<times> batch_pc" where
  "bo_iter_fac2_next fp nthreads =
    batch_next (long_ops (\<lambda>ws R. Some (fac2_F fp nthreads (param ws) R))) nthreads"

definition bo_iter_ull_fac2_next :: "fpenv \<Rightarrow> int \<Rightarrow> work_share \<Rightarrow> batch_pc \<Rightarrow> work_share \<times> batch_pc" where
  "bo_iter_ull_fac2_next fp nthreads =
    batch_next (ull_ops (\<lambda>ws R. Some (fac2_F fp nthreads (param ws) R))) nthreads"

definition bo_iter_fss_next :: "fpenv \<Rightarrow> int \<Rightarrow> work_share \<Rightarrow> batch_pc \<Rightarrow> work_share \<times> batch_pc" where
  "bo_iter_fss_next fp nthreads =
    batch_next (long_ops (\<lambda>ws R. fss_F fp nthreads (param ws) R)) nthreads"

definition bo_iter_ull_fss_next :: "fpenv \<Rightarrow> int \<Rightarrow> work_share \<Rightarrow> batch_pc \<Rightarrow> work_share \<times> batch_pc" where
  "bo_iter_ull_fss_next fp nthreads =
    batch_next (ull_ops (\<lambda>ws R. fss_F fp nthreads (param ws) R)) nthreads"

subsection \<open>The contract\<close>

definition chunked :: "work_share \<Rightarrow> bool" where "chunked ws \<longleftrightarrow> 1 \<le> u64 (chunk_size ws)"

locale batch_iterator =
  fixes ops :: batch_ops and nthreads :: int
    and step_of :: "work_share \<Rightarrow> int"
    and good :: "work_share \<Rightarrow> bool"
  assumes step_nonzero: "good ws \<Longrightarrow> step_of ws \<noteq> 0"
    and good_frame: "good (ws\<lparr>chunk_size := c\<rparr>) = good ws" "good (ws\<lparr>barrier := c\<rparr>) = good ws"
    and step_frame: "step_of (ws\<lparr>chunk_size := c\<rparr>) = step_of ws" "step_of (ws\<lparr>barrier := c\<rparr>) = step_of ws"
      "step_of (ws\<lparr>next_it := c\<rparr>) = step_of ws"
    and left_frame: "left ops (ws\<lparr>chunk_size := c\<rparr>) = left ops ws" "left ops (ws\<lparr>barrier := c\<rparr>) = left ops ws"
      "left ops (ws\<lparr>next_it := c\<rparr>) = left ops ws"
    and batch_frame: "batch ops (ws\<lparr>chunk_size := c\<rparr>) = batch ops ws" "batch ops (ws\<lparr>barrier := c\<rparr>) = batch ops ws"
      "batch ops (ws\<lparr>next_it := c\<rparr>) = batch ops ws"
    and conv_law: "u64 (conv ops c) = u64 c"
    and batch_range: "batch ops ws R = Some F \<Longrightarrow> F \<le> ULONG_MAX"
    and batch_defined: "good ws \<Longrightarrow> next_it ws \<noteq> end_it ws \<Longrightarrow> batch ops ws (left ops ws (next_it ws)) \<noteq> None"
    and nend_law: "good ws \<Longrightarrow> next_it ws \<noteq> end_it ws \<Longrightarrow> 1 \<le> c \<Longrightarrow>
      cuts (step_of ws) (next_it ws) (nend ops ws (next_it ws) c) (end_it ws)
      \<and> good (ws\<lparr>next_it := nend ops ws (next_it ws) c\<rparr>)"
begin

definition ok :: "work_share \<Rightarrow> bool" where
  "ok ws \<longleftrightarrow> good ws \<and> (\<not> chunked ws \<longrightarrow> barrier ws = next_it ws)"

definition seen :: "work_share \<Rightarrow> int \<Rightarrow> bool" where
  "seen ws s \<longleftrightarrow> (s = end_it ws \<longrightarrow> next_it ws = end_it ws) \<and> (s \<noteq> end_it ws \<longrightarrow> batch ops ws (left ops ws s) \<noteq> None)"

fun lok :: "work_share \<Rightarrow> batch_pc \<Rightarrow> bool" where
  "lok ws (BBarrier s) = (seen ws s \<and> (chunked ws \<or> s = barrier ws))"
| "lok ws (BChunk s b) = (seen ws s \<and> (chunked ws \<or> b = s))"
| "lok ws (BTop s b c) = (seen ws s \<and> (1 \<le> c \<or> b = s) \<and> (1 \<le> c \<longrightarrow> chunked ws) \<and> 0 \<le> c)"
| "lok ws (BReNext c) = (1 \<le> c \<and> chunked ws)"
| "lok ws (BReBar s c) = (seen ws s \<and> 1 \<le> c \<and> chunked ws)"
| "lok ws (BCasBarrier s b c n) = (seen ws s \<and> s \<noteq> end_it ws \<and> 1 \<le> c \<and> chunked ws)"
| "lok ws (BReNextB b c) = (1 \<le> c \<and> chunked ws)"
| "lok ws (BTake s c) = (seen ws s \<and> s \<noteq> end_it ws \<and> 1 \<le> c \<and> chunked ws)"
| "lok ws BTrap = False"
| "lok ws _ = True"

text \<open>The number of steps left to a thread that runs alone depends on which of its locals
  still agree with memory.\<close>

fun mu :: "work_share \<Rightarrow> batch_pc \<Rightarrow> nat" where
  "mu ws BCall = 6"
| "mu ws (BBarrier s) = (if s = next_it ws then 5 else 10)"
| "mu ws (BChunk s b) = (if b = barrier ws then if s = next_it ws then 4 else 9 else 7)"
| "mu ws (BTop s b c) =
    (if c \<noteq> u64 (chunk_size ws) then 6 else if b \<noteq> barrier ws then 6 else if s = next_it ws then 3 else 8)"
| "mu ws (BReNext c) = (if c = u64 (chunk_size ws) then 5 else 8)"
| "mu ws (BReBar s c) = (if c \<noteq> u64 (chunk_size ws) then 7 else if s = next_it ws then 4 else 9)"
| "mu ws (BCasBarrier s b c n) =
    (if b \<noteq> barrier ws then if c = u64 (chunk_size ws) then 5 else 8 else if s = next_it ws then 2 else 7)"
| "mu ws (BReNextB b c) = (if c = u64 (chunk_size ws) \<and> b = barrier ws then 4 else 7)"
| "mu ws (BTake s c) = (if s = next_it ws then 1 else 6)"
| "mu ws _ = 0"

lemma seen_next: "good ws \<Longrightarrow> seen ws (next_it ws)"
  using batch_defined by (auto simp: seen_def)

lemma chunked_conv: "1 \<le> F \<Longrightarrow> F \<le> ULONG_MAX \<Longrightarrow> chunked (ws\<lparr>chunk_size := conv ops F\<rparr>)"
  by (simp add: chunked_def conv_law u64_id)

lemma chunked_frame: "chunked (ws\<lparr>barrier := c\<rparr>) = chunked ws" "chunked (ws\<lparr>next_it := c\<rparr>) = chunked ws"
  by (simp_all add: chunked_def)

lemma seen_frame: "seen (ws\<lparr>chunk_size := c\<rparr>) s = seen ws s" "seen (ws\<lparr>barrier := c\<rparr>) s = seen ws s"
  by (simp_all add: seen_def left_frame batch_frame)

lemma step_cases:
  assumes st: "batch_next ops nthreads ws p = (ws', p')" and ok: "ok ws" and lk: "lok ws p" and r: "batch_result p = None"
  obtains (load) "ws' = ws" "batch_result p' = None" "lok ws p'" "mu ws p' < mu ws p"
  | (stop) "ws' = ws" "p' = BRet None" "next_it ws = end_it ws"
  | (chunk) F where "1 \<le> F" "F \<le> ULONG_MAX" "ws' = ws\<lparr>chunk_size := conv ops F\<rparr>" "batch_result p' = None"
      "lok ws' p'" "mu ws' p' < mu ws p"
  | (bar) n where "chunked ws" "ws' = ws\<lparr>barrier := n\<rparr>" "batch_result p' = None" "lok ws' p'" "mu ws' p' < mu ws p"
  | (take) e where "chunked ws" "next_it ws \<noteq> end_it ws" "cuts (step_of ws) (next_it ws) e (end_it ws)"
      "good (ws\<lparr>next_it := e\<rparr>)" "ws' = ws\<lparr>next_it := e\<rparr>" "p' = BRet (Some (next_it ws, e))"
proof -
  have g: "good ws" using ok by (simp add: ok_def)
  note sn = seen_next [OF g]
  have taking: thesis
    if "batch_take ops ws s c = (ws', p')" "seen ws s" "s \<noteq> end_it ws" "1 \<le> c" "chunked ws"
      "s \<noteq> next_it ws \<Longrightarrow> 5 < mu ws p" for s c
  proof (cases "next_it ws = s")
    case True
    have "ws' = ws\<lparr>next_it := nend ops ws s c\<rparr>" "p' = BRet (Some (next_it ws, nend ops ws s c))"
      using that(1) True by (simp_all add: batch_take_def Let_def)
    then show ?thesis using nend_law [OF g _ that(4)] True that by (intro take) auto
  next
    case False
    then have "ws' = ws" "p' = BBarrier (next_it ws)" using that(1) by (auto simp: batch_take_def Let_def)
    then show ?thesis using sn that(5,6) False by (intro load) auto
  qed
  show thesis
  proof (cases p)
    case BCall
    then show ?thesis using st sn ok by (intro load) (auto simp: ok_def)
  next
    case (BBarrier s)
    then show ?thesis using st lk by (intro load) auto
  next
    case (BChunk s b)
    then show ?thesis using st lk by (intro load) (auto simp: chunked_def)
  next
    case (BTop s b c)
    then have lk': "seen ws s" "1 \<le> c \<or> b = s" "1 \<le> c \<longrightarrow> chunked ws" "0 \<le> c" using lk by auto
    show ?thesis
    proof (cases "s = end_it ws")
      case True
      then show ?thesis using st BTop lk'(1) by (intro stop) (auto simp: seen_def)
    next
      case ne: False
      show ?thesis
      proof (cases "b = s")
        case False
        then show ?thesis using st BTop lk' ne by (intro taking [of s c]) auto
      next
        case eq: True
        obtain F0 where F0: "batch ops ws (left ops ws s) = Some F0" using lk'(1) ne by (auto simp: seen_def)
        define F where "F = (if F0 \<le> 1 then 1 else F0)"
        have F: "1 \<le> F" "F \<le> ULONG_MAX" using batch_range [OF F0] by (auto simp: F_def)
        show ?thesis
        proof (cases "u64 (chunk_size ws) = c")
          case True
          then have ws': "ws' = ws\<lparr>chunk_size := conv ops F\<rparr>" and p': "\<exists>n. p' = BCasBarrier s s F n"
            using st BTop ne eq F0 by (auto simp: Let_def F_def)
          then show ?thesis
            using F chunked_conv [OF F] lk'(1) ne True BTop eq
            by (intro chunk [OF F ws']) (auto simp: seen_frame conv_law u64_id)
        next
          case False
          then have "ws' = ws" "p' = BReNext (u64 (chunk_size ws))" using st BTop ne eq F0 by (auto simp: Let_def)
          moreover have "chunked ws"
            using lk' False u64_nonneg [of "chunk_size ws"] unfolding chunked_def by linarith
          ultimately show ?thesis using False BTop by (intro load) (auto simp: chunked_def)
        qed
      qed
    qed
  next
    case (BReNext c)
    then show ?thesis using st lk sn by (intro load) auto
  next
    case (BReBar s c)
    then show ?thesis using st lk by (intro load) auto
  next
    case (BCasBarrier s b c n)
    then have lk': "seen ws s" "s \<noteq> end_it ws" "1 \<le> c" "chunked ws" using lk by auto
    show ?thesis
    proof (cases "barrier ws = b")
      case True
      then have w: "ws' = ws\<lparr>barrier := n\<rparr>" and q: "p' = BTake s c" using st BCasBarrier by auto
      then show ?thesis using lk' BCasBarrier True by (intro bar [OF lk'(4) w]) (auto simp: seen_frame chunked_frame)
    next
      case False
      then show ?thesis using st BCasBarrier lk' by (intro load) auto
    qed
  next
    case (BReNextB b c)
    then show ?thesis using st lk sn by (intro load) auto
  next
    case (BTake s c)
    then show ?thesis using st lk by (intro taking [of s c]) auto
  next
    case (BRet x)
    then show ?thesis using r by simp
  next
    case BTrap
    then show ?thesis using lk by simp
  qed
qed

lemma lok_chunk: "lok ws q \<Longrightarrow> chunked (ws\<lparr>chunk_size := c\<rparr>) \<Longrightarrow> lok (ws\<lparr>chunk_size := c\<rparr>) q"
  by (cases q) (auto simp: seen_frame)

lemma lok_barrier: "lok ws q \<Longrightarrow> chunked ws \<Longrightarrow> lok (ws\<lparr>barrier := c\<rparr>) q"
  by (cases q) (auto simp: seen_frame chunked_frame)

lemma lok_next:
  assumes "lok ws q" and "chunked ws" and "next_it ws \<noteq> end_it ws"
  shows "lok (ws\<lparr>next_it := e\<rparr>) q"
  using assms by (cases q) (auto simp: chunked_frame seen_def left_frame batch_frame)

lemma ok_chunk: "ok ws \<Longrightarrow> chunked (ws\<lparr>chunk_size := c\<rparr>) \<Longrightarrow> ok (ws\<lparr>chunk_size := c\<rparr>)"
  by (simp add: ok_def good_frame)

lemma ok_barrier: "ok ws \<Longrightarrow> chunked ws \<Longrightarrow> ok (ws\<lparr>barrier := c\<rparr>)"
  by (simp add: ok_def good_frame chunked_frame)

lemma ok_next: "good (ws\<lparr>next_it := e\<rparr>) \<Longrightarrow> chunked ws \<Longrightarrow> ok (ws\<lparr>next_it := e\<rparr>)"
  by (simp add: ok_def chunked_frame)

lemma empty_at_end: "ok ws \<Longrightarrow> iters (step_of ws) (end_it ws) (end_it ws) = []"
  by (rule iters_Nil) (simp_all add: step_nonzero ok_def)

end

sublocale batch_iterator \<subseteq> obstruction_free "batch_next ops nthreads" batch_result BCall step_of next_it
    "\<lambda>_ ws _. ok ws" lok mu
proof (unfold_locales, goal_cases)
  case (3 _ ws r p ws' p')
  from 3(5,1,3,4) show ?case
    by (elim step_cases) (use 3(1) in \<open>auto simp: ok_chunk ok_barrier ok_next chunked_conv\<close>)
next
  case (4 _ ws r p ws' p' q)
  from 4(5,1,3,4) show ?case
    by (elim step_cases) (use 4(6) in \<open>auto simp: lok_chunk lok_barrier lok_next chunked_conv\<close>)
next
  case (5 _ ws r p ws' p')
  from 5(5,1,3,4) show ?case by (elim step_cases) (auto simp: step_frame)
next
  case (6 _ ws r p ws' p')
  from 6(5,1,3,4) show ?case by (elim step_cases) (use 6(6) in auto)
next
  case (7 _ ws r p ws' p' s e)
  from 7(5,1,3,4) show ?case by (elim step_cases) (use 7(6) in auto)
next
  case (8 _ ws r p ws' p')
  from 8(5,1,3,4) show ?case by (elim step_cases) (use 8(1,6) in \<open>auto simp: empty_at_end\<close>)
next
  case (9 _ ws r p ws' p')
  from 9(4,1,2,3) show ?case by (elim step_cases) (use 9(5) in auto)
qed auto


subsection \<open>FAC2 and FSS meet the contract\<close>

lemma long_loop_frame [simp]: "long_loop (ws\<lparr>chunk_size := c\<rparr>) = long_loop ws" "long_loop (ws\<lparr>barrier := c\<rparr>) = long_loop ws"
  by (simp_all add: long_loop_def extent_def)

lemma ull_up_frame [simp]: "ull_up (ws\<lparr>chunk_size := c\<rparr>) = ull_up ws" "ull_up (ws\<lparr>barrier := c\<rparr>) = ull_up ws"
  by (simp_all add: ull_up_def ull_fits_def ull_step_def)

lemma long_left_frame [simp]:
  "long_left (ws\<lparr>chunk_size := c\<rparr>) = long_left ws" "long_left (ws\<lparr>barrier := c\<rparr>) = long_left ws"
  "long_left (ws\<lparr>next_it := c\<rparr>) = long_left ws"
  by (auto simp: long_left_def fun_eq_iff)

lemma ull_left_frame [simp]:
  "ull_left (ws\<lparr>chunk_size := c\<rparr>) = ull_left ws" "ull_left (ws\<lparr>barrier := c\<rparr>) = ull_left ws"
  "ull_left (ws\<lparr>next_it := c\<rparr>) = ull_left ws"
  by (auto simp: ull_left_def fun_eq_iff)

lemma fac2_F_range: "fac2_F fp T v R \<le> ULONG_MAX"
  using dbl_to_ulong_range by (simp add: fac2_F_def)

lemma fss_F_range: "fss_F fp T v R = Some F \<Longrightarrow> F \<le> ULONG_MAX"
  using dbl_to_ulong_range by (auto simp: fss_F_def Let_def split: if_splits)

interpretation fac2: batch_iterator "long_ops (\<lambda>ws R. Some (fac2_F fp T (param ws) R))" T incr long_loop for fp T
proof (unfold_locales, goal_cases)
  case (14 ws R F)
  then show ?case using fac2_F_range by (auto simp: long_ops_def)
next
  case (16 ws c)
  then show ?case using long_nend_takes by (auto simp: long_ops_def takes_def)
qed (auto simp: long_ops_def dest: long_loopD(1))

interpretation ull_fac2: batch_iterator "ull_ops (\<lambda>ws R. Some (fac2_F fp T (param ws) R))" T incr ull_up for fp T
proof (unfold_locales, goal_cases)
  case (14 ws R F)
  then show ?case using fac2_F_range by (auto simp: ull_ops_def)
next
  case (16 ws c)
  then show ?case using ull_nend_cuts by (auto simp: ull_ops_def ull_up_def)
qed (auto simp: ull_ops_def ull_up_incr)

text \<open>FSS needs, besides, that the loop has no partial last step, so that \<open>R\<close> is never zero
  before the end.\<close>

definition fss_good :: "work_share \<Rightarrow> bool" where
  "fss_good ws \<longleftrightarrow> long_loop ws \<and> (end_it ws - next_it ws) mod incr ws = 0"

definition ull_fss_good :: "work_share \<Rightarrow> bool" where
  "ull_fss_good ws \<longleftrightarrow> ull_up ws \<and> (end_it ws - next_it ws) mod incr ws = 0"

lemma long_nend_value:
  assumes "long_loop ws" and "1 \<le> c"
  shows "long_nend ws (next_it ws) c = end_it ws \<or> long_nend ws (next_it ws) c = next_it ws + c * incr ws"
proof (cases "c < long_left ws (next_it ws)")
  case True
  then have "c \<le> room ws" using room_exact(1) [OF assms(1)] by (simp add: long_left_def)
  then have "c * \<bar>incr ws\<bar> \<le> room ws * \<bar>incr ws\<bar>" by (intro mult_right_mono) auto
  then have "c * \<bar>incr ws\<bar> \<le> extent ws" using room_exact(4) [OF assms(1)] by linarith
  from advance_steps(1) [OF assms this] True show ?thesis by (simp add: long_nend_def)
qed (simp add: long_nend_def)

lemma ull_nend_value:
  assumes "ull_up ws" and "1 \<le> c"
  shows "ull_nend ws (next_it ws) c = end_it ws \<or> ull_nend ws (next_it ws) c = next_it ws + c * incr ws"
proof (cases "c < ull_left ws (next_it ws)")
  case True
  have F: "ull_fits (ull_step ws) ws" and m: "mode ws = 0" using assms(1) by (auto simp: ull_up_def)
  have "ull_step ws = incr ws" using m by (simp add: ull_step_def)
  then show ?thesis
    using ull_steps(1) [OF F assms(2)] True ull_left_room [OF F] m by (simp add: ull_nend_def)
qed (simp add: ull_nend_def)

lemma multiple_left:
  fixes n e k c :: int
  assumes "(e - n) mod k = 0" and "x = e \<or> x = n + c * k"
  shows "(e - x) mod k = 0"
proof -
  have "k dvd (e - n) - c * k" using assms(1) by (subst dvd_diff) (auto simp: mod_eq_0_iff_dvd)
  then show ?thesis using assms(2) by (auto simp: mod_eq_0_iff_dvd diff_diff_eq)
qed

lemma fss_room:
  assumes "0 \<le> sgn k * (e - n)" and "(e - n) mod k = 0" and "n \<noteq> e" and "k \<noteq> (0::int)"
  shows "sgn k * (e - n) div \<bar>k\<bar> \<noteq> 0"
proof -
  have "k dvd e - n" using assms(2) by (simp add: mod_eq_0_iff_dvd)
  then have "\<bar>k\<bar> dvd sgn k * (e - n)" by simp
  moreover have "sgn k * (e - n) \<noteq> 0" using assms(3,4) by (simp add: sgn_0_0)
  ultimately show ?thesis by (metis dvd_div_eq_0_iff)
qed

interpretation fss: batch_iterator "long_ops (\<lambda>ws R. fss_F fp T (param ws) R)" T incr fss_good for fp T
proof (unfold_locales, goal_cases)
  case (14 ws R F)
  then show ?case using fss_F_range by (auto simp: long_ops_def)
next
  case (15 ws)
  then have L: "long_loop ws" by (simp add: fss_good_def)
  then have "room ws \<noteq> 0"
    using 15 fss_room [of "incr ws" "end_it ws" "next_it ws"]
    by (simp add: room_def fss_good_def long_loop_def extent_def)
  then show ?case using room_exact(1) [OF L] by (simp add: long_ops_def long_left_def fss_F_def Let_def)
next
  case (16 ws c)
  then have L: "long_loop ws" by (simp add: fss_good_def)
  have "(end_it ws - long_nend ws (next_it ws) c) mod incr ws = 0"
    by (rule multiple_left [OF _ long_nend_value [OF L 16(3)]]) (use 16 in \<open>simp add: fss_good_def\<close>)
  then show ?case using long_nend_takes [OF L 16(2,3)] by (simp add: long_ops_def takes_def fss_good_def)
qed (auto simp: long_ops_def fss_good_def dest: long_loopD(1))

interpretation ull_fss: batch_iterator "ull_ops (\<lambda>ws R. fss_F fp T (param ws) R)" T incr ull_fss_good for fp T
proof (unfold_locales, goal_cases)
  case (14 ws R F)
  then show ?case using fss_F_range by (auto simp: ull_ops_def)
next
  case (15 ws)
  then have L: "ull_fits (ull_step ws) ws" "incr ws \<noteq> 0" and m: "mode ws = 0"
    using ull_up_incr by (auto simp: ull_fss_good_def ull_up_def)
  then have "ull_room (ull_step ws) ws \<noteq> 0"
    using 15 fss_room [of "incr ws" "end_it ws" "next_it ws"]
    by (simp add: ull_room_def ull_fss_good_def ull_fits_def ull_step_def)
  then show ?case using ull_left_room [OF L(1)] by (simp add: ull_ops_def fss_F_def Let_def)
next
  case (16 ws c)
  then have L: "ull_up ws" by (simp add: ull_fss_good_def)
  have "(end_it ws - ull_nend ws (next_it ws) c) mod incr ws = 0"
    by (rule multiple_left [OF _ ull_nend_value [OF L 16(3)]]) (use 16 in \<open>simp add: ull_fss_good_def\<close>)
  then show ?case using ull_nend_cuts [of ws c] L 16 by (auto simp: ull_ops_def ull_fss_good_def ull_up_def)
qed (auto simp: ull_ops_def ull_up_incr ull_fss_good_def)

end
