(* ===== verification/ScheduleProps.thy ===== *)
theory ScheduleProps
  imports BatchSched
begin

text \<open>
  Properties of the lock-free iterators of \<open>iter_ull.c\<close> and \<open>schedules.h\<close>, from the
  contracts proved in \<open>IterUll\<close>, \<open>FloatSched\<close> and \<open>BatchSched\<close>.
\<close>

subsection \<open>Unsigned DYNAMIC and GUIDED\<close>

text \<open>
  On \<open>unsigned long long\<close> loops in either direction, every interleaving of the
  compare-and-swap path of DYNAMIC hands out exactly the loop, with steps and chunks that
  count down kept as two's complement numbers.
\<close>

theorem ull_dynamic_exact:
  assumes "ull_dyn_ok ws" and "set is \<subseteq> {..<T}"
  shows "exact_run gomp_iter_ull_dynamic_cas cas_result CasCall (ull_dstep ws) T is ws"
  unfolding gomp_iter_ull_dynamic_cas_def by (rule ull_dynamic.run_exact [OF assms]) simp

theorem ull_dynamic_exact_witness:
  "exact_run gomp_iter_ull_dynamic_cas cas_result CasCall (- 3) 2 [0, 1, 0, 1, 1, 0, 0, 0, 0]
     (ws_zero\<lparr>mode := 2, chunk_size := 2 ^ 64 - 6, incr := 2 ^ 64 - 3, next_it := 20, end_it := 4\<rparr>)"
  using ull_dynamic_exact [of "ws_zero\<lparr>mode := 2, chunk_size := 2 ^ 64 - 6, incr := 2 ^ 64 - 3, next_it := 20, end_it := 4\<rparr>"
      "[0, 1, 0, 1, 1, 0, 0, 0, 0]" 2]
  by (simp add: ull_dyn_ok_def ull_dstep_def mode_down_def ull_fits_def mag_def ws_zero_def u64_def)

text \<open>
  GUIDED on \<open>unsigned long long\<close> loops, in either direction, hands out exactly the loop in
  every interleaving.
\<close>

theorem ull_guided_exact:
  assumes "ull_guided_ok n ws" and "set is \<subseteq> {..<T}"
  shows "exact_run (gomp_iter_ull_guided_next n) cas_result CasCall (ull_step ws) T is ws"
  unfolding gomp_iter_ull_guided_next_def by (rule ull_guided.run_exact [OF assms]) simp

theorem ull_guided_exact_witness:
  "exact_run (gomp_iter_ull_guided_next 2) cas_result CasCall (- 3) 2 [0, 1, 0, 1, 1, 0, 0, 0, 0]
     (ws_zero\<lparr>mode := 2, chunk_size := 1, incr := 2 ^ 64 - 3, next_it := 20, end_it := 4\<rparr>)"
  using ull_guided_exact [of 2 "ws_zero\<lparr>mode := 2, chunk_size := 1, incr := 2 ^ 64 - 3, next_it := 20, end_it := 4\<rparr>"
      "[0, 1, 0, 1, 1, 0, 0, 0, 0]" 2]
  by (simp add: ull_guided_ok_def ull_step_def ull_fits_def ws_zero_def u64_def)

subsection \<open>Tapering and trapezoid\<close>

text \<open>
  TAPE is exact on \<open>long\<close> loops in both directions and on \<open>unsigned long long\<close> loops that
  count up, whatever the floating-point formula returns (for every tuned parameter, every
  behaviour of an out-of-range conversion): every interleaving hands out the loop in order.
\<close>

theorem tape_exact:
  assumes "set is \<subseteq> {..<T}"
  shows "(long_loop ws \<longrightarrow> exact_run (bo_iter_tape_next fp n) cas_result CasCall (incr ws) T is ws)
    \<and> (ull_up ws \<longrightarrow> exact_run (bo_iter_ull_tape_next fp n) cas_result CasCall (incr ws) T is ws)"
  unfolding bo_iter_tape_next_def bo_iter_ull_tape_next_def
  using tape.run_exact [of ws "is" T] ull_tape.run_exact [of ws "is" T] assms by simp

theorem tape_exact_witness:
  "exact_run (bo_iter_tape_next \<lparr>pow_fn = \<lambda>x y. x, log_fn = \<lambda>x. x, ub_ulong = \<lambda>_. 0, ub_long = \<lambda>_. 0\<rparr> 2)
     cas_result CasCall (- 3) 2 [0, 1, 0, 1, 1, 0, 0, 0, 0] (ws_zero\<lparr>incr := - 3, next_it := 20, end_it := 4\<rparr>)"
  using tape_exact [of "[0, 1, 0, 1, 1, 0, 0, 0, 0]" 2 "ws_zero\<lparr>incr := - 3, next_it := 20, end_it := 4\<rparr>"]
  by (simp add: long_loop_def extent_def ws_zero_def)

text \<open>
  TSS is exact on \<open>long\<close> loops in both directions and on \<open>unsigned long long\<close> loops that
  count up, for every parameter and every value of the request counter.
\<close>

theorem tss_exact:
  assumes "set is \<subseteq> {..<T}"
  shows "(long_loop ws \<longrightarrow> exact_run (bo_iter_tss_next fp) cas_result CasCall (incr ws) T is ws)
    \<and> (ull_up ws \<longrightarrow> exact_run (bo_iter_ull_tss_next fp) cas_result CasCall (incr ws) T is ws)"
  unfolding bo_iter_tss_next_def bo_iter_ull_tss_next_def
  using tss.run_exact [of ws "is" T] ull_tss.run_exact [of ws "is" T] assms by simp

theorem tss_exact_witness:
  "exact_run (bo_iter_tss_next \<lparr>pow_fn = \<lambda>x y. x, log_fn = \<lambda>x. x, ub_ulong = \<lambda>_. 0, ub_long = \<lambda>_. 0\<rparr>)
     cas_result CasCall (- 3) 2 [0, 1, 0, 1, 1, 0, 0, 0, 0] (ws_zero\<lparr>incr := - 3, next_it := 20, end_it := 4\<rparr>)"
  using tss_exact [of "[0, 1, 0, 1, 1, 0, 0, 0, 0]" 2 "ws_zero\<lparr>incr := - 3, next_it := 20, end_it := 4\<rparr>"]
  by (simp add: long_loop_def extent_def ws_zero_def)

text \<open>
  The lower clamp of the TSS chunk does not act as one: \<open>f - count * delta\<close> is unsigned, so
  a request whose number passes \<open>f / delta\<close> gets a chunk of nearly \<open>2 ^ 64\<close> iterations, that is
  everything left, instead of one iteration.
\<close>

theorem tss_clamp_wraps:
  assumes "dbl_to_ulong fp (ddiv (dbl_of_int 1) v) = delta" and "0 \<le> cnt" and "0 \<le> f" and "f < cnt * delta"
    and "cnt * delta \<le> ULONG_MAX"
  shows "tss_chunk fp v f cnt = 2 ^ 64 - (cnt * delta - f)"
proof -
  have "u64 (f - u64 (cnt * delta)) = u64 (f - cnt * delta + 1 * 2 ^ 64)"
    unfolding u64_diff_u64 unfolding u64_def by (simp only: mod_mult_self1)
  also have "\<dots> = 2 ^ 64 - (cnt * delta - f)" using assms(3-5) by (subst u64_id) auto
  finally show ?thesis using assms(1,5,3) by (simp add: tss_chunk_def Let_def)
qed

theorem tss_clamp_wraps_witness:
  "tss_chunk \<lparr>pow_fn = \<lambda>x y. x, log_fn = \<lambda>x. x, ub_ulong = \<lambda>_. 0, ub_long = \<lambda>_. 0\<rparr> (Fin (1 / 2)) 9 5 = 2 ^ 64 - 1"
proof -
  let ?fp = "\<lparr>pow_fn = \<lambda>x y. x, log_fn = \<lambda>x. x, ub_ulong = \<lambda>_. 0, ub_long = \<lambda>_. 0\<rparr> :: fpenv"
  have "dbl_to_ulong ?fp (ddiv (dbl_of_int 1) (Fin (1 / 2))) = 2"
    using rnd_of_int [of 2] by (simp add: dbl_of_int_exact dbl_to_ulong_def rtrunc_def)
  then show ?thesis using tss_clamp_wraps [of ?fp "Fin (1 / 2)" 2 5 9] by simp
qed

subsection \<open>Factoring\<close>

text \<open>
  C20. FAC2 is exact: although the batch size and the batch barrier are published with separate
  compare-and-swaps and read by threads one at a time, every interleaving hands out the loop in
  order, on \<open>long\<close> loops in both directions, from any descriptor whose chunk is set or whose
  barrier is at \<open>next\<close> (as \<open>gomp_loop_init\<close> leaves it).
\<close>

theorem fac2_exact:
  assumes "long_loop ws" and "chunked ws \<or> barrier ws = next_it ws" and "set is \<subseteq> {..<T}"
  shows "exact_run (bo_iter_fac2_next fp n) batch_result BCall (incr ws) T is ws"
  unfolding bo_iter_fac2_next_def using assms by (intro fac2.run_exact) (auto simp: fac2.ok_def)

theorem fac2_exact_witness:
  "exact_run (bo_iter_fac2_next \<lparr>pow_fn = \<lambda>x y. x, log_fn = \<lambda>x. x, ub_ulong = \<lambda>_. 0, ub_long = \<lambda>_. 0\<rparr> 2)
     batch_result BCall 3 2 [0, 1, 0, 1, 1, 0, 0, 0, 0] (ws_zero\<lparr>param := Fin 2, incr := 3, end_it := 40\<rparr>)"
  by (rule fac2_exact [of "ws_zero\<lparr>param := Fin 2, incr := 3, end_it := 40\<rparr>", simplified])
    (simp_all add: ws_zero_def long_loop_def extent_def)

text \<open>
  FAC2 is obstruction free: after any interleaving, a thread in the middle of a call returns
  within eleven steps once the others pause, whichever of its locals (position, barrier, chunk)
  are stale.
\<close>

theorem fac2_obstruction_free:
  assumes "long_loop ws" and "chunked ws \<or> barrier ws = next_it ws" and "set is \<subseteq> {..<T}"
  shows "lone_returns (bo_iter_fac2_next fp n) batch_result BCall 11 T is ws"
proof -
  have "fac2.mu w p < 11" for w p by (cases p) auto
  then show ?thesis
    unfolding bo_iter_fac2_next_def using assms by (intro fac2.run_lone_returns) (auto simp: fac2.ok_def)
qed

theorem fac2_obstruction_free_witness:
  "lone_returns (bo_iter_fac2_next \<lparr>pow_fn = \<lambda>x y. x, log_fn = \<lambda>x. x, ub_ulong = \<lambda>_. 0, ub_long = \<lambda>_. 0\<rparr> 2)
     batch_result BCall 11 2 [0, 1, 0, 1, 1] (ws_zero\<lparr>param := Fin 2, incr := 3, end_it := 40\<rparr>)"
  by (rule fac2_obstruction_free [of "ws_zero\<lparr>param := Fin 2, incr := 3, end_it := 40\<rparr>", simplified])
    (simp_all add: ws_zero_def long_loop_def extent_def)

text \<open>
  A FAC2 batch with the standard factor 2 is \<open>R / (2 * nthreads)\<close> exactly, rounding errors
  of the two divisions notwithstanding, for loops of fewer than \<open>2 ^ 53\<close> iterations.
\<close>

theorem fac2_batch_size:
  assumes "0 \<le> R" and "R < 2 ^ 53" and "0 < P" and "P < 2 ^ 32"
  shows "fac2_F fp P (dbl_of_int 2) R = R div (2 * P)"
proof -
  have "ddiv (ddiv (dbl_of_int R) (dbl_of_int 2)) (dbl_of_int P) = rnd (of_int R / of_int (2 * P))"
    using assms by (simp add: dbl_of_int_exact rnd_half)
  then show ?thesis using dbl_to_ulong_quotient [OF assms(1,2), of "2 * P" fp] assms(3,4) by (simp add: fac2_F_def)
qed

theorem fac2_batch_size_witness:
  "fac2_F \<lparr>pow_fn = \<lambda>x y. x, log_fn = \<lambda>x. x, ub_ulong = \<lambda>_. 0, ub_long = \<lambda>_. 0\<rparr> 3 (dbl_of_int 2) 1000 = 166"
  using fac2_batch_size [of 1000 3] by simp

subsection \<open>Factoring self-scheduling\<close>

text \<open>
  FSS is exact on \<open>long\<close> loops whose range is a multiple of the step, in every interleaving.
\<close>

theorem fss_exact:
  assumes "fss_good ws" and "chunked ws \<or> barrier ws = next_it ws" and "set is \<subseteq> {..<T}"
  shows "exact_run (bo_iter_fss_next fp n) batch_result BCall (incr ws) T is ws"
  unfolding bo_iter_fss_next_def using assms by (intro fss.run_exact) (auto simp: fss.ok_def)

theorem fss_exact_witness:
  "exact_run (bo_iter_fss_next \<lparr>pow_fn = \<lambda>x y. x, log_fn = \<lambda>x. x, ub_ulong = \<lambda>_. 0, ub_long = \<lambda>_. 0\<rparr> 2)
     batch_result BCall 3 2 [0, 1, 0, 1, 1, 0, 0, 0, 0] (ws_zero\<lparr>param := Fin 2, incr := 3, end_it := 42\<rparr>)"
  by (rule fss_exact [of "ws_zero\<lparr>param := Fin 2, incr := 3, end_it := 42\<rparr>", simplified])
    (simp_all add: ws_zero_def long_loop_def extent_def fss_good_def)

text \<open>
  From the second batch on FSS ignores its tuned parameter: \<open>1 / R\<close> is an integer division,
  so with at least two iterations left the correction term vanishes and the batch is the one
  of FAC2, \<open>R / (2 * nthreads)\<close>, for every parameter for which \<open>nthreads * param\<close> does not
  overflow.
\<close>

theorem fss_ignores_parameter:
  assumes "2 \<le> R" and "R < 2 ^ 53" and "0 < P" and "P < 2 ^ 32"
    and "dmul (dbl_of_int P) v = Fin t" and "rnd (t / 2) = Fin u"
  shows "fss_F fp P v R = Some (R div (2 * P))"
proof -
  have two: "dbl_of_int 2 = Fin 2" "dbl_of_int 4 = Fin 4" by (simp_all add: dbl_of_int_exact)
  have "1 div R = 0" using assms(1) by simp
  moreover have "rnd 2 = Fin 2" "rnd 4 = Fin 4" using rnd_of_int [of 2] rnd_of_int [of 4] by simp_all
  ultimately have "fss_F fp P v R = Some (fac2_F fp P (dbl_of_int 2) R)"
    using assms(1,5,6) by (simp add: fss_F_def fac2_F_def Let_def two)
  moreover have "ddiv (ddiv (dbl_of_int R) (dbl_of_int 2)) (dbl_of_int P) = rnd (of_int R / of_int (2 * P))"
    using assms(1-4) by (simp add: dbl_of_int_exact rnd_half)
  ultimately show ?thesis
    using dbl_to_ulong_quotient [of R "2 * P" fp] assms(1-4) by (simp add: fac2_F_def)
qed

theorem fss_ignores_parameter_witness:
  "fss_F \<lparr>pow_fn = \<lambda>x y. x, log_fn = \<lambda>x. x, ub_ulong = \<lambda>_. 0, ub_long = \<lambda>_. 0\<rparr> 4 (Fin 3) 1000 = Some 125"
proof -
  have "rnd 12 = Fin 12" "rnd (12 / 2) = Fin 6" using rnd_of_int [of 12] rnd_of_int [of 6] by simp_all
  then show ?thesis using fss_ignores_parameter [of 1000 4 "Fin 3" 12 6] by (simp add: dbl_of_int_exact)
qed

text \<open>
  FSS divides by zero on a loop whose remaining range is shorter than its step while the
  barrier is at \<open>next\<close>, for instance \<open>for (i = 0; i < 1; i += 2)\<close>: the call reaches the trap
  and never returns.
\<close>

theorem fss_short_loop_traps:
  assumes "long_loop ws" and "next_it ws \<noteq> end_it ws" and "extent ws < \<bar>incr ws\<bar>" and "barrier ws = next_it ws"
  shows "call_alone (bo_iter_fss_next fp n) batch_result f ws BCall = None"
proof -
  have "room ws = 0" using assms(1,3) by (simp add: room_def long_loop_def)
  then have left: "long_left ws (next_it ws) = 0" using room_exact(1) [OF assms(1)] by (simp add: long_left_def)
  have trap: "call_alone (bo_iter_fss_next fp n) batch_result g ws BTrap = None" for g
    by (induction g) (simp_all add: bo_iter_fss_next_def)
  have "batch_next (long_ops (\<lambda>ws R. fss_F fp n (param ws) R)) n ws (BTop (next_it ws) (next_it ws) c) = (ws, BTrap)" for c
    using assms(2) left by (simp add: long_ops_def fss_F_def)
  then have top: "call_alone (bo_iter_fss_next fp n) batch_result g ws (BTop (next_it ws) (next_it ws) c) = None" for g c
    using trap by (cases g) (simp_all add: bo_iter_fss_next_def)
  have "call_alone (bo_iter_fss_next fp n) batch_result g ws (BChunk (next_it ws) (next_it ws)) = None" for g
    using top by (cases g) (simp_all add: bo_iter_fss_next_def)
  then have "call_alone (bo_iter_fss_next fp n) batch_result g ws (BBarrier (next_it ws)) = None" for g
    using assms(4) by (cases g) (simp_all add: bo_iter_fss_next_def)
  then show ?thesis by (cases f) (simp_all add: bo_iter_fss_next_def)
qed

theorem fss_short_loop_traps_witness:
  "call_alone (bo_iter_fss_next \<lparr>pow_fn = \<lambda>x y. x, log_fn = \<lambda>x. x, ub_ulong = \<lambda>_. 0, ub_long = \<lambda>_. 0\<rparr> 4)
     batch_result 100 (ws_zero\<lparr>param := Fin 3, incr := 2, end_it := 1\<rparr>) BCall = None"
  by (rule fss_short_loop_traps) (simp_all add: ws_zero_def long_loop_def extent_def)

text \<open>
  On \<open>unsigned long long\<close> loops that count up, FAC2 and (without a partial last step) FSS
  are exact in every interleaving.
\<close>

theorem ull_batch_exact:
  assumes "chunked ws \<or> barrier ws = next_it ws" and "set is \<subseteq> {..<T}" and "ull_up ws"
  shows "exact_run (bo_iter_ull_fac2_next fp n) batch_result BCall (incr ws) T is ws
    \<and> ((end_it ws - next_it ws) mod incr ws = 0
        \<longrightarrow> exact_run (bo_iter_ull_fss_next fp n) batch_result BCall (incr ws) T is ws)"
  unfolding bo_iter_ull_fac2_next_def bo_iter_ull_fss_next_def
  using assms ull_fac2.run_exact [of ws "is" T] ull_fss.run_exact [of ws "is" T]
  by (auto simp: ull_fac2.ok_def ull_fss.ok_def ull_fss_good_def)

theorem ull_batch_exact_witness:
  "exact_run (bo_iter_ull_fss_next \<lparr>pow_fn = \<lambda>x y. x, log_fn = \<lambda>x. x, ub_ulong = \<lambda>_. 0, ub_long = \<lambda>_. 0\<rparr> 2)
     batch_result BCall 3 2 [0, 1, 0, 1, 1, 0, 0, 0, 0] (ws_zero\<lparr>param := Fin 2, incr := 3, end_it := 42\<rparr>)"
  using ull_batch_exact [of "ws_zero\<lparr>param := Fin 2, incr := 3, end_it := 42\<rparr>" "[0, 1, 0, 1, 1, 0, 0, 0, 0]" 2]
  by (simp add: ws_zero_def ull_up_def ull_fits_def ull_step_def u64_def)

text \<open>
  On \<open>unsigned long long\<close> loops that count down the schedules of \<open>schedules.h\<close> step the
  wrong way: a block that does not reach the end is computed as \<open>start + chunk * -incr\<close>, past
  the start of the loop and away from its end (\<open>gomp_iter_ull_guided_next\<close> adds \<open>chunk * incr\<close>).
\<close>

theorem ull_down_blocks_run_away:
  assumes "mode ws = 2" and "ull_fits (ull_step ws) ws" and "1 \<le> c" and "c < ull_left ws (next_it ws)"
    and "next_it ws + c * \<bar>ull_step ws\<bar> \<le> ULONG_MAX"
  shows "ull_nend ws (next_it ws) c = next_it ws + c * \<bar>ull_step ws\<bar> \<and> end_it ws < next_it ws"
proof -
  have s: "ull_step ws = incr ws - 2 ^ 64" using assms(1) by (simp add: ull_step_def)
  have F: "0 \<le> incr ws" "incr ws < 2 ^ 64" "incr ws = u64 (ull_step ws)" "is_ulong (next_it ws)"
    "\<bar>ull_step ws\<bar> \<le> ULONG_MAX" "0 \<le> sgn (ull_step ws) * (end_it ws - next_it ws)"
    using assms(2) by (auto simp: ull_fits_def)
  then have n: "ull_step ws < 0" using s by linarith
  have "u64 (- incr ws) = u64 (- ull_step ws)" unfolding F(3) by simp
  also have "\<dots> = \<bar>ull_step ws\<bar>" using n F(5) by (simp add: u64_id)
  finally have m: "u64 (- incr ws) = \<bar>ull_step ws\<bar>" .
  have "u64 (next_it ws + u64 (c * \<bar>ull_step ws\<bar>)) = next_it ws + c * \<bar>ull_step ws\<bar>"
    using assms(3,5) F(4) by (simp only: u64_add_u64) (intro u64_id, simp_all)
  then have "ull_nend ws (next_it ws) c = next_it ws + c * \<bar>ull_step ws\<bar>"
    using assms(1,4) unfolding ull_nend_def m by simp
  moreover have "end_it ws < next_it ws"
  proof (rule ccontr)
    assume "\<not> end_it ws < next_it ws"
    then have "end_it ws = next_it ws" using F(6) n by simp
    then have "ull_left ws (next_it ws) = 0" using assms(1) by (simp add: ull_left_def u64_def)
    then show False using assms(3,4) by simp
  qed
  ultimately show ?thesis by simp
qed

theorem ull_down_blocks_run_away_witness:
  "ull_nend (ws_zero\<lparr>mode := 2, incr := 2 ^ 64 - 1, next_it := 100, end_it := 0\<rparr>) 100 10 = 110"
  using ull_down_blocks_run_away [of "ws_zero\<lparr>mode := 2, incr := 2 ^ 64 - 1, next_it := 100, end_it := 0\<rparr>" 10]
  by (simp add: ull_fits_def ull_step_def ull_left_def u64_def ws_zero_def)

end
