(* ===== verification/Runtime.thy ===== *)
theory Runtime
  imports BatchSched
begin

text \<open>
  The state that the loop entry points share, and the life of work-share descriptors
  (\<open>gcc/libgomp/work.c\<close>, \<open>gomp_new_team\<close> of \<open>team.c\<close>, \<open>gomp_work_share_init_done\<close> of
  \<open>libgomp.h\<close>). Descriptors live at addresses of a store; \<open>next_ws\<close> (a pointer lock) and
  \<open>next_free\<close> are one word, as they are members of one union.
\<close>

subsection \<open>State\<close>

datatype ptr = Null | Held | Ref nat

text \<open>What the code calls in the tuner (\<open>bo_scheduling.h\<close>): calls with an effect are logged,
  calls with a result are a parameter.\<close>

datatype bo_call =
    BoBegin int int int | BoEnd int | BoIterationStart | BoIterationStop
  | BoProfileStart int | BoProfileStop

record bo_env =
  fpu :: fpenv
  bo_schedule_parameter :: "int \<Rightarrow> bool \<Rightarrow> dbl"
  bo_tape_parameter :: "int \<Rightarrow> dbl"
  bo_tss_parameter :: "int \<Rightarrow> dbl"
  bo_fss_parameter :: "int \<Rightarrow> dbl"
  bo_css_parameter :: "int \<Rightarrow> dbl"
  bo_fallback_static :: "int \<Rightarrow> bool \<Rightarrow> bool"
  bo_binlpt_load_loop :: "int \<Rightarrow> int list"
  bo_hss_load_loop :: "int \<Rightarrow> int list"

record thread =
  ctx :: thread_ctx
  ts_work_share :: ptr
  ts_last_work_share :: ptr
  single_seen :: int

record rt =
  store :: "nat \<Rightarrow> work_share"
  link :: "nat \<Rightarrow> ptr"
  next_alloc :: "nat \<Rightarrow> ptr"
  list_alloc :: ptr
  list_free :: ptr
  share_chunk :: int
  shares_to_free :: ptr
  heap_top :: nat
  released :: "nat list"
  team :: "int option"
  threads :: "nat \<Rightarrow> thread"
  ordered_release :: "nat \<Rightarrow> nat"
  single_count :: int
  calls :: "bo_call list"
  g_ntasks :: int
  g_tasks :: "int list"

text \<open>A call may abort, run into a trap (null dereference, division by zero) or block on
  another thread. Nothing else stops it.\<close>

datatype fault = Abort | Trap | Blocked

definition team_size :: "rt \<Rightarrow> int" where
  "team_size R = (case team R of None \<Rightarrow> 1 | Some n \<Rightarrow> n)"

definition set_link :: "nat \<Rightarrow> ptr \<Rightarrow> rt \<Rightarrow> rt" where
  "set_link a p R = R\<lparr>link := (link R)(a := p)\<rparr>"

definition set_share :: "nat \<Rightarrow> work_share \<Rightarrow> rt \<Rightarrow> rt" where
  "set_share a w R = R\<lparr>store := (store R)(a := w)\<rparr>"

definition set_thread :: "nat \<Rightarrow> thread \<Rightarrow> rt \<Rightarrow> rt" where
  "set_thread i t R = R\<lparr>threads := (threads R)(i := t)\<rparr>"

definition log_call :: "bo_call \<Rightarrow> rt \<Rightarrow> rt" where
  "log_call c R = R\<lparr>calls := calls R @ [c]\<rparr>"

text \<open>The descriptor a thread is working on.\<close>

definition with_share :: "nat \<Rightarrow> rt \<Rightarrow> (nat \<Rightarrow> work_share \<Rightarrow> fault + 'a) \<Rightarrow> fault + 'a" where
  "with_share i R f = (case ts_work_share (threads R i) of Ref a \<Rightarrow> f a (store R a) | _ \<Rightarrow> Inl Trap)"

definition bindE :: "fault + 'a \<Rightarrow> ('a \<Rightarrow> fault + 'b) \<Rightarrow> fault + 'b" where
  "bindE m f = (case m of Inl e \<Rightarrow> Inl e | Inr x \<Rightarrow> f x)"

lemma bindE_simps [simp]: "bindE (Inl e) f = Inl e" "bindE (Inr x) f = f x"
  by (simp_all add: bindE_def)

lemma set_simps [simp]:
  "link (set_link a p R) = (link R)(a := p)" "store (set_link a p R) = store R"
  "heap_top (set_link a p R) = heap_top R" "list_alloc (set_link a p R) = list_alloc R"
  "list_free (set_link a p R) = list_free R" "threads (set_link a p R) = threads R"
  "team (set_link a p R) = team R" "released (set_link a p R) = released R"
  "link (set_share a w R) = link R" "store (set_share a w R) = (store R)(a := w)"
  "heap_top (set_share a w R) = heap_top R" "list_alloc (set_share a w R) = list_alloc R"
  "list_free (set_share a w R) = list_free R" "threads (set_share a w R) = threads R"
  "team (set_share a w R) = team R" "released (set_share a w R) = released R"
  "link (set_thread i t R) = link R" "store (set_thread i t R) = store R"
  "heap_top (set_thread i t R) = heap_top R" "list_alloc (set_thread i t R) = list_alloc R"
  "list_free (set_thread i t R) = list_free R" "threads (set_thread i t R) = (threads R)(i := t)"
  "team (set_thread i t R) = team R" "released (set_thread i t R) = released R"
  "link (log_call c R) = link R" "store (log_call c R) = store R" "threads (log_call c R) = threads R"
  "team (log_call c R) = team R" "calls (log_call c R) = calls R @ [c]"
  by (simp_all add: set_link_def set_share_def set_thread_def log_call_def)

subsection \<open>Allocation of descriptors\<close>

text \<open>\<open>chain_from n b\<close> links \<open>b, b + 1, ..., b + n - 1\<close> and ends the list.\<close>

fun chain_from :: "nat \<Rightarrow> nat \<Rightarrow> rt \<Rightarrow> rt" where
  "chain_from 0 b R = R"
| "chain_from (Suc 0) b R = set_link b Null R"
| "chain_from (Suc (Suc n)) b R = chain_from (Suc n) (Suc b) (set_link b (Ref (Suc b)) R)"

definition alloc_work_share :: "rt \<Rightarrow> nat \<times> rt" where
  "alloc_work_share R =
    (case list_alloc R of
       Ref a \<Rightarrow> (a, R\<lparr>list_alloc := link R a\<rparr>)
     | _ \<Rightarrow>
       (let grow =
          (let n = nat (u32 (2 * share_chunk R)); b = heap_top R;
               R1 = R\<lparr>share_chunk := u32 (2 * share_chunk R), heap_top := b + n,
                      next_alloc := (next_alloc R)(b := next_alloc R 0, 0 := Ref b), list_alloc := Ref (b + 1)\<rparr>
           in (b, chain_from (n - 1) (b + 1) R1))
        in case list_free R of
             Ref f \<Rightarrow>
               (case link R f of
                  Ref nx \<Rightarrow> (nx, (set_link f Null R)\<lparr>list_alloc := link R nx\<rparr>)
                | _ \<Rightarrow> grow)
           | _ \<Rightarrow> grow))"

definition gomp_init_work_share :: "nat \<Rightarrow> bool \<Rightarrow> int \<Rightarrow> rt \<Rightarrow> rt" where
  "gomp_init_work_share a ordered nthreads R =
    (let w = store R a;
         w1 = (if ordered
               then w\<lparr>ordered_team_ids := replicate (nat nthreads) 0, ordered_num_used := 0,
                      ordered_owner := 2 ^ 32 - 1, ordered_cur := 0\<rparr>
               else w\<lparr>ordered_team_ids := [], doacross := None\<rparr>)
     in set_share a (w1\<lparr>threads_completed := 0\<rparr>) (set_link a Null R))"

text \<open>With a team the descriptor goes to the front of the team's free list; without one its
  memory is returned.\<close>

definition free_work_share :: "nat \<Rightarrow> rt \<Rightarrow> rt" where
  "free_work_share a R =
    (case team R of
       None \<Rightarrow> R\<lparr>released := a # released R\<rparr>
     | Some n \<Rightarrow> (set_link a (list_free R) R)\<lparr>list_free := Ref a\<rparr>)"

definition gomp_new_team :: "int \<Rightarrow> rt \<Rightarrow> rt" where
  "gomp_new_team nthreads R =
    (let R1 = R\<lparr>team := Some nthreads, share_chunk := 8, single_count := 0, shares_to_free := Ref 0,
                heap_top := max 8 (heap_top R), ordered_release := (ordered_release R)(0 := 0)\<rparr>;
         R2 = gomp_init_work_share 0 False nthreads R1
     in chain_from 7 1 (R2\<lparr>next_alloc := (next_alloc R2)(0 := Null), list_free := Null, list_alloc := Ref 1\<rparr>))"

subsection \<open>Starting and ending a construct\<close>

text \<open>\<open>gomp_ptrlock_get\<close>: a pointer, or null with the lock taken, or wait for the holder.\<close>

definition gomp_ptrlock_get :: "nat \<Rightarrow> rt \<Rightarrow> fault + nat option \<times> rt" where
  "gomp_ptrlock_get a R =
    (case link R a of
       Ref b \<Rightarrow> Inr (Some b, R)
     | Null \<Rightarrow> Inr (None, set_link a Held R)
     | Held \<Rightarrow> Inl Blocked)"

definition gomp_work_share_start :: "nat \<Rightarrow> bool \<Rightarrow> rt \<Rightarrow> fault + bool \<times> rt" where
  "gomp_work_share_start i ordered R =
    (let thr = threads R i in
     case team R of
       None \<Rightarrow>
         let a = heap_top R; R1 = gomp_init_work_share a ordered 1 (R\<lparr>heap_top := a + 1\<rparr>)
         in Inr (True, set_thread i (thr\<lparr>ts_work_share := Ref a\<rparr>) R1)
     | Some n \<Rightarrow>
         (case ts_work_share thr of
            Ref cur \<Rightarrow>
              let thr1 = thr\<lparr>ts_last_work_share := Ref cur\<rparr> in
              bindE (gomp_ptrlock_get cur R) (\<lambda>(nxt, R1).
                case nxt of
                  None \<Rightarrow>
                    (case alloc_work_share R1 of (a, R2) \<Rightarrow>
                       Inr (True, set_thread i (thr1\<lparr>ts_work_share := Ref a\<rparr>) (gomp_init_work_share a ordered n R2)))
                | Some a \<Rightarrow> Inr (False, set_thread i (thr1\<lparr>ts_work_share := Ref a\<rparr>) R1))
          | _ \<Rightarrow> Inl Trap))"

definition gomp_work_share_init_done :: "nat \<Rightarrow> rt \<Rightarrow> rt" where
  "gomp_work_share_init_done i R =
    (case ts_last_work_share (threads R i) of
       Ref l \<Rightarrow> set_link l (ts_work_share (threads R i)) R
     | _ \<Rightarrow> R)"

text \<open>The end of a construct; \<open>is_last\<close> is the verdict of the barrier, whether this thread is the
  last to arrive.\<close>

definition gomp_work_share_end :: "nat \<Rightarrow> int \<Rightarrow> bool \<Rightarrow> rt \<Rightarrow> fault + rt" where
  "gomp_work_share_end i region is_last R =
    (let thr = threads R i in
     case team R of
       None \<Rightarrow>
         (case ts_work_share thr of
            Ref a \<Rightarrow> Inr (set_thread i (thr\<lparr>ts_work_share := Null\<rparr>) (free_work_share a R))
          | _ \<Rightarrow> Inl Trap)
     | Some n \<Rightarrow>
         let R1 = (if is_last then
                     let R2 = (case ts_last_work_share thr of
                                 Ref l \<Rightarrow> free_work_share l (R\<lparr>shares_to_free := ts_work_share thr\<rparr>)
                               | _ \<Rightarrow> R)
                     in log_call (BoEnd region) R2
                   else R)
         in Inr (set_thread i (thr\<lparr>ts_last_work_share := Null\<rparr>) R1))"

text \<open>The cancellable version returns whether the construct was cancelled, which the barrier
  tells.\<close>

definition gomp_work_share_end_cancel :: "nat \<Rightarrow> int \<Rightarrow> bool \<Rightarrow> bool \<Rightarrow> rt \<Rightarrow> bool \<times> rt" where
  "gomp_work_share_end_cancel i region is_last cancelled R =
    (let thr = threads R i;
         R1 = (if is_last then
                 (case ts_last_work_share thr of
                    Ref l \<Rightarrow> log_call (BoEnd region) (free_work_share l (R\<lparr>shares_to_free := ts_work_share thr\<rparr>))
                  | _ \<Rightarrow> R)
               else R)
     in (cancelled, set_thread i (thr\<lparr>ts_last_work_share := Null\<rparr>) R1))"

definition gomp_work_share_end_nowait :: "nat \<Rightarrow> int \<Rightarrow> rt \<Rightarrow> fault + rt" where
  "gomp_work_share_end_nowait i region R =
    (let thr = threads R i in
     case ts_work_share thr of
       Ref a \<Rightarrow>
         (case team R of
            None \<Rightarrow> Inr (log_call (BoEnd region) (set_thread i (thr\<lparr>ts_work_share := Null\<rparr>) (free_work_share a R)))
          | Some n \<Rightarrow>
              let completed = u32 (threads_completed (store R a) + 1);
                  R1 = set_share a ((store R a)\<lparr>threads_completed := completed\<rparr>) R
              in case ts_last_work_share thr of
                   Ref l \<Rightarrow>
                     let R2 = (if completed = n
                               then log_call (BoEnd region) (free_work_share l (R1\<lparr>shares_to_free := Ref a\<rparr>))
                               else R1)
                     in Inr (set_thread i (thr\<lparr>ts_last_work_share := Null\<rparr>) R2)
                 | _ \<Rightarrow> Inr R1)
     | _ \<Rightarrow> Inl Trap)"


subsection \<open>The free lists\<close>

text \<open>\<open>chain l p xs\<close>: following \<open>l\<close> from \<open>p\<close> visits \<open>xs\<close> and ends. \<open>pools R as fs us\<close>: the
  allocation list is \<open>as\<close>, the free list is \<open>fs\<close>, and they are disjoint from each other and from
  the descriptors in use, \<open>us\<close>.\<close>

fun chain :: "(nat \<Rightarrow> ptr) \<Rightarrow> ptr \<Rightarrow> nat list \<Rightarrow> bool" where
  "chain l Null [] = True"
| "chain l (Ref a) (b # bs) = (a = b \<and> chain l (l a) bs)"
| "chain l _ _ = False"

definition pools :: "rt \<Rightarrow> nat list \<Rightarrow> nat list \<Rightarrow> nat list \<Rightarrow> bool" where
  "pools R as fs us \<longleftrightarrow> chain (link R) (list_alloc R) as \<and> chain (link R) (list_free R) fs
     \<and> distinct (as @ fs @ us) \<and> set (as @ fs @ us) \<subseteq> {..<heap_top R}
     \<and> 1 \<le> share_chunk R \<and> share_chunk R < 2 ^ 31"

lemma chain_NullD [simp]: "chain l Null xs = (xs = [])" by (cases xs) auto
lemma chain_HeldD [simp]: "\<not> chain l Held xs" by (cases xs) auto
lemma chain_Ref: "chain l (Ref a) xs \<longleftrightarrow> (\<exists>ys. xs = a # ys \<and> chain l (l a) ys)" by (cases xs) auto

lemma chain_frame: "(\<And>a. a \<in> set xs \<Longrightarrow> l' a = l a) \<Longrightarrow> chain l' p xs = chain l p xs"
proof (induction xs arbitrary: p)
  case Nil
  then show ?case by (cases p) auto
next
  case (Cons x xs)
  then show ?case by (cases p) auto
qed

lemma chain_upd: "a \<notin> set xs \<Longrightarrow> chain (l(a := q)) p xs = chain l p xs"
  by (rule chain_frame) auto

lemma pools_set_used:
  assumes "pools R as fs us" and "c \<in> set us"
  shows "pools (set_link c q R) as fs us"
proof -
  have "c \<notin> set as" "c \<notin> set fs" using assms by (auto simp: pools_def)
  then show ?thesis using assms(1) by (simp add: pools_def chain_upd set_link_def)
qed

lemma chain_from_frame [simp]:
  "list_alloc (chain_from n b R) = list_alloc R" "list_free (chain_from n b R) = list_free R"
  "heap_top (chain_from n b R) = heap_top R" "share_chunk (chain_from n b R) = share_chunk R"
  "threads (chain_from n b R) = threads R" "team (chain_from n b R) = team R" "store (chain_from n b R) = store R"
  by (induction n b R rule: chain_from.induct) (simp_all add: set_link_def)

lemma chain_from_outside: "a < b \<or> b + n \<le> a \<Longrightarrow> link (chain_from n b R) a = link R a"
  by (induction n b R rule: chain_from.induct) auto

lemma chain_from_chain: "0 < n \<Longrightarrow> chain (link (chain_from n b R)) (Ref b) [b..<b + n]"
proof (induction n b R rule: chain_from.induct)
  case (3 n b R)
  have "link (chain_from (Suc n) (Suc b) (set_link b (Ref (Suc b)) R)) b = Ref (Suc b)"
    using chain_from_outside [of b "Suc b" "Suc n"] by simp
  then show ?case using 3 by (simp add: upt_conv_Cons del: upt_Suc)
qed simp_all

lemma alloc_work_share_pools:
  assumes "pools R as fs us" and "share_chunk R < 2 ^ 30" and "alloc_work_share R = (a, R')"
  shows "(\<exists>as' fs'. pools R' as' fs' (a # us)) \<and> (\<forall>u \<in> set us. link R' u = link R u)"
proof (cases as)
  case (Cons x xs)
  then have "list_alloc R = Ref x" using assms(1) by (cases "list_alloc R") (auto simp: pools_def)
  then have "a = x" "R' = R\<lparr>list_alloc := link R x\<rparr>" using assms(3) by (auto simp: alloc_work_share_def)
  then show ?thesis using assms(1) Cons \<open>list_alloc R = Ref x\<close>
    by (intro conjI exI [of _ xs] exI [of _ fs]) (auto simp: pools_def)
next
  case Nil
  then have la: "list_alloc R = Null" using assms(1) by (cases "list_alloc R") (auto simp: pools_def)
  define b where "b = heap_top R"
  define n where "n = nat (u32 (2 * share_chunk R))"
  define R1 where "R1 = R\<lparr>share_chunk := u32 (2 * share_chunk R), heap_top := b + n,
      next_alloc := (next_alloc R)(b := next_alloc R 0, 0 := Ref b), list_alloc := Ref (b + 1)\<rparr>"
  have sc: "1 \<le> share_chunk R" using assms(1) by (simp add: pools_def)
  then have u: "u32 (2 * share_chunk R) = 2 * share_chunk R" using assms(2) by (intro u32_id) auto
  then have n: "2 \<le> n" using sc by (simp add: n_def)
  have grow: ?thesis if "(a, R') = (b, chain_from (n - 1) (b + 1) R1)"
  proof -
    have e: "b + 1 + (n - 1) = b + n" using n by simp
    have low: "\<forall>x \<in> set (fs @ us). x < b" using assms(1) by (auto simp: pools_def b_def)
    then have nb: "b \<notin> set fs" "b \<notin> set us" "set us \<inter> {b + 1..<b + n} = {}" "set fs \<inter> {b + 1..<b + n} = {}"
      by (auto simp: disjoint_iff) (metis Un_iff Suc_leD leD)+
    have up: "\<forall>x \<in> set (fs @ us). x < b + n" using low by (meson trans_less_add1)
    have lnk: "link R' x = link R x" if "x < b" for x
      using \<open>(a, R') = _\<close> that by (simp add: chain_from_outside R1_def)
    have "chain (link R') (Ref (b + 1)) [b + 1..<b + n]"
      using chain_from_chain [of "n - 1" "b + 1" R1] n that unfolding e by simp
    moreover have "chain (link R') (list_free R) fs \<longleftrightarrow> chain (link R) (list_free R) fs"
      using lnk low by (intro chain_frame) auto
    moreover have "list_alloc R' = Ref (b + 1)" "list_free R' = list_free R" "heap_top R' = b + n" "a = b"
      "share_chunk R' = 2 * share_chunk R"
      using that u by (simp_all add: R1_def)
    moreover have "chain (link R) (list_free R) fs" "distinct fs" "distinct us" "set fs \<inter> set us = {}"
      using assms(1) by (auto simp: pools_def)
    ultimately have "pools R' [b + 1..<b + n] fs (a # us)"
      using assms(2) nb up sc n unfolding pools_def by (auto simp del: upt_Suc)
    then show ?thesis using lnk low by auto
  qed
  show ?thesis
  proof (cases "\<exists>f nx. list_free R = Ref f \<and> link R f = Ref nx")
    case True
    then obtain f nx where f: "list_free R = Ref f" "link R f = Ref nx" by blast
    then obtain fs' where fs: "fs = f # nx # fs'" "chain (link R) (link R nx) fs'"
      using assms(1) by (auto simp: pools_def chain_Ref)
    have d: "f \<noteq> nx" "f \<notin> set fs'" using assms(1) fs by (auto simp: pools_def)
    have "a = nx" "R' = (set_link f Null R)\<lparr>list_alloc := link R nx\<rparr>"
      using assms(3) la f by (auto simp: alloc_work_share_def)
    then show ?thesis using assms(1) Nil fs f d
      by (intro conjI exI [of _ fs'] exI [of _ "[f]"]) (auto simp: pools_def chain_upd set_link_def)
  next
    case False
    then have "(a, R') = (b, chain_from (n - 1) (b + 1) R1)"
      using assms(3) la by (auto simp: alloc_work_share_def Let_def R1_def b_def n_def split: ptr.splits)
    then show ?thesis by (rule grow)
  qed
qed


text \<open>A team of \<open>n\<close> threads that have just been started, for the witnesses.\<close>

definition new_team_example :: "int \<Rightarrow> rt" where
  "new_team_example n = gomp_new_team n \<lparr>store = \<lambda>_. ws_zero, link = \<lambda>_. Null, next_alloc = \<lambda>_. Null,
     list_alloc = Null, list_free = Null, share_chunk = 0, shares_to_free = Null, heap_top = 0, released = [],
     team = None, threads = \<lambda>i. \<lparr>ctx = \<lparr>team_nthreads = Some n, team_id = int i, static_trip = 0\<rparr>,
       ts_work_share = Ref 0, ts_last_work_share = Null, single_seen = 0\<rparr>,
     ordered_release = \<lambda>_. 0, single_count = 0, calls = [], g_ntasks = 0, g_tasks = []\<rparr>"

lemma new_team_example_pools: "pools (new_team_example 4) [1, 2, 3, 4, 5, 6, 7] [] [0]"
  "share_chunk (new_team_example 4) < 2 ^ 30" "team (new_team_example 4) = Some 4"
  by code_simp+

text \<open>
  \<open>alloc_work_share\<close> returns a descriptor that nobody uses and takes it off the lists,
  whichever of its three sources serves the request (the allocation list, the tail of the free
  list, fresh memory): the lists stay well formed, disjoint from each other and from the
  descriptors in use.
\<close>

theorem alloc_work_share_fresh:
  assumes "pools R as fs us" and "share_chunk R < 2 ^ 30" and "alloc_work_share R = (a, R')"
  shows "a \<notin> set us \<and> (\<exists>as' fs'. pools R' as' fs' (a # us))"
  using alloc_work_share_pools [OF assms] by (auto simp: pools_def)

theorem alloc_work_share_fresh_witness:
  "fst (alloc_work_share (new_team_example 4)) \<notin> set [0]"
proof -
  show ?thesis using alloc_work_share_fresh [OF new_team_example_pools(1,2)] by (metis prod.collapse)
qed

text \<open>
  Returning a descriptor (\<open>free_work_share\<close>, with a team) puts it at the front of the free
  list and keeps the lists well formed; nothing else becomes free.
\<close>

theorem free_work_share_pools:
  assumes "pools R as fs us" and "a \<in> set us" and "team R \<noteq> None"
  shows "pools (free_work_share a R) as (a # fs) (remove1 a us)"
proof -
  have d: "a \<notin> set as" "a \<notin> set fs" "distinct us" using assms(1,2) by (auto simp: pools_def)
  then show ?thesis using assms
    by (auto simp: pools_def free_work_share_def chain_upd set_link_def dest: notin_set_remove1 in_set_remove1)
qed

theorem free_work_share_pools_witness:
  "pools (free_work_share 0 (new_team_example 4)) [1, 2, 3, 4, 5, 6, 7] [0] []"
proof -
  show ?thesis using free_work_share_pools [OF new_team_example_pools(1), of 0] new_team_example_pools(3) by simp
qed

subsection \<open>The threads of a team at one construct\<close>

text \<open>\<open>c\<close> is the descriptor of the previous construct, from which the threads arrive. Nobody has been there yet:\<close>

definition unvisited :: "nat \<Rightarrow> rt \<Rightarrow> bool" where
  "unvisited c R \<longleftrightarrow> team R \<noteq> None \<and> link R c = Null \<and> (\<exists>as fs us. pools R as fs us \<and> c \<in> set us) \<and> share_chunk R < 2 ^ 30"

text \<open>What happens at the construct: threads arrive, in any order; the one that was told to set the share up
  publishes it; and anything else happens in between that leaves the link of \<open>c\<close> alone, and, as long as
  the share has not been published, the pointers of the thread that sets it up. The list holds, for each arrival,
  the thread, the answer and the descriptor that it got.\<close>

inductive arrivals :: "nat \<Rightarrow> bool \<Rightarrow> rt \<Rightarrow> (nat \<times> bool \<times> ptr) list \<Rightarrow> bool" for c ordered where
  fresh: "unvisited c R \<Longrightarrow> arrivals c ordered R []"
| arrive: "arrivals c ordered R got \<Longrightarrow> ts_work_share (threads R j) = Ref c \<Longrightarrow> gomp_work_share_start j ordered R = Inr (b, R')
    \<Longrightarrow> arrivals c ordered R' (got @ [(j, b, ts_work_share (threads R' j))])"
| publish: "arrivals c ordered R got \<Longrightarrow> got = (i, p) # rest \<Longrightarrow> link R c = Held
    \<Longrightarrow> arrivals c ordered (gomp_work_share_init_done i R) got"
| elsewhere: "arrivals c ordered R got \<Longrightarrow> team R' = team R \<Longrightarrow> link R' c = link R c \<Longrightarrow> (got = [] \<Longrightarrow> unvisited c R')
    \<Longrightarrow> (\<And>i p rest. got = (i, p) # rest \<Longrightarrow> link R c = Held
          \<Longrightarrow> ts_work_share (threads R' i) = ts_work_share (threads R i) \<and> ts_last_work_share (threads R' i) = ts_last_work_share (threads R i))
    \<Longrightarrow> arrivals c ordered R' got"

text \<open>The first arrival.\<close>

lemma start_first:
  assumes u: "unvisited c R" and j: "ts_work_share (threads R j) = Ref c"
  obtains a R' where "gomp_work_share_start j ordered R = Inr (True, R')" "team R' = team R" "link R' c = Held"
    "ts_work_share (threads R' j) = Ref a" "ts_last_work_share (threads R' j) = Ref c"
proof -
  obtain n as fs us where R: "team R = Some n" "link R c = Null" "pools R as fs us" "c \<in> set us" "share_chunk R < 2 ^ 30"
    using u by (auto simp: unvisited_def)
  obtain a Ra where al: "alloc_work_share (set_link c Held R) = (a, Ra)" by fastforce
  let ?R' = "set_thread j ((threads R j)\<lparr>ts_last_work_share := Ref c, ts_work_share := Ref a\<rparr>) (gomp_init_work_share a ordered n Ra)"
  have st: "gomp_work_share_start j ordered R = Inr (True, ?R')"
    using R(1,2) j al by (simp add: gomp_work_share_start_def gomp_ptrlock_get_def Let_def)
  have fr: "team Ra = team R" using al by (auto simp: alloc_work_share_def Let_def split: ptr.splits)
  have "pools (set_link c Held R) as fs us" using R(3,4) by (rule pools_set_used)
  from alloc_work_share_pools [OF this _ al] R(4,5)
  have ac: "a \<noteq> c" "link Ra c = Held" by (auto simp: pools_def set_link_def)
  have "team ?R' = team R" "link ?R' c = Held" using ac fr by (simp_all add: gomp_init_work_share_def Let_def)
  then show thesis using that [OF st] by simp
qed

lemma arrivals_inv:
  assumes "arrivals c ordered R got"
  shows "if got = [] then unvisited c R
    else \<exists>i a rest. got = (i, True, Ref a) # rest \<and> (\<forall>(j, b, p) \<in> set rest. \<not> b \<and> p = Ref a) \<and> team R \<noteq> None
      \<and> (if link R c = Held then ts_work_share (threads R i) = Ref a \<and> ts_last_work_share (threads R i) = Ref c else link R c = Ref a)"
  using assms
proof (induction rule: arrivals.induct)
  case (fresh R)
  then show ?case by simp
next
  case (arrive R got j b R')
  show ?case
  proof (cases "got = []")
    case True
    then have u: "unvisited c R" using arrive.IH by simp
    show ?thesis by (rule start_first [OF u arrive.hyps(2), of ordered]) (use arrive.hyps(3) True u in \<open>auto simp: unvisited_def\<close>)
  next
    case False
    then obtain i a rest where l: "got = (i, True, Ref a) # rest" "\<forall>(j, b, p) \<in> set rest. \<not> b \<and> p = Ref a" "team R \<noteq> None"
      "if link R c = Held then ts_work_share (threads R i) = Ref a \<and> ts_last_work_share (threads R i) = Ref c else link R c = Ref a"
      using arrive.IH by auto
    obtain n where n: "team R = Some n" using l(3) by blast
    have la: "link R c = Ref a"
    proof (cases "link R c = Held")
      case True
      then have "gomp_work_share_start j ordered R = Inl Blocked" using n arrive.hyps(2)
        by (simp add: gomp_work_share_start_def gomp_ptrlock_get_def Let_def)
      then show ?thesis using arrive.hyps(3) by simp
    qed (use l(4) in simp)
    then have "gomp_work_share_start j ordered R
        = Inr (False, set_thread j ((threads R j)\<lparr>ts_last_work_share := Ref c, ts_work_share := Ref a\<rparr>) R)"
      using n arrive.hyps(2) by (simp add: gomp_work_share_start_def gomp_ptrlock_get_def Let_def)
    then have "b = False" "R' = set_thread j ((threads R j)\<lparr>ts_last_work_share := Ref c, ts_work_share := Ref a\<rparr>) R"
      using arrive.hyps(3) by simp_all
    then show ?thesis using l(1,2) n la by simp
  qed
next
  case (publish R got i p rest)
  then show ?case by (auto simp: gomp_work_share_init_done_def)
next
  case (elsewhere R got R')
  show ?case
  proof (cases "got = []")
    case True
    then show ?thesis using elsewhere.hyps(4) by simp
  next
    case False
    then obtain i a rest where l: "got = (i, True, Ref a) # rest" "\<forall>(j, b, p) \<in> set rest. \<not> b \<and> p = Ref a" "team R \<noteq> None"
      "if link R c = Held then ts_work_share (threads R i) = Ref a \<and> ts_last_work_share (threads R i) = Ref c else link R c = Ref a"
      using elsewhere.IH by auto
    then show ?thesis using elsewhere.hyps(2,3) elsewhere.hyps(5) [OF l(1)] by auto
  qed
qed

text \<open>
  C18. One descriptor for each construct: of the threads of a team that arrive at a construct from the
  descriptor \<open>c\<close> of the previous one, in any order and with anything else of the team in between
  (\<open>arrivals\<close>), the first is told to set the share up, and each later one is told not to and gets the descriptor
  of the first. The next thread to arrive is never lost: before the first it will be the first;
  until that one has published the share it waits at the pointer lock; after that it gets the share. Assumed:
  \<open>c\<close> is not recycled meanwhile, at the first arrival the pools of descriptors are well formed (\<open>pools\<close>)
  and the next block of new ones has fewer than \<open>2 ^ 31\<close>, and nobody touches the pointers of the thread that sets up.
\<close>

theorem work_share_start_once:
  assumes "arrivals c ordered R got"
  shows "case got of
      [] \<Rightarrow> \<forall>j. ts_work_share (threads R j) = Ref c \<longrightarrow> (\<exists>R'. gomp_work_share_start j ordered R = Inr (True, R'))
    | (i, b, p) # later \<Rightarrow> b \<and> (\<forall>(j, b', p') \<in> set later. \<not> b' \<and> p' = p)
        \<and> (\<forall>j. ts_work_share (threads R j) = Ref c \<longrightarrow>
             (if link R c = Held then gomp_work_share_start j ordered R = Inl Blocked
              else \<exists>R'. gomp_work_share_start j ordered R = Inr (False, R') \<and> ts_work_share (threads R' j) = p))"
proof (cases got)
  case Nil
  then have "unvisited c R" using arrivals_inv [OF assms] by simp
  then show ?thesis using start_first [of c R _ ordered] Nil by fastforce
next
  case (Cons x later)
  then show ?thesis using arrivals_inv [OF assms]
    by (auto simp: gomp_work_share_start_def gomp_ptrlock_get_def Let_def split: if_splits)
qed

theorem work_share_start_once_witness:
  "gomp_work_share_start 3 False (snd (projr (gomp_work_share_start 0 False (new_team_example 4)))) = Inl Blocked"
proof -
  let ?R = "new_team_example 4"
  have at: "ts_work_share (threads ?R i) = Ref 0" for i
    by (simp add: new_team_example_def gomp_new_team_def gomp_init_work_share_def Let_def)
  have "link ?R 0 = Null" by code_simp
  then have u: "unvisited 0 ?R" using new_team_example_pools unfolding unvisited_def
    by (intro conjI exI [of _ "[1, 2, 3, 4, 5, 6, 7]"] exI [of _ "[]"] exI [of _ "[0]"]) simp_all
  obtain R1 where s: "gomp_work_share_start 0 False ?R = Inr (True, R1)"
    using work_share_start_once [OF arrivals.fresh [OF u], of False] at by auto
  have a: "arrivals 0 False R1 ([] @ [(0, True, ts_work_share (threads R1 0))])"
    by (rule arrivals.arrive [OF arrivals.fresh [OF u] at s])
  have "case gomp_work_share_start 0 False ?R of Inr (b, R2) \<Rightarrow> link R2 0 = Held \<and> ts_work_share (threads R2 3) = Ref 0 | _ \<Rightarrow> False"
    by code_simp
  then have "link R1 0 = Held" "ts_work_share (threads R1 3) = Ref 0" by (simp_all add: s)
  then show ?thesis using work_share_start_once [OF a] by (simp add: s)
qed

end
