(* ===== verification/Ordered.thy ===== *)
theory Ordered
  imports Runtime
begin

text \<open>
  The ORDERED construct (\<open>gcc/libgomp/ordered.c\<close>): a circular queue of thread numbers in the
  descriptor and one release semaphore for each thread. The queue is refined to a list and the
  protocol of a dynamic or guided loop (register, synchronise, move on, leave) to a token that
  walks along that list.
\<close>

subsection \<open>Operations\<close>

text \<open>Each operation acts on the descriptor and the semaphores; \<open>n\<close> is \<open>team->nthreads\<close> and
  \<open>tid\<close> the caller's \<open>team_id\<close>. An orphaned construct and a team of one return at once.\<close>

type_synonym sems = "nat \<Rightarrow> nat"

definition sem_post :: "int \<Rightarrow> sems \<Rightarrow> sems" where "sem_post t s = s(nat t := Suc (s (nat t)))"

text \<open>The first free place of the circular array, and the place after the head.\<close>

definition ordered_tail :: "int \<Rightarrow> work_share \<Rightarrow> int" where
  "ordered_tail n ws =
    (let index = u32 (ordered_cur ws + ordered_num_used ws) in if index \<ge> n then u32 (index - n) else index)"

definition ordered_succ :: "int \<Rightarrow> work_share \<Rightarrow> int" where
  "ordered_succ n ws = (let index = u32 (ordered_cur ws + 1) in if index = n then 0 else index)"

definition gomp_ordered_first :: "int option \<Rightarrow> int \<Rightarrow> work_share \<times> sems \<Rightarrow> work_share \<times> sems" where
  "gomp_ordered_first tm tid S =
    (case tm of None \<Rightarrow> S
     | Some n \<Rightarrow>
       if n = 1 then S
       else
         let (ws, sm) = S;
             ws1 = ws\<lparr>ordered_team_ids := (ordered_team_ids ws)[nat (ordered_tail n ws) := tid]\<rparr>
         in (ws1\<lparr>ordered_num_used := u32 (ordered_num_used ws1 + 1)\<rparr>,
             if ordered_num_used ws1 = 0 then sem_post tid sm else sm))"

definition gomp_ordered_last :: "int option \<Rightarrow> int \<Rightarrow> work_share \<times> sems \<Rightarrow> work_share \<times> sems" where
  "gomp_ordered_last tm tid S =
    (case tm of None \<Rightarrow> S
     | Some n \<Rightarrow>
       if n = 1 then S
       else
         let (ws, sm) = S;
             used = u32 (ordered_num_used ws - 1);
             ws1 = ws\<lparr>ordered_owner := u32 (- 1), ordered_num_used := used\<rparr>
         in if used > 0 then
              let nxt = ordered_succ n ws1;
                  ws2 = ws1\<lparr>ordered_cur := nxt\<rparr>
              in (ws2, sem_post (ordered_team_ids ws2 ! nat nxt) sm)
            else (ws1, sm))"

definition gomp_ordered_next :: "int option \<Rightarrow> int \<Rightarrow> work_share \<times> sems \<Rightarrow> work_share \<times> sems" where
  "gomp_ordered_next tm tid S =
    (case tm of None \<Rightarrow> S
     | Some n \<Rightarrow>
       if n = 1 then S
       else
         let (ws0, sm) = S; ws = ws0\<lparr>ordered_owner := u32 (- 1)\<rparr>
         in if ordered_num_used ws = 1 then (ws, sem_post tid sm)
            else
              let ws1 =
                    (if ordered_num_used ws < n
                     then ws\<lparr>ordered_team_ids := (ordered_team_ids ws)[nat (ordered_tail n ws) := tid]\<rparr>
                     else ws);
                  index = ordered_succ n ws1;
                  ws2 = ws1\<lparr>ordered_cur := index\<rparr>
              in (ws2, sem_post (ordered_team_ids ws2 ! nat index) sm))"

definition gomp_ordered_static_init :: "int option \<Rightarrow> work_share \<times> sems \<Rightarrow> work_share \<times> sems" where
  "gomp_ordered_static_init tm S =
    (case tm of None \<Rightarrow> S | Some n \<Rightarrow> if n = 1 then S else (fst S, sem_post 0 (snd S)))"

definition gomp_ordered_static_next :: "int option \<Rightarrow> int \<Rightarrow> work_share \<times> sems \<Rightarrow> work_share \<times> sems" where
  "gomp_ordered_static_next tm tid S =
    (case tm of None \<Rightarrow> S
     | Some n \<Rightarrow>
       if n = 1 then S
       else
         let (ws, sm) = S; id0 = u32 (tid + 1); nid = (if id0 = n then 0 else id0)
         in (ws\<lparr>ordered_owner := u32 (- 1), ordered_team_ids := (ordered_team_ids ws)[0 := nid]\<rparr>, sem_post nid sm))"

text \<open>\<open>None\<close>: the caller sleeps on its semaphore.\<close>

definition gomp_ordered_sync :: "int option \<Rightarrow> int \<Rightarrow> work_share \<times> sems \<Rightarrow> (work_share \<times> sems) option" where
  "gomp_ordered_sync tm tid S =
    (case tm of None \<Rightarrow> Some S
     | Some n \<Rightarrow>
       if n = 1 then Some S
       else
         let (ws, sm) = S
         in if ordered_owner ws \<noteq> tid then
              if sm (nat tid) = 0 then None
              else Some (ws\<lparr>ordered_owner := tid\<rparr>, sm(nat tid := sm (nat tid) - 1))
            else Some S)"

subsection \<open>The queue\<close>

definition slot :: "int \<Rightarrow> work_share \<Rightarrow> nat \<Rightarrow> nat" where
  "slot n ws j = nat ((ordered_cur ws + int j) mod n)"

definition ordered_queue :: "int \<Rightarrow> work_share \<Rightarrow> int list" where
  "ordered_queue n ws = map (\<lambda>j. ordered_team_ids ws ! slot n ws j) [0..<nat (ordered_num_used ws)]"

definition queue_ok :: "int \<Rightarrow> work_share \<Rightarrow> bool" where
  "queue_ok n ws \<longleftrightarrow> 2 \<le> n \<and> n < 2 ^ 31 \<and> length (ordered_team_ids ws) = nat n
     \<and> 0 \<le> ordered_cur ws \<and> ordered_cur ws < n \<and> 0 \<le> ordered_num_used ws \<and> ordered_num_used ws \<le> n"

lemma wrap_index:
  fixes n c j :: int
  assumes "0 \<le> c" and "c < n" and "0 \<le> j" and "j \<le> n"
  shows "(c + j) mod n = (if c + j \<ge> n then c + j - n else c + j)"
proof (cases "c + j \<ge> n")
  case True
  have "(c + j) mod n = (c + j - n) mod n" by simp
  also have "\<dots> = c + j - n" using True assms by (intro mod_pos_pos_trivial) auto
  finally show ?thesis using True by simp
qed (use assms in simp)

lemma slot_inj:
  assumes "0 \<le> c" and "c < n" and "0 \<le> i" "i < n" and "0 \<le> j" "j < n" and "(c + i) mod n = (c + j) mod (n::int)"
  shows "i = j"
  using assms wrap_index [of c n i] wrap_index [of c n j] by (auto split: if_splits)

lemma tail_index:
  assumes "queue_ok n ws" and "ordered_num_used ws < n"
  shows "ordered_tail n ws = (ordered_cur ws + ordered_num_used ws) mod n"
  using assms wrap_index [of "ordered_cur ws" n "ordered_num_used ws"]
  by (auto simp: queue_ok_def u32_id Let_def ordered_tail_def)

lemma succ_index:
  assumes "0 \<le> ordered_cur ws" and "ordered_cur ws < n" and "2 \<le> n" and "n < 2 ^ 31"
  shows "ordered_succ n ws = (ordered_cur ws + 1) mod n"
  using assms wrap_index [of "ordered_cur ws" n 1] by (auto simp: u32_id Let_def ordered_succ_def)

lemma queue_write:
  assumes "queue_ok n ws" and "ordered_num_used ws < n"
  shows "map (\<lambda>j. (ordered_team_ids ws)[nat ((ordered_cur ws + ordered_num_used ws) mod n) := t] ! slot n ws j)
      [0..<Suc (nat (ordered_num_used ws))] = ordered_queue n ws @ [t]"
proof -
  let ?m = "nat (ordered_num_used ws)" let ?p = "nat ((ordered_cur ws + ordered_num_used ws) mod n)"
  have Q: "2 \<le> n" "length (ordered_team_ids ws) = nat n" "0 \<le> ordered_cur ws" "ordered_cur ws < n" "0 \<le> ordered_num_used ws"
    using assms(1) by (auto simp: queue_ok_def)
  have p: "slot n ws ?m = ?p" using Q by (simp add: slot_def)
  have pn: "?p < length (ordered_team_ids ws)" using Q by (simp add: nat_less_iff)
  have "?p \<noteq> slot n ws j" if "j < ?m" for j
  proof
    assume "?p = slot n ws j"
    then have "(ordered_cur ws + int j) mod n = (ordered_cur ws + ordered_num_used ws) mod n"
      using Q by (simp add: slot_def eq_nat_nat_iff eq_commute)
    moreover have "int j < ordered_num_used ws" using that Q by simp
    ultimately show False using slot_inj [of "ordered_cur ws" n "int j" "ordered_num_used ws"] Q assms(2) by simp
  qed
  then show ?thesis using p pn by (simp add: ordered_queue_def)
qed

lemma queue_Cons:
  assumes "queue_ok n ws" and "0 < ordered_num_used ws"
  shows "ordered_queue n ws = ordered_team_ids ws ! nat (ordered_cur ws) #
    map (\<lambda>j. ordered_team_ids ws ! slot n (ws\<lparr>ordered_cur := (ordered_cur ws + 1) mod n\<rparr>) j) [0..<nat (ordered_num_used ws - 1)]"
proof -
  have Q: "2 \<le> n" "0 \<le> ordered_cur ws" "ordered_cur ws < n" using assms(1) by (auto simp: queue_ok_def)
  have "[0..<nat (ordered_num_used ws)] = 0 # map Suc [0..<nat (ordered_num_used ws - 1)]"
  proof -
    have "nat (ordered_num_used ws) = Suc (nat (ordered_num_used ws - 1))" using assms(2) by simp
    then show ?thesis by (simp add: upt_conv_Cons map_Suc_upt del: upt_Suc)
  qed
  moreover have "slot n ws (Suc j) = slot n (ws\<lparr>ordered_cur := (ordered_cur ws + 1) mod n\<rparr>) j" for j
    by (simp add: slot_def mod_add_left_eq add.assoc)
  moreover have "slot n ws 0 = nat (ordered_cur ws)" using Q by (simp add: slot_def)
  ultimately show ?thesis by (simp add: ordered_queue_def)
qed

lemma queue_len: "queue_ok n ws \<Longrightarrow> length (ordered_queue n ws) = nat (ordered_num_used ws)"
  by (simp add: ordered_queue_def)

lemma queue_empty: "queue_ok n ws \<Longrightarrow> ordered_queue n ws = [] \<longleftrightarrow> ordered_num_used ws = 0"
  by (auto simp: ordered_queue_def queue_ok_def)

text \<open>Registering appends the caller, and wakes it if it is alone.\<close>

lemma first_queue:
  assumes "queue_ok n ws" and "ordered_num_used ws < n" and "gomp_ordered_first (Some n) tid (ws, sm) = (ws', sm')"
  shows "queue_ok n ws' \<and> ordered_queue n ws' = ordered_queue n ws @ [tid] \<and> ordered_owner ws' = ordered_owner ws
    \<and> sm' = (if ordered_queue n ws = [] then sem_post tid sm else sm)"
proof -
  have Q: "2 \<le> n" "n < 2 ^ 31" "0 \<le> ordered_num_used ws" using assms(1) by (auto simp: queue_ok_def)
  have u: "u32 (ordered_num_used ws + 1) = ordered_num_used ws + 1" using Q assms(2) by (intro u32_id) auto
  have ws': "ws' = ws\<lparr>ordered_team_ids := (ordered_team_ids ws)[nat ((ordered_cur ws + ordered_num_used ws) mod n) := tid],
      ordered_num_used := ordered_num_used ws + 1\<rparr>"
    and sm': "sm' = (if ordered_num_used ws = 0 then sem_post tid sm else sm)"
    using assms(3) u Q(1) unfolding tail_index [OF assms(1,2), symmetric] by (auto simp: gomp_ordered_first_def Let_def)
  have "nat (ordered_num_used ws + 1) = Suc (nat (ordered_num_used ws))" using Q by simp
  then have "ordered_queue n ws' = map (\<lambda>j. (ordered_team_ids ws)[nat ((ordered_cur ws + ordered_num_used ws) mod n) := tid]
      ! slot n ws j) [0..<Suc (nat (ordered_num_used ws))]"
    by (simp add: ordered_queue_def ws' slot_def del: upt_Suc)
  also have "\<dots> = ordered_queue n ws @ [tid]" by (rule queue_write [OF assms(1,2)])
  finally have "ordered_queue n ws' = ordered_queue n ws @ [tid]" .
  then show ?thesis using assms(1,2) sm' queue_empty [OF assms(1)] by (simp add: ws' queue_ok_def)
qed

text \<open>Leaving removes the head, and wakes the new one.\<close>

lemma last_queue:
  assumes "queue_ok n ws" and "0 < ordered_num_used ws" and "gomp_ordered_last (Some n) tid (ws, sm) = (ws', sm')"
  shows "queue_ok n ws' \<and> ordered_queue n ws' = tl (ordered_queue n ws) \<and> ordered_owner ws' = u32 (- 1)
    \<and> sm' = (if ordered_queue n ws' = [] then sm else sem_post (hd (ordered_queue n ws')) sm)"
proof -
  have Q: "2 \<le> n" "n < 2 ^ 31" "ordered_num_used ws \<le> n" using assms(1) by (auto simp: queue_ok_def)
  have u: "u32 (ordered_num_used ws - 1) = ordered_num_used ws - 1" using Q assms(2) by (intro u32_id) auto
  let ?c = "(ordered_cur ws + 1) mod n"
  have c: "0 \<le> ?c" "?c < n" using Q by auto
  show ?thesis
  proof (cases "ordered_num_used ws = 1")
    case True
    then have "ws' = ws\<lparr>ordered_owner := u32 (- 1), ordered_num_used := 0\<rparr>" "sm' = sm"
      using assms(3) Q(1) u by (auto simp: gomp_ordered_last_def Let_def)
    then show ?thesis using assms(1) True by (simp add: queue_ok_def ordered_queue_def)
  next
    case False
    let ?w = "ws\<lparr>ordered_owner := u32 (- 1), ordered_num_used := ordered_num_used ws - 1, ordered_cur := ?c\<rparr>"
    have ws': "ws' = ?w" and sm': "sm' = sem_post (ordered_team_ids ws ! nat ?c) sm"
      using assms(1-3) Q False by (auto simp: gomp_ordered_last_def Let_def u succ_index queue_ok_def)
    have ok: "queue_ok n ?w" using assms(1,2) c by (simp add: queue_ok_def)
    have "ordered_queue n ?w = tl (ordered_queue n ws)"
      using queue_Cons [OF assms(1,2)] by (simp add: ordered_queue_def [of n ?w] slot_def)
    moreover have "ordered_queue n ?w \<noteq> []" "hd (ordered_queue n ?w) = ordered_team_ids ws ! nat ?c"
      using queue_Cons [OF ok] assms(2) False by simp_all
    ultimately show ?thesis using ok sm' by (simp add: ws')
  qed
qed

text \<open>Moving on does both: the caller goes from the head to the end.\<close>

lemma next_queue:
  assumes "queue_ok n ws" and "0 < ordered_num_used ws" and "hd (ordered_queue n ws) = tid"
    and "gomp_ordered_next (Some n) tid (ws, sm) = (ws', sm')"
  shows "queue_ok n ws' \<and> ordered_queue n ws' = tl (ordered_queue n ws) @ [tid] \<and> ordered_owner ws' = u32 (- 1)
    \<and> sm' = sem_post (hd (ordered_queue n ws')) sm"
proof -
  have Q: "2 \<le> n" "n < 2 ^ 31" "ordered_num_used ws \<le> n" "0 \<le> ordered_cur ws" "ordered_cur ws < n"
    "length (ordered_team_ids ws) = nat n" using assms(1) by (auto simp: queue_ok_def)
  let ?c = "(ordered_cur ws + 1) mod n"
  have c: "0 \<le> ?c" "?c < n" using Q by auto
  have hd: "ordered_team_ids ws ! nat (ordered_cur ws) = tid" using queue_Cons [OF assms(1,2)] assms(3) by simp
  show ?thesis
  proof (cases "ordered_num_used ws = 1")
    case True
    then have w: "ws' = ws\<lparr>ordered_owner := u32 (- 1)\<rparr>" "sm' = sem_post tid sm"
      using assms(4) Q(1) by (auto simp: gomp_ordered_next_def Let_def)
    have "ordered_queue n ws' = [tid]" using queue_Cons [OF assms(1,2)] True hd w by (simp add: ordered_queue_def slot_def)
    moreover have "ordered_queue n ws = [tid]" using queue_Cons [OF assms(1,2)] True hd by simp
    ultimately show ?thesis using assms(1) w by (simp add: queue_ok_def)
  next
    case False
    have ok0: "queue_ok n (ws\<lparr>ordered_owner := u32 (- 1)\<rparr>)" using assms(1) by (simp add: queue_ok_def)
    define ids where "ids = (if ordered_num_used ws < n
      then (ordered_team_ids ws)[nat ((ordered_cur ws + ordered_num_used ws) mod n) := tid] else ordered_team_ids ws)"
    let ?w = "ws\<lparr>ordered_owner := u32 (- 1), ordered_team_ids := ids, ordered_cur := ?c\<rparr>"
    have ws': "ws' = ?w" and sm': "sm' = sem_post (ids ! nat ?c) sm"
      using assms(4) Q False tail_index [OF ok0]
      by (cases "ordered_num_used ws < n"; auto simp: gomp_ordered_next_def Let_def ids_def succ_index)+
    have ok: "queue_ok n ?w" using assms(1) c by (simp add: queue_ok_def ids_def)
    let ?m = "nat (ordered_num_used ws)"
    have m: "?m = Suc (nat (ordered_num_used ws - 1))" using assms(2) by simp
    have full: "map (\<lambda>j. ids ! slot n ws j) [0..<Suc ?m] = ordered_queue n ws @ [tid]"
    proof (cases "ordered_num_used ws < n")
      case True
      then show ?thesis using queue_write [OF assms(1) True, of tid] by (simp add: ids_def del: upt_Suc)
    next
      case False
      then have "slot n ws ?m = nat (ordered_cur ws)" using Q by (simp add: slot_def)
      then show ?thesis using False hd by (simp add: ids_def ordered_queue_def)
    qed
    have "slot n ws (Suc j) = slot n ?w j" for j by (simp add: slot_def mod_add_left_eq add.assoc)
    then have "map (\<lambda>j. ids ! slot n ws j) (map Suc [0..<?m]) = ordered_queue n ?w" by (simp add: ordered_queue_def)
    moreover have "[0..<Suc ?m] = 0 # map Suc [0..<?m]" by (simp add: upt_conv_Cons map_Suc_upt del: upt_Suc)
    ultimately have "ordered_queue n ?w = tl (ordered_queue n ws @ [tid])" unfolding full [symmetric] by simp
    moreover have "ordered_queue n ws \<noteq> []" using queue_Cons [OF assms(1,2)] by simp
    ultimately have "ordered_queue n ?w = tl (ordered_queue n ws) @ [tid]" by simp
    moreover have "hd (ordered_queue n ?w) = ids ! nat ?c" using queue_Cons [OF ok] assms(2) by simp
    ultimately show ?thesis using ok sm' by (simp add: ws')
  qed
qed


subsection \<open>The token\<close>

text \<open>The steps of the threads of a dynamic or guided ordered loop, each with the descriptor
  locked: a thread that is not on the queue registers with its first block; a thread enters the
  ordered region (\<open>gomp_ordered_sync\<close>); the owner takes another block or leaves.\<close>

inductive ordered_step :: "int \<Rightarrow> work_share \<times> sems \<Rightarrow> work_share \<times> sems \<Rightarrow> bool" for n where
  register: "0 \<le> tid \<Longrightarrow> tid < n \<Longrightarrow> tid \<notin> set (ordered_queue n (fst S)) \<Longrightarrow>
    ordered_step n S (gomp_ordered_first (Some n) tid S)"
| sync: "0 \<le> tid \<Longrightarrow> tid < n \<Longrightarrow> gomp_ordered_sync (Some n) tid S = Some S' \<Longrightarrow> ordered_step n S S'"
| move: "0 \<le> tid \<Longrightarrow> tid < n \<Longrightarrow> ordered_owner (fst S) = tid \<Longrightarrow> ordered_step n S (gomp_ordered_next (Some n) tid S)"
| leave: "0 \<le> tid \<Longrightarrow> tid < n \<Longrightarrow> ordered_owner (fst S) = tid \<Longrightarrow> ordered_step n S (gomp_ordered_last (Some n) tid S)"

inductive ordered_reach :: "int \<Rightarrow> work_share \<times> sems \<Rightarrow> bool" for n where
  init: "2 \<le> n \<Longrightarrow> n < 2 ^ 31 \<Longrightarrow> ordered_team_ids ws = replicate (nat n) 0 \<Longrightarrow> ordered_num_used ws = 0 \<Longrightarrow>
    ordered_cur ws = 0 \<Longrightarrow> ordered_owner ws = 2 ^ 32 - 1 \<Longrightarrow> ordered_reach n (ws, \<lambda>_. 0)"
| step: "ordered_reach n S \<Longrightarrow> ordered_step n S S' \<Longrightarrow> ordered_reach n S'"

text \<open>There is one token as long as the queue is not empty, and the thread at the head has it:
  either posted to its semaphore or, once it has synchronised, as the owner field.\<close>

definition token :: "int \<Rightarrow> work_share \<times> sems \<Rightarrow> bool" where
  "token n S \<longleftrightarrow>
    (let (ws, sm) = S; q = ordered_queue n ws in
     queue_ok n ws \<and> distinct q \<and> set q \<subseteq> {0..<n} \<and>
     (if q = [] then ordered_owner ws = 2 ^ 32 - 1 \<and> sm = (\<lambda>_. 0)
      else ordered_owner ws = 2 ^ 32 - 1 \<and> sm = (\<lambda>_. 0)(nat (hd q) := 1)
         \<or> ordered_owner ws = hd q \<and> sm = (\<lambda>_. 0)))"

lemma queue_not_full:
  assumes "queue_ok n ws" and "distinct (ordered_queue n ws)" and "set (ordered_queue n ws) \<subseteq> {0..<n}"
    and "0 \<le> t" "t < n" "t \<notin> set (ordered_queue n ws)"
  shows "ordered_num_used ws < n"
proof -
  have "set (ordered_queue n ws) \<subset> {0..<n}" using assms(3-6) by auto
  then have "card (set (ordered_queue n ws)) < card {0..<n}" by (intro psubset_card_mono) auto
  then show ?thesis using assms(1) distinct_card [OF assms(2)] queue_len [OF assms(1)] by (simp add: queue_ok_def)
qed

lemma token_step:
  assumes "ordered_step n S S'" and "token n S"
  shows "token n S'"
  using assms
proof (cases rule: ordered_step.cases)
  case (register tid)
  obtain ws sm where S: "S = (ws, sm)" by fastforce
  obtain ws' sm' where S': "gomp_ordered_first (Some n) tid (ws, sm) = (ws', sm')" by fastforce
  have T: "queue_ok n ws" "distinct (ordered_queue n ws)" "set (ordered_queue n ws) \<subseteq> {0..<n}"
    using assms(2) by (auto simp: token_def S Let_def)
  have "ordered_num_used ws < n" using queue_not_full [OF T register(2,3)] register(4) S by simp
  from first_queue [OF T(1) this S'] show ?thesis
    using assms(2) register T S S' by (auto simp: token_def Let_def sem_post_def split: if_splits)
next
  case (sync tid)
  obtain ws sm where S: "S = (ws, sm)" by fastforce
  have n: "n \<noteq> 1" using assms(2) by (auto simp: token_def S queue_ok_def Let_def)
  show ?thesis
  proof (cases "ordered_owner ws = tid")
    case True
    then show ?thesis using sync(3) n assms(2) S by (simp add: gomp_ordered_sync_def)
  next
    case False
    then have sm: "sm (nat tid) \<noteq> 0" and S': "S' = (ws\<lparr>ordered_owner := tid\<rparr>, sm(nat tid := sm (nat tid) - 1))"
      using sync(3) n S by (auto simp: gomp_ordered_sync_def split: if_splits)
    then have q: "ordered_queue n ws \<noteq> []" "nat (hd (ordered_queue n ws)) = nat tid"
      "sm = (\<lambda>_. 0)(nat (hd (ordered_queue n ws)) := 1)"
      using assms(2) S by (auto simp: token_def Let_def split: if_splits)
    have "set (ordered_queue n ws) \<subseteq> {0..<n}" using assms(2) S by (simp add: token_def Let_def)
    then have "0 \<le> hd (ordered_queue n ws)" using hd_in_set [OF q(1)] by (meson atLeastLessThan_iff subsetD)
    then have "hd (ordered_queue n ws) = tid" using q(2) sync(1) by linarith
    moreover have "ordered_queue n (ws\<lparr>ordered_owner := tid\<rparr>) = ordered_queue n ws"
      by (simp add: ordered_queue_def slot_def)
    ultimately show ?thesis using assms(2) S S' q by (auto simp: token_def Let_def queue_ok_def fun_eq_iff)
  qed
next
  case (move tid)
  obtain ws sm where S: "S = (ws, sm)" by fastforce
  obtain ws' sm' where S': "gomp_ordered_next (Some n) tid (ws, sm) = (ws', sm')" by fastforce
  have T: "queue_ok n ws" "ordered_queue n ws \<noteq> []" "hd (ordered_queue n ws) = tid" "sm = (\<lambda>_. 0)"
    "distinct (ordered_queue n ws)" "set (ordered_queue n ws) \<subseteq> {0..<n}"
    using assms(2) move(2-4) by (auto simp: token_def S Let_def queue_ok_def split: if_splits)
  then have "0 < ordered_num_used ws" using queue_empty [OF T(1)] by (auto simp: queue_ok_def)
  note N = next_queue [OF T(1) this T(3) S']
  obtain t where t: "ordered_queue n ws = tid # t" using T(2,3) by (cases "ordered_queue n ws") auto
  then show ?thesis using N T S S' move(1) by (auto simp: token_def Let_def sem_post_def u32_def)
next
  case (leave tid)
  obtain ws sm where S: "S = (ws, sm)" by fastforce
  obtain ws' sm' where S': "gomp_ordered_last (Some n) tid (ws, sm) = (ws', sm')" by fastforce
  have T: "queue_ok n ws" "ordered_queue n ws \<noteq> []" "hd (ordered_queue n ws) = tid" "sm = (\<lambda>_. 0)"
    "distinct (ordered_queue n ws)" "set (ordered_queue n ws) \<subseteq> {0..<n}"
    using assms(2) leave(2-4) by (auto simp: token_def S Let_def queue_ok_def split: if_splits)
  then have "0 < ordered_num_used ws" using queue_empty [OF T(1)] by (auto simp: queue_ok_def)
  note N = last_queue [OF T(1) this S']
  obtain t where t: "ordered_queue n ws = tid # t" using T(2,3) by (cases "ordered_queue n ws") auto
  then show ?thesis using N T S S' leave(1) by (auto simp: token_def Let_def sem_post_def u32_def)
qed

lemma token_reach: "ordered_reach n S \<Longrightarrow> token n S"
proof (induction rule: ordered_reach.induct)
  case (init ws)
  then show ?case by (simp add: token_def queue_ok_def ordered_queue_def)
qed (rule token_step)

text \<open>
  The circular array of the ORDERED construct implements a queue: registering appends the
  caller, leaving removes the head, and taking another block moves the caller from the head to
  the end, also when the array is full and the move is only an increment of \<open>ordered_cur\<close>.
\<close>

theorem ordered_array_is_queue:
  assumes "queue_ok n ws"
  shows "(ordered_num_used ws < n \<longrightarrow>
      ordered_queue n (fst (gomp_ordered_first (Some n) tid (ws, sm))) = ordered_queue n ws @ [tid])
    \<and> (0 < ordered_num_used ws \<longrightarrow>
      ordered_queue n (fst (gomp_ordered_last (Some n) tid (ws, sm))) = tl (ordered_queue n ws))
    \<and> (0 < ordered_num_used ws \<and> hd (ordered_queue n ws) = tid \<longrightarrow>
      ordered_queue n (fst (gomp_ordered_next (Some n) tid (ws, sm))) = tl (ordered_queue n ws) @ [tid])"
  using first_queue [OF assms _ prod.collapse [symmetric], of tid sm] last_queue [OF assms _ prod.collapse [symmetric], of tid sm]
    next_queue [OF assms _ _ prod.collapse [symmetric], of tid sm] by blast

theorem ordered_array_is_queue_witness:
  "ordered_queue 3 (fst (gomp_ordered_next (Some 3) 2
     (ws_zero\<lparr>ordered_team_ids := [0, 1, 2], ordered_num_used := 3, ordered_cur := 2\<rparr>, \<lambda>_. 0))) = [0, 1, 2]"
proof -
  let ?w = "ws_zero\<lparr>ordered_team_ids := [0, 1, 2], ordered_num_used := 3, ordered_cur := 2\<rparr>"
  have "queue_ok 3 ?w" by (simp add: queue_ok_def ws_zero_def)
  moreover have "ordered_queue 3 ?w = [2, 0, 1]" by code_simp
  ultimately show ?thesis using ordered_array_is_queue [of 3 ?w 2 "\<lambda>_. 0"] by (simp add: ws_zero_def)
qed

text \<open>
  C19. Mutual exclusion and order: in every state the protocol can reach, the thread at the head
  of the queue can enter the ordered region and every other thread of the team blocks; so the
  region is entered in the order in which the blocks were handed out, by one thread at a time.
\<close>

theorem ordered_only_head_enters:
  assumes "ordered_reach n S" and "0 \<le> tid" and "tid < n"
  shows "gomp_ordered_sync (Some n) tid S \<noteq> None \<longleftrightarrow>
    ordered_queue n (fst S) \<noteq> [] \<and> hd (ordered_queue n (fst S)) = tid"
proof -
  obtain ws sm where S: "S = (ws, sm)" by fastforce
  have T: "token n (ws, sm)" using token_reach [OF assms(1)] S by simp
  then have Q: "2 \<le> n" "n < 2 ^ 31" "set (ordered_queue n ws) \<subseteq> {0..<n}" by (auto simp: token_def queue_ok_def Let_def)
  have "nat (hd (ordered_queue n ws)) = nat tid \<longleftrightarrow> hd (ordered_queue n ws) = tid" if "ordered_queue n ws \<noteq> []"
  proof -
    have "0 \<le> hd (ordered_queue n ws)" using Q(3) hd_in_set [OF that] by (meson atLeastLessThan_iff subsetD)
    then show ?thesis using assms(2) by (simp add: eq_nat_nat_iff)
  qed
  then show ?thesis using T Q assms(2,3) by (auto simp: S gomp_ordered_sync_def token_def Let_def split: if_splits)
qed

theorem ordered_only_head_enters_witness:
  "gomp_ordered_sync (Some 3) 1 (gomp_ordered_first (Some 3) 1 (gomp_ordered_first (Some 3) 2
     (ws_zero\<lparr>ordered_team_ids := [0, 0, 0], ordered_owner := 2 ^ 32 - 1\<rparr>, \<lambda>_. 0))) = None"
proof -
  let ?S = "(ws_zero\<lparr>ordered_team_ids := [0, 0, 0], ordered_owner := 2 ^ 32 - 1\<rparr>, (\<lambda>_. 0) :: sems)"
  let ?S1 = "gomp_ordered_first (Some 3) 2 ?S"
  let ?S2 = "gomp_ordered_first (Some 3) 1 ?S1"
  have q: "2 \<notin> set (ordered_queue 3 (fst ?S))" "1 \<notin> set (ordered_queue 3 (fst ?S1))" by code_simp+
  have "ordered_reach 3 ?S" by (rule ordered_reach.init) (simp_all add: ws_zero_def numeral_3_eq_3)
  moreover have "ordered_step 3 ?S ?S1" by (rule ordered_step.register [OF _ _ q(1)]) simp_all
  ultimately have "ordered_reach 3 ?S1" by (rule ordered_reach.step)
  moreover have "ordered_step 3 ?S1 ?S2" by (rule ordered_step.register [OF _ _ q(2)]) simp_all
  ultimately have r: "ordered_reach 3 ?S2" by (rule ordered_reach.step)
  have h: "hd (ordered_queue 3 (fst ?S2)) \<noteq> 1" by code_simp
  show ?thesis using ordered_only_head_enters [OF r, of 1] h by (metis one_less_numeral_iff semiring_norm(77) zero_le_one)
qed

end
