(* ===== verification/Doacross.thy ===== *)
theory Doacross
  imports Runtime "HOL-Library.Log_Nat"
begin

unbundle bit_operations_syntax

text \<open>
  Cross-iteration dependences, DOACROSS (\<open>gcc/libgomp/ordered.c\<close>, \<open>config/linux/doacross.h\<close>).
  A thread posts the vector of the iteration it has finished; a thread that waits for a vector
  goes on once a vector that is not smaller has been posted in the same entry. If the counts
  of the nest fit in one word, vectors are packed into a word whose order is that of the
  vectors; otherwise the words of an entry are compared one by one.
\<close>

subsection \<open>Packing\<close>

text \<open>The loop over \<open>counts\<close>: \<open>None\<close> when a count is zero, otherwise the number of bits (65 when
  more than 64 are needed) and the bits of each dimension.\<close>

fun doacross_bits :: "int list \<Rightarrow> nat \<Rightarrow> (nat \<times> nat list) option" where
  "doacross_bits [] num_bits = Some (num_bits, [])"
| "doacross_bits (c # cs) num_bits =
    (if c = 0 then None
     else if num_bits \<le> 64 then
       let this_bits = (if c = 1 then 1 else nat (bitlen (u64 (c - 1))))
       in if num_bits + this_bits \<le> 64
          then map_option (\<lambda>(n, bs). (n, this_bits # bs)) (doacross_bits cs (num_bits + this_bits))
          else map_option (\<lambda>(n, bs). (n, 0 # bs)) (doacross_bits cs 65)
     else map_option (\<lambda>(n, bs). (n, 0 # bs)) (doacross_bits cs num_bits))"

text \<open>The shift of a dimension is the number of bits of those inside it.\<close>

fun shift_counts :: "nat list \<Rightarrow> nat list" where
  "shift_counts [] = []"
| "shift_counts (b # bs) = sum_list bs # shift_counts bs"

definition flatten :: "int list \<Rightarrow> nat list \<Rightarrow> int" where
  "flatten counts shifts = foldl (\<lambda>acc (c, s). acc OR u64 (push_bit s (u64 c))) 0 (zip counts shifts)"

subsection \<open>Operations on \<open>long\<close> loops\<close>

text \<open>\<open>None\<close> is a division by zero (a dynamic schedule with \<open>chunk_size\<close> zero).\<close>

definition doacross_entries :: "work_share \<Rightarrow> int \<Rightarrow> int \<Rightarrow> int \<Rightarrow> int option" where
  "doacross_entries ws nthreads count0 chunk =
    (if sched ws = GFS_STATIC then Some nthreads
     else if sched ws = GFS_GUIDED then Some count0
     else if chunk = 0 then None
     else Some (u64 (s64 (count0 - 1) sdiv chunk + 1)))"

definition doacross_new :: "nat \<Rightarrow> nat \<times> nat list \<Rightarrow> int \<Rightarrow> int \<Rightarrow> doacross_ws" where
  "doacross_new ncounts nb num_ents chunk =
    (let fits = (fst nb \<le> 64); elt_sz = 8 * (if fits then 1 else int ncounts)
     in \<lparr>d_chunk_size = chunk, d_elt_sz = (elt_sz + 63) div 64 * 64, d_ncounts = ncounts, d_flattened = fits,
         d_array = replicate (nat num_ents) (replicate (if fits then 1 else ncounts) 0),
         d_t = 0, d_boundary = 0, d_shift_counts = (if fits then shift_counts (snd nb) else [])\<rparr>)"

definition gomp_doacross_init :: "int option \<Rightarrow> int list \<Rightarrow> int \<Rightarrow> work_share \<Rightarrow> fault + work_share" where
  "gomp_doacross_init tm counts chunk ws =
    (case tm of None \<Rightarrow> Inr ws
     | Some n \<Rightarrow>
       if n = 1 then Inr ws
       else
         (case doacross_bits counts 0 of None \<Rightarrow> Inr ws
          | Some nb \<Rightarrow>
            (case doacross_entries ws n (hd counts) chunk of None \<Rightarrow> Inl Trap
             | Some num_ents \<Rightarrow>
               let d = doacross_new (length counts) nb num_ents chunk;
                   q = u64 (hd counts) div num_ents; t = u64 (hd counts) mod num_ents;
                   d1 = (if sched ws = GFS_STATIC \<and> chunk = 0
                         then d\<lparr>d_boundary := s64 (t * (q + 1)), d_chunk_size := s64 q, d_t := s64 t\<rparr> else d)
               in Inr (ws\<lparr>doacross := Some d1\<rparr>))))"

text \<open>Writing the entry \<open>ent\<close>, a trap when it is out of the array.\<close>

definition doacross_store :: "doacross_ws \<Rightarrow> nat \<Rightarrow> int list \<Rightarrow> work_share \<Rightarrow> fault + work_share" where
  "doacross_store d ent ws_words ws =
    (if ent < length (d_array d) then Inr (ws\<lparr>doacross := Some (d\<lparr>d_array := (d_array d)[ent := ws_words]\<rparr>)\<rparr>)
     else Inl Trap)"

definition doacross_words :: "doacross_ws \<Rightarrow> int list \<Rightarrow> int list" where
  "doacross_words d counts =
    (if d_flattened d then [u64 (flatten counts (d_shift_counts d) + 1)] else map (\<lambda>c. u64 (c + 1)) counts)"

definition GOMP_doacross_post :: "int \<Rightarrow> int list \<Rightarrow> work_share \<Rightarrow> fault + work_share" where
  "GOMP_doacross_post tid counts ws =
    (case doacross ws of None \<Rightarrow> Inr ws
     | Some d \<Rightarrow>
       if sched ws = GFS_STATIC then doacross_store d (nat tid) (doacross_words d counts) ws
       else if sched ws = GFS_GUIDED then doacross_store d (nat (u64 (hd counts))) (doacross_words d counts) ws
       else if d_chunk_size d = 0 then Inl Trap
       else doacross_store d (nat (u64 (hd counts sdiv d_chunk_size d))) (doacross_words d counts) ws)"

text \<open>One pass over the words of an entry: the first that differs from the target decides.\<close>

fun words_reached :: "int list \<Rightarrow> int list \<Rightarrow> bool" where
  "words_reached (v # vs) (c # cs) =
    (let thisv = u64 (v + 1) in if thisv < c then True else if thisv > c then False else words_reached vs cs)"
| "words_reached _ _ = True"

definition doacross_reached :: "doacross_ws \<Rightarrow> int list \<Rightarrow> int list \<Rightarrow> bool" where
  "doacross_reached d target entry =
    (if d_flattened d then flatten target (d_shift_counts d) < hd entry else words_reached target entry)"

definition doacross_wait_entry :: "int \<Rightarrow> work_share \<Rightarrow> doacross_ws \<Rightarrow> int \<Rightarrow> fault + nat" where
  "doacross_wait_entry nthreads ws d first =
    (if sched ws = GFS_STATIC then
       if chunk_size ws = 0 then
         if first < d_boundary d then Inr (nat (u64 (first sdiv (d_chunk_size d + 1))))
         else if d_chunk_size d = 0 then Inl Trap
         else Inr (nat (u64 ((first - d_boundary d) sdiv d_chunk_size d + d_t d)))
       else Inr (nat (u64 (first sdiv chunk_size ws) mod nthreads))
     else if sched ws = GFS_GUIDED then Inr (nat (u64 first))
     else if d_chunk_size d = 0 then Inl Trap
     else Inr (nat (u64 (first sdiv d_chunk_size d))))"

text \<open>The wait returns when the entry has been reached; until then the caller spins.\<close>

definition GOMP_doacross_wait :: "int \<Rightarrow> int list \<Rightarrow> work_share \<Rightarrow> fault + unit" where
  "GOMP_doacross_wait nthreads target ws =
    (case doacross ws of None \<Rightarrow> Inr ()
     | Some d \<Rightarrow>
       bindE (doacross_wait_entry nthreads ws d (hd target)) (\<lambda>ent.
         if ent < length (d_array d) then
           if doacross_reached d target (d_array d ! ent) then Inr () else Inl Blocked
         else Inl Trap))"

subsection \<open>Operations on \<open>unsigned long long\<close> loops\<close>

text \<open>With 64-bit words only one of the two branches on the size of \<open>unsigned long long\<close> is live.\<close>

definition doacross_ull_entries :: "work_share \<Rightarrow> int \<Rightarrow> int \<Rightarrow> int \<Rightarrow> int option" where
  "doacross_ull_entries ws nthreads count0 chunk =
    (if sched ws = GFS_STATIC then Some nthreads
     else if sched ws = GFS_GUIDED then Some count0
     else if chunk = 0 then None
     else Some (u64 (u64 (count0 - 1) div chunk + 1)))"

definition gomp_doacross_ull_init :: "int option \<Rightarrow> int list \<Rightarrow> int \<Rightarrow> work_share \<Rightarrow> fault + work_share" where
  "gomp_doacross_ull_init tm counts chunk ws =
    (case tm of None \<Rightarrow> Inr ws
     | Some n \<Rightarrow>
       if n = 1 then Inr ws
       else
         (case doacross_bits counts 0 of None \<Rightarrow> Inr ws
          | Some nb \<Rightarrow>
            (case doacross_ull_entries ws n (hd counts) chunk of None \<Rightarrow> Inl Trap
             | Some num_ents \<Rightarrow>
               let d = doacross_new (length counts) nb num_ents chunk;
                   q = hd counts div num_ents; t = hd counts mod num_ents;
                   d1 = (if sched ws = GFS_STATIC \<and> chunk = 0
                         then d\<lparr>d_boundary := u64 (t * (q + 1)), d_chunk_size := q, d_t := s64 t\<rparr> else d)
               in Inr (ws\<lparr>doacross := Some d1\<rparr>))))"

definition GOMP_doacross_ull_post :: "int \<Rightarrow> int list \<Rightarrow> work_share \<Rightarrow> fault + work_share" where
  "GOMP_doacross_ull_post tid counts ws =
    (case doacross ws of None \<Rightarrow> Inr ws
     | Some d \<Rightarrow>
       if sched ws = GFS_STATIC then doacross_store d (nat tid) (doacross_words d counts) ws
       else if sched ws = GFS_GUIDED then doacross_store d (nat (hd counts)) (doacross_words d counts) ws
       else if d_chunk_size d = 0 then Inl Trap
       else doacross_store d (nat (hd counts div d_chunk_size d)) (doacross_words d counts) ws)"

definition doacross_ull_wait_entry :: "int \<Rightarrow> work_share \<Rightarrow> doacross_ws \<Rightarrow> int \<Rightarrow> fault + nat" where
  "doacross_ull_wait_entry nthreads ws d first =
    (if sched ws = GFS_STATIC then
       if chunk_size ws = 0 then
         if first < d_boundary d then Inr (nat (first div u64 (d_chunk_size d + 1)))
         else if d_chunk_size d = 0 then Inl Trap
         else Inr (nat (u64 ((first - d_boundary d) div d_chunk_size d + d_t d)))
       else Inr (nat (first div chunk_size ws mod nthreads))
     else if sched ws = GFS_GUIDED then Inr (nat first)
     else if d_chunk_size d = 0 then Inl Trap
     else Inr (nat (first div d_chunk_size d)))"

definition GOMP_doacross_ull_wait :: "int \<Rightarrow> int list \<Rightarrow> work_share \<Rightarrow> fault + unit" where
  "GOMP_doacross_ull_wait nthreads target ws =
    (case doacross ws of None \<Rightarrow> Inr ()
     | Some d \<Rightarrow>
       bindE (doacross_ull_wait_entry nthreads ws d (hd target)) (\<lambda>ent.
         if ent < length (d_array d) then
           if doacross_reached d target (d_array d ! ent) then Inr () else Inl Blocked
         else Inl Trap))"

subsection \<open>Packing keeps the order\<close>

fun lex_le :: "int list \<Rightarrow> int list \<Rightarrow> bool" where
  "lex_le (v # vs) (w # ws) \<longleftrightarrow> v < w \<or> v = w \<and> lex_le vs ws"
| "lex_le _ _ = True"

text \<open>\<open>in_bounds counts v\<close>: \<open>v\<close> is an iteration vector of the nest.\<close>

fun in_bounds :: "int list \<Rightarrow> int list \<Rightarrow> bool" where
  "in_bounds (c # cs) (v # vs) \<longleftrightarrow> 0 \<le> v \<and> v < c \<and> c < 2 ^ 63 \<and> in_bounds cs vs"
| "in_bounds [] [] = True"
| "in_bounds _ _ = False"

fun packed :: "nat list \<Rightarrow> int list \<Rightarrow> int" where
  "packed (b # bs) (v # vs) = v * 2 ^ sum_list bs + packed bs vs"
| "packed _ _ = 0"

lemma or_disjoint:
  fixes a x :: int
  assumes "a mod 2 ^ m = 0" and "0 \<le> x" and "x < 2 ^ m"
  shows "a OR x = a + x"
proof -
  have "take_bit m a = 0" "take_bit m x = x" using assms by (simp_all add: take_bit_eq_mod)
  then have "\<not> (bit a j \<and> bit x j)" for j
    by (metis bit_0_eq bit_take_bit_iff bot_apply bot_bool_def)
  then have "a AND x = 0" by (simp add: bit_eq_iff bit_simps)
  then show ?thesis by (simp add: disjunctive_add_eq_or)
qed

lemma bits_cover:
  assumes "doacross_bits counts n0 = Some (n, bs)" and "n \<le> 64" and "in_bounds counts v"
  shows "n = n0 + sum_list bs \<and> length bs = length counts \<and> (\<forall>(b, x) \<in> set (zip bs v). 0 \<le> x \<and> x < 2 ^ b)"
  using assms
proof (induction counts n0 arbitrary: n bs v rule: doacross_bits.induct)
  case (2 c cs n0)
  have stuck: "n = m" if "doacross_bits ds m = Some (n, bs)" "64 < m" for ds m n bs
    using that by (induction ds arbitrary: bs) (auto split: if_splits)
  obtain x xs where v: "v = x # xs" and x: "0 \<le> x" "x < c" "c < 2 ^ 63" and xs: "in_bounds cs xs"
    using "2.prems"(3) by (cases v) auto
  define tb where "tb = (if c = 1 then 1 else nat (bitlen (u64 (c - 1))))"
  have n0: "n0 \<le> 64" "n0 + tb \<le> 64"
    using "2.prems"(1,2) stuck by (fastforce simp: tb_def Let_def split: if_splits)+
  then obtain bs' where bs': "bs = tb # bs'" "doacross_bits cs (n0 + tb) = Some (n, bs')"
    using "2.prems"(1) by (auto simp: tb_def Let_def split: if_splits)
  have "x < 2 ^ tb"
  proof (cases "c = 1")
    case False
    then have "0 < c - 1" using x by simp
    moreover have "u64 (c - 1) = c - 1" using x by (simp add: u64_id)
    ultimately show ?thesis using bitlen_bounds [of "c - 1"] x False by (simp add: tb_def)
  qed (use x in \<open>simp add: tb_def\<close>)
  moreover have "c \<noteq> 0" using x by simp
  ultimately show ?case
    using "2.IH"(1) [OF _ n0(1) tb_def n0(2) bs'(2) "2.prems"(2) xs] bs'(1) v x(1) by simp
qed auto

lemma packed_bound:
  assumes "\<forall>(b, x) \<in> set (zip bs v). 0 \<le> x \<and> x < 2 ^ b" and "length v = length bs"
  shows "0 \<le> packed bs v \<and> packed bs v < 2 ^ sum_list bs"
  using assms
proof (induction bs v rule: packed.induct)
  case (1 b bs x xs)
  then have IH: "0 \<le> packed bs xs" "packed bs xs < 2 ^ sum_list bs" and x: "0 \<le> x" "x \<le> 2 ^ b - 1" by auto
  have "x * 2 ^ sum_list bs \<le> (2 ^ b - 1) * 2 ^ sum_list bs" using x(2) by (rule mult_right_mono) simp
  then show ?case using IH x(1) by (simp add: power_add algebra_simps)
qed auto

lemma packed_le:
  assumes "\<forall>(b, x) \<in> set (zip bs v). 0 \<le> x \<and> x < 2 ^ b" and "length v = length bs"
    and "\<forall>(b, x) \<in> set (zip bs w). 0 \<le> x \<and> x < 2 ^ b" and "length w = length bs"
  shows "packed bs v \<le> packed bs w \<longleftrightarrow> lex_le v w"
  using assms
proof (induction bs arbitrary: v w)
  case (Cons b bs)
  obtain x xs y ys where v: "v = x # xs" "w = y # ys"
    using Cons.prems(2,4) by (cases v; cases w) auto
  have B: "0 \<le> packed bs xs" "packed bs xs < 2 ^ sum_list bs" "0 \<le> packed bs ys" "packed bs ys < 2 ^ sum_list bs"
    using packed_bound [of bs xs] packed_bound [of bs ys] Cons.prems v by auto
  let ?M = "2 ^ sum_list bs :: int"
  have gap: "(a + 1) * ?M \<le> d * ?M" if "a < d" for a d :: int using that by (intro mult_right_mono) auto
  show ?case
    using Cons.IH [of xs ys] Cons.prems B gap [of x y] gap [of y x] v
    by (cases x y rule: linorder_cases) (auto simp: algebra_simps)
qed simp

lemma flatten_fold:
  assumes "\<forall>(b, x) \<in> set (zip bs v). 0 \<le> x \<and> x < 2 ^ b" and "length v = length bs" and "sum_list bs \<le> 64"
    and "a mod 2 ^ sum_list bs = 0" and "0 \<le> a"
  shows "foldl (\<lambda>acc (c, s). acc OR u64 (push_bit s (u64 c))) a (zip v (shift_counts bs)) = a + packed bs v"
  using assms
proof (induction bs arbitrary: v a)
  case (Cons b bs)
  obtain x xs where v: "v = x # xs" using Cons.prems(2) by (cases v) auto
  let ?M = "2 ^ sum_list bs :: int"
  have x: "0 \<le> x" "x < 2 ^ b" using Cons.prems(1) v by auto
  then have "x * ?M < 2 ^ b * ?M" by (intro mult_strict_right_mono) auto
  also have t: "2 ^ b * ?M = (2 ^ sum_list (b # bs) :: int)" by (simp add: power_add)
  finally have xm: "x * ?M < 2 ^ sum_list (b # bs)" .
  also have "\<dots> \<le> 2 ^ 64" using Cons.prems(3) by (intro power_increasing) auto
  finally have lt: "x * ?M < 2 ^ 64" .
  have "(2 :: int) ^ b \<le> 2 ^ 64" using Cons.prems(3) by (intro power_increasing) auto
  then have "u64 x = x" using x by (intro u64_id) auto
  then have s: "u64 (push_bit (sum_list bs) (u64 x)) = x * ?M"
    using x lt by (simp add: push_bit_eq_mult u64_id)
  have d: "?M dvd a"
    using Cons.prems(4) by (simp add: power_add mod_eq_0_iff_dvd) (metis dvd_mult_right)
  have "a OR x * ?M = a + x * ?M" using or_disjoint [OF Cons.prems(4)] xm x by simp
  moreover have "(a + x * ?M) mod ?M = 0" using d by (simp add: mod_eq_0_iff_dvd)
  ultimately show ?case
    using Cons.IH [of xs "a + x * ?M"] Cons.prems v s x by (simp add: algebra_simps)
qed simp

lemma in_bounds_length: "in_bounds counts v \<Longrightarrow> length v = length counts"
  by (induction counts v rule: in_bounds.induct) auto

lemma flatten_packed:
  assumes "doacross_bits counts 0 = Some (n, bs)" and "n \<le> 64" and "in_bounds counts v"
  shows "flatten v (shift_counts bs) = packed bs v" "0 \<le> packed bs v" "packed bs v < 2 ^ n"
    "\<forall>(b, x) \<in> set (zip bs v). 0 \<le> x \<and> x < 2 ^ b" "length v = length bs"
proof -
  note B = bits_cover [OF assms]
  then show b: "\<forall>(b, x) \<in> set (zip bs v). 0 \<le> x \<and> x < 2 ^ b" and l: "length v = length bs"
    using in_bounds_length [OF assms(3)] by auto
  show "flatten v (shift_counts bs) = packed bs v"
    using flatten_fold [OF b l, of 0] B assms(2) by (simp add: flatten_def)
  show "0 \<le> packed bs v" "packed bs v < 2 ^ n" using packed_bound [OF b l] B by auto
qed

lemma words_reached_lex: "in_bounds counts v \<Longrightarrow> in_bounds counts w \<Longrightarrow> words_reached v (map (\<lambda>c. u64 (c + 1)) w) \<longleftrightarrow> lex_le v w"
proof (induction counts arbitrary: v w)
  case Nil
  then show ?case by (cases v; cases w) auto
next
  case (Cons c cs)
  obtain x xs y ys where v: "v = x # xs" "w = y # ys" using Cons.prems by (cases v; cases w) auto
  then have "u64 (x + 1) = x + 1" "u64 (y + 1) = y + 1" using Cons.prems by (auto intro: u64_id)
  then show ?case using Cons v by (auto simp: Let_def)
qed

text \<open>
  C26. What a wait sees of a post, for vectors within the bounds of the loop nest: it is satisfied exactly when the posted
  iteration vector is not lexicographically smaller than the target, whether vectors are packed into one word or
  not, with one exception. When the widths of the nest sum to exactly 64 bits, the posted vector that fills
  the word with ones is stored as 0, and no wait is satisfied by it.
\<close>

theorem doacross_wait_iff_lex:
  assumes "doacross_bits counts 0 = Some nb" and "in_bounds counts posted" and "in_bounds counts target"
    and "d = doacross_new (length counts) nb ents chunk"
  shows "doacross_reached d target (doacross_words d posted) \<longleftrightarrow> lex_le target posted
    \<and> \<not> (fst nb = 64 \<and> flatten posted (shift_counts (snd nb)) = ULONG_MAX)"
proof (cases "fst nb \<le> 64")
  case True
  obtain n bs where nb: "nb = (n, bs)" by fastforce
  have n: "n \<le> 64" using True nb by auto
  note P = flatten_packed [OF assms(1) [unfolded nb] n assms(2)]
  note T = flatten_packed [OF assms(1) [unfolded nb] n assms(3)]
  note reached = P(1) T(1) True packed_le [OF T(4,5) P(4,5)]
  show ?thesis
  proof (cases "packed bs posted = ULONG_MAX")
    case ones: True
    then have "\<not> n \<le> 63" using P(3) power_increasing [of n 63 "2 :: int"] by auto
    moreover have "u64 (packed bs posted + 1) = 0" using ones by (simp add: u64_def)
    ultimately show ?thesis using reached ones T(2) n
      by (simp add: assms(4) doacross_new_def doacross_reached_def doacross_words_def nb Let_def)
  next
    case False
    moreover have "(2::int) ^ n \<le> 2 ^ 64" using n by (intro power_increasing) auto
    ultimately have "u64 (packed bs posted + 1) = packed bs posted + 1" using P(2,3) by (intro u64_id) auto
    then show ?thesis using reached False
      by (simp add: assms(4) doacross_new_def doacross_reached_def doacross_words_def nb Let_def)
  qed
next
  case False
  then show ?thesis
    using words_reached_lex [OF assms(3,2)]
    by (simp add: assms(4) doacross_new_def doacross_reached_def doacross_words_def Let_def)
qed

theorem doacross_wait_iff_lex_witness:
  "\<not> doacross_reached (doacross_new 2 (9, [3, 6]) 4 0) [5, 3] (doacross_words (doacross_new 2 (9, [3, 6]) 4 0) [4, 40])"
proof -
  have b: "doacross_bits [6, 50] 0 = Some (9, [3, 6])" by code_simp
  show ?thesis using doacross_wait_iff_lex [OF b, of "[4, 40]" "[5, 3]" "doacross_new 2 (9, [3, 6]) 4 0" 4 0]
    by (simp add: numeral_2_eq_2)
qed

end
