(* ===== verification/Loop.thy ===== *)
theory Loop
  imports Ordered Doacross
begin

text \<open>
  The LOOP construct on \<open>long\<close> loops (\<open>gcc/libgomp/loop.c\<close>) and the workload-aware iterators
  BinLPT and HSS (\<open>thirdparty_schedules.h\<close>). An entry point is a function of the calling thread
  and the runtime state; a call of a lock-free iterator runs it to its end (\<open>call_alone\<close>), the
  interleavings being the subject of \<open>CasLoop\<close>.
\<close>

subsection \<open>Setting up the descriptor\<close>

text \<open>\<open>gomp_loop_init\<close>, first the part that does not depend on the schedule.\<close>

definition loop_init_common :: "int \<Rightarrow> int \<Rightarrow> int \<Rightarrow> gomp_schedule_type \<Rightarrow> int \<Rightarrow> work_share \<Rightarrow> work_share" where
  "loop_init_common start e k sc chunk ws =
    ws\<lparr>sched := sc, chunk_size := chunk,
       end_it := (if 0 < k \<and> start > e \<or> k < 0 \<and> start < e then start else e),
       incr := k, next_it := start, barrier := start\<rparr>"

definition loop_num_tasks :: "work_share \<Rightarrow> int" where
  "loop_num_tasks ws = s64 (end_it ws - next_it ws) sdiv incr ws"

definition init_fac2 :: "bo_env \<Rightarrow> int \<Rightarrow> int \<Rightarrow> work_share \<Rightarrow> work_share" where
  "init_fac2 env n N ws =
    (let p = (if sched ws = FS_FAC2 then dbl_of_int 2 else fac_transform_range (fpu env) (param ws))
     in ws\<lparr>param := p, chunk_size := dbl_to_long (fpu env) (ddiv (ddiv (dbl_of_int N) p) (dbl_of_int n))\<rparr>)"

definition init_tape :: "bo_env \<Rightarrow> int \<Rightarrow> work_share \<Rightarrow> work_share" where
  "init_tape env region ws =
    ws\<lparr>param := (if sched ws = BO_TAPE then tape_transform_range (fpu env) (param ws)
                 else if sched ws = FS_TAPE then bo_tape_parameter env region
                 else dbl_of_int 3)\<rparr>"

definition init_tss :: "bo_env \<Rightarrow> int \<Rightarrow> int \<Rightarrow> int \<Rightarrow> work_share \<Rightarrow> work_share" where
  "init_tss env region n N ws =
    (let p0 = (if sched ws = FS_TRAP1
               then let temp = ddiv (dbl_of_int N) (dbl_of_int (s64 (2 * n + 1)))
                    in ddiv (dbl_of_int (s64 (2 * N))) (dmul temp temp)
               else if sched ws = FS_TSS then bo_tss_parameter env region
               else param ws);
         p = dadd p0 (ddiv (dbl_of_int n) (dbl_of_int N));
         f = dsub (dsqrt (ddiv (dmul (dbl_of_int 2) (dbl_of_int N)) p)) (dbl_of_int 1)
     in ws\<lparr>param := p, chunk_size := dbl_to_long (fpu env) f, count := 0\<rparr>)"

definition init_fss :: "bo_env \<Rightarrow> int \<Rightarrow> int \<Rightarrow> int \<Rightarrow> work_share \<Rightarrow> work_share" where
  "init_fss env region n N ws =
    (let p = (if sched ws = BO_FSS then fss_transform_range (fpu env) (param ws) else bo_fss_parameter env region);
         temp = dmul (ddiv (dbl_of_int n) (dbl_of_int 2)) p;
         b2 = dmul (dmul (ddiv (dbl_of_int 1) (dbl_of_int N)) temp) temp;
         x = dadd (dadd (dbl_of_int 1) b2) (dsqrt (dmul b2 (dadd b2 (dbl_of_int 2))));
         F = dbl_to_ulong (fpu env) (ddiv (ddiv (dbl_of_int N) x) (dbl_of_int n));
         PF = u64 (F * n);
         nbarrier = u64 (barrier ws + u64 (PF * incr ws))
     in ws\<lparr>param := p, chunk_size := s64 F, barrier := s64 nbarrier\<rparr>)"

text \<open>DYNAMIC shares the code of CSS; then the test whether a fetch-and-add of the chunk by
  every thread can overflow.\<close>

definition faa_mode :: "int \<Rightarrow> work_share \<Rightarrow> int" where
  "faa_mode n ws =
    (if 0 < incr ws then
       if u64 (n OR chunk_size ws) \<ge> 2 ^ 31 then 0
       else if end_it ws < s64 (LONG_MAX - s64 (s64 (n + 1) * chunk_size ws)) then 1 else 0
     else
       if u64 (n OR s64 (- chunk_size ws)) \<ge> 2 ^ 31 then 0
       else if end_it ws > s64 (s64 (s64 (n + 1) * s64 (- chunk_size ws)) - LONG_MAX) then 1 else 0)"

definition init_css :: "bo_env \<Rightarrow> int \<Rightarrow> int \<Rightarrow> int \<Rightarrow> work_share \<Rightarrow> work_share" where
  "init_css env region n N ws =
    (let p = (if sched ws = BO_CSS then css_transform_range (fpu env) (param ws)
              else if sched ws = FS_CSS then bo_css_parameter env region
              else param ws);
         ws1 = ws\<lparr>param := p, chunk_size := s64 (css_chunk_size (fpu env) p N n * incr ws)\<rparr>
     in ws1\<lparr>mode := faa_mode n ws1\<rparr>)"

definition gomp_loop_init ::
  "bo_env \<Rightarrow> int \<Rightarrow> int \<Rightarrow> int \<Rightarrow> gomp_schedule_type \<Rightarrow> int \<Rightarrow> int \<Rightarrow> nat \<Rightarrow> rt \<Rightarrow> rt"
where
  "gomp_loop_init env start e k sc chunk region a R =
    (let n = team_size R;
         ws0 = loop_init_common start e k sc chunk (store R a);
         N = loop_num_tasks ws0;
         ws = (if is_parameterized sc
               then ws0\<lparr>param := bo_schedule_parameter env region (is_bo_schedule sc)\<rparr> else ws0);
         R1 = log_call (BoBegin region (u64 N) n) R
     in
       if sc = BO_FAC \<or> sc = FS_FAC2 then set_share a (init_fac2 env n N ws) R1
       else if sc = FS_TAPE \<or> sc = FS_TAPE3 \<or> sc = BO_TAPE then set_share a (init_tape env region ws) R1
       else if sc = FS_TSS \<or> sc = BO_TSS \<or> sc = FS_TRAP1 then set_share a (init_tss env region n N ws) R1
       else if sc = FS_FSS \<or> sc = BO_FSS then set_share a (init_fss env region n N ws) R1
       else if sc = FS_BINLPT then
         set_share a (ws\<lparr>taskmap := bo_binlpt_load_loop env region, loop_start := start, nthreads_ws := u32 n,
                         thread_start := replicate (nat n) 0\<rparr>) (R1\<lparr>g_ntasks := u32 N\<rparr>)
       else if sc = FS_HSS then
         (let ts = bo_hss_load_loop env region
          in set_share a (ws\<lparr>loop_start := start, chunk_size := 1,
                             wremaining := u32 (sum_list (take (nat (u32 N)) ts))\<rparr>)
               (R1\<lparr>g_ntasks := u32 N, g_tasks := ts\<rparr>))
       else if sc = GFS_DYNAMIC \<or> sc = FS_CSS \<or> sc = BO_CSS then set_share a (init_css env region n N ws) R1
       else set_share a ws R1)"

subsection \<open>BinLPT and HSS\<close>

text \<open>\<open>scan P xs n i f\<close>: the loop \<open>for (; i < n; i++) if (P (xs[i])) break;\<close> of an \<open>int\<close> index \<open>i\<close> and an
  \<open>unsigned\<close> bound \<open>n\<close>, to which \<open>i\<close> is converted in the comparison; \<open>None\<close> when the loop reads outside
  of \<open>xs\<close>. \<open>f\<close> is fuel; one more than the length of \<open>xs\<close> is enough, because \<open>i\<close> grows until it leaves \<open>xs\<close> or
  wraps to a negative index.\<close>

fun scan :: "(int \<Rightarrow> bool) \<Rightarrow> int list \<Rightarrow> int \<Rightarrow> int \<Rightarrow> nat \<Rightarrow> int option" where
  "scan P xs n i 0 = None"
| "scan P xs n i (Suc f) =
    (if u32 i < n then
       if 0 \<le> i \<and> i < int (length xs) then
         if P (xs ! nat i) then Some i else scan P xs n (s32 (i + 1)) f
       else None
     else Some i)"

definition gomp_iter_binlpt_next :: "int \<Rightarrow> nat \<Rightarrow> work_share \<Rightarrow> ((int \<times> int) option \<times> work_share) option" where
  "gomp_iter_binlpt_next ntasks tid ws =
    (if tid < length (thread_start ws) then
       let start = s32 (thread_start ws ! tid); fuel = Suc (length (taskmap ws)) in
       case scan (\<lambda>t. t = u32 (int tid)) (taskmap ws) ntasks start fuel of
         None \<Rightarrow> None
       | Some i \<Rightarrow>
           if ntasks \<le> u32 i then Some (None, ws)
           else
             case scan (\<lambda>t. t \<noteq> u32 (int tid)) (taskmap ws) ntasks (s32 (i + 1)) fuel of
               None \<Rightarrow> None
             | Some j \<Rightarrow>
                 Some (Some (s64 (loop_start ws + i), s64 (loop_start ws + j)),
                       ws\<lparr>thread_start := (thread_start ws)[tid := u32 j]\<rparr>)
     else None)"

text \<open>The loop of HSS from task \<open>i\<close>, with \<open>r\<close> tasks left, the number \<open>k\<close> taken so far and
  their weight.\<close>

fun hss_loop :: "int \<Rightarrow> int list \<Rightarrow> nat \<Rightarrow> nat \<Rightarrow> int \<Rightarrow> int \<Rightarrow> int \<times> int" where
  "hss_loop chunksize ts i 0 k weight = (k, weight)"
| "hss_loop chunksize ts i (Suc r) k weight =
    (let k' = u32 (k + 1);
         w1 = u32 (weight + ts ! i);
         w2 = (if r \<noteq> 0 then u32 (w1 + ts ! Suc i) else 0)
     in if w2 \<le> chunksize then hss_loop chunksize ts (Suc i) r k' w1
        else if w1 \<ge> chunksize then (k', w1)
        else if w2 - chunksize > chunksize - w1 then (k', w1)
        else hss_loop chunksize ts (Suc i) r k' w1)"

definition hss_chunk :: "fpenv \<Rightarrow> int \<Rightarrow> work_share \<Rightarrow> int" where
  "hss_chunk fp n ws =
    (let c = dbl_to_long fp (dceil (ddiv (dbl_of_int (wremaining ws)) (dmul (rnd (3 / 2)) (dbl_of_int n))))
     in if c < chunk_size ws then chunk_size ws else c)"

definition gomp_iter_hss_next ::
  "fpenv \<Rightarrow> int \<Rightarrow> int \<Rightarrow> int list \<Rightarrow> work_share \<Rightarrow> (int \<times> int) option \<times> work_share"
where
  "gomp_iter_hss_next fp n ntasks ts ws =
    (let i = nat (u32 (loop_start ws));
         (k, weight) = hss_loop (hss_chunk fp n ws) ts i (nat ntasks - i) 0 0;
         s = loop_start ws; e = s64 (loop_start ws + k);
         ws' = ws\<lparr>loop_start := e, wremaining := u32 (wremaining ws - weight)\<rparr>
     in (if s = ntasks then None else Some (s, e), ws'))"

subsection \<open>Calls of the iterators\<close>

type_synonym block = "(int \<times> int) option"

definition call_fuel :: nat where "call_fuel = 16"

definition iterate :: "nat \<Rightarrow> (work_share \<Rightarrow> (block \<times> work_share) option) \<Rightarrow> rt \<Rightarrow> fault + block \<times> rt" where
  "iterate i f R = with_share i R (\<lambda>a w. case f w of None \<Rightarrow> Inl Trap | Some (r, w') \<Rightarrow> Inr (r, set_share a w' R))"

definition set_ctx :: "nat \<Rightarrow> thread_ctx \<Rightarrow> rt \<Rightarrow> rt" where
  "set_ctx i c R = set_thread i ((threads R i)\<lparr>ctx := c\<rparr>) R"

definition tid_of :: "nat \<Rightarrow> rt \<Rightarrow> int" where "tid_of i R = team_id (ctx (threads R i))"

text \<open>STATIC returns a status: 0 for a block, 1 for none, -1 for none and none before.\<close>

definition iterate_static :: "nat \<Rightarrow> rt \<Rightarrow> fault + (int \<times> block) \<times> rt" where
  "iterate_static i R = with_share i R (\<lambda>a w.
    case gomp_iter_static_next (ctx (threads R i)) w of (st, b, c) \<Rightarrow> Inr ((st, b), set_ctx i c R))"

definition static_result :: "fault + (int \<times> block) \<times> rt \<Rightarrow> fault + block \<times> rt" where
  "static_result m = bindE m (\<lambda>((st, b), R). Inr (if st = 0 then b else None, R))"

definition call_dynamic :: "nat \<Rightarrow> rt \<Rightarrow> fault + block \<times> rt" where
  "call_dynamic i = iterate i (\<lambda>w. call_alone gomp_iter_dynamic_next dyn_result call_fuel w DynCall)"

definition call_guided :: "nat \<Rightarrow> rt \<Rightarrow> fault + block \<times> rt" where
  "call_guided i R =
    iterate i (\<lambda>w. call_alone (gomp_iter_guided_next (team_size R)) guided_result call_fuel w GuidedCall) R"

text \<open>The \<open>_next\<close> routines.\<close>

definition gomp_loop_static_next :: "nat \<Rightarrow> rt \<Rightarrow> fault + block \<times> rt" where
  "gomp_loop_static_next i R = static_result (iterate_static i R)"

definition profile_start :: "block \<times> rt \<Rightarrow> fault + block \<times> rt" where
  "profile_start x = (case x of (Some (s, e), R) \<Rightarrow> Inr (Some (s, e), log_call (BoProfileStart s) R) | _ \<Rightarrow> Inr x)"

definition gomp_loop_dynamic_next :: "nat \<Rightarrow> rt \<Rightarrow> fault + block \<times> rt" where
  "gomp_loop_dynamic_next i R = bindE (call_dynamic i (log_call BoProfileStop R)) profile_start"

definition gomp_loop_guided_next :: "nat \<Rightarrow> rt \<Rightarrow> fault + block \<times> rt" where
  "gomp_loop_guided_next = call_guided"

definition bo_loop_css_next :: "nat \<Rightarrow> rt \<Rightarrow> fault + block \<times> rt" where
  "bo_loop_css_next = call_dynamic"

definition bo_loop_fac2_next :: "bo_env \<Rightarrow> nat \<Rightarrow> rt \<Rightarrow> fault + block \<times> rt" where
  "bo_loop_fac2_next env i R =
    iterate i (\<lambda>w. call_alone (bo_iter_fac2_next (fpu env) (team_size R)) batch_result call_fuel w BCall) R"

definition bo_loop_fss_next :: "bo_env \<Rightarrow> nat \<Rightarrow> rt \<Rightarrow> fault + block \<times> rt" where
  "bo_loop_fss_next env i R =
    iterate i (\<lambda>w. call_alone (bo_iter_fss_next (fpu env) (team_size R)) batch_result call_fuel w BCall) R"

definition bo_loop_tape_next :: "bo_env \<Rightarrow> nat \<Rightarrow> rt \<Rightarrow> fault + block \<times> rt" where
  "bo_loop_tape_next env i R =
    iterate i (\<lambda>w. call_alone (bo_iter_tape_next (fpu env) (team_size R)) cas_result call_fuel w CasCall) R"

definition bo_loop_tss_next :: "bo_env \<Rightarrow> nat \<Rightarrow> rt \<Rightarrow> fault + block \<times> rt" where
  "bo_loop_tss_next env i R =
    iterate i (\<lambda>w. call_alone (bo_iter_tss_next (fpu env)) cas_result call_fuel w CasCall) R"

definition gomp_loop_binlpt_next :: "nat \<Rightarrow> rt \<Rightarrow> fault + block \<times> rt" where
  "gomp_loop_binlpt_next i R = iterate i (gomp_iter_binlpt_next (g_ntasks R) (nat (tid_of i R))) R"

definition gomp_loop_hss_next :: "bo_env \<Rightarrow> nat \<Rightarrow> rt \<Rightarrow> fault + block \<times> rt" where
  "gomp_loop_hss_next env i R =
    iterate i (\<lambda>w. Some (gomp_iter_hss_next (fpu env) (team_size R) (g_ntasks R) (g_tasks R) w)) R"


subsection \<open>Starting a loop\<close>

text \<open>The protocol common to the \<open>_start\<close> routines: the first thread to arrive sets the
  descriptor up and publishes it.\<close>

definition loop_start_with :: "nat \<Rightarrow> bool \<Rightarrow> (nat \<Rightarrow> rt \<Rightarrow> fault + rt) \<Rightarrow> rt \<Rightarrow> fault + rt" where
  "loop_start_with i ordered init R =
    bindE (gomp_work_share_start i ordered R) (\<lambda>(first, R1).
      if first then
        (case ts_work_share (threads R1 i) of
           Ref a \<Rightarrow> bindE (init a R1) (\<lambda>R2. Inr (gomp_work_share_init_done i R2))
         | _ \<Rightarrow> Inl Trap)
      else Inr R1)"

definition reset_trip :: "nat \<Rightarrow> rt \<Rightarrow> rt" where
  "reset_trip i R = set_ctx i ((ctx (threads R i))\<lparr>static_trip := 0\<rparr>) R"

definition gomp_loop_static_start :: "bo_env \<Rightarrow> nat \<Rightarrow> int \<Rightarrow> int \<Rightarrow> int \<Rightarrow> int \<Rightarrow> int \<Rightarrow> rt \<Rightarrow> fault + block \<times> rt" where
  "gomp_loop_static_start env i start e k chunk region R =
    bindE (loop_start_with i False (\<lambda>a R. Inr (gomp_loop_init env start e k GFS_STATIC chunk region a R)) (reset_trip i R))
      (gomp_loop_static_next i)"

definition gomp_loop_dynamic_start :: "bo_env \<Rightarrow> nat \<Rightarrow> int \<Rightarrow> int \<Rightarrow> int \<Rightarrow> int \<Rightarrow> int \<Rightarrow> rt \<Rightarrow> fault + block \<times> rt" where
  "gomp_loop_dynamic_start env i start e k chunk region R =
    bindE (loop_start_with i False (\<lambda>a R. Inr (gomp_loop_init env start e k GFS_DYNAMIC chunk region a R)) R)
      (\<lambda>R. bindE (call_dynamic i R) profile_start)"

definition gomp_loop_guided_start :: "bo_env \<Rightarrow> nat \<Rightarrow> int \<Rightarrow> int \<Rightarrow> int \<Rightarrow> int \<Rightarrow> int \<Rightarrow> rt \<Rightarrow> fault + block \<times> rt" where
  "gomp_loop_guided_start env i start e k chunk region R =
    bindE (loop_start_with i False (\<lambda>a R. Inr (gomp_loop_init env start e k GFS_GUIDED chunk region a R)) R)
      (call_guided i)"

definition gomp_loop_binlpt_start ::
  "bo_env \<Rightarrow> nat \<Rightarrow> int \<Rightarrow> int \<Rightarrow> int \<Rightarrow> int \<Rightarrow> gomp_schedule_type \<Rightarrow> int \<Rightarrow> rt \<Rightarrow> fault + block \<times> rt"
where
  "gomp_loop_binlpt_start env i start e k chunk sc region R =
    bindE (loop_start_with i False (\<lambda>a R. Inr (gomp_loop_init env start e k sc chunk region a R)) R)
      (gomp_loop_binlpt_next i)"

definition gomp_loop_hss_start ::
  "bo_env \<Rightarrow> nat \<Rightarrow> int \<Rightarrow> int \<Rightarrow> int \<Rightarrow> int \<Rightarrow> gomp_schedule_type \<Rightarrow> int \<Rightarrow> rt \<Rightarrow> fault + block \<times> rt"
where
  "gomp_loop_hss_start env i start e k chunk sc region R =
    bindE (loop_start_with i False (\<lambda>a R. Inr (gomp_loop_init env start e k sc chunk region a R)) R)
      (gomp_loop_hss_next env i)"

definition bo_loop_css_start ::
  "bo_env \<Rightarrow> nat \<Rightarrow> int \<Rightarrow> int \<Rightarrow> int \<Rightarrow> gomp_schedule_type \<Rightarrow> int \<Rightarrow> rt \<Rightarrow> fault + block \<times> rt"
where
  "bo_loop_css_start env i start e k sc region R =
    bindE (loop_start_with i False (\<lambda>a R. Inr (gomp_loop_init env start e k sc 0 region a R)) R) (bo_loop_css_next i)"

definition bo_loop_fss_start ::
  "bo_env \<Rightarrow> nat \<Rightarrow> int \<Rightarrow> int \<Rightarrow> int \<Rightarrow> gomp_schedule_type \<Rightarrow> int \<Rightarrow> rt \<Rightarrow> fault + block \<times> rt"
where
  "bo_loop_fss_start env i start e k sc region R =
    bindE (loop_start_with i False (\<lambda>a R. Inr (gomp_loop_init env start e k sc 0 region a R)) R) (bo_loop_fss_next env i)"

definition bo_loop_tape_start ::
  "bo_env \<Rightarrow> nat \<Rightarrow> int \<Rightarrow> int \<Rightarrow> int \<Rightarrow> gomp_schedule_type \<Rightarrow> int \<Rightarrow> rt \<Rightarrow> fault + block \<times> rt"
where
  "bo_loop_tape_start env i start e k sc region R =
    bindE (loop_start_with i False (\<lambda>a R. Inr (gomp_loop_init env start e k sc 0 region a R)) R) (bo_loop_tape_next env i)"

definition bo_loop_tss_start ::
  "bo_env \<Rightarrow> nat \<Rightarrow> int \<Rightarrow> int \<Rightarrow> int \<Rightarrow> gomp_schedule_type \<Rightarrow> int \<Rightarrow> rt \<Rightarrow> fault + block \<times> rt"
where
  "bo_loop_tss_start env i start e k sc region R =
    bindE (loop_start_with i False (\<lambda>a R. Inr (gomp_loop_init env start e k sc 0 region a R)) R) (bo_loop_tss_next env i)"

definition bo_loop_fac2_start ::
  "bo_env \<Rightarrow> nat \<Rightarrow> int \<Rightarrow> int \<Rightarrow> int \<Rightarrow> gomp_schedule_type \<Rightarrow> int \<Rightarrow> rt \<Rightarrow> fault + block \<times> rt"
where
  "bo_loop_fac2_start env i start e k sc region R =
    bindE (loop_start_with i False (\<lambda>a R. Inr (gomp_loop_init env start e k sc 0 region a R)) R) (bo_loop_fac2_next env i)"

subsection \<open>The runtime schedule\<close>

text \<open>The two members of \<open>struct gomp_task_icv\<close> that say what \<open>schedule(runtime)\<close> means.\<close>

record task_icv =
  run_sched_var :: gomp_schedule_type
  run_sched_chunk_size :: int

definition GOMP_loop_runtime_start ::
  "bo_env \<Rightarrow> task_icv \<Rightarrow> nat \<Rightarrow> int \<Rightarrow> int \<Rightarrow> int \<Rightarrow> int \<Rightarrow> rt \<Rightarrow> fault + block \<times> rt"
where
  "GOMP_loop_runtime_start env icv i start e k region R =
    (let sc = run_sched_var icv; chunk = run_sched_chunk_size icv in
     if bo_fallback_static env region (is_bo_schedule sc)
     then gomp_loop_static_start env i start e k chunk region R
     else
       (case sc of
          GFS_STATIC \<Rightarrow> gomp_loop_static_start env i start e k chunk region R
        | GFS_DYNAMIC \<Rightarrow> gomp_loop_dynamic_start env i start e k chunk region R
        | GFS_GUIDED \<Rightarrow> gomp_loop_guided_start env i start e k chunk region R
        | GFS_AUTO \<Rightarrow> gomp_loop_static_start env i start e k 0 region R
        | FS_BINLPT \<Rightarrow> gomp_loop_binlpt_start env i start e k 0 sc region R
        | FS_HSS \<Rightarrow> gomp_loop_hss_start env i start e k 0 sc region R
        | FS_FAC2 \<Rightarrow> bo_loop_fac2_start env i start e k sc region R
        | FS_FSS \<Rightarrow> bo_loop_fss_start env i start e k sc region R
        | BO_FSS \<Rightarrow> bo_loop_fss_start env i start e k sc region R
        | FS_TSS \<Rightarrow> bo_loop_tss_start env i start e k sc region R
        | FS_TRAP1 \<Rightarrow> bo_loop_tss_start env i start e k sc region R
        | BO_TSS \<Rightarrow> bo_loop_tss_start env i start e k sc region R
        | FS_CSS \<Rightarrow> bo_loop_css_start env i start e k sc region R
        | BO_CSS \<Rightarrow> bo_loop_css_start env i start e k sc region R
        | FS_TAPE \<Rightarrow> bo_loop_tape_start env i start e k sc region R
        | FS_TAPE3 \<Rightarrow> bo_loop_tape_start env i start e k sc region R
        | BO_TAPE \<Rightarrow> bo_loop_tape_start env i start e k sc region R
        | _ \<Rightarrow> Inl Abort))"

definition GOMP_loop_runtime_next :: "bo_env \<Rightarrow> nat \<Rightarrow> rt \<Rightarrow> fault + block \<times> rt" where
  "GOMP_loop_runtime_next env i R0 =
    (let R = log_call BoIterationStop R0 in
     bindE (with_share i R (\<lambda>a w.
       case sched w of
         GFS_STATIC \<Rightarrow> gomp_loop_static_next i R
       | GFS_AUTO \<Rightarrow> gomp_loop_static_next i R
       | GFS_DYNAMIC \<Rightarrow> gomp_loop_dynamic_next i R
       | GFS_GUIDED \<Rightarrow> gomp_loop_guided_next i R
       | FS_BINLPT \<Rightarrow> gomp_loop_binlpt_next i R
       | FS_HSS \<Rightarrow> gomp_loop_hss_next env i R
       | FS_FAC2 \<Rightarrow> bo_loop_fac2_next env i R
       | FS_FSS \<Rightarrow> bo_loop_fss_next env i R
       | BO_FSS \<Rightarrow> bo_loop_fss_next env i R
       | FS_TSS \<Rightarrow> bo_loop_tss_next env i R
       | FS_TRAP1 \<Rightarrow> bo_loop_tss_next env i R
       | BO_TSS \<Rightarrow> bo_loop_tss_next env i R
       | FS_CSS \<Rightarrow> bo_loop_css_next i R
       | BO_CSS \<Rightarrow> bo_loop_css_next i R
       | FS_TAPE \<Rightarrow> bo_loop_tape_next env i R
       | FS_TAPE3 \<Rightarrow> bo_loop_tape_next env i R
       | BO_TAPE \<Rightarrow> bo_loop_tape_next env i R
       | _ \<Rightarrow> Inl Abort))
     (\<lambda>(b, R'). Inr (b, if b \<noteq> None then log_call BoIterationStart R' else R')))"

subsection \<open>Ordered loops\<close>

text \<open>The ordered operations on the caller's descriptor and the team's semaphores; a caller
  that would sleep is \<open>Blocked\<close>.\<close>

definition with_ordered :: "nat \<Rightarrow> (int option \<Rightarrow> int \<Rightarrow> work_share \<times> sems \<Rightarrow> work_share \<times> sems) \<Rightarrow> rt \<Rightarrow> fault + rt" where
  "with_ordered i f R = with_share i R (\<lambda>a w.
    case f (team R) (tid_of i R) (w, ordered_release R) of
      (w', sm) \<Rightarrow> Inr (set_share a w' (R\<lparr>ordered_release := sm\<rparr>)))"

definition ordered_sync :: "nat \<Rightarrow> rt \<Rightarrow> fault + rt" where
  "ordered_sync i R = with_share i R (\<lambda>a w.
    case gomp_ordered_sync (team R) (tid_of i R) (w, ordered_release R) of
      None \<Rightarrow> Inl Blocked
    | Some (w', sm) \<Rightarrow> Inr (set_share a w' (R\<lparr>ordered_release := sm\<rparr>)))"

definition iterate_locked :: "nat \<Rightarrow> (work_share \<Rightarrow> block \<times> work_share) \<Rightarrow> rt \<Rightarrow> fault + block \<times> rt" where
  "iterate_locked i f = iterate i (\<lambda>w. Some (f w))"

definition register_first :: "nat \<Rightarrow> block \<times> rt \<Rightarrow> fault + block \<times> rt" where
  "register_first i x = (case x of (b, R) \<Rightarrow>
    if b = None then Inr (b, R) else bindE (with_ordered i gomp_ordered_first R) (\<lambda>R'. Inr (b, R')))"

definition gomp_loop_ordered_static_start :: "bo_env \<Rightarrow> nat \<Rightarrow> int \<Rightarrow> int \<Rightarrow> int \<Rightarrow> int \<Rightarrow> rt \<Rightarrow> fault + block \<times> rt" where
  "gomp_loop_ordered_static_start env i start e k chunk R =
    bindE (loop_start_with i True
        (\<lambda>a R. with_ordered i (\<lambda>tm tid. gomp_ordered_static_init tm) (gomp_loop_init env start e k GFS_STATIC chunk 0 a R))
        (reset_trip i R))
      (gomp_loop_static_next i)"

definition gomp_loop_ordered_dynamic_start :: "bo_env \<Rightarrow> nat \<Rightarrow> int \<Rightarrow> int \<Rightarrow> int \<Rightarrow> int \<Rightarrow> rt \<Rightarrow> fault + block \<times> rt" where
  "gomp_loop_ordered_dynamic_start env i start e k chunk R =
    bindE (loop_start_with i True (\<lambda>a R. Inr (gomp_loop_init env start e k GFS_DYNAMIC chunk 0 a R)) R)
      (\<lambda>R. bindE (iterate_locked i gomp_iter_dynamic_next_locked R) (register_first i))"

definition gomp_loop_ordered_guided_start :: "bo_env \<Rightarrow> nat \<Rightarrow> int \<Rightarrow> int \<Rightarrow> int \<Rightarrow> int \<Rightarrow> rt \<Rightarrow> fault + block \<times> rt" where
  "gomp_loop_ordered_guided_start env i start e k chunk R =
    bindE (loop_start_with i True (\<lambda>a R. Inr (gomp_loop_init env start e k GFS_GUIDED chunk 0 a R)) R)
      (\<lambda>R. bindE (iterate_locked i (gomp_iter_guided_next_locked (team_size R)) R) (register_first i))"

definition GOMP_loop_ordered_runtime_start ::
  "bo_env \<Rightarrow> task_icv \<Rightarrow> nat \<Rightarrow> int \<Rightarrow> int \<Rightarrow> int \<Rightarrow> rt \<Rightarrow> fault + block \<times> rt"
where
  "GOMP_loop_ordered_runtime_start env icv i start e k R =
    (let chunk = run_sched_chunk_size icv in
     case run_sched_var icv of
       GFS_STATIC \<Rightarrow> gomp_loop_ordered_static_start env i start e k chunk R
     | GFS_DYNAMIC \<Rightarrow> gomp_loop_ordered_dynamic_start env i start e k chunk R
     | GFS_GUIDED \<Rightarrow> gomp_loop_ordered_guided_start env i start e k chunk R
     | GFS_AUTO \<Rightarrow> gomp_loop_ordered_static_start env i start e k 0 R
     | _ \<Rightarrow> Inl Abort)"

definition gomp_loop_ordered_static_next :: "nat \<Rightarrow> rt \<Rightarrow> fault + block \<times> rt" where
  "gomp_loop_ordered_static_next i R =
    bindE (ordered_sync i R) (\<lambda>R1.
      bindE (iterate_static i R1) (\<lambda>((test, b), R2).
        bindE (if test \<ge> 0 then with_ordered i gomp_ordered_static_next R2 else Inr R2) (\<lambda>R3.
          Inr (if test = 0 then b else None, R3))))"

definition move_or_leave :: "nat \<Rightarrow> block \<times> rt \<Rightarrow> fault + block \<times> rt" where
  "move_or_leave i x = (case x of (b, R) \<Rightarrow>
    bindE (with_ordered i (if b \<noteq> None then gomp_ordered_next else gomp_ordered_last) R) (\<lambda>R'. Inr (b, R')))"

definition gomp_loop_ordered_dynamic_next :: "nat \<Rightarrow> rt \<Rightarrow> fault + block \<times> rt" where
  "gomp_loop_ordered_dynamic_next i R =
    bindE (ordered_sync i R) (\<lambda>R1.
      bindE (iterate_locked i gomp_iter_dynamic_next_locked R1) (move_or_leave i))"

definition gomp_loop_ordered_guided_next :: "nat \<Rightarrow> rt \<Rightarrow> fault + block \<times> rt" where
  "gomp_loop_ordered_guided_next i R =
    bindE (ordered_sync i R) (\<lambda>R1.
      bindE (iterate_locked i (gomp_iter_guided_next_locked (team_size R1)) R1) (move_or_leave i))"

definition GOMP_loop_ordered_runtime_next :: "nat \<Rightarrow> rt \<Rightarrow> fault + block \<times> rt" where
  "GOMP_loop_ordered_runtime_next i R = with_share i R (\<lambda>a w.
    case sched w of
      GFS_STATIC \<Rightarrow> gomp_loop_ordered_static_next i R
    | GFS_AUTO \<Rightarrow> gomp_loop_ordered_static_next i R
    | GFS_DYNAMIC \<Rightarrow> gomp_loop_ordered_dynamic_next i R
    | GFS_GUIDED \<Rightarrow> gomp_loop_ordered_guided_next i R
    | _ \<Rightarrow> Inl Abort)"

subsection \<open>Doacross loops\<close>

definition init_doacross ::
  "bo_env \<Rightarrow> int list \<Rightarrow> gomp_schedule_type \<Rightarrow> int \<Rightarrow> nat \<Rightarrow> rt \<Rightarrow> fault + rt"
where
  "init_doacross env counts sc chunk a R =
    (let R1 = gomp_loop_init env 0 (hd counts) 1 sc chunk 0 a R
     in bindE (gomp_doacross_init (team R1) counts chunk (store R1 a)) (\<lambda>w. Inr (set_share a w R1)))"

definition gomp_loop_doacross_static_start :: "bo_env \<Rightarrow> nat \<Rightarrow> int list \<Rightarrow> int \<Rightarrow> rt \<Rightarrow> fault + block \<times> rt" where
  "gomp_loop_doacross_static_start env i counts chunk R =
    bindE (loop_start_with i False (init_doacross env counts GFS_STATIC chunk) (reset_trip i R)) (gomp_loop_static_next i)"

definition gomp_loop_doacross_dynamic_start :: "bo_env \<Rightarrow> nat \<Rightarrow> int list \<Rightarrow> int \<Rightarrow> rt \<Rightarrow> fault + block \<times> rt" where
  "gomp_loop_doacross_dynamic_start env i counts chunk R =
    bindE (loop_start_with i False (init_doacross env counts GFS_DYNAMIC chunk) R) (call_dynamic i)"

definition gomp_loop_doacross_guided_start :: "bo_env \<Rightarrow> nat \<Rightarrow> int list \<Rightarrow> int \<Rightarrow> rt \<Rightarrow> fault + block \<times> rt" where
  "gomp_loop_doacross_guided_start env i counts chunk R =
    bindE (loop_start_with i False (init_doacross env counts GFS_GUIDED chunk) R) (call_guided i)"

definition GOMP_loop_doacross_runtime_start :: "bo_env \<Rightarrow> task_icv \<Rightarrow> nat \<Rightarrow> int list \<Rightarrow> rt \<Rightarrow> fault + block \<times> rt" where
  "GOMP_loop_doacross_runtime_start env icv i counts R =
    (let chunk = run_sched_chunk_size icv in
     case run_sched_var icv of
       GFS_STATIC \<Rightarrow> gomp_loop_doacross_static_start env i counts chunk R
     | GFS_DYNAMIC \<Rightarrow> gomp_loop_doacross_dynamic_start env i counts chunk R
     | GFS_GUIDED \<Rightarrow> gomp_loop_doacross_guided_start env i counts chunk R
     | GFS_AUTO \<Rightarrow> gomp_loop_doacross_static_start env i counts 0 R
     | _ \<Rightarrow> gomp_loop_doacross_guided_start env i counts chunk R)"

subsection \<open>Ending a loop\<close>

definition GOMP_loop_end :: "nat \<Rightarrow> int \<Rightarrow> bool \<Rightarrow> rt \<Rightarrow> fault + rt" where
  "GOMP_loop_end i region is_last R = gomp_work_share_end i region is_last R"

definition GOMP_loop_end_cancel :: "nat \<Rightarrow> int \<Rightarrow> bool \<Rightarrow> bool \<Rightarrow> rt \<Rightarrow> bool \<times> rt" where
  "GOMP_loop_end_cancel i region is_last cancelled R = gomp_work_share_end_cancel i region is_last cancelled R"

definition GOMP_loop_end_nowait :: "nat \<Rightarrow> int \<Rightarrow> rt \<Rightarrow> fault + rt" where
  "GOMP_loop_end_nowait i region R = gomp_work_share_end_nowait i region R"

subsection \<open>Combined parallel loops\<close>

text \<open>\<open>gomp_parallel_loop_start\<close>: a new team whose first descriptor is already set up. The
  number of threads is what \<open>gomp_resolve_num_threads\<close> returned; starting the threads
  (\<open>gomp_team_start\<close>) gives each of them that descriptor.\<close>

definition team_threads :: "int \<Rightarrow> rt \<Rightarrow> rt" where
  "team_threads n R = R\<lparr>threads := (\<lambda>i. if int i < n
      then \<lparr>ctx = \<lparr>team_nthreads = Some n, team_id = int i, static_trip = 0\<rparr>,
            ts_work_share = Ref 0, ts_last_work_share = Null, single_seen = 0\<rparr>
      else threads R i)\<rparr>"

definition gomp_parallel_loop_start ::
  "bo_env \<Rightarrow> int \<Rightarrow> int \<Rightarrow> int \<Rightarrow> int \<Rightarrow> gomp_schedule_type \<Rightarrow> int \<Rightarrow> int \<Rightarrow> rt \<Rightarrow> rt"
where
  "gomp_parallel_loop_start env num_threads start e k sc chunk region R =
    team_threads num_threads
      (gomp_loop_init env start e k sc chunk region 0 ((gomp_new_team num_threads R)\<lparr>team := team R\<rparr>))
    \<lparr>team := Some num_threads\<rparr>"


definition GOMP_parallel_loop_static_start :: "bo_env \<Rightarrow> int \<Rightarrow> int \<Rightarrow> int \<Rightarrow> int \<Rightarrow> int \<Rightarrow> rt \<Rightarrow> rt" where
  "GOMP_parallel_loop_static_start env n start e k chunk R = gomp_parallel_loop_start env n start e k GFS_STATIC chunk 0 R"

definition GOMP_parallel_loop_dynamic_start :: "bo_env \<Rightarrow> int \<Rightarrow> int \<Rightarrow> int \<Rightarrow> int \<Rightarrow> int \<Rightarrow> rt \<Rightarrow> rt" where
  "GOMP_parallel_loop_dynamic_start env n start e k chunk R = gomp_parallel_loop_start env n start e k GFS_DYNAMIC chunk 0 R"

definition GOMP_parallel_loop_guided_start :: "bo_env \<Rightarrow> int \<Rightarrow> int \<Rightarrow> int \<Rightarrow> int \<Rightarrow> int \<Rightarrow> rt \<Rightarrow> rt" where
  "GOMP_parallel_loop_guided_start env n start e k chunk R = gomp_parallel_loop_start env n start e k GFS_GUIDED chunk 0 R"

definition GOMP_parallel_loop_runtime_start :: "bo_env \<Rightarrow> task_icv \<Rightarrow> int \<Rightarrow> int \<Rightarrow> int \<Rightarrow> int \<Rightarrow> int \<Rightarrow> rt \<Rightarrow> rt" where
  "GOMP_parallel_loop_runtime_start env icv n start e k region R =
    gomp_parallel_loop_start env n start e k (run_sched_var icv) (run_sched_chunk_size icv) region R"

end
