(* ===== verification/LoopProps.thy ===== *)
theory LoopProps
  imports Loop
begin

text \<open>Properties of the loop entry points and of the BinLPT and HSS iterators.\<close>

subsection \<open>The descriptor of a DYNAMIC loop\<close>

lemma css_chunk_range: "1 \<le> N \<Longrightarrow> 1 \<le> css_chunk_size fp p N P \<and> css_chunk_size fp p N P \<le> N"
  by (auto simp: css_chunk_size_def clip_def)

lemma or_lt_split:
  fixes a b m :: int
  assumes "0 \<le> a" and "0 \<le> b" and "b \<le> LONG_MAX" and "a < 2 ^ 31" and "\<not> u64 (a OR b) \<ge> 2 ^ 31"
  shows "b < 2 ^ 31"
proof -
  have "a < 2 ^ 63" "b < 2 ^ 63" using assms by auto
  then have "a OR b < 2 ^ 63" using assms(1) by (intro OR_upper) auto
  moreover have "0 \<le> a OR b" using assms by simp
  ultimately have "u64 (a OR b) = a OR b" by (intro u64_id) auto
  then have "a OR b < 2 ^ 31" using assms(5) by simp
  moreover have "b \<le> a OR b" using assms(1,2) or_greater_eq [of a b] by (simp add: or.commute)
  ultimately show ?thesis by linarith
qed

text \<open>The guard of the fetch-and-add mode leaves room for the chunk of every thread, in both
  directions.\<close>

lemma faa_mode_room:
  fixes ws n
  defines "c \<equiv> chunk_size ws"
  assumes "1 \<le> n" and "n < 2 ^ 31" and "\<bar>c\<bar> \<le> LONG_MAX" and "faa_mode n ws \<noteq> 0" and "0 \<le> sgn (incr ws) * c"
    and "incr ws \<noteq> 0"
  shows "0 < incr ws \<Longrightarrow> end_it ws + (n + 1) * c \<le> LONG_MAX" "incr ws < 0 \<Longrightarrow> LONG_MIN \<le> end_it ws + (n + 1) * c"
proof -
  have n1: "s64 (n + 1) = n + 1" using assms(2,3) by (intro s64_id) auto
  have prod: "s64 (s64 (n + 1) * d) = (n + 1) * d \<and> (n + 1) * d \<le> 2 ^ 62" if "0 \<le> d" "d < 2 ^ 31" for d
  proof -
    have "(n + 1) * d \<le> 2 ^ 31 * 2 ^ 31" using that assms(2,3) by (intro mult_mono) auto
    moreover have "0 \<le> (n + 1) * d" using that assms(2) by simp
    ultimately show ?thesis unfolding n1 by (simp add: s64_id)
  qed
  show "end_it ws + (n + 1) * c \<le> LONG_MAX" if "0 < incr ws"
  proof -
    have c: "0 \<le> c" using assms(6) that by simp
    have "\<not> u64 (n OR c) \<ge> 2 ^ 31" and m: "end_it ws < s64 (LONG_MAX - s64 (s64 (n + 1) * c))"
      using assms(5) that by (auto simp: faa_mode_def c_def split: if_splits)
    with or_lt_split [of n c] c assms(2-4) have "c < 2 ^ 31" by auto
    note P = prod [OF c this]
    then have "s64 (LONG_MAX - s64 (s64 (n + 1) * c)) = LONG_MAX - (n + 1) * c"
      using c assms(2) by (simp add: s64_id)
    then show ?thesis using m by linarith
  qed
  show "LONG_MIN \<le> end_it ws + (n + 1) * c" if "incr ws < 0"
  proof -
    have c: "0 \<le> - c" using assms(6) that by simp
    have nc: "s64 (- c) = - c" using assms(4) c by (intro s64_id) auto
    have "\<not> u64 (n OR - c) \<ge> 2 ^ 31" and m: "end_it ws > s64 (s64 (s64 (n + 1) * (- c)) - LONG_MAX)"
      using assms(5) that nc by (auto simp: faa_mode_def c_def split: if_splits)
    with or_lt_split [of n "- c"] c assms(2-4) have "- c < 2 ^ 31" by auto
    note P = prod [OF c this]
    have "0 \<le> (n + 1) * - c" using c assms(2) by (intro mult_nonneg_nonneg) auto
    then have "s64 (s64 (s64 (n + 1) * (- c)) - LONG_MAX) = (n + 1) * (- c) - LONG_MAX"
      using P by (simp add: s64_id)
    then show ?thesis using m by simp
  qed
qed

definition dynamic_like :: "gomp_schedule_type \<Rightarrow> bool" where
  "dynamic_like sc \<longleftrightarrow> sc = GFS_DYNAMIC \<or> sc = FS_CSS \<or> sc = BO_CSS"

lemma init_dynamic_store:
  fixes env start e k sc chunk region a R
  defines "ws0 \<equiv> loop_init_common start e k sc chunk (store R a)"
  assumes "dynamic_like sc"
  shows "store (gomp_loop_init env start e k sc chunk region a R) a =
    init_css env region (team_size R) (loop_num_tasks ws0)
      (if is_parameterized sc then ws0\<lparr>param := bo_schedule_parameter env region (is_bo_schedule sc)\<rparr> else ws0)"
  using assms(2) unfolding dynamic_like_def gomp_loop_init_def ws0_def Let_def by (elim disjE) simp_all

lemma init_css_shape:
  obtains p where "init_css env region n N ws =
    (let ws1 = ws\<lparr>param := p, chunk_size := s64 (css_chunk_size (fpu env) p N n * incr ws)\<rparr>
     in ws1\<lparr>mode := faa_mode n ws1\<rparr>)"
  by (simp add: init_css_def Let_def)

lemma init_dynamic_ok:
  assumes "dynamic_like sc" and "k \<noteq> 0" and "is_long start" "is_long e" "is_long k"
    and "\<bar>k\<bar> \<le> sgn k * (e - start)" and "sgn k * (e - start) \<le> LONG_MAX"
    and "1 \<le> team_size R" and "team_size R < 2 ^ 31"
  shows "dyn_ok (nat (team_size R)) (store (gomp_loop_init env start e k sc chunk region a R) a) 0
    \<and> next_it (store (gomp_loop_init env start e k sc chunk region a R) a) = start
    \<and> end_it (store (gomp_loop_init env start e k sc chunk region a R) a) = e
    \<and> incr (store (gomp_loop_init env start e k sc chunk region a R) a) = k"
proof -
  let ?n = "team_size R" let ?D = "sgn k * (e - start)"
  define ws0 where "ws0 = loop_init_common start e k sc chunk (store R a)"
  define ws where "ws = store (gomp_loop_init env start e k sc chunk region a R) a"
  have k: "0 < \<bar>k\<bar>" using assms(2) by simp
  have E: "end_it ws0 = e" "incr ws0 = k" "next_it ws0 = start"
    using assms(2,6) by (auto simp: ws0_def loop_init_common_def sgn_if split: if_splits)
  have "long_loop ws0" using assms(2-7) by (auto simp: long_loop_def extent_def E)
  have ed: "e - start = sgn k * ?D" using assms(2) by (simp add: sgn_if)
  have "\<bar>e - start\<bar> \<le> LONG_MAX" using assms(2,6,7) by (auto simp: sgn_if split: if_splits)
  then have "s64 (e - start) = sgn k * ?D" using ed by (subst s64_id) (auto simp: abs_le_iff)
  then have nt: "loop_num_tasks ws0 = ?D div \<bar>k\<bar>"
    using sdiv_same_sign [of ?D k] assms(2,6) by (simp add: loop_num_tasks_def E)
  have "1 \<le> ?D div \<bar>k\<bar>" using assms(6) k by (simp add: pos_imp_zdiv_pos_iff int_one_le_iff_zero_less)
  then have N: "1 \<le> loop_num_tasks ws0" "loop_num_tasks ws0 * \<bar>k\<bar> \<le> ?D"
    unfolding nt using div_mult_mod_eq [of ?D "\<bar>k\<bar>"] pos_mod_sign [OF k, of ?D] by linarith+
  obtain p where ws: "ws = (let ws1 = ws0\<lparr>param := p, chunk_size := s64 (css_chunk_size (fpu env) p (loop_num_tasks ws0) ?n * k)\<rparr>
      in ws1\<lparr>mode := faa_mode ?n ws1\<rparr>)"
    using init_dynamic_store [OF assms(1), of env start e k chunk region a R]
      init_css_shape [of env region ?n "loop_num_tasks ws0" "if is_parameterized sc
        then ws0\<lparr>param := bo_schedule_parameter env region (is_bo_schedule sc)\<rparr> else ws0"]
    by (cases "is_parameterized sc") (auto simp: ws_def ws0_def [symmetric] E Let_def)
  define c where "c = css_chunk_size (fpu env) p (loop_num_tasks ws0) ?n"
  have c: "1 \<le> c" "c \<le> loop_num_tasks ws0" using css_chunk_range [OF N(1)] by (auto simp: c_def)
  have "c * \<bar>k\<bar> \<le> loop_num_tasks ws0 * \<bar>k\<bar>" using c(2) by (intro mult_right_mono) auto
  then have ck: "\<bar>c * k\<bar> \<le> LONG_MAX" "c * \<bar>k\<bar> \<le> ?D" using N(2) assms(7) c(1) by (auto simp: abs_mult)
  then have s: "s64 (c * k) = c * k" by (intro s64_id) (auto simp: abs_le_iff)
  define ws1 where "ws1 = ws0\<lparr>param := p, chunk_size := c * k\<rparr>"
  have W: "ws = ws1\<lparr>mode := faa_mode ?n ws1\<rparr>" using ws s by (simp add: ws1_def c_def Let_def)
  have sg: "0 \<le> sgn k * (c * k)" using c(1) assms(2) by (simp add: sgn_if zero_le_mult_iff mult_le_0_iff)
  note room = faa_mode_room [of ?n ws1]
  have cdiv: "c * k mod k = 0" "c * k div k = c" using assms(2) by simp_all
  have L: "long_loop ws" using \<open>long_loop ws0\<close> by (simp add: W ws1_def long_loop_def extent_def)
  have F: "incr ws = k" "end_it ws = e" "next_it ws = start" "chunk_size ws = c * k" "mode ws = faa_mode ?n ws1"
    by (simp_all add: W ws1_def E)
  have "dyn_ok (nat ?n) ws 0"
    unfolding dyn_ok_def F
  proof (intro conjI impI)
    assume m: "faa_mode ?n ws1 \<noteq> 0"
    have W1: "chunk_size ws1 = c * k" "incr ws1 = k" "end_it ws1 = e" by (simp_all add: ws1_def E)
    note room = faa_mode_room [of ?n ws1, unfolded W1, OF assms(8,9) ck(1) m sg assms(2)]
    show "e + (int (nat ?n) + 1) * (c * k) \<le> LONG_MAX" if "0 < k" using room(1) that assms(8) by simp
    show "LONG_MIN \<le> e + (int (nat ?n) + 1) * (c * k)" if "k < 0" using room(2) that assms(8) by simp
    show "start \<le> e + (int 0 + 1) * (c * k)" if "0 < k" using ck(2) that assms(6) sg by simp
    show "e + (int 0 + 1) * (c * k) \<le> start" if "k < 0" using that assms(6) sg by (simp add: zero_le_mult_iff)
    show "e - start \<le> LONG_MAX" if "0 < k" using that assms(7) by simp
    show "start - e \<le> LONG_MAX" if "k < 0" using that assms(7) by simp
  qed (use L ck(1) c(1) cdiv assms(2-5) in \<open>auto simp: abs_le_iff\<close>)
  then show ?thesis using E by (simp add: ws_def [symmetric] W ws1_def)
qed

lemma init_dynamic_bounds:
  fixes env start e k sc chunk region a R
  defines "ws \<equiv> store (gomp_loop_init env start e k sc chunk region a R) a"
  assumes "dynamic_like sc"
  shows "next_it ws = start" "incr ws = k" "k \<noteq> 0 \<Longrightarrow> end_it ws = (if sgn k * (e - start) < 0 then start else e)"
  using init_dynamic_store [OF assms(2), of env start e k chunk region a R]
  by (auto simp: ws_def init_css_def loop_init_common_def Let_def sgn_if)

text \<open>
  C21. \<open>gomp_loop_init\<close> for DYNAMIC and CSS, which share their code, in a team of at least one and
  fewer than \<open>2 ^ 31\<close> threads. The descriptor has the start and the step of the loop, and its end unless the
  loop has no iteration because it starts beyond its end, when the end becomes the start; a first call on the
  descriptor of a loop without iterations is refused. A loop with room for a whole step, and whose length fits a
  \<open>long\<close>, gets a descriptor on which the lock-free iterator is exact for the whole team: the chunk
  is a positive multiple of the step, and fetch-and-add mode is chosen only if no interleaving of the calls can push
  \<open>next\<close> out of the range of a \<open>long\<close>. (Nothing is stated for a loop with a single iteration that is shorter
  than one step, whose trip count the code takes to be 0: its chunk depends on what \<open>pow\<close> returns.)
\<close>

theorem loop_init_dynamic_ok:
  fixes env start e k sc chunk region a R
  assumes "dynamic_like sc" and "k \<noteq> 0" and "is_long start" "is_long e" "is_long k"
    and "1 \<le> team_size R" and "team_size R < 2 ^ 31"
  shows "let ws = store (gomp_loop_init env start e k sc chunk region a R) a; D = sgn k * (e - start) in
    next_it ws = start \<and> incr ws = k \<and> end_it ws = (if D < 0 then start else e)
    \<and> (D \<le> 0 \<longrightarrow> map_option fst (call_alone gomp_iter_dynamic_next dyn_result call_fuel ws DynCall) = Some None)
    \<and> (\<bar>k\<bar> \<le> D \<and> D \<le> LONG_MAX \<longrightarrow> dyn_ok (nat (team_size R)) ws 0)"
proof -
  define ws where "ws = store (gomp_loop_init env start e k sc chunk region a R) a"
  let ?D = "sgn k * (e - start)"
  note B = init_dynamic_bounds [OF assms(1), where env = env and start = start and e = e and k = k and chunk = chunk
      and region = region and a = a and R = R, folded ws_def]
  have "map_option fst (call_alone gomp_iter_dynamic_next dyn_result call_fuel ws DynCall) = Some None" if "?D \<le> 0"
  proof -
    have "end_it ws = start" using B(3) [OF assms(2)] that assms(2) by (auto simp: sgn_if split: if_splits)
    then show ?thesis using B(1,2) by (cases "mode ws = 0") (simp_all add: call_fuel_def eval_nat_numeral Let_def)
  qed
  moreover have "dyn_ok (nat (team_size R)) ws 0" if "\<bar>k\<bar> \<le> ?D" "?D \<le> LONG_MAX"
    using init_dynamic_ok [OF assms(1-5) that assms(6,7)] by (simp add: ws_def)
  ultimately show ?thesis using B(1,2) B(3) [OF assms(2)] by (simp add: ws_def [symmetric])
qed

text \<open>An instance of the tuner interface, for the witnesses.\<close>

definition env_example :: bo_env where
  "env_example = \<lparr>fpu = \<lparr>pow_fn = \<lambda>x y. x, log_fn = \<lambda>x. x, ub_ulong = \<lambda>_. 0, ub_long = \<lambda>_. 0\<rparr>,
     bo_schedule_parameter = \<lambda>_ _. Fin (1 / 2), bo_tape_parameter = \<lambda>_. Fin 1, bo_tss_parameter = \<lambda>_. Fin 1,
     bo_fss_parameter = \<lambda>_. Fin 1, bo_css_parameter = \<lambda>_. Fin 1, bo_fallback_static = \<lambda>_ _. False,
     bo_binlpt_load_loop = \<lambda>_. [0, 1, 1, 0], bo_hss_load_loop = \<lambda>_. [4, 3, 2, 1]\<rparr>"

theorem loop_init_dynamic_ok_witness:
  "dyn_ok 4 (store (gomp_loop_init env_example 10 100 3 GFS_DYNAMIC 1 0 5 (new_team_example 4)) 5) 0"
  using loop_init_dynamic_ok [of GFS_DYNAMIC 3 10 100 "new_team_example 4" env_example 1 0 5]
  by (simp add: Let_def dynamic_like_def team_size_def new_team_example_pools(3))

text \<open>
  The chunk size that the program asks for in \<open>schedule(dynamic, chunk)\<close> has no effect:
  \<open>gomp_loop_init\<close> replaces it by the chunk of CSS, so descriptors set up with different chunk
  sizes are equal.
\<close>

theorem dynamic_ignores_chunk_argument:
  "store (gomp_loop_init env start e k GFS_DYNAMIC chunk region a R) a =
   store (gomp_loop_init env start e k GFS_DYNAMIC chunk' region a R) a"
  by (simp add: gomp_loop_init_def init_css_def loop_init_common_def loop_num_tasks_def faa_mode_def
      is_parameterized_def is_bo_schedule_def Let_def)

subsection \<open>Every call returns\<close>

lemma alone_of_lone: "lone_returns step result start f 1 [] ws \<Longrightarrow> result start = None \<Longrightarrow> call_alone step result f ws start \<noteq> None"
  by (auto simp: lone_returns_def team_init_def)

text \<open>A call of any of the lock-free \<open>long\<close> iterators that runs alone returns within the sixteen steps that the
  entry points allow it.\<close>

lemma iterator_calls_return:
  assumes "long_loop ws"
  shows "(dyn_ok 1 ws 0 \<longrightarrow> call_alone gomp_iter_dynamic_next dyn_result call_fuel ws DynCall \<noteq> None)
    \<and> (guided_ok n ws \<longrightarrow> call_alone (gomp_iter_guided_next n) guided_result call_fuel ws GuidedCall \<noteq> None)
    \<and> call_alone (bo_iter_tape_next fp n) cas_result call_fuel ws CasCall \<noteq> None
    \<and> call_alone (bo_iter_tss_next fp) cas_result call_fuel ws CasCall \<noteq> None
    \<and> (chunked ws \<or> barrier ws = next_it ws \<longrightarrow> call_alone (bo_iter_fac2_next fp n) batch_result call_fuel ws BCall \<noteq> None
        \<and> (fss_good ws \<longrightarrow> call_alone (bo_iter_fss_next fp n) batch_result call_fuel ws BCall \<noteq> None))"
proof -
  have "dyn_mu w p < call_fuel" for w p by (cases p) (auto simp: call_fuel_def)
  then have a: "dyn_ok 1 ws 0 \<longrightarrow> call_alone gomp_iter_dynamic_next dyn_result call_fuel ws DynCall \<noteq> None"
    using dynamic.run_lone_returns [of 1 ws "[]" call_fuel] by (intro impI alone_of_lone) auto
  have "guided_mu w p < call_fuel" for w p by (cases p) (auto simp: call_fuel_def)
  then have b: "guided_ok n ws \<longrightarrow> call_alone (gomp_iter_guided_next n) guided_result call_fuel ws GuidedCall \<noteq> None"
    using guided.run_lone_returns [of n ws "[]" 1 call_fuel] by (intro impI alone_of_lone) auto
  have "tape.mu w p < call_fuel" "tss.mu w p < call_fuel" for w p
    by (cases p; simp add: call_fuel_def tape.mu.simps tss.mu.simps)+
  then have c: "call_alone (bo_iter_tape_next fp n) cas_result call_fuel ws CasCall \<noteq> None"
      "call_alone (bo_iter_tss_next fp) cas_result call_fuel ws CasCall \<noteq> None"
    unfolding bo_iter_tape_next_def bo_iter_tss_next_def
    using tape.run_lone_returns [OF assms, of "[]" 1 call_fuel] tss.run_lone_returns [OF assms, of "[]" 1 call_fuel]
    by (intro alone_of_lone; simp)+
  have "fac2.mu w p < call_fuel" "fss.mu w p < call_fuel" for w p by (cases p; simp add: call_fuel_def)+
  then have "call_alone (bo_iter_fac2_next fp n) batch_result call_fuel ws BCall \<noteq> None
        \<and> (fss_good ws \<longrightarrow> call_alone (bo_iter_fss_next fp n) batch_result call_fuel ws BCall \<noteq> None)"
    if "chunked ws \<or> barrier ws = next_it ws"
    unfolding bo_iter_fac2_next_def bo_iter_fss_next_def
    using fac2.run_lone_returns [of ws "[]" 1 call_fuel] fss.run_lone_returns [of ws "[]" 1 call_fuel] that assms
    by (intro conjI impI alone_of_lone) (auto simp: fac2.ok_def fss.ok_def)
  then show ?thesis using a b c by blast
qed

text \<open>
  C31. Termination under contention: \<open>T\<close> threads take the iterations of one loop with a lock-free \<open>long\<close>
  iterator (dynamic, guided, TAPE or TSS), in any interleaving of their loads, swaps and
  fetch-and-adds, however unfair, in which a thread that has been told to stop makes no further move. The number of moves
  is at most \<open>(T + 4) n + 4 T\<close> for a loop of \<open>n\<close> iterations: no schedule lets threads retry for ever, because
  a swap fails only when another thread has taken a block meanwhile and the retry uses the value that the
  swap returned. The descriptor has to be in order (a loop whose length fits a \<open>long\<close>; the conditions that
  \<open>loop_init_dynamic_ok\<close> establishes for dynamic, a positive chunk for guided). The batch iterators (fac2 and fss) are not
  covered.
\<close>

theorem iterators_terminate:
  assumes "set is \<subseteq> {..<T}" and "long_loop ws"
  defines "bound \<equiv> (T + 4) * niter (incr ws) (next_it ws) (end_it ws) + 4 * T"
  shows "(dyn_ok T ws 0 \<and> live_schedule gomp_iter_dynamic_next dyn_result DynCall is (team_init DynCall ws) \<longrightarrow> length is \<le> bound)
    \<and> (guided_ok n ws \<and> live_schedule (gomp_iter_guided_next n) guided_result GuidedCall is (team_init GuidedCall ws) \<longrightarrow> length is \<le> bound)
    \<and> (live_schedule (bo_iter_tape_next fp n) cas_result CasCall is (team_init CasCall ws) \<longrightarrow> length is \<le> bound)
    \<and> (live_schedule (bo_iter_tss_next fp) cas_result CasCall is (team_init CasCall ws) \<longrightarrow> length is \<le> bound)"
proof -
  have "niter (incr ws) (dyn_pos ws) (end_it ws) = niter (incr ws) (next_it ws) (end_it ws)"
    using arg_cong [OF dyn_pos_iters, of ws length] assms(2) by (simp add: long_loop_def)
  then have "length is \<le> bound"
    if "dyn_ok T ws 0" "live_schedule gomp_iter_dynamic_next dyn_result DynCall is (team_init DynCall ws)"
    using dynamic.run_bound [OF that(1) assms(1) that(2)] by (simp add: bound_def)
  moreover have "length is \<le> bound"
    if "guided_ok n ws" "live_schedule (gomp_iter_guided_next n) guided_result GuidedCall is (team_init GuidedCall ws)"
    using guided.run_bound [OF that(1) assms(1) that(2)] by (simp add: bound_def)
  moreover have "length is \<le> bound" if "live_schedule (bo_iter_tape_next fp n) cas_result CasCall is (team_init CasCall ws)"
    using tape.run_bound [OF assms(2) assms(1) that [unfolded bo_iter_tape_next_def]] by (simp add: bound_def)
  moreover have "length is \<le> bound" if "live_schedule (bo_iter_tss_next fp) cas_result CasCall is (team_init CasCall ws)"
    using tss.run_bound [OF assms(2) assms(1) that [unfolded bo_iter_tss_next_def]] by (simp add: bound_def)
  ultimately show ?thesis by blast
qed

theorem iterators_terminate_witness:
  "\<not> live_schedule gomp_iter_dynamic_next dyn_result DynCall (map (\<lambda>i. i mod 3) [0..<1000]) (team_init DynCall (dyn_example 0))"
proof
  assume "live_schedule gomp_iter_dynamic_next dyn_result DynCall (map (\<lambda>i. i mod 3) [0..<1000]) (team_init DynCall (dyn_example 0))"
  moreover have "long_loop (dyn_example 0)" by (simp add: dyn_example_def ws_zero_def long_loop_def extent_def)
  moreover have "set (map (\<lambda>i. i mod 3) [0..<1000]) \<subseteq> {..<3}" by auto
  ultimately have "length (map (\<lambda>i :: nat. i mod 3) [0..<1000]) \<le>
      (3 + 4) * niter (incr (dyn_example 0)) (next_it (dyn_example 0)) (end_it (dyn_example 0)) + 4 * 3"
    using iterators_terminate [of "map (\<lambda>i. i mod 3) [0..<1000]" 3 "dyn_example 0"] dyn_example_ok [of 0] by blast
  then show False by (simp add: dyn_example_def niter_def ws_zero_def)
qed

subsection \<open>The runtime schedule\<close>

text \<open>Nothing but the dispatch on the schedule aborts.\<close>

definition no_abort :: "fault + 'a \<Rightarrow> bool" where "no_abort m \<longleftrightarrow> m \<noteq> Inl Abort"

named_theorems no_abort_intros \<open>calls that do not abort\<close>

lemma no_abort_basic [no_abort_intros]: "no_abort (Inr x)" "no_abort (Inl Trap)" "no_abort (Inl Blocked)"
  by (simp_all add: no_abort_def)

lemma no_abort_bind [no_abort_intros]: "no_abort m \<Longrightarrow> (\<And>x. no_abort (f x)) \<Longrightarrow> no_abort (bindE m f)"
  by (cases m) (auto simp: no_abort_def)

lemma no_abort_share [no_abort_intros]: "(\<And>a w. no_abort (f a w)) \<Longrightarrow> no_abort (with_share i R f)"
  by (auto simp: with_share_def no_abort_def split: ptr.splits)

lemma no_abort_work_share_start [no_abort_intros]: "no_abort (gomp_work_share_start i ordered R)"
  by (auto simp: gomp_work_share_start_def gomp_ptrlock_get_def no_abort_def Let_def
      split: option.splits ptr.splits prod.splits)

lemma no_abort_start_with [no_abort_intros]:
  "(\<And>a R. no_abort (init a R)) \<Longrightarrow> no_abort (loop_start_with i ordered init R)"
  unfolding loop_start_with_def by (auto intro!: no_abort_intros split: prod.splits ptr.splits)

lemma no_abort_iterate [no_abort_intros]: "no_abort (iterate i f R)"
  unfolding iterate_def by (auto intro!: no_abort_intros split: option.splits)

lemma no_abort_static [no_abort_intros]: "no_abort (iterate_static i R)" "no_abort (gomp_loop_static_next i R)"
proof -
  show s: "no_abort (iterate_static i R)"
    unfolding iterate_static_def by (auto intro!: no_abort_intros split: prod.splits)
  show "no_abort (gomp_loop_static_next i R)"
    unfolding gomp_loop_static_next_def static_result_def using s by (auto intro!: no_abort_intros)
qed

lemma no_abort_profile [no_abort_intros]: "no_abort (profile_start x)"
  unfolding profile_start_def by (auto intro!: no_abort_intros split: prod.splits option.splits)

lemmas next_defs = gomp_loop_dynamic_next_def gomp_loop_guided_next_def gomp_loop_binlpt_next_def gomp_loop_hss_next_def
  bo_loop_css_next_def bo_loop_fac2_next_def bo_loop_fss_next_def bo_loop_tape_next_def bo_loop_tss_next_def
  call_dynamic_def call_guided_def

lemmas start_defs = gomp_loop_static_start_def gomp_loop_dynamic_start_def gomp_loop_guided_start_def
  gomp_loop_binlpt_start_def gomp_loop_hss_start_def bo_loop_css_start_def bo_loop_fss_start_def
  bo_loop_tape_start_def bo_loop_tss_start_def bo_loop_fac2_start_def

lemma no_abort_next [no_abort_intros]:
  "no_abort (gomp_loop_dynamic_next i R)" "no_abort (gomp_loop_guided_next i R)" "no_abort (gomp_loop_binlpt_next i R)"
  "no_abort (gomp_loop_hss_next env i R)" "no_abort (bo_loop_css_next i R)" "no_abort (bo_loop_fac2_next env i R)"
  "no_abort (bo_loop_fss_next env i R)" "no_abort (bo_loop_tape_next env i R)" "no_abort (bo_loop_tss_next env i R)"
  "no_abort (call_dynamic i R)" "no_abort (call_guided i R)"
  unfolding next_defs by (auto intro!: no_abort_intros)

lemma no_abort_start [no_abort_intros]:
  "no_abort (gomp_loop_static_start env i start e k chunk region R)"
  "no_abort (gomp_loop_dynamic_start env i start e k chunk region R)"
  "no_abort (gomp_loop_guided_start env i start e k chunk region R)"
  "no_abort (gomp_loop_binlpt_start env i start e k chunk sc region R)"
  "no_abort (gomp_loop_hss_start env i start e k chunk sc region R)"
  "no_abort (bo_loop_css_start env i start e k sc region R)" "no_abort (bo_loop_fss_start env i start e k sc region R)"
  "no_abort (bo_loop_tape_start env i start e k sc region R)" "no_abort (bo_loop_tss_start env i start e k sc region R)"
  "no_abort (bo_loop_fac2_start env i start e k sc region R)"
  unfolding start_defs by (auto intro!: no_abort_intros)

text \<open>The schedules that the two dispatching switches know.\<close>

definition served :: "gomp_schedule_type \<Rightarrow> bool" where
  "served sc \<longleftrightarrow> sc \<noteq> GFS_RUNTIME \<and> sc \<noteq> FS_AFAC \<and> sc \<noteq> BO_FAC"

text \<open>
  C33. \<open>GOMP_loop_runtime_start\<close> aborts the program exactly for the schedules that its switch does
  not know (\<open>GFS_RUNTIME\<close>, \<open>FS_AFAC\<close>, and \<open>BO_FAC\<close>, which \<open>gomp_loop_init\<close> does handle), unless
  the tuner asks for the static fallback; and \<open>GOMP_loop_runtime_next\<close> never aborts on a
  descriptor set up for a schedule that the start routine serves.
\<close>

theorem runtime_dispatch_aborts:
  shows "(GOMP_loop_runtime_start env icv i start e k region R = Inl Abort \<longleftrightarrow>
      \<not> served (run_sched_var icv) \<and> \<not> bo_fallback_static env region (is_bo_schedule (run_sched_var icv)))
    \<and> (ts_work_share (threads R i) = Ref a \<and> served (sched (store R a)) \<longrightarrow> GOMP_loop_runtime_next env i R \<noteq> Inl Abort)"
proof
  have "no_abort (GOMP_loop_runtime_start env icv i start e k region R)"
    if "served (run_sched_var icv) \<or> bo_fallback_static env region (is_bo_schedule (run_sched_var icv))"
    using that unfolding GOMP_loop_runtime_start_def served_def Let_def
    by (cases "run_sched_var icv") (auto intro!: no_abort_intros)
  then show "GOMP_loop_runtime_start env icv i start e k region R = Inl Abort \<longleftrightarrow>
      \<not> served (run_sched_var icv) \<and> \<not> bo_fallback_static env region (is_bo_schedule (run_sched_var icv))"
    unfolding no_abort_def by (auto simp: served_def GOMP_loop_runtime_start_def)
next
  show "ts_work_share (threads R i) = Ref a \<and> served (sched (store R a)) \<longrightarrow> GOMP_loop_runtime_next env i R \<noteq> Inl Abort"
  proof
    assume A: "ts_work_share (threads R i) = Ref a \<and> served (sched (store R a))"
    have "no_abort (GOMP_loop_runtime_next env i R)"
      unfolding GOMP_loop_runtime_next_def Let_def with_share_def
      using A by (cases "sched (store R a)") (auto simp: served_def intro!: no_abort_intros split: prod.splits)
    then show "GOMP_loop_runtime_next env i R \<noteq> Inl Abort" by (simp add: no_abort_def)
  qed
qed

theorem runtime_dispatch_aborts_witness:
  "GOMP_loop_runtime_next env_example 0 (set_share 0 (ws_zero\<lparr>sched := BO_FSS\<rparr>) (new_team_example 4)) \<noteq> Inl Abort"
proof -
  have t: "ts_work_share (threads (set_share 0 (ws_zero\<lparr>sched := BO_FSS\<rparr>) (new_team_example 4)) 0) = Ref 0" by code_simp
  show ?thesis
    using runtime_dispatch_aborts [of env_example _ 0 _ _ _ _ "set_share 0 (ws_zero\<lparr>sched := BO_FSS\<rparr>) (new_team_example 4)" 0] t
    by (simp add: served_def)
qed

subsection \<open>The number of threads of a combined parallel loop\<close>

lemma calls_frame [simp]:
  "calls (set_link a p R) = calls R" "calls (set_share a w R) = calls R" "calls (set_thread i t R) = calls R"
  "calls (chain_from m b R) = calls R" "calls (gomp_init_work_share a ord nt R) = calls R"
  by (simp_all add: set_link_def set_share_def set_thread_def gomp_init_work_share_def Let_def)
    (induction m b R rule: chain_from.induct; simp add: set_link_def)

lemma loop_init_calls:
  "calls (gomp_loop_init env start e k sc chunk region a R) =
    calls R @ [BoBegin region (u64 (loop_num_tasks (loop_init_common start e k sc chunk (store R a)))) (team_size R)]"
  by (simp add: gomp_loop_init_def Let_def)

text \<open>
  \<open>gomp_parallel_loop_start\<close> initialises the loop before the new team is the current one: when
  it is called outside of any parallel region, the tuner and the formulas of the schedule are
  told that there is one thread, however many the team will have.
\<close>

theorem parallel_loop_init_sees_one_thread:
  assumes "team R = None"
  shows "\<exists>N. calls (gomp_parallel_loop_start env n start e k sc chunk region R) = calls R @ [BoBegin region N 1]
    \<and> team (gomp_parallel_loop_start env n start e k sc chunk region R) = Some n"
proof -
  have "team_size ((gomp_new_team n R)\<lparr>team := team R\<rparr>) = 1" using assms by (simp add: team_size_def)
  moreover have "calls ((gomp_new_team n R)\<lparr>team := team R\<rparr>) = calls R"
    by (simp add: gomp_new_team_def Let_def)
  ultimately show ?thesis
    by (simp add: gomp_parallel_loop_start_def team_threads_def loop_init_calls)
qed

theorem parallel_loop_init_sees_one_thread_witness:
  "\<exists>N. calls (gomp_parallel_loop_start env_example 8 0 100 1 FS_FSS 0 7 ((new_team_example 1)\<lparr>team := None\<rparr>)) =
    [BoBegin 7 N 1]"
proof -
  have c: "calls ((new_team_example 1)\<lparr>team := None\<rparr>) = []" by (simp add: new_team_example_def gomp_new_team_def Let_def)
  show ?thesis using parallel_loop_init_sees_one_thread [of "(new_team_example 1)\<lparr>team := None\<rparr>" env_example 8 0 100 1 FS_FSS 0 7]
    unfolding c by auto
qed

subsection \<open>BinLPT and HSS\<close>

text \<open>All the blocks that repeated calls hand out, until one is refused.\<close>

fun drain :: "(work_share \<Rightarrow> (block \<times> work_share) option) \<Rightarrow> nat \<Rightarrow> work_share \<Rightarrow> (int \<times> int) list option" where
  "drain f 0 ws = None"
| "drain f (Suc m) ws =
    (case f ws of None \<Rightarrow> None
     | Some (None, ws') \<Rightarrow> Some []
     | Some (Some b, ws') \<Rightarrow> map_option ((#) b) (drain f m ws'))"

definition block_iters :: "int \<Rightarrow> (int \<times> int) list \<Rightarrow> int list" where
  "block_iters k bs = concat (map (\<lambda>(s, e). iters k s e) bs)"

lemma block_iters_simps [simp]: "block_iters k [] = []" "block_iters k ((s, e) # bs) = iters k s e @ block_iters k bs"
  by (simp_all add: block_iters_def)

lemma scan_spec:
  assumes "i \<le> n" and "n \<le> length xs" and "int n < 2 ^ 31" and "n - i < f"
  shows "\<exists>j. scan P xs (int n) (int i) f = Some (int j) \<and> i \<le> j \<and> j \<le> n \<and> (\<forall>m. i \<le> m \<and> m < j \<longrightarrow> \<not> P (xs ! m)) \<and> (j < n \<longrightarrow> P (xs ! j))"
  using assms
proof (induction f arbitrary: i)
  case (Suc f)
  have u: "u32 (int i) = int i" using Suc.prems by (intro u32_id) auto
  show ?case
  proof (cases "i < n \<and> \<not> P (xs ! i)")
    case False
    then show ?thesis using Suc.prems u by (intro exI [of _ i]) auto
  next
    case True
    have s: "s32 (int i + 1) = int (Suc i)" using Suc.prems True by (subst s32_id) auto
    obtain j where j: "scan P xs (int n) (int (Suc i)) f = Some (int j)" "Suc i \<le> j" "j \<le> n"
        "\<forall>m. Suc i \<le> m \<and> m < j \<longrightarrow> \<not> P (xs ! m)" "j < n \<longrightarrow> P (xs ! j)"
    proof -
      have "n - Suc i < f" using Suc.prems(4) True by linarith
      then show ?thesis using Suc.IH [of "Suc i"] Suc.prems True that by (metis Suc_leI)
    qed
    have "\<not> P (xs ! m)" if "i \<le> m" "m < j" for m
      using that True j(4) by (cases "m = i") auto
    moreover have "scan P xs (int n) (int i) (Suc f) = Some (int j)" using True Suc.prems(2) u s j(1) by simp
    ultimately show ?thesis using j(2,3,5) by (intro exI [of _ j]) auto
  qed
qed simp

lemma iters_one: "i \<le> j \<Longrightarrow> iters 1 (l + int i) (l + int j) = map (\<lambda>m. l + int m) [i..<j]"
proof -
  assume "i \<le> j"
  then have "niter 1 (l + int i) (l + int j) = j - i" by (simp add: niter_def nat_diff_distrib)
  then show ?thesis by (intro nth_equalityI) (auto simp: iters_def)
qed

lemma filter_run:
  assumes "i \<le> a" "a \<le> b" "\<forall>m. i \<le> m \<and> m < a \<longrightarrow> \<not> P m" "\<forall>m. a \<le> m \<and> m < b \<longrightarrow> P m" "b \<le> n"
  shows "filter P [i..<n] = [a..<b] @ filter P [b..<n]"
proof -
  have "[i..<n] = [i..<a] @ [a..<b] @ [b..<n]"
    using assms(1,2,5) by (metis le_add_diff_inverse le_trans upt_add_eq_append)
  moreover have "filter P [i..<a] = []" "filter P [a..<b] = [a..<b]" using assms(3,4) by (auto simp: filter_empty_conv intro: filter_True)
  ultimately show ?thesis by simp
qed

text \<open>The tasks \<open>i, ..., j - 1\<close> are a maximal run of tasks of thread \<open>t\<close> in the first \<open>n\<close> entries of a task map.\<close>

definition maximal_run :: "int list \<Rightarrow> nat \<Rightarrow> nat \<Rightarrow> int \<Rightarrow> int \<Rightarrow> bool" where
  "maximal_run xs n t i j \<longleftrightarrow> 0 \<le> i \<and> i < j \<and> j \<le> int n \<and> (\<forall>m \<in> {nat i..<nat j}. xs ! m = int t)
     \<and> (0 < i \<longrightarrow> xs ! nat (i - 1) \<noteq> int t) \<and> (j < int n \<longrightarrow> xs ! nat j \<noteq> int t)"

definition binlpt_ok :: "nat \<Rightarrow> nat \<Rightarrow> work_share \<Rightarrow> nat \<Rightarrow> bool" where
  "binlpt_ok ntasks tid ws st \<longleftrightarrow> int ntasks < 2 ^ 31 \<and> int tid < 2 ^ 31
     \<and> ntasks \<le> length (taskmap ws) \<and> tid < length (thread_start ws)
     \<and> thread_start ws ! tid = int st \<and> st \<le> ntasks \<and> (0 < st \<longrightarrow> st < ntasks \<longrightarrow> taskmap ws ! st \<noteq> int tid)
     \<and> is_long (loop_start ws) \<and> loop_start ws + int ntasks \<le> LONG_MAX"

lemma binlpt_call:
  assumes ok: "binlpt_ok ntasks tid ws st"
  obtains (last) "gomp_iter_binlpt_next (int ntasks) tid ws = Some (None, ws)" "\<forall>m. st \<le> m \<and> m < ntasks \<longrightarrow> taskmap ws ! m \<noteq> int tid"
  | (block) i j where "gomp_iter_binlpt_next (int ntasks) tid ws =
        Some (Some (loop_start ws + int i, loop_start ws + int j), ws\<lparr>thread_start := (thread_start ws)[tid := int j]\<rparr>)"
      "st \<le> i" "i < j" "j \<le> ntasks" "\<forall>m. st \<le> m \<and> m < i \<longrightarrow> taskmap ws ! m \<noteq> int tid"
      "\<forall>m. i \<le> m \<and> m < j \<longrightarrow> taskmap ws ! m = int tid" "j < ntasks \<longrightarrow> taskmap ws ! j \<noteq> int tid"
proof -
  note o = ok [unfolded binlpt_ok_def]
  have s: "s32 (int st) = int st" and t: "u32 (int tid) = int tid" using o by (auto intro!: s32_id u32_id)
  let ?P = "\<lambda>t. t = int tid" and ?f = "Suc (length (taskmap ws))"
  have fl: "ntasks - a < ?f" for a using o by linarith
  obtain i where i: "scan ?P (taskmap ws) (int ntasks) (int st) ?f = Some (int i)" "st \<le> i" "i \<le> ntasks"
      "\<forall>m. st \<le> m \<and> m < i \<longrightarrow> \<not> ?P (taskmap ws ! m)" "i < ntasks \<longrightarrow> ?P (taskmap ws ! i)"
    using scan_spec [of st ntasks "taskmap ws" ?f ?P] o fl [of st] by blast
  have ui: "u32 (int i) = int i" using i(3) o by (intro u32_id) auto
  show ?thesis
  proof (cases "i < ntasks")
    case False
    then have "\<forall>m. st \<le> m \<and> m < ntasks \<longrightarrow> taskmap ws ! m \<noteq> int tid" using i(3,4) by auto
    moreover have "gomp_iter_binlpt_next (int ntasks) tid ws = Some (None, ws)"
      using o s t i(1) ui False by (simp add: gomp_iter_binlpt_next_def Let_def del: scan.simps)
    ultimately show ?thesis by (rule last [rotated])
  next
    case less: True
    have si: "s32 (int i + 1) = int (Suc i)" using less o by (subst s32_id) auto
    obtain j where j: "scan (\<lambda>t. \<not> ?P t) (taskmap ws) (int ntasks) (int (Suc i)) ?f = Some (int j)" "Suc i \<le> j" "j \<le> ntasks"
        "\<forall>m. Suc i \<le> m \<and> m < j \<longrightarrow> ?P (taskmap ws ! m)" "j < ntasks \<longrightarrow> \<not> ?P (taskmap ws ! j)"
      using scan_spec [of "Suc i" ntasks "taskmap ws" ?f "\<lambda>t. \<not> ?P t"] less o fl [of "Suc i"] by (metis Suc_leI)
    have uj: "u32 (int j) = int j" using j(3) o by (intro u32_id) auto
    have l: "s64 (loop_start ws + int i) = loop_start ws + int i" "s64 (loop_start ws + int j) = loop_start ws + int j"
      using o i(3) j(3) by (auto intro!: s64_id)
    have "gomp_iter_binlpt_next (int ntasks) tid ws =
        Some (Some (loop_start ws + int i, loop_start ws + int j), ws\<lparr>thread_start := (thread_start ws)[tid := int j]\<rparr>)"
      using o s t i(1) ui less si j(1) uj l by (simp add: gomp_iter_binlpt_next_def Let_def del: scan.simps of_nat_Suc)
    moreover have "\<forall>m. i \<le> m \<and> m < j \<longrightarrow> taskmap ws ! m = int tid"
      using i(5) less j(4) by (metis Suc_leI le_neq_implies_less)
    ultimately show ?thesis using i(2,4) j(2,3,5) by (intro block) auto
  qed
qed

lemma binlpt_drain:
  assumes "binlpt_ok ntasks tid ws st" and "ntasks - st < f"
  shows "\<exists>bs. drain (gomp_iter_binlpt_next (int ntasks) tid) f ws = Some bs \<and>
    block_iters 1 bs = map (\<lambda>m. loop_start ws + int m) (filter (\<lambda>m. taskmap ws ! m = int tid) [st..<ntasks])
    \<and> (\<forall>(s, e) \<in> set bs. maximal_run (taskmap ws) ntasks tid (s - loop_start ws) (e - loop_start ws))"
  using assms
proof (induction f arbitrary: ws st)
  case (Suc f)
  let ?P = "\<lambda>m. taskmap ws ! m = int tid"
  note o = Suc.prems(1) [unfolded binlpt_ok_def]
  from Suc.prems(1) show ?case
  proof (cases rule: binlpt_call)
    case last
    then have "filter ?P [st..<ntasks] = []" by (auto simp: filter_empty_conv)
    then show ?thesis using last by simp
  next
    case (block i j)
    define ws' where "ws' = ws\<lparr>thread_start := (thread_start ws)[tid := int j]\<rparr>"
    have "binlpt_ok ntasks tid ws' j" using o block(3,4,7) by (simp add: binlpt_ok_def ws'_def)
    moreover have "ntasks - j < f" using Suc.prems(2) block(2-4) by linarith
    ultimately obtain bs where bs: "drain (gomp_iter_binlpt_next (int ntasks) tid) f ws' = Some bs"
        "block_iters 1 bs = map (\<lambda>m. loop_start ws + int m) (filter ?P [j..<ntasks])"
        "\<forall>(s, e) \<in> set bs. maximal_run (taskmap ws) ntasks tid (s - loop_start ws) (e - loop_start ws)"
      using Suc.IH [of ws' j] by (auto simp: ws'_def)
    have "filter ?P [st..<ntasks] = [i..<j] @ filter ?P [j..<ntasks]"
      using filter_run [of st i j ?P ntasks] block(2-6) by simp
    moreover have "0 < i \<longrightarrow> taskmap ws ! (i - 1) \<noteq> int tid"
    proof
      assume "0 < i"
      show "taskmap ws ! (i - 1) \<noteq> int tid"
      proof (cases "st = i")
        case True
        then show ?thesis using o \<open>0 < i\<close> block(3,4,6) by auto
      next
        case False
        then show ?thesis using block(2,5) by auto
      qed
    qed
    then have "maximal_run (taskmap ws) ntasks tid (int i) (int j)"
      using block(3,4,6,7) by (auto simp: maximal_run_def nat_diff_distrib)
    ultimately show ?thesis
      using block(1,3) bs by (simp add: iters_one ws'_def del: upt_Suc)
  qed
qed simp

text \<open>
  C28. A BinLPT loop of fewer than \<open>2 ^ 31\<close> tasks (the indices of \<open>gomp_iter_binlpt_next\<close> are \<open>int\<close>s), whose
  task map has an entry for every task and whose task numbers, shifted by the start of the loop, fit a
  \<open>long\<close>. The calls of a thread whose search starts at task 0 hand out exactly the tasks
  that the task map assigns to the thread, in order, and are then refused; and every block is a maximal run of the
  thread's tasks: not empty, all of it assigned to the thread, and the tasks just before and just after it,
  where there are any, assigned to others. 
\<close>

theorem binlpt_serves_task_map:
  assumes "ntasks \<le> length (taskmap ws)" and "int ntasks < 2 ^ 31" and "tid < length (thread_start ws)" and "int tid < 2 ^ 31"
    and "thread_start ws ! tid = 0" and "is_long (loop_start ws)" and "loop_start ws + int ntasks \<le> LONG_MAX"
  shows "\<exists>bs. drain (gomp_iter_binlpt_next (int ntasks) tid) (Suc ntasks) ws = Some bs \<and>
    block_iters 1 bs = map (\<lambda>m. loop_start ws + int m) (filter (\<lambda>m. taskmap ws ! m = int tid) [0..<ntasks])
    \<and> (\<forall>(s, e) \<in> set bs. maximal_run (taskmap ws) ntasks tid (s - loop_start ws) (e - loop_start ws))"
  by (rule binlpt_drain) (use assms in \<open>auto simp: binlpt_ok_def\<close>)

theorem binlpt_serves_task_map_witness:
  "\<exists>bs. drain (gomp_iter_binlpt_next 6 1) 7 (ws_zero\<lparr>taskmap := [1, 0, 1, 1, 0, 1], thread_start := [0, 0], loop_start := 10\<rparr>) = Some bs
    \<and> block_iters 1 bs = [10, 12, 13, 15]"
  using binlpt_serves_task_map [of 6 "ws_zero\<lparr>taskmap := [1, 0, 1, 1, 0, 1], thread_start := [0, 0], loop_start := 10\<rparr>" 1]
  by (auto simp: ws_zero_def upt_rec)

lemma hss_loop_count:
  assumes "0 \<le> k" and "k + int r < 2 ^ 32"
  shows "\<exists>j. fst (hss_loop c ts i r k w) = k + int j \<and> j \<le> r \<and> (0 < r \<longrightarrow> 0 < j)"
  using assms
proof (induction r arbitrary: i k w)
  case (Suc r)
  have u: "u32 (k + 1) = k + 1" using Suc.prems by (intro u32_id) auto
  have stop: "\<exists>j. k + 1 = k + int j \<and> j \<le> Suc r \<and> (0 < Suc r \<longrightarrow> 0 < j)" by (intro exI [of _ 1]) auto
  have go: "\<exists>j. fst (hss_loop c ts (Suc i) r (k + 1) v) = k + int j \<and> j \<le> Suc r \<and> (0 < Suc r \<longrightarrow> 0 < j)" for v
  proof -
    obtain j where "fst (hss_loop c ts (Suc i) r (k + 1) v) = k + 1 + int j" "j \<le> r"
      using Suc.IH [of "k + 1" "Suc i" v] Suc.prems by auto
    then show ?thesis by (intro exI [of _ "Suc j"]) auto
  qed
  show ?case by (simp only: hss_loop.simps Let_def u split: if_split) (use stop go in auto)
qed simp

text \<open>A descriptor of an HSS loop that starts at zero with step one.\<close>

definition hss_ok :: "nat \<Rightarrow> int list \<Rightarrow> work_share \<Rightarrow> bool" where
  "hss_ok ntasks ts ws \<longleftrightarrow> length ts = ntasks \<and> int ntasks < 2 ^ 32 \<and> 0 \<le> loop_start ws \<and> loop_start ws \<le> int ntasks"

lemma hss_step:
  assumes "hss_ok ntasks ts ws" and "gomp_iter_hss_next fp n (int ntasks) ts ws = (r, ws')"
  shows "if loop_start ws = int ntasks then r = None
    else r = Some (loop_start ws, loop_start ws') \<and> loop_start ws < loop_start ws' \<and> hss_ok ntasks ts ws'"
proof -
  define i where "i = nat (loop_start ws)"
  have A: "0 \<le> loop_start ws" "loop_start ws \<le> int ntasks" "int ntasks < 2 ^ 32" "length ts = ntasks"
    using assms(1) by (auto simp: hss_ok_def)
  have u: "u32 (loop_start ws) = loop_start ws" using A by (intro u32_id) auto
  obtain k w where h: "hss_loop (hss_chunk fp n ws) ts i (ntasks - i) 0 0 = (k, w)" by fastforce
  obtain j where j: "k = int j" "j \<le> ntasks - i" "0 < ntasks - i \<longrightarrow> 0 < j"
  proof -
    have "int (ntasks - i) < 2 ^ 32" using A by linarith
    then show ?thesis using hss_loop_count [of 0 "ntasks - i" "hss_chunk fp n ws" ts i 0] h that by auto
  qed
  have s: "s64 (loop_start ws + int j) = loop_start ws + int j" using A j(2) by (intro s64_id) (auto simp: i_def)
  have "r = (if loop_start ws = int ntasks then None else Some (loop_start ws, loop_start ws + int j))"
    "loop_start ws' = loop_start ws + int j"
    using assms(2) h u j(1) s by (auto simp: gomp_iter_hss_next_def i_def Let_def)
  then show ?thesis using A j by (auto simp: hss_ok_def i_def)
qed

text \<open>
  C27. HSS on a loop that starts at zero with step one: whatever the weights and the
  floating-point chunk computed from them, the calls hand out consecutive non-empty blocks that
  are together the rest of the loop, and then stop.
\<close>

theorem hss_serves_rest:
  assumes "length ts = ntasks" and "int ntasks < 2 ^ 32" and "0 \<le> loop_start ws" and "loop_start ws \<le> int ntasks"
  shows "\<exists>bs. drain (\<lambda>w. Some (gomp_iter_hss_next fp n (int ntasks) ts w)) (Suc ntasks) ws = Some bs
    \<and> block_iters 1 bs = iters 1 (loop_start ws) (int ntasks) \<and> (\<forall>(s, e) \<in> set bs. s < e)"
proof -
  have main: "\<exists>bs. drain (\<lambda>w. Some (gomp_iter_hss_next fp n (int ntasks) ts w)) f ws = Some bs
      \<and> block_iters 1 bs = iters 1 (loop_start ws) (int ntasks) \<and> (\<forall>(s, e) \<in> set bs. s < e)"
    if "hss_ok ntasks ts ws" "ntasks - nat (loop_start ws) < f" for f
    using that
  proof (induction f arbitrary: ws)
    case (Suc f)
    obtain r ws' where st: "gomp_iter_hss_next fp n (int ntasks) ts ws = (r, ws')" by fastforce
    note H = hss_step [OF Suc.prems(1) st]
    show ?case
    proof (cases "loop_start ws = int ntasks")
      case True
      then show ?thesis using H st by (simp add: iters_Nil)
    next
      case False
      then have r: "r = Some (loop_start ws, loop_start ws')" "loop_start ws < loop_start ws'" "hss_ok ntasks ts ws'"
        using H by auto
      have b: "0 \<le> loop_start ws" "loop_start ws' \<le> int ntasks"
        using Suc.prems(1) r(3) by (auto simp: hss_ok_def)
      then have "ntasks - nat (loop_start ws') < f" using Suc.prems(2) r(2) by linarith
      then obtain bs where bs: "drain (\<lambda>w. Some (gomp_iter_hss_next fp n (int ntasks) ts w)) f ws' = Some bs"
          "block_iters 1 bs = iters 1 (loop_start ws') (int ntasks)" "\<forall>(s, e) \<in> set bs. s < e"
        using Suc.IH [OF r(3)] by blast
      have "cuts 1 (loop_start ws) (loop_start ws + (loop_start ws' - loop_start ws) * 1) (int ntasks)"
        using r(2) b by (intro cuts_multiple) auto
      then have "iters 1 (loop_start ws) (loop_start ws') @ iters 1 (loop_start ws') (int ntasks)
          = iters 1 (loop_start ws) (int ntasks)" by (simp add: cuts_def)
      then show ?thesis using st r bs by simp
    qed
  qed simp
  show ?thesis by (rule main) (use assms in \<open>auto simp: hss_ok_def\<close>)
qed

theorem hss_serves_rest_witness:
  "\<exists>bs. drain (\<lambda>w. Some (gomp_iter_hss_next (fpu env_example) 2 4 [4, 3, 2, 1] w)) 5
      (ws_zero\<lparr>chunk_size := 1, wremaining := 10\<rparr>) = Some bs \<and> block_iters 1 bs = [0, 1, 2, 3]"
  using hss_serves_rest [of "[4, 3, 2, 1]" 4 "ws_zero\<lparr>chunk_size := 1, wremaining := 10\<rparr>" "fpu env_example" 2]
  by (auto simp: ws_zero_def iters_def niter_def upt_rec)

text \<open>
  HSS indexes its tasks by the loop variable: on a loop that starts beyond its number of
  iterations (\<open>for (i = 100; i < 150; i++)\<close>) every call returns true with the empty block at the
  start and leaves the position where it was, so the loop never ends and runs no iteration.
\<close>

theorem hss_shifted_loop_spins:
  assumes "int ntasks < loop_start ws" and "loop_start ws < 2 ^ 32"
  shows "fst (gomp_iter_hss_next fp n (int ntasks) ts ws) = Some (loop_start ws, loop_start ws)
    \<and> drain (\<lambda>w. Some (gomp_iter_hss_next fp n (int ntasks) ts w)) f ws = None"
proof -
  have step: "\<exists>ws'. gomp_iter_hss_next fp n (int ntasks) ts w = (Some (loop_start w, loop_start w), ws') \<and> loop_start ws' = loop_start w"
    if "loop_start w = loop_start ws" for w
  proof -
    have u: "u32 (loop_start w) = loop_start w" using assms that by (intro u32_id) auto
    have "s64 (loop_start w + 0) = loop_start w" using assms that by (subst s64_id) auto
    then show ?thesis using assms that u by (auto simp: gomp_iter_hss_next_def Let_def)
  qed
  have "drain (\<lambda>w. Some (gomp_iter_hss_next fp n (int ntasks) ts w)) f w = None" if "loop_start w = loop_start ws" for w
    using that
  proof (induction f arbitrary: w)
    case (Suc f)
    obtain ws' where "gomp_iter_hss_next fp n (int ntasks) ts w = (Some (loop_start w, loop_start w), ws')"
        "loop_start ws' = loop_start w"
      using step [OF Suc.prems] by blast
    then show ?case using Suc by simp
  qed simp
  then show ?thesis using step [of ws] by auto
qed

theorem hss_shifted_loop_spins_witness:
  "drain (\<lambda>w. Some (gomp_iter_hss_next (fpu env_example) 2 50 (replicate 50 1) w)) 1000
      (ws_zero\<lparr>chunk_size := 1, wremaining := 50, loop_start := 100\<rparr>) = None"
  using hss_shifted_loop_spins [of 50 "ws_zero\<lparr>chunk_size := 1, wremaining := 50, loop_start := 100\<rparr>" "fpu env_example" 2
      "replicate 50 1" 1000] by (simp add: ws_zero_def)

end
