(* ===== verification/LoopUll.thy ===== *)
theory LoopUll
  imports Loop
begin

text \<open>
  The LOOP construct on \<open>unsigned long long\<close> loops (\<open>gcc/libgomp/loop_ull.c\<close>): the entry points
  mirror those of \<open>loop.c\<close>, with the direction of the loop as an argument; \<open>gomp_loop_ull_init\<close>
  has its own formulas.
\<close>

subsection \<open>Setting up the descriptor\<close>

definition loop_ull_init_common :: "bool \<Rightarrow> int \<Rightarrow> int \<Rightarrow> int \<Rightarrow> gomp_schedule_type \<Rightarrow> int \<Rightarrow> work_share \<Rightarrow> work_share" where
  "loop_ull_init_common up start e k sc chunk ws =
    ws\<lparr>sched := sc, chunk_size := chunk,
       end_it := (if up \<and> start > e \<or> \<not> up \<and> start < e then start else e),
       incr := k, next_it := start, barrier := start, mode := 0\<rparr>"

definition loop_ull_num_tasks :: "work_share \<Rightarrow> int" where
  "loop_ull_num_tasks ws = u64 (end_it ws - next_it ws) div incr ws"

definition init_ull_tss :: "bo_env \<Rightarrow> int \<Rightarrow> int \<Rightarrow> work_share \<Rightarrow> work_share" where
  "init_ull_tss env n N ws =
    (let p = (if sched ws = FS_TSS
              then let temp = ddiv (dbl_of_int N) (dbl_of_int (s64 (2 * n + 1)))
                   in ddiv (dbl_of_int (u64 (2 * N))) (dmul temp temp)
              else param ws);
         f = dsub (dsqrt (ddiv (dmul (dbl_of_int 2) (dbl_of_int N)) p)) (dbl_of_int 1)
     in ws\<lparr>param := p, chunk_size := dbl_to_ulong (fpu env) f, count := 0\<rparr>)"

definition init_ull_fss :: "bo_env \<Rightarrow> bool \<Rightarrow> int \<Rightarrow> int \<Rightarrow> work_share \<Rightarrow> work_share" where
  "init_ull_fss env up n N ws =
    (let p = fss_transform_range (fpu env) (param ws);
         temp = dmul (ddiv (dbl_of_int n) (dbl_of_int 2)) p;
         b2 = dmul (dmul (ddiv (dbl_of_int 1) (dbl_of_int N)) temp) temp;
         x = dadd (dadd (dbl_of_int 1) b2) (dsqrt (dmul b2 (dadd b2 (dbl_of_int 2))));
         F = dbl_to_ulong (fpu env) (ddiv (ddiv (dbl_of_int N) x) (dbl_of_int n));
         PF = u64 (F * n);
         nbarrier = (if up then u64 (barrier ws + u64 (PF * incr ws)) else u64 (barrier ws + u64 (PF * u64 (- incr ws))))
     in ws\<lparr>param := p, chunk_size := F, barrier := nbarrier\<rparr>)"

definition ull_faa_mode :: "bool \<Rightarrow> int \<Rightarrow> work_share \<Rightarrow> int" where
  "ull_faa_mode up n ws =
    (if up then
       if u64 (u64 n OR chunk_size ws) < 2 ^ 31 then
         if end_it ws < u64 (ULONG_MAX - u64 ((n + 1) * chunk_size ws)) then 1 else 0
       else mode ws
     else
       if u64 (u64 n OR u64 (- chunk_size ws)) < 2 ^ 31 then
         if end_it ws > u64 (u64 ((n + 1) * u64 (- chunk_size ws)) - ULONG_MAX) then 1 else 0
       else mode ws)"

definition init_ull_css :: "bo_env \<Rightarrow> bool \<Rightarrow> int \<Rightarrow> int \<Rightarrow> work_share \<Rightarrow> work_share" where
  "init_ull_css env up n N ws =
    (let ws0 = (if sched ws = FS_CSS \<or> sched ws = BO_CSS
                then let p = css_transform_range (fpu env) (param ws)
                     in ws\<lparr>param := p, chunk_size := css_chunk_size_ull (fpu env) p N n\<rparr>
                else ws);
         ws1 = ws0\<lparr>chunk_size := u64 (chunk_size ws0 * incr ws0)\<rparr>
     in ws1\<lparr>mode := ull_faa_mode up n ws1\<rparr>)"

definition gomp_loop_ull_init ::
  "bo_env \<Rightarrow> bool \<Rightarrow> int \<Rightarrow> int \<Rightarrow> int \<Rightarrow> gomp_schedule_type \<Rightarrow> int \<Rightarrow> int \<Rightarrow> nat \<Rightarrow> rt \<Rightarrow> rt"
where
  "gomp_loop_ull_init env up start e k sc chunk region a R =
    (let n = team_size R;
         ws0 = loop_ull_init_common up start e k sc chunk (store R a);
         N = loop_ull_num_tasks ws0;
         ws = (if is_parameterized sc
               then ws0\<lparr>param := bo_schedule_parameter env region (is_bo_schedule sc)\<rparr> else ws0);
         ws1 =
           (if sc = FS_FAC2 then ws\<lparr>chunk_size := N div n\<rparr>
            else if sc = FS_TAPE \<or> sc = BO_TAPE then
              ws\<lparr>param := (if sc = BO_TAPE then tape_transform_range (fpu env) (param ws) else dbl_of_int 3)\<rparr>
            else if sc = FS_TSS \<or> sc = BO_TSS then init_ull_tss env n N ws
            else if sc = FS_FSS \<or> sc = BO_FSS then init_ull_fss env up n N ws
            else if sc = GFS_DYNAMIC \<or> sc = FS_CSS \<or> sc = BO_CSS then init_ull_css env up n N ws
            else ws);
         ws2 = (if up then ws1 else ws1\<lparr>mode := mode ws1 OR 2\<rparr>)
     in set_share a ws2 (log_call (BoBegin region N n) R))"

subsection \<open>Calls of the iterators\<close>

definition iterate_ull_static :: "nat \<Rightarrow> rt \<Rightarrow> fault + (int \<times> block) \<times> rt" where
  "iterate_ull_static i R = with_share i R (\<lambda>a w.
    case gomp_iter_ull_static_next (ctx (threads R i)) w of (st, b, c) \<Rightarrow> Inr ((st, b), set_ctx i c R))"

definition call_ull_dynamic :: "nat \<Rightarrow> rt \<Rightarrow> fault + block \<times> rt" where
  "call_ull_dynamic i = iterate i (\<lambda>w. call_alone gomp_iter_ull_dynamic_next cas_result call_fuel w CasCall)"

definition call_ull_guided :: "nat \<Rightarrow> rt \<Rightarrow> fault + block \<times> rt" where
  "call_ull_guided i R =
    iterate i (\<lambda>w. call_alone (gomp_iter_ull_guided_next (team_size R)) cas_result call_fuel w CasCall) R"

definition gomp_loop_ull_static_next :: "nat \<Rightarrow> rt \<Rightarrow> fault + block \<times> rt" where
  "gomp_loop_ull_static_next i R = static_result (iterate_ull_static i R)"

definition gomp_loop_ull_dynamic_next :: "nat \<Rightarrow> rt \<Rightarrow> fault + block \<times> rt" where
  "gomp_loop_ull_dynamic_next = call_ull_dynamic"

definition gomp_loop_ull_guided_next :: "nat \<Rightarrow> rt \<Rightarrow> fault + block \<times> rt" where
  "gomp_loop_ull_guided_next = call_ull_guided"

definition bo_loop_ull_css_next :: "nat \<Rightarrow> rt \<Rightarrow> fault + block \<times> rt" where
  "bo_loop_ull_css_next = call_ull_dynamic"

definition bo_loop_ull_fac2_next :: "bo_env \<Rightarrow> nat \<Rightarrow> rt \<Rightarrow> fault + block \<times> rt" where
  "bo_loop_ull_fac2_next env i R =
    iterate i (\<lambda>w. call_alone (bo_iter_ull_fac2_next (fpu env) (team_size R)) batch_result call_fuel w BCall) R"

definition bo_loop_ull_fss_next :: "bo_env \<Rightarrow> nat \<Rightarrow> rt \<Rightarrow> fault + block \<times> rt" where
  "bo_loop_ull_fss_next env i R =
    iterate i (\<lambda>w. call_alone (bo_iter_ull_fss_next (fpu env) (team_size R)) batch_result call_fuel w BCall) R"

definition bo_loop_ull_tape_next :: "bo_env \<Rightarrow> nat \<Rightarrow> rt \<Rightarrow> fault + block \<times> rt" where
  "bo_loop_ull_tape_next env i R =
    iterate i (\<lambda>w. call_alone (bo_iter_ull_tape_next (fpu env) (team_size R)) cas_result call_fuel w CasCall) R"

definition bo_loop_ull_tss_next :: "bo_env \<Rightarrow> nat \<Rightarrow> rt \<Rightarrow> fault + block \<times> rt" where
  "bo_loop_ull_tss_next env i R =
    iterate i (\<lambda>w. call_alone (bo_iter_ull_tss_next (fpu env)) cas_result call_fuel w CasCall) R"

subsection \<open>Starting a loop\<close>

text \<open>The first thread sets the descriptor up for \<open>sc\<close>.\<close>

definition start_ull ::
  "bo_env \<Rightarrow> nat \<Rightarrow> bool \<Rightarrow> int \<Rightarrow> int \<Rightarrow> int \<Rightarrow> gomp_schedule_type \<Rightarrow> int \<Rightarrow> int \<Rightarrow> rt \<Rightarrow> fault + rt"
where
  "start_ull env i up start e k sc chunk region =
    loop_start_with i False (\<lambda>a R. Inr (gomp_loop_ull_init env up start e k sc chunk region a R))"

definition gomp_loop_ull_static_start ::
  "bo_env \<Rightarrow> nat \<Rightarrow> bool \<Rightarrow> int \<Rightarrow> int \<Rightarrow> int \<Rightarrow> int \<Rightarrow> int \<Rightarrow> rt \<Rightarrow> fault + block \<times> rt" where
  "gomp_loop_ull_static_start env i up start e k chunk region R =
    bindE (start_ull env i up start e k GFS_STATIC chunk region (reset_trip i R)) (gomp_loop_ull_static_next i)"

definition gomp_loop_ull_dynamic_start ::
  "bo_env \<Rightarrow> nat \<Rightarrow> bool \<Rightarrow> int \<Rightarrow> int \<Rightarrow> int \<Rightarrow> int \<Rightarrow> int \<Rightarrow> rt \<Rightarrow> fault + block \<times> rt" where
  "gomp_loop_ull_dynamic_start env i up start e k chunk region R =
    bindE (start_ull env i up start e k GFS_DYNAMIC chunk region R) (call_ull_dynamic i)"

definition gomp_loop_ull_guided_start ::
  "bo_env \<Rightarrow> nat \<Rightarrow> bool \<Rightarrow> int \<Rightarrow> int \<Rightarrow> int \<Rightarrow> int \<Rightarrow> int \<Rightarrow> rt \<Rightarrow> fault + block \<times> rt" where
  "gomp_loop_ull_guided_start env i up start e k chunk region R =
    bindE (start_ull env i up start e k GFS_GUIDED chunk region R) (call_ull_guided i)"

definition bo_loop_ull_fac2_start ::
  "bo_env \<Rightarrow> nat \<Rightarrow> bool \<Rightarrow> int \<Rightarrow> int \<Rightarrow> int \<Rightarrow> gomp_schedule_type \<Rightarrow> int \<Rightarrow> rt \<Rightarrow> fault + block \<times> rt" where
  "bo_loop_ull_fac2_start env i up start e k sc region R =
    bindE (start_ull env i up start e k sc 0 region R) (bo_loop_ull_fac2_next env i)"

definition bo_loop_ull_fss_start ::
  "bo_env \<Rightarrow> nat \<Rightarrow> bool \<Rightarrow> int \<Rightarrow> int \<Rightarrow> int \<Rightarrow> gomp_schedule_type \<Rightarrow> int \<Rightarrow> rt \<Rightarrow> fault + block \<times> rt" where
  "bo_loop_ull_fss_start env i up start e k sc region R =
    bindE (start_ull env i up start e k sc 0 region R) (bo_loop_ull_fss_next env i)"

definition bo_loop_ull_tss_start ::
  "bo_env \<Rightarrow> nat \<Rightarrow> bool \<Rightarrow> int \<Rightarrow> int \<Rightarrow> int \<Rightarrow> gomp_schedule_type \<Rightarrow> int \<Rightarrow> rt \<Rightarrow> fault + block \<times> rt" where
  "bo_loop_ull_tss_start env i up start e k sc region R =
    bindE (start_ull env i up start e k sc 0 region R) (bo_loop_ull_tss_next env i)"

definition bo_loop_ull_tape_start ::
  "bo_env \<Rightarrow> nat \<Rightarrow> bool \<Rightarrow> int \<Rightarrow> int \<Rightarrow> int \<Rightarrow> gomp_schedule_type \<Rightarrow> int \<Rightarrow> rt \<Rightarrow> fault + block \<times> rt" where
  "bo_loop_ull_tape_start env i up start e k sc region R =
    bindE (start_ull env i up start e k sc 0 region R) (bo_loop_ull_tape_next env i)"

definition bo_loop_ull_css_start ::
  "bo_env \<Rightarrow> nat \<Rightarrow> bool \<Rightarrow> int \<Rightarrow> int \<Rightarrow> int \<Rightarrow> gomp_schedule_type \<Rightarrow> int \<Rightarrow> rt \<Rightarrow> fault + block \<times> rt" where
  "bo_loop_ull_css_start env i up start e k sc region R =
    bindE (start_ull env i up start e k sc 0 region R) (bo_loop_ull_css_next i)"

subsection \<open>The runtime schedule\<close>

text \<open>The \<open>int\<close> chunk size of the ICV is converted to \<open>unsigned long long\<close>.\<close>

definition GOMP_loop_ull_runtime_start ::
  "bo_env \<Rightarrow> task_icv \<Rightarrow> nat \<Rightarrow> bool \<Rightarrow> int \<Rightarrow> int \<Rightarrow> int \<Rightarrow> int \<Rightarrow> rt \<Rightarrow> fault + block \<times> rt"
where
  "GOMP_loop_ull_runtime_start env icv i up start e k region R =
    (let sc = run_sched_var icv; chunk = u64 (run_sched_chunk_size icv) in
     case sc of
       GFS_STATIC \<Rightarrow> gomp_loop_ull_static_start env i up start e k chunk region R
     | GFS_DYNAMIC \<Rightarrow> gomp_loop_ull_dynamic_start env i up start e k chunk region R
     | GFS_GUIDED \<Rightarrow> gomp_loop_ull_guided_start env i up start e k chunk region R
     | GFS_AUTO \<Rightarrow> gomp_loop_ull_static_start env i up start e k 0 region R
     | FS_FAC2 \<Rightarrow> bo_loop_ull_fac2_start env i up start e k sc region R
     | FS_FSS \<Rightarrow> bo_loop_ull_fss_start env i up start e k sc region R
     | BO_FSS \<Rightarrow> bo_loop_ull_fss_start env i up start e k sc region R
     | FS_CSS \<Rightarrow> bo_loop_ull_css_start env i up start e k sc region R
     | BO_CSS \<Rightarrow> bo_loop_ull_css_start env i up start e k sc region R
     | FS_TSS \<Rightarrow> bo_loop_ull_tss_start env i up start e k sc region R
     | BO_TSS \<Rightarrow> bo_loop_ull_tss_start env i up start e k sc region R
     | FS_TAPE \<Rightarrow> bo_loop_ull_tape_start env i up start e k sc region R
     | BO_TAPE \<Rightarrow> bo_loop_ull_tape_start env i up start e k sc region R
     | _ \<Rightarrow> Inl Abort)"

definition GOMP_loop_ull_runtime_next :: "bo_env \<Rightarrow> nat \<Rightarrow> rt \<Rightarrow> fault + block \<times> rt" where
  "GOMP_loop_ull_runtime_next env i R0 =
    (let R = log_call BoIterationStop R0 in
     bindE (with_share i R (\<lambda>a w.
       case sched w of
         GFS_STATIC \<Rightarrow> gomp_loop_ull_static_next i R
       | GFS_AUTO \<Rightarrow> gomp_loop_ull_static_next i R
       | GFS_DYNAMIC \<Rightarrow> gomp_loop_ull_dynamic_next i R
       | GFS_GUIDED \<Rightarrow> gomp_loop_ull_guided_next i R
       | FS_FAC2 \<Rightarrow> bo_loop_ull_fac2_next env i R
       | FS_FSS \<Rightarrow> bo_loop_ull_fss_next env i R
       | BO_FSS \<Rightarrow> bo_loop_ull_fss_next env i R
       | FS_TSS \<Rightarrow> bo_loop_ull_tss_next env i R
       | BO_TSS \<Rightarrow> bo_loop_ull_tss_next env i R
       | FS_CSS \<Rightarrow> bo_loop_ull_css_next i R
       | BO_CSS \<Rightarrow> bo_loop_ull_css_next i R
       | FS_TAPE \<Rightarrow> bo_loop_ull_tape_next env i R
       | BO_TAPE \<Rightarrow> bo_loop_ull_tape_next env i R
       | _ \<Rightarrow> Inl Abort))
     (\<lambda>(b, R'). Inr (b, if b \<noteq> None then log_call BoIterationStart R' else R')))"

subsection \<open>Ordered loops\<close>

definition gomp_loop_ull_ordered_static_start ::
  "bo_env \<Rightarrow> nat \<Rightarrow> bool \<Rightarrow> int \<Rightarrow> int \<Rightarrow> int \<Rightarrow> int \<Rightarrow> rt \<Rightarrow> fault + block \<times> rt" where
  "gomp_loop_ull_ordered_static_start env i up start e k chunk R =
    bindE (loop_start_with i True
        (\<lambda>a R. with_ordered i (\<lambda>tm tid. gomp_ordered_static_init tm)
          (gomp_loop_ull_init env up start e k GFS_STATIC chunk 0 a R))
        (reset_trip i R))
      (gomp_loop_ull_static_next i)"

definition gomp_loop_ull_ordered_dynamic_start ::
  "bo_env \<Rightarrow> nat \<Rightarrow> bool \<Rightarrow> int \<Rightarrow> int \<Rightarrow> int \<Rightarrow> int \<Rightarrow> rt \<Rightarrow> fault + block \<times> rt" where
  "gomp_loop_ull_ordered_dynamic_start env i up start e k chunk R =
    bindE (loop_start_with i True (\<lambda>a R. Inr (gomp_loop_ull_init env up start e k GFS_DYNAMIC chunk 0 a R)) R)
      (\<lambda>R. bindE (iterate_locked i gomp_iter_ull_dynamic_next_locked R) (register_first i))"

definition gomp_loop_ull_ordered_guided_start ::
  "bo_env \<Rightarrow> nat \<Rightarrow> bool \<Rightarrow> int \<Rightarrow> int \<Rightarrow> int \<Rightarrow> int \<Rightarrow> rt \<Rightarrow> fault + block \<times> rt" where
  "gomp_loop_ull_ordered_guided_start env i up start e k chunk R =
    bindE (loop_start_with i True (\<lambda>a R. Inr (gomp_loop_ull_init env up start e k GFS_GUIDED chunk 0 a R)) R)
      (\<lambda>R. bindE (iterate_locked i (gomp_iter_ull_guided_next_locked (team_size R)) R) (register_first i))"

definition GOMP_loop_ull_ordered_runtime_start ::
  "bo_env \<Rightarrow> task_icv \<Rightarrow> nat \<Rightarrow> bool \<Rightarrow> int \<Rightarrow> int \<Rightarrow> int \<Rightarrow> rt \<Rightarrow> fault + block \<times> rt"
where
  "GOMP_loop_ull_ordered_runtime_start env icv i up start e k R =
    (let chunk = u64 (run_sched_chunk_size icv) in
     case run_sched_var icv of
       GFS_STATIC \<Rightarrow> gomp_loop_ull_ordered_static_start env i up start e k chunk R
     | GFS_DYNAMIC \<Rightarrow> gomp_loop_ull_ordered_dynamic_start env i up start e k chunk R
     | GFS_GUIDED \<Rightarrow> gomp_loop_ull_ordered_guided_start env i up start e k chunk R
     | GFS_AUTO \<Rightarrow> gomp_loop_ull_ordered_static_start env i up start e k 0 R
     | _ \<Rightarrow> Inl Abort)"

definition gomp_loop_ull_ordered_static_next :: "nat \<Rightarrow> rt \<Rightarrow> fault + block \<times> rt" where
  "gomp_loop_ull_ordered_static_next i R =
    bindE (ordered_sync i R) (\<lambda>R1.
      bindE (iterate_ull_static i R1) (\<lambda>((test, b), R2).
        bindE (if test \<ge> 0 then with_ordered i gomp_ordered_static_next R2 else Inr R2) (\<lambda>R3.
          Inr (if test = 0 then b else None, R3))))"

definition gomp_loop_ull_ordered_dynamic_next :: "nat \<Rightarrow> rt \<Rightarrow> fault + block \<times> rt" where
  "gomp_loop_ull_ordered_dynamic_next i R =
    bindE (ordered_sync i R) (\<lambda>R1.
      bindE (iterate_locked i gomp_iter_ull_dynamic_next_locked R1) (move_or_leave i))"

definition gomp_loop_ull_ordered_guided_next :: "nat \<Rightarrow> rt \<Rightarrow> fault + block \<times> rt" where
  "gomp_loop_ull_ordered_guided_next i R =
    bindE (ordered_sync i R) (\<lambda>R1.
      bindE (iterate_locked i (gomp_iter_ull_guided_next_locked (team_size R1)) R1) (move_or_leave i))"

definition GOMP_loop_ull_ordered_runtime_next :: "nat \<Rightarrow> rt \<Rightarrow> fault + block \<times> rt" where
  "GOMP_loop_ull_ordered_runtime_next i R = with_share i R (\<lambda>a w.
    case sched w of
      GFS_STATIC \<Rightarrow> gomp_loop_ull_ordered_static_next i R
    | GFS_AUTO \<Rightarrow> gomp_loop_ull_ordered_static_next i R
    | GFS_DYNAMIC \<Rightarrow> gomp_loop_ull_ordered_dynamic_next i R
    | GFS_GUIDED \<Rightarrow> gomp_loop_ull_ordered_guided_next i R
    | _ \<Rightarrow> Inl Abort)"

subsection \<open>Doacross loops\<close>

definition init_ull_doacross :: "bo_env \<Rightarrow> int list \<Rightarrow> gomp_schedule_type \<Rightarrow> int \<Rightarrow> nat \<Rightarrow> rt \<Rightarrow> fault + rt" where
  "init_ull_doacross env counts sc chunk a R =
    (let R1 = gomp_loop_ull_init env True 0 (hd counts) 1 sc chunk 0 a R
     in bindE (gomp_doacross_ull_init (team R1) counts chunk (store R1 a)) (\<lambda>w. Inr (set_share a w R1)))"

definition gomp_loop_ull_doacross_static_start :: "bo_env \<Rightarrow> nat \<Rightarrow> int list \<Rightarrow> int \<Rightarrow> rt \<Rightarrow> fault + block \<times> rt" where
  "gomp_loop_ull_doacross_static_start env i counts chunk R =
    bindE (loop_start_with i False (init_ull_doacross env counts GFS_STATIC chunk) (reset_trip i R))
      (gomp_loop_ull_static_next i)"

definition gomp_loop_ull_doacross_dynamic_start :: "bo_env \<Rightarrow> nat \<Rightarrow> int list \<Rightarrow> int \<Rightarrow> rt \<Rightarrow> fault + block \<times> rt" where
  "gomp_loop_ull_doacross_dynamic_start env i counts chunk R =
    bindE (loop_start_with i False (init_ull_doacross env counts GFS_DYNAMIC chunk) R) (call_ull_dynamic i)"

definition gomp_loop_ull_doacross_guided_start :: "bo_env \<Rightarrow> nat \<Rightarrow> int list \<Rightarrow> int \<Rightarrow> rt \<Rightarrow> fault + block \<times> rt" where
  "gomp_loop_ull_doacross_guided_start env i counts chunk R =
    bindE (loop_start_with i False (init_ull_doacross env counts GFS_GUIDED chunk) R) (call_ull_guided i)"

definition GOMP_loop_ull_doacross_runtime_start :: "bo_env \<Rightarrow> task_icv \<Rightarrow> nat \<Rightarrow> int list \<Rightarrow> rt \<Rightarrow> fault + block \<times> rt" where
  "GOMP_loop_ull_doacross_runtime_start env icv i counts R =
    (let chunk = u64 (run_sched_chunk_size icv) in
     case run_sched_var icv of
       GFS_STATIC \<Rightarrow> gomp_loop_ull_doacross_static_start env i counts chunk R
     | GFS_DYNAMIC \<Rightarrow> gomp_loop_ull_doacross_dynamic_start env i counts chunk R
     | GFS_GUIDED \<Rightarrow> gomp_loop_ull_doacross_guided_start env i counts chunk R
     | GFS_AUTO \<Rightarrow> gomp_loop_ull_doacross_static_start env i counts 0 R
     | _ \<Rightarrow> Inl Abort)"


subsection \<open>Properties\<close>

lemma ull_init_store:
  "store (gomp_loop_ull_init env up start e k GFS_DYNAMIC chunk region a R) a =
    (let ws0 = loop_ull_init_common up start e k GFS_DYNAMIC chunk (store R a);
         ws1 = ws0\<lparr>chunk_size := u64 (chunk * k)\<rparr>;
         ws2 = ws1\<lparr>mode := ull_faa_mode up (team_size R) ws1\<rparr>
     in if up then ws2 else ws2\<lparr>mode := mode ws2 OR 2\<rparr>)"
  by (simp add: gomp_loop_ull_init_def init_ull_css_def loop_ull_init_common_def is_parameterized_def
      is_bo_schedule_def Let_def)

lemma ull_faa_mode_bit: "mode ws = 0 \<Longrightarrow> ull_faa_mode up n ws = 0 \<or> ull_faa_mode up n ws = 1"
  by (auto simp: ull_faa_mode_def)

text \<open>
  For \<open>schedule(dynamic, chunk)\<close> on an \<open>unsigned long long\<close> loop \<open>gomp_loop_ull_init\<close> keeps
  the chunk that the program asked for (the \<open>long\<close> version does not): in both directions the
  descriptor has the loop's bounds and direction and the chunk \<open>chunk\<close> times the step, and meets
  the precondition under which the iterator hands out exactly the loop.
\<close>

theorem loop_ull_init_dynamic_ok:
  fixes env :: bo_env and region :: int and a :: nat and R :: rt
  assumes "0 < s" and "s \<le> ULONG_MAX" and "is_ulong start" "is_ulong e"
    and "if up then start \<le> e else e \<le> start" and "1 \<le> chunk" and "chunk * s \<le> ULONG_MAX"
  defines "ws \<equiv> store (gomp_loop_ull_init env up start e (if up then s else 2 ^ 64 - s) GFS_DYNAMIC chunk region a R) a"
  shows "ull_dyn_ok ws \<and> next_it ws = start \<and> end_it ws = e \<and> ull_dstep ws = (if up then s else - s)
    \<and> mag ws (chunk_size ws) = chunk * s"
proof -
  let ?k = "if up then s else 2 ^ 64 - s"
  define w where "w = (loop_ull_init_common up start e ?k GFS_DYNAMIC chunk (store R a))\<lparr>chunk_size := u64 (chunk * ?k)\<rparr>"
  define m where "m = ull_faa_mode up (team_size R) w"
  have "mode w = 0" by (simp add: w_def loop_ull_init_common_def)
  then have m: "m = 0 \<or> m = 1" unfolding m_def by (rule ull_faa_mode_bit)
  have ws: "ws = (if up then w\<lparr>mode := m\<rparr> else w\<lparr>mode := m OR 2\<rparr>)"
    using ull_init_store [of env up start e ?k chunk region a R] by (simp add: ws_def w_def m_def Let_def)
  have F: "next_it ws = start" "end_it ws = e" "incr ws = ?k" "chunk_size ws = u64 (chunk * ?k)"
    using assms(5) by (auto simp: ws w_def loop_ull_init_common_def split: if_splits)
  have d: "mode_down ws \<longleftrightarrow> \<not> up" using m by (auto simp: ws mode_down_def)
  then have step: "ull_dstep ws = (if up then s else - s)" by (simp add: ull_dstep_def F)
  have pos: "1 \<le> chunk * s" using assms(1,6) by (simp add: int_one_le_iff_zero_less)
  have mg: "mag ws (chunk_size ws) = chunk * s"
  proof (cases up)
    case True
    then show ?thesis using d F pos assms(7) by (simp add: mag_def u64_id)
  next
    case False
    have "u64 (chunk * (2 ^ 64 - s)) = u64 (2 ^ 64 - chunk * s + (chunk - 1) * 2 ^ 64)"
      by (simp add: algebra_simps)
    also have "\<dots> = u64 (2 ^ 64 - chunk * s)" unfolding u64_def by (rule mod_mult_self1)
    also have "\<dots> = 2 ^ 64 - chunk * s" using pos assms(7) by (intro u64_id) auto
    finally show ?thesis using False d F by (simp add: mag_def)
  qed
  have u: "u64 (- s) = 2 ^ 64 - s"
  proof -
    have "u64 (- s) = u64 (- s + 1 * 2 ^ 64)" unfolding u64_def by (rule mod_mult_self1 [symmetric])
    also have "\<dots> = 2 ^ 64 - s" using assms(1,2) by (subst u64_id) auto
    finally show ?thesis .
  qed
  have "ull_fits (ull_dstep ws) ws"
    using assms(1-5) u by (cases up) (simp_all add: ull_fits_def step F u64_id)
  moreover have "is_ulong (chunk_size ws)" using u64_range [of "chunk * ?k"] by (simp add: F)
  ultimately show ?thesis
    using mg step F assms(1,6) by (simp add: ull_dyn_ok_def)
qed

theorem loop_ull_init_dynamic_ok_witness:
  "ull_dyn_ok (store (gomp_loop_ull_init \<lparr>fpu = \<lparr>pow_fn = \<lambda>x y. x, log_fn = \<lambda>x. x, ub_ulong = \<lambda>_. 0, ub_long = \<lambda>_. 0\<rparr>,
     bo_schedule_parameter = \<lambda>_ _. Fin (1 / 2), bo_tape_parameter = \<lambda>_. Fin 1, bo_tss_parameter = \<lambda>_. Fin 1,
     bo_fss_parameter = \<lambda>_. Fin 1, bo_css_parameter = \<lambda>_. Fin 1, bo_fallback_static = \<lambda>_ _. False,
     bo_binlpt_load_loop = \<lambda>_. [], bo_hss_load_loop = \<lambda>_. []\<rparr> False 100 7 (2 ^ 64 - 3) GFS_DYNAMIC 4 0 5 (new_team_example 4)) 5)"
  using loop_ull_init_dynamic_ok [of 3 100 7 False 4 _ 0 5 "new_team_example 4"] by simp

text \<open>
  On a loop that counts down \<open>gomp_loop_ull_init\<close> computes at most one iteration, whatever
  the loop: \<open>(end - start) / incr\<close> divides two numbers that have wrapped around. The tuner and
  the formulas of all tuned schedules get this count.
\<close>

theorem ull_down_num_tasks:
  assumes "0 < s" and "s \<le> 2 ^ 63" and "0 \<le> e" and "e < start" and "start \<le> ULONG_MAX"
  shows "loop_ull_num_tasks (loop_ull_init_common False start e (2 ^ 64 - s) sc chunk w) = (if start - e \<le> s then 1 else 0)"
proof -
  have u: "u64 (e - start) = 2 ^ 64 - (start - e)"
  proof -
    have "u64 (e - start) = u64 (e - start + 1 * 2 ^ 64)" unfolding u64_def by (rule mod_mult_self1 [symmetric])
    also have "\<dots> = 2 ^ 64 - (start - e)" using assms by (subst u64_id) auto
    finally show ?thesis .
  qed
  have q: "(2 ^ 64 - (start - e)) div (2 ^ 64 - s) = (if start - e \<le> s then 1 else 0)"
  proof (cases "start - e \<le> s")
    case True
    have "(2 ^ 64 - (start - e)) div (2 ^ 64 - s) = 1"
      using True assms by (intro int_div_pos_eq [where r = "s - (start - e)"]) auto
    then show ?thesis using True by simp
  next
    case False
    then show ?thesis using assms by (simp add: div_pos_pos_trivial)
  qed
  then show ?thesis using assms(4) u by (simp add: loop_ull_num_tasks_def loop_ull_init_common_def)
qed

theorem ull_down_num_tasks_witness:
  "loop_ull_num_tasks (loop_ull_init_common False 1000 0 (2 ^ 64 - 1) GFS_DYNAMIC 1 (store (new_team_example 4) 0)) = 0"
  using ull_down_num_tasks [of 1 0 1000] by simp

end
