(* ===== verification/Sections.thy ===== *)
theory Sections
  imports Loop
begin

text \<open>
  The SECTIONS and SINGLE constructs (\<open>sections.c\<close>, \<open>single.c\<close>). Sections are a loop over the
  section numbers, handed out one at a time by the fetch-and-add of the dynamic schedule; a
  SINGLE without copyprivate is a race on the team's counter of such constructs.
\<close>

subsection \<open>SECTIONS\<close>

text \<open>A \<open>long\<close> is wider than an \<open>unsigned\<close>, so \<open>mode\<close> is always 1.\<close>

definition gomp_sections_init :: "int \<Rightarrow> work_share \<Rightarrow> work_share" where
  "gomp_sections_init cnt ws =
    ws\<lparr>sched := GFS_DYNAMIC, chunk_size := 1, end_it := s64 (cnt + 1), incr := 1, next_it := 1, mode := 1\<rparr>"

text \<open>The number of the section, 0 when there is none left, returned as an \<open>unsigned\<close>.\<close>

definition section_number :: "block \<times> rt \<Rightarrow> fault + int \<times> rt" where
  "section_number x = (case x of (b, R) \<Rightarrow> Inr (case b of Some (s, e) \<Rightarrow> u32 s | None \<Rightarrow> 0, R))"

definition GOMP_sections_next :: "nat \<Rightarrow> rt \<Rightarrow> fault + int \<times> rt" where
  "GOMP_sections_next i R = bindE (call_dynamic i R) section_number"

definition GOMP_sections_start :: "nat \<Rightarrow> int \<Rightarrow> rt \<Rightarrow> fault + int \<times> rt" where
  "GOMP_sections_start i cnt R =
    bindE (loop_start_with i False (\<lambda>a R. Inr (set_share a (gomp_sections_init cnt (store R a)) R)) R)
      (\<lambda>R. bindE (call_dynamic i R) section_number)"

definition GOMP_parallel_sections_start :: "int \<Rightarrow> int \<Rightarrow> rt \<Rightarrow> rt" where
  "GOMP_parallel_sections_start n cnt R =
    (let R1 = gomp_new_team n R in team_threads n (set_share 0 (gomp_sections_init cnt (store R1 0)) R1))"

definition GOMP_sections_end :: "nat \<Rightarrow> bool \<Rightarrow> rt \<Rightarrow> fault + rt" where
  "GOMP_sections_end i is_last R = gomp_work_share_end i 0 is_last R"

definition GOMP_sections_end_cancel :: "nat \<Rightarrow> bool \<Rightarrow> bool \<Rightarrow> rt \<Rightarrow> bool \<times> rt" where
  "GOMP_sections_end_cancel i is_last cancelled R = gomp_work_share_end_cancel i 0 is_last cancelled R"

definition GOMP_sections_end_nowait :: "nat \<Rightarrow> rt \<Rightarrow> fault + rt" where
  "GOMP_sections_end_nowait i R = gomp_work_share_end_nowait i 0 R"

subsection \<open>SINGLE\<close>

text \<open>The thread counts the constructs it has met in \<open>single_seen\<close>; it executes this one if it
  can move the team's counter past it.\<close>

definition GOMP_single_start :: "nat \<Rightarrow> rt \<Rightarrow> bool \<times> rt" where
  "GOMP_single_start i R =
    (if team R = None then (True, R)
     else
       let n = single_seen (threads R i);
           R1 = set_thread i ((threads R i)\<lparr>single_seen := u64 (n + 1)\<rparr>) R
       in if single_count R1 = n then (True, R1\<lparr>single_count := u64 (n + 1)\<rparr>) else (False, R1))"

text \<open>With copyprivate: the first thread gets the null pointer; the others wait at the team's
  barrier (\<open>passed\<close>: it has let them through) and read the pointer, which shares a word with
  \<open>ws->next\<close>.\<close>

definition GOMP_single_copy_start :: "nat \<Rightarrow> bool \<Rightarrow> rt \<Rightarrow> fault + int \<times> rt" where
  "GOMP_single_copy_start i passed R =
    bindE (gomp_work_share_start i False R) (\<lambda>(first, R1).
      if first then Inr (0, gomp_work_share_init_done i R1)
      else if \<not> passed then Inl Blocked
      else with_share i R1 (\<lambda>a w. bindE (gomp_work_share_end_nowait i 0 R1) (\<lambda>R2. Inr (u64 (next_it w), R2))))"

definition GOMP_single_copy_end :: "nat \<Rightarrow> int \<Rightarrow> rt \<Rightarrow> fault + rt" where
  "GOMP_single_copy_end i dat R =
    bindE (if team R = None then Inr R
           else with_share i R (\<lambda>a w. Inr (set_share a (w\<lparr>next_it := s64 dat\<rparr>) R)))
      (gomp_work_share_end_nowait i 0)"

subsection \<open>Each section is handed out once\<close>

text \<open>In fetch-and-add mode a call is one step, and with chunk 1 its block is one iteration.\<close>

definition one_by_one :: "int \<Rightarrow> dyn_pc team_run \<Rightarrow> bool" where
  "one_by_one e S \<longleftrightarrow> mode (shared S) = 1 \<and> chunk_size (shared S) = 1 \<and> incr (shared S) = 1 \<and> end_it (shared S) = e
     \<and> is_long (next_it (shared S)) \<and> (\<forall>i. \<forall>s c. pcs S i \<noteq> DynLoop s c)
     \<and> (\<forall>(i, s, t) \<in> set (grants S). t = s + 1 \<and> s < e)"

lemma one_by_one_move:
  assumes "one_by_one e S" and "is_long e"
  shows "one_by_one e (team_move gomp_iter_dynamic_next dyn_result DynCall i S)"
proof (cases "pcs S i")
  case DynCall
  have "s64 (next_it (shared S) + 1) = next_it (shared S) + 1" if "next_it (shared S) < e"
    using that assms by (intro s64_id) (auto simp: one_by_one_def)
  then show ?thesis
    using assms DynCall s64_range [of "next_it (shared S) + 1"] by (auto simp: one_by_one_def team_move_def Let_def)
next
  case (DynLoop s c)
  then show ?thesis using assms by (simp add: one_by_one_def)
next
  case (DynRet r)
  then show ?thesis using assms by (auto simp: one_by_one_def team_move_def split: option.splits)
qed

lemma one_by_one_exec:
  "one_by_one e S \<Longrightarrow> is_long e \<Longrightarrow> one_by_one e (team_exec gomp_iter_dynamic_next dyn_result DynCall is S)"
  by (induction "is" arbitrary: S) (simp_all add: one_by_one_move)

lemma one_by_one_iters:
  assumes "\<forall>(i, s, t) \<in> set gs. t = s + 1 \<and> s < e"
  shows "granted_iters 1 gs = map (\<lambda>(i, s, t). s) gs"
  using assms by (induction gs) (auto simp: granted_iters_def iters_def niter_def)

lemma sections_run:
  fixes ws :: work_share
  assumes "0 \<le> cnt" and "cnt < 2 ^ 32" and "int T < 2 ^ 32" and "set is \<subseteq> {..<T}"
  defines "S \<equiv> team_exec gomp_iter_dynamic_next dyn_result DynCall is (team_init DynCall (gomp_sections_init cnt ws))"
  shows "one_by_one (cnt + 1) S" "exact_run gomp_iter_dynamic_next dyn_result DynCall 1 T is (gomp_sections_init cnt ws)"
proof -
  let ?w = "gomp_sections_init cnt ws"
  have e: "s64 (cnt + 1) = cnt + 1" using assms by (intro s64_id) auto
  have F: "mode ?w = 1" "chunk_size ?w = 1" "incr ?w = 1" "end_it ?w = cnt + 1" "next_it ?w = 1"
    by (simp_all add: gomp_sections_init_def e)
  have "one_by_one (cnt + 1) (team_init DynCall ?w)" by (simp add: one_by_one_def team_init_def F)
  then show "one_by_one (cnt + 1) S" unfolding S_def using assms(1,2) by (intro one_by_one_exec) auto
  have ok: "dyn_ok T ?w 0" using assms(1-3) by (simp add: dyn_ok_def F)
  then show "exact_run gomp_iter_dynamic_next dyn_result DynCall 1 T is ?w"
    using dyn_exact_run [OF ok assms(4)] by (simp add: F)
qed

text \<open>
  C34. SECTIONS: whatever the order in which the threads' requests are served, the section numbers
  handed out are \<open>1, 2, 3, ...\<close> in that order, each once and none beyond the number of sections;
  and once a thread is told 0 all of them have been handed out.
\<close>

theorem sections_once:
  assumes "0 \<le> cnt" and "cnt < 2 ^ 32" and "int T < 2 ^ 32" and "set is \<subseteq> {..<T}"
  shows "let S = team_exec gomp_iter_dynamic_next dyn_result DynCall is (team_init DynCall (gomp_sections_init cnt ws));
             nums = map (\<lambda>(i, s, t). u32 s) (grants S)
         in nums = map int [1..<Suc (length nums)] \<and> int (length nums) \<le> cnt
            \<and> ((\<exists>i \<in> {..<T}. dyn_result (pcs S i) = Some None) \<longrightarrow> int (length nums) = cnt)"
proof -
  let ?w = "gomp_sections_init cnt ws"
  let ?S = "team_exec gomp_iter_dynamic_next dyn_result DynCall is (team_init DynCall ?w)"
  let ?g = "map (\<lambda>(i, s, t). s) (grants ?S)"
  note R = sections_run [OF assms, of ws]
  have W: "next_it ?w = 1" "end_it ?w = cnt + 1"
    using assms(1,2) by (simp_all add: gomp_sections_init_def s64_id)
  have n: "niter 1 1 (cnt + 1) = nat cnt" using assms(1) by (simp add: niter_def)
  have all: "iters 1 1 (cnt + 1) = map int [1..<Suc (nat cnt)]"
    by (simp add: iters_def n map_Suc_upt [symmetric] del: map_Suc_upt upt_Suc)
  have g: "granted_iters 1 (grants ?S) = ?g" using R(1) unfolding one_by_one_def by (blast intro: one_by_one_iters)
  have pre: "?g @ iters 1 (next_it (shared ?S)) (cnt + 1) = map int [1..<Suc (nat cnt)]"
    and len: "length ?g \<le> nat cnt"
    and fin: "(\<exists>i \<in> {..<T}. dyn_result (pcs ?S i) = Some None) \<longrightarrow> ?g = map int [1..<Suc (nat cnt)]"
    using R(2) g all by (simp_all add: exact_run_def Let_def W n)
  have take: "?g = map int [1..<Suc (length ?g)]"
  proof -
    have "?g = take (length ?g) (map int [1..<Suc (nat cnt)])" unfolding pre [symmetric] by simp
    also have "\<dots> = map int [1..<Suc (length ?g)]" using len by (simp add: take_map take_upt del: upt_Suc)
    finally show ?thesis .
  qed
  have "u32 s = s" if "s \<in> set ?g" for s
  proof -
    have "s \<in> set (map int [1..<Suc (nat cnt)])" using that unfolding pre [symmetric] by auto
    then show ?thesis using assms(1,2) by (intro u32_id) auto
  qed
  then have u: "map (\<lambda>(i, s, t). u32 s) (grants ?S) = ?g" by force
  have "length ?g = nat cnt" if "\<exists>i \<in> {..<T}. dyn_result (pcs ?S i) = Some None"
    using arg_cong [OF mp [OF fin that], of length] by simp
  then show ?thesis using take len assms(1) unfolding Let_def u by (auto simp del: length_map upt_Suc)
qed

theorem sections_once_witness:
  "length (grants (team_exec gomp_iter_dynamic_next dyn_result DynCall [0, 1, 0, 0, 1]
     (team_init DynCall (gomp_sections_init 2 ws_zero)))) = 2"
proof -
  have "dyn_result (pcs (team_exec gomp_iter_dynamic_next dyn_result DynCall [0, 1, 0, 0, 1]
     (team_init DynCall (gomp_sections_init 2 ws_zero))) 0) = Some None" by code_simp
  then show ?thesis using sections_once [of 2 2 "[0, 1, 0, 0, 1]" ws_zero] by (auto simp: Let_def)
qed

subsection \<open>Each SINGLE is executed once\<close>

text \<open>The calls of a team, in the order \<open>is\<close>, with the number of the construct each call is about
  and whether the caller executes it.\<close>

fun single_run :: "nat list \<Rightarrow> rt \<Rightarrow> (int \<times> bool) list" where
  "single_run [] R = []"
| "single_run (i # is) R =
    (case GOMP_single_start i R of (b, R') \<Rightarrow> (single_seen (threads R i), b) # single_run is R')"

lemma length_single_run [simp]: "length (single_run is R) = length is"
  by (induction "is" arbitrary: R) (auto split: prod.splits)

lemma single_run_first:
  assumes "team R \<noteq> None" and "single_count R = int m" and "\<forall>i. 0 \<le> single_seen (threads R i) \<and> single_seen (threads R i) \<le> int m"
    and "m + length is < 2 ^ 64" and "j < length is"
  shows "snd (single_run is R ! j) \<longleftrightarrow>
    int m \<le> fst (single_run is R ! j) \<and> fst (single_run is R ! j) \<notin> fst ` set (take j (single_run is R))"
  using assms
proof (induction "is" arbitrary: R m j)
  case (Cons i "is")
  let ?n = "single_seen (threads R i)"
  obtain b R' where st: "GOMP_single_start i R = (b, R')" by fastforce
  define m' where "m' = (if ?n = int m then Suc m else m)"
  have n: "0 \<le> ?n" "?n \<le> int m" using Cons.prems(3) by auto
  have u: "u64 (?n + 1) = ?n + 1" using n Cons.prems(4) by (intro u64_id) auto
  have R': "b \<longleftrightarrow> ?n = int m" "team R' = team R" "single_count R' = (if ?n = int m then ?n + 1 else single_count R)"
    "threads R' = (threads R)(i := (threads R i)\<lparr>single_seen := ?n + 1\<rparr>)"
    using st n Cons.prems(1,2) u by (auto simp: GOMP_single_start_def Let_def set_thread_def split: if_splits)
  note b = R'(1)
  have "0 \<le> single_seen (threads R' l) \<and> single_seen (threads R' l) \<le> int m'" for l
    using spec [OF Cons.prems(3), of l] n by (cases "l = i") (auto simp: R'(4) m'_def)
  then have inv: "team R' \<noteq> None" "single_count R' = int m'"
    "\<forall>l. 0 \<le> single_seen (threads R' l) \<and> single_seen (threads R' l) \<le> int m'" "m' + length is < 2 ^ 64"
    using R' Cons.prems(1,2,4) by (auto simp: m'_def)
  show ?case
  proof (cases j)
    case 0
    then show ?thesis using st b n by auto
  next
    case (Suc j')
    then have "j' < length is" using Cons.prems(5) by simp
    from Cons.IH [OF inv this] show ?thesis using st b n Suc by (auto simp: m'_def)
  qed
qed simp

lemma single_run_nonneg:
  "(\<And>i. 0 \<le> single_seen (threads R i)) \<Longrightarrow> x \<in> set (single_run is R) \<Longrightarrow> 0 \<le> fst x"
proof (induction "is" arbitrary: R)
  case (Cons i "is")
  obtain b R' where st: "GOMP_single_start i R = (b, R')" by fastforce
  have "0 \<le> single_seen (threads R' l)" for l
    using st Cons.prems(1) [of l] u64_range [of "single_seen (threads R i) + 1"]
    by (cases "l = i") (auto simp: GOMP_single_start_def Let_def set_thread_def split: if_splits)
  then show ?case using Cons st by auto
qed simp

text \<open>
  SINGLE: in every order in which the threads of a team go through their SINGLE constructs
  (some several constructs ahead of others), a call executes the construct exactly if it is the
  first call that reaches it; so each construct is executed by one thread.
\<close>

theorem single_executes_first:
  assumes "team R \<noteq> None" and "single_count R = 0" and "\<forall>i. single_seen (threads R i) = 0"
    and "length is < 2 ^ 64" and "j < length is"
  shows "snd (single_run is R ! j) \<longleftrightarrow> fst (single_run is R ! j) \<notin> fst ` set (take j (single_run is R))"
proof -
  have "0 \<le> fst (single_run is R ! j)"
    using single_run_nonneg [of R "single_run is R ! j" "is"] assms(3,5) by simp
  then show ?thesis using single_run_first [OF assms(1), of 0 "is" j] assms by simp
qed

theorem single_executes_first_witness:
  "\<not> snd (single_run [0, 0, 1, 1, 1] (new_team_example 2) ! 3)"
proof -
  have seen: "map fst (single_run [0, 0, 1, 1, 1] (new_team_example 2)) = [0, 1, 0, 1, 2]" by code_simp
  have "team (new_team_example 2) \<noteq> None" "single_count (new_team_example 2) = 0" by code_simp+
  moreover have "\<forall>i. single_seen (threads (new_team_example 2) i) = 0"
    by (simp add: new_team_example_def gomp_new_team_def gomp_init_work_share_def Let_def)
  moreover have "fst (single_run [0, 0, 1, 1, 1] (new_team_example 2) ! 3) = 1"
    using arg_cong [OF seen, of "\<lambda>xs. xs ! 3"] by (simp add: nth_map del: single_run.simps)
  moreover have "fst ` set (take 3 (single_run [0, 0, 1, 1, 1] (new_team_example 2))) = {0, 1}"
    using arg_cong [OF seen, of "\<lambda>xs. set (take 3 xs)"] by (simp add: take_map image_set [symmetric] insert_commute del: single_run.simps)
  ultimately show ?thesis
    using single_executes_first [of "new_team_example 2" "[0, 0, 1, 1, 1]" 3] by simp
qed

end
