(* ===== verification/TeamLoop.thy ===== *)
theory TeamLoop
  imports LoopProps
begin

text \<open>
  A whole team runs a worksharing loop through its entry points: the first thread to arrive
  allocates and sets up the descriptor, the others find it, and all draw blocks until they are
  told to stop. This combines the work-share runtime, \<open>gomp_loop_init\<close> and the iterators. Calls are
  served one at a time, in any order; that a call may also be interleaved with others step by
  step is the subject of the properties of the iterators.
\<close>

subsection \<open>Running the calls of a team\<close>

text \<open>\<open>team_calls start next is st dn R\<close>: the threads \<open>is\<close> call in that order, \<open>start\<close> the first time
  and \<open>next\<close> afterwards, until they are refused. \<open>st\<close> are the threads that have started and \<open>dn\<close>
  those that have been refused. The result is the blocks handed out, the threads refused, and
  the final state.\<close>

fun team_calls ::
  "(nat \<Rightarrow> rt \<Rightarrow> fault + block \<times> rt) \<Rightarrow> (nat \<Rightarrow> rt \<Rightarrow> fault + block \<times> rt) \<Rightarrow> nat list \<Rightarrow> nat list \<Rightarrow> nat list
    \<Rightarrow> rt \<Rightarrow> fault + (nat \<times> int \<times> int) list \<times> nat list \<times> rt"
where
  "team_calls start nxt [] st dn R = Inr ([], dn, R)"
| "team_calls start nxt (i # is) st dn R =
    (if i \<in> set dn then team_calls start nxt is st dn R
     else bindE ((if i \<in> set st then nxt else start) i R) (\<lambda>(b, R').
       case b of
         None \<Rightarrow> team_calls start nxt is (i # st) (i # dn) R'
       | Some c \<Rightarrow> bindE (team_calls start nxt is (i # st) dn R') (\<lambda>(gs, dn', R''). Inr ((i, c) # gs, dn', R''))))"

text \<open>A team of \<open>T\<close> threads that are all at the descriptor \<open>c\<close>, with nothing after it yet.\<close>

definition team_ready :: "nat \<Rightarrow> nat \<Rightarrow> rt \<Rightarrow> bool" where
  "team_ready T c R \<longleftrightarrow> team R = Some (int T) \<and> (\<forall>i < T. ts_work_share (threads R i) = Ref c) \<and> link R c = Null
     \<and> (\<exists>as fs us. pools R as fs us \<and> c \<in> set us) \<and> share_chunk R < 2 ^ 30"

text \<open>The work is shared out exactly.\<close>

definition shared_exactly ::
  "int \<Rightarrow> int \<Rightarrow> int \<Rightarrow> fault + (nat \<times> int \<times> int) list \<times> nat list \<times> rt \<Rightarrow> bool"
where
  "shared_exactly k start e m \<longleftrightarrow>
    (case m of Inl _ \<Rightarrow> False
     | Inr (gs, dn, R) \<Rightarrow>
         (\<exists>rest. granted_iters k gs @ rest = iters k start e) \<and> length gs \<le> niter k start e
         \<and> (dn \<noteq> [] \<longrightarrow> granted_iters k gs = iters k start e))"

text \<open>A thread that is still not refused has been given a block by each of its calls.\<close>

lemma team_calls_counts:
  assumes "team_calls start nxt is st dn R = Inr (gs, dn', R')" and "i \<notin> set dn'"
  shows "count_list is i = length (filter (\<lambda>(j, c). j = i) gs) \<and> set dn \<subseteq> set dn' \<and> set dn' \<subseteq> set dn \<union> set is"
  using assms
proof (induction "is" arbitrary: st dn R gs)
  case (Cons j "is")
  show ?case
  proof (cases "j \<in> set dn")
    case True
    then have "team_calls start nxt is st dn R = Inr (gs, dn', R')" using Cons.prems(1) by simp
    from Cons.IH [OF this Cons.prems(2)] show ?thesis using True Cons.prems(2) by auto
  next
    case False
    obtain b R1 where call: "(if j \<in> set st then nxt else start) j R = Inr (b, R1)"
      using Cons.prems(1) False by (cases "(if j \<in> set st then nxt else start) j R") (auto split: prod.splits)
    show ?thesis
    proof (cases b)
      case None
      then have "team_calls start nxt is (j # st) (j # dn) R1 = Inr (gs, dn', R')"
        using Cons.prems(1) call False by simp
      from Cons.IH [OF this Cons.prems(2)] Cons.prems(2) have "j \<noteq> i" by auto
      with Cons.IH [OF \<open>team_calls start nxt is (j # st) (j # dn) R1 = Inr (gs, dn', R')\<close> Cons.prems(2)]
      show ?thesis by auto
    next
      case (Some x)
      then obtain gs1 where "team_calls start nxt is (j # st) dn R1 = Inr (gs1, dn', R')" "gs = (j, x) # gs1"
        using Cons.prems(1) call False
        by (cases "team_calls start nxt is (j # st) dn R1") (auto split: prod.splits)
      with Cons.IH [OF this(1) Cons.prems(2)] show ?thesis by auto
    qed
  qed
qed simp

lemma shared_completely:
  assumes "shared_exactly k lo hi (team_calls start nxt is [] [] R)" and "set is \<subseteq> {..<T}" and "1 \<le> T"
    and "\<And>i. i < T \<Longrightarrow> niter k lo hi < count_list is i"
  shows "\<exists>gs dn R'. team_calls start nxt is [] [] R = Inr (gs, dn, R') \<and> set dn = {..<T} \<and> granted_iters k gs = iters k lo hi"
proof -
  obtain gs dn R' where C: "team_calls start nxt is [] [] R = Inr (gs, dn, R')" "length gs \<le> niter k lo hi"
    "dn \<noteq> [] \<longrightarrow> granted_iters k gs = iters k lo hi"
    using assms(1) by (auto simp: shared_exactly_def split: sum.splits)
  have "i \<in> set dn" if "i < T" for i
  proof (rule ccontr)
    assume "i \<notin> set dn"
    from team_calls_counts [OF C(1) this] have "count_list is i \<le> length gs" by simp
    then show False using assms(4) [OF that] C(2) by simp
  qed
  moreover have "set dn \<subseteq> {..<T}"
  proof -
    obtain n where "n \<notin> set dn" using ex_new_if_finite [OF infinite_UNIV_nat finite_set] by blast
    from team_calls_counts [OF C(1) this] show ?thesis using assms(2) by auto
  qed
  ultimately have dn: "set dn = {..<T}" by auto
  then have "0 \<in> set dn" using assms(3) by simp
  then have "dn \<noteq> []" by (cases dn) simp_all
  then show ?thesis using C dn by blast
qed

subsection \<open>The interface between an iterator and the loop around it\<close>

definition same_team :: "rt \<Rightarrow> rt \<Rightarrow> bool" where
  "same_team R R' \<longleftrightarrow> team R' = team R \<and> threads R' = threads R \<and> link R' = link R"

text \<open>\<open>init\<close> sets a descriptor up for the loop from \<open>lo\<close> to \<open>hi\<close> with step \<open>k\<close>; \<open>first\<close> and \<open>nxt\<close> are the
  calls that draw a block. \<open>ok w r\<close>: descriptor in order, \<open>r\<close> threads refused; \<open>pos w\<close>: where the
  rest of the loop starts. \<open>pre\<close>: what has to hold of the loop.\<close>

locale loop_client =
  fixes T :: nat and k lo hi :: int
    and init :: "nat \<Rightarrow> rt \<Rightarrow> rt"
    and first nxt :: "nat \<Rightarrow> rt \<Rightarrow> fault + block \<times> rt"
    and ok :: "work_share \<Rightarrow> nat \<Rightarrow> bool" and pos :: "work_share \<Rightarrow> int"
    and pre :: bool
  assumes init_law: "pre \<Longrightarrow> team R = Some (int T) \<Longrightarrow> 1 \<le> T \<Longrightarrow>
      same_team R (init a R) \<and> ok (store (init a R) a) 0 \<and> pos (store (init a R) a) = lo"
    and call_law: "pre \<Longrightarrow> team R = Some (int T) \<Longrightarrow> ts_work_share (threads R i) = Ref a \<Longrightarrow> ok (store R a) r \<Longrightarrow> r < T \<Longrightarrow>
      c \<in> {first, nxt} \<Longrightarrow>
      \<exists>b R'. c i R = Inr (b, R') \<and> same_team R R' \<and> ok (store R' a) (if b = None then Suc r else r)
        \<and> (case b of Some (s, e) \<Rightarrow> s = pos (store R a) \<and> e = pos (store R' a) \<and> cuts k s e hi
            | None \<Rightarrow> pos (store R' a) = pos (store R a) \<and> iters k (pos (store R' a)) hi = [])"
begin

definition start_call :: "nat \<Rightarrow> rt \<Rightarrow> fault + block \<times> rt" where
  "start_call i R = bindE (loop_start_with i False (\<lambda>a R. Inr (init a R)) R) (first i)"

text \<open>The state once the descriptor \<open>a\<close> is published.\<close>

definition running :: "nat \<Rightarrow> nat \<Rightarrow> nat list \<Rightarrow> nat list \<Rightarrow> rt \<Rightarrow> bool" where
  "running c a st dn R \<longleftrightarrow> team R = Some (int T) \<and> link R c = Ref a
     \<and> (\<forall>i < T. ts_work_share (threads R i) = Ref (if i \<in> set st then a else c))
     \<and> ok (store R a) (length dn) \<and> distinct dn \<and> set dn \<subseteq> set st \<and> set st \<subseteq> {..<T}
     \<and> (dn \<noteq> [] \<longrightarrow> iters k (pos (store R a)) hi = [])"

lemma join_running:
  assumes "running c a st dn R" and "i < T" and "i \<notin> set st"
  shows "\<exists>R'. loop_start_with i False (\<lambda>a R. Inr (init a R)) R = Inr R' \<and> running c a (i # st) dn R'
    \<and> store R' = store R"
proof -
  define t where "t = (threads R i)\<lparr>ts_last_work_share := Ref c, ts_work_share := Ref a\<rparr>"
  have "gomp_work_share_start i False R = Inr (False, set_thread i t R)"
    using assms by (simp add: running_def gomp_work_share_start_def gomp_ptrlock_get_def t_def)
  then have s: "loop_start_with i False (\<lambda>a R. Inr (init a R)) R = Inr (set_thread i t R)"
    by (simp add: loop_start_with_def)
  have "running c a (i # st) dn (set_thread i t R)"
    using assms by (auto simp: running_def t_def)
  then show ?thesis using s by auto
qed

lemma draw_block:
  assumes pre and "running c a st dn R" and "i \<in> set st" and "i \<notin> set dn" and "f \<in> {first, nxt}"
  shows "(\<exists>R'. f i R = Inr (None, R') \<and> running c a st (i # dn) R' \<and> pos (store R' a) = pos (store R a))
    \<or> (\<exists>s e R'. f i R = Inr (Some (s, e), R') \<and> running c a st dn R'
          \<and> s = pos (store R a) \<and> e = pos (store R' a) \<and> cuts k s e hi)"
proof -
  have "card (insert i (set dn)) \<le> card {..<T}"
    using assms(2,3) by (intro card_mono) (auto simp: running_def)
  then have "length dn < T" using assms(2,4) by (simp add: running_def distinct_card)
  moreover have "i < T" using assms(2,3) by (auto simp: running_def)
  ultimately obtain b R' where C: "f i R = Inr (b, R')" "same_team R R'" "ok (store R' a) (if b = None then Suc (length dn) else length dn)"
    "case b of Some (s, e) \<Rightarrow> s = pos (store R a) \<and> e = pos (store R' a) \<and> cuts k s e hi
      | None \<Rightarrow> pos (store R' a) = pos (store R a) \<and> iters k (pos (store R' a)) hi = []"
    using call_law [of R i a "length dn" f] assms by (auto simp: running_def)
  show ?thesis
  proof (cases b)
    case None
    have "running c a st (i # dn) R'" using assms C None by (auto simp: running_def same_team_def)
    then show ?thesis using C None by auto
  next
    case (Some x)
    obtain s e where x: "x = (s, e)" by fastforce
    have cut: "s = pos (store R a)" "e = pos (store R' a)" "cuts k s e hi" using C(4) Some x by auto
    then have "dn = []" using assms(2) by (auto simp: running_def cuts_def)
    then have "running c a st dn R'" using assms C Some by (auto simp: running_def same_team_def)
    then show ?thesis using C Some x cut by auto
  qed
qed

lemma running_calls:
  assumes pre: pre and "running c a st dn R" and "set is \<subseteq> {..<T}"
  shows "\<exists>gs dn' R' q. team_calls start_call nxt is st dn R = Inr (gs, dn', R')
    \<and> granted_iters k gs @ iters k q hi = iters k (pos (store R a)) hi
    \<and> length gs \<le> length (granted_iters k gs) \<and> (dn' \<noteq> [] \<longrightarrow> iters k q hi = [])"
  using assms(2,3)
proof (induction "is" arbitrary: st dn R)
  case Nil
  then show ?case by (auto simp: running_def intro!: exI [of _ "pos (store R a)"])
next
  case (Cons i "is")
  show ?case
  proof (cases "i \<in> set dn")
    case True
    then show ?thesis using Cons by simp
  next
    case False
    obtain R1 f where R1: "running c a (i # st) dn R1" "store R1 = store R" "f \<in> {first, nxt}"
      "(if i \<in> set st then nxt else start_call) i R = f i R1"
    proof (cases "i \<in> set st")
      case True
      then have "running c a (i # st) dn R" using Cons.prems(1) by (simp add: running_def insert_absorb)
      then show ?thesis using that [of R nxt] True by simp
    next
      case F: False
      then obtain R' where "loop_start_with i False (\<lambda>a R. Inr (init a R)) R = Inr R'" "running c a (i # st) dn R'"
        "store R' = store R"
        using join_running [OF Cons.prems(1) _ F] Cons.prems(2) by auto
      then show ?thesis using that [of R' first] F by (simp add: start_call_def)
    qed
    from draw_block [OF pre R1(1) _ False R1(3)] consider
        (stop) R' where "f i R1 = Inr (None, R')" "running c a (i # st) (i # dn) R'" "pos (store R' a) = pos (store R a)"
      | (grant) s e R' where "f i R1 = Inr (Some (s, e), R')" "running c a (i # st) dn R'"
          "s = pos (store R a)" "e = pos (store R' a)" "cuts k s e hi"
      using R1(2) by auto
    then show ?thesis
    proof cases
      case stop
      from Cons.IH [OF stop(2)] Cons.prems(2) show ?thesis using False R1(4) stop by simp
    next
      case grant
      from Cons.IH [OF grant(2)] Cons.prems(2)
      obtain gs dn' R'' q where "team_calls start_call nxt is (i # st) dn R' = Inr (gs, dn', R'')"
        "granted_iters k gs @ iters k q hi = iters k (pos (store R' a)) hi"
        "length gs \<le> length (granted_iters k gs)" "dn' \<noteq> [] \<longrightarrow> iters k q hi = []"
        by auto
      moreover have "iters k s e \<noteq> []" "iters k s e @ iters k e hi = iters k s hi"
        using grant(5) by (simp_all add: cuts_def)
      ultimately show ?thesis
        using False R1(4) grant
        by (intro exI [of _ "(i, s, e) # gs"] exI [of _ dn'] exI [of _ R''] exI [of _ q])
          (auto simp: granted_iters_def Suc_le_eq length_greater_0_conv [symmetric] simp del: length_greater_0_conv)
    qed
  qed
qed

lemma first_arrival:
  assumes pre and "team_ready T c R" and "i < T"
  shows "\<exists>a R'. loop_start_with i False (\<lambda>a R. Inr (init a R)) R = Inr R' \<and> running c a [i] [] R'
    \<and> pos (store R' a) = lo"
proof -
  obtain as fs us where P: "pools R as fs us" "c \<in> set us" "share_chunk R < 2 ^ 30"
    and tm: "team R = Some (int T)" and at: "\<forall>j < T. ts_work_share (threads R j) = Ref c" and l: "link R c = Null"
    using assms(2) unfolding team_ready_def by blast
  obtain a Ra where al: "alloc_work_share (set_link c Held R) = (a, Ra)" by fastforce
  have fr: "threads Ra = threads R" "team Ra = team R"
    using al by (auto simp: alloc_work_share_def Let_def split: ptr.splits)
  have "pools (set_link c Held R) as fs us" using P(1,2) by (intro pools_set_used) auto
  from alloc_work_share_pools [OF this _ al] P(2,3) have ac: "a \<noteq> c" by (auto simp: pools_def set_link_def)
  define R1 where "R1 = set_thread i ((threads R i)\<lparr>ts_last_work_share := Ref c, ts_work_share := Ref a\<rparr>)
    (gomp_init_work_share a False (int T) Ra)"
  have s: "gomp_work_share_start i False R = Inr (True, R1)"
    using tm at l al assms(3) by (simp add: gomp_work_share_start_def gomp_ptrlock_get_def Let_def R1_def)
  have t1: "ts_work_share (threads R1 i) = Ref a" by (simp add: R1_def)
  have tm1: "team R1 = Some (int T)" using tm fr by (simp add: R1_def gomp_init_work_share_def Let_def)
  define R2 where "R2 = gomp_work_share_init_done i (init a R1)"
  have L: "loop_start_with i False (\<lambda>a R. Inr (init a R)) R = Inr R2"
    using s t1 by (simp add: loop_start_with_def R2_def)
  have I: "same_team R1 (init a R1)" "ok (store (init a R1) a) 0" "pos (store (init a R1) a) = lo"
    using init_law [OF assms(1) tm1, of a] assms(3) by auto
  have th: "threads (init a R1) = threads R1" "team (init a R1) = Some (int T)" using I(1) tm1 by (simp_all add: same_team_def)
  have r2: "store R2 = store (init a R1)" "threads R2 = threads R1" "team R2 = Some (int T)" "link R2 c = Ref a"
    using th by (simp_all add: R2_def R1_def gomp_work_share_init_done_def)
  have "ts_work_share (threads R1 j) = Ref (if j = i then a else c)" if "j < T" for j
    using at that fr by (simp add: R1_def gomp_init_work_share_def Let_def)
  then have "running c a [i] [] R2" using r2 I assms(3) by (auto simp: running_def)
  then show ?thesis using L I(3) r2(1) by auto
qed

text \<open>Whatever the order of the calls, the loop is shared out exactly.\<close>

theorem team_exact:
  assumes pre and "team_ready T c R" and "set is \<subseteq> {..<T}"
  shows "shared_exactly k lo hi (team_calls start_call nxt is [] [] R)"
proof (cases "is")
  case Nil
  then show ?thesis by (simp add: shared_exactly_def)
next
  case (Cons i js)
  then have "i < T" "set js \<subseteq> {..<T}" using assms(3) by auto
  from first_arrival [OF assms(1,2) this(1)]
  obtain a R1 where R1: "loop_start_with i False (\<lambda>a R. Inr (init a R)) R = Inr R1" "running c a [i] [] R1" "pos (store R1 a) = lo"
    by blast
  then have st: "start_call i R = first i R1" by (simp add: start_call_def)
  from draw_block [OF assms(1) R1(2), of i first] consider
      (stop) R' where "first i R1 = Inr (None, R')" "running c a [i] [i] R'" "pos (store R' a) = lo"
    | (grant) e R' where "first i R1 = Inr (Some (lo, e), R')" "running c a [i] [] R'" "e = pos (store R' a)" "cuts k lo e hi"
    using R1(3) by auto
  then show ?thesis
  proof cases
    case stop
    from running_calls [OF assms(1) stop(2) \<open>set js \<subseteq> {..<T}\<close>] stop Cons st show ?thesis
      by (auto simp: shared_exactly_def running_def)
  next
    case grant
    from running_calls [OF assms(1) grant(2) \<open>set js \<subseteq> {..<T}\<close>] grant(3) 
    obtain gs dn' R'' q where G: "team_calls start_call nxt js [i] [] R' = Inr (gs, dn', R'')"
      "granted_iters k gs @ iters k q hi = iters k e hi" "length gs \<le> length (granted_iters k gs)"
      "dn' \<noteq> [] \<longrightarrow> iters k q hi = []" by auto
    have c: "iters k lo e \<noteq> []" "iters k lo e @ iters k e hi = iters k lo hi" using grant(4) by (simp_all add: cuts_def)
    have all: "granted_iters k ((i, lo, e) # gs) @ iters k q hi = iters k lo hi"
      using G(2) c(2) by (simp add: granted_iters_def)
    have "length ((i, lo, e) # gs) \<le> length (granted_iters k ((i, lo, e) # gs))"
      using G(3) c(1) by (auto simp: granted_iters_def Suc_le_eq length_greater_0_conv [symmetric] simp del: length_greater_0_conv)
    also have "\<dots> \<le> niter k lo hi" using arg_cong [OF all, of length] by simp
    finally have "length ((i, lo, e) # gs) \<le> niter k lo hi" .
    then show ?thesis using all G(1,4) grant(1) Cons st unfolding shared_exactly_def by auto
  qed
qed

end

end
