(* ===== verification/TeamRuntime.thy ===== *)
theory TeamRuntime
  imports TeamLoop
begin

text \<open>
  The contract between the loop protocol and the iterators (\<open>TeamLoop\<close>), discharged for the
  schedules that \<open>OMP_SCHEDULE\<close> can select through \<open>GOMP_loop_runtime_start\<close> and
  \<open>GOMP_loop_runtime_next\<close>.
\<close>

subsection \<open>The calls that draw a block\<close>

definition is_tape :: "gomp_schedule_type \<Rightarrow> bool" where
  "is_tape sc \<longleftrightarrow> sc = FS_TAPE \<or> sc = FS_TAPE3 \<or> sc = BO_TAPE"

definition is_tss :: "gomp_schedule_type \<Rightarrow> bool" where
  "is_tss sc \<longleftrightarrow> sc = FS_TSS \<or> sc = FS_TRAP1 \<or> sc = BO_TSS"

definition is_fss :: "gomp_schedule_type \<Rightarrow> bool" where
  "is_fss sc \<longleftrightarrow> sc = FS_FSS \<or> sc = BO_FSS"

text \<open>The schedules that share work out through one position, \<open>ws->next\<close>.\<close>

definition central :: "gomp_schedule_type \<Rightarrow> bool" where
  "central sc \<longleftrightarrow> dynamic_like sc \<or> sc = GFS_GUIDED \<or> is_tape sc \<or> is_tss sc \<or> sc = FS_FAC2 \<or> is_fss sc"

lemmas kind_defs = dynamic_like_def is_tape_def is_tss_def is_fss_def

definition drawer :: "bo_env \<Rightarrow> int \<Rightarrow> gomp_schedule_type \<Rightarrow> work_share \<Rightarrow> (block \<times> work_share) option" where
  "drawer env n sc w =
    (if dynamic_like sc then call_alone gomp_iter_dynamic_next dyn_result call_fuel w DynCall
     else if sc = GFS_GUIDED then call_alone (gomp_iter_guided_next n) guided_result call_fuel w GuidedCall
     else if is_tape sc then call_alone (bo_iter_tape_next (fpu env) n) cas_result call_fuel w CasCall
     else if is_tss sc then call_alone (bo_iter_tss_next (fpu env)) cas_result call_fuel w CasCall
     else if sc = FS_FAC2 then call_alone (bo_iter_fac2_next (fpu env) n) batch_result call_fuel w BCall
     else call_alone (bo_iter_fss_next (fpu env) n) batch_result call_fuel w BCall)"

definition sched_ok :: "gomp_schedule_type \<Rightarrow> nat \<Rightarrow> int \<Rightarrow> int \<Rightarrow> work_share \<Rightarrow> nat \<Rightarrow> bool" where
  "sched_ok sc T k hi w r \<longleftrightarrow> sched w = sc \<and> incr w = k \<and> end_it w = hi \<and>
    (if dynamic_like sc then dyn_ok T w r
     else if sc = GFS_GUIDED then guided_ok (int T) w
     else if is_tape sc \<or> is_tss sc then long_loop w
     else if sc = FS_FAC2 then long_loop w \<and> (\<not> chunked w \<longrightarrow> barrier w = next_it w)
     else fss_good w \<and> (\<not> chunked w \<longrightarrow> barrier w = next_it w))"

definition sched_pos :: "gomp_schedule_type \<Rightarrow> work_share \<Rightarrow> int" where
  "sched_pos sc = (if dynamic_like sc then dyn_pos else next_it)"

text \<open>No iterator writes \<open>ws->sched\<close>.\<close>

lemma call_alone_sched:
  assumes "\<And>w p. sched (fst (step w p)) = sched w" and "call_alone step result f ws p = Some (res, ws')"
  shows "sched ws' = sched ws"
  using assms(2)
proof (induction f arbitrary: ws p)
  case (Suc f)
  obtain w p' where st: "step ws p = (w, p')" by fastforce
  then have "sched w = sched ws" using assms(1) [of ws p] by simp
  then show ?case using Suc.prems Suc.IH [of w p'] st by (cases "result p'") auto
qed simp

lemma step_sched:
  "sched (fst (gomp_iter_dynamic_next w dp)) = sched w"
  "sched (fst (gomp_iter_guided_next n w gp)) = sched w"
  by (cases dp; simp add: Let_def) (cases gp; simp add: Let_def)

lemma cas_sched: "(\<And>w. sched (fst (first w)) = sched w) \<Longrightarrow> sched (fst (cas_prog first block w p)) = sched w"
  by (cases p) (auto split: prod.splits simp: prod_eq_iff)

lemma batch_sched: "sched (fst (batch_next ops n w p)) = sched w"
  by (cases p) (auto simp: batch_take_def Let_def split: option.splits)

lemma drawer_sched:
  assumes "drawer env n sc w = Some (b, w')"
  shows "sched w' = sched w"
proof -
  have tape: "sched (fst (bo_iter_tape_next (fpu env) n w p)) = sched w"
    and tss: "sched (fst (bo_iter_tss_next (fpu env) w p)) = sched w" for w p
    by (simp_all add: bo_iter_tape_next_def bo_iter_tss_next_def cas_sched tss_first_def)
  have fac2: "sched (fst (bo_iter_fac2_next (fpu env) n w p)) = sched w"
    and fss: "sched (fst (bo_iter_fss_next (fpu env) n w p)) = sched w" for w p
    by (simp_all add: bo_iter_fac2_next_def bo_iter_fss_next_def batch_sched)
  show ?thesis
    using assms unfolding drawer_def
    by (auto split: if_splits dest: call_alone_sched [OF step_sched(1)] call_alone_sched [OF step_sched(2)]
        call_alone_sched [OF tape] call_alone_sched [OF tss] call_alone_sched [OF fac2] call_alone_sched [OF fss])
qed

subsection \<open>Each call meets the contract\<close>

definition draws :: "nat \<Rightarrow> int \<Rightarrow> gomp_schedule_type \<Rightarrow> nat \<Rightarrow> int \<Rightarrow> int \<Rightarrow> work_share \<Rightarrow> (block \<times> work_share) option \<Rightarrow> bool" where
  "draws r n sc T k hi w m \<longleftrightarrow> (\<exists>b w'. m = Some (b, w') \<and> sched_ok sc T k hi w' (if b = None then Suc r else r)
    \<and> call_effect incr (sched_pos sc) w b w')"

lemma drawer_dynamic:
  assumes "dynamic_like sc" and "sched_ok sc T k hi w r" and "r < T"
  shows "draws r n sc T k hi w (drawer env n sc w)"
proof -
  have ok: "dyn_ok T w r" using assms by (simp add: sched_ok_def)
  have "dyn_mu w DynCall < call_fuel" by (simp add: call_fuel_def)
  from dynamic.alone_call [OF ok assms(3) dynamic.start_ok [OF ok] dynamic.start_running this]
  obtain b w' where C: "drawer env n sc w = Some (b, w')" "dyn_ok T w' (if b = None then Suc r else r)"
    "call_effect incr dyn_pos w b w'"
    using assms(1) by (auto simp: drawer_def)
  then show ?thesis
    using assms drawer_sched [OF C(1)] by (auto simp: draws_def sched_ok_def sched_pos_def call_effect_def)
qed

lemma drawer_guided:
  assumes "sched_ok GFS_GUIDED T k hi w r" and "r < T"
  shows "draws r (int T) GFS_GUIDED T k hi w (drawer env (int T) GFS_GUIDED w)"
proof -
  have ok: "guided_ok (int T) w" using assms by (simp add: sched_ok_def kind_defs)
  have "guided_mu w GuidedCall < call_fuel" by (simp add: call_fuel_def)
  from guided.alone_call [OF ok assms(2) guided.start_ok [OF ok] guided.start_running this]
  obtain b w' where C: "drawer env (int T) GFS_GUIDED w = Some (b, w')" "guided_ok (int T) w'"
    "call_effect incr next_it w b w'"
    by (auto simp: drawer_def kind_defs)
  then show ?thesis
    using assms drawer_sched [OF C(1)] by (auto simp: draws_def sched_ok_def sched_pos_def call_effect_def kind_defs)
qed

lemma drawer_tape:
  assumes "is_tape sc" and "sched_ok sc T k hi w r" and "r < T"
  shows "draws r n sc T k hi w (drawer env n sc w)"
proof -
  have ok: "long_loop w" using assms by (auto simp: sched_ok_def kind_defs)
  have "tape.mu w CasCall < call_fuel" by (simp add: call_fuel_def tape.mu.simps)
  from tape.alone_call [OF ok assms(3) tape.start_ok [OF ok] tape.start_running this, of "fpu env" n]
  obtain b w' where C: "drawer env n sc w = Some (b, w')" "long_loop w'" "call_effect incr next_it w b w'"
    using assms(1) by (auto simp: drawer_def kind_defs bo_iter_tape_next_def)
  then show ?thesis
    using assms drawer_sched [OF C(1)] by (auto simp: draws_def sched_ok_def sched_pos_def call_effect_def kind_defs)
qed

lemma drawer_tss:
  assumes "is_tss sc" and "sched_ok sc T k hi w r" and "r < T"
  shows "draws r n sc T k hi w (drawer env n sc w)"
proof -
  have ok: "long_loop w" using assms by (auto simp: sched_ok_def kind_defs)
  have "tss.mu w CasCall < call_fuel" by (simp add: call_fuel_def tss.mu.simps)
  from tss.alone_call [OF ok assms(3) tss.start_ok [OF ok] tss.start_running this, of "fpu env"]
  obtain b w' where C: "drawer env n sc w = Some (b, w')" "long_loop w'" "call_effect incr next_it w b w'"
    using assms(1) by (auto simp: drawer_def kind_defs bo_iter_tss_next_def)
  then show ?thesis
    using assms drawer_sched [OF C(1)] by (auto simp: draws_def sched_ok_def sched_pos_def call_effect_def kind_defs)
qed

lemma drawer_fac2:
  assumes "sched_ok FS_FAC2 T k hi w r" and "r < T"
  shows "draws r n FS_FAC2 T k hi w (drawer env n FS_FAC2 w)"
proof -
  have ok: "fac2.ok w" using assms by (simp add: sched_ok_def kind_defs fac2.ok_def)
  have "fac2.mu w BCall < call_fuel" by (simp add: call_fuel_def)
  from fac2.alone_call [OF ok assms(2) fac2.start_ok [OF ok] fac2.start_running this, of "fpu env" n]
  obtain b w' where C: "drawer env n FS_FAC2 w = Some (b, w')" "fac2.ok w'" "call_effect incr next_it w b w'"
    by (auto simp: drawer_def kind_defs bo_iter_fac2_next_def)
  then show ?thesis
    using assms drawer_sched [OF C(1)]
    by (auto simp: draws_def sched_ok_def sched_pos_def call_effect_def kind_defs fac2.ok_def)
qed

lemma drawer_fss:
  assumes "is_fss sc" and "sched_ok sc T k hi w r" and "r < T"
  shows "draws r n sc T k hi w (drawer env n sc w)"
proof -
  have ok: "fss.ok w" using assms by (auto simp: sched_ok_def kind_defs fss.ok_def)
  have "fss.mu w BCall < call_fuel" by (simp add: call_fuel_def)
  from fss.alone_call [OF ok assms(3) fss.start_ok [OF ok] fss.start_running this, of "fpu env" n]
  obtain b w' where C: "drawer env n sc w = Some (b, w')" "fss.ok w'" "call_effect incr next_it w b w'"
    using assms(1) by (auto simp: drawer_def kind_defs bo_iter_fss_next_def)
  then show ?thesis
    using assms drawer_sched [OF C(1)]
    by (auto simp: draws_def sched_ok_def sched_pos_def call_effect_def kind_defs fss.ok_def)
qed

lemma drawer_law:
  assumes "central sc" and "sched_ok sc T k hi w r" and "r < T"
  shows "draws r (int T) sc T k hi w (drawer env (int T) sc w)"
  using assms drawer_dynamic drawer_guided drawer_tape drawer_tss drawer_fac2 drawer_fss
  unfolding central_def by metis

subsection \<open>Setting up meets the contract\<close>

text \<open>A loop from \<open>start\<close> to \<open>e\<close> of at least one whole step, whose length is a \<open>long\<close>.\<close>

definition loop_fits :: "int \<Rightarrow> int \<Rightarrow> int \<Rightarrow> bool" where
  "loop_fits k start e \<longleftrightarrow> k \<noteq> 0 \<and> is_long start \<and> is_long e \<and> is_long k
     \<and> \<bar>k\<bar> \<le> sgn k * (e - start) \<and> sgn k * (e - start) \<le> LONG_MAX"

lemma loop_init_same_team: "same_team R (gomp_loop_init env start e k sc chunk region a R)"
  by (simp add: same_team_def gomp_loop_init_def Let_def)

lemma init_common_fits:
  assumes "loop_fits k start e"
  shows "long_loop (loop_init_common start e k sc chunk w)" "end_it (loop_init_common start e k sc chunk w) = e"
    "incr (loop_init_common start e k sc chunk w) = k" "next_it (loop_init_common start e k sc chunk w) = start"
    "barrier (loop_init_common start e k sc chunk w) = start" "sched (loop_init_common start e k sc chunk w) = sc"
    "chunk_size (loop_init_common start e k sc chunk w) = chunk"
  using assms by (auto simp: loop_fits_def loop_init_common_def long_loop_def extent_def sgn_if split: if_splits)

lemma long_loop_param [simp]:
  "long_loop (w\<lparr>param := p\<rparr>) = long_loop w" "long_loop (w\<lparr>chunk_size := c\<rparr>) = long_loop w"
  "long_loop (w\<lparr>barrier := c\<rparr>) = long_loop w"
  by (simp_all add: long_loop_def extent_def)

lemma init_fss_shape:
  "\<exists>p F. is_ulong F \<and> init_fss env region n N w =
      w\<lparr>param := p, chunk_size := s64 F, barrier := s64 (u64 (barrier w + u64 (u64 (F * n) * incr w)))\<rparr>"
  unfolding init_fss_def Let_def by (rule exI, rule exI, rule conjI [OF dbl_to_ulong_range refl])

lemma init_fss_chunked:
  assumes "barrier w = next_it w" and "is_long (next_it w)" and "\<not> chunked (init_fss env region n N w)"
  shows "barrier (init_fss env region n N w) = next_it w"
proof -
  obtain p F where F: "0 \<le> F" "F \<le> ULONG_MAX" "init_fss env region n N w =
      w\<lparr>param := p, chunk_size := s64 F, barrier := s64 (u64 (barrier w + u64 (u64 (F * n) * incr w)))\<rparr>"
    using init_fss_shape [of env region n N w] by blast
  then have "F = 0" using assms(3) by (simp add: chunked_def u64_id)
  then show ?thesis using F(3) assms(1,2) by (simp add: u64_id [of 0] s64_id)
qed

lemma loop_init_ok:
  assumes "central sc" and "loop_fits k start e" and "sc = GFS_GUIDED \<Longrightarrow> 1 \<le> chunk \<and> chunk \<le> LONG_MAX"
    and "is_fss sc \<Longrightarrow> (e - start) mod k = 0" and "team R = Some (int T)" and "1 \<le> T" and "T < 2 ^ 31"
  shows "sched_ok sc T k e (store (gomp_loop_init env start e k sc chunk region a R) a) 0
    \<and> sched_pos sc (store (gomp_loop_init env start e k sc chunk region a R) a) = start"
proof -
  define w where "w = loop_init_common start e k sc chunk (store R a)"
  note W = init_common_fits [OF assms(2), of sc chunk "store R a", folded w_def]
  have n: "team_size R = int T" using assms(5) by (simp add: team_size_def)
  have lo: "is_long start" using assms(2) by (simp add: loop_fits_def)
  define v where "v = (if is_parameterized sc then w\<lparr>param := bo_schedule_parameter env region (is_bo_schedule sc)\<rparr> else w)"
  have V: "long_loop v" "end_it v = e" "incr v = k" "next_it v = start" "barrier v = start" "sched v = sc" "chunk_size v = chunk"
    using W by (simp_all add: v_def)
  let ?s = "store (gomp_loop_init env start e k sc chunk region a R) a" and ?N = "loop_num_tasks w"
  consider (dynamic) "dynamic_like sc" | (guided) "sc = GFS_GUIDED" | (tape) "is_tape sc" | (tss) "is_tss sc"
    | (fac2) "sc = FS_FAC2" | (fss) "is_fss sc" using assms(1) unfolding central_def by blast
  then show ?thesis
  proof cases
    case dynamic
    then have "sched ?s = sc"
      using init_dynamic_store [OF dynamic, of env start e k chunk region a R, folded w_def, folded v_def] V(6)
      by (simp add: init_css_def Let_def)
    moreover have "dyn_ok T ?s 0 \<and> next_it ?s = start \<and> end_it ?s = e \<and> incr ?s = k"
      using init_dynamic_ok [OF dynamic, of k start e R env chunk region a] assms(2,6,7) n by (simp add: loop_fits_def)
    moreover have "\<not> 0 < sgn k * (start - e)" using assms(2) by (auto simp: loop_fits_def sgn_if split: if_splits)
    ultimately show ?thesis using dynamic by (simp add: sched_ok_def sched_pos_def dyn_pos_def)
  next
    case guided
    then have "?s = v"
      by (simp add: gomp_loop_init_def v_def w_def is_parameterized_def is_bo_schedule_def Let_def)
    then show ?thesis using guided V assms(3,6,7) by (simp add: sched_ok_def sched_pos_def kind_defs guided_ok_def)
  next
    case tape
    then have "?s = init_tape env region v"
      unfolding gomp_loop_init_def v_def w_def is_tape_def Let_def n by (elim disjE) simp_all
    then show ?thesis using tape V by (auto simp: sched_ok_def sched_pos_def kind_defs init_tape_def)
  next
    case tss
    then have "?s = init_tss env region (int T) ?N v"
      unfolding gomp_loop_init_def v_def w_def is_tss_def Let_def n by (elim disjE) simp_all
    then show ?thesis using tss V by (auto simp: sched_ok_def sched_pos_def kind_defs init_tss_def Let_def)
  next
    case fac2
    then have "?s = init_fac2 env (int T) ?N v"
      by (simp add: gomp_loop_init_def v_def w_def Let_def n)
    then show ?thesis using fac2 V by (simp add: sched_ok_def sched_pos_def kind_defs init_fac2_def Let_def)
  next
    case fss
    then have s: "?s = init_fss env region (int T) ?N v"
      unfolding gomp_loop_init_def v_def w_def is_fss_def Let_def n by (elim disjE) simp_all
    have "\<not> chunked ?s \<longrightarrow> barrier ?s = start"
      using init_fss_chunked [of v env region "int T" ?N] V(4,5) lo s by auto
    moreover have "fss_good ?s" "next_it ?s = start" "sched ?s = sc" "incr ?s = k" "end_it ?s = e"
      using s V assms(4) [OF fss] by (simp_all add: init_fss_def Let_def fss_good_def)
    ultimately show ?thesis using fss by (auto simp: sched_ok_def sched_pos_def kind_defs)
  qed
qed

subsection \<open>The runtime entry points are a client\<close>

text \<open>What a thread does after the descriptor is there, in \<open>GOMP_loop_runtime_start\<close>.\<close>

definition runtime_first :: "bo_env \<Rightarrow> gomp_schedule_type \<Rightarrow> nat \<Rightarrow> rt \<Rightarrow> fault + block \<times> rt" where
  "runtime_first env sc i R =
    (if sc = GFS_DYNAMIC then bindE (call_dynamic i R) profile_start
     else iterate i (drawer env (team_size R) sc) R)"

definition runtime_pre :: "bo_env \<Rightarrow> gomp_schedule_type \<Rightarrow> nat \<Rightarrow> int \<Rightarrow> int \<Rightarrow> int \<Rightarrow> int \<Rightarrow> int \<Rightarrow> bool" where
  "runtime_pre env sc T k start e chunk region \<longleftrightarrow> central sc \<and> loop_fits k start e \<and> 1 \<le> T \<and> T < 2 ^ 31
     \<and> (sc = GFS_GUIDED \<longrightarrow> 1 \<le> chunk \<and> chunk \<le> LONG_MAX) \<and> (is_fss sc \<longrightarrow> (e - start) mod k = 0)
     \<and> \<not> bo_fallback_static env region (is_bo_schedule sc)"

text \<open>\<open>drawn\<close>: the conclusion of the law for calls.\<close>

definition drawn :: "nat \<Rightarrow> gomp_schedule_type \<Rightarrow> nat \<Rightarrow> int \<Rightarrow> int \<Rightarrow> nat \<Rightarrow> rt \<Rightarrow> fault + block \<times> rt \<Rightarrow> bool" where
  "drawn r sc T k hi a R m \<longleftrightarrow>
    (\<exists>b R'. m = Inr (b, R') \<and> same_team R R' \<and> sched_ok sc T k hi (store R' a) (if b = None then Suc r else r)
        \<and> (case b of Some (s, e) \<Rightarrow> s = sched_pos sc (store R a) \<and> e = sched_pos sc (store R' a) \<and> cuts k s e hi
            | None \<Rightarrow> sched_pos sc (store R' a) = sched_pos sc (store R a) \<and> iters k (sched_pos sc (store R' a)) hi = []))"

lemma drawn_iterate:
  assumes "central sc" and "sched_ok sc T k hi (store R a) r" and "r < T" and "ts_work_share (threads R i) = Ref a"
    and "team R = Some (int T)"
  shows "drawn r sc T k hi a R (iterate i (drawer env (team_size R) sc) R)"
proof -
  have n: "team_size R = int T" using assms(5) by (simp add: team_size_def)
  obtain b w' where D: "drawer env (int T) sc (store R a) = Some (b, w')"
    "sched_ok sc T k hi w' (if b = None then Suc r else r)" "call_effect incr (sched_pos sc) (store R a) b w'"
    using drawer_law [OF assms(1-3), of env] by (auto simp: draws_def)
  then have "iterate i (drawer env (team_size R) sc) R = Inr (b, set_share a w' R)"
    using assms(4) n by (simp add: iterate_def with_share_def)
  moreover have "incr (store R a) = k" "end_it (store R a) = hi" using assms(2) by (simp_all add: sched_ok_def)
  ultimately show ?thesis
    using D by (auto simp: drawn_def same_team_def call_effect_def split: option.splits)
qed

lemma drawn_log: "drawn r sc T k hi a (log_call c R) m \<Longrightarrow> drawn r sc T k hi a R m"
  by (simp only: drawn_def same_team_def set_simps)

text \<open>Bookkeeping after a call that keeps the block.\<close>

lemma drawn_then:
  assumes "drawn r sc T k hi a R m"
    and "\<And>b R1. \<exists>R2. g (b, R1) = Inr (b, R2) \<and> same_team R1 R2 \<and> store R2 = store R1"
  shows "drawn r sc T k hi a R (bindE m g)"
proof -
  from assms(1) obtain b R1 where "m = Inr (b, R1)" unfolding drawn_def by blast
  moreover obtain R2 where "g (b, R1) = Inr (b, R2)" "same_team R1 R2" "store R2 = store R1" using assms(2) by blast
  ultimately show ?thesis using assms(1) by (auto simp: drawn_def same_team_def split: option.splits)
qed

lemma drawer_eqs:
  "dynamic_like sc \<Longrightarrow> drawer env n sc = (\<lambda>w. call_alone gomp_iter_dynamic_next dyn_result call_fuel w DynCall)"
  "drawer env n GFS_GUIDED = (\<lambda>w. call_alone (gomp_iter_guided_next n) guided_result call_fuel w GuidedCall)"
  "is_tape sc \<Longrightarrow> drawer env n sc = (\<lambda>w. call_alone (bo_iter_tape_next (fpu env) n) cas_result call_fuel w CasCall)"
  "is_tss sc \<Longrightarrow> drawer env n sc = (\<lambda>w. call_alone (bo_iter_tss_next (fpu env)) cas_result call_fuel w CasCall)"
  "drawer env n FS_FAC2 = (\<lambda>w. call_alone (bo_iter_fac2_next (fpu env) n) batch_result call_fuel w BCall)"
  "is_fss sc \<Longrightarrow> drawer env n sc = (\<lambda>w. call_alone (bo_iter_fss_next (fpu env) n) batch_result call_fuel w BCall)"
  by (auto simp: drawer_def kind_defs fun_eq_iff)

lemma call_dynamic_drawer: "call_dynamic i R = iterate i (drawer env (team_size R) GFS_DYNAMIC) R"
  by (simp add: call_dynamic_def drawer_eqs kind_defs)

lemma profile_keeps: "\<exists>R2. profile_start (b, R1) = Inr (b, R2) \<and> same_team R1 R2 \<and> store R2 = store R1"
  by (cases b) (auto simp: profile_start_def same_team_def)

lemma runtime_next_drawer:
  assumes "ts_work_share (threads R i) = Ref a" and "sched (store R a) = sc" and "central sc"
  shows "GOMP_loop_runtime_next env i R =
    (let R1 = log_call BoIterationStop R;
         R2 = (if sc = GFS_DYNAMIC then log_call BoProfileStop R1 else R1);
         m = iterate i (drawer env (team_size R2) sc) R2
     in bindE (if sc = GFS_DYNAMIC then bindE m profile_start else m)
          (\<lambda>(b, R'). Inr (b, if b \<noteq> None then log_call BoIterationStart R' else R')))"
proof -
  have t: "team_size (log_call c R) = team_size R" for c R by (simp add: team_size_def)
  show ?thesis
    using assms unfolding central_def kind_defs
    by (elim disjE) (simp_all add: GOMP_loop_runtime_next_def with_share_def next_defs drawer_eqs kind_defs t)
qed

lemma runtime_call_law:
  assumes "runtime_pre env sc T k start e chunk region" and "team R = Some (int T)" and "ts_work_share (threads R i) = Ref a"
    and "sched_ok sc T k e (store R a) r" and "r < T" and "c \<in> {runtime_first env sc, GOMP_loop_runtime_next env}"
  shows "drawn r sc T k e a R (c i R)"
proof -
  have ct: "central sc" using assms(1) by (simp add: runtime_pre_def)
  have it: "drawn r sc T k e a R' (iterate i (drawer env (team_size R') sc) R')"
    if "store R' = store R" "threads R' = threads R" "team R' = team R" for R'
    using drawn_iterate [OF ct, of T k e R' a r i env] assms that by simp
  show ?thesis
  proof (cases "c = runtime_first env sc")
    case True
    then show ?thesis
      using it [of R] drawn_then [OF it [of R] profile_keeps] call_dynamic_drawer [of i R env]
      by (cases "sc = GFS_DYNAMIC") (simp_all add: runtime_first_def)
  next
    case False
    then have c: "c = GOMP_loop_runtime_next env" using assms(6) by simp
    define R2 where "R2 = (if sc = GFS_DYNAMIC then log_call BoProfileStop (log_call BoIterationStop R)
      else log_call BoIterationStop R)"
    let ?m = "iterate i (drawer env (team_size R2) sc) R2"
    let ?fin = "\<lambda>(b, R'). Inr (b, if b \<noteq> None then log_call BoIterationStart R' else R')"
    have m: "drawn r sc T k e a R2 ?m" by (rule it) (simp_all add: R2_def)
    have "\<exists>R2. ?fin (b, R1) = Inr (b, R2) \<and> same_team R1 R2 \<and> store R2 = store R1" for b R1
      by (simp add: same_team_def)
    note fin = drawn_then [OF _ this]
    have "drawn r sc T k e a R2 (bindE (if sc = GFS_DYNAMIC then bindE ?m profile_start else ?m) ?fin)"
      using fin [OF m] fin [OF drawn_then [OF m profile_keeps]] by (cases "sc = GFS_DYNAMIC") (simp_all only: if_True if_False simp_thms)
    then have "drawn r sc T k e a R (bindE (if sc = GFS_DYNAMIC then bindE ?m profile_start else ?m) ?fin)"
      by (cases "sc = GFS_DYNAMIC") (auto simp only: R2_def if_True if_False simp_thms dest!: drawn_log)
    moreover have "sched (store R a) = sc" using assms(4) by (simp add: sched_ok_def)
    note runtime_next_drawer [OF assms(3) this ct, of env]
    ultimately show ?thesis by (simp only: c Let_def R2_def)
  qed
qed

interpretation runtime: loop_client T k start e "gomp_loop_init env start e k sc chunk region"
    "runtime_first env sc" "GOMP_loop_runtime_next env" "sched_ok sc T k e" "sched_pos sc"
    "runtime_pre env sc T k start e chunk region"
  for T k start e env sc chunk region
proof (unfold_locales, goal_cases)
  case (1 R a)
  then show ?case
    using loop_init_ok [of sc k start e chunk R T env region a] loop_init_same_team by (simp add: runtime_pre_def)
next
  case (2 R i a r c)
  then show ?case using runtime_call_law [of env sc T k start e chunk region R i a r c] by (simp only: drawn_def)
qed

lemma runtime_first_eqs:
  "runtime_first env GFS_DYNAMIC = (\<lambda>i R. bindE (call_dynamic i R) profile_start)"
  "runtime_first env FS_CSS = bo_loop_css_next" "runtime_first env BO_CSS = bo_loop_css_next"
  "runtime_first env GFS_GUIDED = call_guided"
  "is_tape sc \<Longrightarrow> runtime_first env sc = bo_loop_tape_next env"
  "is_tss sc \<Longrightarrow> runtime_first env sc = bo_loop_tss_next env"
  "runtime_first env FS_FAC2 = bo_loop_fac2_next env"
  "is_fss sc \<Longrightarrow> runtime_first env sc = bo_loop_fss_next env"
  by (auto simp: fun_eq_iff runtime_first_def next_defs drawer_eqs kind_defs)

lemma runtime_start_call:
  assumes "runtime_pre env sc T k start e chunk region" and "run_sched_var icv = sc"
    and "chunk = (if sc = GFS_DYNAMIC \<or> sc = GFS_GUIDED then run_sched_chunk_size icv else 0)"
  shows "(\<lambda>i. GOMP_loop_runtime_start env icv i start e k region) =
    runtime.start_call env start e k sc chunk region"
proof (intro ext)
  fix i R
  have f: "\<not> bo_fallback_static env region (is_bo_schedule sc)" and ct: "central sc"
    using assms(1) by (simp_all add: runtime_pre_def)
  show "GOMP_loop_runtime_start env icv i start e k region R = runtime.start_call env start e k sc chunk region i R"
    using ct f assms(2,3) unfolding central_def kind_defs runtime.start_call_def
    by (elim disjE) (simp_all add: GOMP_loop_runtime_start_def runtime_first_eqs start_defs kind_defs)
qed

text \<open>The loop as the program writes it: \<open>sc\<close> and \<open>chunk\<close> come from the control variables.\<close>

definition runtime_chunk :: "task_icv \<Rightarrow> int" where
  "runtime_chunk icv =
    (if run_sched_var icv = GFS_DYNAMIC \<or> run_sched_var icv = GFS_GUIDED then run_sched_chunk_size icv else 0)"

definition runtime_calls :: "bo_env \<Rightarrow> task_icv \<Rightarrow> int \<Rightarrow> int \<Rightarrow> int \<Rightarrow> int \<Rightarrow> nat list \<Rightarrow> rt \<Rightarrow> fault + (nat \<times> int \<times> int) list \<times> nat list \<times> rt" where
  "runtime_calls env icv start e k region is R =
    team_calls (\<lambda>i. GOMP_loop_runtime_start env icv i start e k region) (GOMP_loop_runtime_next env) is [] [] R"

lemma runtime_exact:
  assumes "team_ready T c R" and "set is \<subseteq> {..<T}"
    and "runtime_pre env (run_sched_var icv) T k start e (runtime_chunk icv) region"
  shows "shared_exactly k start e (runtime_calls env icv start e k region is R)"
  using runtime.team_exact [OF assms(3,1,2)] runtime_start_call [OF assms(3) refl]
  by (simp add: runtime_calls_def runtime_chunk_def)

end
