(* ===== verification/CString.thy ===== *)
theory CString
  imports Prelude "HOL-Library.Sublist"
begin

text \<open>
  What the environment parsers use of the C library, on C strings as lists of non-null
  characters: the empty list is the terminating null. \<open>isspace\<close> and \<open>tolower\<close> are those of the C
  locale; \<open>strtoul\<close> with base 10 follows ISO C: white space, an optional sign, digits; out of range
  values saturate and set \<open>errno\<close>; a minus sign negates the result in unsigned arithmetic.
  \<open>strtol\<close> is the signed form.
\<close>

definition isspace :: "char \<Rightarrow> bool" where
  "isspace c \<longleftrightarrow> of_char c = (32::nat) \<or> (9::nat) \<le> of_char c \<and> of_char c \<le> (13::nat)"

definition isdigit :: "char \<Rightarrow> bool" where
  "isdigit c \<longleftrightarrow> (48::nat) \<le> of_char c \<and> of_char c \<le> (57::nat)"

definition tolower :: "char \<Rightarrow> char" where
  "tolower c = (let n = of_char c :: nat in if 65 \<le> n \<and> n \<le> 90 then char_of (n + 32) else c)"

definition skip_spaces :: "string \<Rightarrow> string" where "skip_spaces s = dropWhile isspace s"

text \<open>\<open>strncasecmp (s, w, strlen (w)) == 0\<close>, for a word \<open>w\<close> in lower case.\<close>

definition starts_with :: "string \<Rightarrow> string \<Rightarrow> bool" where
  "starts_with s w \<longleftrightarrow> map tolower (take (length w) s) = w"

definition digit_value :: "char \<Rightarrow> int" where "digit_value c = int (of_char c) - 48"

definition dec_value :: "string \<Rightarrow> int" where "dec_value ds = foldl (\<lambda>v c. 10 * v + digit_value c) 0 ds"

text \<open>The value, the rest of the string (\<open>*endptr\<close>) and whether \<open>errno\<close> was set.\<close>

definition strtoul :: "string \<Rightarrow> int \<times> string \<times> bool" where
  "strtoul s =
    (let s1 = skip_spaces s;
         neg = (s1 \<noteq> [] \<and> hd s1 = CHR ''-'');
         s2 = (if s1 \<noteq> [] \<and> (hd s1 = CHR ''-'' \<or> hd s1 = CHR ''+'') then tl s1 else s1);
         ds = takeWhile isdigit s2
     in if ds = [] then (0, s, False)
        else if dec_value ds > ULONG_MAX then (ULONG_MAX, dropWhile isdigit s2, True)
        else (u64 (if neg then - dec_value ds else dec_value ds), dropWhile isdigit s2, False))"

definition strtol :: "string \<Rightarrow> int \<times> string \<times> bool" where
  "strtol s =
    (let s1 = skip_spaces s;
         neg = (s1 \<noteq> [] \<and> hd s1 = CHR ''-'');
         s2 = (if s1 \<noteq> [] \<and> (hd s1 = CHR ''-'' \<or> hd s1 = CHR ''+'') then tl s1 else s1);
         ds = takeWhile isdigit s2;
         v = (if neg then - dec_value ds else dec_value ds)
     in if ds = [] then (0, s, False)
        else if v > LONG_MAX then (LONG_MAX, dropWhile isdigit s2, True)
        else if v < LONG_MIN then (LONG_MIN, dropWhile isdigit s2, True)
        else (v, dropWhile isdigit s2, False))"

text \<open>Decimal notation, as the user writes it.\<close>

fun decimal :: "nat \<Rightarrow> string" where
  "decimal n = (if n < 10 then [char_of (48 + n)] else decimal (n div 10) @ [char_of (48 + n mod 10)])"

declare decimal.simps [simp del]

lemma of_char_digit: "n < 10 \<Longrightarrow> of_char (char_of (48 + n) :: char) = (48 + n :: nat)"
  by (simp add: of_char_of)

lemma digit_facts:
  assumes "n < 10"
  shows "isdigit (char_of (48 + n))" "digit_value (char_of (48 + n)) = int n" "\<not> isspace (char_of (48 + n))"
    "char_of (48 + n) \<noteq> CHR ''-''" "char_of (48 + n) \<noteq> CHR ''+''"
proof -
  note d = of_char_digit [OF assms]
  show "isdigit (char_of (48 + n))" "digit_value (char_of (48 + n)) = int n" "\<not> isspace (char_of (48 + n))"
    using d assms by (simp_all add: isdigit_def digit_value_def isspace_def)
  have "of_char (CHR ''-'') = (45::nat)" "of_char (CHR ''+'') = (43::nat)" by simp_all
  then show "char_of (48 + n) \<noteq> CHR ''-''" "char_of (48 + n) \<noteq> CHR ''+''" using d by fastforce+
qed

lemma decimal_digits: "c \<in> set (decimal n) \<Longrightarrow> \<exists>m < (10::nat). c = char_of (48 + m)"
proof (induction n rule: decimal.induct)
  case (1 n)
  show ?case
  proof (cases "n < 10")
    case True
    then show ?thesis using "1.prems" by (subst (asm) decimal.simps) auto
  next
    case False
    then have "c \<in> set (decimal (n div 10)) \<or> c = char_of (48 + n mod 10)"
      using "1.prems" by (subst (asm) decimal.simps) auto
    then show ?thesis
    proof
      assume "c = char_of (48 + n mod 10)"
      then show ?thesis by (intro exI [of _ "n mod 10"]) simp
    qed (use "1.IH" False in simp)
  qed
qed

lemma decimal_nonempty: "decimal n \<noteq> []"
  by (subst decimal.simps) simp

lemma dec_value_snoc: "dec_value (ds @ [c]) = 10 * dec_value ds + digit_value c"
  by (simp add: dec_value_def)

lemma dec_value_decimal: "dec_value (decimal n) = int n"
proof (induction n rule: decimal.induct)
  case (1 n)
  show ?case
  proof (cases "n < 10")
    case True
    then show ?thesis using digit_facts(2) by (subst decimal.simps) (simp add: dec_value_def)
  next
    case False
    have "decimal n = decimal (n div 10) @ [char_of (48 + n mod 10)]" using False by (subst decimal.simps) simp
    then have "dec_value (decimal n) = 10 * int (n div 10) + int (n mod 10)"
      using 1 False by (simp add: dec_value_snoc digit_facts(2))
    also have "\<dots> = int n" by (simp add: zdiv_int zmod_int)
    finally show ?thesis .
  qed
qed

lemma strtoul_digits:
  assumes "skip_spaces s = s" and "hd s \<noteq> CHR ''-''" and "hd s \<noteq> CHR ''+''"
  shows "takeWhile isdigit s \<noteq> [] \<Longrightarrow> dec_value (takeWhile isdigit s) = int n \<Longrightarrow> int n \<le> ULONG_MAX
    \<Longrightarrow> strtoul s = (int n, dropWhile isdigit s, False)"
  using assms by (simp add: strtoul_def Let_def u64_id)

lemma decimal_span:
  assumes "rest = [] \<or> \<not> isdigit (hd rest)"
  shows "takeWhile isdigit (decimal n @ rest) = decimal n" "dropWhile isdigit (decimal n @ rest) = rest"
proof -
  have D: "isdigit c" if "c \<in> set (decimal n)" for c
    using decimal_digits [OF that] digit_facts(1) by metis
  have "takeWhile isdigit (decimal n @ rest) = decimal n @ takeWhile isdigit rest"
    "dropWhile isdigit (decimal n @ rest) = dropWhile isdigit rest"
    using D by (simp_all only: takeWhile_append2 dropWhile_append2)
  moreover have "takeWhile isdigit rest = []" "dropWhile isdigit rest = rest"
    using assms by (cases rest; auto)+
  ultimately show "takeWhile isdigit (decimal n @ rest) = decimal n" "dropWhile isdigit (decimal n @ rest) = rest"
    by simp_all
qed

text \<open>Reading a decimal back, up to a character that is not a digit.\<close>

lemma strtoul_decimal:
  assumes "int n \<le> ULONG_MAX" and "rest = [] \<or> \<not> isdigit (hd rest)"
  shows "strtoul (decimal n @ rest) = (int n, rest, False)"
proof -
  have D: "isdigit c" "\<not> isspace c" "c \<noteq> CHR ''-''" "c \<noteq> CHR ''+''" if elem: "c \<in> set (decimal n)" for c
  proof -
    obtain m where m: "m < (10::nat)" "c = char_of (48 + m)" using decimal_digits [OF elem] by metis
    show "isdigit c" "\<not> isspace c" "c \<noteq> CHR ''-''" "c \<noteq> CHR ''+''"
      unfolding m(2) by (rule digit_facts [OF m(1)])+
  qed
  obtain c cs where c: "decimal n = c # cs" using decimal_nonempty by (cases "decimal n") auto
  then have "c \<in> set (decimal n)" by simp
  note c' = D [OF this]
  have sk: "skip_spaces (decimal n @ rest) = decimal n @ rest" using c c'(2) by (simp add: skip_spaces_def)
  note ds = decimal_span [OF assms(2), of n]
  have hd: "hd (decimal n @ rest) \<noteq> CHR ''-''" "hd (decimal n @ rest) \<noteq> CHR ''+''" using c c' by simp_all
  have "dec_value (takeWhile isdigit (decimal n @ rest)) = int n" unfolding ds(1) by (rule dec_value_decimal)
  moreover have "takeWhile isdigit (decimal n @ rest) \<noteq> []" unfolding ds(1) by (rule decimal_nonempty)
  ultimately have "strtoul (decimal n @ rest) = (int n, dropWhile isdigit (decimal n @ rest), False)"
    using strtoul_digits [OF sk hd _ _ assms(1)] by blast
  then show ?thesis unfolding ds(2) .
qed

text \<open>A minus sign negates it, modulo the width.\<close>

lemma strtoul_decimal_minus:
  assumes "int n \<le> ULONG_MAX" and "rest = [] \<or> \<not> isdigit (hd rest)"
  shows "strtoul (CHR ''-'' # decimal n @ rest) = (u64 (- int n), rest, False)"
proof -
  have sk: "skip_spaces (CHR ''-'' # decimal n @ rest) = CHR ''-'' # decimal n @ rest"
    by (simp add: skip_spaces_def isspace_def)
  show ?thesis
    using assms(1) decimal_nonempty [of n]
    by (simp add: strtoul_def sk decimal_span [OF assms(2)] dec_value_decimal)
qed

end
