(* ===== verification/Env.thy ===== *)
theory Env
  imports Loop CString
begin

text \<open>
  The parsers of the environment variables (\<open>gcc/libgomp/env.c\<close>). A parser that can fail returns
  what the C function reports: \<open>Unset\<close> (no such variable, result false), \<open>Bad\<close> with the message
  that is printed (result false) or \<open>Parsed\<close> with the value stored through the pointer (result
  true). The process environment is a function; \<open>secure_getenv\<close> finds nothing in a privileged
  process. \<open>unsigned long\<close> and \<open>unsigned long long\<close> have 64 bits, \<open>int\<close> has 32.
\<close>

datatype omp_proc_bind_t =
  omp_proc_bind_false | omp_proc_bind_true | omp_proc_bind_master | omp_proc_bind_close | omp_proc_bind_spread

datatype env_error = Invalid_value string | Unknown_schedule | Invalid_chunk | Out_of_memory string

datatype 'a parsed = Unset | Bad env_error | Parsed 'a

record process =
  env_var :: "string \<Rightarrow> string option"
  privileged :: bool
  alloc_ok :: "nat \<Rightarrow> bool"

definition getenv :: "process \<Rightarrow> string \<Rightarrow> string option" where "getenv p name = env_var p name"

definition secure_getenv :: "process \<Rightarrow> string \<Rightarrow> string option" where
  "secure_getenv p name = (if privileged p then None else env_var p name)"

abbreviation INT_MAX :: int where "INT_MAX \<equiv> 2 ^ 31 - 1"
abbreviation INT_MIN :: int where "INT_MIN \<equiv> - (2 ^ 31)"
abbreviation UINT_MAX :: int where "UINT_MAX \<equiv> 2 ^ 32 - 1"

subsection \<open>OMP_SCHEDULE\<close>

text \<open>The chain of comparisons of \<open>parse_schedule\<close>, in its order: the word, the kind that is stored
  and the number of characters that \<open>env\<close> is advanced by.\<close>

definition schedule_words :: "(string \<times> gomp_schedule_type \<times> nat) list" where
  "schedule_words =
    [(''static'', GFS_STATIC, 6), (''dynamic'', GFS_DYNAMIC, 7), (''guided'', GFS_GUIDED, 6),
     (''auto'', GFS_AUTO, 4), (''afac'', FS_AFAC, 4), (''binlpt'', FS_BINLPT, 6), (''hss'', FS_HSS, 3),
     (''fac2'', FS_FAC2, 4), (''fss'', FS_FSS, 3), (''tss'', FS_TSS, 3), (''trap1'', FS_TRAP1, 5),
     (''css'', FS_CSS, 3), (''taper'', FS_TAPE, 4), (''tape3'', FS_TAPE3, 5), (''bo_tape'', BO_TAPE, 7),
     (''bo_css'', BO_CSS, 6), (''bo_fss'', BO_FSS, 6), (''bo_fac'', BO_FAC, 6), (''bo_tss'', BO_TSS, 6)]"

definition schedule_word :: "string \<Rightarrow> (gomp_schedule_type \<times> nat) option" where
  "schedule_word s = map_option snd (find (\<lambda>(w, _). starts_with s w) schedule_words)"

text \<open>From the first character after the white space that follows the word: the chunk size.\<close>

definition parse_chunk :: "gomp_schedule_type \<Rightarrow> string \<Rightarrow> env_error + int" where
  "parse_chunk sc s =
    (if s = [] then Inr (if sc \<noteq> GFS_STATIC then 1 else 0)
     else if hd s \<noteq> CHR '','' then Inl Unknown_schedule
     else
       let s1 = skip_spaces (tl s) in
       if s1 = [] then Inl Invalid_chunk
       else
         let (v, rest, errno) = strtoul s1 in
         if errno \<or> skip_spaces rest \<noteq> [] \<or> u64 (s32 v) \<noteq> v then Inl Invalid_chunk
         else Inr (s32 (if v = 0 \<and> sc \<noteq> GFS_STATIC then 1 else v)))"

text \<open>The kind is stored before the rest is looked at, and stays when the rest is rejected. The
  result is the record updated and the message printed, if any.\<close>

definition parse_schedule :: "process \<Rightarrow> 'a task_icv_scheme \<Rightarrow> 'a task_icv_scheme \<times> env_error option" where
  "parse_schedule p icv =
    (case getenv p ''OMP_SCHEDULE'' of None \<Rightarrow> (icv, None) | Some s0 \<Rightarrow>
       let s = skip_spaces s0 in
       case schedule_word s of None \<Rightarrow> (icv, Some Unknown_schedule) | Some (sc, k) \<Rightarrow>
         let icv1 = icv\<lparr>run_sched_var := sc\<rparr> in
         case parse_chunk sc (skip_spaces (drop k s)) of
           Inl e \<Rightarrow> (icv1, Some e)
         | Inr c \<Rightarrow> (icv1\<lparr>run_sched_chunk_size := c\<rparr>, None))"

subsection \<open>Numbers\<close>

definition parse_unsigned_long_1 :: "process \<Rightarrow> string \<Rightarrow> bool \<Rightarrow> bool \<Rightarrow> int parsed" where
  "parse_unsigned_long_1 p name allow_zero secure =
    (case (if secure then secure_getenv p name else getenv p name) of None \<Rightarrow> Unset | Some s0 \<Rightarrow>
       let s = skip_spaces s0 in
       if s = [] then Bad (Invalid_value name)
       else
         let (v, rest, errno) = strtoul s in
         if errno \<or> s64 v \<le> 0 - of_bool allow_zero then Bad (Invalid_value name)
         else if skip_spaces rest \<noteq> [] then Bad (Invalid_value name)
         else Parsed v)"

definition parse_unsigned_long :: "process \<Rightarrow> string \<Rightarrow> bool \<Rightarrow> int parsed" where
  "parse_unsigned_long p name allow_zero = parse_unsigned_long_1 p name allow_zero False"

definition parse_int_1 :: "process \<Rightarrow> string \<Rightarrow> bool \<Rightarrow> bool \<Rightarrow> int parsed" where
  "parse_int_1 p name allow_zero secure =
    (case parse_unsigned_long_1 p name allow_zero secure of
       Parsed v \<Rightarrow> if v > INT_MAX then Bad (Invalid_value name) else Parsed (s32 v)
     | r \<Rightarrow> r)"

definition parse_int :: "process \<Rightarrow> string \<Rightarrow> bool \<Rightarrow> int parsed" where
  "parse_int p name allow_zero = parse_int_1 p name allow_zero False"

definition parse_int_secure :: "process \<Rightarrow> string \<Rightarrow> bool \<Rightarrow> int parsed" where
  "parse_int_secure p name allow_zero = parse_int_1 p name allow_zero True"

subsection \<open>Lists\<close>

text \<open>The growing array of the list parsers: \<open>realloc\<close> doubles the space when it is full, starting
  with 16 entries, and may fail.\<close>

definition grown :: "nat \<Rightarrow> nat" where "grown nalloced = (if nalloced \<noteq> 0 then nalloced * 2 else 16)"

text \<open>The \<open>do\<close> loop of \<open>parse_unsigned_long_list\<close>: \<open>vs\<close> are the values stored so far, \<open>v\<close> the one
  read before the loop, \<open>s\<close> the text after the comma.\<close>

function ulong_list_loop :: "process \<Rightarrow> string \<Rightarrow> int \<Rightarrow> int list \<Rightarrow> nat \<Rightarrow> string \<Rightarrow> env_error + int list" where
  "ulong_list_loop p name v vs nalloced s =
    (let full = (length vs = nalloced);
         nalloced1 = (if full then grown nalloced else nalloced);
         vs1 = (if full \<and> vs = [] then [v] else vs);
         s1 = skip_spaces s;
         (v1, rest, errno) = strtoul s1;
         s2 = skip_spaces rest
     in if full \<and> \<not> alloc_ok p nalloced1 then Inl (Out_of_memory name)
        else if s1 = [] then Inl (Invalid_value name)
        else if errno \<or> s64 v1 \<le> 0 then Inl (Invalid_value name)
        else if s2 = [] then Inr (vs1 @ [v1])
        else if hd s2 \<noteq> CHR '','' then Inl (Invalid_value name)
        else ulong_list_loop p name v (vs1 @ [v1]) nalloced1 (tl s2))"
  by pat_completeness auto

lemma length_skip_spaces: "length (skip_spaces s) \<le> length s"
  by (simp add: skip_spaces_def length_dropWhile_le)

lemma length_strtoul_rest: "strtoul s = (v, rest, errno) \<Longrightarrow> length rest \<le> length s"
proof -
  have "length (dropWhile isdigit s2) \<le> length s"
    if "s2 = skip_spaces s \<or> s2 = tl (skip_spaces s)" for s2
  proof -
    have "length s2 \<le> length s" using that length_skip_spaces [of s] by auto
    then show ?thesis by (meson length_dropWhile_le le_trans)
  qed
  then show "strtoul s = (v, rest, errno) \<Longrightarrow> length rest \<le> length s"
    by (auto simp: strtoul_def Let_def split: if_splits)
qed

lemma length_after_comma:
  assumes "strtoul (skip_spaces s) = (v, rest, errno)" and "skip_spaces rest \<noteq> []"
  shows "length (tl (skip_spaces rest)) < length s"
proof -
  have "length (skip_spaces rest) \<le> length s"
    using length_skip_spaces [of rest] length_strtoul_rest [OF assms(1)] length_skip_spaces [of s] by linarith
  then show ?thesis using assms(2) by (cases "skip_spaces rest") auto
qed

termination ulong_list_loop
proof (relation "measure (\<lambda>(p, name, v, vs, n, s). length s)", goal_cases)
  case 1
  then show ?case by simp
next
  case (2 p name v vs nalloced s full nalloced1 vs1 s1 x v1 y rest errno s2)
  then show ?case using length_after_comma [of s v1 rest errno] by simp
qed

text \<open>The value, and the list when there is more than one value (the null pointer is \<open>[]\<close>).\<close>

definition parse_unsigned_long_list :: "process \<Rightarrow> string \<Rightarrow> (int \<times> int list) parsed" where
  "parse_unsigned_long_list p name =
    (case getenv p name of None \<Rightarrow> Unset | Some s0 \<Rightarrow>
       let s = skip_spaces s0 in
       if s = [] then Bad (Invalid_value name)
       else
         let (v, rest, errno) = strtoul s; s2 = skip_spaces rest in
         if errno \<or> s64 v \<le> 0 then Bad (Invalid_value name)
         else if s2 = [] then Parsed (v, [])
         else if hd s2 \<noteq> CHR '','' then Bad (Invalid_value name)
         else
           case ulong_list_loop p name v [] 0 (tl s2) of
             Inl e \<Rightarrow> Bad e
           | Inr vs \<Rightarrow> Parsed (hd vs, vs))"

definition kinds :: "(string \<times> nat \<times> omp_proc_bind_t) list" where
  "kinds = [(''false'', 5, omp_proc_bind_false), (''true'', 4, omp_proc_bind_true),
     (''master'', 6, omp_proc_bind_master), (''close'', 5, omp_proc_bind_close), (''spread'', 6, omp_proc_bind_spread)]"

definition bind_word :: "(string \<times> nat \<times> omp_proc_bind_t) list \<Rightarrow> string \<Rightarrow> (omp_proc_bind_t \<times> string) option" where
  "bind_word ks s = map_option (\<lambda>(w, n, k). (k, drop n s)) (find (\<lambda>(w, n, k). starts_with s w) ks)"

text \<open>The \<open>do\<close> loop of \<open>parse_bind_var\<close>: after a comma only the last three kinds are accepted.\<close>

function bind_list_loop ::
  "process \<Rightarrow> string \<Rightarrow> omp_proc_bind_t \<Rightarrow> omp_proc_bind_t list \<Rightarrow> nat \<Rightarrow> string \<Rightarrow> env_error + omp_proc_bind_t list"
where
  "bind_list_loop p name v vs nalloced s =
    (let full = (length vs = nalloced);
         nalloced1 = (if full then grown nalloced else nalloced);
         vs1 = (if full \<and> vs = [] then [v] else vs);
         s1 = skip_spaces s
     in if full \<and> \<not> alloc_ok p nalloced1 then Inl (Out_of_memory name)
        else if s1 = [] then Inl (Invalid_value name)
        else
          case bind_word (drop 2 kinds) s1 of
            None \<Rightarrow> Inl (Invalid_value name)
          | Some (k, rest) \<Rightarrow>
              let s2 = skip_spaces rest in
              if s2 = [] then Inr (vs1 @ [k])
              else if hd s2 \<noteq> CHR '','' then Inl (Invalid_value name)
              else bind_list_loop p name v (vs1 @ [k]) nalloced1 (tl s2))"
  by pat_completeness auto

lemma length_bind_word: "bind_word ks s = Some (k, rest) \<Longrightarrow> length rest \<le> length s"
  by (auto simp: bind_word_def)

lemma length_after_bind_comma:
  assumes "bind_word ks (skip_spaces s) = Some (k, rest)" and "skip_spaces rest \<noteq> []"
  shows "length (tl (skip_spaces rest)) < length s"
proof -
  have "length (skip_spaces rest) \<le> length s"
    using length_skip_spaces [of rest] length_bind_word [OF assms(1)] length_skip_spaces [of s] by linarith
  then show ?thesis using assms(2) by (cases "skip_spaces rest") auto
qed

termination bind_list_loop
proof (relation "measure (\<lambda>(p, name, v, vs, n, s). length s)", goal_cases)
  case 1
  then show ?case by simp
next
  case (2 p name v vs nalloced s full nalloced1 vs1 s1 y k rest s2)
  then show ?case using length_after_bind_comma [of "drop 2 kinds" s k rest] by simp
qed

definition parse_bind_var :: "process \<Rightarrow> string \<Rightarrow> (omp_proc_bind_t \<times> omp_proc_bind_t list) parsed" where
  "parse_bind_var p name =
    (case getenv p name of None \<Rightarrow> Unset | Some s0 \<Rightarrow>
       let s = skip_spaces s0 in
       if s = [] then Bad (Invalid_value name)
       else
         case bind_word kinds s of None \<Rightarrow> Bad (Invalid_value name) | Some (v, rest) \<Rightarrow>
           let s2 = skip_spaces rest in
           if s2 = [] then Parsed (v, [])
           else if hd s2 \<noteq> CHR '','' then Bad (Invalid_value name)
           else if v = omp_proc_bind_false \<or> v = omp_proc_bind_true then Bad (Invalid_value name)
           else
             case bind_list_loop p name v [] 0 (tl s2) of
               Inl e \<Rightarrow> Bad e
             | Inr vs \<Rightarrow> Parsed (hd vs, vs))"

subsection \<open>Sizes, counts and switches\<close>

text \<open>The unit letter after a number and the rest of the text; without one, the default.\<close>

definition parse_stacksize :: "process \<Rightarrow> string \<Rightarrow> int parsed" where
  "parse_stacksize p name =
    (case getenv p name of None \<Rightarrow> Unset | Some s0 \<Rightarrow>
       let s = skip_spaces s0 in
       if s = [] then Bad (Invalid_value name)
       else
         let (v, rest, errno) = strtoul s; s2 = skip_spaces rest in
         if errno then Bad (Invalid_value name)
         else
           let unit = (if s2 = [] then Some 10
                       else if tolower (hd s2) = CHR ''b'' then Some 0
                       else if tolower (hd s2) = CHR ''k'' then Some 10
                       else if tolower (hd s2) = CHR ''m'' then Some 20
                       else if tolower (hd s2) = CHR ''g'' then Some 30
                       else None)
           in case unit of None \<Rightarrow> Bad (Invalid_value name) | Some shift \<Rightarrow>
             if s2 \<noteq> [] \<and> skip_spaces (tl s2) \<noteq> [] then Bad (Invalid_value name)
             else if u64 (v * 2 ^ shift) div 2 ^ shift \<noteq> v then Bad (Invalid_value name)
             else Parsed (u64 (v * 2 ^ shift)))"

definition parse_spincount :: "process \<Rightarrow> string \<Rightarrow> int parsed" where
  "parse_spincount p name =
    (case getenv p name of None \<Rightarrow> Unset | Some s0 \<Rightarrow>
       let s = skip_spaces s0 in
       if s = [] then Bad (Invalid_value name)
       else if starts_with s ''infinite'' \<or> starts_with s ''infinity'' then
         if skip_spaces (drop 8 s) \<noteq> [] then Bad (Invalid_value name) else Parsed ULONG_MAX
       else
         let (v, rest, errno) = strtoul s; s2 = skip_spaces rest in
         if errno then Bad (Invalid_value name)
         else
           let unit = (if s2 = [] then Some 1
                       else if tolower (hd s2) = CHR ''k'' then Some (10 ^ 3)
                       else if tolower (hd s2) = CHR ''m'' then Some (10 ^ 6)
                       else if tolower (hd s2) = CHR ''g'' then Some (10 ^ 9)
                       else if tolower (hd s2) = CHR ''t'' then Some (10 ^ 12)
                       else None)
           in case unit of None \<Rightarrow> Bad (Invalid_value name) | Some factor \<Rightarrow>
             if s2 \<noteq> [] \<and> skip_spaces (tl s2) \<noteq> [] then Bad (Invalid_value name)
             else Parsed (if v > ULONG_MAX div factor then ULONG_MAX else u64 (v * factor)))"

text \<open>The value is stored even when what follows the word is rejected.\<close>

definition parse_boolean :: "process \<Rightarrow> string \<Rightarrow> bool \<Rightarrow> bool \<times> env_error option" where
  "parse_boolean p name value =
    (case getenv p name of None \<Rightarrow> (value, None) | Some s0 \<Rightarrow>
       let s = skip_spaces s0;
           (value1, rest) = (if starts_with s ''true'' then (True, drop 4 s)
                             else if starts_with s ''false'' then (False, drop 5 s)
                             else (value, ''X''))
       in (value1, if skip_spaces rest \<noteq> [] then Some (Invalid_value name) else None))"

definition parse_wait_policy :: "process \<Rightarrow> int \<times> env_error option" where
  "parse_wait_policy p =
    (case getenv p ''OMP_WAIT_POLICY'' of None \<Rightarrow> (- 1, None) | Some s0 \<Rightarrow>
       let s = skip_spaces s0;
           (ret, rest) = (if starts_with s ''active'' then (1, drop 6 s)
                          else if starts_with s ''passive'' then (0, drop 7 s)
                          else (- 1, ''X''))
       in if skip_spaces rest = [] then (ret, None) else (- 1, Some (Invalid_value ''OMP_WAIT_POLICY'')))"

subsection \<open>OpenACC variables\<close>

definition parse_acc_device_type :: "process \<Rightarrow> string option" where
  "parse_acc_device_type p =
    (case getenv p ''ACC_DEVICE_TYPE'' of None \<Rightarrow> None | Some s \<Rightarrow> if s \<noteq> [] then Some s else None)"

abbreviation GOMP_DIM_MAX :: nat where "GOMP_DIM_MAX \<equiv> 3"

text \<open>The loop over the dimensions; \<open>n\<close> of them are left.\<close>

fun openacc_dim_loop :: "nat \<Rightarrow> string \<Rightarrow> int list \<Rightarrow> int list" where
  "openacc_dim_loop 0 pos dims = dims"
| "openacc_dim_loop (Suc n) pos dims =
    (let i = GOMP_DIM_MAX - Suc n in
     if pos = [] then dims
     else if i \<noteq> 0 \<and> hd pos \<noteq> CHR '':'' then dims
     else
       let pos1 = (if i \<noteq> 0 then tl pos else pos) in
       if pos1 \<noteq> [] \<and> hd pos1 = CHR '':'' then openacc_dim_loop n pos1 dims
       else
         let (v, eptr, errno) = strtol pos1 in
         if errno \<or> v < 0 \<or> u32 v \<noteq> v then dims
         else openacc_dim_loop n eptr (dims[i := s32 v]))"

definition parse_gomp_openacc_dim :: "process \<Rightarrow> int list \<Rightarrow> int list" where
  "parse_gomp_openacc_dim p dims =
    (case getenv p ''GOMP_OPENACC_DIM'' of None \<Rightarrow> dims | Some s \<Rightarrow> openacc_dim_loop GOMP_DIM_MAX s dims)"

end
