(* ===== verification/Icv.thy ===== *)
theory Icv
  imports Env
begin

text \<open>
  The control variables: \<open>initialize_env\<close> (\<open>env.c\<close>), which fills the global record from the
  environment, and the setters and getters of \<open>icv.c\<close> and \<open>icv-device.c\<close>, which work on the copy
  of the running task. \<open>bind_var\<close> is a \<open>char\<close> in C; assigning \<open>true\<close> to it is
  \<open>omp_proc_bind_true\<close>. Messages are logged in order.
\<close>

record icv = task_icv +
  nthreads_var :: c_ulong
  default_device_var :: c_int
  thread_limit_var :: c_uint
  dyn_var :: bool
  nest_var :: bool
  bind_var :: omp_proc_bind_t

record globals =
  global_icv :: icv
  max_active_levels_var :: c_ulong
  cancel_var :: bool
  max_task_priority_var :: c_int
  available_cpus :: c_ulong
  spin_count_var :: int
  throttled_spin_count_var :: int
  nthreads_var_list :: "int list"
  bind_var_list :: "omp_proc_bind_t list"
  debug_var :: c_int
  thread_stacksize :: "int option"
  device_num :: c_int
  device_type :: "string option"
  default_dims :: "int list"
  messages :: "env_error list"

text \<open>The initial values of the variables.\<close>

definition globals_init :: globals where
  "globals_init =
    \<lparr>global_icv = \<lparr>run_sched_var = GFS_DYNAMIC, run_sched_chunk_size = 1, nthreads_var = 1,
       default_device_var = 0, thread_limit_var = UINT_MAX, dyn_var = False, nest_var = False,
       bind_var = omp_proc_bind_false\<rparr>,
     max_active_levels_var = INT_MAX, cancel_var = False, max_task_priority_var = 0, available_cpus = 1,
     spin_count_var = 0, throttled_spin_count_var = 0, nthreads_var_list = [], bind_var_list = [],
     debug_var = 0, thread_stacksize = None, device_num = 0, device_type = None,
     default_dims = [0, 0, 0], messages = []\<rparr>"

subsection \<open>Reading the environment\<close>

text \<open>What the system tells \<open>initialize_env\<close>: the number of processors and whether a list of
  places was made from \<open>OMP_PLACES\<close> and from \<open>GOMP_CPU_AFFINITY\<close>, given the flag \<open>ignore\<close>.\<close>

record platform =
  ncpus :: int
  places_parsed :: "bool \<Rightarrow> bool"
  affinity_parsed :: "bool \<Rightarrow> bool"

definition message :: "env_error option \<Rightarrow> globals \<Rightarrow> globals" where
  "message e g = (case e of None \<Rightarrow> g | Some m \<Rightarrow> g\<lparr>messages := messages g @ [m]\<rparr>)"

definition stored :: "'v parsed \<Rightarrow> ('v \<Rightarrow> globals \<Rightarrow> globals) \<Rightarrow> globals \<Rightarrow> globals" where
  "stored r f g = (case r of Unset \<Rightarrow> g | Bad e \<Rightarrow> message (Some e) g | Parsed v \<Rightarrow> f v g)"

definition was_parsed :: "'v parsed \<Rightarrow> bool" where
  "was_parsed r = (case r of Parsed v \<Rightarrow> True | _ \<Rightarrow> False)"

definition switched :: "bool \<times> env_error option \<Rightarrow> (bool \<Rightarrow> globals \<Rightarrow> globals) \<Rightarrow> globals \<Rightarrow> globals" where
  "switched r f g = message (snd r) (f (fst r) g)"

definition init_schedule :: "process \<Rightarrow> globals \<Rightarrow> globals" where
  "init_schedule p g =
    (let (i, e) = parse_schedule p (global_icv g) in message e (g\<lparr>global_icv := i\<rparr>))"

definition init_switches :: "process \<Rightarrow> globals \<Rightarrow> globals" where
  "init_switches p g0 =
    (let g1 = switched (parse_boolean p ''OMP_DYNAMIC'' (dyn_var (global_icv g0)))
                (\<lambda>b g. g\<lparr>global_icv := (global_icv g)\<lparr>dyn_var := b\<rparr>\<rparr>) g0;
         g2 = switched (parse_boolean p ''OMP_NESTED'' (nest_var (global_icv g1)))
                (\<lambda>b g. g\<lparr>global_icv := (global_icv g)\<lparr>nest_var := b\<rparr>\<rparr>) g1
     in switched (parse_boolean p ''OMP_CANCELLATION'' (cancel_var g2)) (\<lambda>b g. g\<lparr>cancel_var := b\<rparr>) g2)"

definition init_limits :: "process \<Rightarrow> globals \<Rightarrow> globals" where
  "init_limits p g0 =
    (let g1 = stored (parse_int p ''OMP_DEFAULT_DEVICE'' True)
                (\<lambda>v g. g\<lparr>global_icv := (global_icv g)\<lparr>default_device_var := v\<rparr>\<rparr>) g0;
         g2 = stored (parse_int p ''OMP_MAX_TASK_PRIORITY'' True) (\<lambda>v g. g\<lparr>max_task_priority_var := v\<rparr>) g1;
         g3 = stored (parse_unsigned_long p ''OMP_MAX_ACTIVE_LEVELS'' True) (\<lambda>v g. g\<lparr>max_active_levels_var := v\<rparr>) g2;
         g4 = stored (parse_unsigned_long p ''OMP_THREAD_LIMIT'' False)
                (\<lambda>v g. g\<lparr>global_icv := (global_icv g)\<lparr>thread_limit_var := (if v > INT_MAX then UINT_MAX else u32 v)\<rparr>\<rparr>) g3
     in stored (parse_int_secure p ''GOMP_DEBUG'' True) (\<lambda>v g. g\<lparr>debug_var := v\<rparr>) g4)"

definition set_nthreads :: "int \<Rightarrow> globals \<Rightarrow> globals" where
  "set_nthreads n g = g\<lparr>global_icv := (global_icv g)\<lparr>nthreads_var := n\<rparr>\<rparr>"

definition init_num_threads :: "process \<Rightarrow> platform \<Rightarrow> globals \<Rightarrow> globals" where
  "init_num_threads p os g0 =
    (let g1 = set_nthreads (ncpus os) g0;
         g2 = g1\<lparr>available_cpus := nthreads_var (global_icv g1)\<rparr>;
         r = parse_unsigned_long_list p ''OMP_NUM_THREADS'';
         g3 = stored r (\<lambda>(v, vs) g. (set_nthreads v g)\<lparr>nthreads_var_list := vs\<rparr>) g2
     in if was_parsed r then g3 else set_nthreads (available_cpus g3) g3)"

definition bind_default_true :: "globals \<Rightarrow> globals" where
  "bind_default_true g =
    (if bind_var (global_icv g) = omp_proc_bind_false
     then g\<lparr>global_icv := (global_icv g)\<lparr>bind_var := omp_proc_bind_true\<rparr>\<rparr> else g)"

definition init_binding :: "process \<Rightarrow> platform \<Rightarrow> globals \<Rightarrow> globals" where
  "init_binding p os g0 =
    (let r = parse_bind_var p ''OMP_PROC_BIND'';
         g1 = stored r (\<lambda>(v, vs) g. g\<lparr>global_icv := (global_icv g)\<lparr>bind_var := v\<rparr>, bind_var_list := vs\<rparr>) g0;
         ignore1 = (was_parsed r \<and> bind_var (global_icv g1) = omp_proc_bind_false);
         places = places_parsed os ignore1;
         g2 = (if places then bind_default_true g1 else g1);
         ignore2 = (ignore1 \<or> places)
     in if affinity_parsed os ignore2 then bind_default_true g2 else g2)"

definition init_spin_counts :: "process \<Rightarrow> globals \<Rightarrow> globals" where
  "init_spin_counts p g0 =
    (let (wait_policy, e) = parse_wait_policy p;
         g1 = message e g0;
         r = parse_spincount p ''GOMP_SPINCOUNT'';
         g2 = stored r (\<lambda>v g. g\<lparr>spin_count_var := v\<rparr>) g1;
         g3 = (if was_parsed r then g2
               else if wait_policy > 0 then g2\<lparr>spin_count_var := 30000000000\<rparr>
               else if wait_policy < 0 then g2\<lparr>spin_count_var := 300000\<rparr>
               else g2);
         g4 = (if wait_policy > 0 then g3\<lparr>throttled_spin_count_var := 1000\<rparr>
               else if wait_policy < 0 then g3\<lparr>throttled_spin_count_var := 100\<rparr>
               else g3)
     in if throttled_spin_count_var g4 > spin_count_var g4
        then g4\<lparr>throttled_spin_count_var := spin_count_var g4\<rparr> else g4)"

text \<open>\<open>GOMP_STACKSIZE\<close> is looked at only when \<open>OMP_STACKSIZE\<close> gave nothing; the default size is
  zero, so without either no size is set. The verdict of \<open>pthread_attr_setstacksize\<close> is only
  printed.\<close>

definition init_stacksize :: "process \<Rightarrow> globals \<Rightarrow> globals" where
  "init_stacksize p g0 =
    (let set = (\<lambda>v g. g\<lparr>thread_stacksize := Some v\<rparr>);
         r = parse_stacksize p ''OMP_STACKSIZE'';
         g1 = stored r set g0
     in if was_parsed r then g1 else stored (parse_stacksize p ''GOMP_STACKSIZE'') set g1)"

definition init_openacc :: "process \<Rightarrow> globals \<Rightarrow> globals" where
  "init_openacc p g0 =
    (let r = parse_int p ''ACC_DEVICE_NUM'' True;
         g1 = stored r (\<lambda>v g. g\<lparr>device_num := v\<rparr>) g0;
         g2 = (if was_parsed r then g1 else g1\<lparr>device_num := 0\<rparr>)
     in g2\<lparr>device_type := parse_acc_device_type p,
           default_dims := parse_gomp_openacc_dim p (default_dims g2)\<rparr>)"

definition initialize_env :: "process \<Rightarrow> platform \<Rightarrow> globals \<Rightarrow> globals" where
  "initialize_env p os g =
    init_openacc p (init_stacksize p (init_spin_counts p (init_binding p os
      (init_num_threads p os (init_limits p (init_switches p (init_schedule p g)))))))"

subsection \<open>Setters and getters\<close>

text \<open>\<open>gomp_icv (write)\<close>: the record of the running task; without a task, the global one, or, to
  write, a new task with a copy of it.\<close>

record icv_state =
  globals_of :: globals
  task_icv_of :: "icv option"

definition gomp_icv_read :: "icv_state \<Rightarrow> icv" where
  "gomp_icv_read st = (case task_icv_of st of Some t \<Rightarrow> t | None \<Rightarrow> global_icv (globals_of st))"

definition gomp_icv_write :: "(icv \<Rightarrow> icv) \<Rightarrow> icv_state \<Rightarrow> icv_state" where
  "gomp_icv_write f st = st\<lparr>task_icv_of := Some (f (gomp_icv_read st))\<rparr>"

definition omp_set_num_threads :: "int \<Rightarrow> icv_state \<Rightarrow> icv_state" where
  "omp_set_num_threads n = gomp_icv_write (\<lambda>i. i\<lparr>nthreads_var := (if n > 0 then n else 1)\<rparr>)"

definition omp_set_dynamic :: "int \<Rightarrow> icv_state \<Rightarrow> icv_state" where
  "omp_set_dynamic val = gomp_icv_write (\<lambda>i. i\<lparr>dyn_var := (val \<noteq> 0)\<rparr>)"

definition omp_get_dynamic :: "icv_state \<Rightarrow> int" where "omp_get_dynamic st = of_bool (dyn_var (gomp_icv_read st))"

definition omp_set_nested :: "int \<Rightarrow> icv_state \<Rightarrow> icv_state" where
  "omp_set_nested val = gomp_icv_write (\<lambda>i. i\<lparr>nest_var := (val \<noteq> 0)\<rparr>)"

definition omp_get_nested :: "icv_state \<Rightarrow> int" where "omp_get_nested st = of_bool (nest_var (gomp_icv_read st))"

text \<open>The numbers of the schedule kinds; \<open>omp_sched_t\<close> has the numbers 1 to 4.\<close>

definition schedule_number :: "gomp_schedule_type \<Rightarrow> int" where
  "schedule_number s = (case s of
     GFS_RUNTIME \<Rightarrow> 0 | GFS_STATIC \<Rightarrow> 1 | GFS_DYNAMIC \<Rightarrow> 2 | GFS_GUIDED \<Rightarrow> 3 | GFS_AUTO \<Rightarrow> 4
   | FS_BINLPT \<Rightarrow> 5 | FS_HSS \<Rightarrow> 6 | FS_AFAC \<Rightarrow> 7 | FS_FAC2 \<Rightarrow> 8 | FS_FSS \<Rightarrow> 9 | FS_TSS \<Rightarrow> 10
   | FS_CSS \<Rightarrow> 11 | FS_TAPE \<Rightarrow> 12 | FS_TRAP1 \<Rightarrow> 13 | FS_TAPE3 \<Rightarrow> 14 | BO_FSS \<Rightarrow> 15 | BO_FAC \<Rightarrow> 16
   | BO_CSS \<Rightarrow> 17 | BO_TSS \<Rightarrow> 18 | BO_TAPE \<Rightarrow> 19)"

definition omp_set_schedule :: "int \<Rightarrow> int \<Rightarrow> icv_state \<Rightarrow> icv_state" where
  "omp_set_schedule kind chunk = gomp_icv_write (\<lambda>i.
    if kind = 1 then i\<lparr>run_sched_chunk_size := (if chunk < 1 then 0 else chunk), run_sched_var := GFS_STATIC\<rparr>
    else if kind = 2 then i\<lparr>run_sched_chunk_size := (if chunk < 1 then 1 else chunk), run_sched_var := GFS_DYNAMIC\<rparr>
    else if kind = 3 then i\<lparr>run_sched_chunk_size := (if chunk < 1 then 1 else chunk), run_sched_var := GFS_GUIDED\<rparr>
    else if kind = 4 then i\<lparr>run_sched_var := GFS_AUTO\<rparr>
    else i)"

definition omp_get_schedule :: "icv_state \<Rightarrow> int \<times> int" where
  "omp_get_schedule st =
    (schedule_number (run_sched_var (gomp_icv_read st)), run_sched_chunk_size (gomp_icv_read st))"

definition omp_get_max_threads :: "icv_state \<Rightarrow> int" where
  "omp_get_max_threads st = s32 (nthreads_var (gomp_icv_read st))"

definition omp_get_thread_limit :: "icv_state \<Rightarrow> int" where
  "omp_get_thread_limit st =
    (let l = thread_limit_var (gomp_icv_read st) in if l > INT_MAX then INT_MAX else l)"

definition omp_set_max_active_levels :: "int \<Rightarrow> icv_state \<Rightarrow> icv_state" where
  "omp_set_max_active_levels n st =
    (if n \<ge> 0 then st\<lparr>globals_of := (globals_of st)\<lparr>max_active_levels_var := n\<rparr>\<rparr> else st)"

definition omp_get_max_active_levels :: "icv_state \<Rightarrow> int" where
  "omp_get_max_active_levels st = s32 (max_active_levels_var (globals_of st))"

definition omp_get_cancellation :: "icv_state \<Rightarrow> int" where
  "omp_get_cancellation st = of_bool (cancel_var (globals_of st))"

definition omp_get_max_task_priority :: "icv_state \<Rightarrow> int" where
  "omp_get_max_task_priority st = max_task_priority_var (globals_of st)"

definition omp_get_proc_bind :: "icv_state \<Rightarrow> omp_proc_bind_t" where
  "omp_get_proc_bind st = bind_var (gomp_icv_read st)"

definition omp_set_default_device :: "int \<Rightarrow> icv_state \<Rightarrow> icv_state" where
  "omp_set_default_device n = gomp_icv_write (\<lambda>i. i\<lparr>default_device_var := (if n \<ge> 0 then n else 0)\<rparr>)"

definition omp_get_default_device :: "icv_state \<Rightarrow> int" where
  "omp_get_default_device st = default_device_var (gomp_icv_read st)"

end
