(* ===== verification/EnvProps.thy ===== *)
theory EnvProps
  imports Icv
begin

text \<open>
  What the environment parsers and the setters guarantee: the ranges of the control variables,
  the round trip of a written schedule, and the inputs on which they do not do what they mean to.
\<close>

subsection \<open>Ranges of the parsed values\<close>

lemma digit_value_nonneg: "isdigit c \<Longrightarrow> 0 \<le> digit_value c"
  by (simp add: isdigit_def digit_value_def)

lemma dec_value_nonneg: "\<forall>c \<in> set ds. isdigit c \<Longrightarrow> 0 \<le> dec_value ds"
  by (induction ds rule: rev_induct) (auto simp: dec_value_snoc digit_value_nonneg dec_value_def [of "[]"])

lemma strtoul_range: "strtoul s = (v, rest, errno) \<Longrightarrow> 0 \<le> v \<and> v \<le> ULONG_MAX"
  using u64_range by (auto simp: strtoul_def Let_def split: if_splits)

lemma s64_positive:
  assumes "0 \<le> v" and "v \<le> ULONG_MAX" and "l \<le> s64 v" and "0 \<le> l"
  shows "l \<le> v \<and> v \<le> LONG_MAX"
proof (cases "v \<le> LONG_MAX")
  case True
  then show ?thesis using assms by (simp add: s64_id)
next
  case False
  have "(v + 2 ^ 63) mod 2 ^ 64 = ((v + 2 ^ 63 - 2 ^ 64) + 2 ^ 64) mod 2 ^ 64" by (simp add: add.commute)
  also have "\<dots> = (v + 2 ^ 63 - 2 ^ 64) mod 2 ^ 64" by (rule mod_add_self2)
  also have "\<dots> = v + 2 ^ 63 - 2 ^ 64" using False assms(2) by (intro mod_pos_pos_trivial) auto
  finally have "s64 v = v - 2 ^ 64" by (simp add: s64_def)
  then show ?thesis using assms by simp
qed

lemma parse_unsigned_long_1_range:
  assumes "parse_unsigned_long_1 p name allow_zero secure = Parsed v"
  shows "1 - of_bool allow_zero \<le> v \<and> v \<le> LONG_MAX"
proof -
  obtain s rest errno where s: "strtoul s = (v, rest, errno)" and pos: "\<not> s64 v \<le> 0 - of_bool allow_zero"
    using assms by (auto simp: parse_unsigned_long_1_def Let_def split: option.splits if_splits prod.splits)
  show ?thesis
    using s64_positive [of v "1 - of_bool allow_zero"] strtoul_range [OF s] pos by (cases allow_zero) auto
qed

lemma parse_unsigned_long_range:
  "parse_unsigned_long p name allow_zero = Parsed v \<Longrightarrow> 1 - of_bool allow_zero \<le> v \<and> v \<le> LONG_MAX"
  unfolding parse_unsigned_long_def by (rule parse_unsigned_long_1_range)

lemma parse_int_1_range:
  assumes "parse_int_1 p name allow_zero secure = Parsed v"
  shows "1 - of_bool allow_zero \<le> v \<and> v \<le> INT_MAX"
proof -
  obtain u where "parse_unsigned_long_1 p name allow_zero secure = Parsed u" "\<not> u > INT_MAX" "v = s32 u"
    using assms by (auto simp: parse_int_1_def split: parsed.splits if_splits)
  then show ?thesis using parse_unsigned_long_1_range [of p name allow_zero secure u] by (auto simp: s32_id)
qed

lemma parse_int_range:
  "parse_int p name allow_zero = Parsed v \<Longrightarrow> 1 - of_bool allow_zero \<le> v \<and> v \<le> INT_MAX"
  unfolding parse_int_def by (rule parse_int_1_range)

text \<open>A list variable yields one value or a list of at least two.\<close>

definition several :: "('v \<Rightarrow> bool) \<Rightarrow> 'v list \<Rightarrow> bool" where
  "several P vs \<longleftrightarrow> 2 \<le> length vs \<and> (\<forall>x \<in> set vs. P x)"

definition list_of :: "('v \<Rightarrow> bool) \<Rightarrow> 'v \<Rightarrow> 'v list \<Rightarrow> bool" where
  "list_of P v vs \<longleftrightarrow> vs = [] \<or> hd vs = v \<and> several P vs"

lemma several_hd: "several P vs \<Longrightarrow> P (hd vs)"
  by (cases vs) (auto simp: several_def)

abbreviation positive_long :: "int \<Rightarrow> bool" where "positive_long x \<equiv> 1 \<le> x \<and> x \<le> LONG_MAX"

lemma strtoul_positive: "strtoul s = (v, rest, errno) \<Longrightarrow> \<not> s64 v \<le> 0 \<Longrightarrow> positive_long v"
  using s64_positive [of v 1] strtoul_range [of s v rest errno] by auto

declare ulong_list_loop.simps [simp del] bind_list_loop.simps [simp del]

text \<open>The array never overflows: when the loop body starts, either it is the first round or the
  values stored fit and include the first.\<close>

definition list_so_far :: "('v \<Rightarrow> bool) \<Rightarrow> 'v \<Rightarrow> 'v list \<Rightarrow> nat \<Rightarrow> bool" where
  "list_so_far P v vs n \<longleftrightarrow> P v \<and> (vs = [] \<and> n = 0 \<or> vs \<noteq> [] \<and> hd vs = v \<and> length vs \<le> n \<and> (\<forall>x \<in> set vs. P x))"

lemma list_so_far_step:
  assumes "list_so_far P v vs n" and "P x"
    and "full \<longleftrightarrow> length vs = n" and "vs1 = (if full \<and> vs = [] then [v] else vs)"
    and "n1 = (if full then grown n else n)"
  shows "list_so_far P v (vs1 @ [x]) n1 \<and> several P (vs1 @ [x])"
proof (cases "vs = []")
  case True
  then show ?thesis using assms by (simp add: list_so_far_def several_def grown_def)
next
  case False
  then have "0 < length vs" by simp
  then show ?thesis using assms False by (auto simp: list_so_far_def several_def grown_def Suc_le_eq)
qed

lemma ulong_list_loop_ok:
  "ulong_list_loop p name v vs n s = Inr r \<Longrightarrow> list_so_far positive_long v vs n \<Longrightarrow> several positive_long r"
proof (induction p name v vs n s rule: ulong_list_loop.induct)
  case (1 p name v vs n s)
  obtain v1 rest errno where st: "strtoul (skip_spaces s) = (v1, rest, errno)" using prod_cases3 by blast
  define full where "full \<longleftrightarrow> length vs = n"
  define vs1 where "vs1 = (if full \<and> vs = [] then [v] else vs)"
  define n1 where "n1 = (if full then grown n else n)"
  note step = list_so_far_step [OF "1.prems"(2) _ full_def vs1_def n1_def]
  have eq: "ulong_list_loop p name v vs n s =
    (if full \<and> \<not> alloc_ok p n1 then Inl (Out_of_memory name)
     else if skip_spaces s = [] then Inl (Invalid_value name)
     else if errno \<or> s64 v1 \<le> 0 then Inl (Invalid_value name)
     else if skip_spaces rest = [] then Inr (vs1 @ [v1])
     else if hd (skip_spaces rest) \<noteq> CHR '','' then Inl (Invalid_value name)
     else ulong_list_loop p name v (vs1 @ [v1]) n1 (tl (skip_spaces rest)))"
    unfolding full_def vs1_def n1_def by (subst ulong_list_loop.simps) (simp only: st Let_def prod.case)
  show ?case
  proof (cases "full \<and> \<not> alloc_ok p n1 \<or> skip_spaces s = [] \<or> errno \<or> s64 v1 \<le> 0")
    case True
    then show ?thesis using "1.prems"(1) by (auto simp: eq split: if_split_asm)
  next
    case False
    then have pos: "positive_long v1" using strtoul_positive [OF st] by blast
    show ?thesis
    proof (cases "skip_spaces rest = []")
      case True
      then have "r = vs1 @ [v1]" using "1.prems"(1) False by (auto simp: eq split: if_split_asm)
      then show ?thesis using step [OF pos] by simp
    next
      case more: False
      then have comma: "hd (skip_spaces rest) = CHR '',''"
        and rec: "ulong_list_loop p name v (vs1 @ [v1]) n1 (tl (skip_spaces rest)) = Inr r"
        using "1.prems"(1) False by (auto simp: eq split: if_split_asm)
      show ?thesis
      proof (rule "1.IH" [OF full_def n1_def vs1_def refl st [symmetric] refl refl refl])
        show "list_so_far positive_long v (vs1 @ [v1]) n1" using step [OF pos] by blast
      qed (use False more comma rec in auto)
    qed
  qed
qed

lemma parse_unsigned_long_list_ok:
  assumes "parse_unsigned_long_list p name = Parsed (v, vs)"
  shows "positive_long v \<and> list_of positive_long v vs"
proof -
  obtain s where s: "getenv p name = Some s"
    using assms by (auto simp: parse_unsigned_long_list_def split: option.splits)
  obtain u rest errno where st: "strtoul (skip_spaces s) = (u, rest, errno)" using prod_cases3 by blast
  have eq: "parse_unsigned_long_list p name =
    (if skip_spaces s = [] then Bad (Invalid_value name)
     else if errno \<or> s64 u \<le> 0 then Bad (Invalid_value name)
     else if skip_spaces rest = [] then Parsed (u, [])
     else if hd (skip_spaces rest) \<noteq> CHR '','' then Bad (Invalid_value name)
     else case ulong_list_loop p name u [] 0 (tl (skip_spaces rest)) of Inl e \<Rightarrow> Bad e | Inr xs \<Rightarrow> Parsed (hd xs, xs))"
    by (simp add: parse_unsigned_long_list_def s st Let_def)
  have u: "positive_long u" using assms strtoul_positive [OF st] unfolding eq by (auto split: if_split_asm)
  show ?thesis
  proof (cases "ulong_list_loop p name u [] 0 (tl (skip_spaces rest))")
    case (Inl e)
    then show ?thesis using assms u unfolding eq by (auto simp: list_of_def split: if_split_asm)
  next
    case (Inr xs)
    have l: "several positive_long xs"
      by (rule ulong_list_loop_ok [OF Inr]) (use u in \<open>simp add: list_so_far_def\<close>)
    have "v = u \<and> vs = [] \<or> v = hd xs \<and> vs = xs" using assms Inr unfolding eq by (auto split: if_split_asm)
    then show ?thesis using u l several_hd [OF l] by (auto simp: list_of_def)
  qed
qed

abbreviation bind_place :: "omp_proc_bind_t \<Rightarrow> bool" where
  "bind_place k \<equiv> k \<noteq> omp_proc_bind_false \<and> k \<noteq> omp_proc_bind_true"

lemma bind_word_place: "bind_word (drop 2 kinds) s = Some (k, rest) \<Longrightarrow> bind_place k"
  by (auto simp: bind_word_def kinds_def split: if_splits)

lemma bind_list_loop_ok:
  "bind_list_loop p name v vs n s = Inr r \<Longrightarrow> list_so_far bind_place v vs n \<Longrightarrow> several bind_place r"
proof (induction p name v vs n s rule: bind_list_loop.induct)
  case (1 p name v vs n s)
  define full where "full \<longleftrightarrow> length vs = n"
  define vs1 where "vs1 = (if full \<and> vs = [] then [v] else vs)"
  define n1 where "n1 = (if full then grown n else n)"
  note step = list_so_far_step [OF "1.prems"(2) _ full_def vs1_def n1_def]
  show ?case
  proof (cases "bind_word (drop 2 kinds) (skip_spaces s)")
    case None
    then show ?thesis using "1.prems"(1)
      by (subst (asm) bind_list_loop.simps) (auto simp: Let_def split: if_split_asm)
  next
    case (Some kr)
    obtain k rest where kr: "kr = (k, rest)" by fastforce
    have eq: "bind_list_loop p name v vs n s =
      (if full \<and> \<not> alloc_ok p n1 then Inl (Out_of_memory name)
       else if skip_spaces s = [] then Inl (Invalid_value name)
       else if skip_spaces rest = [] then Inr (vs1 @ [k])
       else if hd (skip_spaces rest) \<noteq> CHR '','' then Inl (Invalid_value name)
       else bind_list_loop p name v (vs1 @ [k]) n1 (tl (skip_spaces rest)))"
      unfolding full_def vs1_def n1_def
      by (subst bind_list_loop.simps) (simp only: Some kr Let_def prod.case option.case)
    note pl = bind_word_place [OF Some [unfolded kr]]
    show ?thesis
    proof (cases "full \<and> \<not> alloc_ok p n1 \<or> skip_spaces s = []")
      case True
      then show ?thesis using "1.prems"(1) by (auto simp: eq split: if_split_asm)
    next
      case False
      show ?thesis
      proof (cases "skip_spaces rest = []")
        case True
        then have "r = vs1 @ [k]" using "1.prems"(1) False by (auto simp: eq split: if_split_asm)
        then show ?thesis using step [OF pl] by simp
      next
        case more: False
        then have comma: "hd (skip_spaces rest) = CHR '',''"
          and rec: "bind_list_loop p name v (vs1 @ [k]) n1 (tl (skip_spaces rest)) = Inr r"
          using "1.prems"(1) False by (auto simp: eq split: if_split_asm)
        show ?thesis
        proof (rule "1.IH" [OF full_def n1_def vs1_def refl _ _ Some kr [symmetric] refl])
          show "list_so_far bind_place v (vs1 @ [k]) n1" using step [OF pl] by blast
        qed (use False more comma rec in auto)
      qed
    qed
  qed
qed

lemma parse_bind_var_ok:
  assumes "parse_bind_var p name = Parsed (v, vs)"
  shows "list_of bind_place v vs"
proof -
  obtain s where s: "getenv p name = Some s"
    using assms by (auto simp: parse_bind_var_def split: option.splits)
  obtain u rest where w: "bind_word kinds (skip_spaces s) = Some (u, rest)"
    using assms by (auto simp: parse_bind_var_def Let_def s split: option.splits if_split_asm)
  have eq: "parse_bind_var p name =
    (if skip_spaces s = [] then Bad (Invalid_value name)
     else if skip_spaces rest = [] then Parsed (u, [])
     else if hd (skip_spaces rest) \<noteq> CHR '','' then Bad (Invalid_value name)
     else if u = omp_proc_bind_false \<or> u = omp_proc_bind_true then Bad (Invalid_value name)
     else case bind_list_loop p name u [] 0 (tl (skip_spaces rest)) of Inl e \<Rightarrow> Bad e | Inr xs \<Rightarrow> Parsed (hd xs, xs))"
    by (simp add: parse_bind_var_def s w Let_def)
  show ?thesis
  proof (cases "vs = []")
    case True
    then show ?thesis by (simp add: list_of_def)
  next
    case False
    then have more: "skip_spaces s \<noteq> []" "skip_spaces rest \<noteq> []" "hd (skip_spaces rest) = CHR '',''" and u: "bind_place u"
      using assms unfolding eq by (simp_all split: if_split_asm)
    have "(case bind_list_loop p name u [] 0 (tl (skip_spaces rest)) of Inl e \<Rightarrow> Bad e | Inr xs \<Rightarrow> Parsed (hd xs, xs))
      = Parsed (v, vs)"
      using assms more u unfolding eq by (simp only: simp_thms if_False)
    then have vs: "bind_list_loop p name u [] 0 (tl (skip_spaces rest)) = Inr vs" "v = hd vs"
      by (simp_all split: sum.splits)
    have "several bind_place vs"
      by (rule bind_list_loop_ok [OF vs(1)]) (use u in \<open>simp add: list_so_far_def\<close>)
    then show ?thesis using vs(2) by (simp add: list_of_def)
  qed
qed

subsection \<open>The record of control variables\<close>

definition icv_ok :: "icv \<Rightarrow> bool" where
  "icv_ok i \<longleftrightarrow> positive_long (nthreads_var i) \<and> run_sched_var i \<noteq> GFS_RUNTIME
     \<and> INT_MIN \<le> run_sched_chunk_size i \<and> run_sched_chunk_size i \<le> INT_MAX
     \<and> (run_sched_var i \<in> {GFS_DYNAMIC, GFS_GUIDED} \<longrightarrow> run_sched_chunk_size i \<noteq> 0)
     \<and> 0 \<le> default_device_var i \<and> default_device_var i \<le> INT_MAX
     \<and> (1 \<le> thread_limit_var i \<and> thread_limit_var i \<le> INT_MAX \<or> thread_limit_var i = UINT_MAX)"

definition globals_ok :: "globals \<Rightarrow> bool" where
  "globals_ok g \<longleftrightarrow> icv_ok (global_icv g)
     \<and> 0 \<le> max_active_levels_var g \<and> max_active_levels_var g \<le> LONG_MAX
     \<and> 0 \<le> max_task_priority_var g \<and> max_task_priority_var g \<le> INT_MAX
     \<and> list_of positive_long (nthreads_var (global_icv g)) (nthreads_var_list g)
     \<and> list_of bind_place (bind_var (global_icv g)) (bind_var_list g)"

lemma globals_init_ok: "globals_ok globals_init"
  by (simp add: globals_ok_def globals_init_def icv_ok_def list_of_def)

lemma chunk_range:
  assumes "parse_chunk sc s = Inr c"
  shows "INT_MIN \<le> c \<and> c \<le> INT_MAX \<and> (sc \<noteq> GFS_STATIC \<longrightarrow> c \<noteq> 0)"
proof -
  have r: "INT_MIN \<le> s32 x \<and> s32 x \<le> INT_MAX" for x
    using pos_mod_bound [of "2 ^ 32" "x + 2 ^ 31"] pos_mod_sign [of "2 ^ 32" "x + 2 ^ 31"] by (simp add: s32_def)
  have z: "s32 v \<noteq> 0" if "u64 (s32 v) = v" "v \<noteq> 0" for v
  proof
    assume "s32 v = 0"
    with that show False by (simp add: u64_id)
  qed
  have "c = 0 \<and> sc = GFS_STATIC \<or> c = 1 \<or> (\<exists>v. c = s32 v \<and> u64 (s32 v) = v \<and> (v = 0 \<longrightarrow> sc = GFS_STATIC))"
  proof (cases "s = [] \<or> hd s \<noteq> CHR '','' \<or> skip_spaces (tl s) = []")
    case True
    then show ?thesis using assms by (auto simp: parse_chunk_def Let_def split: if_split_asm)
  next
    case False
    obtain v rest errno where st: "strtoul (skip_spaces (tl s)) = (v, rest, errno)" using prod_cases3 by blast
    then have eq: "parse_chunk sc s = (if errno \<or> skip_spaces rest \<noteq> [] \<or> u64 (s32 v) \<noteq> v then Inl Invalid_chunk
      else Inr (s32 (if v = 0 \<and> sc \<noteq> GFS_STATIC then 1 else v)))"
      using False by (simp add: parse_chunk_def Let_def)
    have ok: "\<not> (errno \<or> skip_spaces rest \<noteq> [] \<or> u64 (s32 v) \<noteq> v)" using assms eq by (metis Inl_Inr_False)
    then have "c = s32 (if v = 0 \<and> sc \<noteq> GFS_STATIC then 1 else v)" using assms unfolding eq by (simp only: if_False sum.inject)
    moreover have "s32 1 = 1" by (simp add: s32_id)
    ultimately show ?thesis using ok by (cases "v = 0 \<and> sc \<noteq> GFS_STATIC") (simp_all, blast)
  qed
  then show ?thesis using r z by auto
qed

lemma schedule_word_sched: "schedule_word s = Some (sc, k) \<Longrightarrow> sc \<noteq> GFS_RUNTIME"
  by (auto simp: schedule_word_def schedule_words_def split: if_splits)

lemma parse_schedule_ok: "icv_ok i \<Longrightarrow> run_sched_chunk_size i \<noteq> 0 \<Longrightarrow> icv_ok (fst (parse_schedule p i))"
  using chunk_range schedule_word_sched
  by (auto simp: parse_schedule_def Let_def icv_ok_def split: option.splits sum.splits prod.splits)

text \<open>The members of the record that a step does not write keep the invariant.\<close>

lemma globals_ok_message [simp]: "globals_ok (message e g) = globals_ok g"
  by (simp add: message_def globals_ok_def split: option.splits)

lemma globals_ok_stored:
  assumes "globals_ok g" and "\<And>v g. r = Parsed v \<Longrightarrow> globals_ok g \<Longrightarrow> globals_ok (f v g)"
  shows "globals_ok (stored r f g)"
  using assms by (simp add: stored_def split: parsed.splits)

lemma globals_ok_switched: "globals_ok (f (fst r) g) \<Longrightarrow> globals_ok (switched r f g)"
  by (simp add: switched_def)

lemma init_schedule_ok:
  assumes "globals_ok g" and "run_sched_chunk_size (global_icv g) \<noteq> 0"
  shows "globals_ok (init_schedule p g)"
proof -
  have "icv_ok (fst (parse_schedule p (global_icv g)))"
    using assms by (intro parse_schedule_ok) (simp_all add: globals_ok_def)
  moreover have "nthreads_var (fst (parse_schedule p i)) = nthreads_var i \<and> bind_var (fst (parse_schedule p i)) = bind_var i"
    for i :: icv
    by (simp add: parse_schedule_def Let_def split: option.splits sum.splits prod.splits)
  moreover obtain i e where ie: "parse_schedule p (global_icv g) = (i, e)" by fastforce
  ultimately have "icv_ok i \<and> nthreads_var i = nthreads_var (global_icv g) \<and> bind_var i = bind_var (global_icv g)"
    by (metis fst_conv)
  moreover have "init_schedule p g = message e (g\<lparr>global_icv := i\<rparr>)" by (simp add: init_schedule_def ie)
  ultimately show ?thesis using assms by (simp add: globals_ok_def [of g] globals_ok_def [of "g\<lparr>global_icv := i\<rparr>"])
qed

lemma init_switches_ok: "globals_ok g \<Longrightarrow> globals_ok (init_switches p g)"
  unfolding init_switches_def Let_def
  by (intro globals_ok_switched) (simp add: globals_ok_def icv_ok_def switched_def message_def split: option.splits)

lemma init_limits_ok:
  assumes "globals_ok g"
  shows "globals_ok (init_limits p g)"
  unfolding init_limits_def Let_def
proof (intro globals_ok_stored assms)
  fix v g assume "parse_unsigned_long p ''OMP_THREAD_LIMIT'' False = Parsed v" "globals_ok g"
  then show "globals_ok (g\<lparr>global_icv := (global_icv g)\<lparr>thread_limit_var := (if v > INT_MAX then UINT_MAX else u32 v)\<rparr>\<rparr>)"
    using parse_unsigned_long_range [of p "''OMP_THREAD_LIMIT''" False v] by (auto simp: globals_ok_def icv_ok_def u32_id)
qed (auto simp: globals_ok_def icv_ok_def dest: parse_int_range parse_unsigned_long_range)

text \<open>A number of threads without a list; with a list, its first value.\<close>

lemma globals_ok_threads:
  "globals_ok g \<Longrightarrow> positive_long n \<Longrightarrow> list_of positive_long n ns
    \<Longrightarrow> globals_ok ((set_nthreads n g)\<lparr>nthreads_var_list := ns\<rparr>)"
  by (simp add: globals_ok_def icv_ok_def set_nthreads_def)

lemma set_nthreads_ok: "globals_ok g \<Longrightarrow> nthreads_var_list g = [] \<Longrightarrow> positive_long n \<Longrightarrow> globals_ok (set_nthreads n g)"
  by (simp add: globals_ok_def icv_ok_def set_nthreads_def list_of_def)

lemma init_num_threads_ok:
  assumes "globals_ok g" and "nthreads_var_list g = []" and "positive_long (ncpus os)"
  shows "globals_ok (init_num_threads p os g)"
proof -
  define g1 where "g1 = (set_nthreads (ncpus os) g)\<lparr>available_cpus := ncpus os\<rparr>"
  have g1: "globals_ok g1" "nthreads_var_list g1 = []" "available_cpus g1 = ncpus os"
    using set_nthreads_ok [OF assms] assms(2) by (simp_all add: g1_def globals_ok_def set_nthreads_def)
  have eq: "init_num_threads p os g =
    (case parse_unsigned_long_list p ''OMP_NUM_THREADS'' of
       Parsed (v, vs) \<Rightarrow> (set_nthreads v g1)\<lparr>nthreads_var_list := vs\<rparr>
     | Bad e \<Rightarrow> set_nthreads (ncpus os) (message (Some e) g1)
     | Unset \<Rightarrow> set_nthreads (ncpus os) g1)"
    by (simp add: init_num_threads_def Let_def g1_def stored_def was_parsed_def set_nthreads_def message_def
        split: parsed.split)
  show ?thesis
  proof (cases "parse_unsigned_long_list p ''OMP_NUM_THREADS''")
    case (Parsed r)
    obtain v vs where r: "r = (v, vs)" by fastforce
    show ?thesis
      using parse_unsigned_long_list_ok [OF Parsed [unfolded r]] globals_ok_threads [OF g1(1)] by (simp add: eq Parsed r)
  next
    case (Bad e)
    have "nthreads_var_list (message (Some e) g1) = []" using g1(2) by (simp add: message_def)
    then show ?thesis using set_nthreads_ok g1(1) assms(3) by (simp add: eq Bad)
  qed (use set_nthreads_ok g1 assms(3) in \<open>simp add: eq\<close>)
qed

lemma bind_default_true_ok: "globals_ok g \<Longrightarrow> globals_ok (bind_default_true g)"
  using several_hd [of bind_place "bind_var_list g"]
  by (auto simp: bind_default_true_def globals_ok_def icv_ok_def list_of_def)

lemma init_binding_ok: "globals_ok g \<Longrightarrow> globals_ok (init_binding p os g)"
proof -
  assume g: "globals_ok g"
  define g1 where "g1 = stored (parse_bind_var p ''OMP_PROC_BIND'')
    (\<lambda>(v, vs) g. g\<lparr>global_icv := (global_icv g)\<lparr>bind_var := v\<rparr>, bind_var_list := vs\<rparr>) g"
  have "globals_ok g1" unfolding g1_def
    by (rule globals_ok_stored [OF g]) (auto simp: globals_ok_def icv_ok_def dest: parse_bind_var_ok)
  then show ?thesis unfolding init_binding_def g1_def Let_def by (simp add: bind_default_true_ok)
qed

text \<open>The spin counts are not constrained by \<open>globals_ok\<close>; the throttled one is at most the other.\<close>

lemma globals_ok_spin [simp]:
  "globals_ok (g\<lparr>spin_count_var := a\<rparr>) = globals_ok g" "globals_ok (g\<lparr>throttled_spin_count_var := b\<rparr>) = globals_ok g"
  "globals_ok (g\<lparr>thread_stacksize := c\<rparr>) = globals_ok g" "globals_ok (g\<lparr>device_num := d\<rparr>) = globals_ok g"
  "globals_ok (g\<lparr>device_type := dt, default_dims := ds\<rparr>) = globals_ok g"
  by (simp_all add: globals_ok_def)

lemma init_spin_counts_ok: "globals_ok g \<Longrightarrow> globals_ok (init_spin_counts p g)"
  by (simp add: init_spin_counts_def Let_def globals_ok_stored split: prod.split)

lemma init_spin_counts_le: "throttled_spin_count_var (init_spin_counts p g) \<le> spin_count_var (init_spin_counts p g)"
proof -
  have "throttled_spin_count_var h \<le> spin_count_var h"
    if "h = (if throttled_spin_count_var f > spin_count_var f
             then f\<lparr>throttled_spin_count_var := spin_count_var f\<rparr> else f)" for f h :: globals
    using that by simp
  then show ?thesis unfolding init_spin_counts_def Let_def by (simp split: prod.split)
qed

lemma init_stacksize_ok: "globals_ok g \<Longrightarrow> globals_ok (init_stacksize p g)"
  by (simp add: init_stacksize_def Let_def globals_ok_stored)

lemma init_openacc_ok: "globals_ok g \<Longrightarrow> globals_ok (init_openacc p g)"
  by (simp add: init_openacc_def Let_def globals_ok_stored)

lemma spin_counts_kept:
  "spin_count_var (init_openacc p (init_stacksize p g)) = spin_count_var g"
  "throttled_spin_count_var (init_openacc p (init_stacksize p g)) = throttled_spin_count_var g"
  by (simp_all add: init_openacc_def init_stacksize_def Let_def stored_def message_def split: parsed.split option.split)

subsection \<open>The calls of a program\<close>

text \<open>One call of a setter, with arguments of type \<open>int\<close>, and the states a task can reach.\<close>

inductive icv_step :: "icv_state \<Rightarrow> icv_state \<Rightarrow> bool" where
  num_threads: "INT_MIN \<le> n \<Longrightarrow> n \<le> INT_MAX \<Longrightarrow> icv_step st (omp_set_num_threads n st)"
| dynamic: "icv_step st (omp_set_dynamic v st)"
| nested: "icv_step st (omp_set_nested v st)"
| schedule: "INT_MIN \<le> c \<Longrightarrow> c \<le> INT_MAX \<Longrightarrow> icv_step st (omp_set_schedule k c st)"
| active_levels: "INT_MIN \<le> n \<Longrightarrow> n \<le> INT_MAX \<Longrightarrow> icv_step st (omp_set_max_active_levels n st)"
| default_device: "INT_MIN \<le> n \<Longrightarrow> n \<le> INT_MAX \<Longrightarrow> icv_step st (omp_set_default_device n st)"

lemma icv_write_ok:
  assumes "globals_ok (globals_of st)" and "icv_ok (gomp_icv_read st)"
    and "icv_ok (gomp_icv_read st) \<Longrightarrow> icv_ok (f (gomp_icv_read st))"
  shows "globals_ok (globals_of (gomp_icv_write f st)) \<and> icv_ok (gomp_icv_read (gomp_icv_write f st))"
  using assms by (simp add: gomp_icv_write_def gomp_icv_read_def)

lemma icv_step_ok:
  "icv_step st st' \<Longrightarrow> globals_ok (globals_of st) \<and> icv_ok (gomp_icv_read st)
    \<Longrightarrow> globals_ok (globals_of st') \<and> icv_ok (gomp_icv_read st')"
proof (induction rule: icv_step.induct)
  case (active_levels n st)
  then show ?case
    by (cases "task_icv_of st") (auto simp: omp_set_max_active_levels_def globals_ok_def gomp_icv_read_def)
next
  case (schedule c st k)
  have "icv_ok i \<Longrightarrow> icv_ok (if k = 1 then i\<lparr>run_sched_chunk_size := if c < 1 then 0 else c, run_sched_var := GFS_STATIC\<rparr>
    else if k = 2 then i\<lparr>run_sched_chunk_size := if c < 1 then 1 else c, run_sched_var := GFS_DYNAMIC\<rparr>
    else if k = 3 then i\<lparr>run_sched_chunk_size := if c < 1 then 1 else c, run_sched_var := GFS_GUIDED\<rparr>
    else if k = 4 then i\<lparr>run_sched_var := GFS_AUTO\<rparr> else i)" for i
    using schedule by (simp add: icv_ok_def)
  then show ?case using schedule.prems unfolding omp_set_schedule_def by (intro icv_write_ok) auto
next
  case (num_threads n st)
  have "icv_ok i \<Longrightarrow> icv_ok (i\<lparr>nthreads_var := if n > 0 then n else 1\<rparr>)" for i
    using num_threads.hyps by (simp add: icv_ok_def)
  then show ?case using num_threads.prems unfolding omp_set_num_threads_def by (intro icv_write_ok) auto
next
  case (default_device n st)
  have "icv_ok i \<Longrightarrow> icv_ok (i\<lparr>default_device_var := if n \<ge> 0 then n else 0\<rparr>)" for i
    using default_device.hyps by (simp add: icv_ok_def)
  then show ?case using default_device.prems unfolding omp_set_default_device_def by (intro icv_write_ok) auto
next
  case (dynamic st v)
  have "icv_ok i \<Longrightarrow> icv_ok (i\<lparr>dyn_var := b\<rparr>)" for i b by (simp add: icv_ok_def)
  then show ?case using dynamic unfolding omp_set_dynamic_def by (intro icv_write_ok) auto
next
  case (nested st v)
  have "icv_ok i \<Longrightarrow> icv_ok (i\<lparr>nest_var := b\<rparr>)" for i b by (simp add: icv_ok_def)
  then show ?case using nested unfolding omp_set_nested_def by (intro icv_write_ok) auto
qed

lemma nthreads_list_kept:
  "nthreads_var_list (message e g) = nthreads_var_list g"
  "(\<And>v g. nthreads_var_list (f v g) = nthreads_var_list g) \<Longrightarrow> nthreads_var_list (stored r f g) = nthreads_var_list g"
  by (simp_all add: message_def stored_def split: option.split parsed.split)

lemma initialize_env_ok:
  assumes "positive_long (ncpus os)"
  shows "globals_ok (initialize_env p os globals_init)"
proof -
  have "globals_ok (init_schedule p globals_init)"
    by (rule init_schedule_ok [OF globals_init_ok]) (simp add: globals_init_def)
  then have "globals_ok (init_limits p (init_switches p (init_schedule p globals_init)))"
    by (intro init_limits_ok init_switches_ok)
  moreover have "nthreads_var_list (init_limits p (init_switches p (init_schedule p globals_init))) = []"
    by (simp add: init_limits_def init_switches_def init_schedule_def Let_def switched_def nthreads_list_kept
        globals_init_def split: prod.split)
  ultimately show ?thesis
    unfolding initialize_env_def
    by (intro init_openacc_ok init_stacksize_ok init_spin_counts_ok init_binding_ok init_num_threads_ok assms)
qed

text \<open>
  C36. Whatever the environment holds, after \<open>initialize_env\<close> the control variables have values of their
  meaning: at least one thread, a chunk size in the range of \<open>int\<close> that is not zero for a dynamic
  or guided schedule, a thread limit that is positive or unlimited, lists of at least two valid
  entries headed by the current value, and a throttled spin count not above the spin count; and
  every sequence of calls of the setters, with any arguments of their types, keeps this for the
  record of the calling task and for the global one.
\<close>

theorem control_variables_ok:
  assumes "positive_long (ncpus os)"
    and "icv_step\<^sup>*\<^sup>* \<lparr>globals_of = initialize_env p os globals_init, task_icv_of = None\<rparr> st"
  shows "globals_ok (globals_of st) \<and> icv_ok (gomp_icv_read st)
    \<and> throttled_spin_count_var (initialize_env p os globals_init) \<le> spin_count_var (initialize_env p os globals_init)"
proof -
  have "globals_ok (globals_of st) \<and> icv_ok (gomp_icv_read st)"
    using assms(2)
  proof (induction rule: rtranclp_induct)
    case base
    then show ?case using initialize_env_ok [OF assms(1)] by (simp add: gomp_icv_read_def globals_ok_def)
  qed (rule icv_step_ok)
  then show ?thesis by (simp add: initialize_env_def spin_counts_kept init_spin_counts_le)
qed

subsection \<open>Writing and reading a schedule\<close>

lemma tolower_space: "isspace c \<Longrightarrow> tolower c = c"
  by (auto simp: isspace_def tolower_def Let_def)

lemma space_not_digit: "isspace c \<Longrightarrow> \<not> isdigit c"
  by (auto simp: isspace_def isdigit_def)

lemma skip_spaces_append: "\<forall>c \<in> set a. isspace c \<Longrightarrow> skip_spaces (a @ s) = skip_spaces s"
  by (induction a) (simp_all add: skip_spaces_def)

lemma skip_spaces_stop: "s = [] \<or> \<not> isspace (hd s) \<Longrightarrow> skip_spaces s = s"
  by (cases s) (auto simp: skip_spaces_def)

lemma skip_spaces_all: "\<forall>c \<in> set a. isspace c \<Longrightarrow> skip_spaces a = []"
  using skip_spaces_append [of a "[]"] by (simp add: skip_spaces_def)

lemma starts_with_prefix: "starts_with s w \<longleftrightarrow> prefix w (map tolower s)"
  by (auto simp: starts_with_def prefix_def take_map [symmetric] intro: exI [of _ "drop (length w) (map tolower s)"])
    (metis append_take_drop_id take_map)

lemma schedule_words_prefix_free:
  "\<forall>x \<in> set schedule_words. \<forall>y \<in> set schedule_words. prefix (fst x) (fst y) \<longrightarrow> x = y"
  by code_simp

lemma schedule_words_shape:
  "\<forall>x \<in> set schedule_words. fst x \<noteq> [] \<and> list_all (\<lambda>c. \<not> isspace c) (fst x)
     \<and> (fst (snd x) \<noteq> FS_TAPE \<longrightarrow> snd (snd x) = length (fst x))"
  by code_simp

lemma find_only: "x \<in> set xs \<Longrightarrow> P x \<Longrightarrow> \<forall>y \<in> set xs. P y \<longrightarrow> y = x \<Longrightarrow> find P xs = Some x"
proof (induction xs)
  case (Cons y ys)
  show ?case
  proof (cases "P y")
    case True
    then have "y = x" using Cons.prems(3) by (meson list.set_intros(1))
    then show ?thesis using True by simp
  next
    case False
    then have "x \<noteq> y" using Cons.prems(2) by blast
    then have "x \<in> set ys" using Cons.prems(1) by simp
    then have "find P ys = Some x" using Cons.IH Cons.prems(2,3) by (meson list.set_intros(2))
    then show ?thesis using False by simp
  qed
qed simp

lemma schedule_word_found:
  assumes "(w, sc, k) \<in> set schedule_words" and "prefix w (map tolower s)"
  shows "schedule_word s = Some (sc, k)"
proof -
  have "find (\<lambda>(w, _). starts_with s w) schedule_words = Some (w, sc, k)"
  proof (rule find_only [OF assms(1)])
    show "case (w, sc, k) of (w, _) \<Rightarrow> starts_with s w" using assms(2) by (simp add: starts_with_prefix)
    show "\<forall>y \<in> set schedule_words. (case y of (w, _) \<Rightarrow> starts_with s w) \<longrightarrow> y = (w, sc, k)"
    proof (intro ballI impI)
      fix y assume y: "y \<in> set schedule_words" "case y of (w, _) \<Rightarrow> starts_with s w"
      then have "prefix (fst y) (map tolower s)" by (auto simp: starts_with_prefix)
      then have "prefix (fst y) w \<or> prefix w (fst y)" using prefix_same_cases [OF _ assms(2)] by blast
      then show "y = (w, sc, k)" using schedule_words_prefix_free y(1) assms(1) by fastforce
    qed
  qed
  then show ?thesis by (simp add: schedule_word_def)
qed

abbreviation blank :: "string \<Rightarrow> bool" where "blank a \<equiv> \<forall>c \<in> set a. isspace c"

lemma decimal_not_space: "\<not> isspace (hd (decimal n))"
proof -
  obtain m where "m < (10::nat)" "hd (decimal n) = char_of (48 + m)"
    using decimal_digits [OF hd_in_set [OF decimal_nonempty]] by metis
  then show ?thesis using digit_facts(3) by metis
qed

text \<open>The text of a chunk size: nothing, or a comma and a decimal number, with white space.\<close>

definition chunk_text :: "nat option \<Rightarrow> string \<Rightarrow> string \<Rightarrow> string" where
  "chunk_text c b d = (case c of None \<Rightarrow> [] | Some n \<Rightarrow> CHR '','' # b @ decimal n @ d)"

definition chunk_meant :: "gomp_schedule_type \<Rightarrow> nat option \<Rightarrow> int" where
  "chunk_meant sc c = (case c of None \<Rightarrow> if sc = GFS_STATIC then 0 else 1 | Some n \<Rightarrow> int n)"

lemma blank_end: "blank d \<Longrightarrow> d = [] \<or> \<not> isdigit (hd d)"
  by (cases d) (auto dest: space_not_digit)

lemma parse_chunk_text:
  assumes "blank b" and "blank d" and "\<And>n. c = Some n \<Longrightarrow> int n \<le> INT_MAX \<and> (n = 0 \<longrightarrow> sc = GFS_STATIC)"
  shows "parse_chunk sc (chunk_text c b d) = Inr (chunk_meant sc c)"
proof (cases c)
  case None
  then show ?thesis by (simp add: chunk_text_def chunk_meant_def parse_chunk_def)
next
  case (Some n)
  have n: "int n \<le> INT_MAX" "n = 0 \<longrightarrow> sc = GFS_STATIC" using assms(3) [OF Some] by auto
  have sk: "skip_spaces (b @ decimal n @ d) = decimal n @ d"
    using assms(1) decimal_not_space [of n] decimal_nonempty [of n] by (simp add: skip_spaces_append skip_spaces_stop)
  have st: "strtoul (decimal n @ d) = (int n, d, False)"
    by (rule strtoul_decimal) (use n blank_end [OF assms(2)] in auto)
  have v: "s32 (int n) = int n" "u64 (int n) = int n" using n(1) by (simp_all add: s32_id u64_id)
  have "parse_chunk sc (CHR '','' # b @ decimal n @ d) = Inr (int n)"
    using n(2) decimal_nonempty [of n]
    by (auto simp: parse_chunk_def sk st v skip_spaces_all [OF assms(2)])
  then show ?thesis by (simp add: Some chunk_text_def chunk_meant_def)
qed

text \<open>
  C35. Reading back what was written: for every schedule the parser knows except taper, a value of
  OMP_SCHEDULE made of the word in any mix of cases, optionally a comma and a chunk size in
  decimal (at most \<open>INT_MAX\<close>, zero only for static), with white space anywhere between, sets
  exactly that schedule and that chunk size (without one, 0 for static and 1 for the others), and
  prints no message.
\<close>

theorem parse_schedule_roundtrip:
  assumes "(w, sc, k) \<in> set schedule_words" and "sc \<noteq> FS_TAPE" and "map tolower u = w"
    and "blank a" "blank e" "blank b" "blank d"
    and "\<And>n. c = Some n \<Longrightarrow> int n \<le> INT_MAX \<and> (n = 0 \<longrightarrow> sc = GFS_STATIC)"
    and "env_var p ''OMP_SCHEDULE'' = Some (a @ u @ e @ chunk_text c b d)"
  shows "parse_schedule p icv = (icv\<lparr>run_sched_var := sc, run_sched_chunk_size := chunk_meant sc c\<rparr>, None)"
proof -
  have w: "w \<noteq> []" "\<forall>x \<in> set w. \<not> isspace x" "k = length w"
    using bspec [OF schedule_words_shape assms(1)] assms(2) by (auto simp: list_all_iff)
  have "\<not> isspace x" if "x \<in> set u" for x
    using w(2) assms(3) that tolower_space [of x] by force
  moreover have "u \<noteq> []" using w(1) assms(3) by auto
  ultimately have u: "hd u \<in> set u" "\<not> isspace (hd u)" "u \<noteq> []" by simp_all
  let ?s = "u @ e @ chunk_text c b d"
  have s: "skip_spaces (a @ ?s) = ?s" using u by (simp add: skip_spaces_append [OF assms(4)] skip_spaces_stop)
  have word: "schedule_word ?s = Some (sc, k)"
    by (rule schedule_word_found [OF assms(1)]) (simp add: assms(3))
  have "drop k ?s = e @ chunk_text c b d" using w(3) assms(3) by auto
  moreover have "chunk_text c b d = [] \<or> \<not> isspace (hd (chunk_text c b d))"
    by (simp add: chunk_text_def isspace_def split: option.split)
  ultimately have rest: "skip_spaces (drop k ?s) = chunk_text c b d"
    by (simp add: skip_spaces_append [OF assms(5)] skip_spaces_stop)
  have "parse_chunk sc (chunk_text c b d) = Inr (chunk_meant sc c)"
    by (rule parse_chunk_text [OF assms(6,7)]) (rule assms(8))
  then show ?thesis by (simp add: parse_schedule_def getenv_def assms(9) s word rest Let_def del: drop_append)
qed

text \<open>The value of the witness: the text \<open>" bo_FSS , 12"\<close>.\<close>

definition example_process :: "string \<Rightarrow> process" where
  "example_process text = \<lparr>env_var = (\<lambda>name. if name = ''OMP_SCHEDULE'' then Some text else None),
     privileged = False, alloc_ok = (\<lambda>n. True)\<rparr>"

definition example_icv :: task_icv where
  "example_icv = \<lparr>run_sched_var = GFS_DYNAMIC, run_sched_chunk_size = 1\<rparr>"

theorem parse_schedule_roundtrip_witness:
  "parse_schedule (example_process ('' '' @ ''bo_FSS'' @ '' '' @ chunk_text (Some 12) '' '' [])) example_icv
    = (example_icv\<lparr>run_sched_var := BO_FSS, run_sched_chunk_size := 12\<rparr>, None)"
proof -
  have low: "map tolower ''bo_FSS'' = ''bo_fss''" by code_simp
  have "parse_schedule (example_process ('' '' @ ''bo_FSS'' @ '' '' @ chunk_text (Some 12) '' '' [])) example_icv
    = (example_icv\<lparr>run_sched_var := BO_FSS, run_sched_chunk_size := chunk_meant BO_FSS (Some 12)\<rparr>, None)"
    by (rule parse_schedule_roundtrip [of "''bo_fss''" BO_FSS 6 "''bo_FSS''" "'' ''" "'' ''" "'' ''" "[]" "Some 12"])
      (use low in \<open>simp_all add: schedule_words_def example_process_def isspace_def del: list.map\<close>)
  then show ?thesis by (simp add: chunk_meant_def)
qed

theorem control_variables_ok_witness:
  "let st = \<lparr>globals_of = initialize_env (example_process ''guided,4'')
      \<lparr>ncpus = 4, places_parsed = (\<lambda>b. False), affinity_parsed = (\<lambda>b. False)\<rparr> globals_init, task_icv_of = None\<rparr>
   in globals_ok (globals_of (omp_set_schedule 2 0 st)) \<and> icv_ok (gomp_icv_read (omp_set_schedule 2 0 st))"
proof -
  let ?os = "\<lparr>ncpus = 4, places_parsed = (\<lambda>b. False), affinity_parsed = (\<lambda>b. False)\<rparr>"
  let ?st = "\<lparr>globals_of = initialize_env (example_process ''guided,4'') ?os globals_init, task_icv_of = None\<rparr>"
  have "icv_step\<^sup>*\<^sup>* ?st (omp_set_schedule 2 0 ?st)" by (intro r_into_rtranclp icv_step.schedule) simp_all
  then show ?thesis using control_variables_ok [of ?os "example_process ''guided,4''"] by (simp add: Let_def)
qed

subsection \<open>Where the parsers do not do what they mean to\<close>

lemma s32_u64: "s32 (u64 x) = s32 x"
proof -
  have "(x mod 2 ^ 64 + 2 ^ 31) mod 2 ^ 32 = (x mod 2 ^ 64 mod 2 ^ 32 + 2 ^ 31) mod 2 ^ 32" by (simp only: mod_add_left_eq)
  also have "x mod 2 ^ 64 mod 2 ^ 32 = x mod (2 ^ 32 :: int)" by (rule mod_mod_cancel) simp
  finally show ?thesis by (simp only: s32_def u64_def mod_add_left_eq)
qed

lemma drop4_taper: "prefix ''taper'' (map tolower s) \<Longrightarrow> \<exists>c t. drop 4 s = c # t \<and> tolower c = CHR ''r''"
  by (auto simp: prefix_def map_eq_append_conv map_eq_Cons_conv)

text \<open>
  Values of OMP_SCHEDULE that the code means to handle and does not. A value that begins with
  taper is always reported as unknown, although the schedule has been stored already: the position
  is advanced by four of the five characters. A negative chunk size is not rejected: the conversion
  of \<open>strtoul\<close> wraps, passes the test for the range of \<open>int\<close> and is stored as it is. And the
  schedules of this project that OMP_SCHEDULE can set do not survive being read by
  \<open>omp_get_schedule\<close> and set again by \<open>omp_set_schedule\<close>, which ignores their numbers.
\<close>

theorem schedule_variable_errors:
  "(\<forall>s. env_var p ''OMP_SCHEDULE'' = Some s \<and> starts_with s ''taper''
      \<longrightarrow> parse_schedule p icv = (icv\<lparr>run_sched_var := FS_TAPE\<rparr>, Some Unknown_schedule))
   \<and> (\<forall>n. 1 \<le> n \<and> n \<le> 2 ^ 31 \<and> env_var p ''OMP_SCHEDULE'' = Some (''guided,-'' @ decimal n)
      \<longrightarrow> parse_schedule p icv = (icv\<lparr>run_sched_var := GFS_GUIDED, run_sched_chunk_size := - int n\<rparr>, None))
   \<and> (run_sched_var (gomp_icv_read st) \<notin> {GFS_RUNTIME, GFS_STATIC, GFS_DYNAMIC, GFS_GUIDED, GFS_AUTO}
      \<longrightarrow> (case omp_get_schedule st of (k, c) \<Rightarrow>
            run_sched_var (gomp_icv_read (omp_set_schedule k c (omp_set_schedule 1 0 st))) = GFS_STATIC))"
proof (intro conjI allI impI; (elim conjE)?)
  fix s assume s: "env_var p ''OMP_SCHEDULE'' = Some s" "starts_with s ''taper''"
  then have pre: "prefix ''taper'' (map tolower s)" by (simp add: starts_with_prefix)
  have ne: "s \<noteq> []" "\<not> isspace (hd s)" using pre tolower_space [of "hd s"]
    by (auto simp: prefix_def map_eq_append_conv map_eq_Cons_conv isspace_def)
  have word: "schedule_word s = Some (FS_TAPE, 4)"
    by (rule schedule_word_found [OF _ pre]) (simp add: schedule_words_def)
  obtain c t where ct: "drop 4 s = c # t" "tolower c = CHR ''r''" using drop4_taper [OF pre] by blast
  have c: "\<not> isspace c" "c \<noteq> CHR '',''" using ct(2) tolower_space [of c] by (auto simp: isspace_def tolower_def)
  have "skip_spaces (drop 4 s) = c # t" using ct(1) c(1) by (simp add: skip_spaces_stop)
  then show "parse_schedule p icv = (icv\<lparr>run_sched_var := FS_TAPE\<rparr>, Some Unknown_schedule)"
    using c(2) ne by (simp add: parse_schedule_def getenv_def s(1) skip_spaces_stop word parse_chunk_def)
next
  fix n assume n: "1 \<le> n" "n \<le> 2 ^ 31" "env_var p ''OMP_SCHEDULE'' = Some (''guided,-'' @ decimal n)"
  have word: "schedule_word (''guided,-'' @ decimal n) = Some (GFS_GUIDED, 6)"
    by (rule schedule_word_found [of "''guided''"]) (simp_all add: schedule_words_def tolower_def)
  have st: "strtoul (CHR ''-'' # decimal n) = (u64 (- int n), [], False)"
    using strtoul_decimal_minus [of n "[]"] n(2) by simp
  have v: "s32 (u64 (- int n)) = - int n" "u64 (- int n) \<noteq> 0"
    using n(1,2) s32_u64 [of "- int n"] by (auto simp: s32_id)
  have "parse_chunk GFS_GUIDED ('',-'' @ decimal n) = Inr (- int n)"
    by (simp add: parse_chunk_def skip_spaces_stop isspace_def st v skip_spaces_def)
  then show "parse_schedule p icv = (icv\<lparr>run_sched_var := GFS_GUIDED, run_sched_chunk_size := - int n\<rparr>, None)"
    using word by (simp add: parse_schedule_def getenv_def n(3) skip_spaces_stop isspace_def)
next
  assume "run_sched_var (gomp_icv_read st) \<notin> {GFS_RUNTIME, GFS_STATIC, GFS_DYNAMIC, GFS_GUIDED, GFS_AUTO}"
  then have "schedule_number (run_sched_var (gomp_icv_read st)) \<ge> 5"
    by (cases "run_sched_var (gomp_icv_read st)") (simp_all add: schedule_number_def)
  then show "case omp_get_schedule st of (k, c) \<Rightarrow>
      run_sched_var (gomp_icv_read (omp_set_schedule k c (omp_set_schedule 1 0 st))) = GFS_STATIC"
    by (simp add: omp_get_schedule_def omp_set_schedule_def gomp_icv_write_def gomp_icv_read_def)
qed

theorem schedule_variable_errors_witness:
  "parse_schedule (example_process ''taper,4'') example_icv = (example_icv\<lparr>run_sched_var := FS_TAPE\<rparr>, Some Unknown_schedule)
   \<and> parse_schedule (example_process ''guided,-5'') example_icv
      = (example_icv\<lparr>run_sched_var := GFS_GUIDED, run_sched_chunk_size := - 5\<rparr>, None)
   \<and> (let st = \<lparr>globals_of = globals_init, task_icv_of = Some ((global_icv globals_init)\<lparr>run_sched_var := BO_FSS\<rparr>)\<rparr> in
      run_sched_var (gomp_icv_read (omp_set_schedule 15 1 (omp_set_schedule 1 0 st))) = GFS_STATIC)"
proof -
  let ?st = "\<lparr>globals_of = globals_init, task_icv_of = Some ((global_icv globals_init)\<lparr>run_sched_var := BO_FSS\<rparr>)\<rparr>"
  note errors = schedule_variable_errors
  have t: "starts_with ''taper,4'' ''taper''" by code_simp
  have d: "''guided,-'' @ decimal 5 = ''guided,-5''" by code_simp
  have g: "omp_get_schedule ?st = (15, 1)" "run_sched_var (gomp_icv_read ?st) = BO_FSS"
    by (simp_all add: omp_get_schedule_def gomp_icv_read_def schedule_number_def globals_init_def)
  have "parse_schedule (example_process ''taper,4'') example_icv = (example_icv\<lparr>run_sched_var := FS_TAPE\<rparr>, Some Unknown_schedule)"
    by (rule errors [of "example_process ''taper,4''" example_icv, THEN conjunct1, THEN spec, THEN mp])
      (use t in \<open>simp add: example_process_def\<close>)
  moreover have "parse_schedule (example_process ''guided,-5'') example_icv
      = (example_icv\<lparr>run_sched_var := GFS_GUIDED, run_sched_chunk_size := - int 5\<rparr>, None)"
    by (rule errors [of "example_process ''guided,-5''" example_icv, THEN conjunct2, THEN conjunct1, THEN spec, THEN mp])
      (simp only: d, simp add: example_process_def)
  moreover have "run_sched_var (gomp_icv_read (omp_set_schedule 15 1 (omp_set_schedule 1 0 ?st))) = GFS_STATIC"
    using errors [of "example_process []" "example_icv" ?st] g by simp
  ultimately show ?thesis by (simp add: Let_def)
qed

end
