(* ===== verification/SplayTree.thy ===== *)
theory SplayTree
  imports Prelude "HOL-Library.Tree"
begin

text \<open>
  The splay tree of \<open>gcc/libgomp/splay-tree.c\<close>, which is instantiated twice: for the mapped address
  ranges of an offload device (\<open>libgomp.h\<close>) and for the task lists of one priority
  (\<open>priority_queue.h\<close>). Every node is referenced by exactly one parent (or the root), so the pointer
  structure is a tree; the comparison function of the instance is a parameter, as the macro
  \<open>splay_compare\<close> is in C. The locale states what a comparison function must satisfy on the keys
  of the tree and on the keys it is searched for; both instances interpret it.
\<close>

subsection \<open>Operations\<close>

text \<open>\<open>rotate_left (pp, p, n)\<close> is called with \<open>n\<close> the left child of \<open>p\<close> and stores \<open>n\<close> at \<open>pp\<close>; the
  result is the subtree at \<open>pp\<close>. Without that child the C function would dereference null.\<close>

fun rotate_left :: "'k tree \<Rightarrow> 'k tree" where
  "rotate_left (Node (Node nl n nr) p r) = Node nl n (Node nr p r)"
| "rotate_left t = t"

fun rotate_right :: "'k tree \<Rightarrow> 'k tree" where
  "rotate_right (Node l p (Node nl n nr)) = Node (Node l p nl) n nr"
| "rotate_right t = t"

text \<open>One round of the loop of \<open>splay_tree_splay\<close>: the tree, and whether the loop goes on.\<close>

definition splay_step :: "('k \<Rightarrow> 'k \<Rightarrow> int) \<Rightarrow> 'k \<Rightarrow> 'k tree \<Rightarrow> 'k tree \<times> bool" where
  "splay_step cmp key t =
    (case t of Leaf \<Rightarrow> (t, False) | Node l n r \<Rightarrow>
       let cmp1 = cmp key n in
       if cmp1 = 0 then (t, False)
       else
         (case (if cmp1 < 0 then l else r) of Leaf \<Rightarrow> (t, False) | Node cl c cr \<Rightarrow>
            let cmp2 = cmp key c in
            if cmp2 = 0 \<or> cmp2 < 0 \<and> cl = Leaf \<or> cmp2 > 0 \<and> cr = Leaf
            then (if cmp1 < 0 then rotate_left t else rotate_right t, False)
            else if cmp1 < 0 \<and> cmp2 < 0 then (rotate_left (Node (rotate_left l) n r), True)
            else if cmp1 > 0 \<and> cmp2 > 0 then (rotate_right (Node l n (rotate_right r)), True)
            else if cmp1 < 0 \<and> cmp2 > 0 then (rotate_left (Node (rotate_right l) n r), True)
            else (rotate_right (Node l n (rotate_left r)), True)))"

text \<open>The length of the search path, and whether the next double rotation is of the straight kind.\<close>

fun path_length :: "('k \<Rightarrow> 'k \<Rightarrow> int) \<Rightarrow> 'k \<Rightarrow> 'k tree \<Rightarrow> nat" where
  "path_length cmp key Leaf = 0"
| "path_length cmp key (Node l n r) =
    Suc (if cmp key n < 0 then path_length cmp key l else if cmp key n > 0 then path_length cmp key r else 0)"

fun straight :: "('k \<Rightarrow> 'k \<Rightarrow> int) \<Rightarrow> 'k \<Rightarrow> 'k tree \<Rightarrow> bool" where
  "straight cmp key (Node l n r) =
    (if cmp key n < 0 then (case l of Leaf \<Rightarrow> False | Node _ c _ \<Rightarrow> cmp key c < 0)
     else if cmp key n > 0 then (case r of Leaf \<Rightarrow> False | Node _ c _ \<Rightarrow> cmp key c > 0) else False)"
| "straight cmp key Leaf = False"

definition splay_measure :: "('k \<Rightarrow> 'k \<Rightarrow> int) \<Rightarrow> 'k \<Rightarrow> 'k tree \<Rightarrow> nat" where
  "splay_measure cmp key t = 2 * path_length cmp key t + of_bool (straight cmp key t)"

text \<open>
  A straight double rotation may leave the search path as long as it was, but then the next one is
  not straight, and those shorten it: the loop ends for every comparison function.
\<close>

lemma splay_step_measure:
  assumes "splay_step cmp key t = (t', True)"
  shows "splay_measure cmp key t' < splay_measure cmp key t"
proof -
  obtain l n r where t: "t = Node l n r" using assms by (cases t) (auto simp: splay_step_def)
  consider (left) "cmp key n < 0" | (right) "cmp key n > 0"
    using assms by (fastforce simp: t splay_step_def Let_def split: if_split_asm)
  then show ?thesis
  proof cases
    case left
    obtain cl c cr where l: "l = Node cl c cr"
      using assms left by (cases l) (auto simp: t splay_step_def)
    show ?thesis
    proof (cases "cmp key c < 0")
      case True
      then obtain gl g gr where "cl = Node gl g gr" using assms left by (cases cl) (auto simp: t l splay_step_def Let_def)
      then show ?thesis using assms left True
        by (auto simp: t l splay_step_def splay_measure_def Let_def split: if_split_asm tree.splits)
    next
      case False
      then have pos: "cmp key c > 0" using assms left by (auto simp: t l splay_step_def Let_def split: if_split_asm)
      then obtain gl g gr where "cr = Node gl g gr" using assms left by (cases cr) (auto simp: t l splay_step_def Let_def)
      then show ?thesis using assms left pos
        by (auto simp: t l splay_step_def splay_measure_def Let_def split: if_split_asm tree.splits)
    qed
  next
    case right
    obtain cl c cr where r: "r = Node cl c cr"
      using assms right by (cases r) (auto simp: t splay_step_def)
    show ?thesis
    proof (cases "cmp key c > 0")
      case True
      then obtain gl g gr where "cr = Node gl g gr" using assms right by (cases cr) (auto simp: t r splay_step_def Let_def)
      then show ?thesis using assms right True
        by (auto simp: t r splay_step_def splay_measure_def Let_def split: if_split_asm tree.splits)
    next
      case False
      then have neg: "cmp key c < 0" using assms right by (auto simp: t r splay_step_def Let_def split: if_split_asm)
      then obtain gl g gr where "cl = Node gl g gr" using assms right by (cases cl) (auto simp: t r splay_step_def Let_def)
      then show ?thesis using assms right neg
        by (auto simp: t r splay_step_def splay_measure_def Let_def split: if_split_asm tree.splits)
    qed
  qed
qed

function splay_tree_splay :: "('k \<Rightarrow> 'k \<Rightarrow> int) \<Rightarrow> 'k \<Rightarrow> 'k tree \<Rightarrow> 'k tree" where
  "splay_tree_splay cmp key t =
    (let (t', more) = splay_step cmp key t in if more then splay_tree_splay cmp key t' else t')"
  by pat_completeness auto

termination splay_tree_splay
proof (relation "measure (\<lambda>(cmp, key, t). splay_measure cmp key t)", goal_cases)
  case 1
  then show ?case by simp
next
  case (2 cmp key t x t' more)
  then show ?case using splay_step_measure [of cmp key t t'] by simp
qed

text \<open>\<open>None\<close> is the fatal error \<open>Duplicate node\<close>.\<close>

definition splay_tree_insert :: "('k \<Rightarrow> 'k \<Rightarrow> int) \<Rightarrow> 'k \<Rightarrow> 'k tree \<Rightarrow> 'k tree option" where
  "splay_tree_insert cmp node t =
    (case splay_tree_splay cmp node t of
       Leaf \<Rightarrow> Some (Node Leaf node Leaf)
     | Node l n r \<Rightarrow>
         let comparison = cmp n node in
         if comparison = 0 then None
         else if comparison < 0 then Some (Node (Node l n Leaf) node r)
         else Some (Node l node (Node Leaf n r)))"

text \<open>Walk to the right-most node of the left child and hang the right child off it.\<close>

fun hang_right :: "'k tree \<Rightarrow> 'k tree \<Rightarrow> 'k tree" where
  "hang_right (Node l n Leaf) other = Node l n other"
| "hang_right (Node l n r) other = Node l n (hang_right r other)"
| "hang_right Leaf other = other"

definition splay_tree_remove :: "('k \<Rightarrow> 'k \<Rightarrow> int) \<Rightarrow> 'k \<Rightarrow> 'k tree \<Rightarrow> 'k tree" where
  "splay_tree_remove cmp key t =
    (case splay_tree_splay cmp key t of
       Leaf \<Rightarrow> Leaf
     | Node l n r \<Rightarrow>
         if cmp n key = 0
         then (if l \<noteq> Leaf then (if r \<noteq> Leaf then hang_right l r else l) else r)
         else Node l n r)"

text \<open>The key found, and the tree, which a lookup changes too.\<close>

definition splay_tree_lookup :: "('k \<Rightarrow> 'k \<Rightarrow> int) \<Rightarrow> 'k \<Rightarrow> 'k tree \<Rightarrow> 'k option \<times> 'k tree" where
  "splay_tree_lookup cmp key t =
    (case splay_tree_splay cmp key t of
       Leaf \<Rightarrow> (None, Leaf)
     | Node l n r \<Rightarrow> (if cmp n key = 0 then Some n else None, Node l n r))"

text \<open>The call-back threads a state through the visits.\<close>

fun splay_tree_foreach :: "('k \<Rightarrow> 's \<Rightarrow> 's) \<Rightarrow> 'k tree \<Rightarrow> 's \<Rightarrow> 's" where
  "splay_tree_foreach f Leaf s = s"
| "splay_tree_foreach f (Node l n r) s = splay_tree_foreach f r (splay_tree_foreach f l (f n s))"

subsection \<open>What every comparison function keeps\<close>

declare splay_tree_splay.simps [simp del]

lemma inorder_rotate [simp]: "inorder (rotate_left t) = inorder t" "inorder (rotate_right t) = inorder t"
  by (cases t rule: rotate_left.cases; simp) (cases t rule: rotate_right.cases; simp)

lemma inorder_splay_step: "inorder (fst (splay_step cmp key t)) = inorder t"
  by (cases t) (auto simp: splay_step_def Let_def split: tree.splits)

lemma inorder_splay [simp]: "inorder (splay_tree_splay cmp key t) = inorder t"
proof (induction cmp key t rule: splay_tree_splay.induct)
  case (1 cmp key t)
  obtain t' more where s: "splay_step cmp key t = (t', more)" by fastforce
  then have "inorder t' = inorder t" using inorder_splay_step [of cmp key t] by simp
  then show ?case using 1 [OF s [symmetric] refl] s by (subst splay_tree_splay.simps) simp
qed

lemma inorder_hang_right: "inorder (hang_right t other) = inorder t @ inorder other"
  by (induction t other rule: hang_right.induct) simp_all

lemma foreach_preorder: "splay_tree_foreach f t s = fold f (preorder t) s"
  by (induction t arbitrary: s) simp_all

subsection \<open>Rounds of the loop\<close>

text \<open>The loop with a bound on the number of rounds, \<open>None\<close> when it is used up.\<close>

fun splay_within :: "nat \<Rightarrow> ('k \<Rightarrow> 'k \<Rightarrow> int) \<Rightarrow> 'k \<Rightarrow> 'k tree \<Rightarrow> 'k tree option" where
  "splay_within 0 cmp key t = None"
| "splay_within (Suc n) cmp key t =
    (let (t', more) = splay_step cmp key t in if more then splay_within n cmp key t' else Some t')"

lemma path_length_height: "path_length cmp key t \<le> height t"
  by (induction t) auto

lemma splay_within_enough:
  "splay_measure cmp key t < n \<Longrightarrow> splay_within n cmp key t = Some (splay_tree_splay cmp key t)"
proof (induction n arbitrary: t)
  case (Suc n)
  obtain t' more where s: "splay_step cmp key t = (t', more)" by fastforce
  show ?case
  proof (cases more)
    case True
    then have "splay_measure cmp key t' < n" using splay_step_measure [of cmp key t t'] s Suc.prems by simp
    then show ?thesis using Suc.IH s True by (subst splay_tree_splay.simps) simp
  next
    case False
    then show ?thesis using s by (subst splay_tree_splay.simps) simp
  qed
qed simp

text \<open>
  C32. The loop that splays a tree ends for every key, every tree and every comparison function, after
  at most two rounds for each level of the tree and one more, with the tree that the model computes.
\<close>

theorem splay_terminates: "splay_within (2 * height t + 2) cmp key t = Some (splay_tree_splay cmp key t)"
proof (rule splay_within_enough)
  have "(of_bool (straight cmp key t) :: nat) \<le> 1" by simp
  then show "splay_measure cmp key t < 2 * height t + 2"
    using path_length_height [of cmp key t] unfolding splay_measure_def by linarith
qed

subsection \<open>Search trees\<close>

definition search_tree :: "('k \<Rightarrow> 'k \<Rightarrow> int) \<Rightarrow> ('k \<Rightarrow> bool) \<Rightarrow> 'k tree \<Rightarrow> bool" where
  "search_tree cmp proper t \<longleftrightarrow> (\<forall>x \<in> set_tree t. proper x) \<and> sorted_wrt (\<lambda>x y. cmp x y < 0) (inorder t)"

text \<open>After splaying, the root is the key looked for or one of its two neighbours.\<close>

definition near_root :: "('k \<Rightarrow> 'k \<Rightarrow> int) \<Rightarrow> 'k \<Rightarrow> 'k tree \<Rightarrow> bool" where
  "near_root cmp key t = (case t of Leaf \<Rightarrow> True | Node l n r \<Rightarrow>
     cmp key n = 0 \<or> cmp key n < 0 \<and> (\<forall>x \<in> set_tree l. cmp key x > 0)
     \<or> cmp key n > 0 \<and> (\<forall>x \<in> set_tree r. cmp key x < 0))"

text \<open>
  The contract of a comparison function: \<open>proper\<close> keys are those that are put in a tree, \<open>valid\<close>
  ones those that may be searched for. Keys that compare equal need not be equal.
\<close>

locale splay_key =
  fixes cmp :: "'k \<Rightarrow> 'k \<Rightarrow> int" and proper valid :: "'k \<Rightarrow> bool"
  assumes proper_valid: "proper x \<Longrightarrow> valid x"
    and antisym: "valid x \<Longrightarrow> valid y \<Longrightarrow> cmp x y < 0 \<longleftrightarrow> cmp y x > 0"
    and below: "valid k \<Longrightarrow> proper y \<Longrightarrow> proper z \<Longrightarrow> cmp k y < 0 \<Longrightarrow> cmp y z < 0 \<Longrightarrow> cmp k z < 0"
    and above: "valid k \<Longrightarrow> proper y \<Longrightarrow> proper z \<Longrightarrow> cmp k z > 0 \<Longrightarrow> cmp y z < 0 \<Longrightarrow> cmp k y > 0"
begin

abbreviation ok :: "'k tree \<Rightarrow> bool" where "ok \<equiv> search_tree cmp proper"

lemma equal_sym: "valid x \<Longrightarrow> valid y \<Longrightarrow> cmp x y = 0 \<longleftrightarrow> cmp y x = 0"
  using antisym [of x y] antisym [of y x] by linarith

lemma ok_inorder: "inorder t = inorder t' \<Longrightarrow> ok t \<Longrightarrow> ok t'"
  unfolding search_tree_def by (metis set_inorder)

lemma ok_splay [simp]: "ok (splay_tree_splay cmp key t) = ok t"
  using ok_inorder [of t "splay_tree_splay cmp key t"] ok_inorder [of "splay_tree_splay cmp key t" t] by auto

lemma ok_Node:
  "ok (Node l n r) \<longleftrightarrow> ok l \<and> ok r \<and> proper n \<and> (\<forall>x \<in> set_tree l. cmp x n < 0)
     \<and> (\<forall>x \<in> set_tree r. cmp n x < 0) \<and> (\<forall>x \<in> set_tree l. \<forall>y \<in> set_tree r. cmp x y < 0)"
  by (auto simp: search_tree_def sorted_wrt_append)

lemma ok_proper: "ok t \<Longrightarrow> x \<in> set_tree t \<Longrightarrow> proper x"
  by (simp add: search_tree_def)

lemma near_root_splay_step:
  assumes "ok t" and "valid key" and "splay_step cmp key t = (t', False)"
  shows "near_root cmp key t'"
proof (cases t)
  case Leaf
  then show ?thesis using assms(3) by (auto simp: splay_step_def near_root_def)
next
  case t: (Node l n r)
  have n: "proper n" and l: "\<And>x. x \<in> set_tree l \<Longrightarrow> proper x \<and> cmp x n < 0"
    and r: "\<And>x. x \<in> set_tree r \<Longrightarrow> proper x \<and> cmp n x < 0"
    using assms(1) by (auto simp: t ok_Node ok_proper)
  consider (eq) "cmp key n = 0" | (neg) "cmp key n < 0" | (pos) "cmp key n > 0" by linarith
  then show ?thesis
  proof cases
    case eq
    then show ?thesis using assms(3) by (auto simp: t splay_step_def near_root_def Let_def)
  next
    case neg
    have "cmp key x < 0" if "x \<in> set_tree r" for x using below [OF assms(2) n _ neg] r [OF that] by blast
    then show ?thesis using assms(3) neg
      by (auto simp: t splay_step_def near_root_def Let_def split: tree.splits if_split_asm)
  next
    case pos
    have "cmp key x > 0" if "x \<in> set_tree l" for x using above [OF assms(2) _ n pos] l [OF that] by blast
    then show ?thesis using assms(3) pos
      by (auto simp: t splay_step_def near_root_def Let_def split: tree.splits if_split_asm)
  qed
qed

lemma near_root_splay: "ok t \<Longrightarrow> valid key \<Longrightarrow> near_root cmp key (splay_tree_splay cmp key t)"
proof (induction "splay_measure cmp key t" arbitrary: t rule: less_induct)
  case less
  obtain t' more where s: "splay_step cmp key t = (t', more)" by fastforce
  have "ok t'" using ok_inorder [of t t'] inorder_splay_step [of cmp key t] s less.prems(1) by simp
  then show ?case
    using near_root_splay_step [OF less.prems] less.hyps [of t'] splay_step_measure [of cmp key t t'] s less.prems(2)
    by (subst splay_tree_splay.simps) (cases more, auto)
qed

text \<open>A key that compares equal to one in the tree is at the root after splaying.\<close>

lemma found_at_root:
  assumes "ok (Node l n r)" and "valid key" and "near_root cmp key (Node l n r)"
    and "x \<in> set_tree (Node l n r)" and "cmp key x = 0"
  shows "cmp key n = 0"
proof (rule ccontr)
  assume ne: "cmp key n \<noteq> 0"
  have n: "proper n" and l: "x \<in> set_tree l \<Longrightarrow> proper x \<and> cmp x n < 0" and r: "x \<in> set_tree r \<Longrightarrow> proper x \<and> cmp n x < 0"
    using assms(1) by (auto simp: ok_Node ok_proper)
  have "x \<noteq> n" using ne assms(5) by blast
  then consider "x \<in> set_tree l" | "x \<in> set_tree r" using assms(4) by auto
  then show False
  proof cases
    case 1
    then show ?thesis using above [of key x n] l n assms(2,3,5) ne by (fastforce simp: near_root_def)
  next
    case 2
    then show ?thesis using below [of key n x] r n assms(2,3,5) ne by (fastforce simp: near_root_def)
  qed
qed

lemma lookup_spec:
  assumes "ok t" and "valid key" and "splay_tree_lookup cmp key t = (r, t')"
  shows "inorder t' = inorder t"
    and "r = Some x \<Longrightarrow> x \<in> set_tree t \<and> cmp key x = 0 \<and> (\<exists>a b. t' = Node a x b)"
    and "r = None \<Longrightarrow> \<forall>x \<in> set_tree t. cmp key x \<noteq> 0"
proof -
  let ?s = "splay_tree_splay cmp key t"
  have s: "ok ?s" "near_root cmp key ?s" "set_tree ?s = set_tree t"
    using assms(1,2) near_root_splay [of t key] inorder_splay [of cmp key t] by (simp_all add: set_inorder [symmetric] del: set_inorder)
  have sym: "cmp n key = 0 \<longleftrightarrow> cmp key n = 0" if "n \<in> set_tree t" for n
    using equal_sym [OF proper_valid [OF ok_proper [OF assms(1) that]] assms(2)] .
  have root: "n \<in> set_tree t" if "?s = Node l n r" for l n r using s(3) that by auto
  have e: "inorder ?s = inorder t" by simp
  have res: "(r, t') = (if cmp n key = 0 then Some n else None, Node a n b)" if "?s = Node a n b" for a n b
    using assms(3) that by (simp add: splay_tree_lookup_def)
  show "inorder t' = inorder t"
  proof (cases ?s)
    case Leaf
    then show ?thesis using e assms(3) by (simp add: splay_tree_lookup_def)
  qed (use res e in force)
  show "x \<in> set_tree t \<and> cmp key x = 0 \<and> (\<exists>a b. t' = Node a x b)" if "r = Some x"
  proof (cases ?s)
    case Leaf
    then show ?thesis using assms(3) that by (simp add: splay_tree_lookup_def)
  next
    case (Node a n b)
    then show ?thesis using res [OF Node] that root [OF Node] sym by (auto split: if_split_asm)
  qed
  show "\<forall>x \<in> set_tree t. cmp key x \<noteq> 0" if "r = None"
  proof (cases ?s)
    case Leaf
    then show ?thesis using s(3) by simp
  next
    case (Node a n b)
    then have "cmp key n \<noteq> 0" using res [OF Node] that sym [OF root [OF Node]] by (auto split: if_split_asm)
    then show ?thesis using found_at_root [of a n b key] s assms(2) Node by metis
  qed
qed

lemma splayed:
  assumes "ok t" and "valid key"
  obtains (empty) "splay_tree_splay cmp key t = Leaf" "t = Leaf"
    | (root) l n r where "splay_tree_splay cmp key t = Node l n r" "ok (Node l n r)" "near_root cmp key (Node l n r)"
        "set_tree t = set_tree (Node l n r)" "n \<in> set_tree t"
proof (cases "splay_tree_splay cmp key t")
  case Leaf
  then have "inorder t = []" using inorder_splay [of cmp key t] by simp
  then show ?thesis using Leaf that(1) by (cases t) auto
next
  case (Node l n r)
  have "set_tree t = set_tree (Node l n r)" using inorder_splay [of cmp key t] Node by (metis set_inorder)
  then show ?thesis using that(2) [OF Node] Node assms near_root_splay [of t key] by (metis ok_splay tree.set_intros(2))
qed

lemma insert_duplicate:
  assumes "ok t" and "proper node" and "x \<in> set_tree t" and "cmp node x = 0"
  shows "splay_tree_insert cmp node t = None"
  using assms(1) proper_valid [OF assms(2)]
proof (cases rule: splayed)
  case (root l n r)
  have "cmp node n = 0" using found_at_root [OF root(2) proper_valid [OF assms(2)] root(3)] assms(3,4) root(4) by auto
  then have "cmp n node = 0"
    using equal_sym [of node n] proper_valid ok_proper [OF assms(1) root(5)] assms(2) by blast
  then show ?thesis using root(1) by (simp add: splay_tree_insert_def)
qed (use assms(3) in simp)

lemma insert_new:
  assumes "ok t" and "proper node" and "\<forall>x \<in> set_tree t. cmp node x \<noteq> 0"
  obtains l r where "splay_tree_insert cmp node t = Some (Node l node r)" "ok (Node l node r)"
    "set_tree (Node l node r) = insert node (set_tree t)"
proof -
  note v = proper_valid [OF assms(2)]
  show ?thesis
    using assms(1) v
  proof (cases rule: splayed)
    case empty
    then show ?thesis using that [of Leaf Leaf] assms(2) by (simp add: splay_tree_insert_def ok_Node search_tree_def)
  next
    case (root l n r)
    have n: "proper n" "valid n" using ok_proper [OF assms(1) root(5)] proper_valid by auto
    have ne: "cmp node n \<noteq> 0" using assms(3) root(5) by blast
    have rel: "cmp n node < 0 \<longleftrightarrow> cmp node n > 0" "cmp n node = 0 \<longleftrightarrow> cmp node n = 0"
      using antisym [OF n(2) v] equal_sym [OF n(2) v] by auto
    have swap: "cmp x node < 0 \<longleftrightarrow> cmp node x > 0" if "x \<in> set_tree t" for x
      using antisym [OF proper_valid [OF ok_proper [OF assms(1) that]] v] .
    have l: "\<And>x. x \<in> set_tree l \<Longrightarrow> proper x \<and> cmp x n < 0" and r: "\<And>x. x \<in> set_tree r \<Longrightarrow> proper x \<and> cmp n x < 0"
      using root(2) by (auto simp: ok_Node ok_proper)
    show ?thesis
    proof (cases "cmp n node < 0")
      case True
      then have pos: "cmp node n > 0" using rel by blast
      have "\<forall>x \<in> set_tree r. cmp node x < 0" using root(3) pos by (simp add: near_root_def)
      moreover have "cmp x node < 0" if "x \<in> set_tree l" for x
        using above [OF v _ n(1) pos] l [OF that] swap [of x] root(4) that by simp
      ultimately have "ok (Node (Node l n Leaf) node r)"
        using root(2) True assms(2) unfolding ok_Node by (auto simp: search_tree_def)
      then show ?thesis using that [of "Node l n Leaf" r] True root(1,4) by (auto simp: splay_tree_insert_def)
    next
      case False
      then have neg: "cmp node n < 0" using rel ne by linarith
      have "\<forall>x \<in> set_tree l. cmp x node < 0" using root(3,4) neg swap by (auto simp: near_root_def)
      moreover have "cmp node x < 0" if "x \<in> set_tree r" for x using below [OF v n(1) _ neg] r [OF that] by blast
      ultimately have "ok (Node l node (Node Leaf n r))"
        using root(2) neg assms(2) unfolding ok_Node by (auto simp: search_tree_def)
      then show ?thesis using that [of l "Node Leaf n r"] False rel ne root(1,4) by (auto simp: splay_tree_insert_def)
    qed
  qed
qed

lemma remove_spec:
  assumes "ok t" and "valid key"
  shows "ok (splay_tree_remove cmp key t)"
    and "\<forall>x \<in> set_tree t. cmp key x \<noteq> 0 \<Longrightarrow> set_tree (splay_tree_remove cmp key t) = set_tree t"
    and "x \<in> set_tree t \<Longrightarrow> cmp key x = 0 \<Longrightarrow> \<forall>y \<in> set_tree t. cmp key y = 0 \<longrightarrow> y = x
      \<Longrightarrow> set_tree (splay_tree_remove cmp key t) = set_tree t - {x}"
proof -
  let ?t = "splay_tree_remove cmp key t"
  have "ok ?t \<and> ((\<forall>x \<in> set_tree t. cmp key x \<noteq> 0) \<longrightarrow> set_tree ?t = set_tree t)
    \<and> (\<forall>x. x \<in> set_tree t \<and> cmp key x = 0 \<and> (\<forall>y \<in> set_tree t. cmp key y = 0 \<longrightarrow> y = x) \<longrightarrow> set_tree ?t = set_tree t - {x})"
    using assms
  proof (cases rule: splayed)
    case empty
    then show ?thesis using assms(1) by (simp add: splay_tree_remove_def)
  next
    case (root l n r)
    have sym: "cmp n key = 0 \<longleftrightarrow> cmp key n = 0"
      using equal_sym [OF proper_valid [OF ok_proper [OF assms(1) root(5)]] assms(2)] .
    show ?thesis
    proof (cases "cmp key n = 0")
      case False
      then have "?t = Node l n r" using root(1) sym by (simp add: splay_tree_remove_def)
      then show ?thesis using root(2,4) False found_at_root [OF root(2) assms(2) root(3)] by auto
    next
      case True
      have io: "inorder ?t = inorder l @ inorder r"
        using root(1) True sym by (simp add: splay_tree_remove_def inorder_hang_right)
      have "n \<notin> set_tree l \<and> n \<notin> set_tree r"
        using root(2) equal_sym [of n n] antisym [of n n] proper_valid by (auto simp: ok_Node)
      moreover have "set_tree ?t = set_tree l \<union> set_tree r" using io by (metis set_append set_inorder)
      moreover have "ok ?t" using root(2) io by (auto simp: search_tree_def sorted_wrt_append simp flip: set_inorder)
      ultimately show ?thesis using True root(4,5) by auto
    qed
  qed
  then show "ok ?t"
    and "\<forall>x \<in> set_tree t. cmp key x \<noteq> 0 \<Longrightarrow> set_tree ?t = set_tree t"
    and "x \<in> set_tree t \<Longrightarrow> cmp key x = 0 \<Longrightarrow> \<forall>y \<in> set_tree t. cmp key y = 0 \<longrightarrow> y = x
      \<Longrightarrow> set_tree ?t = set_tree t - {x}"
    by blast+
qed

end

subsection \<open>The mapped address ranges of a device\<close>

text \<open>The two members of \<open>struct splay_tree_key_s\<close> that the comparison reads (\<open>uintptr_t\<close> has 64 bits);
  the other ones are in an extension of the record.\<close>

record mem_key =
  host_start :: int
  host_end :: int

definition splay_compare :: "'a mem_key_scheme \<Rightarrow> 'a mem_key_scheme \<Rightarrow> int" where
  "splay_compare x y =
    (if host_start x = host_end x \<and> host_start y = host_end y then 0
     else if host_end x \<le> host_start y then - 1
     else if host_start x \<ge> host_end y then 1
     else 0)"

definition gomp_map_lookup ::
  "'a mem_key_scheme \<Rightarrow> 'a mem_key_scheme tree \<Rightarrow> 'a mem_key_scheme option \<times> 'a mem_key_scheme tree"
where
  "gomp_map_lookup key t =
    (if host_start key \<noteq> host_end key then splay_tree_lookup splay_compare key t
     else
       case splay_tree_lookup splay_compare (key\<lparr>host_end := u64 (host_end key + 1)\<rparr>) t of
         (Some n, t1) \<Rightarrow> (Some n, t1)
       | (None, t1) \<Rightarrow>
         (case splay_tree_lookup splay_compare (key\<lparr>host_start := u64 (host_start key - 1)\<rparr>) t1 of
            (Some n, t2) \<Rightarrow> (Some n, t2)
          | (None, t2) \<Rightarrow> splay_tree_lookup splay_compare key t2))"

definition gomp_map_0len_lookup ::
  "'a mem_key_scheme \<Rightarrow> 'a mem_key_scheme tree \<Rightarrow> 'a mem_key_scheme option \<times> 'a mem_key_scheme tree"
where
  "gomp_map_0len_lookup key t =
    (if host_start key \<noteq> host_end key then splay_tree_lookup splay_compare key t
     else splay_tree_lookup splay_compare (key\<lparr>host_end := u64 (host_end key + 1)\<rparr>) t)"

definition range_key :: "'a mem_key_scheme \<Rightarrow> bool" where "range_key k \<longleftrightarrow> host_start k \<le> host_end k"

definition proper_range :: "'a mem_key_scheme \<Rightarrow> bool" where "proper_range k \<longleftrightarrow> host_start k < host_end k"

definition overlaps :: "'a mem_key_scheme \<Rightarrow> 'a mem_key_scheme \<Rightarrow> bool" where
  "overlaps k x \<longleftrightarrow> host_start k < host_end x \<and> host_start x < host_end k"

interpretation mapped: splay_key splay_compare proper_range range_key
  by unfold_locales (auto simp: splay_compare_def proper_range_def range_key_def split: if_splits)

lemma compare_overlaps: "range_key k \<Longrightarrow> proper_range x \<Longrightarrow> splay_compare k x = 0 \<longleftrightarrow> overlaps k x"
  by (auto simp: splay_compare_def overlaps_def range_key_def proper_range_def)

abbreviation mem_map_ok :: "'a mem_key_scheme tree \<Rightarrow> bool" where
  "mem_map_ok \<equiv> search_tree splay_compare proper_range"

lemma mem_map_lookup:
  assumes "mem_map_ok t" and "range_key k" and "splay_tree_lookup splay_compare k t = (r, t')"
  shows "mem_map_ok t' \<and> set_tree t' = set_tree t
    \<and> (case r of Some x \<Rightarrow> x \<in> set_tree t \<and> overlaps k x | None \<Rightarrow> \<forall>x \<in> set_tree t. \<not> overlaps k x)"
proof -
  have io: "inorder t' = inorder t" by (rule mapped.lookup_spec(1) [OF assms])
  then have "mem_map_ok t'" "set_tree t' = set_tree t"
    using assms(1) mapped.ok_inorder [of t t'] by (simp_all flip: set_inorder)
  moreover have "splay_compare k x = 0 \<longleftrightarrow> overlaps k x" if "x \<in> set_tree t" for x
    using compare_overlaps [OF assms(2)] mapped.ok_proper [OF assms(1) that] .
  ultimately show ?thesis
    using mapped.lookup_spec(2,3) [OF assms] by (auto split: option.split)
qed

text \<open>Two ranges of one tree do not overlap, so a range of the tree overlaps itself only.\<close>

lemma mem_map_disjoint:
  assumes "mem_map_ok t" and "x \<in> set_tree t" and "y \<in> set_tree t" and "overlaps x y"
  shows "x = y"
proof -
  have p: "proper_range x" "proper_range y" using assms mapped.ok_proper by blast+
  have eq0: "splay_compare x y = 0" "splay_compare y x = 0"
    using p assms(4) by (auto simp: splay_compare_def overlaps_def proper_range_def)
  have "x \<in> set (inorder t)" "y \<in> set (inorder t)" using assms(2,3) by simp_all
  then obtain i j where ij: "i < length (inorder t)" "inorder t ! i = x" "j < length (inorder t)" "inorder t ! j = y"
    by (metis in_set_conv_nth)
  have "sorted_wrt (\<lambda>x y. splay_compare x y < 0) (inorder t)" using assms(1) by (simp add: search_tree_def)
  then have "i < j \<Longrightarrow> splay_compare x y < 0" "j < i \<Longrightarrow> splay_compare y x < 0"
    using ij by (metis sorted_wrt_nth_less)+
  then show ?thesis using eq0 ij by (cases i j rule: linorder_cases) auto
qed

text \<open>
  C16. The table of mapped address ranges of a device, kept as a splay tree, is a set of pairwise
  disjoint ranges: looking up any range leaves the set as it is and finds a member that overlaps it,
  or nothing when no member does; inserting a non-empty range adds it, keeps the order of the tree
  and puts the range at the root, and is a fatal error exactly when it overlaps a member; removing
  a member takes exactly it out.
\<close>

theorem mem_map_refines_set:
  assumes "mem_map_ok t"
  shows "(range_key k \<longrightarrow> (case splay_tree_lookup splay_compare k t of (r, t') \<Rightarrow> mem_map_ok t' \<and> set_tree t' = set_tree t
          \<and> (case r of Some x \<Rightarrow> x \<in> set_tree t \<and> overlaps k x | None \<Rightarrow> \<forall>x \<in> set_tree t. \<not> overlaps k x)))
   \<and> (proper_range k \<longrightarrow> (if \<exists>x \<in> set_tree t. overlaps k x then splay_tree_insert splay_compare k t = None
        else \<exists>l r. splay_tree_insert splay_compare k t = Some (Node l k r) \<and> mem_map_ok (Node l k r)
          \<and> set_tree (Node l k r) = insert k (set_tree t)))
   \<and> (k \<in> set_tree t \<longrightarrow> mem_map_ok (splay_tree_remove splay_compare k t)
        \<and> set_tree (splay_tree_remove splay_compare k t) = set_tree t - {k})"
proof (intro conjI impI)
  assume "range_key k"
  then show "case splay_tree_lookup splay_compare k t of (r, t') \<Rightarrow> mem_map_ok t' \<and> set_tree t' = set_tree t
      \<and> (case r of Some x \<Rightarrow> x \<in> set_tree t \<and> overlaps k x | None \<Rightarrow> \<forall>x \<in> set_tree t. \<not> overlaps k x)"
    using mem_map_lookup [OF assms, of k] by (cases "splay_tree_lookup splay_compare k t") simp
next
  assume k: "proper_range k"
  have cmp: "splay_compare k x = 0 \<longleftrightarrow> overlaps k x" if "x \<in> set_tree t" for x
    using compare_overlaps [OF mapped.proper_valid [OF k]] mapped.ok_proper [OF assms that] .
  show "if \<exists>x \<in> set_tree t. overlaps k x then splay_tree_insert splay_compare k t = None
      else \<exists>l r. splay_tree_insert splay_compare k t = Some (Node l k r) \<and> mem_map_ok (Node l k r)
        \<and> set_tree (Node l k r) = insert k (set_tree t)"
  proof (cases "\<exists>x \<in> set_tree t. overlaps k x")
    case True
    then show ?thesis using mapped.insert_duplicate [OF assms k] cmp by auto
  next
    case False
    then have "\<forall>x \<in> set_tree t. splay_compare k x \<noteq> 0" using cmp by blast
    then show ?thesis using mapped.insert_new [OF assms k] False by metis
  qed
next
  assume k: "k \<in> set_tree t"
  have p: "proper_range k" by (rule mapped.ok_proper [OF assms k])
  note v = mapped.proper_valid [OF p]
  show "mem_map_ok (splay_tree_remove splay_compare k t)" by (rule mapped.remove_spec(1) [OF assms v])
  have cmp: "splay_compare k x = 0 \<longleftrightarrow> overlaps k x" if "x \<in> set_tree t" for x
    using compare_overlaps [OF v] mapped.ok_proper [OF assms that] .
  have "overlaps k k" using p by (simp add: overlaps_def proper_range_def)
  then show "set_tree (splay_tree_remove splay_compare k t) = set_tree t - {k}"
    using mapped.remove_spec(3) [OF assms v k] mem_map_disjoint [OF assms k] cmp k by blast
qed

definition example_range :: "int \<Rightarrow> int \<Rightarrow> mem_key" where "example_range a b = \<lparr>host_start = a, host_end = b\<rparr>"

theorem mem_map_refines_set_witness:
  "let t = Node (Node Leaf (example_range 0 8) Leaf) (example_range 16 24) (Node Leaf (example_range 32 40) Leaf) in
   splay_tree_insert splay_compare (example_range 4 20) t = None
   \<and> set_tree (splay_tree_remove splay_compare (example_range 32 40) t) = {example_range 0 8, example_range 16 24}
   \<and> (\<exists>x. fst (splay_tree_lookup splay_compare (example_range 6 6) t) = Some x \<and> overlaps (example_range 6 6) x)"
proof -
  let ?t = "Node (Node Leaf (example_range 0 8) Leaf) (example_range 16 24) (Node Leaf (example_range 32 40) Leaf)"
  have ok: "mem_map_ok ?t" by (simp add: search_tree_def proper_range_def splay_compare_def example_range_def)
  note T = mem_map_refines_set [OF ok]
  have "splay_tree_insert splay_compare (example_range 4 20) ?t = None"
    using T [of "example_range 4 20"] by (simp add: proper_range_def overlaps_def example_range_def)
  moreover have "set_tree (splay_tree_remove splay_compare (example_range 32 40) ?t) = {example_range 0 8, example_range 16 24}"
    using T [of "example_range 32 40"] by (auto simp: example_range_def)
  moreover have "\<exists>x. fst (splay_tree_lookup splay_compare (example_range 6 6) ?t) = Some x \<and> overlaps (example_range 6 6) x"
    using T [of "example_range 6 6"]
    by (cases "splay_tree_lookup splay_compare (example_range 6 6) ?t")
      (auto simp: range_key_def overlaps_def example_range_def split: option.splits)
  ultimately show ?thesis unfolding Let_def by blast
qed

end
