(* ===== verification/TaskList.thy ===== *)
theory TaskList
  imports Prelude
begin

text \<open>
  The circular, doubly linked lists of tasks of one priority (\<open>gcc/libgomp/priority_queue.h\<close> and
  \<open>task.c\<close>), with the pointers of the nodes as they are in memory: a task is a number, and
  \<open>node_next\<close> and \<open>node_prev\<close> are the members of its node for one type of queue. \<open>ring\<close> relates the
  pointers to the sequence of tasks; every operation is shown to do to the sequence what it means
  to do, and to leave the other rings of the memory alone.
\<close>

subsection \<open>Tasks and nodes\<close>

datatype gomp_task_kind =
  GOMP_TASK_IMPLICIT | GOMP_TASK_UNDEFERRED | GOMP_TASK_WAITING | GOMP_TASK_TIED | GOMP_TASK_ASYNC_RUNNING

text \<open>The members of \<open>struct gomp_task\<close> that the queues read.\<close>

record gomp_task =
  priority :: c_int
  kind :: gomp_task_kind
  parent_depends_on :: bool

record links =
  node_next :: "nat \<Rightarrow> nat"
  node_prev :: "nat \<Rightarrow> nat"

record priority_list =
  list_priority :: c_int
  tasks :: "nat option"
  last_parent_depends_on :: "nat option"

datatype priority_insert_type = PRIORITY_INSERT_BEGIN | PRIORITY_INSERT_END

definition set_next :: "nat \<Rightarrow> nat \<Rightarrow> links \<Rightarrow> links" where
  "set_next a b L = L\<lparr>node_next := (node_next L)(a := b)\<rparr>"

definition set_prev :: "nat \<Rightarrow> nat \<Rightarrow> links \<Rightarrow> links" where
  "set_prev a b L = L\<lparr>node_prev := (node_prev L)(a := b)\<rparr>"

subsection \<open>Operations\<close>

text \<open>The last two writes of an insertion: the neighbours of \<open>node\<close> point to it.\<close>

definition join :: "nat \<Rightarrow> links \<Rightarrow> links" where
  "join node L0 = (let L1 = set_prev (node_next L0 node) node L0 in set_next (node_prev L1 node) node L1)"

text \<open>The two writes that take \<open>node\<close> out of its ring.\<close>

definition unlink :: "nat \<Rightarrow> links \<Rightarrow> links" where
  "unlink node L0 = (let L1 = set_next (node_prev L0 node) (node_next L0 node) L0
                     in set_prev (node_next L1 node) (node_prev L1 node) L1)"

definition priority_list_insert ::
  "nat \<Rightarrow> priority_insert_type \<Rightarrow> bool \<Rightarrow> bool \<Rightarrow> links \<times> priority_list \<Rightarrow> links \<times> priority_list"
where
  "priority_list_insert node pos adjust_parent_depends_on task_is_parent_depends_on s =
    (let (L, l) = s;
         (L1, l1) =
           (case tasks l of
              Some h \<Rightarrow>
                (case (if adjust_parent_depends_on \<and> pos = PRIORITY_INSERT_BEGIN \<and> \<not> task_is_parent_depends_on
                       then last_parent_depends_on l else None) of
                   Some p \<Rightarrow> (join node (set_prev node p (set_next node (node_next L p) L)), l)
                 | None \<Rightarrow> (join node (set_prev node (node_prev L h) (set_next node h L)),
                            if pos = PRIORITY_INSERT_BEGIN then l\<lparr>tasks := Some node\<rparr> else l))
            | None \<Rightarrow> (set_prev node node (set_next node node L), l\<lparr>tasks := Some node\<rparr>))
     in (L1, if adjust_parent_depends_on \<and> last_parent_depends_on l1 = None \<and> task_is_parent_depends_on
             then l1\<lparr>last_parent_depends_on := Some node\<rparr> else l1))"

text \<open>The result says whether the list has become empty.\<close>

definition priority_list_remove :: "nat \<Rightarrow> links \<times> priority_list \<Rightarrow> bool \<times> links \<times> priority_list" where
  "priority_list_remove node s =
    (let (L, l) = s; L1 = unlink node L in
     if tasks l = Some node
     then if node_next L1 node \<noteq> node then (False, L1, l\<lparr>tasks := Some (node_next L1 node)\<rparr>)
          else (True, L1, l\<lparr>tasks := None\<rparr>)
     else (False, L1, l))"

text \<open>\<open>task.c\<close>: move a task that its parent waits for to the front, behind the earlier ones. The
  list is not empty.\<close>

definition priority_list_upgrade_task :: "nat \<Rightarrow> links \<times> priority_list \<Rightarrow> links \<times> priority_list" where
  "priority_list_upgrade_task node s =
    (let (L, l) = s;
         (L1, l1) =
           (case last_parent_depends_on l of
              Some p \<Rightarrow>
                (let L1 = unlink node L; L2 = set_next node (node_next L1 p) (set_prev node p L1);
                     L3 = set_next (node_prev L2 node) node L2
                 in (set_prev (node_next L3 node) node L3, l))
            | None \<Rightarrow>
                if tasks l \<noteq> Some node then
                  (let h = the (tasks l); L1 = unlink node L;
                       L2 = set_next node h (set_prev node (node_prev L1 h) L1);
                       L3 = set_next (node_prev L2 node) node L2
                   in (set_prev (node_next L3 node) node L3, l\<lparr>tasks := Some node\<rparr>))
                else (L, l))
     in (L1, l1\<lparr>last_parent_depends_on := Some node\<rparr>))"

text \<open>The end of the next function: the mark, if it is on the task, moves to the task before it.\<close>

definition move_mark :: "(nat \<Rightarrow> gomp_task) \<Rightarrow> nat \<Rightarrow> links \<Rightarrow> priority_list \<Rightarrow> priority_list" where
  "move_mark task node L l =
    (let prev_child = node_prev L node in
     if parent_depends_on (task node) \<and> last_parent_depends_on l = Some node
     then if prev_child \<noteq> node \<and> kind (task prev_child) = GOMP_TASK_WAITING \<and> parent_depends_on (task prev_child)
          then l\<lparr>last_parent_depends_on := Some prev_child\<rparr>
          else l\<lparr>last_parent_depends_on := None\<rparr>
     else l)"

text \<open>\<open>task.c\<close>: a task is about to run; put it behind the waiting ones.\<close>

definition priority_list_downgrade_task ::
  "(nat \<Rightarrow> gomp_task) \<Rightarrow> nat \<Rightarrow> links \<times> priority_list \<Rightarrow> links \<times> priority_list"
where
  "priority_list_downgrade_task task node s =
    (let (L, l) = s;
         (L1, l1) =
           (if tasks l = Some node then (L, l\<lparr>tasks := Some (node_next L node)\<rparr>)
            else if Some (node_next L node) \<noteq> tasks l \<and> kind (task (node_next L node)) = GOMP_TASK_WAITING then
              (let h = the (tasks l); L1 = unlink node L;
                   L2 = set_prev node (node_prev L1 h) (set_next node h L1);
                   L3 = set_next (node_prev L2 h) node L2
               in (set_prev h node L3, l))
            else (L, l))
     in (L1, move_mark task node L1 l1))"

subsection \<open>Rings\<close>

fun chain :: "links \<Rightarrow> nat list \<Rightarrow> bool" where
  "chain L (a # b # xs) \<longleftrightarrow> node_next L a = b \<and> node_prev L b = a \<and> chain L (b # xs)"
| "chain L xs \<longleftrightarrow> True"

definition ring :: "links \<Rightarrow> nat list \<Rightarrow> bool" where
  "ring L xs \<longleftrightarrow> xs \<noteq> [] \<and> distinct xs \<and> chain L (xs @ [hd xs])"

definition list_of_tasks :: "links \<Rightarrow> priority_list \<Rightarrow> nat list \<Rightarrow> bool" where
  "list_of_tasks L l xs \<longleftrightarrow> (if xs = [] then tasks l = None else tasks l = Some (hd xs) \<and> ring L xs)"

lemma chain_append: "chain L (us @ a # vs) \<longleftrightarrow> chain L (us @ [a]) \<and> chain L (a # vs)"
proof (induction us)
  case (Cons u us)
  then show ?case by (cases us) auto
qed simp

lemma in_set_tlD: "x \<in> set (tl xs) \<Longrightarrow> x \<in> set xs"
  by (cases xs) auto

lemma chain_cong:
  "(\<And>x. x \<in> set (butlast xs) \<Longrightarrow> node_next L x = node_next L' x) \<Longrightarrow>
   (\<And>x. x \<in> set (tl xs) \<Longrightarrow> node_prev L x = node_prev L' x) \<Longrightarrow> chain L xs = chain L' xs"
proof (induction L xs rule: chain.induct)
  case (1 L a b xs)
  have "chain L (b # xs) = chain L' (b # xs)"
    by (rule "1.IH") (use "1.prems" in \<open>auto split: if_splits dest: list.set_sel(2) intro: in_set_tlD\<close>)
  then show ?case using "1.prems"(1) [of a] "1.prems"(2) [of b] by simp
qed auto

lemma ring_cong:
  assumes "\<And>x. x \<in> set xs \<Longrightarrow> node_next L x = node_next L' x \<and> node_prev L x = node_prev L' x"
  shows "ring L xs = ring L' xs"
proof (cases "xs = []")
  case False
  have "chain L (xs @ [hd xs]) = chain L' (xs @ [hd xs])"
    by (rule chain_cong) (use assms False in \<open>auto simp: butlast_append dest: in_set_tlD\<close>)
  then show ?thesis by (simp add: ring_def)
qed (simp add: ring_def)

lemma ring_rotate1: "ring L (x # xs) \<longleftrightarrow> ring L (xs @ [x])"
proof (cases xs)
  case (Cons y ys)
  have "chain L (x # y # ys @ [x]) \<longleftrightarrow> chain L (y # ys @ [x, y])"
    using chain_append [of L "y # ys" x "[y]"] by auto
  then show ?thesis by (auto simp: ring_def Cons)
qed simp

lemma ring_append_commute: "ring L (us @ vs) \<longleftrightarrow> ring L (vs @ us)"
proof (induction us arbitrary: vs)
  case (Cons u us)
  then show ?case using ring_rotate1 [of L u "us @ vs"] Cons [of "vs @ [u]"] by simp
qed simp

text \<open>The neighbours of a member.\<close>

lemma ring_neighbours:
  assumes "ring L (us @ n # vs)"
  shows "node_next L n = hd (vs @ us @ [n])" and "node_prev L n = last (n # vs @ us)"
proof -
  have r: "ring L (n # vs @ us)" using assms ring_append_commute [of L us "n # vs"] by simp
  then have c: "chain L (n # (vs @ us) @ [n])" by (simp add: ring_def)
  have "node_next L n = hd ((vs @ us) @ [n])" using c by (cases "vs @ us") (simp_all del: append_assoc)
  then show "node_next L n = hd (vs @ us @ [n])" by simp
  show "node_prev L n = last (n # vs @ us)"
  proof (cases "vs @ us" rule: rev_cases)
    case (snoc ys y)
    then show ?thesis using c chain_append [of L "n # ys" y "[n]"] by simp
  qed (use c in simp)
qed

text \<open>Putting \<open>n\<close> between the last task of \<open>us\<close> and the first one of what follows.\<close>

lemma ring_splice:
  assumes "ring L (us @ vs)" and "us \<noteq> []" and "n \<notin> set (us @ vs)"
    and "node_next L' n = hd (vs @ us)" "node_prev L' n = last us"
    and "node_next L' (last us) = n" "node_prev L' (hd (vs @ us)) = n"
    and "\<And>x. x \<noteq> n \<Longrightarrow> x \<noteq> last us \<Longrightarrow> node_next L' x = node_next L x"
    and "\<And>x. x \<noteq> n \<Longrightarrow> x \<noteq> hd (vs @ us) \<Longrightarrow> node_prev L' x = node_prev L x"
  shows "ring L' (us @ n # vs)"
proof -
  define ys where "ys = vs @ us"
  have r: "ring L ys" using assms(1) ring_append_commute unfolding ys_def by metis
  have ys: "ys \<noteq> []" "last ys = last us" "distinct ys" "n \<notin> set ys" using assms(2,3) r by (auto simp: ys_def ring_def)
  obtain zs where split: "ys = zs @ [last us]" using ys(1,2) append_butlast_last_id by metis
  have "chain L ys"
    using r chain_append [of L zs "last us" "[hd ys]"] split by (simp add: ring_def)
  moreover have "chain L ys = chain L' ys"
  proof (rule chain_cong)
    fix x assume "x \<in> set (butlast ys)"
    then have "x \<noteq> n" "x \<noteq> last us" using ys(3,4) split by (auto dest: in_set_butlastD)
    then show "node_next L x = node_next L' x" using assms(8) by simp
  next
    fix x assume x: "x \<in> set (tl ys)"
    have "x \<noteq> hd ys" using ys(1,3) x by (cases ys) auto
    moreover have "x \<noteq> n" using in_set_tlD [OF x] ys(4) by blast
    ultimately show "node_prev L x = node_prev L' x" using assms(9) by (simp add: ys_def)
  qed
  ultimately have c: "chain L' (zs @ [last us])" using split by simp
  have "chain L' (ys @ [n, hd ys])"
    using chain_append [of L' zs "last us" "[n, hd ys]"] c split assms(4-7) by (simp add: ys_def)
  then have "chain L' (ys @ [n] @ [hd (ys @ [n])])" using ys(1) by simp
  then have "ring L' (ys @ [n])" using ys(1,3,4) by (simp add: ring_def)
  then show ?thesis using ring_append_commute [of L' "us @ [n]" vs] by (simp add: ys_def)
qed

lemma links_simps [simp]:
  "node_next (set_next a b L) = (node_next L)(a := b)" "node_prev (set_next a b L) = node_prev L"
  "node_prev (set_prev a b L) = (node_prev L)(a := b)" "node_next (set_prev a b L) = node_next L"
  by (simp_all add: set_next_def set_prev_def)

text \<open>A step that changes the nodes in \<open>X\<close> only.\<close>

definition same_outside :: "nat set \<Rightarrow> links \<Rightarrow> links \<Rightarrow> bool" where
  "same_outside X L L' \<longleftrightarrow> (\<forall>x. x \<notin> X \<longrightarrow> node_next L' x = node_next L x \<and> node_prev L' x = node_prev L x)"

lemma same_outside_refl [simp]: "same_outside X L L"
  by (simp add: same_outside_def)

lemma same_outside_trans: "same_outside X L L' \<Longrightarrow> same_outside X L' L'' \<Longrightarrow> same_outside X L L''"
  by (simp add: same_outside_def)

lemma same_outside_mono: "same_outside X L L' \<Longrightarrow> X \<subseteq> Y \<Longrightarrow> same_outside Y L L'"
  by (auto simp: same_outside_def)

lemma ring_frame: "same_outside X L L' \<Longrightarrow> set xs \<inter> X = {} \<Longrightarrow> ring L xs = ring L' xs"
  by (rule ring_cong) (auto simp: same_outside_def)

lemma list_of_tasks_frame: "same_outside X L L' \<Longrightarrow> set xs \<inter> X = {} \<Longrightarrow> list_of_tasks L l xs = list_of_tasks L' l xs"
  using ring_frame [of X L L' xs] by (simp add: list_of_tasks_def)

lemma join_ring:
  assumes "ring L (us @ vs)" and "us \<noteq> []" and "n \<notin> set (us @ vs)"
    and "node_next L0 = (node_next L)(n := hd (vs @ us))" and "node_prev L0 = (node_prev L)(n := last us)"
  shows "ring (join n L0) (us @ n # vs)" and "same_outside (insert n (set (us @ vs))) L (join n L0)"
proof -
  have "hd (vs @ us) \<in> set (us @ vs)" "last us \<in> set us" using assms(2) by (cases vs; cases us; auto)+
  then have m: "hd (vs @ us) \<noteq> n" "last us \<noteq> n" "hd (vs @ us) \<in> set (us @ vs)" "last us \<in> set (us @ vs)"
    using assms(3) by auto
  have e: "node_next (join n L0) = (node_next L)(n := hd (vs @ us), last us := n)"
    "node_prev (join n L0) = (node_prev L)(n := last us, hd (vs @ us) := n)"
    using m by (auto simp: join_def Let_def assms(4,5))
  show "ring (join n L0) (us @ n # vs)"
    by (rule ring_splice [OF assms(1-3)]) (use m in \<open>simp_all add: e\<close>)
  show "same_outside (insert n (set (us @ vs))) L (join n L0)" using m by (auto simp: same_outside_def e)
qed

lemma unlink_ring:
  assumes "ring L (us @ n # vs)" and "us @ vs \<noteq> []"
  shows "ring (unlink n L) (us @ vs)" and "same_outside (set (us @ vs)) L (unlink n L)"
    and "node_next (unlink n L) n = hd (vs @ us)" and "node_prev (unlink n L) n = last (vs @ us)"
proof -
  define ys where "ys = vs @ us"
  have r: "ring L (ys @ [n])" using assms(1) ring_append_commute [of L us "n # vs"] ring_rotate1 [of L n ys] by (simp add: ys_def)
  have ys: "ys \<noteq> []" "distinct ys" "n \<notin> set ys" "set ys = set (us @ vs)" using assms(2) r by (auto simp: ys_def ring_def)
  obtain zs z where split: "ys = zs @ [z]" using ys(1) rev_exhaust by metis
  have nb: "node_next L n = hd ys" "node_prev L n = last ys"
    using ring_neighbours [of L ys n "[]"] r ys(1) by simp_all
  have m: "hd ys \<in> set ys" "last ys \<in> set ys" "hd ys \<noteq> n" "last ys \<noteq> n" using ys(1,3) by (auto simp: hd_in_set last_in_set)
  have e: "node_next (unlink n L) = (node_next L)(last ys := hd ys)" "node_prev (unlink n L) = (node_prev L)(hd ys := last ys)"
    using m nb by (auto simp: unlink_def Let_def)
  have "chain L (ys @ [n, hd ys])" using r ys(1) by (simp add: ring_def)
  then have "chain L (zs @ [z])" using chain_append [of L zs z "[n, hd ys]"] by (simp add: split)
  moreover have "chain L (zs @ [z]) = chain (unlink n L) (zs @ [z])"
  proof (rule chain_cong)
    fix x assume "x \<in> set (butlast (zs @ [z]))"
    then show "node_next L x = node_next (unlink n L) x" using ys(2) split by (auto simp: e)
  next
    fix x assume "x \<in> set (tl (zs @ [z]))"
    then have "x \<noteq> hd ys" using ys(2) split by (metis distinct.simps(2) list.collapse ys(1))
    then show "node_prev L x = node_prev (unlink n L) x" by (simp add: e)
  qed
  ultimately have "chain (unlink n L) (ys @ [hd ys])"
    using chain_append [of "unlink n L" zs z "[hd ys]"] split by (simp add: e)
  then have "ring (unlink n L) ys" using ys(1,2) by (simp add: ring_def)
  then show "ring (unlink n L) (us @ vs)" using ring_append_commute unfolding ys_def by metis
  show "same_outside (set (us @ vs)) L (unlink n L)" using m ys(4) by (auto simp: same_outside_def e)
  show "node_next (unlink n L) n = hd (vs @ us)" "node_prev (unlink n L) n = last (vs @ us)"
    using m nb by (simp_all add: e ys_def [symmetric])
qed

lemma joined_ring:
  assumes "ring L (us @ vs)" and "us \<noteq> []" and "n \<notin> set (us @ vs)"
    and "node_next L' = (node_next L)(n := hd (vs @ us), last us := n)"
    and "node_prev L' = (node_prev L)(n := last us, hd (vs @ us) := n)"
  shows "ring L' (us @ n # vs) \<and> same_outside (insert n (set (us @ vs))) L L'"
proof -
  have "hd (vs @ us) \<in> set (us @ vs)" "last us \<in> set us" using assms(2) by (cases vs; cases us; auto)+
  then have m: "hd (vs @ us) \<noteq> n" "last us \<noteq> n" "hd (vs @ us) \<in> set (us @ vs)" "last us \<in> set (us @ vs)"
    using assms(3) by auto
  have "ring L' (us @ n # vs)" by (rule ring_splice [OF assms(1-3)]) (use m in \<open>simp_all add: assms(4,5)\<close>)
  then show ?thesis using m by (auto simp: same_outside_def assms(4,5))
qed

subsection \<open>What the operations do to the sequence\<close>

text \<open>Insertion after the task \<open>p\<close>, at the front or at the end.\<close>

definition insert_task :: "nat option \<Rightarrow> priority_insert_type \<Rightarrow> nat \<Rightarrow> nat list \<Rightarrow> nat list" where
  "insert_task after pos n xs =
    (case after of
       Some p \<Rightarrow> takeWhile (\<lambda>x. x \<noteq> p) xs @ p # n # tl (dropWhile (\<lambda>x. x \<noteq> p) xs)
     | None \<Rightarrow> if pos = PRIORITY_INSERT_BEGIN then n # xs else xs @ [n])"

lemma insert_task_after: "p \<notin> set us \<Longrightarrow> insert_task (Some p) pos n (us @ p # vs) = us @ p # n # vs"
proof -
  assume "p \<notin> set us"
  then have "takeWhile (\<lambda>x. x \<noteq> p) (us @ p # vs) = us" "dropWhile (\<lambda>x. x \<noteq> p) (us @ p # vs) = p # vs"
    by (auto simp: takeWhile_append dropWhile_append)
  then show ?thesis by (simp add: insert_task_def)
qed

text \<open>Where a new task goes: behind the tasks that the parent waits for, when there are any.\<close>

definition insert_after :: "priority_insert_type \<Rightarrow> bool \<Rightarrow> bool \<Rightarrow> priority_list \<Rightarrow> nat list \<Rightarrow> nat option" where
  "insert_after pos adjust pdo l xs =
    (if xs \<noteq> [] \<and> adjust \<and> pos = PRIORITY_INSERT_BEGIN \<and> \<not> pdo then last_parent_depends_on l else None)"

definition member_or_none :: "nat option \<Rightarrow> nat list \<Rightarrow> bool" where
  "member_or_none m xs \<longleftrightarrow> (case m of None \<Rightarrow> True | Some p \<Rightarrow> p \<in> set xs)"

lemma priority_list_insert_ok:
  assumes "list_of_tasks L l xs" and "n \<notin> set xs" and "member_or_none (insert_after pos adjust pdo l xs) xs"
    and "priority_list_insert n pos adjust pdo (L, l) = (L', l')"
  shows "list_of_tasks L' l' (insert_task (insert_after pos adjust pdo l xs) pos n xs)"
    and "same_outside (insert n (set xs)) L L'"
    and "last_parent_depends_on l' =
      (if adjust \<and> last_parent_depends_on l = None \<and> pdo then Some n else last_parent_depends_on l)"
    and "list_priority l' = list_priority l"
proof -
  let ?after = "insert_after pos adjust pdo l xs"
  have fin: "list_of_tasks L (if c then l\<lparr>last_parent_depends_on := x\<rparr> else l) ys = list_of_tasks L l ys" for c x L l ys
    by (simp add: list_of_tasks_def)
  have "list_of_tasks L' l' (insert_task ?after pos n xs) \<and> same_outside (insert n (set xs)) L L'"
  proof (cases xs)
    case Nil
    then have t: "tasks l = None" using assms(1) by (simp add: list_of_tasks_def)
    have "L' = set_prev n n (set_next n n L)" "tasks l' = Some n"
      using assms(4) t by (auto simp: priority_list_insert_def Let_def split: if_splits)
    moreover have "insert_task ?after pos n [] = [n]" using Nil by (simp add: insert_after_def insert_task_def)
    ultimately show ?thesis using Nil by (simp add: list_of_tasks_def ring_def same_outside_def)
  next
    case (Cons h ys)
    then have t: "tasks l = Some h" "ring L xs" using assms(1) by (simp_all add: list_of_tasks_def)
    show ?thesis
    proof (cases ?after)
      case (Some p)
      then have c: "adjust \<and> pos = PRIORITY_INSERT_BEGIN \<and> \<not> pdo" "last_parent_depends_on l = Some p"
        by (simp_all add: insert_after_def split: if_split_asm)
      have "p \<in> set xs" using assms(3) Some by (simp add: member_or_none_def)
      then obtain us vs where xs: "xs = us @ p # vs" "p \<notin> set us" by (meson split_list_first)
      have L': "L' = join n (set_prev n p (set_next n (node_next L p) L))" "l' = l"
        using assms(4) t c by (simp_all add: priority_list_insert_def)
      have r: "ring L ((us @ [p]) @ vs)" "n \<notin> set ((us @ [p]) @ vs)" using t(2) xs(1) assms(2) by simp_all
      have nx: "node_next L p = hd (vs @ us @ [p])" by (rule ring_neighbours(1)) (use t(2) xs(1) in simp)
      have "ring L' ((us @ [p]) @ n # vs)" "same_outside (insert n (set ((us @ [p]) @ vs))) L L'"
        unfolding L' by (rule join_ring [OF r(1) _ r(2)]; simp add: nx)+
      moreover have "hd (us @ [p] @ n # vs) = h" using xs(1) Cons by (cases us) auto
      ultimately show ?thesis
        using xs insert_task_after [OF xs(2)] t(1) L'(2) Some by (simp add: list_of_tasks_def insert_commute)
    next
      case None
      then have c: "(if adjust \<and> pos = PRIORITY_INSERT_BEGIN \<and> \<not> pdo then last_parent_depends_on l else None) = None"
        using Cons by (auto simp: insert_after_def)
      have L': "L' = join n (set_prev n (node_prev L h) (set_next n h L))"
        and tl': "tasks l' = (if pos = PRIORITY_INSERT_BEGIN then Some n else Some h)"
        using assms(4) t c by (auto simp: priority_list_insert_def Let_def)
      have pv: "node_prev L h = last xs" using ring_neighbours(2) [of L "[]" h ys] t(2) Cons by simp
      have "ring L' (xs @ n # [])" "same_outside (insert n (set (xs @ []))) L L'"
        unfolding L' by (rule join_ring [of L xs "[]"]; use t(2) assms(2) Cons pv in simp)+
      then show ?thesis using None tl' Cons ring_rotate1 [of L' n xs] by (auto simp: list_of_tasks_def insert_task_def)
    qed
  qed
  then show "list_of_tasks L' l' (insert_task ?after pos n xs)" "same_outside (insert n (set xs)) L L'" by auto
  show "last_parent_depends_on l' =
      (if adjust \<and> last_parent_depends_on l = None \<and> pdo then Some n else last_parent_depends_on l)"
    "list_priority l' = list_priority l"
    using assms(4) by (auto simp: priority_list_insert_def Let_def split: option.splits if_splits)
qed

lemma unlink_single: "ring L [n] \<Longrightarrow> unlink n L = L"
proof -
  assume "ring L [n]"
  then have "(node_next L)(n := n) = node_next L" "(node_prev L)(n := n) = node_prev L" "node_next L n = n" "node_prev L n = n"
    by (auto simp: ring_def)
  then show ?thesis by (simp add: unlink_def Let_def set_next_def set_prev_def)
qed

lemma priority_list_remove_ok:
  assumes "list_of_tasks L l (us @ n # vs)" and "priority_list_remove n (L, l) = (e, L', l')"
  shows "list_of_tasks L' l' (us @ vs)" and "e \<longleftrightarrow> us @ vs = []" and "same_outside (set (us @ vs)) L L'"
    and "last_parent_depends_on l' = last_parent_depends_on l" and "list_priority l' = list_priority l"
proof -
  have r: "ring L (us @ n # vs)" "tasks l = Some (hd (us @ n # vs))" using assms(1) by (simp_all add: list_of_tasks_def split: if_split_asm)
  have d: "distinct (us @ n # vs)" using r by (simp add: ring_def)
  have L': "L' = unlink n L" using assms(2) by (auto simp: priority_list_remove_def Let_def split: if_split_asm)
  have "list_of_tasks L' l' (us @ vs) \<and> (e \<longleftrightarrow> us @ vs = []) \<and> same_outside (set (us @ vs)) L L'"
  proof (cases "us @ vs = []")
    case True
    then have "unlink n L = L" "node_next L n = n" using r unlink_single [of L n] by (simp_all add: ring_def)
    then show ?thesis using assms(2) r(2) True by (auto simp: priority_list_remove_def list_of_tasks_def)
  next
    case False
    note u = unlink_ring [OF r(1) False]
    show ?thesis
    proof (cases us)
      case Nil
      then have ne: "hd vs \<noteq> n" using d False by auto
      have "e = False \<and> l' = l\<lparr>tasks := Some (hd vs)\<rparr>"
        using assms(2) r(2) u(3) Nil ne False by (auto simp: priority_list_remove_def Let_def)
      then show ?thesis using u(1,2) L' False Nil by (simp add: list_of_tasks_def)
    next
      case (Cons a as)
      then have "a \<noteq> n" using d by auto
      then have "e = False \<and> l' = l" using assms(2) r(2) Cons by (simp add: priority_list_remove_def)
      then show ?thesis using u(1,2) L' r(2) Cons by (simp add: list_of_tasks_def)
    qed
  qed
  then show "list_of_tasks L' l' (us @ vs)" "e \<longleftrightarrow> us @ vs = []" "same_outside (set (us @ vs)) L L'" by auto
  show "last_parent_depends_on l' = last_parent_depends_on l" "list_priority l' = list_priority l"
    using assms(2) by (auto simp: priority_list_remove_def Let_def split: if_split_asm)
qed

definition upgrade_task :: "nat option \<Rightarrow> nat \<Rightarrow> nat list \<Rightarrow> nat list" where
  "upgrade_task after n xs = insert_task after PRIORITY_INSERT_BEGIN n (remove1 n xs)"

lemma remove1_middle: "n \<notin> set us \<Longrightarrow> remove1 n (us @ n # vs) = us @ vs"
  by (simp add: remove1_append)

text \<open>The task is not at the front when tasks that the parent waits for come first.\<close>

lemma priority_list_upgrade_ok:
  assumes "list_of_tasks L l (us @ n # vs)"
    and "\<And>p. last_parent_depends_on l = Some p \<Longrightarrow> us \<noteq> [] \<and> p \<in> set (us @ vs)"
    and "priority_list_upgrade_task n (L, l) = (L', l')"
  shows "list_of_tasks L' l' (upgrade_task (last_parent_depends_on l) n (us @ n # vs))"
    and "same_outside (set (us @ n # vs)) L L'"
    and "last_parent_depends_on l' = Some n" and "list_priority l' = list_priority l"
proof -
  have r: "ring L (us @ n # vs)" "tasks l = Some (hd (us @ n # vs))" using assms(1) by (simp_all add: list_of_tasks_def split: if_split_asm)
  have d: "distinct (us @ n # vs)" using r by (simp add: ring_def)
  then have nn: "n \<notin> set (us @ vs)" "n \<notin> set us" by auto
  have "list_of_tasks L' l' (upgrade_task (last_parent_depends_on l) n (us @ n # vs)) \<and> same_outside (set (us @ n # vs)) L L'"
  proof (cases "last_parent_depends_on l")
    case (Some p)
    then have p: "us \<noteq> []" "p \<in> set (us @ vs)" using assms(2) by auto
    then have ne: "us @ vs \<noteq> []" by simp
    note u = unlink_ring [OF r(1) ne]
    obtain as bs where ab: "us @ vs = as @ p # bs" "p \<notin> set as" by (meson p(2) split_list_first)
    have pn: "p \<noteq> n" using p(2) nn by blast
    have r1: "ring (unlink n L) ((as @ [p]) @ bs)" "n \<notin> set ((as @ [p]) @ bs)" using u(1) nn ab(1) by simp_all
    have nx: "node_next (unlink n L) p = hd (bs @ as @ [p])" by (rule ring_neighbours(1)) (use u(1) ab(1) in simp)
    then have hn: "hd (bs @ as @ [p]) \<noteq> n" using r1(2) hd_in_set [of "bs @ as @ [p]"] by auto
    have L': "L' = (let L2 = set_next n (node_next (unlink n L) p) (set_prev n p (unlink n L));
        L3 = set_next (node_prev L2 n) n L2 in set_prev (node_next L3 n) n L3)" "tasks l' = tasks l"
      using assms(3) Some by (auto simp: priority_list_upgrade_task_def Let_def)
    have S: "insert n (set ((as @ [p]) @ bs)) = set (us @ n # vs)" using arg_cong [OF ab(1), of set] by auto
    have j: "ring L' ((as @ [p]) @ n # bs) \<and> same_outside (insert n (set ((as @ [p]) @ bs))) (unlink n L) L'"
      by (rule joined_ring [OF r1(1) _ r1(2)]) (use pn hn in \<open>auto simp: L'(1) Let_def nx fun_upd_twist\<close>)
    have same: "same_outside (set (us @ n # vs)) L L'"
      by (rule same_outside_trans [OF same_outside_mono [OF u(2)]]) (use j S in auto)
    have seq: "upgrade_task (Some p) n (us @ n # vs) = as @ p # n # bs"
      using nn(2) by (simp add: upgrade_task_def remove1_middle ab insert_task_after)
    have "hd (as @ p # n # bs) = hd us" using ab(1) p(1) by (cases as; cases us) auto
    then have "list_of_tasks L' l' (as @ p # n # bs)"
      using j r(2) L'(2) p(1) by (simp add: list_of_tasks_def)
    then show ?thesis using same unfolding Some seq by blast
  next
    case None
    show ?thesis
    proof (cases us)
      case Nil
      then have "L' = L" "tasks l' = tasks l" using assms(3) None r(2) by (auto simp: priority_list_upgrade_task_def Let_def)
      then show ?thesis using assms(1) None Nil by (simp add: upgrade_task_def insert_task_def list_of_tasks_def)
    next
      case (Cons h as)
      then have ne: "us @ vs \<noteq> []" "h \<noteq> n" using d by auto
      note u = unlink_ring [OF r(1) ne(1)]
      have r1: "ring (unlink n L) ((us @ vs) @ [])" "n \<notin> set ((us @ vs) @ [])" using u(1) nn by simp_all
      have pv: "node_prev (unlink n L) h = last (us @ vs)"
        using ring_neighbours(2) [of "unlink n L" "[]" h "as @ vs"] u(1) Cons by simp
      then have ln: "last (us @ vs) \<noteq> n" using nn(1) ne(1) last_in_set by metis
      have L': "L' = (let L2 = set_next n h (set_prev n (node_prev (unlink n L) h) (unlink n L));
          L3 = set_next (node_prev L2 n) n L2 in set_prev (node_next L3 n) n L3)" "tasks l' = Some n"
        using assms(3) None r(2) Cons ne(2) by (auto simp: priority_list_upgrade_task_def Let_def)
      have j: "ring L' ((us @ vs) @ n # []) \<and> same_outside (insert n (set ((us @ vs) @ []))) (unlink n L) L'"
        by (rule joined_ring [OF r1(1) ne(1) r1(2)]) (use ne ln Cons in \<open>auto simp: L'(1) Let_def pv fun_upd_twist\<close>)
      have same: "same_outside (set (us @ n # vs)) L L'"
        by (rule same_outside_trans [OF same_outside_mono [OF u(2)]]) (use j in auto)
      have seq: "upgrade_task None n (us @ n # vs) = n # us @ vs"
        using nn by (simp add: upgrade_task_def remove1_middle insert_task_def)
      have "list_of_tasks L' l' (n # us @ vs)"
        using j L'(2) ring_rotate1 [of L' n "us @ vs"] by (simp add: list_of_tasks_def)
      then show ?thesis using same unfolding None seq by blast
    qed
  qed
  then show "list_of_tasks L' l' (upgrade_task (last_parent_depends_on l) n (us @ n # vs))"
    "same_outside (set (us @ n # vs)) L L'" by auto
  show "last_parent_depends_on l' = Some n" "list_priority l' = list_priority l"
    using assms(3) by (auto simp: priority_list_upgrade_task_def Let_def split: option.splits if_splits)
qed

definition downgrade_task :: "(nat \<Rightarrow> gomp_task) \<Rightarrow> nat \<Rightarrow> nat list \<Rightarrow> nat list" where
  "downgrade_task task n xs =
    (let after = tl (dropWhile (\<lambda>x. x \<noteq> n) xs) in
     if hd xs = n \<or> after \<noteq> [] \<and> kind (task (hd after)) = GOMP_TASK_WAITING then remove1 n xs @ [n] else xs)"

lemma downgrade_task_middle:
  assumes "n \<notin> set us"
  shows "downgrade_task task n (us @ n # vs) =
    (if us = [] \<or> vs \<noteq> [] \<and> kind (task (hd vs)) = GOMP_TASK_WAITING then us @ vs @ [n] else us @ n # vs)"
proof -
  have "dropWhile (\<lambda>x. x \<noteq> n) (us @ n # vs) = n # vs" using assms by (auto simp: dropWhile_append)
  moreover have "hd (us @ n # vs) = n \<longleftrightarrow> us = []" using assms by (cases us) auto
  ultimately show ?thesis by (simp add: downgrade_task_def remove1_middle [OF assms])
qed

text \<open>The mark is moved to the task before the new position, when the parent waits for it too.\<close>

definition downgrade_mark :: "(nat \<Rightarrow> gomp_task) \<Rightarrow> nat \<Rightarrow> nat option \<Rightarrow> nat \<Rightarrow> nat option" where
  "downgrade_mark task n m prev_child =
    (if parent_depends_on (task n) \<and> m = Some n
     then if prev_child \<noteq> n \<and> kind (task prev_child) = GOMP_TASK_WAITING \<and> parent_depends_on (task prev_child)
          then Some prev_child else None
     else m)"

lemma move_mark_simps:
  "tasks (move_mark task n L l) = tasks l" "list_priority (move_mark task n L l) = list_priority l"
  "last_parent_depends_on (move_mark task n L l) = downgrade_mark task n (last_parent_depends_on l) (node_prev L n)"
  by (simp_all add: move_mark_def downgrade_mark_def Let_def)

lemma priority_list_downgrade_ok:
  assumes "list_of_tasks L l (us @ n # vs)" and "priority_list_downgrade_task task n (L, l) = (L', l')"
  shows "list_of_tasks L' l' (downgrade_task task n (us @ n # vs))"
    and "same_outside (set (us @ n # vs)) L L'"
    and "last_parent_depends_on l' = downgrade_mark task n (last_parent_depends_on l)
      (if us = [] \<or> vs \<noteq> [] \<and> kind (task (hd vs)) = GOMP_TASK_WAITING then last (n # us @ vs) else last us)"
    and "list_priority l' = list_priority l"
proof -
  have r: "ring L (us @ n # vs)" "tasks l = Some (hd (us @ n # vs))" using assms(1) by (simp_all add: list_of_tasks_def split: if_split_asm)
  have d: "distinct (us @ n # vs)" using r by (simp add: ring_def)
  then have nn: "n \<notin> set (us @ vs)" "n \<notin> set us" by auto
  note nb = ring_neighbours [OF r(1)]
  let ?prev = "if us = [] \<or> vs \<noteq> [] \<and> kind (task (hd vs)) = GOMP_TASK_WAITING then last (n # us @ vs) else last us"
  have "list_of_tasks L' l' (downgrade_task task n (us @ n # vs)) \<and> same_outside (set (us @ n # vs)) L L'
    \<and> last_parent_depends_on l' = downgrade_mark task n (last_parent_depends_on l) ?prev \<and> list_priority l' = list_priority l"
  proof (cases us)
    case Nil
    then have eq: "L' = L" "l' = move_mark task n L (l\<lparr>tasks := Some (node_next L n)\<rparr>)"
      using assms(2) r(2) by (auto simp: priority_list_downgrade_task_def)
    have "list_of_tasks L' l' (vs @ [n])"
      using r(1) Nil ring_rotate1 [of L n vs] nb(1) by (cases vs) (simp_all add: list_of_tasks_def eq move_mark_simps)
    moreover have "node_prev L n = ?prev" using nb(2) Nil by simp
    ultimately show ?thesis using Nil downgrade_task_middle [OF nn(2)] by (simp add: eq move_mark_simps)
  next
    case (Cons h as)
    then have h: "tasks l = Some h" "h \<noteq> n" using r(2) d by auto
    have nx: "node_next L n = hd (vs @ [h])" using nb(1) Cons by (cases vs) simp_all
    show ?thesis
    proof (cases "vs \<noteq> [] \<and> kind (task (hd vs)) = GOMP_TASK_WAITING")
      case True
      then have ne: "us @ vs \<noteq> []" and nxv: "node_next L n = hd vs" "hd vs \<noteq> h" using nx d Cons by (auto simp: hd_in_set)
      note u = unlink_ring [OF r(1) ne]
      have r1: "ring (unlink n L) ((us @ vs) @ [])" "n \<notin> set ((us @ vs) @ [])" using u(1) nn by simp_all
      have pv: "node_prev (unlink n L) h = last (us @ vs)"
        using ring_neighbours(2) [of "unlink n L" "[]" h "as @ vs"] u(1) Cons by simp
      have ln: "last (us @ vs) \<noteq> n" using nn(1) ne last_in_set by metis
      define L1 where "L1 = (let L2 = set_prev n (node_prev (unlink n L) h) (set_next n h (unlink n L));
          L3 = set_next (node_prev L2 h) n L2 in set_prev h n L3)"
      have L': "L' = L1" "l' = move_mark task n L1 l"
        using assms(2) h nxv True by (auto simp: priority_list_downgrade_task_def L1_def Let_def)
      have e: "node_next L1 = (node_next (unlink n L))(n := hd ([] @ us @ vs), last (us @ vs) := n)"
        "node_prev L1 = (node_prev (unlink n L))(n := last (us @ vs), hd ([] @ us @ vs) := n)"
        using h(2) Cons by (auto simp: L1_def Let_def pv)
      have j: "ring L1 ((us @ vs) @ n # []) \<and> same_outside (insert n (set ((us @ vs) @ []))) (unlink n L) L1"
        by (rule joined_ring [OF r1(1) ne r1(2) e])
      have same: "same_outside (set (us @ n # vs)) L L'"
        unfolding L' by (rule same_outside_trans [OF same_outside_mono [OF u(2)]]) (use j in auto)
      have "list_of_tasks L' l' (us @ vs @ [n])" using j L' h(1) Cons by (simp add: list_of_tasks_def move_mark_simps)
      moreover have "node_prev L1 n = ?prev" using e(2) h(2) Cons True by simp
      ultimately show ?thesis using same True downgrade_task_middle [OF nn(2)] by (simp add: L'(2) move_mark_simps)
    next
      case False
      then have c: "\<not> (Some (node_next L n) \<noteq> tasks l \<and> kind (task (node_next L n)) = GOMP_TASK_WAITING)"
        using nx h(1) by (cases vs) auto
      then have L': "L' = L" "l' = move_mark task n L l"
        using assms(2) h by (auto simp: priority_list_downgrade_task_def)
      have "list_of_tasks L' l' (us @ n # vs)" using assms(1) L' by (simp add: list_of_tasks_def move_mark_simps split: if_split_asm)
      moreover have "node_prev L n = ?prev" using nb(2) Cons False by auto
      ultimately show ?thesis using L' Cons False downgrade_task_middle [OF nn(2)] by (auto simp: move_mark_simps)
    qed
  qed
  then show "list_of_tasks L' l' (downgrade_task task n (us @ n # vs))" "same_outside (set (us @ n # vs)) L L'"
    "last_parent_depends_on l' = downgrade_mark task n (last_parent_depends_on l) ?prev" "list_priority l' = list_priority l"
    by auto
qed

subsection \<open>The order of a list of children\<close>

text \<open>Waiting tasks that the parent waits for, other waiting tasks, tasks that run.\<close>

definition rank :: "gomp_task \<Rightarrow> nat" where
  "rank t = (if kind t \<noteq> GOMP_TASK_WAITING then 2 else if parent_depends_on t then 0 else 1)"

definition queue_order :: "(nat \<Rightarrow> gomp_task) \<Rightarrow> nat list \<Rightarrow> bool" where
  "queue_order task xs \<longleftrightarrow> sorted (map (\<lambda>x. rank (task x)) xs)"

definition marked :: "(nat \<Rightarrow> gomp_task) \<Rightarrow> nat list \<Rightarrow> nat option" where
  "marked task xs = (let ps = takeWhile (\<lambda>x. rank (task x) = 0) xs in if ps = [] then None else Some (last ps))"

definition set_tied :: "nat \<Rightarrow> (nat \<Rightarrow> gomp_task) \<Rightarrow> nat \<Rightarrow> gomp_task" where
  "set_tied n task = task(n := (task n)\<lparr>kind := GOMP_TASK_TIED\<rparr>)"

definition set_parent_depends_on :: "nat \<Rightarrow> (nat \<Rightarrow> gomp_task) \<Rightarrow> nat \<Rightarrow> gomp_task" where
  "set_parent_depends_on n task = task(n := (task n)\<lparr>parent_depends_on := True\<rparr>)"

lemma rank_le: "rank t \<le> 2" "rank t = 2 \<longleftrightarrow> kind t \<noteq> GOMP_TASK_WAITING"
  by (simp_all add: rank_def)

text \<open>An ordered list in its three parts.\<close>

lemma queue_order_parts:
  "queue_order task (ps @ ws @ ts) \<and> marked task (ps @ ws @ ts) = (if ps = [] then None else Some (last ps))"
  if "\<forall>x \<in> set ps. rank (task x) = 0" "\<forall>x \<in> set ws. rank (task x) = 1" "\<forall>x \<in> set ts. rank (task x) = 2"
proof -
  have const: "sorted (map (\<lambda>x. rank (task x)) zs)" if "\<forall>x \<in> set zs. rank (task x) = k" for zs k
    using that by (induction zs) auto
  have "takeWhile (\<lambda>x. rank (task x) = 0) (ws @ ts) = []" using that(2,3) by (cases ws; cases ts) auto
  then have "takeWhile (\<lambda>x. rank (task x) = 0) (ps @ ws @ ts) = ps"
    using that(1) by (simp add: takeWhile_append2)
  then show ?thesis
    using that const [OF that(1)] const [OF that(2)] const [OF that(3)]
    by (auto simp: queue_order_def marked_def sorted_append Let_def)
qed

lemma queue_orderE:
  assumes "queue_order task xs"
  obtains ps ws ts where "xs = ps @ ws @ ts" "\<forall>x \<in> set ps. rank (task x) = 0" "\<forall>x \<in> set ws. rank (task x) = 1"
    "\<forall>x \<in> set ts. rank (task x) = 2" "marked task xs = (if ps = [] then None else Some (last ps))"
proof -
  let ?r = "\<lambda>x. rank (task x)"
  define ps where "ps = takeWhile (\<lambda>x. ?r x = 0) xs"
  define rs where "rs = dropWhile (\<lambda>x. ?r x = 0) xs"
  define ws where "ws = takeWhile (\<lambda>x. ?r x = 1) rs"
  define ts where "ts = dropWhile (\<lambda>x. ?r x = 1) rs"
  have xs: "xs = ps @ rs" "rs = ws @ ts" by (simp_all add: ps_def rs_def ws_def ts_def)
  have so: "sorted (map ?r rs)" "sorted (map ?r ts)"
    using assms unfolding queue_order_def xs by (simp_all add: sorted_append)
  have p: "\<forall>x \<in> set ps. ?r x = 0" and w: "\<forall>x \<in> set ws. ?r x = 1" by (auto simp: ps_def ws_def dest: set_takeWhileD)
  have r: "\<forall>x \<in> set rs. ?r x \<noteq> 0"
  proof (cases rs)
    case (Cons a as)
    then have "?r a \<noteq> 0" using hd_dropWhile [of "\<lambda>x. ?r x = 0" xs] by (simp add: rs_def)
    then show ?thesis using so(1) Cons by auto
  qed simp
  have t: "\<forall>x \<in> set ts. ?r x = 2"
  proof (cases ts)
    case (Cons a as)
    then have "?r a \<noteq> 1" using hd_dropWhile [of "\<lambda>x. ?r x = 1" rs] by (simp add: ts_def)
    moreover have "?r a \<noteq> 0" using r Cons xs(2) by simp
    ultimately have "?r a = 2" using rank_le(1) [of "task a"] by linarith
    then have "\<forall>x \<in> set ts. 2 \<le> ?r x" using so(2) Cons by auto
    then show ?thesis using rank_le(1) by (metis le_antisym)
  qed simp
  show ?thesis
    using that [of ps ws ts] xs p w t queue_order_parts [of ps task ws ts] by simp
qed

text \<open>The insertion of a waiting task that uses the mark.\<close>

lemma insert_keeps_order:
  assumes "queue_order task xs" and "distinct xs" and "n \<notin> set xs" and "kind (task n) = GOMP_TASK_WAITING"
    and "last_parent_depends_on l = marked task xs"
  defines "pdo \<equiv> parent_depends_on (task n)"
  defines "ys \<equiv> insert_task (insert_after PRIORITY_INSERT_BEGIN True pdo l xs) PRIORITY_INSERT_BEGIN n xs"
  shows "queue_order task ys \<and> set ys = insert n (set xs) \<and> member_or_none (insert_after PRIORITY_INSERT_BEGIN True pdo l xs) xs
    \<and> marked task ys = (if last_parent_depends_on l = None \<and> pdo then Some n else last_parent_depends_on l)"
proof -
  from assms(1) obtain ps ws ts where xs: "xs = ps @ ws @ ts" and p: "\<forall>x \<in> set ps. rank (task x) = 0"
    and w: "\<forall>x \<in> set ws. rank (task x) = 1" and t: "\<forall>x \<in> set ts. rank (task x) = 2"
    and m: "marked task xs = (if ps = [] then None else Some (last ps))" by (rule queue_orderE)
  have rn: "rank (task n) = (if pdo then 0 else 1)" using assms(4) by (simp add: rank_def pdo_def)
  show ?thesis
  proof (cases "pdo \<or> ps = []")
    case True
    then have ys: "ys = n # xs" "insert_after PRIORITY_INSERT_BEGIN True pdo l xs = None"
      using m assms(5) by (auto simp: ys_def insert_after_def insert_task_def)
    show ?thesis
    proof (cases pdo)
      case True
      then show ?thesis using queue_order_parts [of "n # ps" task ws ts] p w t rn ys xs m assms(5)
        by (simp add: member_or_none_def)
    next
      case False
      then have "ps = []" using \<open>pdo \<or> ps = []\<close> by simp
      then show ?thesis using queue_order_parts [of "[]" task "n # ws" ts] w t rn ys xs m assms(5) False
        by (simp add: member_or_none_def)
    qed
  next
    case False
    then obtain qs q where ps: "ps = qs @ [q]" by (metis rev_exhaust)
    have "q \<notin> set qs" using assms(2) xs ps by simp
    moreover have "insert_after PRIORITY_INSERT_BEGIN True pdo l xs = Some q"
      using False m assms(5) ps xs by (simp add: insert_after_def)
    ultimately have ys: "ys = ps @ (n # ws) @ ts" "insert_after PRIORITY_INSERT_BEGIN True pdo l xs = Some q"
      using insert_task_after [of q qs PRIORITY_INSERT_BEGIN n "ws @ ts"] by (simp_all add: ys_def xs ps)
    show ?thesis using queue_order_parts [of ps task "n # ws" ts] p w t rn ys xs m assms(5) False ps
      by (auto simp: member_or_none_def)
  qed
qed

lemma rank_upd:
  "rank (set_tied n task x) = (if x = n then 2 else rank (task x))"
  "kind (task n) = GOMP_TASK_WAITING \<Longrightarrow> rank (set_parent_depends_on n task x) = (if x = n then 0 else rank (task x))"
  by (simp_all add: rank_def set_tied_def set_parent_depends_on_def)

lemma upgrade_keeps_order:
  assumes "queue_order task (us @ n # vs)" and "distinct (us @ n # vs)" and "rank (task n) = 1"
    and "m = marked task (us @ n # vs)"
  defines "ys \<equiv> upgrade_task m n (us @ n # vs)" and "task' \<equiv> set_parent_depends_on n task"
  shows "queue_order task' ys \<and> set ys = set (us @ n # vs) \<and> marked task' ys = Some n
    \<and> (\<forall>p. m = Some p \<longrightarrow> us \<noteq> [] \<and> p \<in> set (us @ vs))"
proof -
  from assms(1) obtain ps ws ts where xs: "us @ n # vs = ps @ ws @ ts" and p: "\<forall>x \<in> set ps. rank (task x) = 0"
    and w: "\<forall>x \<in> set ws. rank (task x) = 1" and t: "\<forall>x \<in> set ts. rank (task x) = 2"
    and m: "marked task (us @ n # vs) = (if ps = [] then None else Some (last ps))" by (rule queue_orderE)
  have "n \<in> set (ps @ ws @ ts)" using xs by (metis in_set_conv_decomp)
  then have nw: "n \<in> set ws" "n \<notin> set ps" "n \<notin> set ts" using p t assms(3) by auto
  obtain as bs where ws: "ws = as @ n # bs" "n \<notin> set as" using split_list_first [OF nw(1)] by blast
  have un: "n \<notin> set us" "n \<notin> set vs" using assms(2) by simp_all
  have "us = ps @ as" "vs = bs @ ts"
    using append_Cons_eq_iff [of n us vs "ps @ as" "bs @ ts"] xs ws un nw assms(2) by auto
  note uv = this
  have k: "kind (task n) = GOMP_TASK_WAITING" using assms(3) by (simp add: rank_def split: if_split_asm)
  have rest: "remove1 n (us @ n # vs) = ps @ as @ bs @ ts" using remove1_middle [OF un(1)] uv by simp
  have d: "n \<notin> set (as @ bs)" using assms(2) xs ws by auto
  have ys: "ys = (ps @ [n]) @ (as @ bs) @ ts"
  proof (cases "ps = []")
    case True
    then show ?thesis using m assms(4) rest by (simp add: ys_def upgrade_task_def insert_task_def)
  next
    case False
    then obtain qs q where ps: "ps = qs @ [q]" by (metis rev_exhaust)
    have "q \<notin> set qs" using assms(2) xs ps by auto
    then show ?thesis using m assms(4) rest ps insert_task_after [of q qs PRIORITY_INSERT_BEGIN n "as @ bs @ ts"]
      by (simp add: ys_def upgrade_task_def)
  qed
  have "queue_order task' ys \<and> marked task' ys = (if ps @ [n] = [] then None else Some (last (ps @ [n])))"
    unfolding ys task'_def
    by (rule queue_order_parts) (use p w t ws d nw k in \<open>auto simp: rank_upd\<close>)
  moreover have "set ys = set (us @ n # vs)" using ys uv by auto
  moreover have "\<forall>q. m = Some q \<longrightarrow> us \<noteq> [] \<and> q \<in> set (us @ vs)" using m assms(4) uv by (auto split: if_split_asm)
  ultimately show ?thesis by simp
qed

text \<open>The mark after a task has been put behind the waiting ones: right, or lost in one case.\<close>

lemma downgrade_keeps_order:
  assumes "queue_order task (us @ n # vs)" and "distinct (us @ n # vs)" and "kind (task n) = GOMP_TASK_WAITING"
    and "m = marked task (us @ n # vs)"
  defines "ys \<equiv> downgrade_task task n (us @ n # vs)" and "task' \<equiv> set_tied n task"
    and "m' \<equiv> downgrade_mark task n m
      (if us = [] \<or> vs \<noteq> [] \<and> kind (task (hd vs)) = GOMP_TASK_WAITING then last (n # us @ vs) else last us)"
  shows "queue_order task' ys \<and> set ys = set (us @ n # vs)
    \<and> m' = (if m = Some n \<and> us \<noteq> [] \<and> vs \<noteq> [] \<and> kind (task (hd vs)) = GOMP_TASK_WAITING then None else marked task' ys)"
proof -
  from assms(1) obtain ps ws ts where xs: "us @ n # vs = ps @ ws @ ts" and p: "\<forall>x \<in> set ps. rank (task x) = 0"
    and w: "\<forall>x \<in> set ws. rank (task x) = 1" and t: "\<forall>x \<in> set ts. rank (task x) = 2"
    and m: "marked task (us @ n # vs) = (if ps = [] then None else Some (last ps))" by (rule queue_orderE)
  have un: "n \<notin> set us" "n \<notin> set vs" using assms(2) by simp_all
  have dm: "downgrade_mark task n mk c = (if rank (task n) = 0 \<and> mk = Some n
      then if c \<noteq> n \<and> rank (task c) = 0 then Some c else None else mk)" for mk c
    using assms(3) by (auto simp: downgrade_mark_def rank_def)
  have dt: "ys = (if us = [] \<or> vs \<noteq> [] \<and> kind (task (hd vs)) = GOMP_TASK_WAITING then us @ vs @ [n] else us @ n # vs)"
    unfolding ys_def by (rule downgrade_task_middle [OF un(1)])
  have hw: "kind (task x) = GOMP_TASK_WAITING \<longleftrightarrow> rank (task x) \<noteq> 2" for x by (simp add: rank_def)
  have "n \<in> set (ps @ ws @ ts)" using xs by (metis in_set_conv_decomp)
  moreover have "n \<notin> set ts" using t assms(3) rank_le(2) by blast
  ultimately consider (pd) "n \<in> set ps" | (plain) "n \<in> set ws" by auto
  then show ?thesis
  proof cases
    case pd
    then obtain as bs where ps: "ps = as @ n # bs" "n \<notin> set as" using split_list_first by meson
    have uv: "us = as" "vs = bs @ ws @ ts"
      using append_Cons_eq_iff [of n us vs as "bs @ ws @ ts"] xs ps un by auto
    have r0: "rank (task n) = 0" using p pd by blast
    have ord: "queue_order task' ((us @ bs) @ ws @ ts @ [n]) \<and> marked task' ((us @ bs) @ ws @ ts @ [n])
        = (if us @ bs = [] then None else Some (last (us @ bs)))"
      unfolding task'_def by (rule queue_order_parts) (use p w t ps uv un in \<open>auto simp: rank_upd\<close>)
    show ?thesis
    proof (cases "us = [] \<or> vs \<noteq> [] \<and> kind (task (hd vs)) = GOMP_TASK_WAITING")
      case moved: True
      then have ys: "ys = (us @ bs) @ ws @ ts @ [n]" unfolding dt if_P [OF moved] using uv by simp
      have l: "last (n # us @ vs) = (if ws @ ts \<noteq> [] then last (ws @ ts) else last (n # us @ bs))" using uv by simp
      have lw: "ws @ ts \<noteq> [] \<Longrightarrow> rank (task (last (ws @ ts))) \<noteq> 0"
        using w t last_in_set [of "ws @ ts"] by (metis One_nat_def Un_iff set_append zero_neq_numeral zero_neq_one)
      show ?thesis
      proof (cases "bs = []")
        case True
        then have mn: "m = Some n" using m assms(4) ps by simp
        have nb: "us = [] \<or> ws @ ts \<noteq> []" using moved uv True by auto
        have "m' = None" using l lw nb r0 mn True moved uv by (cases "ws @ ts = []") (simp_all add: m'_def dm)
        then show ?thesis using ys ord mn True uv moved by auto
      next
        case False
        then have "m = Some (last bs)" "last bs \<noteq> n" using m assms(4) ps uv un by (auto simp: last_in_set)
        then show ?thesis using ys ord uv False by (auto simp: m'_def dm)
      qed
    next
      case False
      then have bs: "bs = []" "ws = []" using uv p w ps hw by (cases bs; cases ws; auto)+
      have ys: "ys = us @ n # ts" unfolding dt using False uv bs by auto
      have "us \<noteq> []" using False by simp
      then have lu: "last us \<in> set us" by simp
      have "queue_order task' (us @ [] @ n # ts) \<and> marked task' (us @ [] @ n # ts) = (if us = [] then None else Some (last us))"
        unfolding task'_def by (rule queue_order_parts) (use p t ps uv un in \<open>auto simp: rank_upd\<close>)
      moreover have "m = Some n" using m assms(4) ps bs by simp
      moreover have "rank (task (last us)) = 0" "last us \<noteq> n" using lu p ps uv un by auto
      ultimately show ?thesis using ys False r0 uv bs by (auto simp: m'_def dm)
    qed
  next
    case plain
    then obtain as bs where ws: "ws = as @ n # bs" "n \<notin> set as" using split_list_first by meson
    have np: "n \<notin> set ps" using p w plain by force
    have uv: "us = ps @ as" "vs = bs @ ts"
      using append_Cons_eq_iff [of n us vs "ps @ as" "bs @ ts"] xs ws un np by auto
    have mn: "m \<noteq> Some n" using m assms(4) np by (auto split: if_split_asm)
    have r1: "rank (task n) \<noteq> 0" using w plain by simp
    have ord: "queue_order task' (ps @ (as @ bs) @ ts @ [n]) \<and> marked task' (ps @ (as @ bs) @ ts @ [n]) = (if ps = [] then None else Some (last ps))"
      unfolding task'_def by (rule queue_order_parts) (use p w t ws uv un np in \<open>auto simp: rank_upd\<close>)
    have ord2: "queue_order task' (ps @ as @ n # ts) \<and> marked task' (ps @ as @ n # ts) = (if ps = [] then None else Some (last ps))"
      unfolding task'_def by (rule queue_order_parts) (use p w t ws uv un np in \<open>auto simp: rank_upd\<close>)
    show ?thesis
    proof (cases "us = [] \<or> vs \<noteq> [] \<and> kind (task (hd vs)) = GOMP_TASK_WAITING")
      case True
      then have "ys = ps @ (as @ bs) @ ts @ [n]" unfolding dt if_P [OF True] using uv by simp
      then show ?thesis using ord m assms(4) mn r1 uv by (auto simp: m'_def dm)
    next
      case False
      then have "bs = []" using uv w ws hw by (cases bs) auto
      then have "ys = ps @ as @ n # ts" unfolding dt using False uv by auto
      then show ?thesis using ord2 m assms(4) mn r1 uv \<open>bs = []\<close> by (auto simp: m'_def dm)
    qed
  qed
qed

end
