(* ===== verification/TaskOrder.thy ===== *)
theory TaskOrder
  imports TaskList
begin

text \<open>
  The properties of the task lists: the refinement of the pointer operations by operations on
  sequences, the order of a list of children that \<open>priority_list_verify\<close> checks, which the
  operations keep, and the case in which the mark behind the awaited tasks is lost.
\<close>

subsection \<open>The checker\<close>

text \<open>The loop of \<open>priority_list_verify\<close>, from node \<open>p\<close>; \<open>Some False\<close> is the fatal error. It goes on for
  as long as it does not come back to the first node.\<close>

partial_function (option) verify_from ::
  "(nat \<Rightarrow> gomp_task) \<Rightarrow> bool \<Rightarrow> links \<Rightarrow> nat \<Rightarrow> bool \<Rightarrow> bool \<Rightarrow> nat \<Rightarrow> bool option"
where
  "verify_from task check_deps L first seen_tied seen_plain_waiting p =
    (let t = task p in
     if seen_tied \<and> kind t = GOMP_TASK_WAITING then Some False
     else
       let seen_tied1 = (seen_tied \<or> kind t = GOMP_TASK_TIED \<or> kind t = GOMP_TASK_ASYNC_RUNNING);
           deps = (\<not> (kind t = GOMP_TASK_TIED \<or> kind t = GOMP_TASK_ASYNC_RUNNING) \<and> check_deps \<and> kind t = GOMP_TASK_WAITING);
           seen_plain1 = (seen_plain_waiting \<or> deps \<and> \<not> parent_depends_on t)
       in if deps \<and> parent_depends_on t \<and> seen_plain_waiting then Some False
          else if node_next L p = first then Some True
          else verify_from task check_deps L first seen_tied1 seen_plain1 (node_next L p))"

definition priority_list_verify :: "(nat \<Rightarrow> gomp_task) \<Rightarrow> bool \<Rightarrow> links \<times> priority_list \<Rightarrow> bool option" where
  "priority_list_verify task check_deps s =
    (case tasks (snd s) of Some h \<Rightarrow> verify_from task check_deps (fst s) h False False h | None \<Rightarrow> None)"

definition queue_kind :: "gomp_task_kind \<Rightarrow> bool" where
  "queue_kind k \<longleftrightarrow> k = GOMP_TASK_WAITING \<or> k = GOMP_TASK_TIED \<or> k = GOMP_TASK_ASYNC_RUNNING"

lemma verify_from_chain:
  assumes "chain L (x # xs @ [h])" and "h \<notin> set xs" and "\<forall>y \<in> set (x # xs). queue_kind (kind (task y))"
  shows "verify_from task True L h tied plain x = Some
    ((tied \<longrightarrow> (\<forall>y \<in> set (x # xs). rank (task y) = 2)) \<and> (plain \<longrightarrow> (\<forall>y \<in> set (x # xs). rank (task y) \<noteq> 0))
     \<and> sorted (map (\<lambda>y. rank (task y)) (x # xs)))"
  using assms
proof (induction xs arbitrary: x tied plain)
  case Nil
  then show ?case
    by (subst verify_from.simps) (auto simp: Let_def rank_def queue_kind_def)
next
  case (Cons y ys)
  have nx: "node_next L x = y" "y \<noteq> h" and c: "chain L (y # ys @ [h])" using Cons.prems by auto
  note IH = Cons.IH [OF c]
  have k: "queue_kind (kind (task x))" "h \<notin> set ys" "\<forall>z \<in> set (y # ys). queue_kind (kind (task z))"
    using Cons.prems by simp_all
  have sorted_ge: "\<forall>z \<in> set (y # ys). rank (task x) \<le> rank (task z)"
    if "rank (task x) \<le> rank (task y)" "sorted (map (\<lambda>z. rank (task z)) (y # ys))"
    using that by auto
  have r2: "rank (task z) \<le> 2" for z by (rule rank_le(1))
  consider (waited) "kind (task x) = GOMP_TASK_WAITING" "parent_depends_on (task x)" "rank (task x) = 0"
    | (plain) "kind (task x) = GOMP_TASK_WAITING" "\<not> parent_depends_on (task x)" "rank (task x) = 1"
    | (busy) "kind (task x) = GOMP_TASK_TIED \<or> kind (task x) = GOMP_TASK_ASYNC_RUNNING" "rank (task x) = 2"
    using k(1) by (auto simp: queue_kind_def rank_def)
  then show ?case
  proof cases
    case waited
    then show ?thesis using IH [of tied plain] k nx
      by (subst verify_from.simps) (auto simp: Let_def)
  next
    case plain
    then show ?thesis using IH [of tied True] k nx
      by (subst verify_from.simps) (auto simp: Let_def Suc_le_eq)
  next
    case busy
    have "(\<forall>z \<in> set (y # ys). rank (task z) = 2) \<longleftrightarrow> (\<forall>z \<in> set (y # ys). 2 \<le> rank (task z))" using r2 by (metis le_antisym order_refl)
    then show ?thesis using IH [of True plain] k nx busy r2
      by (subst verify_from.simps) (auto simp: Let_def le_antisym)
  qed
qed

text \<open>
  The consistency check of a list of children accepts exactly the documented order: on every
  non-empty list of waiting and running tasks the walk over the pointers comes to an end, and it
  reports no error exactly when the tasks that the parent waits for come first, then the other
  waiting tasks, then those that run.
\<close>

theorem verify_checks_order:
  assumes "list_of_tasks L l xs" and "xs \<noteq> []" and "\<forall>x \<in> set xs. queue_kind (kind (task x))"
  shows "priority_list_verify task True (L, l) = Some (queue_order task xs)"
proof -
  obtain h ys where xs: "xs = h # ys" using assms(2) by (cases xs) auto
  then have t: "tasks l = Some h" "ring L (h # ys)" using assms(1) by (simp_all add: list_of_tasks_def)
  then show ?thesis using verify_from_chain [of L h ys h task False False] assms(3)
    by (simp add: priority_list_verify_def xs ring_def queue_order_def)
qed

text \<open>Three tasks in a ring, for the witnesses: 1 and 2 are awaited, 3 is not.\<close>

definition ring_links :: links where
  "ring_links = \<lparr>node_next = (\<lambda>x. if x = 3 then 1 else x + 1), node_prev = (\<lambda>x. if x = 1 then 3 else x - 1)\<rparr>"

definition three_tasks :: "nat \<Rightarrow> gomp_task" where
  "three_tasks x = \<lparr>priority = 0, kind = GOMP_TASK_WAITING, parent_depends_on = (x = 1 \<or> x = 2)\<rparr>"

definition three_list :: priority_list where
  "three_list = \<lparr>list_priority = 0, tasks = Some 1, last_parent_depends_on = Some 2\<rparr>"

lemma three_list_ok: "list_of_tasks ring_links three_list [1, 2, 3]"
  by (simp add: list_of_tasks_def ring_def ring_links_def three_list_def)

theorem verify_checks_order_witness: "priority_list_verify three_tasks True (ring_links, three_list) = Some True"
  using verify_checks_order [OF three_list_ok, of three_tasks]
  by (simp add: three_tasks_def queue_kind_def queue_order_def rank_def)

subsection \<open>Refinement by sequences\<close>

lemma memberE:
  assumes "list_of_tasks L l xs" and "n \<in> set xs"
  obtains us vs where "xs = us @ n # vs" "n \<notin> set us" "n \<notin> set vs" "distinct xs"
proof -
  have "distinct xs" using assms by (auto simp: list_of_tasks_def ring_def split: if_split_asm)
  moreover obtain us vs where "xs = us @ n # vs" using assms(2) by (meson split_list)
  ultimately show ?thesis using that by auto
qed

text \<open>
  C24. The four operations on a well-linked circular list of tasks, with all their pointer assignments, do to the sequence of its
  tasks what the functions on sequences do, keep it a well-linked ring, and write to no node but those of the list (and the one
  inserted). Insertion of a task that is not in the list: at the front or at the end, or behind the marked task when
  the call adjusts the mark and inserts at the front a task that is not awaited; in that case the mark has to be in the list
  (with a stale mark the code writes outside of the ring). Removal: takes the task out and reports whether
  the list is now empty. Upgrade: moves the task behind the marked task, or to the front when there is no mark; with
  a mark, the mark has to be another task of the list and the task not its head. Downgrade: moves the task to the end
  when it is the head or the task behind it is waiting, and leaves the list as it is otherwise.
\<close>

theorem task_list_refines_sequence:
  assumes "list_of_tasks L l xs"
  shows "(n \<notin> set xs \<and> member_or_none (insert_after pos adjust pdo l xs) xs \<longrightarrow>
       (case priority_list_insert n pos adjust pdo (L, l) of (L', l') \<Rightarrow>
          list_of_tasks L' l' (insert_task (insert_after pos adjust pdo l xs) pos n xs) \<and> same_outside (insert n (set xs)) L L'))
   \<and> (n \<in> set xs \<longrightarrow> (case priority_list_remove n (L, l) of (e, L', l') \<Rightarrow>
          list_of_tasks L' l' (remove1 n xs) \<and> (e \<longleftrightarrow> remove1 n xs = []) \<and> same_outside (set xs) L L'))
   \<and> (n \<in> set xs \<and> (\<forall>p. last_parent_depends_on l = Some p \<longrightarrow> hd xs \<noteq> n \<and> p \<in> set xs \<and> p \<noteq> n) \<longrightarrow>
       (case priority_list_upgrade_task n (L, l) of (L', l') \<Rightarrow>
          list_of_tasks L' l' (upgrade_task (last_parent_depends_on l) n xs) \<and> same_outside (set xs) L L'))
   \<and> (n \<in> set xs \<longrightarrow> (case priority_list_downgrade_task task n (L, l) of (L', l') \<Rightarrow>
          list_of_tasks L' l' (downgrade_task task n xs) \<and> same_outside (set xs) L L'))"
proof (intro conjI impI)
  assume n: "n \<notin> set xs \<and> member_or_none (insert_after pos adjust pdo l xs) xs"
  obtain L' l' where r: "priority_list_insert n pos adjust pdo (L, l) = (L', l')" by fastforce
  show "case priority_list_insert n pos adjust pdo (L, l) of (L', l') \<Rightarrow>
      list_of_tasks L' l' (insert_task (insert_after pos adjust pdo l xs) pos n xs) \<and> same_outside (insert n (set xs)) L L'"
    using priority_list_insert_ok(1,2) [OF assms _ _ r] n r by simp
next
  assume "n \<in> set xs"
  then obtain us vs where xs: "xs = us @ n # vs" "n \<notin> set us" using memberE [OF assms] by metis
  obtain e L' l' where r: "priority_list_remove n (L, l) = (e, L', l')" using prod_cases3 by blast
  have "same_outside (set xs) L L'"
    by (rule same_outside_mono [OF priority_list_remove_ok(3) [OF assms [unfolded xs(1)] r]]) (auto simp: xs)
  then show "case priority_list_remove n (L, l) of (e, L', l') \<Rightarrow>
      list_of_tasks L' l' (remove1 n xs) \<and> (e \<longleftrightarrow> remove1 n xs = []) \<and> same_outside (set xs) L L'"
    using priority_list_remove_ok(1,2) [OF assms [unfolded xs(1)] r] r by (simp add: xs(1) remove1_middle [OF xs(2)])
next
  assume n: "n \<in> set xs \<and> (\<forall>p. last_parent_depends_on l = Some p \<longrightarrow> hd xs \<noteq> n \<and> p \<in> set xs \<and> p \<noteq> n)"
  then obtain us vs where xs: "xs = us @ n # vs" "n \<notin> set us" using memberE [OF assms] by metis
  obtain L' l' where r: "priority_list_upgrade_task n (L, l) = (L', l')" by fastforce
  have "last_parent_depends_on l = Some p \<Longrightarrow> us \<noteq> [] \<and> p \<in> set (us @ vs)" for p using n xs(1) by (cases us) auto
  then show "case priority_list_upgrade_task n (L, l) of (L', l') \<Rightarrow>
      list_of_tasks L' l' (upgrade_task (last_parent_depends_on l) n xs) \<and> same_outside (set xs) L L'"
    using priority_list_upgrade_ok(1,2) [OF assms [unfolded xs(1)] _ r] r xs(1) by simp
next
  assume "n \<in> set xs"
  then obtain us vs where xs: "xs = us @ n # vs" using memberE [OF assms] by metis
  obtain L' l' where r: "priority_list_downgrade_task task n (L, l) = (L', l')" by fastforce
  show "case priority_list_downgrade_task task n (L, l) of (L', l') \<Rightarrow>
      list_of_tasks L' l' (downgrade_task task n xs) \<and> same_outside (set xs) L L'"
    using priority_list_downgrade_ok(1,2) [OF assms [unfolded xs] r] r xs by simp
qed

theorem task_list_refines_sequence_witness:
  "(case priority_list_insert 4 PRIORITY_INSERT_BEGIN True False (ring_links, three_list) of (L', l') \<Rightarrow>
      list_of_tasks L' l' [1, 2, 4, 3])
   \<and> (case priority_list_remove 1 (ring_links, three_list) of (e, L', l') \<Rightarrow> list_of_tasks L' l' [2, 3] \<and> \<not> e)
   \<and> (case priority_list_upgrade_task 3 (ring_links, three_list) of (L', l') \<Rightarrow> list_of_tasks L' l' [1, 2, 3])
   \<and> (case priority_list_downgrade_task three_tasks 2 (ring_links, three_list) of (L', l') \<Rightarrow> list_of_tasks L' l' [1, 3, 2])"
proof -
  note T = task_list_refines_sequence [OF three_list_ok]
  have a: "insert_after PRIORITY_INSERT_BEGIN True False three_list [1, 2, 3] = Some 2"
    by (simp add: insert_after_def three_list_def)
  have i: "insert_task (Some 2) PRIORITY_INSERT_BEGIN 4 [1, 2, 3] = [1, 2, 4, 3]"
    "upgrade_task (Some 2) 3 [1, 2, 3] = [1, 2, 3]" by (simp_all add: insert_task_def upgrade_task_def)
  have d: "downgrade_task three_tasks 2 [1, 2, 3] = [1, 3, 2]"
    by (simp add: downgrade_task_def three_tasks_def Let_def)
  have "case priority_list_insert 4 PRIORITY_INSERT_BEGIN True False (ring_links, three_list) of (L', l') \<Rightarrow>
      list_of_tasks L' l' [1, 2, 4, 3]"
    using T [of 4 PRIORITY_INSERT_BEGIN True False] by (auto simp: a i member_or_none_def simp del: One_nat_def)
  moreover have "case priority_list_remove 1 (ring_links, three_list) of (e, L', l') \<Rightarrow> list_of_tasks L' l' [2, 3] \<and> \<not> e"
    using T [of 1] by auto
  moreover have "case priority_list_upgrade_task 3 (ring_links, three_list) of (L', l') \<Rightarrow> list_of_tasks L' l' [1, 2, 3]"
    using T [of 3] i(2) by (auto simp: three_list_def)
  moreover have "case priority_list_downgrade_task three_tasks 2 (ring_links, three_list) of (L', l') \<Rightarrow> list_of_tasks L' l' [1, 3, 2]"
    using T [of 2 _ _ _ three_tasks] d by auto
  ultimately show ?thesis by blast
qed

subsection \<open>The order is kept\<close>

definition children_ok :: "(nat \<Rightarrow> gomp_task) \<Rightarrow> links \<Rightarrow> priority_list \<Rightarrow> nat list \<Rightarrow> bool" where
  "children_ok task L l xs \<longleftrightarrow> list_of_tasks L l xs \<and> queue_order task xs \<and> last_parent_depends_on l = marked task xs"

text \<open>The task behind the mark, the one case in which the mark is lost.\<close>

definition mark_lost :: "(nat \<Rightarrow> gomp_task) \<Rightarrow> nat \<Rightarrow> nat list \<Rightarrow> bool" where
  "mark_lost task n xs \<longleftrightarrow> marked task xs = Some n \<and> hd xs \<noteq> n
     \<and> (let after = tl (dropWhile (\<lambda>x. x \<noteq> n) xs) in after \<noteq> [] \<and> kind (task (hd after)) = GOMP_TASK_WAITING)"

lemma children_insert:
  assumes "children_ok task L l xs" and "n \<notin> set xs" and "kind (task n) = GOMP_TASK_WAITING"
    and "priority_list_insert n PRIORITY_INSERT_BEGIN True (parent_depends_on (task n)) (L, l) = (L', l')"
  shows "\<exists>xs'. children_ok task L' l' xs' \<and> set xs' = insert n (set xs)"
proof -
  have d: "distinct xs" using assms(1) by (auto simp: children_ok_def list_of_tasks_def ring_def split: if_split_asm)
  note k = insert_keeps_order [of task xs n l] and a = assms(1) [unfolded children_ok_def]
  note k' = k [OF conjunct1 [OF conjunct2 [OF a]] d assms(2,3) conjunct2 [OF conjunct2 [OF a]]]
  show ?thesis
    using priority_list_insert_ok [OF conjunct1 [OF a] assms(2) _ assms(4)] k' by (auto simp: children_ok_def)
qed

lemma children_upgrade:
  assumes "children_ok task L l xs" and "n \<in> set xs" and "kind (task n) = GOMP_TASK_WAITING" and "\<not> parent_depends_on (task n)"
    and "priority_list_upgrade_task n (L, l) = (L', l')"
  shows "\<exists>xs'. children_ok (set_parent_depends_on n task) L' l' xs' \<and> set xs' = set xs"
proof -
  have a: "list_of_tasks L l xs" "queue_order task xs" "last_parent_depends_on l = marked task xs"
    using assms(1) by (simp_all add: children_ok_def)
  obtain us vs where xs: "xs = us @ n # vs" "distinct xs" using memberE [OF a(1) assms(2)] by metis
  have r: "rank (task n) = 1" using assms(3,4) by (simp add: rank_def)
  note k = upgrade_keeps_order [OF a(2) [unfolded xs(1)] xs(2) [unfolded xs(1)] r a(3) [unfolded xs(1)]]
  show ?thesis
    using priority_list_upgrade_ok [OF a(1) [unfolded xs(1)] _ assms(5)] k unfolding children_ok_def xs(1) by metis
qed

lemma children_downgrade:
  assumes "children_ok task L l xs" and "n \<in> set xs" and "kind (task n) = GOMP_TASK_WAITING"
    and "priority_list_downgrade_task task n (L, l) = (L', l')"
  shows "\<exists>xs'. list_of_tasks L' l' xs' \<and> queue_order (set_tied n task) xs' \<and> set xs' = set xs
    \<and> last_parent_depends_on l' = (if mark_lost task n xs then None else marked (set_tied n task) xs')"
proof -
  have a: "list_of_tasks L l xs" "queue_order task xs" "last_parent_depends_on l = marked task xs"
    using assms(1) by (simp_all add: children_ok_def)
  obtain us vs where xs: "xs = us @ n # vs" "n \<notin> set us" "distinct xs" using memberE [OF a(1) assms(2)] by metis
  have dw: "dropWhile (\<lambda>x. x \<noteq> n) xs = n # vs" using xs(1,2) by (auto simp: dropWhile_append)
  have "hd xs = n \<longleftrightarrow> us = []" using xs(1,2) by (cases us) auto
  then have lost: "mark_lost task n xs \<longleftrightarrow> last_parent_depends_on l = Some n \<and> us \<noteq> [] \<and> vs \<noteq> [] \<and> kind (task (hd vs)) = GOMP_TASK_WAITING"
    by (simp add: mark_lost_def dw a(3))
  note k = downgrade_keeps_order [OF a(2) [unfolded xs(1)] xs(3) [unfolded xs(1)] assms(3) a(3) [unfolded xs(1)]]
  note o = priority_list_downgrade_ok [OF a(1) [unfolded xs(1)] assms(4)]
  show ?thesis
    by (rule exI [of _ "downgrade_task task n (us @ n # vs)"]) (use k o lost in \<open>simp add: xs(1)\<close>)
qed

text \<open>
  C25. The list of the children of a task stays in its documented order, tasks that the parent waits
  for before the other waiting ones before those that run, with the mark on the last awaited one:
  when a waiting task is inserted with the adjusting call, when a waiting task becomes awaited and
  is upgraded, and when a waiting task starts to run and is downgraded; only the mark can be lost,
  in the downgrade of the marked task when an awaited one is before it and a waiting one behind it.
\<close>

theorem children_order_kept:
  assumes "children_ok task L l xs" and "kind (task n) = GOMP_TASK_WAITING"
  shows "(n \<notin> set xs \<longrightarrow> (case priority_list_insert n PRIORITY_INSERT_BEGIN True (parent_depends_on (task n)) (L, l) of
       (L', l') \<Rightarrow> \<exists>xs'. children_ok task L' l' xs' \<and> set xs' = insert n (set xs)))
   \<and> (n \<in> set xs \<and> \<not> parent_depends_on (task n) \<longrightarrow> (case priority_list_upgrade_task n (L, l) of
       (L', l') \<Rightarrow> \<exists>xs'. children_ok (set_parent_depends_on n task) L' l' xs' \<and> set xs' = set xs))
   \<and> (n \<in> set xs \<longrightarrow> (case priority_list_downgrade_task task n (L, l) of
       (L', l') \<Rightarrow> \<exists>xs'. list_of_tasks L' l' xs' \<and> queue_order (set_tied n task) xs' \<and> set xs' = set xs
         \<and> (\<not> mark_lost task n xs \<longrightarrow> children_ok (set_tied n task) L' l' xs')))"
proof (intro conjI impI)
  assume "n \<notin> set xs"
  then show "case priority_list_insert n PRIORITY_INSERT_BEGIN True (parent_depends_on (task n)) (L, l) of
      (L', l') \<Rightarrow> \<exists>xs'. children_ok task L' l' xs' \<and> set xs' = insert n (set xs)"
    using children_insert [OF assms(1) _ assms(2)] by (auto split: prod.split)
next
  assume "n \<in> set xs \<and> \<not> parent_depends_on (task n)"
  then show "case priority_list_upgrade_task n (L, l) of
      (L', l') \<Rightarrow> \<exists>xs'. children_ok (set_parent_depends_on n task) L' l' xs' \<and> set xs' = set xs"
    using children_upgrade [OF assms(1) _ assms(2)] by (auto split: prod.split)
next
  assume n: "n \<in> set xs"
  obtain L' l' where r: "priority_list_downgrade_task task n (L, l) = (L', l')" by fastforce
  obtain xs' where "list_of_tasks L' l' xs'" "queue_order (set_tied n task) xs'" "set xs' = set xs"
    "last_parent_depends_on l' = (if mark_lost task n xs then None else marked (set_tied n task) xs')"
    using children_downgrade [OF assms(1) n assms(2) r] by blast
  then show "case priority_list_downgrade_task task n (L, l) of
      (L', l') \<Rightarrow> \<exists>xs'. list_of_tasks L' l' xs' \<and> queue_order (set_tied n task) xs' \<and> set xs' = set xs
        \<and> (\<not> mark_lost task n xs \<longrightarrow> children_ok (set_tied n task) L' l' xs')"
    using r by (auto simp: children_ok_def)
qed

theorem children_order_kept_witness:
  "case priority_list_downgrade_task three_tasks 1 (ring_links, three_list) of
     (L', l') \<Rightarrow> \<exists>xs'. children_ok (set_tied 1 three_tasks) L' l' xs' \<and> set xs' = {1, 2, 3}"
proof -
  have ok: "children_ok three_tasks ring_links three_list [1, 2, 3]"
    using three_list_ok
    by (simp add: children_ok_def queue_order_def marked_def three_tasks_def three_list_def rank_def)
  have lost: "\<not> mark_lost three_tasks 1 [1, 2, 3]" by (simp add: mark_lost_def)
  have k: "kind (three_tasks 1) = GOMP_TASK_WAITING" by (simp add: three_tasks_def)
  show ?thesis using children_order_kept [OF ok k] lost by (auto simp del: One_nat_def)
qed

text \<open>
  How the mark is lost, and what it costs: when the last awaited task of a list of children starts to
  run while an earlier awaited task and a later waiting one are in the list, the code looks for
  the new mark before the position the task has been moved to, the end of the list, finds a task that
  is not awaited and clears the mark although an awaited task is still waiting; the next waiting
  task that is inserted then goes in front of the awaited one, and the list violates the order that
  the checker demands.
\<close>

theorem lost_mark_breaks_order:
  assumes "children_ok task L l xs" and "n \<in> set xs" and "kind (task n) = GOMP_TASK_WAITING" and "mark_lost task n xs"
    and "kind (task q) = GOMP_TASK_WAITING" "\<not> parent_depends_on (task q)" "q \<notin> set xs"
    and "priority_list_downgrade_task task n (L, l) = (L1, l1)"
    and "priority_list_insert q PRIORITY_INSERT_BEGIN True False (L1, l1) = (L2, l2)"
  shows "last_parent_depends_on l1 = None
    \<and> (\<exists>ys. list_of_tasks L2 l2 ys \<and> set ys = insert q (set xs) \<and> \<not> queue_order (set_tied n task) ys)"
proof -
  obtain xs' where x: "list_of_tasks L1 l1 xs'" "queue_order (set_tied n task) xs'" "set xs' = set xs" "last_parent_depends_on l1 = None"
    using children_downgrade [OF assms(1-3,8)] assms(4) by auto
  have a: "insert_after PRIORITY_INSERT_BEGIN True False l1 xs' = None" by (simp add: insert_after_def x(4))
  then have "list_of_tasks L2 l2 (q # xs')"
    using priority_list_insert_ok(1) [OF x(1) _ _ assms(9)] x(3) assms(7) by (simp add: member_or_none_def insert_task_def)
  moreover have "\<exists>p \<in> set xs'. rank (set_tied n task p) = 0"
  proof -
    have ll: "list_of_tasks L l xs" "queue_order task xs" using assms(1) by (simp_all add: children_ok_def)
    then have "distinct xs" "xs \<noteq> []" using assms(2) by (auto simp: list_of_tasks_def ring_def split: if_split_asm)
    moreover have "marked task xs = Some n" "hd xs \<noteq> n" using assms(4) by (simp_all add: mark_lost_def)
    moreover have "marked task xs = None" if "rank (task (hd xs)) \<noteq> 0"
      using that \<open>xs \<noteq> []\<close> by (cases xs) (simp_all add: marked_def)
    ultimately have "rank (task (hd xs)) = 0" by fastforce
    then have "rank (set_tied n task (hd xs)) = 0" using \<open>hd xs \<noteq> n\<close> by (simp add: rank_upd(1))
    moreover have "hd xs \<in> set xs'" using \<open>xs \<noteq> []\<close> x(3) by simp
    ultimately show ?thesis by blast
  qed
  moreover have "rank (set_tied n task q) = 1" using assms(2,5,6,7) by (auto simp: set_tied_def rank_def)
  ultimately have "\<not> queue_order (set_tied n task) (q # xs')" by (fastforce simp: queue_order_def)
  then show ?thesis using x(3,4) \<open>list_of_tasks L2 l2 (q # xs')\<close> by (intro conjI exI [of _ "q # xs'"]) simp_all
qed

theorem lost_mark_breaks_order_witness:
  "case priority_list_downgrade_task three_tasks 2 (ring_links, three_list) of (L1, l1) \<Rightarrow>
   last_parent_depends_on l1 = None
   \<and> (case priority_list_insert 4 PRIORITY_INSERT_BEGIN True False (L1, l1) of (L2, l2) \<Rightarrow>
        \<exists>ys. list_of_tasks L2 l2 ys \<and> \<not> queue_order (set_tied 2 three_tasks) ys)"
proof -
  have ok: "children_ok three_tasks ring_links three_list [1, 2, 3]"
    using three_list_ok
    by (simp add: children_ok_def queue_order_def marked_def three_tasks_def three_list_def rank_def)
  have lost: "mark_lost three_tasks 2 [1, 2, 3]"
    by (simp add: mark_lost_def marked_def three_tasks_def rank_def)
  obtain L1 l1 where r1: "priority_list_downgrade_task three_tasks 2 (ring_links, three_list) = (L1, l1)" by fastforce
  obtain L2 l2 where r2: "priority_list_insert 4 PRIORITY_INSERT_BEGIN True False (L1, l1) = (L2, l2)" by fastforce
  have "kind (three_tasks 2) = GOMP_TASK_WAITING" "kind (three_tasks 4) = GOMP_TASK_WAITING" "\<not> parent_depends_on (three_tasks 4)"
    by (simp_all add: three_tasks_def)
  then show ?thesis using lost_mark_breaks_order [OF ok _ _ lost _ _ _ r1 r2] r1 r2 by auto
qed

end
