(* ===== verification/PriorityQueue.thy ===== *)
theory PriorityQueue
  imports SplayTree TaskOrder
begin

text \<open>
  The priority queues of tasks (\<open>gcc/libgomp/priority_queue.h\<close>, \<open>priority_queue.c\<close> and the wrappers in
  \<open>task.c\<close>): a single list while all priorities are zero, afterwards a splay tree of one list for
  each priority. A list found by a lookup is at the root of the tree, where it is updated in place.
  The result \<open>None\<close> is a fatal error or an access through a null pointer.
\<close>

definition prio_splay_compare :: "priority_list \<Rightarrow> priority_list \<Rightarrow> int" where
  "prio_splay_compare x y =
    (if list_priority x = list_priority y then 0 else if list_priority x < list_priority y then - 1 else 1)"

abbreviation any_key :: "priority_list \<Rightarrow> bool" where "any_key \<equiv> \<lambda>k. True"

interpretation prio: splay_key prio_splay_compare any_key any_key
  by unfold_locales (auto simp: prio_splay_compare_def split: if_splits)

record priority_queue =
  t_root :: "priority_list tree"
  pq_l :: priority_list

subsection \<open>Operations\<close>

definition priority_queue_multi_p :: "priority_queue \<Rightarrow> bool" where
  "priority_queue_multi_p q \<longleftrightarrow> t_root q \<noteq> Leaf"

definition priority_queue_init :: "priority_queue \<Rightarrow> priority_queue" where
  "priority_queue_init q = q\<lparr>t_root := Leaf, pq_l := (pq_l q)\<lparr>tasks := None, last_parent_depends_on := None\<rparr>\<rparr>"

definition priority_queue_empty_p :: "priority_queue \<Rightarrow> bool" where
  "priority_queue_empty_p q = (if priority_queue_multi_p q then t_root q = Leaf else tasks (pq_l q) = None)"

text \<open>Only the priority of the key is set before it is looked up.\<close>

definition priority_queue_lookup_priority :: "int \<Rightarrow> priority_queue \<Rightarrow> priority_list option \<times> priority_queue" where
  "priority_queue_lookup_priority prio q =
    (if t_root q = Leaf then (None, q)
     else
       let (r, t) = splay_tree_lookup prio_splay_compare
                      \<lparr>list_priority = prio, tasks = None, last_parent_depends_on = None\<rparr> (t_root q)
       in (r, q\<lparr>t_root := t\<rparr>))"

text \<open>Write the list at the root back.\<close>

definition set_root :: "priority_list \<Rightarrow> priority_queue \<Rightarrow> priority_queue" where
  "set_root k q = (case t_root q of Leaf \<Rightarrow> q | Node a _ b \<Rightarrow> q\<lparr>t_root := Node a k b\<rparr>)"

definition priority_tree_insert ::
  "nat \<Rightarrow> int \<Rightarrow> priority_insert_type \<Rightarrow> bool \<Rightarrow> bool \<Rightarrow> links \<times> priority_queue \<Rightarrow> (links \<times> priority_queue) option"
where
  "priority_tree_insert task prio pos adjust pdo s =
    (let (L, q) = s;
         moved =
           (if t_root q = Leaf \<and> tasks (pq_l q) \<noteq> None
            then map_option (\<lambda>t. q\<lparr>t_root := t, pq_l := (pq_l q)\<lparr>tasks := None\<rparr>\<rparr>)
                   (splay_tree_insert prio_splay_compare
                     \<lparr>list_priority = 0, tasks = tasks (pq_l q),
                      last_parent_depends_on = last_parent_depends_on (pq_l q)\<rparr> (t_root q))
            else Some q)
     in case moved of None \<Rightarrow> None | Some q1 \<Rightarrow>
       let (found, q2) = priority_queue_lookup_priority prio q1;
           k = \<lparr>list_priority = prio, tasks = None, last_parent_depends_on = None\<rparr>;
           placed =
             (case found of
                Some l \<Rightarrow> Some (l, q2)
              | None \<Rightarrow> map_option (\<lambda>t. (k, q2\<lparr>t_root := t\<rparr>)) (splay_tree_insert prio_splay_compare k (t_root q2)))
       in case placed of None \<Rightarrow> None | Some (l, q3) \<Rightarrow>
         let (L1, l1) = priority_list_insert task pos adjust pdo (L, l)
         in Some (L1, set_root l1 q3))"

definition priority_queue_insert ::
  "nat \<Rightarrow> int \<Rightarrow> priority_insert_type \<Rightarrow> bool \<Rightarrow> bool \<Rightarrow> links \<times> priority_queue \<Rightarrow> (links \<times> priority_queue) option"
where
  "priority_queue_insert task prio pos adjust pdo s =
    (let (L, q) = s in
     if priority_queue_multi_p q \<or> prio > 0 then priority_tree_insert task prio pos adjust pdo (L, q)
     else let (L1, l1) = priority_list_insert task pos adjust pdo (L, pq_l q) in Some (L1, q\<lparr>pq_l := l1\<rparr>))"

text \<open>\<open>prio\<close> is the priority of the task.\<close>

definition priority_tree_remove :: "nat \<Rightarrow> int \<Rightarrow> links \<times> priority_queue \<Rightarrow> (links \<times> priority_queue) option" where
  "priority_tree_remove node prio s =
    (let (L, q) = s in
     case priority_queue_lookup_priority prio q of
       (None, q1) \<Rightarrow> None
     | (Some l, q1) \<Rightarrow>
         let (e, L1, l1) = priority_list_remove node (L, l); q2 = set_root l1 q1 in
         if e then Some (L1, q2\<lparr>t_root := splay_tree_remove prio_splay_compare l1 (t_root q2)\<rparr>)
         else Some (L1, q2))"

definition priority_queue_remove :: "nat \<Rightarrow> int \<Rightarrow> links \<times> priority_queue \<Rightarrow> (bool \<times> links \<times> priority_queue) option" where
  "priority_queue_remove node prio s =
    (let (L, q) = s in
     if priority_queue_multi_p q then
       map_option (\<lambda>(L1, q1). (t_root q1 = Leaf, L1, q1)) (priority_tree_remove node prio (L, q))
     else let (e, L1, l1) = priority_list_remove node (L, pq_l q) in Some (e, L1, q\<lparr>pq_l := l1\<rparr>))"

text \<open>The two wrappers of \<open>task.c\<close>; \<open>f\<close> is the operation on the list.\<close>

definition on_priority_list ::
  "int \<Rightarrow> (links \<times> priority_list \<Rightarrow> links \<times> priority_list) \<Rightarrow> links \<times> priority_queue \<Rightarrow> (links \<times> priority_queue) option"
where
  "on_priority_list prio f s =
    (let (L, q) = s in
     if priority_queue_multi_p q then
       (case priority_queue_lookup_priority prio q of
          (None, q1) \<Rightarrow> None
        | (Some l, q1) \<Rightarrow> let (L1, l1) = f (L, l) in Some (L1, set_root l1 q1))
     else let (L1, l1) = f (L, pq_l q) in Some (L1, q\<lparr>pq_l := l1\<rparr>))"

definition priority_queue_upgrade_task :: "nat \<Rightarrow> int \<Rightarrow> links \<times> priority_queue \<Rightarrow> (links \<times> priority_queue) option" where
  "priority_queue_upgrade_task task prio = on_priority_list prio (priority_list_upgrade_task task)"

definition priority_queue_downgrade_task ::
  "(nat \<Rightarrow> gomp_task) \<Rightarrow> nat \<Rightarrow> links \<times> priority_queue \<Rightarrow> (links \<times> priority_queue) option"
where
  "priority_queue_downgrade_task task n = on_priority_list (priority (task n)) (priority_list_downgrade_task task n)"

text \<open>The search for the next task to run. Every list of the tree has a task.\<close>

fun priority_tree_next_task_1 :: "(nat \<Rightarrow> gomp_task) \<Rightarrow> priority_list tree \<Rightarrow> nat option" where
  "priority_tree_next_task_1 task Leaf = None"
| "priority_tree_next_task_1 task (Node l k r) =
    (case priority_tree_next_task_1 task r of
       Some ret \<Rightarrow> Some ret
     | None \<Rightarrow>
         let ret = the (tasks k) in
         if kind (task ret) = GOMP_TASK_WAITING then Some ret else priority_tree_next_task_1 task l)"

text \<open>The task and whether it is of the first queue; \<open>q2\<close> may be null.\<close>

definition priority_tree_next_task ::
  "(nat \<Rightarrow> gomp_task) \<Rightarrow> priority_queue \<Rightarrow> priority_queue option \<Rightarrow> nat option \<times> bool"
where
  "priority_tree_next_task task q1 q2 =
    (let t1 = priority_tree_next_task_1 task (t_root q1) in
     case (t1, q2) of
       (Some a, Some q) \<Rightarrow>
         (case priority_tree_next_task_1 task (t_root q) of
            None \<Rightarrow> (t1, True)
          | Some b \<Rightarrow>
              if priority (task a) > priority (task b) then (Some a, True)
              else if priority (task b) > priority (task a) then (Some b, False)
              else if parent_depends_on (task b) \<and> \<not> parent_depends_on (task a) then (Some b, False)
              else (Some a, True))
     | _ \<Rightarrow> (t1, True))"

definition priority_queue_next_task ::
  "(nat \<Rightarrow> gomp_task) \<Rightarrow> priority_queue \<Rightarrow> priority_queue option \<Rightarrow> nat option \<times> bool"
where
  "priority_queue_next_task task q1 q2 =
    (case t_root q1 of
       Leaf \<Rightarrow> (tasks (pq_l q1), True)
     | Node _ k _ \<Rightarrow>
         (case priority_tree_next_task task q1 q2 of
            (Some t, c) \<Rightarrow> (Some t, c)
          | (None, c) \<Rightarrow> (tasks k, c)))"

subsection \<open>The lists of a queue\<close>

text \<open>\<open>m p\<close> is the sequence of the tasks of priority \<open>p\<close>.\<close>

definition pq_ok :: "links \<Rightarrow> priority_queue \<Rightarrow> (int \<Rightarrow> nat list) \<Rightarrow> bool" where
  "pq_ok L q m \<longleftrightarrow>
    (if t_root q = Leaf then list_of_tasks L (pq_l q) (m 0) \<and> (\<forall>p. p \<noteq> 0 \<longrightarrow> m p = [])
     else search_tree prio_splay_compare any_key (t_root q) \<and> tasks (pq_l q) = None
       \<and> (\<forall>k \<in> set_tree (t_root q). m (list_priority k) \<noteq> [] \<and> list_of_tasks L k (m (list_priority k)))
       \<and> (\<forall>p. p \<notin> list_priority ` set_tree (t_root q) \<longrightarrow> m p = []))
    \<and> (\<forall>p p'. p \<noteq> p' \<longrightarrow> set (m p) \<inter> set (m p') = {})"

lemma prio_compare_0 [simp]: "prio_splay_compare x y = 0 \<longleftrightarrow> list_priority x = list_priority y"
  by (simp add: prio_splay_compare_def)

lemma prio_compare_less [simp]: "prio_splay_compare x y < 0 \<longleftrightarrow> list_priority x < list_priority y"
  by (simp add: prio_splay_compare_def)

lemma root_priority:
  assumes "search_tree prio_splay_compare any_key (Node a k b)"
  shows "x \<in> set_tree a \<or> x \<in> set_tree b \<Longrightarrow> list_priority x \<noteq> list_priority k"
  using assms by (auto simp: prio.ok_Node)

text \<open>The tree depends on the priorities of its keys only.\<close>

lemma search_tree_root:
  assumes "search_tree prio_splay_compare any_key (Node a k b)" and "list_priority k' = list_priority k"
  shows "search_tree prio_splay_compare any_key (Node a k' b)"
  using assms by (simp add: prio.ok_Node)

lemma pq_key: "pq_ok L q m \<Longrightarrow> x \<in> set_tree (t_root q) \<Longrightarrow> m (list_priority x) \<noteq> [] \<and> list_of_tasks L x (m (list_priority x))"
  by (cases "t_root q") (auto simp: pq_ok_def)

lemma pq_no_key:
  "pq_ok L q m \<Longrightarrow> tasks (pq_l q) = None \<Longrightarrow> p \<notin> list_priority ` set_tree (t_root q) \<Longrightarrow> m p = []"
  by (cases "p = 0") (auto simp: pq_ok_def list_of_tasks_def split: if_split_asm)

text \<open>A lookup brings the list of the priority to the root and changes no contents.\<close>

lemma lookup_priority:
  assumes "pq_ok L q m" and "t_root q \<noteq> Leaf" and "priority_queue_lookup_priority p q = (r, q')"
  shows "pq_ok L q' m" and "pq_l q' = pq_l q" and "t_root q' \<noteq> Leaf"
    and "r = Some l \<Longrightarrow> list_priority l = p \<and> (\<exists>a b. t_root q' = Node a l b)"
    and "r = None \<Longrightarrow> p \<notin> list_priority ` set_tree (t_root q')"
proof -
  let ?k = "\<lparr>list_priority = p, tasks = None, last_parent_depends_on = None\<rparr>"
  have ok: "search_tree prio_splay_compare any_key (t_root q)" using assms(1,2) by (simp add: pq_ok_def)
  obtain t where t: "splay_tree_lookup prio_splay_compare ?k (t_root q) = (r, t)" "q' = q\<lparr>t_root := t\<rparr>"
    using assms(2,3) by (auto simp: priority_queue_lookup_priority_def split: prod.splits)
  note s = prio.lookup_spec [OF ok _ t(1)]
  have io: "inorder t = inorder (t_root q)" using s(1) by simp
  then have st: "set_tree t = set_tree (t_root q)" "search_tree prio_splay_compare any_key t"
    using ok by (simp_all add: search_tree_def flip: set_inorder)
  have ne: "t \<noteq> Leaf" using io assms(2) by (metis inorder.simps(1) inorder.simps(2) snoc_eq_iff_butlast append_is_Nil_conv list.distinct(1) tree.exhaust)
  show "pq_ok L q' m" using assms(1,2) st ne by (simp add: pq_ok_def t(2))
  show "pq_l q' = pq_l q" "t_root q' \<noteq> Leaf" using ne by (simp_all add: t(2))
  show "r = Some l \<Longrightarrow> list_priority l = p \<and> (\<exists>a b. t_root q' = Node a l b)" using s(2) by (auto simp: t(2))
  show "r = None \<Longrightarrow> p \<notin> list_priority ` set_tree (t_root q')" using s(3) st(1) by (auto simp: t(2))
qed

text \<open>Updating the list at the root.\<close>

lemma update_root:
  assumes "pq_ok L q m" and "t_root q = Node a k b" and "list_priority k' = list_priority k"
    and "list_of_tasks L' k' xs" and "xs \<noteq> []" and "same_outside X L L'"
    and "\<And>p. p \<noteq> list_priority k \<Longrightarrow> set (m p) \<inter> (X \<union> set xs) = {}"
  shows "pq_ok L' (set_root k' q) (m(list_priority k := xs))"
proof -
  let ?m = "m(list_priority k := xs)"
  have q: "search_tree prio_splay_compare any_key (Node a k b)" "tasks (pq_l q) = None"
    "\<And>x. x \<in> set_tree (Node a k b) \<Longrightarrow> m (list_priority x) \<noteq> [] \<and> list_of_tasks L x (m (list_priority x))"
    "\<And>p. p \<notin> list_priority ` set_tree (Node a k b) \<Longrightarrow> m p = []"
    "\<And>p p'. p \<noteq> p' \<Longrightarrow> set (m p) \<inter> set (m p') = {}"
    using assms(1,2) by (auto simp: pq_ok_def)
  have r: "set_root k' q = q\<lparr>t_root := Node a k' b\<rparr>" using assms(2) by (simp add: set_root_def)
  have "?m (list_priority x) \<noteq> [] \<and> list_of_tasks L' x (?m (list_priority x))" if "x \<in> set_tree (Node a k' b)" for x
  proof (cases "x = k'")
    case True
    then show ?thesis using assms(3-5) by simp
  next
    case False
    then have x: "x \<in> set_tree a \<or> x \<in> set_tree b" using that by auto
    then have p: "list_priority x \<noteq> list_priority k" using root_priority [OF q(1)] by blast
    then have "set (m (list_priority x)) \<inter> X = {}" using assms(7) by blast
    then show ?thesis using q(3) [of x] x p list_of_tasks_frame [OF assms(6)] by auto
  qed
  moreover have "?m p = []" if "p \<notin> list_priority ` set_tree (Node a k' b)" for p
    using that q(4) [of p] assms(3) by auto
  moreover have "set (?m p) \<inter> set (?m p') = {}" if "p \<noteq> p'" for p p'
    using that q(5) [of p p'] assms(7) [of p] assms(7) [of p'] by auto
  ultimately show ?thesis using search_tree_root [OF q(1) assms(3)] q(2) by (simp add: pq_ok_def r)
qed

text \<open>A list that receives a task.\<close>

definition placed :: "bool \<Rightarrow> priority_insert_type \<Rightarrow> nat \<Rightarrow> nat list \<Rightarrow> nat list \<Rightarrow> bool" where
  "placed adjust pos n xs ys \<longleftrightarrow> n \<in> set ys \<and> remove1 n ys = xs
     \<and> (\<not> adjust \<longrightarrow> ys = (if pos = PRIORITY_INSERT_BEGIN then n # xs else xs @ [n]))"

lemma placed_set: "placed adjust pos n xs ys \<Longrightarrow> ys \<noteq> [] \<and> set ys = insert n (set xs)"
  using in_set_remove1 [of _ n ys] set_remove1_subset [of n ys] unfolding placed_def by auto

lemma insert_into_list:
  assumes "list_of_tasks L l xs" and "n \<notin> set xs" and "adjust \<and> xs \<noteq> [] \<longrightarrow> member_or_none (last_parent_depends_on l) xs"
    and "priority_list_insert n pos adjust pdo (L, l) = (L', l')"
  obtains ys where "list_of_tasks L' l' ys" "placed adjust pos n xs ys" "same_outside (insert n (set xs)) L L'"
    "list_priority l' = list_priority l"
proof -
  let ?after = "insert_after pos adjust pdo l xs"
  have m: "member_or_none ?after xs" using assms(3) by (auto simp: insert_after_def member_or_none_def)
  note ok = priority_list_insert_ok [OF assms(1,2) m assms(4)]
  have "placed adjust pos n xs (insert_task ?after pos n xs)"
  proof (cases ?after)
    case None
    then show ?thesis using assms(2) by (simp add: placed_def insert_task_def remove1_append)
  next
    case (Some p)
    then have "p \<in> set xs" "adjust" using m by (auto simp: member_or_none_def insert_after_def split: if_split_asm)
    then obtain us vs where xs: "xs = us @ p # vs" "p \<notin> set us" by (meson split_list_first)
    then show ?thesis using Some assms(2) \<open>adjust\<close> insert_task_after [OF xs(2)]
      by (auto simp: placed_def remove1_append)
  qed
  then show ?thesis using that ok(1,2,4) by blast
qed

definition marks_ok :: "priority_queue \<Rightarrow> (int \<Rightarrow> nat list) \<Rightarrow> bool" where
  "marks_ok q m \<longleftrightarrow>
    (if t_root q = Leaf then m 0 \<noteq> [] \<longrightarrow> member_or_none (last_parent_depends_on (pq_l q)) (m 0)
     else \<forall>k \<in> set_tree (t_root q). member_or_none (last_parent_depends_on k) (m (list_priority k)))"

text \<open>The first part of \<open>priority_tree_insert\<close>: a plain list becomes the tree of one key.\<close>

lemma pq_ok_transfer:
  assumes "pq_ok L q m" and "t_root q = Leaf" and "tasks (pq_l q) \<noteq> None"
  defines "k \<equiv> \<lparr>list_priority = 0, tasks = tasks (pq_l q), last_parent_depends_on = last_parent_depends_on (pq_l q)\<rparr>"
  shows "pq_ok L (q\<lparr>t_root := Node Leaf k Leaf, pq_l := (pq_l q)\<lparr>tasks := None\<rparr>\<rparr>) m"
    and "marks_ok q m \<Longrightarrow> marks_ok (q\<lparr>t_root := Node Leaf k Leaf, pq_l := (pq_l q)\<lparr>tasks := None\<rparr>\<rparr>) m"
proof -
  have m: "list_of_tasks L (pq_l q) (m 0)" "\<And>p. p \<noteq> 0 \<Longrightarrow> m p = []" using assms(1,2) by (simp_all add: pq_ok_def)
  have ne: "m 0 \<noteq> []" using m(1) assms(3) by (auto simp: list_of_tasks_def)
  have "list_of_tasks L k (m 0)" using m(1) by (simp add: list_of_tasks_def k_def)
  then show "pq_ok L (q\<lparr>t_root := Node Leaf k Leaf, pq_l := (pq_l q)\<lparr>tasks := None\<rparr>\<rparr>) m"
    using assms(1) m(2) ne by (simp add: pq_ok_def k_def search_tree_def)
  show "marks_ok q m \<Longrightarrow> marks_ok (q\<lparr>t_root := Node Leaf k Leaf, pq_l := (pq_l q)\<lparr>tasks := None\<rparr>\<rparr>) m"
    using ne assms(2) by (simp add: marks_ok_def k_def)
qed

lemma pq_disjoint: "pq_ok L q m \<Longrightarrow> p \<noteq> p' \<Longrightarrow> set (m p) \<inter> set (m p') = {}"
  by (simp add: pq_ok_def)

text \<open>A queue in tree form, or an empty one, receives a task.\<close>

lemma insert_in_tree:
  assumes "pq_ok L q m" and "tasks (pq_l q) = None" and "\<forall>p. n \<notin> set (m p)" and "adjust \<longrightarrow> marks_ok q m"
  shows "\<exists>L' q' ys. priority_tree_insert n prio pos adjust pdo (L, q) = Some (L', q') \<and> pq_ok L' q' (m(prio := ys))
    \<and> placed adjust pos n (m prio) ys"
proof -
  let ?k = "\<lparr>list_priority = prio, tasks = None, last_parent_depends_on = None\<rparr>"
  obtain r q2 where lk: "priority_queue_lookup_priority prio q = (r, q2)" by fastforce
  have step: "priority_tree_insert n prio pos adjust pdo (L, q) =
    (case (case r of Some l \<Rightarrow> Some (l, q2)
           | None \<Rightarrow> map_option (\<lambda>t. (?k, q2\<lparr>t_root := t\<rparr>)) (splay_tree_insert prio_splay_compare ?k (t_root q2))) of
       None \<Rightarrow> None
     | Some (l, q3) \<Rightarrow> let (L1, l1) = priority_list_insert n pos adjust pdo (L, l) in Some (L1, set_root l1 q3))"
    unfolding priority_tree_insert_def Let_def using assms(2) by (simp add: lk)
  show ?thesis
  proof (cases r)
    case (Some l)
    have ne: "t_root q \<noteq> Leaf" using lk Some by (auto simp: priority_queue_lookup_priority_def split: if_split_asm)
    note lp = lookup_priority [OF assms(1) ne lk]
    obtain a b where root: "t_root q2 = Node a l b" "list_priority l = prio" using lp(4) [OF Some] by auto
    have l: "list_of_tasks L l (m prio)" using lp(1) root by (auto simp: pq_ok_def)
    have "set_tree (t_root q2) = set_tree (t_root q)"
      using lk ne prio.lookup_spec(1) [of "t_root q" ?k] assms(1)
      by (auto simp: priority_queue_lookup_priority_def pq_ok_def simp flip: set_inorder split: prod.splits)
    then have mk: "adjust \<and> m prio \<noteq> [] \<longrightarrow> member_or_none (last_parent_depends_on l) (m prio)"
      using assms(4) ne root by (auto simp: marks_ok_def)
    obtain L1 l1 where i: "priority_list_insert n pos adjust pdo (L, l) = (L1, l1)" by fastforce
    obtain ys where ys: "list_of_tasks L1 l1 ys" "placed adjust pos n (m prio) ys" "same_outside (insert n (set (m prio))) L L1"
      "list_priority l1 = list_priority l"
      by (rule insert_into_list [OF l _ mk i]) (use assms(3) in auto)
    have "pq_ok L1 (set_root l1 q2) (m(list_priority l := ys))"
      by (rule update_root [OF lp(1) root(1) ys(4,1) _ ys(3)])
        (use placed_set [OF ys(2)] pq_disjoint [OF assms(1)] assms(3) root(2) in auto)
    then show ?thesis using step Some i root(2) ys(2) by auto
  next
    case None
    have q2: "pq_ok L q2 m" "m prio = []" "search_tree prio_splay_compare any_key (t_root q2)"
      "\<forall>x \<in> set_tree (t_root q2). prio_splay_compare ?k x \<noteq> 0" "tasks (pq_l q2) = None"
    proof -
      have "pq_ok L q2 m \<and> m prio = [] \<and> search_tree prio_splay_compare any_key (t_root q2)
        \<and> prio \<notin> list_priority ` set_tree (t_root q2) \<and> tasks (pq_l q2) = None"
      proof (cases "t_root q = Leaf")
        case True
        then have "q2 = q" using lk by (simp add: priority_queue_lookup_priority_def)
        moreover have "m 0 = []" using assms(1,2) True by (auto simp: pq_ok_def list_of_tasks_def split: if_split_asm)
        ultimately show ?thesis using assms(1,2) True by (cases "prio = 0") (auto simp: pq_ok_def search_tree_def)
      next
        case False
        note lp = lookup_priority [OF assms(1) False lk]
        show ?thesis using lp(1,2,3) lp(5) [OF None] assms(2) by (simp add: pq_ok_def)
      qed
      then show "pq_ok L q2 m" "m prio = []" "search_tree prio_splay_compare any_key (t_root q2)"
        "\<forall>x \<in> set_tree (t_root q2). prio_splay_compare ?k x \<noteq> 0" "tasks (pq_l q2) = None"
        by (auto simp: image_iff)
    qed
    obtain a b where ins: "splay_tree_insert prio_splay_compare ?k (t_root q2) = Some (Node a ?k b)"
      "search_tree prio_splay_compare any_key (Node a ?k b)" "set_tree (Node a ?k b) = insert ?k (set_tree (t_root q2))"
      by (rule prio.insert_new [OF q2(3) _ q2(4)]) auto
    obtain L1 l1 where i: "priority_list_insert n pos adjust pdo (L, ?k) = (L1, l1)" by fastforce
    have "list_of_tasks L ?k []" by (simp add: list_of_tasks_def)
    then obtain ys where ys: "list_of_tasks L1 l1 ys" "placed adjust pos n [] ys" "same_outside (insert n (set [])) L L1"
      "list_priority l1 = prio"
      by (rule insert_into_list [OF _ _ _ i]) auto
    have root: "set_root l1 (q2\<lparr>t_root := Node a ?k b\<rparr>) = q2\<lparr>t_root := Node a l1 b\<rparr>" by (simp add: set_root_def)
    have nk: "list_priority x \<noteq> prio" if "x \<in> set_tree a \<or> x \<in> set_tree b" for x
      using root_priority [OF ins(2) that] by simp
    have mem: "x \<in> set_tree (t_root q2)" if "x \<in> set_tree a \<or> x \<in> set_tree b" for x
    proof -
      have "x \<in> insert ?k (set_tree (t_root q2))" using that unfolding ins(3) [symmetric] by auto
      moreover have "x \<noteq> ?k" using nk [OF that] by auto
      ultimately show ?thesis by blast
    qed
    have other: "m (list_priority x) \<noteq> [] \<and> list_of_tasks L1 x (m (list_priority x))" if "x \<in> set_tree a \<or> x \<in> set_tree b" for x
    proof -
      have x: "x \<in> set_tree (t_root q2)" by (rule mem [OF that])
      then have "m (list_priority x) \<noteq> [] \<and> list_of_tasks L x (m (list_priority x))" by (rule pq_key [OF q2(1)])
      then show ?thesis using list_of_tasks_frame [OF ys(3), of "m (list_priority x)" x] assms(3) by auto
    qed
    have "m p = []" if "p \<noteq> prio" "p \<notin> list_priority ` (set_tree a \<union> set_tree b)" for p
    proof -
      have "set_tree (t_root q2) \<subseteq> insert ?k (set_tree a \<union> set_tree b)" using ins(3) by auto
      then have "p \<notin> list_priority ` set_tree (t_root q2)" using that by auto
      then show ?thesis by (rule pq_no_key [OF q2(1,5)])
    qed
    then have "pq_ok L1 (q2\<lparr>t_root := Node a l1 b\<rparr>) (m(prio := ys))"
      using search_tree_root [OF ins(2), of l1] ys(1,4) placed_set [OF ys(2)] other nk q2(5) pq_disjoint [OF q2(1)] assms(3)
      by (auto simp: pq_ok_def)
    then show ?thesis using step None ins(1) i root q2(2) ys(2) by auto
  qed
qed

lemma priority_queue_insert_ok:
  assumes "pq_ok L q m" and "\<forall>p. n \<notin> set (m p)" and "adjust \<longrightarrow> marks_ok q m" and "0 \<le> prio"
  shows "\<exists>L' q' ys. priority_queue_insert n prio pos adjust pdo (L, q) = Some (L', q') \<and> pq_ok L' q' (m(prio := ys))
    \<and> placed adjust pos n (m prio) ys"
proof (cases "priority_queue_multi_p q \<or> prio > 0")
  case tree: True
  show ?thesis
  proof (cases "tasks (pq_l q) = None")
    case True
    then show ?thesis using insert_in_tree [OF assms(1) True assms(2,3)] tree by (simp add: priority_queue_insert_def)
  next
    case False
    then have leaf: "t_root q = Leaf" using assms(1) by (auto simp: pq_ok_def split: if_split_asm)
    let ?k = "\<lparr>list_priority = 0, tasks = tasks (pq_l q), last_parent_depends_on = last_parent_depends_on (pq_l q)\<rparr>"
    let ?q = "q\<lparr>t_root := Node Leaf ?k Leaf, pq_l := (pq_l q)\<lparr>tasks := None\<rparr>\<rparr>"
    have "splay_tree_insert prio_splay_compare ?k Leaf = Some (Node Leaf ?k Leaf)"
      by (simp add: splay_tree_insert_def splay_tree_splay.simps splay_step_def)
    then have "priority_tree_insert n prio pos adjust pdo (L, q) = priority_tree_insert n prio pos adjust pdo (L, ?q)"
      using leaf False by (simp add: priority_tree_insert_def)
    moreover note insert_in_tree [OF pq_ok_transfer(1) [OF assms(1) leaf False] _ assms(2), of adjust prio pos pdo]
    ultimately show ?thesis
      using pq_ok_transfer(2) [OF assms(1) leaf False] assms(3) tree by (simp add: priority_queue_insert_def)
  qed
next
  case False
  then have leaf: "t_root q = Leaf" and p: "prio = 0" using assms(4) by (simp_all add: priority_queue_multi_p_def)
  have m: "list_of_tasks L (pq_l q) (m 0)" "\<And>p. p \<noteq> 0 \<Longrightarrow> m p = []" using assms(1) leaf by (simp_all add: pq_ok_def)
  obtain L1 l1 where i: "priority_list_insert n pos adjust pdo (L, pq_l q) = (L1, l1)" by fastforce
  obtain ys where ys: "list_of_tasks L1 l1 ys" "placed adjust pos n (m 0) ys"
    by (rule insert_into_list [OF m(1) _ _ i]) (use assms(2,3) leaf in \<open>auto simp: marks_ok_def\<close>)
  have "pq_ok L1 (q\<lparr>pq_l := l1\<rparr>) (m(0 := ys))" using ys(1) m(2) leaf by (simp add: pq_ok_def)
  then show ?thesis using False i ys(2) p by (auto simp: priority_queue_insert_def)
qed

text \<open>Removal of a task of the queue.\<close>

lemma tree_without_root:
  assumes "search_tree prio_splay_compare any_key (Node a k b)"
  shows "search_tree prio_splay_compare any_key (splay_tree_remove prio_splay_compare k (Node a k b))"
    and "set_tree (splay_tree_remove prio_splay_compare k (Node a k b)) = set_tree a \<union> set_tree b"
proof -
  have nk: "list_priority x \<noteq> list_priority k" if "x \<in> set_tree a \<or> x \<in> set_tree b" for x
    by (rule root_priority [OF assms that])
  show "search_tree prio_splay_compare any_key (splay_tree_remove prio_splay_compare k (Node a k b))"
    by (rule prio.remove_spec(1) [OF assms]) simp
  have "set_tree (splay_tree_remove prio_splay_compare k (Node a k b)) = set_tree (Node a k b) - {k}"
    by (rule prio.remove_spec(3) [OF assms]) (use nk in fastforce)+
  then show "set_tree (splay_tree_remove prio_splay_compare k (Node a k b)) = set_tree a \<union> set_tree b"
    using nk by auto
qed

lemma priority_tree_remove_ok:
  assumes "pq_ok L q m" and "t_root q \<noteq> Leaf" and "n \<in> set (m prio)"
  shows "\<exists>L' q'. priority_tree_remove n prio (L, q) = Some (L', q') \<and> pq_ok L' q' (m(prio := remove1 n (m prio)))
    \<and> tasks (pq_l q') = None"
proof -
  obtain r q1 where lk: "priority_queue_lookup_priority prio q = (r, q1)" by fastforce
  note lp = lookup_priority [OF assms(1,2) lk]
  have tl: "tasks (pq_l q1) = None" using assms(1,2) lp(2) by (simp add: pq_ok_def)
  have "r \<noteq> None"
  proof
    assume "r = None"
    then have "m prio = []" using pq_no_key [OF lp(1) tl] lp(5) by blast
    then show False using assms(3) by simp
  qed
  then obtain l where l: "r = Some l" by blast
  then obtain a b where root: "t_root q1 = Node a l b" "list_priority l = prio" using lp(4) by auto
  have lt: "list_of_tasks L l (m prio)" using pq_key [OF lp(1), of l] root by simp
  obtain us vs where xs: "m prio = us @ n # vs" "n \<notin> set us" using memberE [OF lt assms(3)] by metis
  obtain e L1 l1 where rm: "priority_list_remove n (L, l) = (e, L1, l1)" using prod_cases3 by blast
  note ok = priority_list_remove_ok [OF lt [unfolded xs(1)] rm]
  have rest: "remove1 n (m prio) = us @ vs" using xs by (simp add: remove1_append)
  have dis: "set (m p) \<inter> (set (us @ vs) \<union> set (us @ vs)) = {}" if "p \<noteq> prio" for p
    using pq_disjoint [OF assms(1) that] xs(1) by auto
  show ?thesis
  proof (cases e)
    case False
    have "pq_ok L1 (set_root l1 q1) (m(list_priority l := us @ vs))"
      by (rule update_root [OF lp(1) root(1) ok(5,1) _ ok(3)]) (use False ok(2) dis root(2) in auto)
    moreover have "tasks (pq_l (set_root l1 q1)) = None" using tl by (simp add: set_root_def split: tree.split)
    ultimately show ?thesis using lk l rm False rest root(2) by (simp add: priority_tree_remove_def)
  next
    case True
    then have e: "us @ vs = []" using ok(2) by simp
    have s: "search_tree prio_splay_compare any_key (Node a l1 b)"
      using search_tree_root [of a l b l1] lp(1) root(1) ok(5) by (simp add: pq_ok_def)
    define t where "t = splay_tree_remove prio_splay_compare l1 (Node a l1 b)"
    have t: "search_tree prio_splay_compare any_key t" "set_tree t = set_tree a \<union> set_tree b"
      using tree_without_root [OF s] by (simp_all add: t_def)
    let ?q = "q1\<lparr>t_root := t\<rparr>"
    have nk: "list_priority x \<noteq> prio" if "x \<in> set_tree t" for x
      using root_priority [OF s, of x] that t(2) root(2) ok(5) by auto
    have keys: "(m(prio := [])) (list_priority x) \<noteq> [] \<and> list_of_tasks L1 x ((m(prio := [])) (list_priority x))" if "x \<in> set_tree t" for x
    proof -
      have "x \<in> set_tree (t_root q1)" using that t(2) root(1) by auto
      then show ?thesis using pq_key [OF lp(1)] nk [OF that] list_of_tasks_frame [OF ok(3)] e by auto
    qed
    have empty: "(m(prio := [])) p = []" if "p \<notin> list_priority ` set_tree t" for p
      using pq_no_key [OF lp(1) tl, of p] that t(2) root by auto
    have d: "set ((m(prio := [])) p) \<inter> set ((m(prio := [])) p') = {}" if "p \<noteq> p'" for p p'
      using pq_disjoint [OF assms(1) that] by auto
    have "pq_ok L1 ?q (m(prio := []))"
    proof (cases "t = Leaf")
      case True
      then have "(m(prio := [])) p = []" for p using empty [of p] by simp
      then have "m(prio := []) = (\<lambda>p. [])" by blast
      then show ?thesis using True tl by (simp add: pq_ok_def list_of_tasks_def)
    next
      case False
      then show ?thesis using t(1) keys empty d tl by (simp add: pq_ok_def)
    qed
    moreover have "priority_tree_remove n prio (L, q) = Some (L1, ?q)"
      using lk l rm True root(1) by (simp add: priority_tree_remove_def set_root_def t_def)
    ultimately show ?thesis using rest e tl by simp
  qed
qed

lemma priority_queue_remove_ok:
  assumes "pq_ok L q m" and "n \<in> set (m prio)"
  shows "\<exists>e L' q'. priority_queue_remove n prio (L, q) = Some (e, L', q') \<and> pq_ok L' q' (m(prio := remove1 n (m prio)))
    \<and> (e \<longleftrightarrow> (\<forall>p. (m(prio := remove1 n (m prio))) p = []))"
proof (cases "t_root q = Leaf")
  case True
  have p: "prio = 0" and m: "list_of_tasks L (pq_l q) (m 0)" "\<And>p. p \<noteq> 0 \<Longrightarrow> m p = []"
    using assms True by (auto simp: pq_ok_def)
  obtain us vs where xs: "m 0 = us @ n # vs" "n \<notin> set us" using memberE [OF m(1)] assms(2) p by metis
  obtain e L1 l1 where rm: "priority_list_remove n (L, pq_l q) = (e, L1, l1)" using prod_cases3 by blast
  note ok = priority_list_remove_ok [OF m(1) [unfolded xs(1)] rm]
  have rest: "remove1 n (m 0) = us @ vs" using xs by (simp add: remove1_append)
  have "pq_ok L1 (q\<lparr>pq_l := l1\<rparr>) (m(0 := us @ vs))" using ok(1) m(2) True by (simp add: pq_ok_def)
  moreover have "e \<longleftrightarrow> (\<forall>p. (m(0 := us @ vs)) p = [])" using ok(2) m(2) by auto
  ultimately show ?thesis using rm True p rest by (auto simp: priority_queue_remove_def priority_queue_multi_p_def)
next
  case False
  obtain L' q' where r: "priority_tree_remove n prio (L, q) = Some (L', q')" "pq_ok L' q' (m(prio := remove1 n (m prio)))"
    "tasks (pq_l q') = None"
    using priority_tree_remove_ok [OF assms(1) False assms(2)] by blast
  have "t_root q' = Leaf \<longleftrightarrow> (\<forall>p. (m(prio := remove1 n (m prio))) p = [])"
  proof
    assume "t_root q' = Leaf"
    then show "\<forall>p. (m(prio := remove1 n (m prio))) p = []" using pq_no_key [OF r(2,3)] by simp
  next
    assume e: "\<forall>p. (m(prio := remove1 n (m prio))) p = []"
    have "set_tree (t_root q') = {}" using pq_key [OF r(2)] e by blast
    then show "t_root q' = Leaf" by (cases "t_root q'") auto
  qed
  then show ?thesis using r False by (simp add: priority_queue_remove_def priority_queue_multi_p_def)
qed

text \<open>
  C4. Insertion and removal on the priority queue of tasks, in both of its forms, are those of a map from priorities to
  sequences of tasks. Inserting a task that is in no list, with a priority that is not negative, never fails, puts
  it into the sequence of its priority and leaves all other tasks in their order, also when it turns the single list
  into a tree. A call that does not adjust the mark of the list puts it at the front or at the end, as
  asked; where a call that does adjust the mark puts it is not said here (\<open>task_list_refines_sequence\<close> does), and such a call
  is covered only when each list's mark, if it has one, is one of its own tasks (\<open>marks_ok\<close>): with a stale
  mark the code loses the task (\<open>stale_mark_loses_task\<close>). Removing a task takes exactly it out and says whether the whole
  queue has become empty.
\<close>

theorem priority_queue_refines_map:
  assumes "pq_ok L q m"
  shows "((\<forall>p. n \<notin> set (m p)) \<and> (adjust \<longrightarrow> marks_ok q m) \<and> 0 \<le> prio \<longrightarrow>
      (\<exists>L' q' ys. priority_queue_insert n prio pos adjust pdo (L, q) = Some (L', q') \<and> pq_ok L' q' (m(prio := ys))
        \<and> n \<in> set ys \<and> remove1 n ys = m prio
        \<and> (\<not> adjust \<longrightarrow> ys = (if pos = PRIORITY_INSERT_BEGIN then n # m prio else m prio @ [n]))))
   \<and> (n \<in> set (m prio) \<longrightarrow>
      (\<exists>e L' q'. priority_queue_remove n prio (L, q) = Some (e, L', q') \<and> pq_ok L' q' (m(prio := remove1 n (m prio)))
        \<and> (e \<longleftrightarrow> (\<forall>p. (m(prio := remove1 n (m prio))) p = []))))"
  using priority_queue_insert_ok [OF assms, of n adjust prio pos pdo] priority_queue_remove_ok [OF assms, of n prio]
  unfolding placed_def by blast

text \<open>An example: one task of priority 0, the second of priority 1 turns the list into a tree.\<close>

definition empty_links :: links where "empty_links = \<lparr>node_next = (\<lambda>x. 0), node_prev = (\<lambda>x. 0)\<rparr>"

definition empty_queue :: priority_queue where
  "empty_queue = priority_queue_init \<lparr>t_root = Leaf,
     pq_l = \<lparr>list_priority = 0, tasks = None, last_parent_depends_on = None\<rparr>\<rparr>"

lemma empty_queue_ok: "pq_ok L empty_queue (\<lambda>p. [])"
  by (simp add: pq_ok_def empty_queue_def priority_queue_init_def list_of_tasks_def)

theorem priority_queue_refines_map_witness:
  "\<exists>L1 q1 L2 q2 L3 q3.
     priority_queue_insert 7 0 PRIORITY_INSERT_END False False (empty_links, empty_queue) = Some (L1, q1)
   \<and> priority_queue_insert 8 1 PRIORITY_INSERT_END False False (L1, q1) = Some (L2, q2)
   \<and> priority_queue_remove 7 0 (L2, q2) = Some (False, L3, q3) \<and> pq_ok L3 q3 ((\<lambda>p. [])(1 := [8]))"
proof -
  note T = priority_queue_refines_map
  obtain L1 q1 where 1: "priority_queue_insert 7 0 PRIORITY_INSERT_END False False (empty_links, empty_queue) = Some (L1, q1)"
    "pq_ok L1 q1 ((\<lambda>p. [])(0 := [7]))"
    using T [OF empty_queue_ok, of 7 False 0 PRIORITY_INSERT_END False empty_links] by auto
  obtain L2 q2 where 2: "priority_queue_insert 8 1 PRIORITY_INSERT_END False False (L1, q1) = Some (L2, q2)"
    "pq_ok L2 q2 ((\<lambda>p. [])(0 := [7], 1 := [8]))"
    using T [OF 1(2), of 8 False 1 PRIORITY_INSERT_END False] by auto
  obtain e L3 q3 where 3: "priority_queue_remove 7 0 (L2, q2) = Some (e, L3, q3)" "pq_ok L3 q3 ((\<lambda>p. [])(1 := [8]))"
    "e \<longleftrightarrow> (\<forall>p. ((\<lambda>p. [])(0 := [], 1 := [8 :: nat])) p = [])"
  proof -
    have m: "((\<lambda>p :: int. [])(0 := [7], 1 := [8 :: nat]))(0 := remove1 7 (((\<lambda>p :: int. [])(0 := [7], 1 := [8])) 0)) = (\<lambda>p. [])(0 := [], 1 := [8])"
      "(\<lambda>p :: int. [])(0 := [], 1 := [8]) = (\<lambda>p. [])(1 := [8 :: nat])"
      by (auto simp: fun_eq_iff)
    show thesis
      using T [OF 2(2), of 7 False 0 PRIORITY_INSERT_END False, THEN conjunct2] that unfolding m by (auto simp: m(2))
  qed
  have "\<not> e" unfolding 3(3) by (simp add: exI [of _ 1])
  then have "priority_queue_remove 7 0 (L2, q2) = Some (False, L3, q3)" using 3(1) by simp
  then show ?thesis using 1(1) 2(1) 3(2) by blast
qed

subsection \<open>The next task\<close>

text \<open>In every sequence the waiting tasks come first, and each task is in the sequence of its
  priority.\<close>

definition waiting_first :: "(nat \<Rightarrow> gomp_task) \<Rightarrow> (int \<Rightarrow> nat list) \<Rightarrow> bool" where
  "waiting_first task m \<longleftrightarrow> (\<forall>p. \<forall>x \<in> set (m p). priority (task x) = p
     \<and> (kind (task x) = GOMP_TASK_WAITING \<longrightarrow> kind (task (hd (m p))) = GOMP_TASK_WAITING))"

text \<open>A waiting task of the highest priority that has one, at the front of its sequence.\<close>

definition best_task :: "(nat \<Rightarrow> gomp_task) \<Rightarrow> (int \<Rightarrow> nat list) \<Rightarrow> nat \<Rightarrow> bool" where
  "best_task task m t \<longleftrightarrow> (\<exists>p. m p \<noteq> [] \<and> t = hd (m p) \<and> kind (task t) = GOMP_TASK_WAITING
     \<and> (\<forall>p' > p. \<forall>x \<in> set (m p'). kind (task x) \<noteq> GOMP_TASK_WAITING))"

definition no_waiting :: "(nat \<Rightarrow> gomp_task) \<Rightarrow> (int \<Rightarrow> nat list) \<Rightarrow> bool" where
  "no_waiting task m \<longleftrightarrow> (\<forall>p. \<forall>x \<in> set (m p). kind (task x) \<noteq> GOMP_TASK_WAITING)"

lemma next_task_1_key:
  assumes "search_tree prio_splay_compare any_key t" and "\<forall>k \<in> set_tree t. tasks k \<noteq> None"
  shows "case priority_tree_next_task_1 task t of
      None \<Rightarrow> \<forall>k \<in> set_tree t. kind (task (the (tasks k))) \<noteq> GOMP_TASK_WAITING
    | Some a \<Rightarrow> \<exists>k \<in> set_tree t. tasks k = Some a \<and> kind (task a) = GOMP_TASK_WAITING
        \<and> (\<forall>k' \<in> set_tree t. list_priority k' > list_priority k \<longrightarrow> kind (task (the (tasks k'))) \<noteq> GOMP_TASK_WAITING)"
  using assms
proof (induction t)
  case (Node l k r)
  have s: "search_tree prio_splay_compare any_key l" "search_tree prio_splay_compare any_key r"
    "\<forall>x \<in> set_tree l. list_priority x < list_priority k" "\<forall>x \<in> set_tree r. list_priority k < list_priority x"
    using Node.prems(1) by (simp_all add: prio.ok_Node)
  obtain b where b: "tasks k = Some b" using Node.prems(2) by auto
  show ?case
  proof (cases "priority_tree_next_task_1 task r")
    case (Some a)
    then obtain c where c: "c \<in> set_tree r" "tasks c = Some a" "kind (task a) = GOMP_TASK_WAITING"
      "\<forall>k' \<in> set_tree r. list_priority k' > list_priority c \<longrightarrow> kind (task (the (tasks k'))) \<noteq> GOMP_TASK_WAITING"
      using Node.IH(2) [OF s(2)] Node.prems(2) by auto
    have low: "\<not> list_priority k' > list_priority c" if "k' = k \<or> k' \<in> set_tree l" for k'
      using that s(3,4) c(1) by fastforce
    have "\<forall>k' \<in> set_tree (Node l k r). list_priority k' > list_priority c \<longrightarrow> kind (task (the (tasks k'))) \<noteq> GOMP_TASK_WAITING"
      using low c(4) by auto
    moreover have "c \<in> set_tree (Node l k r)" using c(1) by simp
    ultimately show ?thesis using Some c(2,3) by (simp only: priority_tree_next_task_1.simps option.case) blast
  next
    case None
    then have r: "\<forall>x \<in> set_tree r. kind (task (the (tasks x))) \<noteq> GOMP_TASK_WAITING"
      using Node.IH(2) [OF s(2)] Node.prems(2) by simp
    show ?thesis
    proof (cases "kind (task b) = GOMP_TASK_WAITING")
      case True
      then show ?thesis using None r b s(3) by fastforce
    next
      case False
      then have "priority_tree_next_task_1 task (Node l k r) = priority_tree_next_task_1 task l" using None b by simp
      then show ?thesis using Node.IH(1) [OF s(1)] Node.prems(2) r b False
        by (auto split: option.splits)
    qed
  qed
qed simp

lemma next_task_1_best:
  assumes "pq_ok L q m" and "t_root q \<noteq> Leaf" and "waiting_first task m"
  shows "case priority_tree_next_task_1 task (t_root q) of None \<Rightarrow> no_waiting task m | Some a \<Rightarrow> best_task task m a"
proof -
  have s: "search_tree prio_splay_compare any_key (t_root q)" and tl: "tasks (pq_l q) = None" using assms(1,2) by (simp_all add: pq_ok_def)
  have hd: "tasks k = Some (hd (m (list_priority k))) \<and> m (list_priority k) \<noteq> []" if "k \<in> set_tree (t_root q)" for k
    using pq_key [OF assms(1) that] by (simp add: list_of_tasks_def split: if_split_asm)
  have none: "\<forall>x \<in> set (m p). kind (task x) \<noteq> GOMP_TASK_WAITING"
    if "\<forall>k \<in> set_tree (t_root q). list_priority k = p \<longrightarrow> kind (task (the (tasks k))) \<noteq> GOMP_TASK_WAITING" for p
  proof (cases "p \<in> list_priority ` set_tree (t_root q)")
    case True
    then obtain k where k: "k \<in> set_tree (t_root q)" "list_priority k = p" by blast
    then have "kind (task (hd (m p))) \<noteq> GOMP_TASK_WAITING" using that hd [OF k(1)] by auto
    then show ?thesis using assms(3) by (auto simp: waiting_first_def)
  qed (use pq_no_key [OF assms(1) tl] in simp)
  note k = next_task_1_key [OF s, of task]
  show ?thesis
  proof (cases "priority_tree_next_task_1 task (t_root q)")
    case None
    then have "\<forall>k \<in> set_tree (t_root q). kind (task (the (tasks k))) \<noteq> GOMP_TASK_WAITING" using k hd by simp
    then have "no_waiting task m" unfolding no_waiting_def using none by blast
    then show ?thesis using None by simp
  next
    case (Some a)
    then obtain k where "k \<in> set_tree (t_root q)" "tasks k = Some a" "kind (task a) = GOMP_TASK_WAITING"
      "\<forall>k' \<in> set_tree (t_root q). list_priority k' > list_priority k \<longrightarrow> kind (task (the (tasks k'))) \<noteq> GOMP_TASK_WAITING"
      using k hd by auto
    then have "best_task task m a" using hd none unfolding best_task_def by (intro exI [of _ "list_priority k"]) force
    then show ?thesis using Some by simp
  qed
qed

text \<open>
  The task to run next: from a queue in tree form that has a waiting task, the choice is a waiting
  task at the front of the sequence of the highest priority that has one, in this queue or, when a
  second tree is given, in either; the second queue wins only with a higher priority, or with the
  same priority and a task that its parent waits for when the parent does not wait for the first.
\<close>

theorem next_task_is_best:
  assumes "pq_ok L1 q1 m1" and "t_root q1 \<noteq> Leaf" and "waiting_first task m1" and "\<not> no_waiting task m1"
    and "pq_ok L2 q2 m2" and "t_root q2 \<noteq> Leaf" and "waiting_first task m2"
  shows "\<exists>a. best_task task m1 a \<and> priority_queue_next_task task q1 None = (Some a, True)
    \<and> (if no_waiting task m2 then priority_queue_next_task task q1 (Some q2) = (Some a, True)
       else \<exists>b. best_task task m2 b \<and> priority_queue_next_task task q1 (Some q2) =
         (if priority (task b) > priority (task a)
             \<or> priority (task b) = priority (task a) \<and> parent_depends_on (task b) \<and> \<not> parent_depends_on (task a)
          then (Some b, False) else (Some a, True)))"
proof -
  obtain a where a: "priority_tree_next_task_1 task (t_root q1) = Some a" "best_task task m1 a"
    using next_task_1_best [OF assms(1-3)] assms(4) by (auto split: option.splits)
  have q1: "priority_queue_next_task task q1 o2 = (case priority_tree_next_task task q1 o2 of
      (Some t, c) \<Rightarrow> (Some t, c) | (None, c) \<Rightarrow> (tasks (case t_root q1 of Node _ k _ \<Rightarrow> k), c))" for o2
    using assms(2) by (simp add: priority_queue_next_task_def split: tree.split)
  have n: "no_waiting task m2 \<Longrightarrow> \<not> best_task task m2 b" for b
    by (auto simp: no_waiting_def best_task_def dest: hd_in_set)
  have one: "priority_queue_next_task task q1 None = (Some a, True)"
    using a(1) by (simp add: q1 priority_tree_next_task_def)
  have two: "priority_queue_next_task task q1 (Some q2) =
    (case priority_tree_next_task_1 task (t_root q2) of
       None \<Rightarrow> (Some a, True)
     | Some b \<Rightarrow> if priority (task b) > priority (task a)
             \<or> priority (task b) = priority (task a) \<and> parent_depends_on (task b) \<and> \<not> parent_depends_on (task a)
          then (Some b, False) else (Some a, True))"
    unfolding q1 priority_tree_next_task_def Let_def using a(1) by (auto split: option.split)
  show ?thesis
  proof (cases "priority_tree_next_task_1 task (t_root q2)")
    case None
    then have "no_waiting task m2" using next_task_1_best [OF assms(5-7)] by simp
    then show ?thesis using a(2) one two None by auto
  next
    case (Some b)
    then have "best_task task m2 b" using next_task_1_best [OF assms(5-7)] by simp
    moreover from this have "\<not> no_waiting task m2" using n by blast
    ultimately show ?thesis using a(2) one two Some by auto
  qed
qed

definition one_task_queue :: "int \<Rightarrow> nat \<Rightarrow> priority_queue" where
  "one_task_queue p t = \<lparr>t_root = Node Leaf \<lparr>list_priority = p, tasks = Some t, last_parent_depends_on = None\<rparr> Leaf,
     pq_l = \<lparr>list_priority = 0, tasks = None, last_parent_depends_on = None\<rparr>\<rparr>"

definition self_links :: links where "self_links = \<lparr>node_next = (\<lambda>x. x), node_prev = (\<lambda>x. x)\<rparr>"

definition numbered_tasks :: "nat \<Rightarrow> gomp_task" where
  "numbered_tasks x = \<lparr>priority = int x, kind = GOMP_TASK_WAITING, parent_depends_on = False\<rparr>"

lemma one_task_queue_ok: "pq_ok self_links (one_task_queue p t) ((\<lambda>p. [])(p := [t]))"
  by (auto simp: pq_ok_def one_task_queue_def search_tree_def list_of_tasks_def ring_def self_links_def)

theorem next_task_is_best_witness:
  "priority_queue_next_task numbered_tasks (one_task_queue 1 1) (Some (one_task_queue 5 5)) = (Some 5, False)
   \<and> priority_queue_next_task numbered_tasks (one_task_queue 1 1) None = (Some 1, True)"
proof -
  let ?m1 = "(\<lambda>p. [])(1 := [1])" and ?m2 = "(\<lambda>p. [])(5 := [5])"
  have ne: "t_root (one_task_queue p t) \<noteq> Leaf" for p t by (simp add: one_task_queue_def)
  have w: "waiting_first numbered_tasks ?m1" "waiting_first numbered_tasks ?m2"
    by (simp_all add: waiting_first_def numbered_tasks_def)
  have nw: "\<not> no_waiting numbered_tasks ?m1" "\<not> no_waiting numbered_tasks ?m2"
    by (auto simp: no_waiting_def numbered_tasks_def split: if_split_asm)
  have best: "best_task numbered_tasks ?m1 a \<Longrightarrow> a = 1" "best_task numbered_tasks ?m2 b \<Longrightarrow> b = 5" for a b
    by (auto simp: best_task_def split: if_split_asm)
  show ?thesis
    using next_task_is_best [OF one_task_queue_ok ne w(1) nw(1) one_task_queue_ok ne w(2)] nw(2) best
    by (force simp: numbered_tasks_def)
qed

subsection \<open>A stale mark\<close>

text \<open>
  The turn of the single list into a tree moves the tasks and copies the mark, but leaves the mark of
  the single list; nothing clears it while the tree is in use. The run: task 1, of priority 0, is
  awaited by the parent; task 2, of priority 1, makes the queue a tree; both are run and removed;
  then tasks 3 and 4, of priority 0, get ready.
\<close>

definition stale_tasks :: "nat \<Rightarrow> gomp_task" where
  "stale_tasks x = \<lparr>priority = (if x = 2 then 1 else 0), kind = GOMP_TASK_WAITING, parent_depends_on = (x = 1)\<rparr>"

definition ready_child :: "nat \<Rightarrow> links \<times> priority_queue \<Rightarrow> (links \<times> priority_queue) option" where
  "ready_child n = priority_queue_insert n (priority (stale_tasks n)) PRIORITY_INSERT_BEGIN True (parent_depends_on (stale_tasks n))"

definition run_child :: "nat \<Rightarrow> links \<times> priority_queue \<Rightarrow> (links \<times> priority_queue) option" where
  "run_child n s = Option.bind (priority_queue_downgrade_task stale_tasks n s)
    (\<lambda>s. map_option snd (priority_queue_remove n (priority (stale_tasks n)) s))"

definition stale_run :: "(links \<times> priority_queue) option" where
  "stale_run = fold (\<lambda>f s. Option.bind s f) [ready_child 1, ready_child 2, run_child 1, run_child 2, ready_child 3, ready_child 4]
    (Some (empty_links, empty_queue))"

text \<open>
  A task can get lost from the queue of the children of its parent: after a queue with an awaited
  task has been a tree and has become empty again, the mark of the single list still points to the
  task that was awaited and has ended; the second of two tasks that then get ready is linked to
  that task and not into the list, so a search of the list finds only the first one.
\<close>

theorem stale_mark_loses_task:
  "case stale_run of None \<Rightarrow> False | Some (L, q) \<Rightarrow>
     last_parent_depends_on (pq_l q) = Some 1 \<and> t_root q = Leaf \<and> tasks (pq_l q) = Some 3
     \<and> node_next L 3 = 3 \<and> node_prev L 3 = 3 \<and> node_prev L 4 = 1"
  by code_simp

end
