(* ===== verification/Barrier.thy ===== *)
theory Barrier
  imports Prelude
begin

unbundle bit_operations_syntax

text \<open>
  The barrier of \<open>gcc/libgomp/config/linux/bar.h\<close> and \<open>bar.c\<close>: the words and flags of
  \<open>gomp_barrier_t\<close> at their width, and the waits \<open>gomp_barrier_wait\<close>, \<open>gomp_team_barrier_wait\<close>,
  \<open>gomp_team_barrier_wait_cancel\<close> and \<open>gomp_team_barrier_wait_final\<close> as steps, one for each access to the
  shared words, of any number of threads in any order. Team barriers are those of a region without deferred tasks;
  the runs are those without cancellation, whose effect on a wait is stated on its own.
  A thread that sleeps in the futex is one that finds the generation unchanged whenever it looks.
\<close>

subsection \<open>The words\<close>

abbreviation BAR_TASK_PENDING :: "32 word" where "BAR_TASK_PENDING \<equiv> 1"
abbreviation BAR_WAS_LAST :: "32 word" where "BAR_WAS_LAST \<equiv> 1"
abbreviation BAR_WAITING_FOR_TASK :: "32 word" where "BAR_WAITING_FOR_TASK \<equiv> 2"
abbreviation BAR_CANCELLED :: "32 word" where "BAR_CANCELLED \<equiv> 4"
abbreviation BAR_INCR :: "32 word" where "BAR_INCR \<equiv> 8"

record barrier =
  total :: "32 word"
  generation :: "32 word"
  awaited :: "32 word"
  awaited_final :: "32 word"

definition gomp_barrier_init :: "32 word \<Rightarrow> barrier" where
  "gomp_barrier_init cnt = \<lparr>total = cnt, generation = 0, awaited = cnt, awaited_final = cnt\<rparr>"

definition gomp_barrier_reinit :: "32 word \<Rightarrow> barrier \<Rightarrow> barrier" where
  "gomp_barrier_reinit cnt b = b\<lparr>awaited := awaited b + (cnt - total b), total := cnt\<rparr>"

definition gomp_barrier_last_thread :: "32 word \<Rightarrow> bool" where
  "gomp_barrier_last_thread state \<longleftrightarrow> state AND BAR_WAS_LAST \<noteq> 0"

definition gomp_team_barrier_set_task_pending :: "barrier \<Rightarrow> barrier" where
  "gomp_team_barrier_set_task_pending b = b\<lparr>generation := generation b OR BAR_TASK_PENDING\<rparr>"

definition gomp_team_barrier_clear_task_pending :: "barrier \<Rightarrow> barrier" where
  "gomp_team_barrier_clear_task_pending b = b\<lparr>generation := generation b AND NOT BAR_TASK_PENDING\<rparr>"

definition gomp_team_barrier_set_waiting_for_tasks :: "barrier \<Rightarrow> barrier" where
  "gomp_team_barrier_set_waiting_for_tasks b = b\<lparr>generation := generation b OR BAR_WAITING_FOR_TASK\<rparr>"

definition gomp_team_barrier_waiting_for_tasks :: "barrier \<Rightarrow> bool" where
  "gomp_team_barrier_waiting_for_tasks b \<longleftrightarrow> generation b AND BAR_WAITING_FOR_TASK \<noteq> 0"

definition gomp_team_barrier_cancelled :: "barrier \<Rightarrow> bool" where
  "gomp_team_barrier_cancelled b \<longleftrightarrow> generation b AND BAR_CANCELLED \<noteq> 0"

definition gomp_team_barrier_cancel :: "barrier \<Rightarrow> barrier" where
  "gomp_team_barrier_cancel b =
    (if generation b AND BAR_CANCELLED \<noteq> 0 then b else b\<lparr>generation := generation b OR BAR_CANCELLED\<rparr>)"

definition gomp_team_barrier_done :: "32 word \<Rightarrow> barrier \<Rightarrow> barrier" where
  "gomp_team_barrier_done state b = b\<lparr>generation := (state AND - BAR_INCR) + BAR_INCR\<rparr>"

subsection \<open>The steps of a wait\<close>

text \<open>\<open>B_Loaded\<close>: the generation has been read; \<open>B_Wait\<close>: arrived, not the last one; \<open>B_Last\<close>: the last
  one, \<open>B_Reset\<close>: it has also reset the counter.\<close>

datatype bar_pc = B_Out | B_Loaded "32 word" | B_Wait "32 word" | B_Last "32 word" | B_Reset "32 word"

datatype bar_kind = Plain_barrier | Team_barrier | Cancel_barrier

text \<open>\<open>gomp_barrier_wait_start\<close>, in two steps.\<close>

definition wait_start_load :: "barrier \<Rightarrow> bar_pc" where
  "wait_start_load b = B_Loaded (generation b AND (- BAR_INCR OR BAR_CANCELLED))"

definition wait_start_arrive :: "32 word \<Rightarrow> barrier \<Rightarrow> barrier \<times> bar_pc" where
  "wait_start_arrive ret b =
    (let b1 = b\<lparr>awaited := awaited b - 1\<rparr>
     in (b1, if awaited b1 = 0 then B_Last (ret OR BAR_WAS_LAST) else B_Wait ret))"

text \<open>\<open>gomp_barrier_wait_end\<close>, \<open>gomp_team_barrier_wait_end\<close> and \<open>gomp_team_barrier_wait_cancel_end\<close>: the store that releases the others,
  and the test of one that waits.\<close>

definition release_generation :: "bar_kind \<Rightarrow> 32 word \<Rightarrow> barrier \<Rightarrow> 32 word" where
  "release_generation k state b = (case k of
     Plain_barrier \<Rightarrow> generation b + BAR_INCR
   | Team_barrier \<Rightarrow> (state AND NOT BAR_CANCELLED) + (BAR_INCR - BAR_WAS_LAST)
   | Cancel_barrier \<Rightarrow> state + (BAR_INCR - BAR_WAS_LAST))"

definition released :: "bar_kind \<Rightarrow> 32 word \<Rightarrow> 32 word \<Rightarrow> bool" where
  "released k state gen = (case k of
     Plain_barrier \<Rightarrow> gen \<noteq> state
   | Team_barrier \<Rightarrow> gen = (state AND NOT BAR_CANCELLED) + BAR_INCR
   | Cancel_barrier \<Rightarrow> gen = state + BAR_INCR)"

definition barrier_step :: "bar_kind \<Rightarrow> barrier \<Rightarrow> bar_pc \<Rightarrow> barrier \<times> bar_pc" where
  "barrier_step k b pc = (case pc of
     B_Out \<Rightarrow> (b, wait_start_load b)
   | B_Loaded ret \<Rightarrow> wait_start_arrive ret b
   | B_Last state \<Rightarrow> (b\<lparr>awaited := total b\<rparr>, B_Reset state)
   | B_Reset state \<Rightarrow> (b\<lparr>generation := release_generation k state b\<rparr>, B_Out)
   | B_Wait state \<Rightarrow> (b, if released k state (generation b) then B_Out else B_Wait state))"

text \<open>A team of threads at a barrier, with the number of times each one has arrived and left.\<close>

record bar_sys =
  bar :: barrier
  bar_pcs :: "nat \<Rightarrow> bar_pc"
  arrivals :: "nat \<Rightarrow> nat"
  departures :: "nat \<Rightarrow> nat"

definition thread_step :: "bar_kind \<Rightarrow> nat \<Rightarrow> bar_sys \<Rightarrow> bar_sys" where
  "thread_step k i s =
    (let pc = bar_pcs s i; (b, pc') = barrier_step k (bar s) pc in
     s\<lparr>bar := b, bar_pcs := (bar_pcs s)(i := pc'),
       arrivals := (arrivals s)(i := arrivals s i + (case pc of B_Loaded _ \<Rightarrow> 1 | _ \<Rightarrow> 0)),
       departures := (departures s)(i := departures s i + (if pc \<noteq> B_Out \<and> pc' = B_Out then 1 else 0))\<rparr>)"

definition bar_start :: "nat \<Rightarrow> bar_sys" where
  "bar_start T = \<lparr>bar = gomp_barrier_init (of_nat T), bar_pcs = (\<lambda>i. B_Out), arrivals = (\<lambda>i. 0), departures = (\<lambda>i. 0)\<rparr>"

inductive bar_reach :: "bar_kind \<Rightarrow> nat \<Rightarrow> bar_sys \<Rightarrow> bool" for k T where
  start: "bar_reach k T (bar_start T)"
| step: "bar_reach k T s \<Longrightarrow> i < T \<Longrightarrow> bar_reach k T (thread_step k i s)"

subsection \<open>Generations\<close>

definition gen :: "nat \<Rightarrow> 32 word" where "gen G = of_nat (8 * G)"

lemma gen_push: "gen G = push_bit 3 (of_nat G)"
  by (simp add: gen_def push_bit_eq_mult)

lemma gen_bits: "\<not> bit (gen G) 0" "\<not> bit (gen G) (Suc 0)" "\<not> bit (gen G) 2"
  by (simp_all add: gen_push bit_push_bit_iff)

lemma gen_bit: "bit (gen G) n \<Longrightarrow> 3 \<le> n \<and> n < 32"
  by (auto simp: gen_push bit_simps)

lemma bit_4: "bit (BAR_CANCELLED) n \<longleftrightarrow> n = 2"
  using bit_exp_iff [of 2 n, where 'a = "32 word"] by (auto simp: possible_bit_def)

lemma gen_clean: "gen G AND (- BAR_INCR OR BAR_CANCELLED) = gen G"
proof (rule bit_eqI)
  fix n :: nat
  have "mask 3 = (7 :: 32 word)" by (simp add: mask_eq_exp_minus_1)
  moreover have "NOT (7 :: 32 word) = - BAR_INCR" by simp
  ultimately have m: "- BAR_INCR = NOT (mask 3)" by metis
  have "bit (- BAR_INCR) n \<longleftrightarrow> 3 \<le> n \<and> n < 32"
    unfolding m bit_not_iff bit_mask_iff by (auto simp: possible_bit_def)
  then show "bit (gen G AND (- BAR_INCR OR BAR_CANCELLED)) n = bit (gen G) n"
    using gen_bit [of G n] unfolding bit_and_iff bit_or_iff by blast
qed

lemma wait_start_load_gen: "generation b = gen G \<Longrightarrow> wait_start_load b = B_Loaded (gen G)"
  unfolding wait_start_load_def by (simp only: gen_clean)

lemma gen_uncancel: "gen G AND NOT BAR_CANCELLED = gen G"
proof (rule bit_eqI)
  fix n assume n: "possible_bit TYPE(32 word) n"
  have "n = 2 \<Longrightarrow> \<not> bit (gen G) n" using gen_bit [of G 2] by auto
  then show "bit (gen G AND NOT BAR_CANCELLED) n = bit (gen G) n"
    using n bit_4 [of n] unfolding bit_and_iff bit_not_iff by blast
qed

lemma gen_last: "(gen G OR BAR_WAS_LAST) AND NOT BAR_CANCELLED = gen G + 1"
proof -
  have "even (gen G)" using gen_bits(1) [of G] by (simp add: bit_0)
  then have o: "gen G OR 1 = gen G + 1" by (simp add: or_one_eq)
  have "(gen G OR 1) AND NOT BAR_CANCELLED = (gen G AND NOT BAR_CANCELLED) OR (1 AND NOT BAR_CANCELLED)"
    by (rule bit.conj_disj_distrib2)
  also have "(1 :: 32 word) AND NOT BAR_CANCELLED = 1" by simp
  finally show ?thesis using o by (simp only: gen_uncancel)
qed

lemma gen_Suc: "gen (Suc G) = gen G + BAR_INCR"
  by (simp add: gen_def)

lemma gen_Suc_neq: "gen (Suc G) \<noteq> gen G" "gen G \<noteq> gen G + BAR_INCR"
  by (simp_all add: gen_Suc)

lemma release_gen: "generation b = gen G \<Longrightarrow> release_generation k (gen G OR BAR_WAS_LAST) b = gen (Suc G)"
proof (cases k)
  case Team_barrier
  then show ?thesis unfolding release_generation_def Team_barrier bar_kind.case gen_last by (simp add: gen_Suc)
next
  case Cancel_barrier
  have "even (gen G)" using gen_bits(1) [of G] by (simp add: bit_0)
  then have "gen G OR BAR_WAS_LAST = gen G + 1" by (simp add: or_one_eq)
  then show ?thesis unfolding release_generation_def Cancel_barrier bar_kind.case by (simp add: gen_Suc)
qed (simp add: release_generation_def gen_Suc)

lemma released_gen: "\<not> released k (gen G) (gen G)" "released k (gen G) (gen (Suc G))"
proof -
  show "\<not> released k (gen G) (gen G)"
    unfolding released_def gen_uncancel by (cases k) (simp_all add: gen_Suc_neq)
  show "released k (gen G) (gen (Suc G))"
    unfolding released_def gen_uncancel using gen_Suc_neq(1) [of G] gen_Suc [of G] by (simp split: bar_kind.split)
qed

subsection \<open>The invariant\<close>

text \<open>The threads that have arrived at the barrier for the time \<open>Suc G\<close>, and a thread's place in it.\<close>

definition entered :: "nat \<Rightarrow> nat \<Rightarrow> bar_sys \<Rightarrow> nat set" where
  "entered T G s = {i. i < T \<and> arrivals s i = Suc G}"

definition thread_ok :: "nat \<Rightarrow> bar_sys \<Rightarrow> nat \<Rightarrow> bool" where
  "thread_ok G s i = (case bar_pcs s i of
     B_Out \<Rightarrow> arrivals s i = G \<and> departures s i = G
   | B_Loaded r \<Rightarrow> r = gen G \<and> arrivals s i = G \<and> departures s i = G
   | B_Wait st \<Rightarrow> arrivals s i = Suc (departures s i) \<and> st = gen (departures s i) \<and> (departures s i = G \<or> Suc (departures s i) = G)
   | B_Last st \<Rightarrow> st = gen G OR BAR_WAS_LAST \<and> departures s i = G \<and> arrivals s i = Suc G
   | B_Reset st \<Rightarrow> st = gen G OR BAR_WAS_LAST \<and> departures s i = G \<and> arrivals s i = Suc G)"

definition releasing :: "bar_sys \<Rightarrow> nat \<Rightarrow> bool" where
  "releasing s i \<longleftrightarrow> (\<exists>st. bar_pcs s i = B_Last st \<or> bar_pcs s i = B_Reset st)"

definition bar_inv :: "nat \<Rightarrow> nat \<Rightarrow> bar_sys \<Rightarrow> bool" where
  "bar_inv T G s \<longleftrightarrow> generation (bar s) = gen G \<and> total (bar s) = of_nat T \<and> (\<forall>i < T. thread_ok G s i)
    \<and> ((\<forall>i < T. \<not> releasing s i) \<and> awaited (bar s) = of_nat T - of_nat (card (entered T G s)) \<and> card (entered T G s) < T
       \<or> (\<exists>l < T. releasing s l \<and> (\<forall>j < T. releasing s j \<longrightarrow> j = l) \<and> entered T G s = {..<T}
            \<and> (\<forall>st. bar_pcs s l = B_Reset st \<longrightarrow> awaited (bar s) = of_nat T)))"

lemma bar_inv_start: "0 < T \<Longrightarrow> bar_inv T 0 (bar_start T)"
  by (simp add: bar_inv_def bar_start_def gomp_barrier_init_def thread_ok_def releasing_def entered_def gen_def)

lemma thread_ok_outside: "thread_ok G s i \<Longrightarrow> bar_pcs s i = B_Out \<or> (\<exists>r. bar_pcs s i = B_Loaded r) \<Longrightarrow> arrivals s i = G"
  by (auto simp: thread_ok_def)

text \<open>Before the last thread has arrived, nobody is releasing.\<close>

lemma not_all_entered:
  assumes "bar_inv T G s" and "i < T" and "arrivals s i = G"
  shows "\<forall>j < T. \<not> releasing s j" and "awaited (bar s) = of_nat T - of_nat (card (entered T G s))"
proof -
  have "i \<notin> entered T G s" using assms(3) by (simp add: entered_def)
  then show "\<forall>j < T. \<not> releasing s j" "awaited (bar s) = of_nat T - of_nat (card (entered T G s))"
    using assms(1,2) by (auto simp: bar_inv_def)
qed

lemma thread_ok_other:
  "j \<noteq> i \<Longrightarrow> bar_pcs s' j = bar_pcs s j \<Longrightarrow> arrivals s' j = arrivals s j \<Longrightarrow> departures s' j = departures s j
    \<Longrightarrow> thread_ok G s' j = thread_ok G s j \<and> releasing s' j = releasing s j"
  by (simp add: thread_ok_def releasing_def split: bar_pc.split)

lemma thread_step_other:
  "j \<noteq> i \<Longrightarrow> bar_pcs (thread_step k i s) j = bar_pcs s j" "j \<noteq> i \<Longrightarrow> arrivals (thread_step k i s) j = arrivals s j"
  "j \<noteq> i \<Longrightarrow> departures (thread_step k i s) j = departures s j"
  by (simp_all add: thread_step_def Let_def split: prod.split)

lemma of_nat_word_inj:
  assumes "a < 2 ^ 32" and "b < 2 ^ 32"
  shows "(of_nat a :: 32 word) = of_nat b \<longleftrightarrow> a = b"
proof -
  have "take_bit 32 a = a" "take_bit 32 b = b"
    by (rule take_bit_nat_eq_self [OF assms(1)], rule take_bit_nat_eq_self [OF assms(2)])
  moreover have "LENGTH(32) = 32" by simp
  ultimately show ?thesis by (simp only: word_of_nat_eq_iff)
qed

lemma bar_inv_step:
  assumes "bar_inv T G s" and "i < T" and "T < 2 ^ 32"
  shows "bar_inv T (if \<exists>st. bar_pcs s i = B_Reset st then Suc G else G) (thread_step k i s)"
proof -
  let ?s = "thread_step k i s"
  have inv: "generation (bar s) = gen G" "total (bar s) = of_nat T" "\<And>j. j < T \<Longrightarrow> thread_ok G s j"
    using assms(1) by (simp_all add: bar_inv_def)
  have ti: "thread_ok G s i" by (rule inv(3) [OF assms(2)])
  note other = thread_ok_other [OF _ thread_step_other]
  have others: "thread_ok G ?s j" "releasing ?s j = releasing s j" if "j < T" "j \<noteq> i" for j
    using other [OF that(2) that(2) that(2) that(2)] inv(3) [OF that(1)] by auto
  have fin: "finite (entered T G s)" by (simp add: entered_def)
  show ?thesis
  proof (cases "bar_pcs s i")
    case B_Out
    then have e: "?s = s\<lparr>bar_pcs := (bar_pcs s)(i := B_Loaded (gen G))\<rparr>"
      by (simp add: thread_step_def barrier_step_def wait_start_load_gen [OF inv(1)])
    have a: "arrivals s i = G" using thread_ok_outside [OF ti] B_Out by simp
    have "thread_ok G ?s i" using ti B_Out by (simp add: e thread_ok_def)
    then have "\<forall>j < T. thread_ok G ?s j" using others(1) by metis
    moreover have "\<forall>j < T. \<not> releasing ?s j" using not_all_entered(1) [OF assms(1,2) a] by (auto simp: e releasing_def)
    moreover have "entered T G ?s = entered T G s" by (simp add: e entered_def)
    ultimately show ?thesis using assms(1) not_all_entered [OF assms(1,2) a] B_Out by (auto simp: bar_inv_def e)
  next
    case (B_Loaded r)
    then have a: "arrivals s i = G" "departures s i = G" "r = gen G" using ti by (simp_all add: thread_ok_def)
    note ne = not_all_entered [OF assms(1,2) a(1)]
    have ni: "i \<notin> entered T G s" using a(1) by (simp add: entered_def)
    have ent: "entered T G ?s = insert i (entered T G s)"
      using assms(2) a(1) B_Loaded by (auto simp: entered_def thread_step_def Let_def split: prod.split)
    then have c: "card (entered T G ?s) = Suc (card (entered T G s))" using ni fin by simp
    have sub: "entered T G ?s \<subseteq> {..<T}" by (auto simp: entered_def)
    then have le: "card (entered T G ?s) \<le> T" using card_mono [OF finite_lessThan sub] by simp
    let ?aw = "awaited (bar s) - 1"
    have aw: "?aw = of_nat T - of_nat (card (entered T G ?s))" using ne(2) c by simp
    have z: "?aw = 0 \<longleftrightarrow> card (entered T G ?s) = T"
    proof -
      have "(of_nat T :: 32 word) = of_nat (card (entered T G ?s)) \<longleftrightarrow> T = card (entered T G ?s)"
        using assms(3) le by (intro of_nat_word_inj) linarith+
      then show ?thesis unfolding aw right_minus_eq by (simp only: eq_commute [of T])
    qed
    have e: "bar ?s = (bar s)\<lparr>awaited := ?aw\<rparr>"
      "bar_pcs ?s i = (if ?aw = 0 then B_Last (gen G OR BAR_WAS_LAST) else B_Wait (gen G))"
      "arrivals ?s i = Suc G" "departures ?s i = G"
      using B_Loaded a by (simp_all add: thread_step_def barrier_step_def wait_start_arrive_def)
    have "thread_ok G ?s i" using e(2-4) by (simp add: thread_ok_def)
    then have ok: "\<forall>j < T. thread_ok G ?s j" using others(1) by metis
    have rel: "releasing ?s j \<longleftrightarrow> j = i \<and> ?aw = 0" if "j < T" for j
      using that others(2) [of j] ne(1) e(2) by (cases "j = i") (auto simp: releasing_def)
    show ?thesis
    proof (cases "?aw = 0")
      case True
      then have "entered T G ?s = {..<T}" using z sub by (simp add: card_subset_eq)
      moreover have "bar_pcs ?s i = B_Last (gen G OR BAR_WAS_LAST)" using e(2) True by simp
      ultimately show ?thesis using ok rel True inv(1,2) e(1) assms(2) B_Loaded by (auto simp: bar_inv_def)
    next
      case False
      then show ?thesis using ok rel inv(1,2) e(1) z le aw B_Loaded by (auto simp: bar_inv_def)
    qed
  next
    case (B_Wait st)
    then have w: "arrivals s i = Suc (departures s i)" "st = gen (departures s i)" "departures s i = G \<or> Suc (departures s i) = G"
      using ti by (simp_all add: thread_ok_def)
    show ?thesis
    proof (cases "departures s i = G")
      case True
      then have "?s = s" using B_Wait w inv(1) released_gen(1) [of k G]
        by (simp add: thread_step_def barrier_step_def) (simp add: fun_upd_idem)
      then show ?thesis using assms(1) B_Wait by simp
    next
      case False
      then have d: "Suc (departures s i) = G" using w(3) by blast
      then have "released k st (generation (bar s))" using released_gen(2) [of k "departures s i"] w(2) inv(1) by simp
      then have e: "bar ?s = bar s" "bar_pcs ?s i = B_Out" "arrivals ?s i = G" "departures ?s i = G"
        using B_Wait w(1) d by (simp_all add: thread_step_def barrier_step_def)
      have "thread_ok G ?s i" using e(2-4) by (simp add: thread_ok_def)
      then have ok: "\<forall>j < T. thread_ok G ?s j" using others(1) by metis
      have ent: "entered T G ?s = entered T G s"
        using e(3) w(1) d thread_step_other(2) [of _ i k s] by (auto simp: entered_def) (metis n_not_Suc_n)+
      have rel: "releasing ?s j = releasing s j" if "j < T" for j
        using that others(2) [of j] e(2) B_Wait by (cases "j = i") (auto simp: releasing_def)
      have res: "bar_pcs ?s l = B_Reset x \<longleftrightarrow> bar_pcs s l = B_Reset x" for l x
        using e(2) B_Wait thread_step_other(1) [of l i k s] by (cases "l = i") auto
      show ?thesis using assms(1) ok ent rel res e(1) B_Wait by (simp add: bar_inv_def) blast
    qed
  next
    case (B_Last st)
    then have l: "releasing s i" by (simp add: releasing_def)
    have e: "bar ?s = (bar s)\<lparr>awaited := of_nat T\<rparr>" "bar_pcs ?s i = B_Reset st" "arrivals ?s i = arrivals s i" "departures ?s i = departures s i"
      using B_Last inv(2) by (simp_all add: thread_step_def barrier_step_def)
    have "thread_ok G ?s i" using e(2-4) ti B_Last by (simp add: thread_ok_def)
    then have ok: "\<forall>j < T. thread_ok G ?s j" using others(1) by metis
    have rel: "releasing ?s j = releasing s j" if "j < T" for j
      using that others(2) [of j] e(2) l by (cases "j = i") (auto simp: releasing_def)
    have "entered T G ?s = entered T G s" using e(3) thread_step_other(2) [of _ i k s] by (auto simp: entered_def) metis+
    moreover have "\<forall>j < T. releasing s j \<longrightarrow> j = i" "entered T G s = {..<T}"
      using assms(1,2) l unfolding bar_inv_def by blast+
    ultimately have ph: "\<forall>j < T. releasing ?s j \<longrightarrow> j = i" "entered T G ?s = {..<T}" using rel by blast+
    have g: "awaited (bar ?s) = of_nat T" "generation (bar ?s) = gen G" "total (bar ?s) = of_nat T" using e(1) inv(1,2) by simp_all
    have "releasing ?s i" using rel [OF assms(2)] l by simp
    then have "bar_inv T G ?s" unfolding bar_inv_def using ok ph g assms(2) by blast
    then show ?thesis using B_Last by simp
  next
    case (B_Reset st)
    then have l: "releasing s i" "st = gen G OR BAR_WAS_LAST" "arrivals s i = Suc G" using ti by (simp_all add: releasing_def thread_ok_def)
    then have ph: "\<forall>j < T. releasing s j \<longrightarrow> j = i" "entered T G s = {..<T}" "awaited (bar s) = of_nat T"
      using assms(1,2) B_Reset by (auto simp: bar_inv_def)
    have e: "bar ?s = (bar s)\<lparr>generation := gen (Suc G)\<rparr>" "bar_pcs ?s i = B_Out" "arrivals ?s i = Suc G" "departures ?s i = Suc G"
      using B_Reset l release_gen [of "bar s" G k] inv(1) ti by (simp_all add: thread_step_def barrier_step_def thread_ok_def)
    have ok: "thread_ok (Suc G) ?s j" if "j < T" for j
    proof (cases "j = i")
      case True
      then show ?thesis using e by (simp add: thread_ok_def)
    next
      case False
      have "\<not> releasing s j" "arrivals s j = Suc G" using ph(1,2) that False by (auto simp: entered_def)
      then have "\<exists>x. bar_pcs s j = B_Wait x" using thread_ok_outside [OF inv(3) [OF that]]
        by (cases "bar_pcs s j") (auto simp: releasing_def)
      then show ?thesis using inv(3) [OF that] \<open>arrivals s j = Suc G\<close> thread_step_other [OF False, of k s] by (auto simp: thread_ok_def)
    qed
    have "arrivals ?s j = Suc G" if "j < T" for j
      using that ph(2) e(3) thread_step_other(2) [of j i k s] by (cases "j = i") (auto simp: entered_def)
    then have ent: "entered T (Suc G) ?s = {}" by (auto simp: entered_def)
    have nr: "\<not> releasing ?s j" if "j < T" for j
    proof (cases "j = i")
      case False
      then show ?thesis using that ph(1) others(2) by blast
    qed (simp add: releasing_def e(2))
    have gt: "generation (bar ?s) = gen (Suc G)" "total (bar ?s) = of_nat T" and "awaited (bar ?s) = of_nat T"
      using e(1) inv(2) ph(3) by simp_all
    then have "awaited (bar ?s) = of_nat T - of_nat (card (entered T (Suc G) ?s)) \<and> card (entered T (Suc G) ?s) < T"
      unfolding ent using assms(2) by simp
    then have "bar_inv T (Suc G) ?s"
      unfolding bar_inv_def using ok gt nr by blast
    then show ?thesis using B_Reset by simp
  qed
qed

lemma bar_reach_inv: "bar_reach k T s \<Longrightarrow> 0 < T \<Longrightarrow> T < 2 ^ 32 \<Longrightarrow> \<exists>G. bar_inv T G s"
proof (induction rule: bar_reach.induct)
  case start
  then show ?case using bar_inv_start by blast
next
  case (step s i)
  then show ?case using bar_inv_step by blast
qed

lemma thread_ok_counts: "thread_ok G s i \<Longrightarrow> departures s i \<le> G \<and> G \<le> arrivals s i \<and> arrivals s i \<le> Suc G"
  by (auto simp: thread_ok_def split: bar_pc.splits)

lemma bar_inv_counts:
  "bar_inv T G s \<Longrightarrow> i < T \<Longrightarrow> departures s i \<le> G \<and> G \<le> arrivals s i \<and> arrivals s i \<le> Suc G"
  by (simp add: bar_inv_def thread_ok_counts)

subsection \<open>Progress\<close>

text \<open>A property that every step keeps or turns into the next one, and that a step of one thread always
  turns into the next one, has become it after any schedule in which that thread has a turn.\<close>

lemma leads_to:
  assumes "l \<in> set xs" and "\<And>i. i \<in> set xs \<Longrightarrow> i < T"
    and keep: "\<And>s i. Q s \<Longrightarrow> i < T \<Longrightarrow> Q (f i s) \<or> R (f i s)" and move: "\<And>s. Q s \<Longrightarrow> R (f l s)"
    and stay: "\<And>s i. R s \<Longrightarrow> i < T \<Longrightarrow> R (f i s)" and "Q s"
  shows "R (fold f xs s)"
proof -
  have stays: "R (fold f ys s)" if "\<And>i. i \<in> set ys \<Longrightarrow> i < T" "R s" for ys s
    using that by (induction ys arbitrary: s) (simp_all add: stay)
  show ?thesis using assms(1,2,6)
  proof (induction xs arbitrary: s)
    case (Cons i xs)
    have xs: "\<And>j. j \<in> set xs \<Longrightarrow> j < T" using Cons.prems(2) by simp
    have "R (f i s) \<or> Q (f i s) \<and> i \<noteq> l" using keep [OF Cons.prems(3)] move [OF Cons.prems(3)] Cons.prems(2) by fastforce
    then show ?case
    proof
      assume "R (f i s)"
      then show ?thesis using stays [OF xs] by simp
    next
      assume "Q (f i s) \<and> i \<noteq> l"
      then show ?thesis using Cons.IH [of "f i s"] Cons.prems(1) xs by auto
    qed
  qed simp
qed

lemma stable_fold:
  "(\<And>i. i \<in> set xs \<Longrightarrow> i < T) \<Longrightarrow> (\<And>s i. R s \<Longrightarrow> i < T \<Longrightarrow> R (f i s)) \<Longrightarrow> R s \<Longrightarrow> R (fold f xs s)"
  by (induction xs arbitrary: s) simp_all

definition passed :: "nat \<Rightarrow> nat \<Rightarrow> bar_sys \<Rightarrow> bool" where
  "passed T n s \<longleftrightarrow> (\<exists>G \<ge> n. bar_inv T G s)"

lemma passed_step: "passed T n s \<Longrightarrow> i < T \<Longrightarrow> T < 2 ^ 32 \<Longrightarrow> passed T n (thread_step k i s)"
proof -
  assume "passed T n s" and i: "i < T" "T < 2 ^ 32"
  then obtain G where G: "n \<le> G" "bar_inv T G s" by (auto simp: passed_def)
  have "n \<le> (if \<exists>st. bar_pcs s i = B_Reset st then Suc G else G)" using G(1) by simp
  then show ?thesis using bar_inv_step [OF G(2) i, of k] unfolding passed_def by blast
qed

lemma departures_mono: "departures s j \<le> departures (thread_step k i s) j"
  by (cases "j = i") (auto simp: thread_step_def Let_def split: prod.split)

text \<open>The last thread releases the others in two steps.\<close>

lemma releasing_pc: "releasing s l \<Longrightarrow> (\<exists>st. bar_pcs s l = B_Last st) \<or> (\<exists>st. bar_pcs s l = B_Reset st)"
  by (auto simp: releasing_def)

lemma other_not_reset:
  assumes "bar_inv T G s" and "releasing s l" and "l < T" and "i < T" and "i \<noteq> l"
  shows "\<not> (\<exists>st. bar_pcs s i = B_Reset st)"
proof
  assume "\<exists>st. bar_pcs s i = B_Reset st"
  then have "releasing s i" by (auto simp: releasing_def)
  then show False using assms unfolding bar_inv_def by blast
qed

definition resetting :: "nat \<Rightarrow> nat \<Rightarrow> nat \<Rightarrow> bar_sys \<Rightarrow> bool" where
  "resetting T G l s \<longleftrightarrow> bar_inv T G s \<and> (\<exists>st. bar_pcs s l = B_Reset st) \<or> passed T (Suc G) s"

lemma resetting_step:
  assumes "resetting T G l s" and "l < T" and "i < T" and "T < 2 ^ 32"
  shows "resetting T G l (thread_step k i s)" and "i = l \<Longrightarrow> passed T (Suc G) (thread_step k i s)"
proof -
  have "(i \<noteq> l \<longrightarrow> resetting T G l (thread_step k i s)) \<and> (i = l \<longrightarrow> passed T (Suc G) (thread_step k i s))"
  proof (cases "passed T (Suc G) s")
    case True
    then show ?thesis using passed_step assms(3,4) by (simp add: resetting_def)
  next
    case False
    then obtain st where s: "bar_inv T G s" "bar_pcs s l = B_Reset st" using assms(1) by (auto simp: resetting_def)
    note step = bar_inv_step [OF s(1) assms(3,4), of k]
    show ?thesis
    proof (cases "i = l")
      case True
      then have "bar_inv T (Suc G) (thread_step k i s)" using step s(2) by simp
      then show ?thesis using True by (auto simp: passed_def)
    next
      case other: False
      have "releasing s l" using s(2) by (simp add: releasing_def)
      then have "bar_inv T G (thread_step k i s)" using step other_not_reset [OF s(1) _ assms(2,3) other] by simp
      then show ?thesis using other s(2) thread_step_other(1) [of l i k s] by (simp add: resetting_def)
    qed
  qed
  then show "resetting T G l (thread_step k i s)" "i = l \<Longrightarrow> passed T (Suc G) (thread_step k i s)"
    by (auto simp: resetting_def)
qed

definition last_arrived :: "nat \<Rightarrow> nat \<Rightarrow> nat \<Rightarrow> bar_sys \<Rightarrow> bool" where
  "last_arrived T G l s \<longleftrightarrow> bar_inv T G s \<and> releasing s l"

lemma last_arrived_step:
  assumes "last_arrived T G l s" and "l < T" and "i < T" and "T < 2 ^ 32"
  shows "i \<noteq> l \<Longrightarrow> last_arrived T G l (thread_step k i s)" and "i = l \<Longrightarrow> resetting T G l (thread_step k i s)"
proof -
  have s: "bar_inv T G s" "releasing s l" using assms(1) by (auto simp: last_arrived_def)
  note step = bar_inv_step [OF s(1) assms(3,4), of k]
  show "last_arrived T G l (thread_step k i s)" if "i \<noteq> l"
    using step other_not_reset [OF s assms(2,3) that] s(2) thread_step_other(1) [of l i k s] that
    by (simp add: last_arrived_def releasing_def)
  show "resetting T G l (thread_step k i s)" if i: "i = l"
    using releasing_pc [OF s(2)]
  proof
    assume l: "\<exists>st. bar_pcs s l = B_Last st"
    then have "bar_inv T G (thread_step k i s)" using step i by auto
    moreover have "\<exists>st. bar_pcs (thread_step k i s) l = B_Reset st" using l i by (auto simp: thread_step_def barrier_step_def)
    ultimately show ?thesis by (simp add: resetting_def)
  next
    assume "\<exists>st. bar_pcs s l = B_Reset st"
    then have "resetting T G l s" using s(1) by (simp add: resetting_def)
    then show ?thesis by (rule resetting_step(1) [OF _ assms(2-4)])
  qed
qed

text \<open>A thread that has not left an opened barrier leaves it with its next step.\<close>

lemma passed_departs:
  assumes "passed T n s" and "i < T" and "T < 2 ^ 32" and arr: "n \<le> arrivals s i"
  shows "n \<le> departures (thread_step k i s) i"
proof -
  obtain G where G: "n \<le> G" "bar_inv T G s" using assms(1) by (auto simp: passed_def)
  have t: "thread_ok G s i" "generation (bar s) = gen G" using G(2) assms(2) by (auto simp: bar_inv_def)
  show ?thesis
  proof (cases "departures s i = G")
    case True
    then show ?thesis using G(1) departures_mono [of s i k i] by linarith
  next
    case False
    then obtain st where st: "bar_pcs s i = B_Wait st" "st = gen (departures s i)" "Suc (departures s i) = G"
      using t(1) by (cases "bar_pcs s i") (auto simp: thread_ok_def)
    have "released k st (generation (bar s))" using released_gen(2) [of k "departures s i"] st(2,3) t(2) by simp
    then have "departures (thread_step k i s) i = G" using st(1,3) by (simp add: thread_step_def barrier_step_def)
    then show ?thesis using G(1) by simp
  qed
qed

lemma arrivals_mono: "arrivals s j \<le> arrivals (thread_step k i s) j"
  by (cases "j = i") (auto simp: thread_step_def Let_def split: prod.split)

definition full_round :: "nat \<Rightarrow> nat list \<Rightarrow> bool" where
  "full_round T xs \<longleftrightarrow> set xs = {..<T}"

lemma full_roundD: "full_round T xs \<Longrightarrow> i \<in> set xs \<longleftrightarrow> i < T"
  by (simp add: full_round_def)

lemma passed_fold: "full_round T xs \<Longrightarrow> T < 2 ^ 32 \<Longrightarrow> passed T n s \<Longrightarrow> passed T n (fold (thread_step k) xs s)"
  by (rule stable_fold [where T = T]) (simp_all add: full_roundD passed_step)

lemma all_arrived_opens:
  assumes inv: "bar_inv T G s" and T: "0 < T" "T < 2 ^ 32" and arr: "\<And>j. j < T \<Longrightarrow> n \<le> arrivals s j"
    and r1: "full_round T xs" and r2: "full_round T ys"
  shows "passed T n (fold (thread_step k) ys (fold (thread_step k) xs s))"
proof (cases "n \<le> G")
  case True
  then have "passed T n s" using inv by (auto simp: passed_def)
  then have "passed T n (fold (thread_step k) xs s)"
    by (rule passed_fold [OF r1 T(2)])
  then show ?thesis by (rule passed_fold [OF r2 T(2)])
next
  case False
  have cnt: "arrivals s j = Suc G \<and> n = Suc G" if "j < T" for j
    using bar_inv_counts [OF inv that] arr [OF that] False by linarith
  have n: "n = Suc G" using cnt [OF T(1)] by simp
  have "entered T G s = {..<T}" using cnt by (auto simp: entered_def)
  then have "\<not> card (entered T G s) < T" by simp
  then obtain l where l: "l < T" "releasing s l" using inv unfolding bar_inv_def by blast
  then have "last_arrived T G l s" using inv by (simp add: last_arrived_def)
  have "resetting T G l (fold (thread_step k) xs s)"
  proof (rule leads_to [where Q = "last_arrived T G l" and l = l and T = T])
    show "last_arrived T G l (thread_step k i u) \<or> resetting T G l (thread_step k i u)"
      if "last_arrived T G l u" "i < T" for u i using last_arrived_step [OF that(1) l(1) that(2) T(2)] by blast
    show "resetting T G l (thread_step k l u)" if "last_arrived T G l u" for u
      using last_arrived_step(2) [OF that l(1) l(1) T(2)] by blast
    show "resetting T G l (thread_step k i u)" if "resetting T G l u" "i < T" for u i
      by (rule resetting_step(1) [OF that(1) l(1) that(2) T(2)])
  qed (use l(1) r1 \<open>last_arrived T G l s\<close> in \<open>simp_all add: full_roundD\<close>)
  then show ?thesis unfolding n
  proof (rule leads_to [where Q = "resetting T G l" and l = l and T = T, rotated -1])
    show "resetting T G l (thread_step k i u) \<or> passed T (Suc G) (thread_step k i u)"
      if "resetting T G l u" "i < T" for u i using resetting_step(1) [OF that(1) l(1) that(2) T(2)] by blast
    show "passed T (Suc G) (thread_step k l u)" if "resetting T G l u" for u
      using resetting_step(2) [OF that l(1) l(1) T(2)] by blast
  qed (use l(1) r2 T(2) in \<open>simp_all add: full_roundD passed_step\<close>)
qed

lemma arrivals_fold: "n \<le> arrivals s j \<Longrightarrow> n \<le> arrivals (fold (thread_step k) xs s) j"
proof (induction xs arbitrary: s)
  case (Cons i xs)
  have "n \<le> arrivals (thread_step k i s) j" by (rule order_trans [OF Cons.prems arrivals_mono])
  then show ?case by (simp add: Cons.IH)
qed simp

lemma opened_departs:
  assumes "passed T n s" and "T < 2 ^ 32" and arr: "n \<le> arrivals s i" and "i < T" and r: "full_round T xs"
  shows "n \<le> departures (fold (thread_step k) xs s) i"
proof (rule leads_to [where Q = "\<lambda>u. passed T n u \<and> n \<le> arrivals u i" and l = i and T = T])
  show "(passed T n (thread_step k j u) \<and> n \<le> arrivals (thread_step k j u) i) \<or> n \<le> departures (thread_step k j u) i"
    if "passed T n u \<and> n \<le> arrivals u i" "j < T" for u j
    using that assms(2) passed_step order_trans [OF _ arrivals_mono] by blast
  show "n \<le> departures (thread_step k i u) i" if "passed T n u \<and> n \<le> arrivals u i" for u
    using that passed_departs assms(2,4) by blast
  show "n \<le> departures (thread_step k j u) i" if "n \<le> departures u i" for u j
    using that departures_mono [of u i k j] by linarith
qed (use assms in \<open>simp_all add: full_roundD\<close>)

subsection \<open>What the barrier promises\<close>

text \<open>
  C8. A barrier of fewer than \<open>2 ^ 32\<close> threads holds in every interleaving of their steps: no thread
  leaves it for the \<open>n\<close>th time before every thread has arrived \<open>n\<close> times, also when the 32-bit
  generation has wrapped around.
\<close>

theorem barrier_holds:
  assumes "bar_reach k T s" and "0 < T" and "T < 2 ^ 32" and "i < T" and "j < T"
  shows "departures s i \<le> arrivals s j"
proof -
  obtain G where "bar_inv T G s" using bar_reach_inv assms by blast
  then show ?thesis using bar_inv_counts [of T G s i] bar_inv_counts [of T G s j] assms(4,5) by linarith
qed

text \<open>
  C9. A barrier opens: once every thread has arrived \<open>n\<close> times, every thread has left it \<open>n\<close> times
  after any three rounds of a schedule in which every thread has at least one turn a round, whatever
  the order of the turns. The last thread to arrive needs two of them to reset the counter and to
  publish the next generation.
\<close>

theorem barrier_opens:
  assumes "bar_reach k T s" and "T < 2 ^ 32" and "\<And>j. j < T \<Longrightarrow> n \<le> arrivals s j"
    and "full_round T xs" and "full_round T ys" and "full_round T zs" and "i < T"
  shows "n \<le> departures (fold (thread_step k) (xs @ ys @ zs) s) i"
proof -
  have T: "0 < T" using assms(7) by simp
  obtain G where "bar_inv T G s" using bar_reach_inv [OF assms(1) T assms(2)] by blast
  then have "passed T n (fold (thread_step k) ys (fold (thread_step k) xs s))"
    by (rule all_arrived_opens [OF _ T assms(2,3,4,5)])
  then show ?thesis
    using opened_departs [OF _ assms(2) _ assms(7,6), of n "fold (thread_step k) ys (fold (thread_step k) xs s)" k]
      arrivals_fold [OF arrivals_fold [OF assms(3) [OF assms(7)]]] by simp
qed

subsection \<open>The final barrier\<close>

text \<open>\<open>gomp_team_barrier_wait_final\<close> counts in a word of its own, as a cancelled barrier leaves \<open>awaited\<close> anywhere.\<close>

definition final_start_arrive :: "32 word \<Rightarrow> barrier \<Rightarrow> barrier \<times> bar_pc" where
  "final_start_arrive ret b =
    (let b1 = b\<lparr>awaited_final := awaited_final b - 1\<rparr>
     in (b1, if awaited_final b1 = 0 then B_Last (ret OR BAR_WAS_LAST) else B_Wait ret))"

definition final_step :: "barrier \<Rightarrow> bar_pc \<Rightarrow> barrier \<times> bar_pc" where
  "final_step b pc = (case pc of
     B_Loaded ret \<Rightarrow> final_start_arrive ret b
   | B_Last state \<Rightarrow> (b\<lparr>awaited_final := total b, awaited := total b\<rparr>, B_Reset state)
   | _ \<Rightarrow> barrier_step Team_barrier b pc)"

definition final_thread_step :: "nat \<Rightarrow> bar_sys \<Rightarrow> bar_sys" where
  "final_thread_step i s =
    (let pc = bar_pcs s i; (b, pc') = final_step (bar s) pc in
     s\<lparr>bar := b, bar_pcs := (bar_pcs s)(i := pc'),
       arrivals := (arrivals s)(i := arrivals s i + (case pc of B_Loaded _ \<Rightarrow> 1 | _ \<Rightarrow> 0)),
       departures := (departures s)(i := departures s i + (if pc \<noteq> B_Out \<and> pc' = B_Out then 1 else 0))\<rparr>)"

text \<open>It starts with \<open>awaited\<close> at any value \<open>a\<close>.\<close>

definition final_start :: "nat \<Rightarrow> 32 word \<Rightarrow> bar_sys" where
  "final_start T a = (bar_start T)\<lparr>bar := (bar (bar_start T))\<lparr>awaited := a\<rparr>\<rparr>"

inductive final_reach :: "nat \<Rightarrow> 32 word \<Rightarrow> bar_sys \<Rightarrow> bool" for T a where
  start: "final_reach T a (final_start T a)"
| step: "final_reach T a s \<Longrightarrow> i < T \<Longrightarrow> final_reach T a (final_thread_step i s)"

definition final_like :: "bar_sys \<Rightarrow> bar_sys \<Rightarrow> bool" where
  "final_like s r \<longleftrightarrow> generation (bar s) = generation (bar r) \<and> total (bar s) = total (bar r)
    \<and> awaited_final (bar s) = awaited (bar r) \<and> bar_pcs s = bar_pcs r \<and> arrivals s = arrivals r \<and> departures s = departures r"

text \<open>A step of it is a step of the barrier of the team, with the other counter.\<close>

lemma final_like_step: "final_like s r \<Longrightarrow> final_like (final_thread_step i s) (thread_step Team_barrier i r)"
  by (cases "bar_pcs r i") (simp_all add: final_like_def final_thread_step_def thread_step_def final_step_def barrier_step_def
      final_start_arrive_def wait_start_arrive_def wait_start_load_def Let_def release_generation_def)

lemma final_reach_like: "final_reach T a s \<Longrightarrow> \<exists>r. bar_reach Team_barrier T r \<and> final_like s r"
proof (induction rule: final_reach.induct)
  case start
  have "final_like (final_start T a) (bar_start T)"
    by (simp add: final_like_def final_start_def bar_start_def gomp_barrier_init_def)
  then show ?case using bar_reach.start by blast
next
  case (step s i)
  then show ?case using final_like_step bar_reach.step by blast
qed

text \<open>So it holds as well.\<close>

lemma final_barrier_holds:
  assumes "final_reach T a s" "0 < T" "T < 2 ^ 32" "i < T" "j < T"
  shows "departures s i \<le> arrivals s j"
proof -
  obtain r where r: "bar_reach Team_barrier T r" "final_like s r" using final_reach_like [OF assms(1)] by blast
  obtain G where "bar_inv T G r" using bar_reach_inv [OF r(1) assms(2,3)] by blast
  then have "departures r i \<le> arrivals r j"
    using bar_inv_counts [of T G r i] bar_inv_counts [of T G r j] assms(4,5) by linarith
  then show ?thesis using r(2) by (simp add: final_like_def)
qed

subsection \<open>Cancelled waits\<close>

text \<open>One look of \<open>gomp_team_barrier_wait_cancel_end\<close> by a thread that is not the last: \<open>Some True\<close> when it leaves
  because of a cancellation, \<open>Some False\<close> when the barrier has opened.\<close>

definition gomp_team_barrier_wait_cancel_end :: "32 word \<Rightarrow> barrier \<Rightarrow> bool option" where
  "gomp_team_barrier_wait_cancel_end state b =
    (if state AND BAR_CANCELLED \<noteq> 0 then Some True
     else if generation b AND BAR_CANCELLED \<noteq> 0 then Some True
     else if generation b = state + BAR_INCR then Some False else None)"

lemma cancel_bit: "(x OR BAR_CANCELLED) AND BAR_CANCELLED \<noteq> 0"
proof -
  have "bit (x OR BAR_CANCELLED) 2" by (simp add: bit_or_iff)
  then show ?thesis using and_exp_eq_0_iff_not_bit [of "x OR BAR_CANCELLED" 2] by simp
qed

text \<open>A cancellation lets every waiting thread go; without one a thread goes when the barrier has opened.\<close>

lemma cancelled_wait_ends: "gomp_team_barrier_wait_cancel_end state (gomp_team_barrier_cancel b) = Some True"
proof -
  have "generation (gomp_team_barrier_cancel b) AND BAR_CANCELLED \<noteq> 0"
    using cancel_bit by (simp add: gomp_team_barrier_cancel_def)
  then show ?thesis unfolding gomp_team_barrier_wait_cancel_end_def by presburger
qed

lemma uncancelled_wait:
  "generation b = gen G \<Longrightarrow> gomp_team_barrier_wait_cancel_end (gen H) b =
    (if released Cancel_barrier (gen H) (generation b) then Some False else None)"
proof -
  have "gen K AND BAR_CANCELLED = 0" for K using and_exp_eq_0_iff_not_bit [of "gen K" 2] gen_bits(3) [of K] by simp
  then show "generation b = gen G \<Longrightarrow> ?thesis" by (simp add: gomp_team_barrier_wait_cancel_end_def released_def)
qed

text \<open>Two threads: one waits, the other one arrives last.\<close>

definition two_at_barrier :: "bar_kind \<Rightarrow> bar_sys" where
  "two_at_barrier k = thread_step k 1 (thread_step k 1 (thread_step k 0 (thread_step k 0 (bar_start 2))))"

lemma two_reach: "bar_reach k 2 (two_at_barrier k)"
  unfolding two_at_barrier_def by (intro bar_reach.intros) simp_all

lemma two_arrived: "j < 2 \<Longrightarrow> arrivals (two_at_barrier k) j = 1"
proof -
  assume "j < 2"
  then consider "j = 0" | "j = 1" by linarith
  then show ?thesis
    by cases (simp_all add: two_at_barrier_def thread_step_def barrier_step_def bar_start_def gomp_barrier_init_def
      wait_start_load_def wait_start_arrive_def)
qed

theorem barrier_holds_witness:
  "departures (two_at_barrier Team_barrier) 0 \<le> arrivals (two_at_barrier Team_barrier) 1"
  using barrier_holds [OF two_reach, of 0 1] by simp

lemma round_of_two: "full_round 2 [0, 1]" "full_round 2 [1, 0]"
  by (auto simp: full_round_def)

theorem barrier_opens_witness:
  "1 \<le> departures (fold (thread_step Plain_barrier) ([0, 1] @ [0, 1] @ [1, 0]) (two_at_barrier Plain_barrier)) 0"
  by (rule barrier_opens [OF two_reach _ _ round_of_two(1) round_of_two(1) round_of_two(2)]) (simp_all add: two_arrived)

end
