(* ===== verification/Task.thy ===== *)
theory Task
  imports PriorityQueue Barrier Icv "HOL-Library.Monad_Syntax"
begin

text \<open>
  The tasks of a team (\<open>gcc/libgomp/task.c\<close>): creation, dependences between the children of one task, the
  queues a ready task is in, and what happens before and after a task runs. The operations are the
  parts of \<open>task.c\<close> that run with \<open>task_lock\<close> held, over one record of the whole state; a result \<open>None\<close>
  is a fatal error or an access through a null pointer inside a queue. Tasks and task groups are
  numbers; their bodies and arguments are not modelled.
\<close>

subsection \<open>The state\<close>

text \<open>An entry of the array \<open>depend\<close> of a task is named by the task and its index. The hash table of the
  parent maps an address to the chain of the entries with this address, in the order of their
  \<open>next\<close> pointers.\<close>

type_synonym dep_id = "nat \<times> nat"

record depend_entry =
  d_addr :: int
  d_is_in :: bool
  d_redundant :: bool
  d_redundant_out :: bool

record gomp_taskwait =
  in_taskwait :: bool
  in_depend_wait :: bool
  n_depend :: int
  taskwait_sem :: int

record full_task = gomp_task +
  parent :: "nat option"
  t_icv :: icv
  children_queue :: priority_queue
  taskgroup :: "nat option"
  dependers :: "nat list option"
  depend_hash :: "(int \<Rightarrow> dep_id list) option"
  taskwait :: "gomp_taskwait option"
  depend_count :: nat
  num_dependees :: int
  fn :: "nat option"
  in_tied_task :: bool
  final_task :: bool
  copy_ctors_done :: bool
  depend :: "depend_entry list"

record gomp_taskgroup =
  tg_prev :: "nat option"
  taskgroup_queue :: priority_queue
  in_taskgroup_wait :: bool
  tg_cancelled :: bool
  num_children :: int
  taskgroup_sem :: int

text \<open>\<open>struct gomp_team\<close>, as far as tasks are concerned, with the memory of its tasks and task groups; each
  kind of queue has its own links.\<close>

record task_team =
  task_of :: "nat \<Rightarrow> full_task"
  group_of :: "nat \<Rightarrow> gomp_taskgroup"
  children_links :: links
  group_links :: links
  team_links :: links
  team_queue :: priority_queue
  task_count :: int
  task_queued_count :: int
  task_running_count :: int
  tt_nthreads :: int
  tt_barrier :: barrier

definition upd :: "nat \<Rightarrow> (full_task \<Rightarrow> full_task) \<Rightarrow> task_team \<Rightarrow> task_team" where
  "upd t f s = s\<lparr>task_of := (task_of s)(t := f (task_of s t))\<rparr>"

definition upd_group :: "nat \<Rightarrow> (gomp_taskgroup \<Rightarrow> gomp_taskgroup) \<Rightarrow> task_team \<Rightarrow> task_team" where
  "upd_group g f s = s\<lparr>group_of := (group_of s)(g := f (group_of s g))\<rparr>"

abbreviation plain_tasks :: "task_team \<Rightarrow> nat \<Rightarrow> gomp_task" where
  "plain_tasks s \<equiv> \<lambda>t. gomp_task.truncate (task_of s t)"

subsection \<open>The three kinds of queues\<close>

definition on_children ::
  "nat \<Rightarrow> (links \<times> priority_queue \<Rightarrow> (links \<times> priority_queue) option) \<Rightarrow> task_team \<Rightarrow> task_team option"
where
  "on_children p f s = map_option (\<lambda>(L, q). (upd p (\<lambda>t. t\<lparr>children_queue := q\<rparr>) s)\<lparr>children_links := L\<rparr>)
     (f (children_links s, children_queue (task_of s p)))"

definition on_group ::
  "nat \<Rightarrow> (links \<times> priority_queue \<Rightarrow> (links \<times> priority_queue) option) \<Rightarrow> task_team \<Rightarrow> task_team option"
where
  "on_group g f s = map_option (\<lambda>(L, q). (upd_group g (\<lambda>x. x\<lparr>taskgroup_queue := q\<rparr>) s)\<lparr>group_links := L\<rparr>)
     (f (group_links s, taskgroup_queue (group_of s g)))"

definition on_team ::
  "(links \<times> priority_queue \<Rightarrow> (links \<times> priority_queue) option) \<Rightarrow> task_team \<Rightarrow> task_team option"
where
  "on_team f s = map_option (\<lambda>(L, q). s\<lparr>team_links := L, team_queue := q\<rparr>) (f (team_links s, team_queue s))"

text \<open>Removal also says whether the queue has become empty.\<close>

definition remove_child :: "nat \<Rightarrow> nat \<Rightarrow> task_team \<Rightarrow> (bool \<times> task_team) option" where
  "remove_child p t s = map_option (\<lambda>(e, L, q). (e, (upd p (\<lambda>x. x\<lparr>children_queue := q\<rparr>) s)\<lparr>children_links := L\<rparr>))
     (priority_queue_remove t (priority (task_of s t)) (children_links s, children_queue (task_of s p)))"

definition remove_from_group :: "nat \<Rightarrow> nat \<Rightarrow> task_team \<Rightarrow> (bool \<times> task_team) option" where
  "remove_from_group g t s = map_option (\<lambda>(e, L, q). (e, (upd_group g (\<lambda>x. x\<lparr>taskgroup_queue := q\<rparr>) s)\<lparr>group_links := L\<rparr>))
     (priority_queue_remove t (priority (task_of s t)) (group_links s, taskgroup_queue (group_of s g)))"

definition insert_child :: "nat \<Rightarrow> nat \<Rightarrow> bool \<Rightarrow> task_team \<Rightarrow> task_team option" where
  "insert_child p t adjust s = on_children p
     (priority_queue_insert t (priority (task_of s t)) PRIORITY_INSERT_BEGIN adjust (parent_depends_on (task_of s t))) s"

definition insert_in_group :: "nat option \<Rightarrow> nat \<Rightarrow> task_team \<Rightarrow> task_team option" where
  "insert_in_group g t s = (case g of
     None \<Rightarrow> Some s
   | Some g \<Rightarrow> on_group g
       (priority_queue_insert t (priority (task_of s t)) PRIORITY_INSERT_BEGIN False (parent_depends_on (task_of s t))) s)"

definition insert_in_team :: "priority_insert_type \<Rightarrow> nat \<Rightarrow> task_team \<Rightarrow> task_team option" where
  "insert_in_team pos t s = on_team
     (priority_queue_insert t (priority (task_of s t)) pos False (parent_depends_on (task_of s t))) s"

subsection \<open>Life of a task\<close>

definition gomp_init_task :: "nat \<Rightarrow> nat option \<Rightarrow> icv \<Rightarrow> task_team \<Rightarrow> task_team" where
  "gomp_init_task t par prev_icv = upd t (\<lambda>x. x\<lparr>parent := par, t_icv := prev_icv, kind := GOMP_TASK_IMPLICIT,
     taskwait := None, in_tied_task := False, final_task := False, copy_ctors_done := False,
     parent_depends_on := False, children_queue := priority_queue_init (children_queue x), taskgroup := None,
     dependers := None, depend_hash := None, depend_count := 0\<rparr>)"

text \<open>The tasks on a list; the walk follows the \<open>next\<close> pointers until it is back at the first one.\<close>

partial_function (option) clear_parents_from :: "links \<Rightarrow> nat \<Rightarrow> nat \<Rightarrow> (nat \<Rightarrow> full_task) \<Rightarrow> (nat \<Rightarrow> full_task) option" where
  "clear_parents_from L h p T =
    (let T1 = T(p := (T p)\<lparr>parent := None\<rparr>)
     in if node_next L p = h then Some T1 else clear_parents_from L h (node_next L p) T1)"

declare clear_parents_from.simps [code]

definition gomp_clear_parent_in_list :: "priority_list \<Rightarrow> task_team \<Rightarrow> task_team option" where
  "gomp_clear_parent_in_list l s = (case tasks l of
     None \<Rightarrow> Some s
   | Some h \<Rightarrow> map_option (\<lambda>T. s\<lparr>task_of := T\<rparr>) (clear_parents_from (children_links s) h h (task_of s)))"

fun gomp_clear_parent_in_tree :: "priority_list tree \<Rightarrow> task_team \<Rightarrow> task_team option" where
  "gomp_clear_parent_in_tree Leaf s = Some s"
| "gomp_clear_parent_in_tree (Node l k r) s = do {
     s1 \<leftarrow> gomp_clear_parent_in_list k s;
     s2 \<leftarrow> gomp_clear_parent_in_tree l s1;
     gomp_clear_parent_in_tree r s2
   }"

text \<open>The queue is the one of the children of task \<open>t\<close>.\<close>

definition gomp_clear_parent :: "nat \<Rightarrow> task_team \<Rightarrow> task_team option" where
  "gomp_clear_parent t s =
    (let q = children_queue (task_of s t) in
     if priority_queue_multi_p q then
       map_option (upd t (\<lambda>x. x\<lparr>children_queue := (children_queue x)\<lparr>t_root := Leaf\<rparr>\<rparr>))
         (gomp_clear_parent_in_tree (t_root q) s)
     else gomp_clear_parent_in_list (pq_l q) s)"

subsection \<open>Dependences\<close>

definition entry :: "(nat \<Rightarrow> full_task) \<Rightarrow> dep_id \<Rightarrow> depend_entry" where
  "entry T e = depend (T (fst e)) ! snd e"

definition upd_entry :: "dep_id \<Rightarrow> (depend_entry \<Rightarrow> depend_entry) \<Rightarrow> (nat \<Rightarrow> full_task) \<Rightarrow> nat \<Rightarrow> full_task" where
  "upd_entry e f T = T(fst e := (T (fst e))\<lparr>depend := (depend (T (fst e)))[snd e := f (entry T e)]\<rparr>)"

text \<open>Make \<open>task\<close> wait for \<open>tsk\<close>, unless it does already.\<close>

definition add_depender :: "nat \<Rightarrow> nat \<Rightarrow> (nat \<Rightarrow> full_task) \<Rightarrow> nat \<Rightarrow> full_task" where
  "add_depender task tsk T =
    (let elem = (case dependers (T tsk) of None \<Rightarrow> [] | Some xs \<Rightarrow> xs) in
     if elem \<noteq> [] \<and> last elem = task then T
     else let T1 = T(tsk := (T tsk)\<lparr>dependers := Some (elem @ [task])\<rparr>)
          in T1(task := (T1 task)\<lparr>num_dependees := u64 (num_dependees (T1 task) + 1)\<rparr>))"

text \<open>The walk along the chain of an address; the results \<open>out\<close> and \<open>last\<close> are those of the C loop.\<close>

fun depend_scan ::
  "nat \<Rightarrow> bool \<Rightarrow> dep_id list \<Rightarrow> (nat \<Rightarrow> full_task) \<Rightarrow> dep_id option \<Rightarrow> dep_id option
    \<Rightarrow> (nat \<Rightarrow> full_task) \<times> dep_id option \<times> dep_id option"
where
  "depend_scan task new_in [] T out lst = (T, out, lst)"
| "depend_scan task new_in (e # es) T out lst =
    (if d_redundant_out (entry T e) then (T, out, lst)
     else if new_in \<and> d_is_in (entry T e) then depend_scan task new_in es T out (Some e)
     else depend_scan task new_in es (add_depender task (fst e) T)
            (if d_is_in (entry T e) then out else Some e) (Some e))"

definition move_after :: "dep_id \<Rightarrow> dep_id \<Rightarrow> dep_id list \<Rightarrow> dep_id list" where
  "move_after e p xs = (let ys = remove1 e xs in takeWhile (\<lambda>x. x \<noteq> p) ys @ p # e # tl (dropWhile (\<lambda>x. x \<noteq> p) ys))"

definition chain_of :: "nat \<Rightarrow> int \<Rightarrow> (nat \<Rightarrow> full_task) \<Rightarrow> dep_id list" where
  "chain_of par a T = (case depend_hash (T par) of None \<Rightarrow> [] | Some h \<Rightarrow> h a)"

definition set_chain :: "nat \<Rightarrow> int \<Rightarrow> dep_id list \<Rightarrow> (nat \<Rightarrow> full_task) \<Rightarrow> nat \<Rightarrow> full_task" where
  "set_chain par a xs T = T(par := (T par)\<lparr>depend_hash :=
     Some ((case depend_hash (T par) of None \<Rightarrow> (\<lambda>a. []) | Some h \<Rightarrow> h)(a := xs))\<rparr>)"

text \<open>One round of the loop of \<open>gomp_task_handle_depend\<close>.\<close>

definition depend_one :: "nat \<Rightarrow> nat \<Rightarrow> int \<times> bool \<Rightarrow> (nat \<Rightarrow> full_task) \<Rightarrow> nat \<Rightarrow> full_task" where
  "depend_one task par d T0 =
    (let (a, new_in) = d; i = length (depend (T0 task));
         T = T0(task := (T0 task)\<lparr>depend := depend (T0 task) @
               [\<lparr>d_addr = a, d_is_in = new_in, d_redundant = False, d_redundant_out = False\<rparr>]\<rparr>);
         slot = chain_of par a T
     in case slot of
          [] \<Rightarrow> set_chain par a [(task, i)] T
        | h # _ \<Rightarrow>
            if fst h = task then upd_entry (task, i) (\<lambda>e. e\<lparr>d_redundant := True\<rparr>) T
            else
              let (T1, out, lst) = depend_scan task new_in slot T None None in
              case (if new_in then None else out) of
                None \<Rightarrow> set_chain par a ((task, i) # slot) T1
              | Some e \<Rightarrow>
                  upd_entry e (\<lambda>x. x\<lparr>d_redundant_out := True\<rparr>)
                    (set_chain par a (if lst \<noteq> Some e then move_after e (the lst) ((task, i) # slot) else (task, i) # slot) T1))"

text \<open>\<open>nout\<close> addresses with \<open>out\<close> or \<open>inout\<close> dependences come first.\<close>

definition gomp_task_handle_depend :: "nat \<Rightarrow> nat \<Rightarrow> nat \<Rightarrow> int list \<Rightarrow> (nat \<Rightarrow> full_task) \<Rightarrow> nat \<Rightarrow> full_task" where
  "gomp_task_handle_depend task par nout addrs T =
    (let T1 = T(task := (T task)\<lparr>depend_count := length addrs, num_dependees := 0, depend := []\<rparr>);
         T2 = (if depend_hash (T1 par) = None then T1(par := (T1 par)\<lparr>depend_hash := Some (\<lambda>a. [])\<rparr>) else T1)
     in fold (depend_one task par) (zip addrs (map (\<lambda>i. nout \<le> i) [0..<length addrs])) T2)"

subsection \<open>Creation\<close>

abbreviation team_cancelled :: "task_team \<Rightarrow> bool" where
  "team_cancelled s \<equiv> gomp_team_barrier_cancelled (tt_barrier s)"

definition group_cancelled :: "nat option \<Rightarrow> task_team \<Rightarrow> bool" where
  "group_cancelled g s = (case g of None \<Rightarrow> False | Some g \<Rightarrow> tg_cancelled (group_of s g))"

text \<open>The clauses of the directive, and what \<open>GOMP_task\<close> decides with them: nothing is run when the
  region is cancelled, and the task is run at once or deferred. \<open>cur\<close> is the current task of the
  thread; there is a team.\<close>

record task_clauses =
  if_clause :: bool
  final_flag :: bool
  depend_flag :: bool
  priority_flag :: bool
  prio_clause :: c_int
  cpyfn :: bool
  dep_nout :: nat
  dep_addrs :: "int list"

definition task_priority :: "c_int \<Rightarrow> task_clauses \<Rightarrow> c_int" where
  "task_priority gomp_max_task_priority_var c =
    (if \<not> priority_flag c then 0
     else if prio_clause c > gomp_max_task_priority_var then gomp_max_task_priority_var
     else prio_clause c)"

definition task_cancelled :: "nat \<Rightarrow> task_team \<Rightarrow> bool" where
  "task_cancelled cur s \<longleftrightarrow> team_cancelled s \<or> group_cancelled (taskgroup (task_of s cur)) s"

definition task_undeferred :: "nat \<Rightarrow> task_clauses \<Rightarrow> task_team \<Rightarrow> bool" where
  "task_undeferred cur c s \<longleftrightarrow>
    \<not> if_clause c \<or> final_task (task_of s cur) \<or> task_count s > u32 (64 * tt_nthreads s)"

text \<open>An undeferred task: what is done before its body runs, and after it. Before, the thread waits for
  the tasks it depends on.\<close>

definition undeferred_begin :: "nat \<Rightarrow> nat \<Rightarrow> icv \<Rightarrow> c_int \<Rightarrow> task_clauses \<Rightarrow> task_team \<Rightarrow> task_team" where
  "undeferred_begin t cur ic prio c s =
    (let cu = task_of s cur in
     upd t (\<lambda>x. x\<lparr>kind := GOMP_TASK_UNDEFERRED, final_task := final_task cu \<or> final_flag c, priority := prio,
                  in_tied_task := in_tied_task cu, taskgroup := taskgroup cu\<rparr>)
       (gomp_init_task t (Some cur) ic s))"

definition undeferred_end :: "nat \<Rightarrow> task_team \<Rightarrow> task_team option" where
  "undeferred_end t s =
    (if \<not> priority_queue_empty_p (children_queue (task_of s t)) then gomp_clear_parent t s else Some s)"

text \<open>A deferred task: \<open>t\<close> is the new block of memory. The result also says whether a thread that waits
  at the barrier is woken.\<close>

definition deferred_new :: "nat \<Rightarrow> nat \<Rightarrow> icv \<Rightarrow> c_int \<Rightarrow> nat \<Rightarrow> task_clauses \<Rightarrow> task_team \<Rightarrow> task_team" where
  "deferred_new t par ic prio f c s =
    (let p = task_of s par in
     upd t (\<lambda>x. x\<lparr>priority := prio, kind := GOMP_TASK_WAITING, in_tied_task := in_tied_task p,
                  taskgroup := taskgroup p, copy_ctors_done := cpyfn c, fn := Some f, final_task := final_flag c\<rparr>)
       (gomp_init_task t (Some par) ic s))"

definition count_task :: "task_team \<Rightarrow> task_team" where
  "count_task s = s\<lparr>task_count := u32 (task_count s + 1), task_queued_count := u32 (task_queued_count s + 1)\<rparr>"

definition set_task_pending :: "task_team \<Rightarrow> task_team" where
  "set_task_pending s = s\<lparr>tt_barrier := gomp_team_barrier_set_task_pending (tt_barrier s)\<rparr>"

definition deferred_task :: "nat \<Rightarrow> nat \<Rightarrow> icv \<Rightarrow> c_int \<Rightarrow> nat \<Rightarrow> task_clauses \<Rightarrow> task_team \<Rightarrow> (bool \<times> task_team) option" where
  "deferred_task t par ic prio f c s =
    (let s1 = deferred_new t par ic prio f c s; g = taskgroup (task_of s par) in
     if (team_cancelled s1 \<or> group_cancelled g s1) \<and> \<not> copy_ctors_done (task_of s1 t) then Some (False, s1)
     else
       let s2 = (case g of None \<Rightarrow> s1 | Some g \<Rightarrow> upd_group g (\<lambda>x. x\<lparr>num_children := u64 (num_children x + 1)\<rparr>) s1);
           s3 = (if depend_flag c \<and> dep_addrs c \<noteq> []
                 then s2\<lparr>task_of := gomp_task_handle_depend t par (dep_nout c) (dep_addrs c) (task_of s2)\<rparr> else s2)
       in if depend_flag c \<and> dep_addrs c \<noteq> [] \<and> num_dependees (task_of s3 t) \<noteq> 0 then Some (False, s3)
          else do {
            s4 \<leftarrow> insert_child par t False s3;
            s5 \<leftarrow> insert_in_group g t s4;
            s6 \<leftarrow> insert_in_team PRIORITY_INSERT_END t s5;
            let s7 = set_task_pending (count_task s6);
            Some (u32 (task_running_count s7 + (if in_tied_task (task_of s7 par) then 0 else 1)) < tt_nthreads s7, s7)
          })"

subsection \<open>Before and after a task runs\<close>

text \<open>The result says that the task is not to be run. \<open>par\<close> is the parent as the caller gives it.\<close>

definition gomp_task_run_pre :: "nat \<Rightarrow> nat option \<Rightarrow> task_team \<Rightarrow> (bool \<times> task_team) option" where
  "gomp_task_run_pre child par s = do {
     s1 \<leftarrow> (case par of None \<Rightarrow> Some s
             | Some p \<Rightarrow> on_children p (priority_queue_downgrade_task (plain_tasks s) child) s);
     let g = taskgroup (task_of s1 child);
     s2 \<leftarrow> (case g of None \<Rightarrow> Some s1
             | Some g \<Rightarrow> on_group g (priority_queue_downgrade_task (plain_tasks s1) child) s1);
     s3 \<leftarrow> on_team (\<lambda>q. map_option snd (priority_queue_remove child (priority (task_of s2 child)) q)) s2;
     let s4 = upd child (\<lambda>x. x\<lparr>kind := GOMP_TASK_TIED\<rparr>) s3;
     let s5 = s4\<lparr>task_queued_count := u32 (task_queued_count s4 - 1)\<rparr>;
     let s6 = (if task_queued_count s5 = 0
               then s5\<lparr>tt_barrier := gomp_team_barrier_clear_task_pending (tt_barrier s5)\<rparr> else s5);
     Some ((team_cancelled s6 \<or> group_cancelled g s6) \<and> \<not> copy_ctors_done (task_of s6 child), s6)
   }"

definition unlink_entry :: "nat \<Rightarrow> dep_id \<Rightarrow> (nat \<Rightarrow> full_task) \<Rightarrow> nat \<Rightarrow> full_task" where
  "unlink_entry par e T =
    (if d_redundant (entry T e) then T
     else set_chain par (d_addr (entry T e)) (remove1 e (chain_of par (d_addr (entry T e)) T)) T)"

definition gomp_task_run_post_handle_depend_hash :: "nat \<Rightarrow> nat \<Rightarrow> (nat \<Rightarrow> full_task) \<Rightarrow> nat \<Rightarrow> full_task" where
  "gomp_task_run_post_handle_depend_hash child par T =
    fold (\<lambda>i. unlink_entry par (child, i)) [0..<depend_count (T child)] T"

text \<open>Tell the parent, if it waits, that one more task is ready.\<close>

definition wake_parent :: "nat \<Rightarrow> task_team \<Rightarrow> task_team" where
  "wake_parent p s = upd p (\<lambda>x. case taskwait x of
     None \<Rightarrow> x
   | Some w \<Rightarrow>
       if in_taskwait w then x\<lparr>taskwait := Some (w\<lparr>in_taskwait := False, taskwait_sem := taskwait_sem w + 1\<rparr>)\<rparr>
       else if in_depend_wait w then x\<lparr>taskwait := Some (w\<lparr>in_depend_wait := False, taskwait_sem := taskwait_sem w + 1\<rparr>)\<rparr>
       else x) s"

definition wake_group :: "nat option \<Rightarrow> task_team \<Rightarrow> task_team" where
  "wake_group g s = (case g of
     None \<Rightarrow> s
   | Some g \<Rightarrow> upd_group g (\<lambda>x. if in_taskgroup_wait x
       then x\<lparr>in_taskgroup_wait := False, taskgroup_sem := taskgroup_sem x + 1\<rparr> else x) s)"

text \<open>One round of the loop: \<open>task\<close> has one dependence less, and is put into the queues when it was the
  last one. The number counts the tasks that have become ready.\<close>

definition depender_done :: "nat option \<Rightarrow> nat \<Rightarrow> nat \<times> task_team \<Rightarrow> (nat \<times> task_team) option" where
  "depender_done par task r =
    (let (n, s) = r;
         s1 = upd task (\<lambda>x. x\<lparr>num_dependees := u64 (num_dependees x - 1)\<rparr>) s;
         g = taskgroup (task_of s1 task)
     in if num_dependees (task_of s1 task) \<noteq> 0 then Some (n, s1)
        else do {
          s2 \<leftarrow> (case par of None \<Rightarrow> Some s1 | Some p \<Rightarrow> map_option (wake_parent p) (insert_child p task True s1));
          s3 \<leftarrow> map_option (wake_group g) (insert_in_group g task s2);
          s4 \<leftarrow> insert_in_team PRIORITY_INSERT_END task s3;
          Some (Suc n, count_task s4)
        })"

fun dependers_done :: "nat option \<Rightarrow> nat list \<Rightarrow> nat \<times> task_team \<Rightarrow> (nat \<times> task_team) option" where
  "dependers_done par [] r = Some r"
| "dependers_done par (x # xs) r = Option.bind (depender_done par x r) (dependers_done par xs)"

definition gomp_task_run_post_handle_dependers :: "nat \<Rightarrow> nat list \<Rightarrow> task_team \<Rightarrow> (nat \<times> task_team) option" where
  "gomp_task_run_post_handle_dependers child elem s = do {
     (n, s1) \<leftarrow> dependers_done (parent (task_of s child)) elem (0, s);
     let s2 = upd child (\<lambda>x. x\<lparr>dependers := None\<rparr>) s1;
     Some (n, if 1 < n then set_task_pending s2 else s2)
   }"

definition gomp_task_run_post_handle_depend :: "nat \<Rightarrow> task_team \<Rightarrow> (nat \<times> task_team) option" where
  "gomp_task_run_post_handle_depend child s =
    (if depend_count (task_of s child) = 0 then Some (0, s)
     else
       let s1 = (case parent (task_of s child) of
                   None \<Rightarrow> s
                 | Some p \<Rightarrow> s\<lparr>task_of := gomp_task_run_post_handle_depend_hash child p (task_of s)\<rparr>)
       in case dependers (task_of s1 child) of
            None \<Rightarrow> Some (0, s1)
          | Some elem \<Rightarrow> gomp_task_run_post_handle_dependers child elem s1)"

definition gomp_task_run_post_remove_parent :: "nat \<Rightarrow> task_team \<Rightarrow> task_team option" where
  "gomp_task_run_post_remove_parent child s = (case parent (task_of s child) of
     None \<Rightarrow> Some s
   | Some p \<Rightarrow> do {
       s1 \<leftarrow> (if parent_depends_on (task_of s child) then
                 (case taskwait (task_of s p) of
                    None \<Rightarrow> None
                  | Some w \<Rightarrow>
                      let w1 = w\<lparr>n_depend := u64 (n_depend w - 1)\<rparr>;
                          w2 = (if n_depend w1 = 0 \<and> in_depend_wait w1
                                then w1\<lparr>in_depend_wait := False, taskwait_sem := taskwait_sem w1 + 1\<rparr> else w1)
                      in Some (upd p (\<lambda>x. x\<lparr>taskwait := Some w2\<rparr>) s))
               else Some s);
       (e, s2) \<leftarrow> remove_child p child s1;
       Some (if e then upd p (\<lambda>x. case taskwait x of
               None \<Rightarrow> x
             | Some w \<Rightarrow> if in_taskwait w
                 then x\<lparr>taskwait := Some (w\<lparr>in_taskwait := False, taskwait_sem := taskwait_sem w + 1\<rparr>)\<rparr> else x) s2
             else s2)
     })"

definition gomp_task_run_post_remove_taskgroup :: "nat \<Rightarrow> task_team \<Rightarrow> task_team option" where
  "gomp_task_run_post_remove_taskgroup child s = (case taskgroup (task_of s child) of
     None \<Rightarrow> Some s
   | Some g \<Rightarrow> do {
       (e, s1) \<leftarrow> remove_from_group g child s;
       let s2 = upd_group g (\<lambda>x. x\<lparr>num_children := (if num_children x > 1 then u64 (num_children x - 1) else 0)\<rparr>) s1;
       Some (if e then wake_group (Some g) s2 else s2)
     })"

text \<open>What \<open>gomp_barrier_handle_tasks\<close> does after a task has run: the result is the number of threads to
  wake, and whether the barrier has been completed. \<open>state\<close> is the state of the waiting thread.\<close>

definition barrier_task_done :: "bool \<Rightarrow> 32 word \<Rightarrow> nat \<Rightarrow> task_team \<Rightarrow> (nat \<times> bool \<times> task_team) option" where
  "barrier_task_done cancelled state child s = do {
     (new_tasks, s1) \<leftarrow> gomp_task_run_post_handle_depend child s;
     s2 \<leftarrow> gomp_task_run_post_remove_parent child s1;
     s3 \<leftarrow> gomp_clear_parent child s2;
     s4 \<leftarrow> gomp_task_run_post_remove_taskgroup child s3;
     let s5 = (if cancelled then s4 else s4\<lparr>task_running_count := u32 (task_running_count s4 - 1)\<rparr>);
     let wake = (if 1 < new_tasks then min (nat (u32 (tt_nthreads s5 - task_running_count s5))) new_tasks else 0);
     let s6 = s5\<lparr>task_count := u32 (task_count s5 - 1)\<rparr>;
     if task_count s6 = 0 \<and> gomp_team_barrier_waiting_for_tasks (tt_barrier s6)
     then Some (wake, True, s6\<lparr>tt_barrier := gomp_team_barrier_done state (tt_barrier s6)\<rparr>)
     else Some (wake, False, s6)
   }"

text \<open>What it does before: the next task of the team, unless the queue is empty.\<close>

definition barrier_task_pick :: "task_team \<Rightarrow> (nat option \<times> bool \<times> task_team) option" where
  "barrier_task_pick s =
    (if priority_queue_empty_p (team_queue s) then Some (None, False, s)
     else case priority_queue_next_task (plain_tasks s) (team_queue s) None of
       (None, ign) \<Rightarrow> None
     | (Some child, ign) \<Rightarrow> do {
         (cancelled, s1) \<leftarrow> gomp_task_run_pre child (parent (task_of s child)) s;
         if cancelled then Some (Some child, True, s1)
         else Some (Some child, False,
           upd child (\<lambda>x. x\<lparr>in_tied_task := True\<rparr>) (s1\<lparr>task_running_count := u32 (task_running_count s1 + 1)\<rparr>))
       })"

definition barrier_tasks_enter :: "32 word \<Rightarrow> task_team \<Rightarrow> bool \<times> task_team" where
  "barrier_tasks_enter state s =
    (if gomp_barrier_last_thread state then
       if task_count s = 0 then (True, s\<lparr>tt_barrier := gomp_team_barrier_done state (tt_barrier s)\<rparr>)
       else (False, s\<lparr>tt_barrier := gomp_team_barrier_set_waiting_for_tasks (tt_barrier s)\<rparr>)
     else (False, s))"

end
