(* ===== verification/TaskDepend.thy ===== *)
theory TaskDepend
  imports Task
begin

text \<open>
  What the \<open>depend\<close> clauses of \<open>task.c\<close> achieve: for the children of one task that have such clauses,
  a task has no unsatisfied dependence left exactly when every earlier child with a conflicting
  clause has finished. The invariant relates the chains of the hash table, the lists of dependers
  and the counters; its key is that an \<open>out\<close> entry that is no longer scanned (\<open>redundant_out\<close>) is
  waited for through the later \<open>out\<close> entry that replaced it.
\<close>

subsection \<open>Dependers and counters\<close>

definition elems :: "(nat \<Rightarrow> full_task) \<Rightarrow> nat \<Rightarrow> nat list" where
  "elems T u = (case dependers (T u) of None \<Rightarrow> [] | Some xs \<Rightarrow> xs)"

definition blockers :: "nat set \<Rightarrow> (nat \<Rightarrow> full_task) \<Rightarrow> nat \<Rightarrow> nat set" where
  "blockers U T t = {u \<in> U. t \<in> set (elems T u)}"

definition counted :: "nat set \<Rightarrow> (nat \<Rightarrow> full_task) \<Rightarrow> nat \<Rightarrow> bool" where
  "counted U T t \<longleftrightarrow> num_dependees (T t) = int (card (blockers U T t))"

text \<open>The task that is being created is at the end of every list it is in.\<close>

definition newest :: "nat set \<Rightarrow> nat \<Rightarrow> (nat \<Rightarrow> full_task) \<Rightarrow> bool" where
  "newest U t T \<longleftrightarrow> (\<forall>u \<in> U. t \<in> set (elems T u) \<longrightarrow> last (elems T u) = t)"

text \<open>Nothing but lists of dependers and the counter of \<open>t\<close> differs.\<close>

definition same_clauses :: "nat \<Rightarrow> (nat \<Rightarrow> full_task) \<Rightarrow> (nat \<Rightarrow> full_task) \<Rightarrow> bool" where
  "same_clauses t T T' \<longleftrightarrow> (\<forall>x. depend (T' x) = depend (T x) \<and> depend_hash (T' x) = depend_hash (T x)
     \<and> depend_count (T' x) = depend_count (T x) \<and> (x \<noteq> t \<longrightarrow> num_dependees (T' x) = num_dependees (T x)))"

lemma same_clauses_refl: "same_clauses t T T"
  by (simp add: same_clauses_def)

lemma same_clauses_trans: "same_clauses t T T' \<Longrightarrow> same_clauses t T' T'' \<Longrightarrow> same_clauses t T T''"
  by (simp add: same_clauses_def)

lemma same_clauses_entry: "same_clauses t T T' \<Longrightarrow> entry T' e = entry T e"
  by (simp add: same_clauses_def entry_def)

lemma add_depender_new:
  assumes "newest U t T" and "u \<in> U" and "u \<noteq> t"
  shows "elems (add_depender t u T) x = (if x = u \<and> t \<notin> set (elems T u) then elems T u @ [t] else elems T x)"
    and "same_clauses t T (add_depender t u T)" and "newest U t (add_depender t u T)"
    and "num_dependees (add_depender t u T t) =
      (if t \<in> set (elems T u) then num_dependees (T t) else u64 (num_dependees (T t) + 1))"
proof -
  have mem: "elems T u \<noteq> [] \<and> last (elems T u) = t \<longleftrightarrow> t \<in> set (elems T u)"
  proof
    assume "elems T u \<noteq> [] \<and> last (elems T u) = t"
    then show "t \<in> set (elems T u)" using last_in_set by blast
  next
    assume t: "t \<in> set (elems T u)"
    then have "last (elems T u) = t" using assms(1,2) unfolding newest_def by blast
    then show "elems T u \<noteq> [] \<and> last (elems T u) = t" using t by auto
  qed
  have e: "(case dependers (T u) of None \<Rightarrow> [] | Some xs \<Rightarrow> xs) = elems T u" by (simp add: elems_def)
  note d = add_depender_def [of t u T, unfolded e Let_def mem]
  show el: "elems (add_depender t u T) x = (if x = u \<and> t \<notin> set (elems T u) then elems T u @ [t] else elems T x)" for x
    using assms(3) by (auto simp: d elems_def)
  show "same_clauses t T (add_depender t u T)" by (auto simp: d same_clauses_def)
  show "newest U t (add_depender t u T)" using assms(1) unfolding newest_def el by auto
  show "num_dependees (add_depender t u T t) =
      (if t \<in> set (elems T u) then num_dependees (T t) else u64 (num_dependees (T t) + 1))"
    using assms(3) by (auto simp: d)
qed

lemma add_depender_counted:
  assumes "newest U t T" and "u \<in> U" and "u \<noteq> t" and "counted U T t" and "finite U" and "card U < 2 ^ 64"
  shows "counted U (add_depender t u T) t"
proof (cases "t \<in> set (elems T u)")
  case True
  then have "elems (add_depender t u T) = elems T" using add_depender_new(1) [OF assms(1-3)] by (auto simp: fun_eq_iff)
  then show ?thesis using assms(4) True add_depender_new(4) [OF assms(1-3)] by (simp add: counted_def blockers_def)
next
  case False
  let ?T = "add_depender t u T"
  have b: "blockers U ?T t = insert u (blockers U T t)" "u \<notin> blockers U T t"
    using False assms(2) by (auto simp: blockers_def add_depender_new(1) [OF assms(1-3)])
  have sub: "insert u (blockers U T t) \<subseteq> U" using assms(2) by (auto simp: blockers_def)
  have f: "finite (blockers U T t)" unfolding blockers_def using assms(5) by simp
  have "card (insert u (blockers U T t)) \<le> card U" by (rule card_mono [OF assms(5) sub])
  then have "Suc (card (blockers U T t)) < 2 ^ 64" using assms(6) f b(2) by simp
  then have "u64 (num_dependees (T t) + 1) = int (Suc (card (blockers U T t)))"
    using assms(4) by (simp add: counted_def u64_id)
  then show ?thesis using False f b add_depender_new(4) [OF assms(1-3)] by (simp add: counted_def)
qed

subsection \<open>The walk along a chain\<close>

text \<open>The entries looked at, and those among them that the new task has to wait for.\<close>

definition scanned :: "(nat \<Rightarrow> full_task) \<Rightarrow> dep_id list \<Rightarrow> dep_id list" where
  "scanned T xs = takeWhile (\<lambda>e. \<not> d_redundant_out (entry T e)) xs"

definition blocks :: "bool \<Rightarrow> depend_entry \<Rightarrow> bool" where
  "blocks new_in e \<longleftrightarrow> \<not> new_in \<or> \<not> d_is_in e"

lemma depend_scan_spec:
  assumes "depend_scan t new_in xs T out lst = (T', out', lst')" and "newest U t T" and "\<forall>e \<in> set xs. fst e \<noteq> t"
    and "fst ` set xs \<subseteq> U"
  shows "(\<forall>x. elems T' x = elems T x @ (if t \<notin> set (elems T x) \<and> (\<exists>e \<in> set (scanned T xs). fst e = x \<and> blocks new_in (entry T e)) then [t] else []))
    \<and> same_clauses t T T' \<and> newest U t T'
    \<and> (\<not> new_in \<longrightarrow> out' = (case filter (\<lambda>e. \<not> d_is_in (entry T e)) (scanned T xs) of [] \<Rightarrow> out | ys \<Rightarrow> Some (last ys)))
    \<and> lst' = (case scanned T xs of [] \<Rightarrow> lst | ys \<Rightarrow> Some (last ys))
    \<and> (counted U T t \<and> finite U \<and> card U < 2 ^ 64 \<longrightarrow> counted U T' t)"
  using assms
proof (induction xs arbitrary: T out lst)
  case Nil
  then show ?case by (simp add: scanned_def same_clauses_refl)
next
  case (Cons e es)
  show ?case
  proof (cases "d_redundant_out (entry T e)")
    case True
    then show ?thesis using Cons.prems by (simp add: scanned_def same_clauses_refl)
  next
    case not_out: False
    then have sc: "scanned T (e # es) = e # scanned T es" by (simp add: scanned_def)
    have ne: "fst e \<noteq> t" "\<forall>e \<in> set es. fst e \<noteq> t" "fst e \<in> U" "fst ` set es \<subseteq> U" using Cons.prems(3,4) by simp_all
    show ?thesis
    proof (cases "new_in \<and> d_is_in (entry T e)")
      case True
      then have "depend_scan t new_in es T out (Some e) = (T', out', lst')" using Cons.prems(1) not_out by simp
      note IH = Cons.IH [OF this Cons.prems(2) ne(2,4)]
      have "\<not> blocks new_in (entry T e)" using True by (simp add: blocks_def)
      then show ?thesis using IH True unfolding sc by (auto split: list.splits)
    next
      case False
      let ?T = "add_depender t (fst e) T"
      have r: "depend_scan t new_in es ?T (if d_is_in (entry T e) then out else Some e) (Some e) = (T', out', lst')"
        using Cons.prems(1) not_out False by auto
      note add = add_depender_new [OF Cons.prems(2) ne(3,1)]
      have ent: "entry ?T = entry T" using same_clauses_entry [OF add(2)] by (auto simp: fun_eq_iff)
      have sce: "scanned ?T es = scanned T es" by (simp add: scanned_def ent)
      note IH = Cons.IH [OF r add(3) ne(2,4), unfolded ent sce]
      have b: "blocks new_in (entry T e)" using False by (simp add: blocks_def)
      have el: "elems T' x = elems T x @ (if t \<notin> set (elems T x) \<and> (\<exists>e' \<in> set (scanned T (e # es)). fst e' = x \<and> blocks new_in (entry T e')) then [t] else [])" for x
        using IH b add(1) [of x] unfolding sc by (cases "x = fst e") auto
      have cnt: "counted U T t \<and> finite U \<and> card U < 2 ^ 64 \<longrightarrow> counted U T' t"
        using add_depender_counted [OF Cons.prems(2) ne(3,1)] IH by blast
      have out: "\<not> new_in \<longrightarrow> out' = (case filter (\<lambda>e. \<not> d_is_in (entry T e)) (scanned T (e # es)) of [] \<Rightarrow> out | ys \<Rightarrow> Some (last ys))"
        using IH unfolding sc by (auto split: list.splits)
      have lst: "lst' = (case scanned T (e # es) of [] \<Rightarrow> lst | ys \<Rightarrow> Some (last ys))"
        using IH unfolding sc by (auto split: list.splits)
      have "same_clauses t T T' \<and> newest U t T'" using IH same_clauses_trans [OF add(2)] by blast
      then show ?thesis using el cnt out lst by blast
    qed
  qed
qed

subsection \<open>The invariant\<close>

definition before :: "nat list \<Rightarrow> nat \<Rightarrow> nat \<Rightarrow> bool" where
  "before cs u t \<longleftrightarrow> t \<in> set cs \<and> u \<in> set (takeWhile (\<lambda>x. x \<noteq> t) cs)"

text \<open>Two tasks conflict when they name a common address and one of them does not only read it.\<close>

definition conflict :: "depend_entry list \<Rightarrow> depend_entry list \<Rightarrow> bool" where
  "conflict ds es \<longleftrightarrow> (\<exists>d \<in> set ds. \<exists>e \<in> set es. d_addr d = d_addr e \<and> (\<not> d_is_in d \<or> \<not> d_is_in e))"

definition waits :: "nat set \<Rightarrow> (nat \<Rightarrow> full_task) \<Rightarrow> (nat \<times> nat) set" where
  "waits U T = {(u, t). u \<in> U \<and> t \<in> set (elems T u)}"

text \<open>Outputs come first, and an entry is redundant when the address has been named before.\<close>

definition clause_ok :: "depend_entry list \<Rightarrow> bool" where
  "clause_ok ds \<longleftrightarrow>
    (\<forall>i j. i < j \<and> j < length ds \<and> d_is_in (ds ! i) \<longrightarrow> d_is_in (ds ! j))
    \<and> (\<forall>j < length ds. d_redundant (ds ! j) \<longleftrightarrow> (\<exists>i < j. d_addr (ds ! i) = d_addr (ds ! j)))"

definition live :: "nat set \<Rightarrow> (nat \<Rightarrow> full_task) \<Rightarrow> int \<Rightarrow> dep_id set" where
  "live U T a = {e. fst e \<in> U \<and> snd e < length (depend (T (fst e))) \<and> d_addr (entry T e) = a \<and> \<not> d_redundant (entry T e)}"

definition chain_parts :: "(nat \<times> nat) set \<Rightarrow> (dep_id \<Rightarrow> depend_entry) \<Rightarrow> dep_id list \<Rightarrow> dep_id list \<Rightarrow> bool" where
  "chain_parts W ent pre red \<longleftrightarrow>
    (\<forall>e \<in> set pre. \<not> d_redundant_out (ent e)) \<and> (\<forall>e \<in> set red. d_redundant_out (ent e) \<and> \<not> d_is_in (ent e))
    \<and> (\<forall>e \<in> set pre. \<forall>e' \<in> set pre. \<not> d_is_in (ent e) \<and> \<not> d_is_in (ent e') \<longrightarrow> e' = e)
    \<and> (\<forall>r \<in> set red. \<exists>x \<in> set pre. \<not> d_is_in (ent x) \<and> (fst r, fst x) \<in> W\<^sup>+)"

definition chain_inv :: "nat set \<Rightarrow> (nat \<Rightarrow> full_task) \<Rightarrow> int \<Rightarrow> dep_id list \<Rightarrow> bool" where
  "chain_inv U T a xs \<longleftrightarrow> distinct xs \<and> set xs = live U T a
    \<and> (\<exists>pre red. xs = pre @ red \<and> chain_parts (waits U T) (entry T) pre red)"

definition dep_inv :: "nat \<Rightarrow> nat list \<Rightarrow> nat set \<Rightarrow> (nat \<Rightarrow> full_task) \<Rightarrow> bool" where
  "dep_inv P cs U T \<longleftrightarrow> distinct cs \<and> P \<notin> set cs \<and> U \<subseteq> set cs
    \<and> (\<forall>u \<in> U. clause_ok (depend (T u)) \<and> distinct (elems T u)
        \<and> (\<forall>t \<in> set (elems T u). t \<in> U \<and> before cs u t \<and> conflict (depend (T u)) (depend (T t))))
    \<and> (\<forall>t \<in> U. counted U T t)
    \<and> (\<forall>a. chain_inv U T a (chain_of P a T))
    \<and> (\<forall>u \<in> U. \<forall>t \<in> U. before cs u t \<and> conflict (depend (T u)) (depend (T t)) \<longrightarrow> (u, t) \<in> (waits U T)\<^sup>+)"

text \<open>Immediate facts.\<close>

lemma before_snoc: "distinct (cs @ [t]) \<Longrightarrow> before (cs @ [t]) u x \<longleftrightarrow> before cs u x \<or> (x = t \<and> u \<in> set cs)"
proof (cases "x = t")
  case True
  assume "distinct (cs @ [t])"
  then have "takeWhile (\<lambda>x. x \<noteq> t) (cs @ [t]) = cs" "t \<notin> set cs" by (auto simp: takeWhile_append)
  then show ?thesis using True by (simp add: before_def)
qed (auto simp: before_def takeWhile_append)

lemma before_in: "before cs u t \<Longrightarrow> u \<in> set cs \<and> u \<noteq> t"
  by (auto simp: before_def dest: set_takeWhileD)

lemma conflict_snoc:
  "conflict ds (es @ [e]) \<longleftrightarrow> conflict ds es \<or> (\<exists>d \<in> set ds. d_addr d = d_addr e \<and> (\<not> d_is_in d \<or> \<not> d_is_in e))"
  by (auto simp: conflict_def)

text \<open>The first entry of a task with a given address is live, and is an output if any of them is.\<close>

lemma first_entry:
  assumes "clause_ok (depend (T u))" and "d \<in> set (depend (T u))" and "u \<in> U"
  obtains i where "(u, i) \<in> live U T (d_addr d)" "\<not> d_is_in d \<longrightarrow> \<not> d_is_in (entry T (u, i))"
proof -
  let ?ds = "depend (T u)"
  obtain j where j: "j < length ?ds" "?ds ! j = d" using assms(2) by (auto simp: in_set_conv_nth)
  have "d_addr (?ds ! j) = d_addr d" using j(2) by simp
  then obtain i where i: "d_addr (?ds ! i) = d_addr d" "i \<le> j" "\<forall>k < i. d_addr (?ds ! k) \<noteq> d_addr d"
    using ex_least_nat_le [of "\<lambda>i. d_addr (?ds ! i) = d_addr d" j] by blast
  have "\<not> (\<exists>k < i. d_addr (?ds ! k) = d_addr (?ds ! i))" using i(1,3) by simp
  then have "\<not> d_redundant (?ds ! i)" using assms(1) i(2) j(1) by (auto simp: clause_ok_def)
  moreover have "\<not> d_is_in d \<longrightarrow> \<not> d_is_in (?ds ! i)"
    using assms(1) i(2) j unfolding clause_ok_def by (metis le_eq_less_or_eq)
  moreover from calculation(1) have "(u, i) \<in> live U T (d_addr d)" using i(1,2) j(1) assms(3) by (simp add: live_def entry_def)
  ultimately show thesis using that [of i] by (simp add: entry_def)
qed

lemma live_unique:
  assumes "clause_ok (depend (T u))" and "(u, i) \<in> live U T a" and "(u, j) \<in> live U T a"
  shows "i = j"
proof -
  have "\<not> i < j" "\<not> j < i" using assms by (auto simp: live_def entry_def clause_ok_def)
  then show ?thesis by simp
qed

subsection \<open>Adding one clause\<close>

definition cl :: "depend_entry \<Rightarrow> int \<times> bool \<times> bool" where
  "cl d = (d_addr d, d_is_in d, d_redundant d)"

lemma conflict_cl:
  assumes "map cl ds' = map cl ds" and "map cl es' = map cl es"
  shows "conflict ds' es' \<longleftrightarrow> conflict ds es"
proof -
  have c: "conflict ds es \<longleftrightarrow> (\<exists>x \<in> set (map cl ds). \<exists>y \<in> set (map cl es). fst x = fst y \<and> (\<not> fst (snd x) \<or> \<not> fst (snd y)))" for ds es
    by (simp add: conflict_def cl_def)
  show ?thesis unfolding c assms ..
qed

lemma clause_ok_cl1:
  assumes m: "map cl ds' = map cl ds" and ok: "clause_ok ds"
  shows "clause_ok ds'"
proof -
  have len: "length ds' = length ds" using m by (rule map_eq_imp_length_eq)
  have n: "cl (ds' ! i) = cl (ds ! i)" if "i < length ds" for i using arg_cong [OF m, of "\<lambda>l. l ! i"] that len by simp
  have e: "d_addr (ds' ! i) = d_addr (ds ! i)" "d_is_in (ds' ! i) = d_is_in (ds ! i)" "d_redundant (ds' ! i) = d_redundant (ds ! i)"
    if "i < length ds" for i using n [OF that] by (simp_all add: cl_def)
  show ?thesis unfolding clause_ok_def len
  proof (intro conjI allI impI)
    fix i j assume "i < j \<and> j < length ds \<and> d_is_in (ds' ! i)"
    then show "d_is_in (ds' ! j)" using ok e(2) [of i] e(2) [of j] by (auto simp: clause_ok_def)
  next
    fix j assume j: "j < length ds"
    have "(\<exists>i < j. d_addr (ds' ! i) = d_addr (ds' ! j)) \<longleftrightarrow> (\<exists>i < j. d_addr (ds ! i) = d_addr (ds ! j))"
      by (rule ex_cong1, rule conj_cong [OF refl]) (use e(1) j in simp)
    then show "d_redundant (ds' ! j) \<longleftrightarrow> (\<exists>i < j. d_addr (ds' ! i) = d_addr (ds' ! j))"
      using ok j e(3) [OF j] by (simp add: clause_ok_def)
  qed
qed

lemma clause_ok_cl: "map cl ds' = map cl ds \<Longrightarrow> clause_ok ds' \<longleftrightarrow> clause_ok ds"
  using clause_ok_cl1 [of ds' ds] clause_ok_cl1 [of ds ds'] by auto

lemma clause_ok_snoc:
  assumes "clause_ok ds" and "\<forall>d \<in> set ds. d_is_in d \<longrightarrow> d_is_in e" and "d_redundant e \<longleftrightarrow> (\<exists>d \<in> set ds. d_addr d = d_addr e)"
  shows "clause_ok (ds @ [e])"
proof -
  have "(\<exists>i < length ds. d_addr (ds ! i) = d_addr e) \<longleftrightarrow> (\<exists>d \<in> set ds. d_addr d = d_addr e)"
    by (metis in_set_conv_nth)
  then show ?thesis using assms unfolding clause_ok_def
    by (auto simp: nth_append less_Suc_eq)
qed

definition same_cl :: "(nat \<Rightarrow> full_task) \<Rightarrow> (nat \<Rightarrow> full_task) \<Rightarrow> nat \<Rightarrow> bool" where
  "same_cl T T' x \<longleftrightarrow> map cl (depend (T' x)) = map cl (depend (T x))"

lemma same_cl_entry: "same_cl T T' (fst e) \<Longrightarrow> snd e < length (depend (T (fst e))) \<Longrightarrow> cl (entry T' e) = cl (entry T e)"
proof -
  assume s: "same_cl T T' (fst e)" and l: "snd e < length (depend (T (fst e)))"
  then have "length (depend (T' (fst e))) = length (depend (T (fst e)))" by (auto simp: same_cl_def dest: map_eq_imp_length_eq)
  then show ?thesis using arg_cong [OF s [unfolded same_cl_def], of "\<lambda>l. l ! snd e"] l by (simp add: entry_def)
qed

lemma same_cl_length: "same_cl T T' x \<Longrightarrow> length (depend (T' x)) = length (depend (T x))"
  by (auto simp: same_cl_def dest: map_eq_imp_length_eq)

text \<open>The invariant while the clauses of the newest task \<open>t\<close> are handled.\<close>

definition creating :: "nat \<Rightarrow> nat list \<Rightarrow> nat \<Rightarrow> nat set \<Rightarrow> (nat \<Rightarrow> full_task) \<Rightarrow> bool" where
  "creating P cs t U T \<longleftrightarrow> dep_inv P (cs @ [t]) U T \<and> t \<in> U \<and> newest U t T
    \<and> (\<forall>a j. (t, j) \<in> set (chain_of P a T) \<longrightarrow> hd (chain_of P a T) = (t, j))"

lemma chain_inv_other:
  assumes "chain_inv U T b xs" and sub: "waits U T \<subseteq> waits U T'"
    and ent: "\<And>e. e \<in> set xs \<Longrightarrow> entry T' e = entry T e" and lv: "live U T' b = live U T b"
  shows "chain_inv U T' b xs"
proof -
  obtain pre red where p: "xs = pre @ red" "chain_parts (waits U T) (entry T) pre red" using assms(1) by (auto simp: chain_inv_def)
  have e: "\<And>e. e \<in> set pre \<Longrightarrow> entry T' e = entry T e" "\<And>e. e \<in> set red \<Longrightarrow> entry T' e = entry T e" using ent p(1) by auto
  have m: "x \<in> (waits U T)\<^sup>+ \<Longrightarrow> x \<in> (waits U T')\<^sup>+" for x using trancl_mono [OF _ sub] by blast
  have "chain_parts (waits U T') (entry T') pre red"
    using p(2) e m unfolding chain_parts_def by (metis (no_types, lifting))
  then show ?thesis using assms(1) p(1) lv by (auto simp: chain_inv_def)
qed

lemma creating_step:
  assumes cr: "creating P cs t U T" and fin: "finite U" and tP: "t \<noteq> P"
    and same: "\<And>x. x \<noteq> t \<Longrightarrow> same_cl T T' x"
    and t: "map cl (depend (T' t)) = map cl (depend (T t) @ [new])"
    and sorted: "\<forall>d \<in> set (depend (T t)). d_is_in d \<longrightarrow> d_is_in new"
    and red: "d_redundant new \<longleftrightarrow> (\<exists>d \<in> set (depend (T t)). d_addr d = d_addr new)"
    and el: "\<And>x. elems T' x = elems T x \<or> (t \<notin> set (elems T x) \<and> elems T' x = elems T x @ [t] \<and> x \<in> U \<and> x \<noteq> t \<and> conflict (depend (T x)) [new])"
    and num: "\<And>x. x \<noteq> t \<Longrightarrow> num_dependees (T' x) = num_dependees (T x)" and cnt: "counted U T' t"
    and chains: "\<And>b. b \<noteq> d_addr new \<Longrightarrow> chain_of P b T' = chain_of P b T"
    and ent: "\<And>e. snd e < length (depend (T (fst e))) \<Longrightarrow> d_addr (entry T e) \<noteq> d_addr new \<Longrightarrow> entry T' e = entry T e"
    and chain: "chain_inv U T' (d_addr new) (chain_of P (d_addr new) T')"
    and front: "\<And>j. (t, j) \<in> set (chain_of P (d_addr new) T') \<Longrightarrow> hd (chain_of P (d_addr new) T') = (t, j)"
    and conf: "\<And>u. u \<in> U \<Longrightarrow> u \<noteq> t \<Longrightarrow> conflict (depend (T u)) [new] \<Longrightarrow> (u, t) \<in> (waits U T')\<^sup>+"
  shows "creating P cs t U T'"
proof -
  have inv: "dep_inv P (cs @ [t]) U T" "t \<in> U" "newest U t T"
    and fr: "\<And>a j. (t, j) \<in> set (chain_of P a T) \<Longrightarrow> hd (chain_of P a T) = (t, j)"
    using cr by (auto simp: creating_def)
  have dist: "distinct (cs @ [t])" and Usub: "U \<subseteq> set (cs @ [t])" using inv(1) by (auto simp: dep_inv_def)
  have "set (elems T x) \<subseteq> set (elems T' x)" for x using el [of x] by auto
  then have sub: "waits U T \<subseteq> waits U T'" by (auto simp: waits_def)
  have con: "conflict (depend (T' u)) (depend (T' x)) \<longleftrightarrow>
      conflict (depend (T u)) (depend (T x)) \<or> (x = t \<and> conflict (depend (T u)) [new])" if "u \<noteq> t" for u x
  proof (cases "x = t")
    case True
    have "conflict (depend (T' u)) (depend (T' t)) \<longleftrightarrow> conflict (depend (T u)) (depend (T t) @ [new])"
      by (rule conflict_cl [OF same [OF that, unfolded same_cl_def] t])
    then show ?thesis using True by (auto simp: conflict_def)
  next
    case False
    then show ?thesis using conflict_cl [OF same [OF that, unfolded same_cl_def] same [OF False, unfolded same_cl_def]] by simp
  qed
  have bt: "\<not> before (cs @ [t]) t x" for x
    using dist before_in [of cs t x] before_snoc [OF dist, of t x] by auto
  have tasks: "clause_ok (depend (T' u)) \<and> distinct (elems T' u)
      \<and> (\<forall>x \<in> set (elems T' u). x \<in> U \<and> before (cs @ [t]) u x \<and> conflict (depend (T' u)) (depend (T' x)))" if u: "u \<in> U" for u
  proof (intro conjI)
    have old: "clause_ok (depend (T u))" "distinct (elems T u)"
      "\<And>x. x \<in> set (elems T u) \<Longrightarrow> x \<in> U \<and> before (cs @ [t]) u x \<and> conflict (depend (T u)) (depend (T x))"
      using inv(1) u by (auto simp: dep_inv_def)
    show "clause_ok (depend (T' u))"
    proof (cases "u = t")
      case True
      then show ?thesis using clause_ok_snoc [OF _ sorted red] old(1) clause_ok_cl [OF t] by simp
    next
      case False
      then show ?thesis using old(1) clause_ok_cl same unfolding same_cl_def by blast
    qed
    show "distinct (elems T' u)" using el [of u] old(2) by auto
    show "\<forall>x \<in> set (elems T' u). x \<in> U \<and> before (cs @ [t]) u x \<and> conflict (depend (T' u)) (depend (T' x))"
    proof
      fix x assume x: "x \<in> set (elems T' u)"
      show "x \<in> U \<and> before (cs @ [t]) u x \<and> conflict (depend (T' u)) (depend (T' x))"
      proof (cases "x \<in> set (elems T u)")
        case True
        then show ?thesis using old(3) [OF True] con [of u x] bt [of x] by auto
      next
        case False
        then have "x = t" "u \<noteq> t" "conflict (depend (T u)) [new]" using x el [of u] by auto
        then show ?thesis using con [of u t] inv(2) Usub u dist by (auto simp: before_snoc)
      qed
    qed
  qed
  have counts: "counted U T' x" if "x \<in> U" for x
  proof (cases "x = t")
    case False
    have "x \<in> set (elems T' u) \<longleftrightarrow> x \<in> set (elems T u)" for u using el [of u] False by auto
    then show ?thesis using inv(1) that num [OF False] by (auto simp: dep_inv_def counted_def blockers_def)
  qed (use cnt in simp)
  have len: "length (depend (T' t)) = Suc (length (depend (T t)))" using map_eq_imp_length_eq [OF t] by simp
  have nth: "cl (depend (T' t) ! k) = (if k < length (depend (T t)) then cl (depend (T t) ! k) else cl new)"
    if "k < Suc (length (depend (T t)))" for k
    using arg_cong [OF t, of "\<lambda>l. l ! k"] that len by (auto simp: nth_append)
  have lv: "live U T' b = live U T b" if b: "b \<noteq> d_addr new" for b
  proof (rule set_eqI)
    fix e :: dep_id
    show "e \<in> live U T' b \<longleftrightarrow> e \<in> live U T b"
    proof (cases "fst e = t")
      case False
      have "snd e < length (depend (T (fst e))) \<Longrightarrow> cl (entry T' e) = cl (entry T e)"
        by (rule same_cl_entry [OF same [OF False]])
      then show ?thesis using same_cl_length [OF same [OF False]] by (auto simp: live_def cl_def)
    next
      case True
      then show ?thesis using nth [of "snd e"] len b by (auto simp: live_def entry_def cl_def split: if_split_asm)
    qed
  qed
  have ch: "chain_inv U T' b (chain_of P b T')" for b
  proof (cases "b = d_addr new")
    case False
    have old: "chain_inv U T b (chain_of P b T)" using inv(1) by (auto simp: dep_inv_def)
    have "entry T' e = entry T e" if "e \<in> set (chain_of P b T)" for e
    proof -
      have "e \<in> live U T b" using that old by (auto simp: chain_inv_def)
      then have "d_addr (entry T e) = b" "snd e < length (depend (T (fst e)))" by (auto simp: live_def)
      then show ?thesis using ent [of e] False by simp
    qed
    then show ?thesis using chain_inv_other [OF old sub _ lv [OF False]] chains [OF False] by simp
  qed (use chain in simp)
  have paths: "(u, x) \<in> (waits U T')\<^sup>+"
    if "u \<in> U" "x \<in> U" "before (cs @ [t]) u x" "conflict (depend (T' u)) (depend (T' x))" for u x
  proof -
    have ut: "u \<noteq> t" using that(3) bt by auto
    show ?thesis
    proof (cases "conflict (depend (T u)) (depend (T x))")
      case True
      then have "(u, x) \<in> (waits U T)\<^sup>+" using inv(1) that(1-3) unfolding dep_inv_def by blast
      then show ?thesis by (rule trancl_mono [OF _ sub])
    next
      case False
      then show ?thesis using con [OF ut, of x] that(4) conf [OF that(1) ut] by auto
    qed
  qed
  have new: "newest U t T'" unfolding newest_def
  proof (intro ballI impI)
    fix u assume u: "u \<in> U" "t \<in> set (elems T' u)"
    show "last (elems T' u) = t" using el [of u] inv(3) u by (auto simp: newest_def)
  qed
  have head: "(t, j) \<in> set (chain_of P a T') \<longrightarrow> hd (chain_of P a T') = (t, j)" for a j
    using fr [of j a] front [of j] chains [of a] by (cases "a = d_addr new") auto
  have "P \<notin> set (cs @ [t])" using inv(1) by (simp add: dep_inv_def)
  then have "dep_inv P (cs @ [t]) U T'" unfolding dep_inv_def using dist Usub tasks counts ch paths by blast
  then show ?thesis using inv(2) new head by (simp add: creating_def)
qed

end
