(* ===== verification/DependCreate.thy ===== *)
theory DependCreate
  imports TaskDepend
begin

text \<open>
  The loop of \<open>gomp_task_handle_depend\<close> keeps the invariant of the dependences: one round, in the three
  cases of an address that is new, of one that the task has named before, and of one that other
  tasks have named.
\<close>

subsection \<open>Adding one clause: the three cases\<close>

lemma set_chain_simps [simp]:
  "depend (set_chain P a xs T x) = depend (T x)" "elems (set_chain P a xs T) x = elems T x"
  "num_dependees (set_chain P a xs T x) = num_dependees (T x)" "depend_count (set_chain P a xs T x) = depend_count (T x)"
  "chain_of P b (set_chain P a xs T) = (if b = a then xs else chain_of P b T)"
  "entry (set_chain P a xs T) e = entry T e"
  by (auto simp: set_chain_def elems_def chain_of_def entry_def split: option.split)

lemma upd_entry_simps [simp]:
  "elems (upd_entry e f T) x = elems T x" "num_dependees (upd_entry e f T x) = num_dependees (T x)"
  "depend_count (upd_entry e f T x) = depend_count (T x)" "chain_of P b (upd_entry e f T) = chain_of P b T"
  "depend (upd_entry e f T x) = (if x = fst e then (depend (T x))[snd e := f (entry T e)] else depend (T x))"
  by (auto simp: upd_entry_def elems_def chain_of_def)

lemma entry_upd_entry:
  "snd e < length (depend (T (fst e))) \<Longrightarrow> entry (upd_entry e f T) e' = (if e' = e then f (entry T e) else entry T e')"
  by (cases e, cases e') (auto simp: entry_def nth_list_update)

lemma map_update_id: "(\<And>d. g (f d) = g d) \<Longrightarrow> map g (xs[k := f (xs ! k)]) = map g xs"
proof -
  assume "\<And>d. g (f d) = g d"
  then have "map g (xs[k := f (xs ! k)]) = map g (xs[k := xs ! k])" unfolding map_update by simp
  then show ?thesis by simp
qed

lemma upd_entry_cl: "(\<And>d. cl (f d) = cl d) \<Longrightarrow> same_cl T (upd_entry e f T) x"
  using map_update_id [of cl f "depend (T x)" "snd e"] by (auto simp: same_cl_def entry_def)

lemma counted_cong: "elems T' = elems T \<Longrightarrow> num_dependees (T' t) = num_dependees (T t) \<Longrightarrow> counted U T' t = counted U T t"
  by (simp add: counted_def blockers_def)

lemma waits_cong: "elems T' = elems T \<Longrightarrow> waits U T' = waits U T"
  by (simp add: waits_def)

definition new_entry :: "int \<Rightarrow> bool \<Rightarrow> depend_entry" where
  "new_entry a new_in = \<lparr>d_addr = a, d_is_in = new_in, d_redundant = False, d_redundant_out = False\<rparr>"

definition append_entry :: "nat \<Rightarrow> depend_entry \<Rightarrow> (nat \<Rightarrow> full_task) \<Rightarrow> nat \<Rightarrow> full_task" where
  "append_entry t d T = T(t := (T t)\<lparr>depend := depend (T t) @ [d]\<rparr>)"

lemma append_entry_simps [simp]:
  "elems (append_entry t d T) x = elems T x" "num_dependees (append_entry t d T x) = num_dependees (T x)"
  "depend_count (append_entry t d T x) = depend_count (T x)" "chain_of P b (append_entry t d T) = chain_of P b T"
  "depend (append_entry t d T x) = (if x = t then depend (T t) @ [d] else depend (T x))"
  by (auto simp: append_entry_def elems_def chain_of_def)

lemma entry_append_entry [simp]: "entry (append_entry t d T) (t, length (depend (T t))) = d"
  by (simp add: entry_def)

lemma entry_append_old: "snd e < length (depend (T (fst e))) \<Longrightarrow> entry (append_entry t d T) e = entry T e"
  by (auto simp: entry_def nth_append)

lemma depend_one_unfold:
  "depend_one t P (a, new_in) T =
    (let i = length (depend (T t)); TA = append_entry t (new_entry a new_in) T; slot = chain_of P a T
     in case slot of
          [] \<Rightarrow> set_chain P a [(t, i)] TA
        | h # _ \<Rightarrow>
            if fst h = t then upd_entry (t, i) (\<lambda>e. e\<lparr>d_redundant := True\<rparr>) TA
            else
              let (T1, out, lst) = depend_scan t new_in slot TA None None in
              case (if new_in then None else out) of
                None \<Rightarrow> set_chain P a ((t, i) # slot) T1
              | Some e \<Rightarrow>
                  upd_entry e (\<lambda>x. x\<lparr>d_redundant_out := True\<rparr>)
                    (set_chain P a (if lst \<noteq> Some e then move_after e (the lst) ((t, i) # slot) else (t, i) # slot) T1))"
proof -
  have "chain_of P a (append_entry t (new_entry a new_in) T) = chain_of P a T" by simp
  then show ?thesis
    unfolding depend_one_def Let_def prod.case append_entry_def new_entry_def
    by (cases "chain_of P a T") (simp_all only: list.case)
qed

text \<open>What is known of a task that is being created.\<close>

lemma creatingD:
  assumes "creating P cs t U T"
  shows "dep_inv P (cs @ [t]) U T" "t \<in> U" "newest U t T" "(t, j) \<in> set (chain_of P a T) \<Longrightarrow> hd (chain_of P a T) = (t, j)"
    "chain_inv U T a (chain_of P a T)" "u \<in> U \<Longrightarrow> clause_ok (depend (T u))" "counted U T t" "t \<noteq> P"
    "set (chain_of P a T) = live U T a"
  using assms by (auto simp: creating_def dep_inv_def chain_inv_def)

lemma no_entry:
  assumes "creating P cs t U T" and "u \<in> U" and "\<not> (\<exists>i. (u, i) \<in> set (chain_of P a T))"
  shows "\<forall>d \<in> set (depend (T u)). d_addr d \<noteq> a"
proof
  fix d assume d: "d \<in> set (depend (T u))"
  show "d_addr d \<noteq> a"
  proof
    assume "d_addr d = a"
    obtain i where "(u, i) \<in> live U T (d_addr d)"
      by (rule first_entry [where T = T and U = U, OF creatingD(6) [OF assms(1,2)] d assms(2)])
    then show False using \<open>d_addr d = a\<close> assms(3) creatingD(9) [OF assms(1)] by blast
  qed
qed


lemma chain_invI:
  "distinct xs \<Longrightarrow> set xs = live U T a \<Longrightarrow> xs = pre @ red \<Longrightarrow> chain_parts (waits U T) (entry T) pre red \<Longrightarrow> chain_inv U T a xs"
  by (auto simp: chain_inv_def)

lemma live_append:
  assumes "t \<in> U" and "\<not> d_redundant d"
  shows "live U (append_entry t d T) b = live U T b \<union> (if b = d_addr d then {(t, length (depend (T t)))} else {})"
proof (rule set_eqI)
  fix e :: dep_id
  show "e \<in> live U (append_entry t d T) b \<longleftrightarrow> e \<in> live U T b \<union> (if b = d_addr d then {(t, length (depend (T t)))} else {})"
  proof (cases "e = (t, length (depend (T t)))")
    case True
    then show ?thesis using assms by (auto simp: live_def)
  next
    case False
    then have "snd e < length (depend (append_entry t d T (fst e))) \<longleftrightarrow> snd e < length (depend (T (fst e)))"
      by (cases e) auto
    then show ?thesis using False entry_append_old [of e T t d] by (auto simp: live_def)
  qed
qed

lemma depend_one_empty:
  assumes cr: "creating P cs t U T" and fin: "finite U" and s: "chain_of P a T = []"
    and sorted: "\<forall>d \<in> set (depend (T t)). d_is_in d \<longrightarrow> new_in"
  shows "creating P cs t U (depend_one t P (a, new_in) T)"
proof -
  let ?new = "new_entry a new_in" and ?i = "length (depend (T t))"
  let ?T = "set_chain P a [(t, ?i)] (append_entry t ?new T)"
  have T: "depend_one t P (a, new_in) T = ?T" using s by (simp add: depend_one_unfold)
  have none: "\<forall>d \<in> set (depend (T u)). d_addr d \<noteq> a" if "u \<in> U" for u using no_entry [OF cr that] s by simp
  have nc: "\<not> conflict (depend (T u)) [?new]" if "u \<in> U" for u using none [OF that] by (auto simp: conflict_def new_entry_def)
  have el: "elems ?T = elems T" by (auto simp: fun_eq_iff)
  show ?thesis unfolding T
  proof (rule creating_step [OF cr fin, where new = ?new])
    show "counted U ?T t" using creatingD(7) [OF cr] counted_cong [OF el] by simp
    have "live U T a = {}" using creatingD(9) [OF cr, of a] s by simp
    then have "live U ?T a = {(t, ?i)}" using live_append [OF creatingD(2) [OF cr], of ?new T a] by (auto simp: live_def new_entry_def)
    moreover have "chain_parts (waits U ?T) (entry ?T) [(t, ?i)] []" by (simp add: chain_parts_def new_entry_def)
    moreover have "chain_of P (d_addr ?new) ?T = [(t, ?i)]" "d_addr ?new = a" by (simp_all add: new_entry_def)
    ultimately show "chain_inv U ?T (d_addr ?new) (chain_of P (d_addr ?new) ?T)"
      by (intro chain_invI [where pre = "[(t, ?i)]" and red = "[]"]) simp_all
  qed (use creatingD(2,8) [OF cr] sorted none nc in \<open>auto simp: same_cl_def new_entry_def entry_append_old split: if_split_asm\<close>)
qed

lemma depend_one_redundant:
  assumes cr: "creating P cs t U T" and fin: "finite U" and s: "chain_of P a T = h # es" "fst h = t"
    and sorted: "\<forall>d \<in> set (depend (T t)). d_is_in d \<longrightarrow> new_in"
  shows "creating P cs t U (depend_one t P (a, new_in) T)"
proof -
  let ?i = "length (depend (T t))" and ?new = "new_entry a new_in"
  let ?new' = "?new\<lparr>d_redundant := True\<rparr>"
  let ?T = "upd_entry (t, ?i) (\<lambda>e. e\<lparr>d_redundant := True\<rparr>) (append_entry t ?new T)"
  have T: "depend_one t P (a, new_in) T = ?T" using s by (simp add: depend_one_unfold Let_def)
  have tU: "t \<in> U" by (rule creatingD(2) [OF cr])
  have h: "h \<in> live U T a" using creatingD(9) [OF cr, of a] s(1) by auto
  then have hd: "entry T h \<in> set (depend (T t))" "d_addr (entry T h) = a" using s(2) by (auto simp: live_def entry_def)
  have dep: "depend (?T t) = depend (T t) @ [?new']" by simp
  have el: "elems ?T = elems T" by (auto simp: fun_eq_iff)
  have ent: "entry ?T e = entry T e" if "snd e < length (depend (T (fst e)))" for e
    using that by (cases e) (auto simp: entry_upd_entry entry_append_old)
  have old: "conflict (depend (T u)) (depend (T t))" if u: "conflict (depend (T u)) [?new']" for u
  proof -
    obtain d where "d \<in> set (depend (T u))" "d_addr d = a" "\<not> d_is_in d \<or> \<not> new_in"
      using u by (auto simp: conflict_def new_entry_def)
    then show ?thesis using hd sorted unfolding conflict_def by metis
  qed
  show ?thesis unfolding T
  proof (rule creating_step [OF cr fin, where new = ?new'])
    show "counted U ?T t" using creatingD(7) [OF cr] counted_cong [OF el] by simp
    have "e \<in> live U ?T a \<longleftrightarrow> e \<in> live U T a" for e
    proof (cases "e = (t, ?i)")
      case True
      then show ?thesis by (auto simp: live_def entry_upd_entry)
    next
      case False
      then have "snd e < length (depend (?T (fst e))) \<longleftrightarrow> snd e < length (depend (T (fst e)))" by (cases e) auto
      then show ?thesis using ent [of e] by (auto simp: live_def)
    qed
    then have lv: "live U ?T a = live U T a" by blast
    have "chain_inv U ?T a (chain_of P a T)"
      by (rule chain_inv_other [OF creatingD(5) [OF cr] _ _ lv])
        (use ent creatingD(9) [OF cr, of a] waits_cong [OF el] in \<open>auto simp: live_def\<close>)
    then show "chain_inv U ?T (d_addr ?new') (chain_of P (d_addr ?new') ?T)" by (simp add: new_entry_def)
    show "(u, t) \<in> (waits U ?T)\<^sup>+" if "u \<in> U" "u \<noteq> t" "conflict (depend (T u)) [?new']" for u
    proof -
      have d: "distinct (cs @ [t])" "U \<subseteq> set (cs @ [t])" using creatingD(1) [OF cr] by (auto simp: dep_inv_def)
      then have "before (cs @ [t]) u t" using that(1,2) by (auto simp: before_snoc)
      then have "(u, t) \<in> (waits U T)\<^sup>+" using creatingD(1) [OF cr] that(1) tU old [OF that(3)] unfolding dep_inv_def by blast
      then show ?thesis using waits_cong [OF el] by simp
    qed
    show "(t, j) \<in> set (chain_of P (d_addr ?new') ?T) \<Longrightarrow> hd (chain_of P (d_addr ?new') ?T) = (t, j)" for j
      using creatingD(4) [OF cr, of j a] by (simp add: new_entry_def)
    show "map cl (depend (?T t)) = map cl (depend (T t) @ [?new'])" unfolding dep ..
    show "d_redundant ?new' = (\<exists>d \<in> set (depend (T t)). d_addr d = d_addr ?new')" using hd by (auto simp: new_entry_def)
  qed (use creatingD(8) [OF cr] sorted ent in \<open>auto simp: same_cl_def new_entry_def el\<close>)
qed


lemma scanned_parts:
  assumes "chain_parts W ent pre red" and "\<And>e. e \<in> set (pre @ red) \<Longrightarrow> entry T e = ent e"
  shows "scanned T (pre @ red) = pre"
proof -
  have p: "takeWhile (\<lambda>e. \<not> d_redundant_out (entry T e)) pre = pre"
    using assms by (auto simp: chain_parts_def takeWhile_eq_all_conv)
  have r: "takeWhile (\<lambda>e. \<not> d_redundant_out (entry T e)) red = []"
    using assms by (cases red) (auto simp: chain_parts_def)
  show ?thesis using p r unfolding scanned_def by (simp add: takeWhile_append)
qed

text \<open>The walk has been done and the new entry is put in front of the chain; \<open>T'\<close> is the result.\<close>

lemma scan_assemble:
  assumes cr: "creating P cs t U T" and fin: "finite U" and card: "card U < 2 ^ 64"
    and sorted: "\<forall>d \<in> set (depend (T t)). d_is_in d \<longrightarrow> new_in"
    and slot: "chain_of P a T = pre @ red" "chain_parts (waits U T) (entry T) pre red" and no_t: "\<forall>e \<in> set (pre @ red). fst e \<noteq> t"
    and scan: "depend_scan t new_in (pre @ red) (append_entry t (new_entry a new_in) T) None None = (T1, out, lst)"
    and T': "elems T' = elems T1" "\<And>x. num_dependees (T' x) = num_dependees (T1 x)"
      "\<And>x. same_cl (append_entry t (new_entry a new_in) T) T' x"
      "\<And>b. chain_of P b T' = (if b = a then C else chain_of P b T)"
      "\<And>e. snd e < length (depend (T (fst e))) \<Longrightarrow> d_addr (entry T e) \<noteq> a \<Longrightarrow> entry T' e = entry T e"
    and C: "distinct C" "set C = insert (t, length (depend (T t))) (set (pre @ red))" "hd C = (t, length (depend (T t)))"
      "C = pre' @ red'" "chain_parts (waits U T1) (entry T') pre' red'"
  shows "creating P cs t U T'"
proof -
  let ?new = "new_entry a new_in" and ?i = "length (depend (T t))"
  let ?TA = "append_entry t ?new T"
  have tU: "t \<in> U" by (rule creatingD(2) [OF cr])
  have in_live: "e \<in> live U T a" if "e \<in> set (pre @ red)" for e using that creatingD(9) [OF cr, of a] slot(1) by auto
  then have slot_ent: "entry ?TA e = entry T e" if "e \<in> set (pre @ red)" for e
    using entry_append_old [of e T t ?new] that by (auto simp: live_def)
  have pre: "scanned ?TA (pre @ red) = pre" by (rule scanned_parts [OF slot(2) slot_ent])
  have new: "newest U t ?TA" using creatingD(3) [OF cr] by (simp add: newest_def)
  have inU: "fst ` set (pre @ red) \<subseteq> U" using in_live unfolding live_def by blast
  note sp = depend_scan_spec [OF scan new no_t inU, unfolded pre]
  have el: "elems T1 x = elems T x @ (if t \<notin> set (elems T x) \<and> (\<exists>e \<in> set pre. fst e = x \<and> blocks new_in (entry T e)) then [t] else [])" for x
    using sp slot_ent by auto
  have sc: "same_clauses t ?TA T1" using sp by blast
  have "counted U ?TA t" using creatingD(7) [OF cr] counted_cong [of ?TA T] by (auto simp: fun_eq_iff)
  then have cnt: "counted U T1 t" using sp fin card by blast
  have nt: "(t, j) \<notin> set (pre @ red)" for j using bspec [OF no_t, of "(t, j)"] by auto
  have none: "\<forall>d \<in> set (depend (T t)). d_addr d \<noteq> a"
    by (rule no_entry [OF cr tU]) (use slot(1) nt in simp)
  have blk: "conflict (depend (T x)) [?new]" if "e \<in> set (pre @ red)" "fst e = x" "blocks new_in (entry T e)" for e x
  proof -
    have "entry T e \<in> set (depend (T x))" "d_addr (entry T e) = a" using in_live [OF that(1)] that(2) by (auto simp: live_def entry_def)
    then show ?thesis using that(3) by (auto simp: conflict_def new_entry_def blocks_def)
  qed
  show ?thesis
  proof (rule creating_step [OF cr fin, where new = ?new])
    show "counted U T' t" using cnt counted_cong [OF T'(1) T'(2)] by simp
    show "same_cl T T' x" if "x \<noteq> t" for x using T'(3) [of x] that by (simp add: same_cl_def)
    show "map cl (depend (T' t)) = map cl (depend (T t) @ [?new])" using T'(3) [of t] by (simp add: same_cl_def)
    show "elems T' x = elems T x \<or> t \<notin> set (elems T x) \<and> elems T' x = elems T x @ [t] \<and> x \<in> U \<and> x \<noteq> t \<and> conflict (depend (T x)) [?new]" for x
    proof (cases "t \<notin> set (elems T x) \<and> (\<exists>e \<in> set pre. fst e = x \<and> blocks new_in (entry T e))")
      case True
      then obtain e where e: "e \<in> set (pre @ red)" "fst e = x" "blocks new_in (entry T e)" by auto
      then have "x \<in> U" "x \<noteq> t" using in_live [OF e(1)] bspec [OF no_t e(1)] by (auto simp: live_def)
      moreover have "elems T' x = elems T x @ [t]" using True el [of x] T'(1) by simp
      ultimately show ?thesis using True blk [OF e] by blast
    next
      case False
      then have "elems T' x = elems T x" using el [of x] T'(1) by (simp only: if_False append_Nil2)
      then show ?thesis by blast
    qed
    show "num_dependees (T' x) = num_dependees (T x)" if "x \<noteq> t" for x
      using sc that T'(2) [of x] by (simp add: same_clauses_def)
    have "live U T' a = live U ?TA a"
    proof -
      have l: "length (depend (T' x)) = length (depend (?TA x))" for x using same_cl_length [OF T'(3)] .
      have "cl (entry T' e) = cl (entry ?TA e)" if "snd e < length (depend (?TA (fst e)))" for e using that by (rule same_cl_entry [OF T'(3)])
      then have f: "d_addr (entry T' e) = d_addr (entry ?TA e) \<and> d_redundant (entry T' e) = d_redundant (entry ?TA e)"
        if "snd e < length (depend (?TA (fst e)))" for e using that by (simp only: cl_def prod.inject)
      show ?thesis
      proof (rule set_eqI)
        fix e
        show "e \<in> live U T' a \<longleftrightarrow> e \<in> live U ?TA a"
          unfolding live_def mem_Collect_eq l using f [of e] by (cases "snd e < length (depend (?TA (fst e)))") (simp_all only: simp_thms)
      qed
    qed
    also have "\<dots> = set C" using live_append [OF tU, of ?new T a] C(2) slot(1) creatingD(9) [OF cr, of a] by (auto simp: new_entry_def)
    finally have "chain_inv U T' a C" using chain_invI [OF C(1) _ C(4)] C(5) waits_cong [OF T'(1)] by simp
    then show "chain_inv U T' (d_addr ?new) (chain_of P (d_addr ?new) T')" using T'(4) by (simp add: new_entry_def)
    show "hd (chain_of P (d_addr ?new) T') = (t, j)" if "(t, j) \<in> set (chain_of P (d_addr ?new) T')" for j
      using that T'(4) [of a] C(2,3) nt [of j] by (auto simp: new_entry_def)
    show "(u, t) \<in> (waits U T')\<^sup>+" if u: "u \<in> U" "u \<noteq> t" "conflict (depend (T u)) [?new]" for u
    proof -
      have w: "(fst e, t) \<in> waits U T'" if "e \<in> set pre" "blocks new_in (entry T e)" for e
        using that el [of "fst e"] in_live [of e] T'(1) by (auto simp: waits_def live_def)
      have sub: "waits U T \<subseteq> waits U T'" using el T'(1) by (auto simp: waits_def)
      obtain d where d: "d \<in> set (depend (T u))" "d_addr d = a" "\<not> d_is_in d \<or> \<not> new_in"
        using u(3) by (auto simp: conflict_def new_entry_def)
      obtain i where i: "(u, i) \<in> live U T a" "\<not> d_is_in d \<longrightarrow> \<not> d_is_in (entry T (u, i))"
        by (rule first_entry [where T = T and U = U, OF creatingD(6) [OF cr u(1)] d(1) u(1)]) (use d(2) in auto)
      then have mem: "(u, i) \<in> set pre \<or> (u, i) \<in> set red" using creatingD(9) [OF cr, of a] slot(1) by auto
      have b: "blocks new_in (entry T (u, i))" using d(3) i(2) by (auto simp: blocks_def)
      show ?thesis
      proof (cases "(u, i) \<in> set pre")
        case True
        then show ?thesis using w [OF True b] by auto
      next
        case False
        then obtain x where x: "x \<in> set pre" "\<not> d_is_in (entry T x)" "(u, fst x) \<in> (waits U T)\<^sup>+"
          using mem slot(2) by (auto simp: chain_parts_def)
        then have "(u, fst x) \<in> (waits U T')\<^sup>+" "(fst x, t) \<in> waits U T'"
          using trancl_mono [OF x(3) sub] w [OF x(1)] by (auto simp: blocks_def)
        then show ?thesis by (rule trancl_into_trancl)
      qed
    qed
  qed (use creatingD(8) [OF cr] sorted none T'(4,5) in \<open>auto simp: new_entry_def\<close>)
qed


lemma move_out:
  assumes "distinct (h # pre @ red)" and "e \<in> set pre"
  shows "(if last pre \<noteq> e then move_after e (last pre) (h # pre @ red) else h # pre @ red) = h # remove1 e pre @ e # red"
proof -
  obtain us vs where pre: "pre = us @ e # vs" using split_list [OF assms(2)] by blast
  have r: "remove1 e pre = us @ vs" using assms(1) by (auto simp: pre remove1_append)
  show ?thesis
  proof (cases "vs = []")
    case True
    then show ?thesis using r by (simp add: pre)
  next
    case False
    then obtain ws p where vs: "vs = ws @ [p]" by (metis append_butlast_last_id)
    have ys: "remove1 e (h # pre @ red) = h # us @ ws @ p # red" using assms(1) by (auto simp: pre vs remove1_append)
    have n: "p \<noteq> e" "p \<noteq> h" "p \<notin> set us" "p \<notin> set ws" using assms(1) by (auto simp: pre vs)
    have tw: "takeWhile (\<lambda>x. x \<noteq> p) (h # us @ ws @ p # red) = h # us @ ws" using n by (auto simp: takeWhile_append)
    have dw: "dropWhile (\<lambda>x. x \<noteq> p) (h # us @ ws @ p # red) = p # red" using n by (auto simp: dropWhile_append)
    have "last pre = p" by (simp add: pre vs)
    then show ?thesis using n(1) unfolding move_after_def r Let_def ys by (simp only: tw dw) (simp add: vs)
  qed
qed

lemma parts_add_front:
  assumes "chain_parts W ent pre red" and "W \<subseteq> W'" and "\<And>e. e \<in> set (pre @ red) \<Longrightarrow> ent' e = ent e"
    and "\<not> d_redundant_out (ent' h)" and "\<not> d_is_in (ent' h) \<Longrightarrow> \<forall>e \<in> set pre. d_is_in (ent e)"
  shows "chain_parts W' ent' (h # pre) red"
proof -
  have e: "\<And>e. e \<in> set pre \<Longrightarrow> ent' e = ent e" "\<And>e. e \<in> set red \<Longrightarrow> ent' e = ent e" using assms(3) by simp_all
  have m: "x \<in> W\<^sup>+ \<Longrightarrow> x \<in> W'\<^sup>+" for x using trancl_mono [OF _ assms(2)] by blast
  have r: "\<exists>x \<in> set (h # pre). \<not> d_is_in (ent' x) \<and> (fst r, fst x) \<in> W'\<^sup>+" if r: "r \<in> set red" for r
  proof -
    obtain x where "x \<in> set pre" "\<not> d_is_in (ent x)" "(fst r, fst x) \<in> W\<^sup>+" using assms(1) r unfolding chain_parts_def by blast
    then show ?thesis using e(1) m by (intro bexI [of _ x]) simp_all
  qed
  have u: "y = x" if "x \<in> set (h # pre)" "y \<in> set (h # pre)" "\<not> d_is_in (ent' x) \<and> \<not> d_is_in (ent' y)" for x y
  proof (cases "d_is_in (ent' h)")
    case True
    then have "x \<in> set pre" "y \<in> set pre" using that by auto
    then show ?thesis using assms(1) that(3) e(1) unfolding chain_parts_def by metis
  next
    case False
    have "d_is_in (ent' z)" if "z \<in> set pre" for z using assms(5) [OF False] e(1) [OF that] that by simp
    then have "x \<notin> set pre" "y \<notin> set pre" using that(3) by blast+
    then show ?thesis using that(1,2) by simp
  qed
  show ?thesis unfolding chain_parts_def
  proof (intro conjI)
    show "\<forall>e \<in> set (h # pre). \<not> d_redundant_out (ent' e)" using assms(1,4) e(1) by (auto simp: chain_parts_def)
    show "\<forall>e \<in> set red. d_redundant_out (ent' e) \<and> \<not> d_is_in (ent' e)" using assms(1) e(2) by (auto simp: chain_parts_def)
  qed (use u r in blast)+
qed

lemma parts_replace_out:
  assumes "chain_parts W ent pre red" and "W \<subseteq> W'" and d: "distinct (h # pre @ red)" and x: "x \<in> set pre" "\<not> d_is_in (ent x)"
    and ent: "\<And>e. e \<in> set (pre @ red) \<Longrightarrow> e \<noteq> x \<Longrightarrow> ent' e = ent e" "d_redundant_out (ent' x) \<and> \<not> d_is_in (ent' x)"
    and h: "\<not> d_redundant_out (ent' h)" "\<not> d_is_in (ent' h)" and w: "(fst x, fst h) \<in> W'"
  shows "chain_parts W' ent' (h # remove1 x pre) (x # red)"
proof -
  have pre: "e \<in> set pre \<and> e \<noteq> x \<and> ent' e = ent e" if "e \<in> set (remove1 x pre)" for e
    using that d ent(1) [of e] by (auto simp: set_remove1_eq)
  have red: "ent' e = ent e" if "e \<in> set red" for e using that d x(1) ent(1) [of e] by auto
  have ins: "d_is_in (ent' e)" if "e \<in> set (remove1 x pre)" for e
    using pre [OF that] assms(1) x unfolding chain_parts_def by metis
  have m: "y \<in> W\<^sup>+ \<Longrightarrow> y \<in> W'\<^sup>+" for y using trancl_mono [OF _ assms(2)] by blast
  have np: "\<forall>e \<in> set pre. \<not> d_redundant_out (ent e)" and nr: "\<forall>e \<in> set red. d_redundant_out (ent e) \<and> \<not> d_is_in (ent e)"
    using assms(1) unfolding chain_parts_def by blast+
  have r: "(fst r, fst h) \<in> W'\<^sup>+" if r: "r \<in> set (x # red)" for r
  proof (cases "r = x")
    case True
    then show ?thesis using w by auto
  next
    case False
    then obtain y where y: "y \<in> set pre" "\<not> d_is_in (ent y)" "(fst r, fst y) \<in> W\<^sup>+" using assms(1) r unfolding chain_parts_def by auto
    then have "y = x" using assms(1) x unfolding chain_parts_def by metis
    then show ?thesis using m [OF y(3)] w by auto
  qed
  show ?thesis unfolding chain_parts_def
  proof (intro conjI)
    show "\<forall>e \<in> set (h # remove1 x pre). \<not> d_redundant_out (ent' e)"
    proof
      fix e assume e: "e \<in> set (h # remove1 x pre)"
      show "\<not> d_redundant_out (ent' e)"
      proof (cases "e = h")
        case False
        then have "e \<in> set (remove1 x pre)" using e by simp
        then have "e \<in> set pre" "ent' e = ent e" using pre by blast+
        then show ?thesis using bspec [OF np, of e] by (simp only:) simp
      qed (use h(1) in blast)
    qed
    show "\<forall>e \<in> set (x # red). d_redundant_out (ent' e) \<and> \<not> d_is_in (ent' e)"
    proof
      fix e assume "e \<in> set (x # red)"
      then show "d_redundant_out (ent' e) \<and> \<not> d_is_in (ent' e)"
        using ent(2) red [of e] nr by (cases "e = x") simp_all
    qed
    show "\<forall>e \<in> set (h # remove1 x pre). \<forall>e' \<in> set (h # remove1 x pre). \<not> d_is_in (ent' e) \<and> \<not> d_is_in (ent' e') \<longrightarrow> e' = e"
      using ins by auto
    show "\<forall>r \<in> set (x # red). \<exists>y \<in> set (h # remove1 x pre). \<not> d_is_in (ent' y) \<and> (fst r, fst y) \<in> W'\<^sup>+"
      using r h(2) by auto
  qed
qed


text \<open>The state after one clause, with the clauses of all tasks.\<close>

definition clauses_after :: "nat \<Rightarrow> int \<times> bool \<Rightarrow> (nat \<Rightarrow> full_task) \<Rightarrow> (nat \<Rightarrow> full_task) \<Rightarrow> bool" where
  "clauses_after t d T T' \<longleftrightarrow> (\<forall>x. x \<noteq> t \<longrightarrow> same_cl T T' x) \<and> (\<forall>x. depend_count (T' x) = depend_count (T x))
     \<and> map (\<lambda>d. (d_addr d, d_is_in d)) (depend (T' t)) = map (\<lambda>d. (d_addr d, d_is_in d)) (depend (T t)) @ [d]"

lemma fst_cl: "map cl xs = map cl ys \<Longrightarrow> map (\<lambda>d. (d_addr d, d_is_in d)) xs = map (\<lambda>d. (d_addr d, d_is_in d)) ys"
proof -
  assume "map cl xs = map cl ys"
  then have "map (\<lambda>(a, b, c). (a, b)) (map cl xs) = map (\<lambda>(a, b, c). (a, b)) (map cl ys)" by simp
  then show ?thesis by (simp add: cl_def comp_def)
qed

lemma clauses_afterI:
  assumes "\<And>x. same_cl (append_entry t (new_entry a n) T) T' x" and "\<And>x. depend_count (T' x) = depend_count (T x)"
  shows "clauses_after t (a, n) T T'"
proof -
  have "same_cl T T' x" if "x \<noteq> t" for x using assms(1) [of x] that by (simp add: same_cl_def)
  moreover have "map (\<lambda>d. (d_addr d, d_is_in d)) (depend (T' t)) = map (\<lambda>d. (d_addr d, d_is_in d)) (depend (T t)) @ [(a, n)]"
    using fst_cl [OF assms(1) [of t, unfolded same_cl_def]] by (simp add: new_entry_def)
  ultimately show ?thesis using assms(2) by (simp add: clauses_after_def)
qed

lemma depend_one_scan:
  assumes cr: "creating P cs t U T" and fin: "finite U" and card: "card U < 2 ^ 64"
    and sorted: "\<forall>d \<in> set (depend (T t)). d_is_in d \<longrightarrow> new_in"
    and slot: "chain_of P a T = h # es" "fst h \<noteq> t"
  shows "creating P cs t U (depend_one t P (a, new_in) T) \<and> clauses_after t (a, new_in) T (depend_one t P (a, new_in) T)"
proof -
  let ?new = "new_entry a new_in" and ?i = "length (depend (T t))"
  let ?TA = "append_entry t ?new T"
  obtain pre red where pr: "chain_of P a T = pre @ red" "chain_parts (waits U T) (entry T) pre red"
    using creatingD(5) [OF cr, of a] by (auto simp: chain_inv_def)
  have dist: "distinct (pre @ red)" and lv: "set (pre @ red) = live U T a"
    using creatingD(5) [OF cr, of a] pr(1) by (auto simp: chain_inv_def)
  have no_t: "\<forall>e \<in> set (pre @ red). fst e \<noteq> t"
  proof
    fix e assume e: "e \<in> set (pre @ red)"
    show "fst e \<noteq> t"
    proof
      assume "fst e = t"
      then have "hd (chain_of P a T) = e" using creatingD(4) [OF cr, of "snd e" a] e pr(1) by (cases e) simp
      then show False using slot \<open>fst e = t\<close> by simp
    qed
  qed
  obtain T1 out lst where scan: "depend_scan t new_in (pre @ red) ?TA None None = (T1, out, lst)" using prod_cases3 by blast
  have slot_ent: "entry ?TA e = entry T e" if "e \<in> set (pre @ red)" for e
    using that lv entry_append_old [of e T t ?new] by (auto simp: live_def)
  have scn: "scanned ?TA (pre @ red) = pre" by (rule scanned_parts [OF pr(2) slot_ent])
  have new: "newest U t ?TA" using creatingD(3) [OF cr] by (simp add: newest_def)
  have inU: "fst ` set (pre @ red) \<subseteq> U" using lv unfolding live_def by blast
  note sp = depend_scan_spec [OF scan new no_t inU, unfolded scn]
  have sc: "same_clauses t ?TA T1" using sp by blast
  have ne: "pre \<noteq> []"
  proof
    assume "pre = []"
    then have "red = []" using pr(2) by (cases red) (auto simp: chain_parts_def)
    then show False using pr(1) slot(1) \<open>pre = []\<close> by simp
  qed
  then have lst: "lst = Some (last pre)" using sp by (simp split: list.splits)
  have ent1: "entry T1 e = entry ?TA e" for e by (rule same_clauses_entry [OF sc])
  have sub: "waits U T \<subseteq> waits U T1" using sp by (auto simp: waits_def)
  have h_new: "(t, ?i) \<notin> set (pre @ red)" using bspec [OF no_t, of "(t, ?i)"] by auto
  have dist_h: "distinct ((t, ?i) # pre @ red)" using dist h_new by simp
  have e_new: "entry ?TA (t, ?i) = ?new" by simp
  define ox where "ox = (if new_in then None else out)"
  let ?C = "\<lambda>e. if lst \<noteq> Some e then move_after e (the lst) ((t, ?i) # pre @ red) else (t, ?i) # pre @ red"
  have one: "depend_one t P (a, new_in) T = (case ox of None \<Rightarrow> set_chain P a ((t, ?i) # pre @ red) T1
      | Some e \<Rightarrow> upd_entry e (\<lambda>x. x\<lparr>d_redundant_out := True\<rparr>) (set_chain P a (?C e) T1))"
    using slot(2) scan unfolding depend_one_unfold Let_def slot(1) list.case ox_def
    by (simp only: if_False prod.case pr(1) [symmetric, unfolded slot(1)])
  note assemble = scan_assemble [OF cr fin card sorted pr no_t scan]
  have cl1: "same_cl ?TA T1 x" for x using sc by (simp add: same_cl_def same_clauses_def)
  have dc: "depend_count (T1 x) = depend_count (T x)" for x using sc by (simp add: same_clauses_def)
  have "chain_of P b T1 = chain_of P b ?TA" for b using sc unfolding same_clauses_def chain_of_def by presburger
  then have chn: "chain_of P b T1 = chain_of P b T" for b by simp
  show ?thesis
  proof (cases ox)
    case None
    let ?T = "set_chain P a ((t, ?i) # pre @ red) T1"
    have T: "depend_one t P (a, new_in) T = ?T" using one None by simp
    have outs: "\<forall>e \<in> set pre. d_is_in (entry T e)" if "\<not> new_in"
    proof -
      have "out = None" using None that by (simp add: ox_def)
      then have "filter (\<lambda>e. \<not> d_is_in (entry ?TA e)) pre = []" using sp that by (auto split: list.splits)
      then show ?thesis using slot_ent by (auto simp: filter_empty_conv)
    qed
    have "chain_parts (waits U T1) (entry ?T) ((t, ?i) # pre) red"
      by (rule parts_add_front [OF pr(2) sub]) (use slot_ent ent1 e_new outs in \<open>simp_all add: new_entry_def\<close>)
    then have "creating P cs t U ?T"
      by (intro assemble [of ?T "(t, ?i) # pre @ red" "(t, ?i) # pre" red])
        (use cl1 chn dist_h ent1 entry_append_old in \<open>simp_all add: same_cl_def fun_eq_iff\<close>)
    moreover have "clauses_after t (a, new_in) T ?T" by (rule clauses_afterI) (use cl1 dc in \<open>simp_all add: same_cl_def\<close>)
    ultimately show ?thesis using T by simp
  next
    case (Some x)
    let ?f = "\<lambda>x :: depend_entry. x\<lparr>d_redundant_out := True\<rparr>"
    let ?T2 = "set_chain P a (?C x) T1"
    let ?T = "upd_entry x ?f ?T2"
    have T: "depend_one t P (a, new_in) T = ?T" using one Some by simp
    have n: "\<not> new_in" "out = Some x" using Some by (auto simp: ox_def split: if_split_asm)
    then have "filter (\<lambda>e. \<not> d_is_in (entry ?TA e)) pre \<noteq> []" "x = last (filter (\<lambda>e. \<not> d_is_in (entry ?TA e)) pre)"
      using sp by (auto split: list.splits)
    then have "x \<in> set (filter (\<lambda>e. \<not> d_is_in (entry ?TA e)) pre)" using last_in_set by blast
    then have x: "x \<in> set pre" "\<not> d_is_in (entry T x)" using slot_ent [of x] by auto
    have C: "?C x = (t, ?i) # remove1 x pre @ x # red" using move_out [OF dist_h x(1)] lst by (simp only: option.sel option.inject)
    have "x \<in> live U T a" using lv x(1) by auto
    then have xl: "snd x < length (depend (T (fst x)))" "fst x \<in> U" "d_addr (entry T x) = a" by (auto simp: live_def)
    then have xl': "snd x < length (depend (?T2 (fst x)))" using same_cl_length [OF cl1, of "fst x"] by auto
    have eT: "entry ?T e = (if e = x then ?f (entry ?TA x) else entry ?TA e)" for e
      using entry_upd_entry [where e = x and T = ?T2 and f = ?f and e' = e, OF xl'] ent1 by simp
    have w: "(fst x, t) \<in> waits U T1"
    proof -
      have "\<exists>e \<in> set pre. fst e = fst x \<and> blocks new_in (entry ?TA e)" using x slot_ent [of x] by (auto simp: blocks_def intro!: bexI [of _ x])
      then show ?thesis using sp xl(2) by (auto simp: waits_def)
    qed
    have xn: "x \<noteq> (t, ?i)" using h_new x(1) by auto
    have parts: "chain_parts (waits U T1) (entry ?T) ((t, ?i) # remove1 x pre) (x # red)"
      by (rule parts_replace_out [OF pr(2) sub dist_h x]) (use slot_ent eT e_new x n(1) w xn in \<open>simp_all add: new_entry_def\<close>)
    have cl2: "same_cl ?TA ?T y" for y
    proof -
      have "same_cl ?T2 ?T y" by (rule upd_entry_cl) (simp add: cl_def)
      then show ?thesis using cl1 [of y] unfolding same_cl_def by simp
    qed
    have "creating P cs t U ?T"
    proof (rule assemble [of ?T "?C x" "(t, ?i) # remove1 x pre" "x # red"])
      show "elems ?T = elems T1" by (simp add: fun_eq_iff)
      show "distinct (?C x)" using dist_h x(1) unfolding C by (auto simp: set_remove1_eq)
      show "set (?C x) = insert (t, ?i) (set (pre @ red))" using dist_h x(1) unfolding C by (auto simp: set_remove1_eq)
      show "entry ?T e = entry T e" if "snd e < length (depend (T (fst e)))" "d_addr (entry T e) \<noteq> a" for e
        using that xl(3) eT [of e] entry_append_old [of e T t ?new] by auto
    qed (use C parts cl2 chn in simp_all)
    moreover have "clauses_after t (a, new_in) T ?T" by (rule clauses_afterI [OF cl2]) (use dc in simp)
    ultimately show ?thesis using T by simp
  qed
qed

lemma depend_one_creating:
  assumes "creating P cs t U T" and "finite U" and "card U < 2 ^ 64"
    and "\<forall>d \<in> set (depend (T t)). d_is_in d \<longrightarrow> new_in"
  shows "creating P cs t U (depend_one t P (a, new_in) T)" "clauses_after t (a, new_in) T (depend_one t P (a, new_in) T)"
proof -
  let ?T = "depend_one t P (a, new_in) T"
  have "creating P cs t U ?T \<and> clauses_after t (a, new_in) T ?T"
  proof (cases "chain_of P a T")
    case Nil
    have "clauses_after t (a, new_in) T ?T"
      by (rule clauses_afterI) (use Nil in \<open>simp_all add: depend_one_unfold same_cl_def\<close>)
    then show ?thesis using depend_one_empty [OF assms(1,2) Nil assms(4)] by blast
  next
    case (Cons h es)
    show ?thesis
    proof (cases "fst h = t")
      case True
      have "map (\<lambda>d. (d_addr d, d_is_in d)) (depend (?T t)) = map (\<lambda>d. (d_addr d, d_is_in d)) (depend (T t)) @ [(a, new_in)]"
        using Cons True by (simp add: depend_one_unfold Let_def new_entry_def)
      then have "clauses_after t (a, new_in) T ?T"
        using Cons True by (simp add: depend_one_unfold Let_def clauses_after_def same_cl_def)
      then show ?thesis using depend_one_redundant [OF assms(1,2) Cons True assms(4)] by blast
    next
      case False
      then show ?thesis using depend_one_scan [OF assms Cons] by blast
    qed
  qed
  then show "creating P cs t U ?T" "clauses_after t (a, new_in) T ?T" by blast+
qed

end
