(* ===== verification/DependOrder.thy ===== *)
theory DependOrder
  imports DependCreate
begin

text \<open>
  The life of the children of one task that have \<open>depend\<close> clauses: created by \<open>GOMP_task\<close>, run, and
  finished; between these, anything else may happen to the team that leaves the dependences alone.
\<close>

subsection \<open>A task is created\<close>

text \<open>Two states agree on everything that the dependences of the children of \<open>P\<close> depend on.\<close>

definition dep_same :: "nat set \<Rightarrow> (nat \<Rightarrow> full_task) \<Rightarrow> (nat \<Rightarrow> full_task) \<Rightarrow> bool" where
  "dep_same X T T' \<longleftrightarrow> (\<forall>x \<in> X. parent (T' x) = parent (T x) \<and> dependers (T' x) = dependers (T x) \<and> num_dependees (T' x) = num_dependees (T x)
     \<and> depend (T' x) = depend (T x) \<and> depend_count (T' x) = depend_count (T x) \<and> depend_hash (T' x) = depend_hash (T x))"

text \<open>The same without the hash tables, which matter for a parent only.\<close>

definition kid_same :: "nat set \<Rightarrow> (nat \<Rightarrow> full_task) \<Rightarrow> (nat \<Rightarrow> full_task) \<Rightarrow> bool" where
  "kid_same X T T' \<longleftrightarrow> (\<forall>x \<in> X. parent (T' x) = parent (T x) \<and> dependers (T' x) = dependers (T x) \<and> num_dependees (T' x) = num_dependees (T x)
     \<and> depend (T' x) = depend (T x) \<and> depend_count (T' x) = depend_count (T x))"

lemma dep_kid_same: "dep_same X T T' \<Longrightarrow> Y \<subseteq> X \<Longrightarrow> kid_same Y T T'"
  unfolding dep_same_def kid_same_def by blast

lemma dep_same_refl [simp]: "dep_same X T T"
  by (simp add: dep_same_def)

lemma dep_same_trans: "dep_same X T T' \<Longrightarrow> dep_same X T' T'' \<Longrightarrow> dep_same X T T''"
  by (simp add: dep_same_def)

lemma dep_inv_cong:
  assumes el: "\<And>u. u \<in> U \<Longrightarrow> elems T' u = elems T u" and num: "\<And>u. u \<in> U \<Longrightarrow> num_dependees (T' u) = num_dependees (T u)"
    and dep: "\<And>u. u \<in> U \<Longrightarrow> depend (T' u) = depend (T u)" and ch: "\<And>a. chain_of P a T' = chain_of P a T"
    and inv: "dep_inv P cs U T"
  shows "dep_inv P cs U T'"
proof -
  have w: "waits U T' = waits U T" using el by (auto simp: waits_def)
  have b: "blockers U T' t = blockers U T t" for t using el by (auto simp: blockers_def)
  have l: "live U T' a = live U T a" for a using dep by (auto simp: live_def entry_def)
  have e: "entry T' e = entry T e" if "e \<in> set (chain_of P a T)" for e a
  proof -
    have "fst e \<in> U" using that inv by (auto simp: dep_inv_def chain_inv_def live_def)
    then show ?thesis using dep by (simp add: entry_def)
  qed
  have chains: "chain_inv U T' a (chain_of P a T')" for a
  proof -
    have "chain_inv U T a (chain_of P a T)" using inv by (simp add: dep_inv_def)
    then show ?thesis using chain_inv_other [where T' = T' and U = U and T = T, OF _ _ e l] w ch by simp
  qed
  have U: "U \<subseteq> set cs" and others: "distinct cs \<and> P \<notin> set cs"
    and tasks: "\<And>u. u \<in> U \<Longrightarrow> clause_ok (depend (T u)) \<and> distinct (elems T u)
        \<and> (\<forall>t \<in> set (elems T u). t \<in> U \<and> before cs u t \<and> conflict (depend (T u)) (depend (T t)))"
    and cnt: "\<And>t. t \<in> U \<Longrightarrow> counted U T t"
    and paths: "\<And>u t. u \<in> U \<Longrightarrow> t \<in> U \<Longrightarrow> before cs u t \<Longrightarrow> conflict (depend (T u)) (depend (T t)) \<Longrightarrow> (u, t) \<in> (waits U T)\<^sup>+"
    using inv unfolding dep_inv_def by blast+
  show ?thesis unfolding dep_inv_def
  proof (intro conjI)
    show "\<forall>u \<in> U. clause_ok (depend (T' u)) \<and> distinct (elems T' u)
        \<and> (\<forall>t \<in> set (elems T' u). t \<in> U \<and> before cs u t \<and> conflict (depend (T' u)) (depend (T' t)))"
      using tasks by (simp add: el dep)
    show "\<forall>t \<in> U. counted U T' t" using cnt num b by (simp add: counted_def)
    show "\<forall>u \<in> U. \<forall>t \<in> U. before cs u t \<and> conflict (depend (T' u)) (depend (T' t)) \<longrightarrow> (u, t) \<in> (waits U T')\<^sup>+"
      using paths by (simp add: dep w)
  qed (use U others chains in blast)+
qed

lemma dep_inv_same:
  assumes "kid_same X T T'" and "U \<subseteq> X" and "depend_hash (T' P) = depend_hash (T P)" and "dep_inv P cs U T"
  shows "dep_inv P cs U T'"
proof (rule dep_inv_cong [OF _ _ _ _ assms(4)])
  have X: "x \<in> U \<Longrightarrow> x \<in> X" for x using assms(2) by auto
  show "elems T' u = elems T u" "num_dependees (T' u) = num_dependees (T u)" "depend (T' u) = depend (T u)" if "u \<in> U" for u
    using assms(1) X [OF that] by (simp_all add: kid_same_def elems_def)
  show "chain_of P a T' = chain_of P a T" for a using assms(3) by (simp add: chain_of_def)
qed

lemma start_creating:
  assumes inv: "dep_inv P cs U T" and t: "t \<notin> set cs" "t \<noteq> P"
    and T': "elems T' t = []" "depend (T' t) = []" "num_dependees (T' t) = 0"
    and same: "\<And>x. x \<noteq> t \<Longrightarrow> elems T' x = elems T x \<and> num_dependees (T' x) = num_dependees (T x) \<and> depend (T' x) = depend (T x)"
    and ch: "\<And>a. chain_of P a T' = chain_of P a T"
  shows "creating P cs t (insert t U) T'"
proof -
  have base: "distinct (cs @ [t])" "P \<notin> set (cs @ [t])" "insert t U \<subseteq> set (cs @ [t])" and U: "U \<subseteq> set cs" "t \<notin> U"
    using inv t by (auto simp: dep_inv_def)
  have same_U: "elems T' u = elems T u" "num_dependees (T' u) = num_dependees (T u)" "depend (T' u) = depend (T u)" if "u \<in> U" for u
    using same [of u] that U(2) by blast+
  note inv' = dep_inv_cong [OF same_U ch inv]
  have tasks: "\<And>u. u \<in> U \<Longrightarrow> clause_ok (depend (T' u)) \<and> distinct (elems T' u)
        \<and> (\<forall>x \<in> set (elems T' u). x \<in> U \<and> before cs u x \<and> conflict (depend (T' u)) (depend (T' x)))"
    and cnt: "\<And>x. x \<in> U \<Longrightarrow> counted U T' x" and chains: "\<And>a. chain_inv U T' a (chain_of P a T')"
    and paths: "\<And>u x. u \<in> U \<Longrightarrow> x \<in> U \<Longrightarrow> before cs u x \<Longrightarrow> conflict (depend (T' u)) (depend (T' x)) \<Longrightarrow> (u, x) \<in> (waits U T')\<^sup>+"
    using inv' unfolding dep_inv_def by blast+
  have w: "waits (insert t U) T' = waits U T'" using T'(1) by (auto simp: waits_def)
  have b: "blockers (insert t U) T' x = blockers U T' x" for x using T'(1) by (auto simp: blockers_def)
  have nt: "t \<notin> set (elems T' u)" if "u \<in> insert t U" for u using tasks [of u] U that T'(1) by auto
  have bt: "blockers (insert t U) T' t = {}" using nt by (auto simp: blockers_def)
  have l: "live (insert t U) T' a = live U T' a" for a
  proof (rule set_eqI)
    fix e :: dep_id
    show "e \<in> live (insert t U) T' a \<longleftrightarrow> e \<in> live U T' a"
      using T'(2) U(2) by (cases "fst e = t") (simp_all add: live_def)
  qed
  have "chain_inv (insert t U) T' a (chain_of P a T')" for a
    using chains [of a] unfolding chain_inv_def w l .
  moreover have "\<forall>x \<in> insert t U. counted (insert t U) T' x"
    using cnt b bt T'(3) by (auto simp: counted_def)
  moreover have "clause_ok (depend (T' u)) \<and> distinct (elems T' u)
        \<and> (\<forall>x \<in> set (elems T' u). x \<in> insert t U \<and> before (cs @ [t]) u x \<and> conflict (depend (T' u)) (depend (T' x)))" if "u \<in> insert t U" for u
    using that T'(1,2) tasks [of u] before_snoc [OF base(1)] by (auto simp: clause_ok_def)
  moreover have "(u, x) \<in> (waits (insert t U) T')\<^sup>+" if "u \<in> insert t U" "x \<in> insert t U" "before (cs @ [t]) u x"
    "conflict (depend (T' u)) (depend (T' x))" for u x
  proof -
    have "u \<noteq> t" "x \<noteq> t" using that(4) T'(2) by (auto simp: conflict_def)
    then show ?thesis using that paths before_snoc [OF base(1)] w by auto
  qed
  ultimately have "dep_inv P (cs @ [t]) (insert t U) T'" unfolding dep_inv_def using base by blast
  moreover have "\<not> (t, j) \<in> set (chain_of P a T')" for a j
    using chains [of a] U(2) by (auto simp: chain_inv_def live_def)
  ultimately show ?thesis unfolding creating_def newest_def using nt by blast
qed

definition clauses :: "depend_entry list \<Rightarrow> (int \<times> bool) list" where
  "clauses ds = map (\<lambda>d. (d_addr d, d_is_in d)) ds"

text \<open>The loop over the clauses of the new task.\<close>

lemma fold_depend_one:
  assumes "creating P cs t U T" and "finite U" and "card U < 2 ^ 64" and "sorted_wrt (\<lambda>a b. snd a \<longrightarrow> snd b) (clauses (depend (T t)) @ ds)"
  shows "creating P cs t U (fold (depend_one t P) ds T) \<and> clauses (depend (fold (depend_one t P) ds T t)) = clauses (depend (T t)) @ ds
    \<and> (\<forall>x. x \<noteq> t \<longrightarrow> same_cl T (fold (depend_one t P) ds T) x) \<and> (\<forall>x. depend_count (fold (depend_one t P) ds T x) = depend_count (T x))"
  using assms(1,4)
proof (induction ds arbitrary: T)
  case Nil
  then show ?case by (simp add: same_cl_def)
next
  case (Cons d ds)
  obtain a n where d: "d = (a, n)" by fastforce
  have s: "\<forall>x \<in> set (depend (T t)). d_is_in x \<longrightarrow> n"
    using Cons.prems(2) by (auto simp: d sorted_wrt_append clauses_def)
  note one = depend_one_creating [OF Cons.prems(1) assms(2,3) s, of a]
  let ?T = "depend_one t P (a, n) T"
  have c: "clauses (depend (?T t)) = clauses (depend (T t)) @ [(a, n)]"
    using one(2) unfolding clauses_after_def clauses_def by blast
  have same: "x \<noteq> t \<Longrightarrow> same_cl T ?T x" "depend_count (?T x) = depend_count (T x)" for x
    using one(2) unfolding clauses_after_def by blast+
  have "sorted_wrt (\<lambda>a b. snd a \<longrightarrow> snd b) (clauses (depend (?T t)) @ ds)" using Cons.prems(2) by (simp add: c d)
  note IH = Cons.IH [OF one(1) this]
  show ?case unfolding d fold_Cons comp_def using IH c same unfolding same_cl_def by auto
qed

text \<open>The clauses as \<open>GOMP_task\<close> is given them.\<close>

definition given_clauses :: "nat \<Rightarrow> int list \<Rightarrow> (int \<times> bool) list" where
  "given_clauses nout addrs = zip addrs (map (\<lambda>i. nout \<le> i) [0..<length addrs])"

lemma given_sorted: "sorted_wrt (\<lambda>a b. snd a \<longrightarrow> snd b) (given_clauses nout addrs)"
  by (auto simp: given_clauses_def sorted_wrt_iff_nth_less)

lemma handle_depend_inv:
  fixes nout :: nat and addrs :: "int list"
  assumes inv: "dep_inv P cs U T" and t: "t \<notin> set cs" "t \<noteq> P" and U: "finite U" "card (insert t U) < 2 ^ 64"
    and el: "elems T t = []"
  defines "T' \<equiv> gomp_task_handle_depend t P nout addrs T"
  shows "dep_inv P (cs @ [t]) (insert t U) T'" "clauses (depend (T' t)) = given_clauses nout addrs"
    "x \<noteq> t \<Longrightarrow> same_cl T T' x" "depend_count (T' x) = (if x = t then length addrs else depend_count (T x))"
proof -
  define T1 where "T1 = T(t := (T t)\<lparr>depend_count := length addrs, num_dependees := 0, depend := []\<rparr>)"
  define T2 where "T2 = (if depend_hash (T1 P) = None then T1(P := (T1 P)\<lparr>depend_hash := Some (\<lambda>a. [])\<rparr>) else T1)"
  have T': "T' = fold (depend_one t P) (given_clauses nout addrs) T2"
    by (simp add: T'_def gomp_task_handle_depend_def given_clauses_def T1_def T2_def Let_def)
  have T2: "elems T2 t = []" "depend (T2 t) = []" "num_dependees (T2 t) = 0"
    "\<And>x. x \<noteq> t \<Longrightarrow> elems T2 x = elems T x \<and> num_dependees (T2 x) = num_dependees (T x) \<and> depend (T2 x) = depend (T x)"
    "\<And>a. chain_of P a T2 = chain_of P a T" "\<And>x. depend_count (T2 x) = (if x = t then length addrs else depend_count (T x))"
    using t(2) el by (auto simp: T2_def T1_def elems_def chain_of_def)
  have cr: "creating P cs t (insert t U) T2" by (rule start_creating [OF inv t T2(1-5)])
  have "sorted_wrt (\<lambda>a b. snd a \<longrightarrow> snd b) (clauses (depend (T2 t)) @ given_clauses nout addrs)"
    using given_sorted T2(2) by (simp add: clauses_def)
  then have f: "creating P cs t (insert t U) T' \<and> clauses (depend (T' t)) = clauses (depend (T2 t)) @ given_clauses nout addrs
    \<and> (\<forall>x. x \<noteq> t \<longrightarrow> same_cl T2 T' x) \<and> (\<forall>x. depend_count (T' x) = depend_count (T2 x))"
    using fold_depend_one [OF cr _ U(2)] U(1) by (simp add: T')
  show "dep_inv P (cs @ [t]) (insert t U) T'" using f by (simp add: creating_def)
  show "clauses (depend (T' t)) = given_clauses nout addrs" using f T2(2) by (simp add: clauses_def)
  show "x \<noteq> t \<Longrightarrow> same_cl T T' x" using f T2(4) [of x] by (simp add: same_cl_def)
  show "depend_count (T' x) = (if x = t then length addrs else depend_count (T x))" using f T2(6) by simp
qed

subsection \<open>A task is finished\<close>

text \<open>Paths that do not start at a task without blockers stay away from it.\<close>

lemma path_avoids:
  assumes "(a, b) \<in> W\<^sup>+" and "\<And>x. (x, t) \<notin> W" and "a \<noteq> t"
  shows "b \<noteq> t \<and> (a, b) \<in> {(x, y). (x, y) \<in> W \<and> x \<noteq> t}\<^sup>+"
  using assms(1)
proof (induction rule: trancl_induct)
  case (base y)
  then show ?case using assms(2,3) by blast
next
  case (step y z)
  then have "(y, z) \<in> {(x, y). (x, y) \<in> W \<and> x \<noteq> t}" by simp
  then show ?case using step assms(2) by (meson trancl_into_trancl)
qed

text \<open>The part of the invariant that does not speak of the chains of the parent: it is all that matters for the
  children that have been created, also when their parent has ended.\<close>

definition dep_core :: "nat list \<Rightarrow> nat set \<Rightarrow> (nat \<Rightarrow> full_task) \<Rightarrow> bool" where
  "dep_core cs U T \<longleftrightarrow> distinct cs \<and> U \<subseteq> set cs
    \<and> (\<forall>u \<in> U. distinct (elems T u) \<and> (\<forall>t \<in> set (elems T u). t \<in> U \<and> before cs u t \<and> conflict (depend (T u)) (depend (T t))))
    \<and> (\<forall>t \<in> U. counted U T t)
    \<and> (\<forall>u \<in> U. \<forall>t \<in> U. before cs u t \<and> conflict (depend (T u)) (depend (T t)) \<longrightarrow> (u, t) \<in> (waits U T)\<^sup>+)"

lemma dep_inv_core: "dep_inv P cs U T \<Longrightarrow> dep_core cs U T"
  unfolding dep_inv_def dep_core_def by blast

lemma dep_core_cong:
  assumes el: "\<And>u. u \<in> U \<Longrightarrow> elems T' u = elems T u" and num: "\<And>u. u \<in> U \<Longrightarrow> num_dependees (T' u) = num_dependees (T u)"
    and dep: "\<And>u. u \<in> U \<Longrightarrow> depend (T' u) = depend (T u)" and core: "dep_core cs U T"
  shows "dep_core cs U T'"
proof -
  have w: "waits U T' = waits U T" using el by (auto simp: waits_def)
  have b: "blockers U T' t = blockers U T t" for t using el by (auto simp: blockers_def)
  show ?thesis using core unfolding dep_core_def by (simp add: w b el dep num counted_def)
qed

lemma finish_core:
  assumes core: "dep_core cs U T" and t: "t \<in> U" "num_dependees (T t) = 0" and fin: "finite U"
    and el: "\<And>u. u \<in> U \<Longrightarrow> u \<noteq> t \<Longrightarrow> elems T' u = elems T u"
    and num: "\<And>u. u \<in> U \<Longrightarrow> u \<noteq> t \<Longrightarrow> num_dependees (T' u) = num_dependees (T u) - (if u \<in> set (elems T t) then 1 else 0)"
    and dep: "\<And>u. u \<in> U \<Longrightarrow> u \<noteq> t \<Longrightarrow> depend (T' u) = depend (T u)"
  shows "dep_core cs (U - {t}) T'"
    and "(a, b) \<in> (waits U T)\<^sup>+ \<Longrightarrow> a \<noteq> t \<Longrightarrow> b \<noteq> t \<and> (a, b) \<in> (waits (U - {t}) T')\<^sup>+"
proof -
  let ?U = "U - {t}"
  have U: "U \<subseteq> set cs" "distinct cs"
    and tasks: "\<And>u. u \<in> U \<Longrightarrow> distinct (elems T u)
        \<and> (\<forall>t \<in> set (elems T u). t \<in> U \<and> before cs u t \<and> conflict (depend (T u)) (depend (T t)))"
    and cnt: "\<And>t. t \<in> U \<Longrightarrow> counted U T t"
    and paths: "\<And>u t. u \<in> U \<Longrightarrow> t \<in> U \<Longrightarrow> before cs u t \<Longrightarrow> conflict (depend (T u)) (depend (T t)) \<Longrightarrow> (u, t) \<in> (waits U T)\<^sup>+"
    using core unfolding dep_core_def by blast+
  have fb: "finite (blockers U T x)" for x using fin by (simp add: blockers_def)
  have "blockers U T t = {}" using cnt [OF t(1)] t(2) fb [of t] by (simp add: counted_def)
  then have nt: "t \<notin> set (elems T u)" if "u \<in> U" for u using that by (auto simp: blockers_def)
  then have nw: "(x, t) \<notin> waits U T" for x by (auto simp: waits_def)
  have w: "waits ?U T' = {(x, y). (x, y) \<in> waits U T \<and> x \<noteq> t}" using el by (auto simp: waits_def)
  have avoid: "b \<noteq> t \<and> (a, b) \<in> (waits ?U T')\<^sup>+" if "(a, b) \<in> (waits U T)\<^sup>+" "a \<noteq> t" for a b
    using path_avoids [OF that(1) nw that(2)] unfolding w by blast
  have "distinct (elems T' u)
        \<and> (\<forall>x \<in> set (elems T' u). x \<in> ?U \<and> before cs u x \<and> conflict (depend (T' u)) (depend (T' x)))" if u: "u \<in> ?U" for u
  proof -
    have "x \<noteq> t \<and> x \<in> U" if "x \<in> set (elems T u)" for x using tasks [of u] nt [of u] u that by auto
    then show ?thesis using tasks [of u] u by (simp add: el dep)
  qed
  moreover have "counted ?U T' x" if x: "x \<in> ?U" for x
  proof -
    have b: "blockers ?U T' x = blockers U T x - {t}" using el by (auto simp: blockers_def)
    have m: "x \<in> set (elems T t) \<longleftrightarrow> t \<in> blockers U T x" using t(1) by (simp add: blockers_def)
    show ?thesis
    proof (cases "t \<in> blockers U T x")
      case True
      then have "card (blockers U T x - {t}) = card (blockers U T x) - 1" "0 < card (blockers U T x)"
        using fb [of x] by (auto simp: card_gt_0_iff)
      then show ?thesis using cnt [of x] x num [of x] m True by (simp add: counted_def b of_nat_diff)
    next
      case False
      then show ?thesis using cnt [of x] x num [of x] m by (simp add: counted_def b)
    qed
  qed
  moreover have "(u, x) \<in> (waits ?U T')\<^sup>+" if "u \<in> ?U" "x \<in> ?U" "before cs u x" "conflict (depend (T' u)) (depend (T' x))" for u x
    using that paths [of u x] avoid [of u x] by (simp add: dep)
  ultimately show "dep_core cs (U - {t}) T'" unfolding dep_core_def using U by blast
  show "(a, b) \<in> (waits U T)\<^sup>+ \<Longrightarrow> a \<noteq> t \<Longrightarrow> b \<noteq> t \<and> (a, b) \<in> (waits ?U T')\<^sup>+" by (rule avoid)
qed

text \<open>The counters of the tasks that wait for \<open>t\<close>.\<close>

lemma core_num:
  assumes core: "dep_core cs U T" and fin: "finite U" "card U < 2 ^ 64" and t: "t \<in> U" and x: "x \<in> set (elems T t)"
  shows "x \<in> U" and "before cs t x" and "1 \<le> num_dependees (T x)" and "num_dependees (T x) < 2 ^ 64"
proof -
  show xU: "x \<in> U" and "before cs t x" using core t x unfolding dep_core_def by blast+
  have c: "counted U T x" using core xU unfolding dep_core_def by blast
  have b: "t \<in> blockers U T x" using t x by (simp add: blockers_def)
  have "blockers U T x \<subseteq> U" by (auto simp: blockers_def)
  then have "card (blockers U T x) \<le> card U" "finite (blockers U T x)" using fin(1) by (auto intro: card_mono finite_subset)
  then show "1 \<le> num_dependees (T x)" "num_dependees (T x) < 2 ^ 64"
    using c b fin(2) by (auto simp: counted_def Suc_le_eq card_gt_0_iff)
qed

lemma finish_inv:
  assumes inv: "dep_inv P cs U T" and t: "t \<in> U" "num_dependees (T t) = 0" and fin: "finite U"
    and el: "\<And>u. u \<in> U \<Longrightarrow> u \<noteq> t \<Longrightarrow> elems T' u = elems T u"
    and num: "\<And>u. u \<in> U \<Longrightarrow> u \<noteq> t \<Longrightarrow> num_dependees (T' u) = num_dependees (T u) - (if u \<in> set (elems T t) then 1 else 0)"
    and dep: "\<And>u. u \<in> U \<Longrightarrow> u \<noteq> t \<Longrightarrow> depend (T' u) = depend (T u)"
    and ch: "\<And>a. chain_of P a T' = filter (\<lambda>e. fst e \<noteq> t) (chain_of P a T)"
  shows "dep_inv P cs (U - {t}) T'"
proof -
  let ?U = "U - {t}"
  have U: "U \<subseteq> set cs" and others: "distinct cs \<and> P \<notin> set cs"
    and tasks: "\<And>u. u \<in> U \<Longrightarrow> clause_ok (depend (T u)) \<and> distinct (elems T u)
        \<and> (\<forall>t \<in> set (elems T u). t \<in> U \<and> before cs u t \<and> conflict (depend (T u)) (depend (T t)))"
    and cnt: "\<And>t. t \<in> U \<Longrightarrow> counted U T t" and chains: "\<And>a. chain_inv U T a (chain_of P a T)"
    and paths: "\<And>u t. u \<in> U \<Longrightarrow> t \<in> U \<Longrightarrow> before cs u t \<Longrightarrow> conflict (depend (T u)) (depend (T t)) \<Longrightarrow> (u, t) \<in> (waits U T)\<^sup>+"
    using inv unfolding dep_inv_def by blast+
  have core: "dep_core cs ?U T'"
    by (rule finish_core(1) [OF dep_inv_core [OF inv] t fin]) (simp_all add: el num dep)
  have "b \<noteq> t \<and> (a, b) \<in> (waits ?U T')\<^sup>+" if "(a, b) \<in> (waits U T)\<^sup>+" "a \<noteq> t" for a b
    by (rule finish_core(2) [OF dep_inv_core [OF inv] t fin _ _ _ that]) (simp_all add: el num dep)
  then have avoid: "(a, b) \<in> (waits ?U T')\<^sup>+" "b \<noteq> t" if "(a, b) \<in> (waits U T)\<^sup>+" "a \<noteq> t" for a b
    using that by blast+
  have ent: "entry T' e = entry T e" if "fst e \<in> ?U" for e using dep that by (simp add: entry_def)
  have "clause_ok (depend (T' u))" if "u \<in> ?U" for u using tasks [of u] that by (simp add: dep)
  moreover have "chain_inv ?U T' a (chain_of P a T')" for a
  proof -
    obtain pre red where c: "chain_of P a T = pre @ red" "distinct (pre @ red)" "set (pre @ red) = live U T a"
      "chain_parts (waits U T) (entry T) pre red" using chains [of a] by (auto simp: chain_inv_def)
    let ?f = "filter (\<lambda>e. fst e \<noteq> t)"
    have mem: "e \<in> set (pre @ red) \<Longrightarrow> fst e \<noteq> t \<Longrightarrow> entry T' e = entry T e" for e
      using ent [of e] c(3) by (auto simp: live_def)
    have "live ?U T' a = {e \<in> live U T a. fst e \<noteq> t}"
    proof (rule set_eqI)
      fix e :: dep_id
      show "e \<in> live ?U T' a \<longleftrightarrow> e \<in> {e \<in> live U T a. fst e \<noteq> t}"
        using ent [of e] dep [of "fst e"] by (cases "fst e \<in> ?U") (simp_all add: live_def, blast)
    qed
    then have s: "set (?f pre @ ?f red) = live ?U T' a" using c(3) by auto
    have p: "\<forall>e \<in> set pre. \<not> d_redundant_out (entry T e)" "\<forall>e \<in> set red. d_redundant_out (entry T e) \<and> \<not> d_is_in (entry T e)"
      "\<And>e e'. e \<in> set pre \<Longrightarrow> e' \<in> set pre \<Longrightarrow> \<not> d_is_in (entry T e) \<Longrightarrow> \<not> d_is_in (entry T e') \<Longrightarrow> e' = e"
      "\<And>r. r \<in> set red \<Longrightarrow> \<exists>x \<in> set pre. \<not> d_is_in (entry T x) \<and> (fst r, fst x) \<in> (waits U T)\<^sup>+"
      using c(4) unfolding chain_parts_def by blast+
    have e: "e \<in> set (?f pre) \<Longrightarrow> e \<in> set pre \<and> entry T' e = entry T e" "e \<in> set (?f red) \<Longrightarrow> e \<in> set red \<and> entry T' e = entry T e" for e
      using mem [of e] by auto
    have "chain_parts (waits ?U T') (entry T') (?f pre) (?f red)" unfolding chain_parts_def
    proof (intro conjI ballI impI)
      show "\<not> d_redundant_out (entry T' e)" if "e \<in> set (?f pre)" for e using e(1) [OF that] bspec [OF p(1), of e] by simp
      show "d_redundant_out (entry T' e)" "\<not> d_is_in (entry T' e)" if "e \<in> set (?f red)" for e
        using e(2) [OF that] bspec [OF p(2), of e] by simp_all
      show "e' = x" if "x \<in> set (?f pre)" "e' \<in> set (?f pre)" "\<not> d_is_in (entry T' x) \<and> \<not> d_is_in (entry T' e')" for x e'
        using e(1) [OF that(1)] e(1) [OF that(2)] p(3) [of x e'] that(3) by simp
      show "\<exists>x \<in> set (?f pre). \<not> d_is_in (entry T' x) \<and> (fst r, fst x) \<in> (waits ?U T')\<^sup>+" if r: "r \<in> set (?f red)" for r
      proof -
        obtain x where x: "x \<in> set pre" "\<not> d_is_in (entry T x)" "(fst r, fst x) \<in> (waits U T)\<^sup>+" using p(4) [of r] r by auto
        then have a: "(fst r, fst x) \<in> (waits ?U T')\<^sup>+" "fst x \<noteq> t" using avoid [OF x(3)] r by auto
        then have "x \<in> set (?f pre)" using x(1) by simp
        then show ?thesis using a(1) x(2) e(1) [of x] by (intro bexI [of _ x]) simp_all
      qed
    qed
    moreover have "distinct (?f pre @ ?f red)" using distinct_filter [OF c(2), of "\<lambda>e. fst e \<noteq> t"] by (simp only: filter_append)
    moreover have "chain_of P a T' = ?f pre @ ?f red" using c(1) ch [of a] by simp
    ultimately show ?thesis using s by (intro chain_invI [where pre = "?f pre" and red = "?f red"]) simp_all
  qed
  ultimately show ?thesis using core U others unfolding dep_inv_def dep_core_def by blast
qed

text \<open>The loop that takes the entries of the task out of the chains.\<close>

lemma unlink_entries:
  assumes "\<And>a. distinct (chain_of P a T)"
  shows "chain_of P a (fold (\<lambda>i. unlink_entry P (t, i)) [0..<k] T) =
      filter (\<lambda>e. \<not> (fst e = t \<and> snd e < k \<and> \<not> d_redundant (entry T e) \<and> d_addr (entry T e) = a)) (chain_of P a T)
    \<and> (\<forall>x. elems (fold (\<lambda>i. unlink_entry P (t, i)) [0..<k] T) x = elems T x
        \<and> dependers (fold (\<lambda>i. unlink_entry P (t, i)) [0..<k] T x) = dependers (T x)
        \<and> num_dependees (fold (\<lambda>i. unlink_entry P (t, i)) [0..<k] T x) = num_dependees (T x)
        \<and> depend (fold (\<lambda>i. unlink_entry P (t, i)) [0..<k] T x) = depend (T x)
        \<and> depend_count (fold (\<lambda>i. unlink_entry P (t, i)) [0..<k] T x) = depend_count (T x)
        \<and> parent (fold (\<lambda>i. unlink_entry P (t, i)) [0..<k] T x) = parent (T x))"
proof (induction k arbitrary: a)
  case 0
  then show ?case by simp
next
  case (Suc k)
  let ?T = "fold (\<lambda>i. unlink_entry P (t, i)) [0..<k] T"
  have ent: "entry ?T e = entry T e" for e using Suc.IH by (simp add: entry_def)
  have step: "fold (\<lambda>i. unlink_entry P (t, i)) [0..<Suc k] T = unlink_entry P (t, k) ?T" by simp
  have d: "distinct (chain_of P b ?T)" for b using Suc.IH [of b] assms by simp
  have ch: "chain_of P a (unlink_entry P (t, k) ?T) =
     filter (\<lambda>e. \<not> (e = (t, k) \<and> \<not> d_redundant (entry T e) \<and> d_addr (entry T e) = a)) (chain_of P a ?T)"
  proof (cases "d_redundant (entry T (t, k)) \<or> d_addr (entry T (t, k)) \<noteq> a")
    case True
    then have "filter (\<lambda>e. \<not> (e = (t, k) \<and> \<not> d_redundant (entry T e) \<and> d_addr (entry T e) = a)) (chain_of P a ?T) = chain_of P a ?T"
      by (intro filter_True) auto
    then show ?thesis using True by (auto simp: unlink_entry_def ent)
  next
    case False
    then have "chain_of P a (unlink_entry P (t, k) ?T) = remove1 (t, k) (chain_of P a ?T)" by (simp add: unlink_entry_def ent)
    also have "\<dots> = filter (\<lambda>e. e \<noteq> (t, k)) (chain_of P a ?T)" 
      using distinct_remove1_removeAll [OF d] by (simp add: removeAll_filter_not_eq eq_commute [of "(t, k)"])
    also have "\<dots> = filter (\<lambda>e. \<not> (e = (t, k) \<and> \<not> d_redundant (entry T e) \<and> d_addr (entry T e) = a)) (chain_of P a ?T)"
      using False by (intro filter_cong) auto
    finally show ?thesis .
  qed
  have "chain_of P a (unlink_entry P (t, k) ?T) =
      filter (\<lambda>e. \<not> (fst e = t \<and> snd e < Suc k \<and> \<not> d_redundant (entry T e) \<and> d_addr (entry T e) = a)) (chain_of P a T)"
    using Suc.IH [of a] unfolding ch by (auto simp: less_Suc_eq intro!: filter_cong)
  moreover have "dependers (unlink_entry P (t, k) ?T x) = dependers (?T x)" "parent (unlink_entry P (t, k) ?T x) = parent (?T x)"
    "elems (unlink_entry P (t, k) ?T) x = elems ?T x" "num_dependees (unlink_entry P (t, k) ?T x) = num_dependees (?T x)"
    "depend (unlink_entry P (t, k) ?T x) = depend (?T x)" "depend_count (unlink_entry P (t, k) ?T x) = depend_count (?T x)" for x
    by (simp_all add: unlink_entry_def) (simp_all add: set_chain_def)
  ultimately show ?case using Suc.IH unfolding step by simp
qed

subsection \<open>What the rest of the operations leave alone\<close>

lemma upd_task_of: "task_of (upd t f s) = (task_of s)(t := f (task_of s t))"
  by (simp add: upd_def)

lemma on_children_same: "on_children p f s = Some s' \<Longrightarrow> dep_same X (task_of s) (task_of s')"
  by (auto simp: on_children_def dep_same_def upd_task_of)

lemma on_group_same: "on_group g f s = Some s' \<Longrightarrow> dep_same X (task_of s) (task_of s')"
  by (auto simp: on_group_def upd_group_def)

lemma on_team_same: "on_team f s = Some s' \<Longrightarrow> dep_same X (task_of s) (task_of s')"
  by (auto simp: on_team_def)

lemma insert_child_same: "insert_child p t adjust s = Some s' \<Longrightarrow> dep_same X (task_of s) (task_of s')"
  by (simp add: insert_child_def on_children_same)

lemma insert_in_group_same: "insert_in_group g t s = Some s' \<Longrightarrow> dep_same X (task_of s) (task_of s')"
  by (auto simp: insert_in_group_def intro: on_group_same split: option.splits)

lemma insert_in_team_same: "insert_in_team pos t s = Some s' \<Longrightarrow> dep_same X (task_of s) (task_of s')"
  by (simp add: insert_in_team_def on_team_same)

lemma wake_parent_same: "dep_same X (task_of s) (task_of (wake_parent p s))"
  by (auto simp: wake_parent_def dep_same_def upd_task_of split: option.split)

lemma wake_group_tasks [simp]: "task_of (wake_group g s) = task_of s"
  by (simp add: wake_group_def upd_group_def split: option.split)

lemma count_task_tasks [simp]: "task_of (count_task s) = task_of s" "task_of (set_task_pending s) = task_of s"
  by (simp_all add: count_task_def set_task_pending_def)

lemma run_pre_same:
  assumes "gomp_task_run_pre child par s = Some (c, s')"
  shows "dep_same X (task_of s) (task_of s')"
proof -
  obtain s1 where 1: "(case par of None \<Rightarrow> Some s | Some p \<Rightarrow> on_children p (priority_queue_downgrade_task (plain_tasks s) child) s) = Some s1"
    using assms by (auto simp: gomp_task_run_pre_def bind_eq_Some_conv)
  have d1: "dep_same X (task_of s) (task_of s1)" using 1 by (auto intro: on_children_same split: option.splits)
  obtain s2 where 2: "(case taskgroup (task_of s1 child) of None \<Rightarrow> Some s1
      | Some g \<Rightarrow> on_group g (priority_queue_downgrade_task (plain_tasks s1) child) s1) = Some s2"
    using assms 1 by (auto simp: gomp_task_run_pre_def bind_eq_Some_conv Let_def [of "taskgroup (task_of s1 child)"])
  have d2: "dep_same X (task_of s1) (task_of s2)" using 2 by (auto intro: on_group_same split: option.splits)
  obtain s3 where 3: "on_team (\<lambda>q. map_option snd (priority_queue_remove child (priority (task_of s2 child)) q)) s2 = Some s3"
    using assms 1 2 by (auto simp: gomp_task_run_pre_def bind_eq_Some_conv Let_def)
  have d3: "dep_same X (task_of s2) (task_of s3)" by (rule on_team_same [OF 3])
  have "task_of s' = (task_of s3)(child := (task_of s3 child)\<lparr>kind := GOMP_TASK_TIED\<rparr>)"
    using assms 1 2 3 by (auto simp: gomp_task_run_pre_def Let_def upd_task_of split: if_splits)
  then have "dep_same X (task_of s3) (task_of s')" by (simp add: dep_same_def)
  then show ?thesis using d1 d2 d3 by (blast intro: dep_same_trans)
qed

definition dec_dependees :: "nat \<Rightarrow> (nat \<Rightarrow> full_task) \<Rightarrow> nat \<Rightarrow> full_task" where
  "dec_dependees x T = T(x := (T x)\<lparr>num_dependees := u64 (num_dependees (T x) - 1)\<rparr>)"

lemma depender_done_same:
  assumes "depender_done par x (n, s) = Some (m, s')"
  shows "dep_same X (dec_dependees x (task_of s)) (task_of s')"
proof -
  let ?s1 = "upd x (\<lambda>y. y\<lparr>num_dependees := u64 (num_dependees y - 1)\<rparr>) s"
  have s1: "task_of ?s1 = dec_dependees x (task_of s)" by (simp add: upd_task_of dec_dependees_def)
  show ?thesis
  proof (cases "num_dependees (task_of ?s1 x) \<noteq> 0")
    case True
    then show ?thesis using assms s1 by (simp add: depender_done_def Let_def)
  next
    case False
    then obtain s2 s3 s4 where
      2: "(case par of None \<Rightarrow> Some ?s1 | Some p \<Rightarrow> map_option (wake_parent p) (insert_child p x True ?s1)) = Some s2"
      and 3: "map_option (wake_group (taskgroup (task_of ?s1 x))) (insert_in_group (taskgroup (task_of ?s1 x)) x s2) = Some s3"
      and 4: "insert_in_team PRIORITY_INSERT_END x s3 = Some s4" "s' = count_task s4"
      using assms by (auto simp: depender_done_def Let_def bind_eq_Some_conv)
    have "dep_same X (task_of ?s1) (task_of s2)"
      using 2 by (auto split: option.splits intro: dep_same_trans [OF insert_child_same wake_parent_same])
    moreover have "dep_same X (task_of s2) (task_of s3)" using 3 by (auto intro: insert_in_group_same)
    moreover have "dep_same X (task_of s3) (task_of s')" using insert_in_team_same [OF 4(1)] 4(2) by simp
    ultimately show ?thesis unfolding s1 by (blast intro: dep_same_trans)
  qed
qed

lemma dependers_done_same:
  "dependers_done par xs (n, s) = Some (m, s') \<Longrightarrow> dep_same X (fold dec_dependees xs (task_of s)) (task_of s')"
proof (induction xs arbitrary: n s)
  case (Cons x xs)
  then obtain k s1 where 1: "depender_done par x (n, s) = Some (k, s1)" "dependers_done par xs (k, s1) = Some (m, s')"
    by (auto simp: bind_eq_Some_conv)
  have d: "dep_same UNIV (dec_dependees x (task_of s)) (task_of s1)" by (rule depender_done_same [OF 1(1)])
  have f: "dep_same UNIV T T' \<Longrightarrow> dep_same UNIV (fold dec_dependees ys T) (fold dec_dependees ys T')" for ys T T'
    by (induction ys arbitrary: T T') (simp_all add: dep_same_def dec_dependees_def)
  have "dep_same X (fold dec_dependees (x # xs) (task_of s)) (fold dec_dependees xs (task_of s1))"
    using f [OF d, of xs] by (simp add: dep_same_def)
  then show ?case using Cons.IH [OF 1(2)] by (blast intro: dep_same_trans)
qed simp

lemma fold_dec: "distinct xs \<Longrightarrow> num_dependees (fold dec_dependees xs T x) = (if x \<in> set xs then u64 (num_dependees (T x) - 1) else num_dependees (T x))
   \<and> parent (fold dec_dependees xs T x) = parent (T x) \<and> dependers (fold dec_dependees xs T x) = dependers (T x)
   \<and> depend (fold dec_dependees xs T x) = depend (T x) \<and> depend_count (fold dec_dependees xs T x) = depend_count (T x)
   \<and> depend_hash (fold dec_dependees xs T x) = depend_hash (T x)"
  by (induction xs arbitrary: T) (auto simp: dec_dependees_def)

lemma post_handle_depend_inv:
  assumes inv: "dep_inv P cs U (task_of s)" and t: "t \<in> U" "num_dependees (task_of s t) = 0" and fin: "finite U" "card U < 2 ^ 64"
    and par: "parent (task_of s t) = Some P" and dc: "depend_count (task_of s t) = length (depend (task_of s t))" "depend (task_of s t) \<noteq> []"
    and r: "gomp_task_run_post_handle_depend t s = Some (n, s')"
  shows "dep_inv P cs (U - {t}) (task_of s')"
    and "x \<noteq> t \<Longrightarrow> parent (task_of s' x) = parent (task_of s x) \<and> depend (task_of s' x) = depend (task_of s x)
      \<and> depend_count (task_of s' x) = depend_count (task_of s x)"
proof -
  let ?T = "task_of s"
  define T1 where "T1 = gomp_task_run_post_handle_depend_hash t P ?T"
  let ?s1 = "s\<lparr>task_of := T1\<rparr>"
  have chain: "\<And>a. chain_inv U ?T a (chain_of P a ?T)" and el: "distinct (elems ?T t)" "\<And>x. x \<in> set (elems ?T t) \<Longrightarrow> x \<in> U \<and> before cs t x"
    and cnt: "\<And>x. x \<in> U \<Longrightarrow> counted U ?T x" and Pn: "P \<notin> set cs" "U \<subseteq> set cs"
    using inv t(1) unfolding dep_inv_def by blast+
  have dist: "distinct (chain_of P a ?T)" "set (chain_of P a ?T) = live U ?T a" for a using chain [of a] by (auto simp: chain_inv_def)
  note un = unlink_entries [where P = P and T = ?T and t = t and k = "depend_count (?T t)", OF dist(1), folded gomp_task_run_post_handle_depend_hash_def T1_def]
  have T1: "chain_of P a T1 = filter (\<lambda>e. fst e \<noteq> t) (chain_of P a ?T)" for a
  proof -
    have "e \<in> live U ?T a \<Longrightarrow> (\<not> (fst e = t \<and> snd e < depend_count (?T t) \<and> \<not> d_redundant (entry ?T e) \<and> d_addr (entry ?T e) = a)) = (fst e \<noteq> t)" for e
      using dc(1) by (auto simp: live_def)
    then show ?thesis using un [of a] dist(2) [of a] by (auto intro!: filter_cong)
  qed
  have others: "elems T1 x = elems ?T x" "dependers (T1 x) = dependers (?T x)" "num_dependees (T1 x) = num_dependees (?T x)"
    "depend (T1 x) = depend (?T x)" "depend_count (T1 x) = depend_count (?T x)" "parent (T1 x) = parent (?T x)" for x
    using un by blast+
  have "depend_count (?T t) \<noteq> 0" using dc by simp
  then have r1: "(case dependers (T1 t) of None \<Rightarrow> Some (0, ?s1)
      | Some e \<Rightarrow> gomp_task_run_post_handle_dependers t e ?s1) = Some (n, s')"
    using r par by (simp add: gomp_task_run_post_handle_depend_def Let_def flip: T1_def)
  have res: "(\<forall>x. x \<noteq> t \<longrightarrow> elems (task_of s') x = elems ?T x \<and> depend (task_of s' x) = depend (?T x)
        \<and> parent (task_of s' x) = parent (?T x) \<and> depend_count (task_of s' x) = depend_count (?T x)
        \<and> num_dependees (task_of s' x) = (if x \<in> set (elems ?T t) then u64 (num_dependees (?T x) - 1) else num_dependees (?T x)))
     \<and> (\<forall>a. chain_of P a (task_of s') = chain_of P a T1)"
  proof (cases "dependers (?T t)")
    case None
    then have "s' = ?s1" "elems ?T t = []" using r1 others(2) by (simp_all add: elems_def)
    then show ?thesis using others by simp
  next
    case (Some e)
    then have e: "e = elems ?T t" by (simp add: elems_def)
    obtain m s2 where 2: "dependers_done (parent (T1 t)) e (0, ?s1) = Some (m, s2)"
      "task_of s' = (task_of s2)(t := (task_of s2 t)\<lparr>dependers := None\<rparr>)"
      using r1 Some others(2) by (auto simp: gomp_task_run_post_handle_dependers_def bind_eq_Some_conv Let_def upd_task_of split: if_splits)
    have d: "dep_same UNIV (fold dec_dependees e T1) (task_of s2)" using dependers_done_same [OF 2(1), of UNIV] by simp
    note fd = fold_dec [OF el(1) [folded e], of T1]
    have "chain_of P a (task_of s') = chain_of P a T1" for a
      using d fd [of P] 2(2) by (auto simp: dep_same_def chain_of_def)
    moreover have "elems (task_of s') x = elems ?T x \<and> depend (task_of s' x) = depend (?T x)
        \<and> parent (task_of s' x) = parent (?T x) \<and> depend_count (task_of s' x) = depend_count (?T x)
        \<and> num_dependees (task_of s' x) = (if x \<in> set (elems ?T t) then u64 (num_dependees (?T x) - 1) else num_dependees (?T x))" if "x \<noteq> t" for x
      using d fd [of x] 2(2) that others [of x] by (auto simp: dep_same_def elems_def e)
    ultimately show ?thesis by blast
  qed
  show "dep_inv P cs (U - {t}) (task_of s')"
  proof (rule finish_inv [OF inv t fin(1)])
    show "num_dependees (task_of s' u) = num_dependees (?T u) - (if u \<in> set (elems ?T t) then 1 else 0)" if "u \<in> U" "u \<noteq> t" for u
    proof (cases "u \<in> set (elems ?T t)")
      case True
      have "1 \<le> num_dependees (?T u)" "num_dependees (?T u) < 2 ^ 64"
        by (rule core_num [OF dep_inv_core [OF inv] fin t(1) True])+
      then show ?thesis using res that True by (simp add: u64_id)
    qed (use res that in simp)
  qed (use res T1 in simp_all)
  show "x \<noteq> t \<Longrightarrow> parent (task_of s' x) = parent (task_of s x) \<and> depend (task_of s' x) = depend (task_of s x)
      \<and> depend_count (task_of s' x) = depend_count (task_of s x)"
    using res by blast
qed

subsection \<open>The clauses of the directives\<close>

lemma depend_scan_parent: "depend_scan t n xs T x y = (T', r) \<Longrightarrow> parent (T' z) = parent (T z)"
proof (induction t n xs T x y rule: depend_scan.induct)
  case (2 t n e es T out lst)
  have "parent (add_depender t (fst e) T z) = parent (T z)" by (simp add: add_depender_def Let_def)
  then show ?case using 2 by (auto split: if_splits)
qed simp

lemma depend_one_parent: "parent (depend_one t P d T z) = parent (T z)"
proof -
  obtain a n where d: "d = (a, n)" by fastforce
  have u: "parent (upd_entry e f T z) = parent (T z)" "parent (set_chain P a xs T z) = parent (T z)" "parent (append_entry t x T z) = parent (T z)"
    for e f T xs x by (simp_all add: upd_entry_def set_chain_def append_entry_def)
  show ?thesis unfolding d depend_one_unfold Let_def
    by (auto simp: u split: list.split prod.split option.split dest: depend_scan_parent [where z = z])
qed

lemma handle_depend_parent: "parent (gomp_task_handle_depend t P nout addrs T z) = parent (T z)"
proof -
  have f: "parent (fold (depend_one t P) ds T z) = parent (T z)" for ds T
    by (induction ds arbitrary: T) (simp_all add: depend_one_parent)
  show ?thesis by (simp add: gomp_task_handle_depend_def Let_def f)
qed

definition clashes :: "(int \<times> bool) list \<Rightarrow> (int \<times> bool) list \<Rightarrow> bool" where
  "clashes xs ys \<longleftrightarrow> (\<exists>x \<in> set xs. \<exists>y \<in> set ys. fst x = fst y \<and> (\<not> snd x \<or> \<not> snd y))"

lemma conflict_clashes: "conflict ds es = clashes (clauses ds) (clauses es)"
  by (simp add: conflict_def clashes_def clauses_def)

text \<open>Runs of a team, seen from the children of \<open>P\<close> that have \<open>depend\<close> clauses: \<open>cs\<close> in the order of their
  creation, \<open>D\<close> the clauses, \<open>U\<close> those that have not finished. A task finishes only after it has been
  in the queues, so when no dependence is left.\<close>

inductive dep_run :: "nat \<Rightarrow> task_team \<Rightarrow> nat list \<Rightarrow> (nat \<Rightarrow> (int \<times> bool) list) \<Rightarrow> nat set \<Rightarrow> bool" for P where
  start: "(\<And>a. chain_of P a (task_of s) = []) \<Longrightarrow> dep_run P s [] D {}"
| create: "dep_run P s cs D U \<Longrightarrow> t \<notin> set cs \<Longrightarrow> t \<noteq> P \<Longrightarrow> depend_flag c \<Longrightarrow> dep_addrs c \<noteq> [] \<Longrightarrow> \<not> task_cancelled P s
    \<Longrightarrow> deferred_task t P ic prio f c s = Some (w, s')
    \<Longrightarrow> dep_run P s' (cs @ [t]) (D(t := given_clauses (dep_nout c) (dep_addrs c))) (insert t U)"
| finish: "dep_run P s cs D U \<Longrightarrow> t \<in> U \<Longrightarrow> num_dependees (task_of s t) = 0
    \<Longrightarrow> gomp_task_run_post_handle_depend t s = Some (n, s') \<Longrightarrow> dep_run P s' cs D (U - {t})"
| other: "dep_run P s cs D U \<Longrightarrow> kid_same (set cs) (task_of s) (task_of s')
    \<Longrightarrow> depend_hash (task_of s' P) = depend_hash (task_of s P) \<Longrightarrow> dep_run P s' cs D U"

definition clauses_kept :: "nat \<Rightarrow> (nat \<Rightarrow> (int \<times> bool) list) \<Rightarrow> nat set \<Rightarrow> (nat \<Rightarrow> full_task) \<Rightarrow> bool" where
  "clauses_kept P D U T \<longleftrightarrow> (\<forall>t \<in> U. parent (T t) = Some P \<and> clauses (depend (T t)) = D t
     \<and> depend_count (T t) = length (depend (T t)) \<and> depend (T t) \<noteq> [])"

lemma deferred_task_deps:
  assumes inv: "dep_inv P cs U (task_of s)" "clauses_kept P D U (task_of s)" and t: "t \<notin> set cs" "t \<noteq> P"
    and c: "depend_flag c" "dep_addrs c \<noteq> []" "\<not> task_cancelled P s" and U: "finite U" "card (insert t U) < 2 ^ 64"
    and r: "deferred_task t P ic prio f c s = Some (w, s')"
  shows "dep_inv P (cs @ [t]) (insert t U) (task_of s')"
    and "clauses_kept P (D(t := given_clauses (dep_nout c) (dep_addrs c))) (insert t U) (task_of s')"
proof -
  define s1 where "s1 = deferred_new t P ic prio f c s"
  have T1: "task_of s1 x = task_of s x" if "x \<noteq> t" for x
    using that by (simp add: s1_def deferred_new_def gomp_init_task_def upd_def Let_def)
  have t1: "elems (task_of s1) t = []" "parent (task_of s1 t) = Some P"
    by (simp_all add: s1_def deferred_new_def gomp_init_task_def upd_def Let_def elems_def)
  have rest: "tt_barrier s1 = tt_barrier s" "group_of s1 = group_of s" by (simp_all add: s1_def deferred_new_def gomp_init_task_def upd_def Let_def)
  have go: "\<not> (team_cancelled s1 \<or> group_cancelled (taskgroup (task_of s P)) s1)"
    using c(3) rest by (simp add: task_cancelled_def group_cancelled_def split: option.splits)
  define s2 where "s2 = (case taskgroup (task_of s P) of None \<Rightarrow> s1 | Some g \<Rightarrow> upd_group g (\<lambda>x. x\<lparr>num_children := u64 (num_children x + 1)\<rparr>) s1)"
  have T2: "task_of s2 = task_of s1" by (simp add: s2_def upd_group_def split: option.split)
  define T3 where "T3 = gomp_task_handle_depend t P (dep_nout c) (dep_addrs c) (task_of s2)"
  have same: "dep_same UNIV T3 (task_of s')"
  proof (cases "num_dependees (T3 t) \<noteq> 0")
    case True
    then have "task_of s' = T3" using r go c by (auto simp: deferred_task_def Let_def s1_def [symmetric] s2_def [symmetric] T3_def [symmetric])
    then show ?thesis by simp
  next
    case False
    then obtain s4 s5 s6 where "insert_child P t False (s2\<lparr>task_of := T3\<rparr>) = Some s4" "insert_in_group (taskgroup (task_of s P)) t s4 = Some s5"
      "insert_in_team PRIORITY_INSERT_END t s5 = Some s6" "s' = set_task_pending (count_task s6)"
      using r go c by (auto simp: deferred_task_def Let_def bind_eq_Some_conv s1_def [symmetric] s2_def [symmetric] T3_def [symmetric])
    then have i: "dep_same UNIV T3 (task_of s4)" "dep_same UNIV (task_of s4) (task_of s5)" "dep_same UNIV (task_of s5) (task_of s6)" "task_of s' = task_of s6"
      using insert_child_same [of P t False "s2\<lparr>task_of := T3\<rparr>" s4 UNIV] insert_in_group_same insert_in_team_same by simp_all
    show ?thesis unfolding i(4) by (rule dep_same_trans [OF dep_same_trans [OF i(1,2)] i(3)])
  qed
  have U': "U \<subseteq> set cs" using inv(1) by (simp add: dep_inv_def)
  have "task_of s2 x = task_of s x" if "x \<in> insert P U" for x
  proof -
    have "x \<noteq> t" using that t U' by blast
    then show ?thesis using T1 T2 by simp
  qed
  then have "kid_same U (task_of s) (task_of s2)" "depend_hash (task_of s2 P) = depend_hash (task_of s P)" by (simp_all add: kid_same_def)
  then have inv2: "dep_inv P cs U (task_of s2)" using dep_inv_same [OF _ subset_refl] inv(1) by blast
  note h = handle_depend_inv [OF inv2 t U t1(1) [folded T2], where nout = "dep_nout c" and addrs = "dep_addrs c", folded T3_def]
  show "dep_inv P (cs @ [t]) (insert t U) (task_of s')" by (rule dep_inv_same [OF dep_kid_same [OF same subset_refl] _ _ h(1)]) (use same in \<open>simp_all add: dep_same_def\<close>)
  have len: "length (depend (T3 t)) = length (dep_addrs c)" using arg_cong [OF h(2), of length] by (simp add: clauses_def given_clauses_def)
  have new: "parent (T3 t) = Some P \<and> clauses (depend (T3 t)) = given_clauses (dep_nout c) (dep_addrs c)
     \<and> depend_count (T3 t) = length (depend (T3 t)) \<and> depend (T3 t) \<noteq> []"
    using h(2) h(4) [of t] len c(2) t1(2) T2 by (auto simp: T3_def handle_depend_parent)
  have old: "parent (T3 x) = Some P \<and> clauses (depend (T3 x)) = D x \<and> depend_count (T3 x) = length (depend (T3 x)) \<and> depend (T3 x) \<noteq> []"
    if x: "x \<in> U" for x
  proof -
    have xt: "x \<noteq> t" using x U' t(1) by auto
    have m: "map cl (depend (T3 x)) = map cl (depend (task_of s x))" using h(3) [OF xt] T1 [OF xt] T2 by (simp add: same_cl_def)
    have k: "parent (task_of s x) = Some P \<and> clauses (depend (task_of s x)) = D x
        \<and> depend_count (task_of s x) = length (depend (task_of s x)) \<and> depend (task_of s x) \<noteq> []"
      using inv(2) x by (simp add: clauses_kept_def)
    have "length (depend (T3 x)) = length (depend (task_of s x))" using m by (rule map_eq_imp_length_eq)
    moreover have "clauses (depend (T3 x)) = D x" using fst_cl [OF m] k by (simp add: clauses_def)
    ultimately show ?thesis using k h(4) [of x] xt T1 [OF xt] T2 by (auto simp: T3_def handle_depend_parent)
  qed
  show "clauses_kept P (D(t := given_clauses (dep_nout c) (dep_addrs c))) (insert t U) (task_of s')"
    unfolding clauses_kept_def
  proof
    fix x assume "x \<in> insert t U"
    then show "parent (task_of s' x) = Some P \<and> clauses (depend (task_of s' x)) = (D(t := given_clauses (dep_nout c) (dep_addrs c))) x
       \<and> depend_count (task_of s' x) = length (depend (task_of s' x)) \<and> depend (task_of s' x) \<noteq> []"
      using same new old [of x] by (cases "x = t") (simp_all add: dep_same_def)
  qed
qed

lemma dep_run_inv:
  assumes "dep_run P s cs D U" and "length cs < 2 ^ 64"
  shows "dep_inv P cs U (task_of s) \<and> clauses_kept P D U (task_of s)"
  using assms
proof (induction rule: dep_run.induct)
  case (start s D)
  have "chain_inv {} (task_of s) a []" for a by (rule chain_invI [of _ _ _ _ "[]" "[]"]) (auto simp: live_def chain_parts_def)
  then show ?case using start by (simp add: dep_inv_def clauses_kept_def)
next
  case (create s cs D U t c ic prio f w s')
  have IH: "dep_inv P cs U (task_of s)" "clauses_kept P D U (task_of s)" using create.IH create.prems by simp_all
  have "insert t U \<subseteq> set (cs @ [t])" using IH(1) by (auto simp: dep_inv_def)
  then have "card (insert t U) \<le> card (set (cs @ [t]))" "finite U" by (auto intro!: card_mono intro: finite_subset)
  then have "card (insert t U) < 2 ^ 64" using card_length [of "cs @ [t]"] create.prems by linarith
  then show ?case using deferred_task_deps [OF IH create.hyps(2-6) \<open>finite U\<close> _ create.hyps(7)] by blast
next
  case (finish s cs D U t n s')
  have IH: "dep_inv P cs U (task_of s)" "clauses_kept P D U (task_of s)" using finish.IH finish.prems by simp_all
  have U: "U \<subseteq> set cs" using IH(1) by (simp add: dep_inv_def)
  then have "finite U" by (rule finite_subset) simp
  moreover have "card U < 2 ^ 64" using card_mono [OF _ U] card_length [of cs] finish.prems by (simp add: order_le_less_trans)
  moreover have "parent (task_of s t) = Some P" "depend_count (task_of s t) = length (depend (task_of s t))" "depend (task_of s t) \<noteq> []"
    using IH(2) finish.hyps(2) by (auto simp: clauses_kept_def)
  ultimately have "dep_inv P cs (U - {t}) (task_of s')"
    "x \<noteq> t \<Longrightarrow> parent (task_of s' x) = parent (task_of s x) \<and> depend (task_of s' x) = depend (task_of s x)
      \<and> depend_count (task_of s' x) = depend_count (task_of s x)" for x
    using post_handle_depend_inv [OF IH(1) finish.hyps(2,3) _ _ _ _ _ finish.hyps(4)] by blast+
  then show ?case using IH(2) by (simp add: clauses_kept_def)
next
  case (other s cs D U s')
  have IH: "dep_inv P cs U (task_of s)" "clauses_kept P D U (task_of s)" using other.IH other.prems by simp_all
  have U: "U \<subseteq> set cs" using IH(1) by (auto simp: dep_inv_def)
  have "dep_inv P cs U (task_of s')" by (rule dep_inv_same [OF other.hyps(2) U other.hyps(3) IH(1)])
  moreover have "clauses_kept P D U (task_of s')" unfolding clauses_kept_def
  proof
    fix t assume t: "t \<in> U"
    then have "t \<in> set cs" using U by blast
    then have "parent (task_of s' t) = parent (task_of s t)" "depend (task_of s' t) = depend (task_of s t)"
      "depend_count (task_of s' t) = depend_count (task_of s t)" using other.hyps(2) unfolding kid_same_def by blast+
    then show "parent (task_of s' t) = Some P \<and> clauses (depend (task_of s' t)) = D t
        \<and> depend_count (task_of s' t) = length (depend (task_of s' t)) \<and> depend (task_of s' t) \<noteq> []"
      using IH(2) t by (simp add: clauses_kept_def)
  qed
  ultimately show ?case ..
qed

lemma core_ready:
  assumes core: "dep_core cs U T" and D: "\<And>u. u \<in> U \<Longrightarrow> clauses (depend (T u)) = D u" and t: "t \<in> U"
  shows "num_dependees (T t) = 0 \<longleftrightarrow> (\<forall>u \<in> U. before cs u t \<longrightarrow> \<not> clashes (D u) (D t))"
proof -
  have cl: "conflict (depend (T u)) (depend (T t)) = clashes (D u) (D t)" if "u \<in> U" for u
    using D [OF that] D [OF t] by (simp add: conflict_clashes)
  have "finite U" using core finite_subset by (auto simp: dep_core_def)
  then have "finite (blockers U T t)" by (simp add: blockers_def)
  then have z: "num_dependees (T t) = 0 \<longleftrightarrow> blockers U T t = {}"
    using core t by (simp add: dep_core_def counted_def)
  show ?thesis unfolding z
  proof
    assume e: "blockers U T t = {}"
    show "\<forall>u \<in> U. before cs u t \<longrightarrow> \<not> clashes (D u) (D t)"
    proof (intro ballI impI notI)
      fix u assume u: "u \<in> U" "before cs u t" "clashes (D u) (D t)"
      then have "(u, t) \<in> (waits U T)\<^sup>+" using core t cl [OF u(1)] unfolding dep_core_def by blast
      then obtain x where "(x, t) \<in> waits U T" by (meson tranclE)
      then show False using e by (auto simp: waits_def blockers_def)
    qed
  next
    assume "\<forall>u \<in> U. before cs u t \<longrightarrow> \<not> clashes (D u) (D t)"
    moreover have "before cs u t \<and> conflict (depend (T u)) (depend (T t))" if "u \<in> blockers U T t" for u
      using that core unfolding dep_core_def blockers_def by blast
    ultimately show "blockers U T t = {}" using cl by (auto simp: blockers_def)
  qed
qed

lemma ready_iff:
  assumes "dep_run P s cs D U" and "length cs < 2 ^ 64" and "t \<in> U"
  shows "num_dependees (task_of s t) = 0 \<longleftrightarrow> (\<forall>u \<in> U. before cs u t \<longrightarrow> \<not> clashes (D u) (D t))"
proof (rule core_ready [OF dep_inv_core _ assms(3)])
  show "dep_inv P cs U (task_of s)" "u \<in> U \<Longrightarrow> clauses (depend (task_of s u)) = D u" for u
    using dep_run_inv [OF assms(1,2)] by (simp_all add: clauses_kept_def)
qed

text \<open>
  C7. The \<open>depend\<close> clauses order the children of a task as they say: in every run, an unfinished child
  has no dependence left, and so is put into the queues, exactly when no unfinished child created
  before it names one of its addresses with at least one of the two writing it. This covers
  repeated addresses in one clause, outputs that a later output has made redundant in the chains,
  and finished tasks that have been taken out of them.
\<close>

theorem depend_clauses_order:
  assumes "dep_run P s cs D U" and "length cs < 2 ^ 64" and "t \<in> U"
  shows "num_dependees (task_of s t) = 0 \<longleftrightarrow> (\<forall>u \<in> U. before cs u t \<longrightarrow> \<not> clashes (D u) (D t))"
  by (rule ready_iff [OF assms])

text \<open>
  Dependences never deadlock: as long as some child with \<open>depend\<close> clauses has not finished, one of
  the unfinished ones has no dependence left.
\<close>

theorem depend_no_deadlock:
  assumes "dep_run P s cs D U" and "length cs < 2 ^ 64" and "U \<noteq> {}"
  shows "\<exists>t \<in> U. num_dependees (task_of s t) = 0"
proof -
  have inv: "dep_inv P cs U (task_of s)" using dep_run_inv [OF assms(1,2)] by blast
  then have "\<exists>x \<in> set cs. x \<in> U" using assms(3) unfolding dep_inv_def by blast
  then obtain us t vs where cs: "cs = us @ t # vs" "t \<in> U" "\<forall>u \<in> set us. u \<notin> U"
    using split_list_first_prop [of cs "\<lambda>x. x \<in> U"] by blast
  have "distinct cs" using inv by (simp add: dep_inv_def)
  then have "takeWhile (\<lambda>x. x \<noteq> t) cs = us" unfolding cs(1) by (subst takeWhile_append2) auto
  then have "\<not> before cs u t" if "u \<in> U" for u using cs(3) that by (auto simp: before_def)
  then have "num_dependees (task_of s t) = 0" using ready_iff [OF assms(1,2) cs(2)] by blast
  then show ?thesis using cs(2) by blast
qed

text \<open>An example: task 1 writes address 5, then task 2 reads it.\<close>

definition idle_task :: full_task where
  "idle_task = \<lparr>priority = 0, kind = GOMP_TASK_IMPLICIT, parent_depends_on = False, parent = None,
     t_icv = \<lparr>run_sched_var = GFS_DYNAMIC, run_sched_chunk_size = 1, nthreads_var = 1, default_device_var = 0,
       thread_limit_var = 0, dyn_var = False, nest_var = False, bind_var = omp_proc_bind_false\<rparr>,
     children_queue = empty_queue, taskgroup = None, dependers = None, depend_hash = None, taskwait = None,
     depend_count = 0, num_dependees = 0, fn = None, in_tied_task = False, final_task = False,
     copy_ctors_done = False, depend = []\<rparr>"

definition example_team :: task_team where
  "example_team = \<lparr>task_of = (\<lambda>t. idle_task),
     group_of = (\<lambda>g. \<lparr>tg_prev = None, taskgroup_queue = empty_queue, in_taskgroup_wait = False, tg_cancelled = False, num_children = 0, taskgroup_sem = 0\<rparr>),
     children_links = empty_links, group_links = empty_links, team_links = empty_links, team_queue = empty_queue,
     task_count = 0, task_queued_count = 0, task_running_count = 0, tt_nthreads = 2, tt_barrier = gomp_barrier_init 2\<rparr>"

definition example_clauses :: "nat \<Rightarrow> int list \<Rightarrow> task_clauses" where
  "example_clauses nout addrs = \<lparr>if_clause = True, final_flag = False, depend_flag = True, priority_flag = False,
     prio_clause = 0, cpyfn = False, dep_nout = nout, dep_addrs = addrs\<rparr>"

definition new_child :: "nat \<Rightarrow> nat \<Rightarrow> int list \<Rightarrow> task_team \<Rightarrow> (bool \<times> task_team) option" where
  "new_child t nout addrs s = deferred_task t 0 (t_icv idle_task) 0 0 (example_clauses nout addrs) s"

definition writer_team :: task_team where "writer_team = snd (the (new_child 1 1 [5] example_team))"
definition reader_team :: task_team where "reader_team = snd (the (new_child 2 0 [5] writer_team))"

lemma example_steps:
  "(case new_child 1 1 [5] example_team of None \<Rightarrow> False | Some r \<Rightarrow> True)"
  "(case new_child 2 0 [5] writer_team of None \<Rightarrow> False | Some r \<Rightarrow> True)"
  "\<not> task_cancelled 0 example_team" "\<not> task_cancelled 0 writer_team"
  by code_simp+

lemma example_run:
  "dep_run 0 reader_team [1, 2] ((\<lambda>t. [])(1 := [(5, False)], 2 := [(5, True)])) {1, 2}"
proof -
  have g: "given_clauses (dep_nout (example_clauses 1 [5])) (dep_addrs (example_clauses 1 [5])) = [(5, False)]"
    "given_clauses (dep_nout (example_clauses 0 [5])) (dep_addrs (example_clauses 0 [5])) = [(5, True)]"
    by (simp_all add: given_clauses_def example_clauses_def)
  have s: "dep_run 0 example_team [] (\<lambda>t. []) {}" by (rule dep_run.start) (simp add: chain_of_def example_team_def idle_task_def)
  have some: "(case x of None \<Rightarrow> False | Some r \<Rightarrow> True) \<Longrightarrow> x = Some (fst (the x), snd (the x))" for x :: "(bool \<times> task_team) option"
    by (simp split: option.splits)
  note 1 = some [OF example_steps(1), folded writer_team_def] and 2 = some [OF example_steps(2), folded reader_team_def]
  have "dep_run 0 writer_team ([] @ [1]) ((\<lambda>t. [])(1 := [(5, False)])) (insert 1 {})"
    using dep_run.create [OF s _ _ _ _ example_steps(3) 1 [unfolded new_child_def], unfolded g] by (simp add: example_clauses_def)
  then have r: "dep_run 0 writer_team [1] ((\<lambda>t. [])(1 := [(5, False)])) {1}" by simp
  have "dep_run 0 reader_team ([1] @ [2]) ((\<lambda>t. [])(1 := [(5, False)], 2 := [(5, True)])) (insert 2 {1})"
    using dep_run.create [OF r _ _ _ _ example_steps(4) 2 [unfolded new_child_def], unfolded g] by (simp add: example_clauses_def)
  then show ?thesis by (simp add: insert_commute)
qed

theorem depend_clauses_order_witness:
  "num_dependees (task_of reader_team 2) \<noteq> 0 \<and> num_dependees (task_of reader_team 1) = 0"
  using depend_clauses_order [OF example_run, of 2] depend_clauses_order [OF example_run, of 1]
  by (simp add: clashes_def before_def)

theorem depend_no_deadlock_witness: "\<exists>t \<in> {1, 2}. num_dependees (task_of reader_team t) = 0"
  by (rule depend_no_deadlock [OF example_run]) simp_all

end
