(* ===== verification/TaskWait.thy ===== *)
theory TaskWait
  imports DependOrder
begin

text \<open>
  The waits of \<open>task.c\<close>: \<open>GOMP_taskwait\<close>, \<open>GOMP_taskgroup_start\<close> and \<open>_end\<close>, and the wait of an
  undeferred task for the tasks it depends on. Each wait is a loop that picks a task, runs it and
  finishes it, with \<open>task_lock\<close> held while it picks and finishes; the two halves are one definition each.
  The completion of a target task is here as well.
\<close>

text \<open>What the first half of a round has decided.\<close>

datatype wait_step =
    Wait_over
  | Wait_run nat bool bool  \<comment> \<open>the task, \<open>child_q\<close>, and whether it has been cancelled\<close>
  | Wait_sleep

subsection \<open>Waiting for the children\<close>

definition fresh_taskwait :: gomp_taskwait where
  "fresh_taskwait = \<lparr>in_taskwait = False, in_depend_wait = False, n_depend = 0, taskwait_sem = 0\<rparr>"

definition taskwait_pick :: "nat \<Rightarrow> task_team \<Rightarrow> (wait_step \<times> task_team) option" where
  "taskwait_pick cur s =
    (let q = children_queue (task_of s cur) in
     if priority_queue_empty_p q then Some (Wait_over, upd cur (\<lambda>x. x\<lparr>taskwait := None\<rparr>) s)
     else case priority_queue_next_task (plain_tasks s) q (Some (team_queue s)) of
       (None, child_q) \<Rightarrow> None
     | (Some t, child_q) \<Rightarrow>
         if kind (task_of s t) = GOMP_TASK_WAITING then
           map_option (\<lambda>(c, s1). (Wait_run t child_q c, s1)) (gomp_task_run_pre t (Some cur) s)
         else Some (Wait_sleep, upd cur (\<lambda>x. x\<lparr>taskwait := Some
           ((case taskwait x of None \<Rightarrow> fresh_taskwait | Some w \<Rightarrow> w)\<lparr>in_taskwait := True\<rparr>)\<rparr>) s))"

text \<open>The number of threads to wake, for the waits of one task: \<open>in_tied_task\<close> is that of the waiting one.\<close>

definition wake_for_new :: "nat \<Rightarrow> nat \<Rightarrow> task_team \<Rightarrow> nat" where
  "wake_for_new cur new_tasks s =
    (if 1 < new_tasks
     then min (nat (u32 (tt_nthreads s - task_running_count s - (if in_tied_task (task_of s cur) then 0 else 1)))) new_tasks
     else 0)"

definition dec_task_count :: "task_team \<Rightarrow> task_team" where
  "dec_task_count s = s\<lparr>task_count := u32 (task_count s - 1)\<rparr>"

definition taskwait_finish :: "nat \<Rightarrow> bool \<Rightarrow> nat \<Rightarrow> task_team \<Rightarrow> (nat \<times> task_team) option" where
  "taskwait_finish cur child_q child s = do {
     (new_tasks, s1) \<leftarrow> gomp_task_run_post_handle_depend child s;
     s2 \<leftarrow> (if child_q then map_option snd (remove_child cur child s1) else Some s1);
     s3 \<leftarrow> gomp_clear_parent child s2;
     s4 \<leftarrow> gomp_task_run_post_remove_taskgroup child s3;
     let s5 = dec_task_count s4;
     Some (wake_for_new cur new_tasks s5, s5)
   }"

subsection \<open>Task groups\<close>

text \<open>\<open>g\<close> is the new block of memory.\<close>

definition GOMP_taskgroup_start :: "nat \<Rightarrow> nat \<Rightarrow> task_team \<Rightarrow> task_team" where
  "GOMP_taskgroup_start g cur s =
    upd cur (\<lambda>x. x\<lparr>taskgroup := Some g\<rparr>)
      (upd_group g (\<lambda>x. \<lparr>tg_prev = taskgroup (task_of s cur), taskgroup_queue = priority_queue_init (taskgroup_queue x),
         in_taskgroup_wait = False, tg_cancelled = False, num_children = 0, taskgroup_sem = 0\<rparr>) s)"

text \<open>The group of the current task is not null here.\<close>

definition taskgroup_pick :: "nat \<Rightarrow> nat \<Rightarrow> task_team \<Rightarrow> (wait_step \<times> task_team) option" where
  "taskgroup_pick g cur s =
    (let gq = taskgroup_queue (group_of s g); cq = children_queue (task_of s cur);
         sleep = upd_group g (\<lambda>x. x\<lparr>in_taskgroup_wait := True\<rparr>) s;
         try = (\<lambda>q. case priority_queue_next_task (plain_tasks s) q (Some (team_queue s)) of
                  (None, unused) \<Rightarrow> None
                | (Some t, unused) \<Rightarrow>
                    if kind (task_of s t) = GOMP_TASK_WAITING then
                      map_option (\<lambda>(c, s1). (Wait_run t True c, s1)) (gomp_task_run_pre t (parent (task_of s t)) s)
                    else Some (Wait_sleep, sleep))
     in if priority_queue_empty_p gq then
          if num_children (group_of s g) \<noteq> 0 then
            if priority_queue_empty_p cq then Some (Wait_sleep, sleep) else try cq
          else Some (Wait_over, s)
        else try gq)"

definition taskgroup_finish :: "nat \<Rightarrow> nat \<Rightarrow> task_team \<Rightarrow> (nat \<times> task_team) option" where
  "taskgroup_finish cur child s = do {
     (new_tasks, s1) \<leftarrow> gomp_task_run_post_handle_depend child s;
     s2 \<leftarrow> gomp_task_run_post_remove_parent child s1;
     s3 \<leftarrow> gomp_clear_parent child s2;
     s4 \<leftarrow> gomp_task_run_post_remove_taskgroup child s3;
     let s5 = dec_task_count s4;
     Some (wake_for_new cur new_tasks s5, s5)
   }"

text \<open>\<open>finish\<close>: the group is left and its memory freed.\<close>

definition taskgroup_leave :: "nat \<Rightarrow> nat \<Rightarrow> task_team \<Rightarrow> task_team" where
  "taskgroup_leave g cur s = upd cur (\<lambda>x. x\<lparr>taskgroup := tg_prev (group_of s g)\<rparr>) s"

subsection \<open>Waiting for the tasks an undeferred task depends on\<close>

text \<open>The tasks named by the chains are marked; those that are ready move to the front.\<close>

fun mark_chain :: "nat \<Rightarrow> bool \<Rightarrow> dep_id list \<Rightarrow> nat \<times> task_team \<Rightarrow> (nat \<times> task_team) option" where
  "mark_chain cur new_in [] r = Some r"
| "mark_chain cur new_in (e # es) r =
    (let (n, s) = r; tsk = fst e in
     if new_in \<and> d_is_in (entry (task_of s) e) \<or> parent_depends_on (task_of s tsk) then mark_chain cur new_in es (n, s)
     else
       let s1 = upd tsk (\<lambda>x. x\<lparr>parent_depends_on := True\<rparr>) s
       in Option.bind
            (if num_dependees (task_of s1 tsk) = 0 \<and> kind (task_of s1 tsk) = GOMP_TASK_WAITING
             then on_children cur (priority_queue_upgrade_task tsk (priority (task_of s1 tsk))) s1 else Some s1)
            (\<lambda>s2. mark_chain cur new_in es (Suc n, s2)))"

fun mark_awaited :: "nat \<Rightarrow> (int \<times> bool) list \<Rightarrow> nat \<times> task_team \<Rightarrow> (nat \<times> task_team) option" where
  "mark_awaited cur [] r = Some r"
| "mark_awaited cur (d # ds) r =
    Option.bind (mark_chain cur (snd d) (chain_of cur (fst d) (task_of (snd r))) r) (mark_awaited cur ds)"

definition depend_wait_start :: "nat \<Rightarrow> (int \<times> bool) list \<Rightarrow> task_team \<Rightarrow> (nat \<times> task_team) option" where
  "depend_wait_start cur ds s = map_option
     (\<lambda>(n, s1). (n, if n = 0 then s1 else upd cur (\<lambda>x. x\<lparr>taskwait := Some (fresh_taskwait\<lparr>n_depend := int n\<rparr>)\<rparr>) s1))
     (mark_awaited cur ds (0, s))"

definition depend_wait_pick :: "nat \<Rightarrow> task_team \<Rightarrow> (wait_step \<times> task_team) option" where
  "depend_wait_pick cur s = (case taskwait (task_of s cur) of
     None \<Rightarrow> None
   | Some w \<Rightarrow>
       if n_depend w = 0 then Some (Wait_over, upd cur (\<lambda>x. x\<lparr>taskwait := None\<rparr>) s)
       else case priority_queue_next_task (plain_tasks s) (children_queue (task_of s cur)) None of
         (None, ign) \<Rightarrow> None
       | (Some t, ign) \<Rightarrow>
           if kind (task_of s t) = GOMP_TASK_WAITING then
             map_option (\<lambda>(c, s1). (Wait_run t True c, s1)) (gomp_task_run_pre t (Some cur) s)
           else Some (Wait_sleep, upd cur (\<lambda>x. x\<lparr>taskwait := Some (w\<lparr>in_depend_wait := True\<rparr>)\<rparr>) s))"

definition depend_wait_finish :: "nat \<Rightarrow> nat \<Rightarrow> task_team \<Rightarrow> (nat \<times> task_team) option" where
  "depend_wait_finish cur child s = do {
     (new_tasks, s1) \<leftarrow> gomp_task_run_post_handle_depend child s;
     let s2 = (if parent_depends_on (task_of s1 child)
               then upd cur (\<lambda>x. x\<lparr>taskwait := map_option (\<lambda>w. w\<lparr>n_depend := u64 (n_depend w - 1)\<rparr>) (taskwait x)\<rparr>) s1 else s1);
     s3 \<leftarrow> map_option snd (remove_child cur child s2);
     s4 \<leftarrow> gomp_clear_parent child s3;
     s5 \<leftarrow> gomp_task_run_post_remove_taskgroup child s4;
     let s6 = dec_task_count s5;
     Some (wake_for_new cur new_tasks s6, s6)
   }"

subsection \<open>Target tasks\<close>

text \<open>\<open>L\<close> and \<open>q\<close> are the links and the queue of one kind; \<open>adjust\<close> says that it is one of children.\<close>

definition priority_queue_move_task_first ::
  "bool \<Rightarrow> nat \<Rightarrow> gomp_task \<Rightarrow> links \<times> priority_queue \<Rightarrow> (links \<times> priority_queue) option"
where
  "priority_queue_move_task_first adjust t x = on_priority_list (priority x)
     (\<lambda>(L, l). let (e, L1, l1) = priority_list_remove t (L, l)
               in priority_list_insert t PRIORITY_INSERT_BEGIN adjust (parent_depends_on x) (L1, l1))"

definition gomp_target_task_completion :: "nat \<Rightarrow> task_team \<Rightarrow> task_team option" where
  "gomp_target_task_completion t s =
    (let par = parent (task_of s t); g = taskgroup (task_of s t) in do {
     s1 \<leftarrow> (case par of None \<Rightarrow> Some s
             | Some p \<Rightarrow> on_children p (priority_queue_move_task_first True t (plain_tasks s t)) s);
     s2 \<leftarrow> (case g of None \<Rightarrow> Some s1
             | Some g \<Rightarrow> on_group g (priority_queue_move_task_first False t (plain_tasks s1 t)) s1);
     s3 \<leftarrow> insert_in_team PRIORITY_INSERT_BEGIN t s2;
     let s4 = upd t (\<lambda>x. x\<lparr>kind := GOMP_TASK_WAITING\<rparr>) s3;
     let s5 = wake_group g (case par of None \<Rightarrow> s4 | Some p \<Rightarrow> wake_parent p s4);
     Some (set_task_pending (s5\<lparr>task_queued_count := u32 (task_queued_count s5 + 1)\<rparr>))
   })"

subsection \<open>A task of another parent\<close>

text \<open>
  Task 0 has the child 1, of priority 1; task 5 has the child 6, of priority 2. The thread of task 0
  waits for its children.
\<close>

definition prio_child :: "nat \<Rightarrow> nat \<Rightarrow> c_int \<Rightarrow> task_team \<Rightarrow> (bool \<times> task_team) option" where
  "prio_child t par p s = deferred_task t par (t_icv idle_task) p 0
     ((example_clauses 0 [])\<lparr>depend_flag := False\<rparr>) s"

definition two_parents :: "task_team option" where
  "two_parents = Option.bind (prio_child 1 0 1 example_team) (\<lambda>(w, s). map_option snd (prio_child 6 5 2 s))"

text \<open>
  When tasks have priorities, \<open>GOMP_taskwait\<close> takes the best task among the children of the current
  task and all tasks of the team, and then moves it inside the queue of the children of the current
  task even if it is not one of them: with a child of priority 1 and a waiting task of priority 2 of
  another parent, the move follows the null list of priority 2.
\<close>

theorem taskwait_moves_foreign_child:
  "case two_parents of None \<Rightarrow> False | Some s \<Rightarrow>
     priority_queue_next_task (plain_tasks s) (children_queue (task_of s 0)) (Some (team_queue s)) = (Some 6, False)
     \<and> kind (task_of s 6) = GOMP_TASK_WAITING \<and> parent (task_of s 6) = Some 5
     \<and> taskwait_pick 0 s = None"
  by code_simp

text \<open>
  A child that waits for a dependence is in no queue, so \<open>gomp_clear_parent\<close> does not reach it when
  its parent ends: once the dependence is satisfied it is queued and picked with a pointer to the
  parent that no longer exists.
\<close>

theorem waiting_child_keeps_dead_parent:
  "case gomp_clear_parent 0 reader_team of None \<Rightarrow> False | Some s \<Rightarrow>
     parent (task_of s 1) = None \<and> parent (task_of s 2) = Some 0
     \<and> (case barrier_task_pick s of None \<Rightarrow> False | Some (t, c, s1) \<Rightarrow>
          t = Some 1
          \<and> (case barrier_task_done c 0 1 s1 of None \<Rightarrow> False | Some (n, b, s2) \<Rightarrow>
               tasks (pq_l (team_queue s2)) = Some 2 \<and> kind (task_of s2 2) = GOMP_TASK_WAITING
               \<and> parent (task_of s2 2) = Some 0))"
  by code_simp

end
