(* ===== verification/TaskLoop.thy ===== *)
theory TaskLoop
  imports DependOrder TaskWait StaticShare
begin

text \<open>
  The taskloop construct (\<open>taskloop.c\<close>, which \<open>task.c\<close> includes once for \<open>long\<close> and once for
  \<open>unsigned long long\<close>): how many tasks there are, which block of iterations each of them runs, and
  how the tasks are put into the queues. The blocks cut the loop without gap or overlap, and their
  sizes keep what \<open>num_tasks\<close> and \<open>grainsize\<close> ask for.
\<close>

subsection \<open>The division of the loop\<close>

text \<open>Either nothing is done, or a division by zero traps, or the number of tasks, the step from task
  to task and the index of the last task that makes the larger step are known.\<close>

datatype taskloop_split =
    Empty_loop
  | Divide_trap
  | Split int int int

definition even_split :: "(int \<Rightarrow> int) \<Rightarrow> int \<Rightarrow> int \<Rightarrow> int \<Rightarrow> taskloop_split" where
  "even_split w n num step =
    (let d = n div num; m = n mod num
     in if m \<noteq> 0 then Split num (w (w (w d * step) + step)) (m - 1) else Split num (w (w d * step)) n)"

text \<open>\<open>grainsize\<close> has arrived as \<open>num_tasks\<close>; \<open>saturated\<close> is the value that the unsigned version
  does not trust.\<close>

definition grain_split :: "(int \<Rightarrow> int) \<Rightarrow> int option \<Rightarrow> int \<Rightarrow> int \<Rightarrow> int \<Rightarrow> int \<Rightarrow> int \<Rightarrow> taskloop_split" where
  "grain_split w saturated n grainsize start lend step =
    (if grainsize = 0 then Divide_trap
     else let num = n div grainsize
       in if num \<le> 1 then Split 1 (w (lend - start)) n
          else if grainsize \<le> num \<and> saturated \<noteq> Some num then
            let mul = u64 (num * grainsize)
            in if mul \<noteq> n then Split num (w (w (w grainsize * step) + step)) (u64 (n - mul - 1))
               else Split num (w (w grainsize * step)) n
          else even_split w n num step)"

definition num_split :: "(int \<Rightarrow> int) \<Rightarrow> int \<Rightarrow> int \<Rightarrow> int \<Rightarrow> int \<Rightarrow> taskloop_split" where
  "num_split w n num_tasks nthreads step =
    (let num = (if num_tasks = 0 then nthreads else num_tasks)
     in if n \<le> num then Split n step n else even_split w n num step)"

definition taskloop_n :: "c_long \<Rightarrow> c_long \<Rightarrow> c_long \<Rightarrow> taskloop_split + int" where
  "taskloop_n start lend step =
    (if 0 < step then
       if lend \<le> start then Inl Empty_loop else Inr (u64 (s64 (s64 (lend - start) + s64 (step - 1)) sdiv step))
     else
       if start \<le> lend then Inl Empty_loop
       else if step = 0 then Inl Divide_trap
       else Inr (u64 (s64 (s64 (lend - start) + s64 (step + 1)) sdiv step)))"

definition taskloop_ull_n :: "bool \<Rightarrow> c_ulong \<Rightarrow> c_ulong \<Rightarrow> c_ulong \<Rightarrow> taskloop_split + int" where
  "taskloop_ull_n up start lend step =
    (if (if up then lend \<le> start else start \<le> lend) then Inl Empty_loop
     else if step = 0 then Inl Divide_trap
     else if up then Inr (u64 (lend - start + step - 1) div step)
     else Inr (u64 (start - lend - step - 1) div u64 (- step)))"

definition taskloop_long :: "bool \<Rightarrow> int \<Rightarrow> int \<Rightarrow> c_long \<Rightarrow> c_long \<Rightarrow> c_long \<Rightarrow> taskloop_split" where
  "taskloop_long grain num_tasks nthreads start lend step = (case taskloop_n start lend step of
     Inl r \<Rightarrow> r
   | Inr n \<Rightarrow> if grain then grain_split s64 None n num_tasks start lend step
              else num_split s64 n num_tasks nthreads step)"

definition taskloop_ull :: "bool \<Rightarrow> bool \<Rightarrow> int \<Rightarrow> int \<Rightarrow> c_ulong \<Rightarrow> c_ulong \<Rightarrow> c_ulong \<Rightarrow> taskloop_split" where
  "taskloop_ull up grain num_tasks nthreads start lend step = (case taskloop_ull_n up start lend step of
     Inl r \<Rightarrow> r
   | Inr n \<Rightarrow> if grain then grain_split u64 (Some ULONG_MAX) n num_tasks start lend step
              else num_split u64 n num_tasks nthreads step)"

text \<open>The block that each task is given, for \<open>k\<close> tasks from the \<open>i\<close>-th one.\<close>

fun taskloop_blocks :: "(int \<Rightarrow> int) \<Rightarrow> int \<Rightarrow> int \<Rightarrow> int \<Rightarrow> nat \<Rightarrow> int \<Rightarrow> int \<Rightarrow> (int \<times> int) list" where
  "taskloop_blocks w step nfirst i 0 start task_step = []"
| "taskloop_blocks w step nfirst i (Suc k) start task_step =
    (let e = w (start + task_step)
     in (start, e) # taskloop_blocks w step nfirst (i + 1) k e
          (if i = nfirst then w (task_step - step) else task_step))"

subsection \<open>The blocks cut the loop\<close>

text \<open>Block \<open>j\<close> has one iteration more than \<open>b\<close> when \<open>j < m\<close>.\<close>

definition cut_size :: "nat \<Rightarrow> nat \<Rightarrow> nat \<Rightarrow> nat" where
  "cut_size b m j = b + (if j < m then 1 else 0)"

definition cut_at :: "nat \<Rightarrow> nat \<Rightarrow> nat \<Rightarrow> nat" where
  "cut_at b m j = j * b + min j m"

lemma cut_at_Suc: "cut_at b m (Suc j) = cut_at b m j + cut_size b m j"
  by (simp add: cut_at_def cut_size_def min_def)

lemma cut_at_0 [simp]: "cut_at b m 0 = 0"
  by (simp add: cut_at_def)

lemma cut_at_mono: "i \<le> j \<Longrightarrow> cut_at b m i \<le> cut_at b m j"
  by (induction rule: inc_induct) (auto simp: cut_at_Suc)

lemma cut_size_less:
  assumes "b * num + m < (num + 1) * g" and "0 < num"
  shows "cut_size b m j < 2 * g"
proof (rule ccontr)
  assume "\<not> cut_size b m j < 2 * g"
  then have big: "2 * g \<le> b + (if j < m then 1 else 0)" by (simp add: cut_size_def)
  have g: "0 < g" using assms(1) by (cases g) auto
  show False
  proof (cases "j < m")
    case True
    obtain h p where h: "g = Suc h" "num = Suc p" using g assms(2) by (cases g; cases num) auto
    have "(2 * h + 1) * num \<le> b * num" using big True unfolding h by (intro mult_le_mono1) simp
    then show False using assms(1) True unfolding h by (simp add: algebra_simps)
  next
    case False
    obtain p where p: "num = Suc p" using assms(2) by (cases num) auto
    have "2 * g * num \<le> b * num" using big False by (intro mult_le_mono1) simp
    then show False using assms(1) unfolding p by (simp add: algebra_simps)
  qed
qed

text \<open>Arithmetic at a fixed width.\<close>

locale machine_int =
  fixes w :: "int \<Rightarrow> int"
  assumes w_add: "w (w a + w b) = w (a + b)"
    and w_diff: "w (w a - b) = w (a - b)"
    and w_mult: "w (w a * b) = w (a * b)"
begin

lemma w_idem [simp]: "w (w a) = w a"
  using w_diff [of a 0] by simp

lemma w_add1: "w (w a + b) = w (a + b)"
  using w_add [of "w a" b] w_add [of a b] by simp

lemma blocks_spec:
  assumes nf: "(0 < m \<and> nfirst = int m - 1) \<or> (m = 0 \<and> int (i + k) \<le> nfirst)"
  shows "taskloop_blocks w step nfirst (int i) k (w (s0 + int (cut_at b m i) * step)) (w (int (cut_size b m i) * step))
    = map (\<lambda>j. (w (s0 + int (cut_at b m j) * step), w (s0 + int (cut_at b m (Suc j)) * step))) [i..<i + k]"
  using nf
proof (induction k arbitrary: i)
  case 0
  then show ?case by simp
next
  case (Suc k)
  let ?p = "\<lambda>j. w (s0 + int (cut_at b m j) * step)"
  let ?z = "\<lambda>j. w (int (cut_size b m j) * step)"
  have e: "w (?p i + ?z i) = ?p (Suc i)"
    unfolding w_add by (simp add: cut_at_Suc algebra_simps)
  have z: "(if int i = nfirst then w (?z i - step) else ?z i) = ?z (Suc i)"
    unfolding w_diff using Suc.prems by (auto simp: cut_size_def algebra_simps)
  have IH: "taskloop_blocks w step nfirst (int (Suc i)) k (?p (Suc i)) (?z (Suc i))
      = map (\<lambda>j. (?p j, ?p (Suc j))) [Suc i..<Suc i + k]"
    by (rule Suc.IH) (use Suc.prems in auto)
  have "int i + 1 = int (Suc i)" by simp
  then have "taskloop_blocks w step nfirst (int i) (Suc k) (?p i) (?z i)
      = (?p i, ?p (Suc i)) # map (\<lambda>j. (?p j, ?p (Suc j))) [Suc i..<Suc i + k]"
    by (simp only: taskloop_blocks.simps Let_def e z IH)
  also have "\<dots> = map (\<lambda>j. (?p j, ?p (Suc j))) [i..<i + Suc k]"
    by (subst upt_conv_Cons [of i "i + Suc k"]) auto
  finally show ?case .
qed

lemma w_id_cong: "w start = start \<Longrightarrow> w (w start + b) = w (start + b)"
  by simp

text \<open>What the three ways to divide have in common: \<open>num\<close> blocks of \<open>b\<close> iterations, the first \<open>m\<close> of
  them with one more.\<close>

definition good_split :: "int \<Rightarrow> nat \<Rightarrow> nat \<Rightarrow> nat \<Rightarrow> nat \<Rightarrow> taskloop_split \<Rightarrow> bool" where
  "good_split step n num b m sp \<longleftrightarrow> 0 < num \<and> n = num * b + m \<and> m \<le> num
    \<and> (\<exists>nf. sp = Split (int num) (w (int (cut_size b m 0) * step)) nf
         \<and> (0 < m \<and> nf = int m - 1 \<or> m = 0 \<and> int num \<le> nf))"

lemma even_split_good:
  assumes "0 < num" and "num \<le> n"
  shows "good_split step n num (n div num) (n mod num) (even_split w (int n) (int num) step)"
proof -
  have "even_split w (int n) (int num) step
      = (if n mod num \<noteq> 0 then Split (int num) (w (int (n div num) * step + step)) (int (n mod num) - 1)
         else Split (int num) (w (int (n div num) * step)) (int n))"
    by (simp add: even_split_def Let_def w_mult w_add1 flip: zdiv_int zmod_int)
  then show ?thesis unfolding good_split_def
  proof (intro conjI exI [of _ "if n mod num \<noteq> 0 then int (n mod num) - 1 else int n"])
    show "n = num * (n div num) + n mod num" by simp
    show "n mod num \<le> num" using assms(1) by (simp add: less_imp_le)
  qed (use assms in \<open>auto simp: cut_size_def algebra_simps\<close>)
qed

text \<open>With \<open>grainsize\<close>, when there is more than one task.\<close>

lemma grain_split_good:
  assumes g: "0 < g" and more: "1 < n div g" and n: "int n \<le> ULONG_MAX"
  obtains num b m where "good_split step n num b m (grain_split w sat (int n) (int g) start lend step)"
    and "num = n div g" and "g \<le> b"
proof -
  let ?q = "n div g"
  have q: "int n div int g = int ?q" by (simp add: zdiv_int)
  have le: "?q * g \<le> n" by simp
  then have mul: "u64 (int (?q * g)) = int (?q * g)"
  proof -
    have "int (?q * g) \<le> ULONG_MAX" using n le by linarith
    then show ?thesis by (intro u64_id) simp_all
  qed
  let ?sp = "grain_split w sat (int n) (int g) start lend step"
  show thesis
  proof (cases "g \<le> ?q \<and> sat \<noteq> Some (int ?q)")
    case True
    have "u64 (int n - int x - 1) = int (n - x) - 1" if "x < n" for x
      using that n by (subst u64_id) (auto simp: of_nat_diff)
    then have diff: "u64 (int n - int (?q * g) - 1) = int (n - ?q * g) - 1" if "?q * g \<noteq> n"
      using le that by (meson le_neq_implies_less)
    have "?sp = (if ?q * g \<noteq> n then Split (int ?q) (w (int g * step + step)) (int (n - ?q * g) - 1)
        else Split (int ?q) (w (int g * step)) (int n))"
      using True g more diff by (simp add: grain_split_def q mul Let_def w_mult w_add1 flip: of_nat_mult)
    moreover have "n = ?q * g + (n - ?q * g)" using le by simp
    moreover have "n - ?q * g \<le> ?q" using True g by (simp add: minus_div_mult_eq_mod) (metis less_imp_le_nat mod_less_divisor order_trans)
    moreover have "?q \<le> n" by simp
    moreover have "?q * g < n" if "?q * g \<noteq> n" using le that by linarith
    ultimately have "good_split step n ?q g (n - ?q * g) ?sp"
      unfolding good_split_def using more
      by (cases "?q * g = n"; intro conjI exI [of _ "if ?q * g \<noteq> n then int (n - ?q * g) - 1 else int n"];
          simp add: cut_size_def algebra_simps)
    then show thesis using that by blast
  next
    case False
    have "?sp = even_split w (int n) (int ?q) step"
      using False g more by (auto simp: grain_split_def q Let_def)
    moreover have "g \<le> n div ?q" using le more by (simp add: less_eq_div_iff_mult_less_eq mult.commute)
    ultimately show thesis using that [of ?q] even_split_good [of ?q n step] more by simp
  qed
qed

text \<open>Without it.\<close>

lemma num_split_good:
  assumes num: "0 < N" and n: "0 < n" and w: "w step = step"
    and N: "int N = (if num_tasks = 0 then nthreads else num_tasks)"
  shows "good_split step n (min N n) (n div min N n) (n mod min N n) (num_split w (int n) num_tasks nthreads step)"
proof (cases "n \<le> N")
  case True
  then show ?thesis using n w by (simp add: good_split_def num_split_def cut_size_def Let_def flip: N)
next
  case False
  then show ?thesis using even_split_good [of N n step] num by (simp add: num_split_def Let_def min_def flip: N)
qed

end

text \<open>What the clauses ask of the sizes \<open>zs\<close> of the tasks of a loop of \<open>n\<close> iterations: \<open>c\<close> is the
  grain size, or the number of tasks asked for.\<close>

definition taskloop_sizes :: "bool \<Rightarrow> nat \<Rightarrow> nat \<Rightarrow> nat list \<Rightarrow> bool" where
  "taskloop_sizes grain c n zs \<longleftrightarrow>
    (if grain then \<forall>z \<in> set zs. min c n \<le> z \<and> z < 2 * c
     else length zs = min c n \<and> (\<forall>z \<in> set zs. n div length zs \<le> z \<and> z \<le> n div length zs + 1))"

text \<open>\<open>good_split\<close> gives the blocks, when no multiple of the step leaves the range of the type; \<open>k\<close> is
  the step as a signed number.\<close>

context machine_int
begin

lemma good_split_blocks:
  assumes g: "good_split step n num b m sp" and k: "k \<noteq> 0" and n: "niter k start lend = n"
    and fits: "\<And>p. p \<le> n \<Longrightarrow> w (start + int p * step) = start + int p * k"
  obtains ts nf where "sp = Split (int num) ts nf"
    and "concat (map (\<lambda>(s, e). iters k s e) (taskloop_blocks w step nf 0 num start ts)) = iters k start lend"
    and "map (\<lambda>(s, e). niter k s e) (taskloop_blocks w step nf 0 num start ts) = map (cut_size b m) [0..<num]"
proof -
  obtain nf where sp: "sp = Split (int num) (w (int (cut_size b m 0) * step)) nf"
    and nf: "0 < m \<and> nf = int m - 1 \<or> m = 0 \<and> int (0 + num) \<le> nf"
    using g by (auto simp: good_split_def)
  let ?c = "cut_at b m" and ?bs = "taskloop_blocks w step nf 0 num start (w (int (cut_size b m 0) * step))"
  have last: "?c num = n" using g by (auto simp: good_split_def cut_at_def)
  have st: "w start = start" using fits [of 0] by simp
  have bs: "?bs = map (\<lambda>j. (w (start + int (?c j) * step), w (start + int (?c (Suc j)) * step))) [0..<num]"
    using blocks_spec [OF nf, of step start] by (simp add: st)
  have bs: "?bs = map (\<lambda>j. (start + int (?c j) * k, start + int (?c (Suc j)) * k)) [0..<num]"
    unfolding bs
  proof (rule map_cong [OF refl])
    fix j assume "j \<in> set [0..<num]"
    then have "?c j \<le> n" "?c (Suc j) \<le> n"
      using cut_at_mono [of j num b m] cut_at_mono [of "Suc j" num b m] unfolding last by auto
    then show "(w (start + int (?c j) * step), w (start + int (?c (Suc j)) * step))
        = (start + int (?c j) * k, start + int (?c (Suc j)) * k)" using fits by simp
  qed
  have block: "iters k (start + int (?c j) * k) (start + int (?c (Suc j)) * k) = map (\<lambda>x. start + int x * k) [?c j..<?c (Suc j)]" for j
    by (rule iters_slice [OF k]) (simp add: cut_at_Suc)
  have "concat (map (\<lambda>(s, e). iters k s e) ?bs)
      = map (\<lambda>x. start + int x * k) (concat (map (\<lambda>j. [?c j..<?c (Suc j)]) [0..<num]))"
    unfolding bs by (simp add: comp_def block map_concat)
  also have "concat (map (\<lambda>j. [?c j..<?c (Suc j)]) [0..<num]) = [0..<n]"
    using concat_upt_blocks [of num ?c] by (simp add: cut_at_Suc last)
  also have "map (\<lambda>x. start + int x * k) [0..<n] = iters k start lend" by (simp add: iters_def n)
  finally have 1: "concat (map (\<lambda>(s, e). iters k s e) ?bs) = iters k start lend" .
  have "niter k (start + int (?c j) * k) (start + int (?c (Suc j)) * k) = cut_size b m j" for j
    using arg_cong [OF block [of j], of length] by (simp add: cut_at_Suc)
  then have "map (\<lambda>(s, e). niter k s e) ?bs = map (cut_size b m) [0..<num]"
    unfolding bs by (simp add: comp_def)
  with sp 1 show thesis by (rule that)
qed

lemma taskloop_cut:
  assumes k: "k \<noteq> 0" and n: "niter k start lend = n" and pos: "0 < n" and nmax: "int n \<le> ULONG_MAX"
    and fits: "\<And>p. p \<le> n \<Longrightarrow> w (start + int p * step) = start + int p * k" and w: "w lend = lend" "w step = step"
    and tasks: "0 \<le> num_tasks" "grain \<Longrightarrow> num_tasks \<noteq> 0" "0 < nthreads"
  obtains num ts nf where
    "(if grain then grain_split w sat (int n) num_tasks start lend step else num_split w (int n) num_tasks nthreads step)
       = Split (int num) ts nf"
    and "concat (map (\<lambda>(s, e). iters k s e) (taskloop_blocks w step nf 0 num start ts)) = iters k start lend"
    and "taskloop_sizes grain (nat (if num_tasks = 0 then nthreads else num_tasks)) n
       (map (\<lambda>(s, e). niter k s e) (taskloop_blocks w step nf 0 num start ts))"
proof (cases grain)
  case False
  let ?N = "nat (if num_tasks = 0 then nthreads else num_tasks)"
  let ?m = "min ?N n"
  have N: "0 < ?N" "int ?N = (if num_tasks = 0 then nthreads else num_tasks)" using tasks by auto
  have g: "good_split step n ?m (n div ?m) (n mod ?m) (num_split w (int n) num_tasks nthreads step)"
    by (rule num_split_good [OF N(1) pos w(2) N(2)])
  have z: "taskloop_sizes grain ?N n (map (cut_size (n div ?m) (n mod ?m)) [0..<?m])"
    using False by (simp add: taskloop_sizes_def cut_size_def)
  show thesis
  proof (rule good_split_blocks [OF g k n fits])
    fix ts nf
    let ?bs = "taskloop_blocks w step nf 0 ?m start ts"
    assume r: "num_split w (int n) num_tasks nthreads step = Split (int ?m) ts nf"
      "concat (map (\<lambda>(s, e). iters k s e) ?bs) = iters k start lend"
      "map (\<lambda>(s, e). niter k s e) ?bs = map (cut_size (n div ?m) (n mod ?m)) [0..<?m]"
    have "taskloop_sizes grain ?N n (map (\<lambda>(s, e). niter k s e) ?bs)" unfolding r(3) by (rule z)
    then show thesis using that [of ?m ts nf] r(1,2) False by simp
  qed
next
  case True
  define g where "g = nat num_tasks"
  have g: "num_tasks = int g" "0 < g" using tasks True by (auto simp: g_def)
  show thesis
  proof (cases "1 < n div g")
    case more: True
    obtain num b m where gs: "good_split step n num b m (grain_split w sat (int n) (int g) start lend step)"
      and num: "num = n div g" and b: "g \<le> b"
      by (rule grain_split_good [OF g(2) more nmax])
    have "n < (num + 1) * g" using g(2) unfolding num by (simp add: dividend_less_div_times)
    then have "b * num + m < (num + 1) * g" "0 < num" using gs by (auto simp: good_split_def mult.commute)
    then have "cut_size b m j < 2 * g" for j by (rule cut_size_less)
    moreover have "min g n \<le> cut_size b m j" for j using b by (simp add: cut_size_def)
    ultimately have z: "taskloop_sizes grain g n (map (cut_size b m) [0..<num])"
      using True by (simp add: taskloop_sizes_def)
    show thesis
    proof (rule good_split_blocks [OF gs k n fits])
      fix ts nf
      let ?bs = "taskloop_blocks w step nf 0 num start ts"
      assume r: "grain_split w sat (int n) (int g) start lend step = Split (int num) ts nf"
        "concat (map (\<lambda>(s, e). iters k s e) ?bs) = iters k start lend"
        "map (\<lambda>(s, e). niter k s e) ?bs = map (cut_size b m) [0..<num]"
      have "taskloop_sizes grain g n (map (\<lambda>(s, e). niter k s e) ?bs)" unfolding r(3) by (rule z)
      then show thesis using that [of num ts nf] r(1,2) True g by simp
    qed
  next
    case False
    have sp: "grain_split w sat (int n) num_tasks start lend step = Split 1 (w (lend - start)) (int n)"
      using False g by (simp add: grain_split_def Let_def flip: zdiv_int)
    have "w start = start" using fits [of 0] by simp
    then have "w (start + w (lend - start)) = lend" using w_add [of start "lend - start"] w(1) by simp
    moreover have "n < 2 * g" using False g(2) div_less_iff_less_mult [of g n 2] by (simp add: not_less)
    ultimately show thesis
      using that [of 1 "w (lend - start)" "int n"] True sp g n by (simp add: taskloop_sizes_def)
  qed
qed

end

lemma s64_eq: "u64 a = u64 b \<Longrightarrow> s64 a = s64 b"
  by (metis s64_u64)

interpretation long: machine_int s64
  by unfold_locales (rule s64_eq, metis u64_add_u64 u64_diff_u64 u64_mult_u64 u64_s64)+

interpretation ull: machine_int u64
  by unfold_locales (simp_all add: u64_def mod_simps)

subsection \<open>The number of iterations\<close>

text \<open>Bounds of a loop that the construct can run: the number of iterations is computed without
  overflow, and the end of the last block, which may lie beyond that of the loop, is in range.\<close>

definition taskloop_fits :: "c_long \<Rightarrow> c_long \<Rightarrow> c_long \<Rightarrow> bool" where
  "taskloop_fits start lend step \<longleftrightarrow> step \<noteq> 0 \<and> 0 < sgn step * (lend - start)
    \<and> is_long start \<and> is_long lend \<and> is_long step
    \<and> is_long (lend - start) \<and> is_long (lend - start + step - sgn step)
    \<and> is_long (start + int (niter step start lend) * step)"

definition taskloop_ull_fits :: "bool \<Rightarrow> c_ulong \<Rightarrow> c_ulong \<Rightarrow> c_ulong \<Rightarrow> bool" where
  "taskloop_ull_fits up start lend step \<longleftrightarrow>
    (let k = (if up then step else step - 2 ^ 64) in 0 < sgn k * (lend - start)
     \<and> 0 < step \<and> is_ulong start \<and> is_ulong lend \<and> is_ulong step
     \<and> sgn k * (lend - start) + \<bar>k\<bar> - 1 \<le> ULONG_MAX
     \<and> is_ulong (start + int (niter k start lend) * k))"

lemma between_steps:
  fixes k :: int
  assumes "p \<le> n" and "l \<le> start" "start \<le> u" and "l \<le> start + int n * k" "start + int n * k \<le> u"
  shows "l \<le> start + int p * k" "start + int p * k \<le> u"
proof -
  have "int p * k \<le> int n * k \<and> 0 \<le> int p * k \<or> int n * k \<le> int p * k \<and> int p * k \<le> 0"
    using assms(1) by (cases "0 \<le> k") (auto intro: mult_right_mono mult_right_mono_neg simp: mult_nonneg_nonpos)
  then show "l \<le> start + int p * k" "start + int p * k \<le> u" using assms(2-5) by linarith+
qed

lemma taskloop_n_niter:
  assumes "taskloop_fits start lend step"
  shows "taskloop_n start lend step = Inr (int (niter step start lend))"
proof -
  let ?d = "sgn step * (lend - start)"
  have f: "step \<noteq> 0" "0 < ?d" "is_long step" "is_long (lend - start)" "is_long (lend - start + step - sgn step)"
    using assms by (auto simp: taskloop_fits_def)
  have d: "0 \<le> ?d + \<bar>step\<bar> - 1" using f(1,2) by linarith
  have e: "lend - start + (step - sgn step) = sgn step * (?d + \<bar>step\<bar> - 1)"
    using f(1) by (auto simp: sgn_if algebra_simps split: if_splits)
  have s: "s64 (s64 (lend - start) + s64 (step - sgn step)) = lend - start + (step - sgn step)"
    using f by (simp add: s64_id sgn_if)
  have q: "(lend - start + (step - sgn step)) sdiv step = int (niter step start lend)"
    unfolding e sdiv_same_sign [OF d f(1)] using d by (simp add: niter_def pos_imp_zdiv_nonneg_iff f(1))
  have "int (niter step start lend) \<le> ?d + \<bar>step\<bar> - 1"
    using d f(1) zdiv_mono2 [OF d, of 1 "\<bar>step\<bar>"] by (simp add: niter_def pos_imp_zdiv_nonneg_iff)
  moreover have "?d + \<bar>step\<bar> - 1 \<le> 2 ^ 63" using f(5) f(1) by (auto simp: sgn_if algebra_simps split: if_splits)
  ultimately have "u64 (int (niter step start lend)) = int (niter step start lend)" by (intro u64_id) auto
  then show ?thesis using f(1,2) s q by (auto simp: taskloop_n_def sgn_if split: if_splits)
qed

lemma taskloop_ull_n_niter:
  assumes "taskloop_ull_fits up start lend step"
  shows "taskloop_ull_n up start lend step = Inr (int (niter (if up then step else step - 2 ^ 64) start lend))"
proof (cases up)
  case True
  then have f: "0 < step" "start < lend" "lend - start + step - 1 \<le> ULONG_MAX"
    using assms by (auto simp: taskloop_ull_fits_def Let_def sgn_if split: if_splits)
  then have "u64 (lend - start + step - 1) = lend - start + step - 1" by (intro u64_id) auto
  then show ?thesis using True f by (simp add: taskloop_ull_n_def niter_def pos_imp_zdiv_nonneg_iff)
next
  case False
  let ?k = "2 ^ 64 - step"
  have f: "0 < step" "step < 2 ^ 64" "lend < start" "start - lend + ?k - 1 \<le> ULONG_MAX"
    using assms False by (auto simp: taskloop_ull_fits_def Let_def sgn_if split: if_splits)
  have "u64 (- step) = u64 ?k" by (simp add: u64_def mod_simps)
  then have k: "u64 (- step) = ?k" using f(1,2) by (simp add: u64_id)
  have "u64 (start - lend - step - 1) = u64 (start - lend + ?k - 1)"
    by (simp add: u64_def mod_eq_dvd_iff)
  then have c: "u64 (start - lend - step - 1) = start - lend + ?k - 1" using f by (simp add: u64_id)
  have "sgn (step - 2 ^ 64) = - 1" "\<bar>step - 2 ^ 64\<bar> = ?k" using f(2) by auto
  then have "int (niter (step - 2 ^ 64) start lend) = (start - lend + ?k - 1) div ?k"
    using f by (simp add: niter_def pos_imp_zdiv_nonneg_iff)
  then show ?thesis using False f k c by (simp add: taskloop_ull_n_def)
qed

subsection \<open>The construct runs every iteration once\<close>

lemma taskloop_cuts:
  assumes "taskloop_fits start lend step" and "0 \<le> num_tasks" and "grain \<longrightarrow> num_tasks \<noteq> 0" and "0 < nthreads"
  shows "\<exists>num ts nf. taskloop_long grain num_tasks nthreads start lend step = Split (int num) ts nf
    \<and> (let bs = taskloop_blocks s64 step nf 0 num start ts
       in concat (map (\<lambda>(s, e). iters step s e) bs) = iters step start lend
          \<and> taskloop_sizes grain (nat (if num_tasks = 0 then nthreads else num_tasks)) (niter step start lend)
              (map (\<lambda>(s, e). niter step s e) bs))"
proof -
  let ?n = "niter step start lend"
  have f: "step \<noteq> 0" "0 < sgn step * (lend - start)" "is_long start" "is_long lend" "is_long step"
    "is_long (start + int ?n * step)"
    using assms(1) by (auto simp: taskloop_fits_def)
  have fits: "s64 (start + int p * step) = start + int p * step" if "p \<le> ?n" for p
    using between_steps [OF that, of LONG_MIN start LONG_MAX step] f by (intro s64_id) auto
  have pos: "0 < ?n" using f niter_pos_iff by blast
  have "int ?n \<le> ULONG_MAX"
  proof -
    have "int ?n * 1 \<le> int ?n * \<bar>step\<bar>" using f(1) by (intro mult_left_mono) auto
    also have "\<dots> = \<bar>start + int ?n * step - start\<bar>" by (simp add: abs_mult)
    also have "\<dots> \<le> ULONG_MAX" using f(3,6) by auto
    finally show ?thesis by simp
  qed
  from long.taskloop_cut [OF f(1) refl pos this fits s64_id [OF conjunct1 [OF f(4)] conjunct2 [OF f(4)]]
      s64_id [OF conjunct1 [OF f(5)] conjunct2 [OF f(5)]] assms(2) _ assms(4), of grain None]
  obtain num ts nf where
    "(if grain then grain_split s64 None (int ?n) num_tasks start lend step else num_split s64 (int ?n) num_tasks nthreads step)
       = Split (int num) ts nf"
    "concat (map (\<lambda>(s, e). iters step s e) (taskloop_blocks s64 step nf 0 num start ts)) = iters step start lend"
    "taskloop_sizes grain (nat (if num_tasks = 0 then nthreads else num_tasks)) ?n
       (map (\<lambda>(s, e). niter step s e) (taskloop_blocks s64 step nf 0 num start ts))"
    using assms(3) by blast
  then show ?thesis
    by (intro exI [of _ num] exI [of _ ts] exI [of _ nf])
      (simp add: taskloop_long_def taskloop_n_niter [OF assms(1)] Let_def)
qed

text \<open>
  C23. The tasks of a taskloop over \<open>long\<close>. A loop without iterations gets no task. For a loop with iterations whose
  length, rounded up to whole steps, fits a \<open>long\<close> and for which the end that is computed for the last block (the start plus
  the number of iterations times the step, which may be beyond the end of the loop) is a \<open>long\<close> too, the
  blocks of the tasks, in order, hold exactly the iterations of the loop. With \<open>grainsize\<close>, of at least 1, every task
  has at least that many iterations (or all there are) and less than twice as many; with \<open>num_tasks\<close> (the size of the
  team when the clause is missing) there are that many tasks, but not more than iterations, and their sizes differ by one at most. When the last
  end is not a \<open>long\<close> the last task gets an empty block (\<open>taskloop_end_wraps\<close>).
\<close>

theorem taskloop_partition:
  assumes "0 \<le> num_tasks" and "grain \<longrightarrow> num_tasks \<noteq> 0" and "0 < nthreads"
  shows "(sgn step * (lend - start) \<le> 0 \<and> step \<noteq> 0 \<longrightarrow> taskloop_long grain num_tasks nthreads start lend step = Empty_loop)
    \<and> (taskloop_fits start lend step \<longrightarrow>
      (\<exists>num ts nf. taskloop_long grain num_tasks nthreads start lend step = Split (int num) ts nf
        \<and> (let bs = taskloop_blocks s64 step nf 0 num start ts
           in concat (map (\<lambda>(s, e). iters step s e) bs) = iters step start lend
              \<and> taskloop_sizes grain (nat (if num_tasks = 0 then nthreads else num_tasks)) (niter step start lend)
                  (map (\<lambda>(s, e). niter step s e) bs))))"
proof (intro conjI impI)
  show "taskloop_long grain num_tasks nthreads start lend step = Empty_loop" if "sgn step * (lend - start) \<le> 0 \<and> step \<noteq> 0"
    using that by (auto simp: taskloop_long_def taskloop_n_def sgn_if split: if_splits)
qed (rule taskloop_cuts [OF _ assms])

theorem taskloop_partition_witness:
  "\<exists>num ts nf. taskloop_long True 4 2 10 31 2 = Split (int num) ts nf
    \<and> (let bs = taskloop_blocks s64 2 nf 0 num 10 ts
       in concat (map (\<lambda>(s, e). iters 2 s e) bs) = iters 2 10 31
          \<and> taskloop_sizes True (nat (if (4::int) = 0 then 2 else 4)) (niter 2 10 31)
              (map (\<lambda>(s, e). niter 2 s e) bs))"
proof -
  have "taskloop_fits 10 31 2" by code_simp
  then show ?thesis using taskloop_partition [of 4 True 2 2 31 10] by simp
qed

text \<open>
  The same for the loops over \<open>unsigned long long\<close>, in both directions: \<open>k\<close> is the step as a signed
  number, which the caller passes modulo \<open>2 ^ 64\<close> when the loop counts down.
\<close>

theorem taskloop_ull_partition:
  assumes "taskloop_ull_fits up start lend step" and "k = (if up then step else step - 2 ^ 64)"
    and "0 \<le> num_tasks" and "grain \<longrightarrow> num_tasks \<noteq> 0" and "0 < nthreads"
  shows "\<exists>num ts nf. taskloop_ull up grain num_tasks nthreads start lend step = Split (int num) ts nf
    \<and> (let bs = taskloop_blocks u64 step nf 0 num start ts
       in concat (map (\<lambda>(s, e). iters k s e) bs) = iters k start lend
          \<and> taskloop_sizes grain (nat (if num_tasks = 0 then nthreads else num_tasks)) (niter k start lend)
              (map (\<lambda>(s, e). niter k s e) bs))"
proof -
  let ?n = "niter k start lend"
  have f: "k \<noteq> 0" "0 < sgn k * (lend - start)" "is_ulong start" "is_ulong lend" "is_ulong step"
    "is_ulong (start + int ?n * k)"
    using assms(1) unfolding taskloop_ull_fits_def Let_def assms(2) [symmetric] by auto
  have mod: "u64 (start + int p * step) = u64 (start + int p * k)" for p
    unfolding assms(2) by (simp add: u64_def mod_eq_dvd_iff algebra_simps)
  have fits: "u64 (start + int p * step) = start + int p * k" if "p \<le> ?n" for p
    unfolding mod using between_steps [OF that, of 0 start ULONG_MAX k] f by (intro u64_id) auto
  have pos: "0 < ?n" using f niter_pos_iff by blast
  have "int ?n * 1 \<le> int ?n * \<bar>k\<bar>" using f(1) by (intro mult_left_mono) auto
  also have "\<dots> = \<bar>start + int ?n * k - start\<bar>" by (simp add: abs_mult)
  also have "\<dots> \<le> ULONG_MAX" using f(3,6) by auto
  finally have "int ?n \<le> ULONG_MAX" by simp
  from ull.taskloop_cut [OF f(1) refl pos this fits u64_id [OF conjunct1 [OF f(4)] conjunct2 [OF f(4)]]
      u64_id [OF conjunct1 [OF f(5)] conjunct2 [OF f(5)]] assms(3) _ assms(5), of grain "Some ULONG_MAX"]
  obtain num ts nf where
    "(if grain then grain_split u64 (Some ULONG_MAX) (int ?n) num_tasks start lend step
      else num_split u64 (int ?n) num_tasks nthreads step) = Split (int num) ts nf"
    "concat (map (\<lambda>(s, e). iters k s e) (taskloop_blocks u64 step nf 0 num start ts)) = iters k start lend"
    "taskloop_sizes grain (nat (if num_tasks = 0 then nthreads else num_tasks)) ?n
       (map (\<lambda>(s, e). niter k s e) (taskloop_blocks u64 step nf 0 num start ts))"
    using assms(4) by blast
  then show ?thesis
    using taskloop_ull_n_niter [OF assms(1), folded assms(2)]
    by (intro exI [of _ num] exI [of _ ts] exI [of _ nf]) (simp add: taskloop_ull_def Let_def)
qed

lemma taskloop_ull_partition_witness:
  "\<exists>num ts nf. taskloop_ull False False 4 2 31 10 (2 ^ 64 - 2) = Split (int num) ts nf
    \<and> (let bs = taskloop_blocks u64 (2 ^ 64 - 2) nf 0 num 31 ts
       in concat (map (\<lambda>(s, e). iters (-2) s e) bs) = iters (-2) 31 10
          \<and> taskloop_sizes False (nat (if (4::int) = 0 then 2 else 4)) (niter (-2) 31 10)
              (map (\<lambda>(s, e). niter (-2) s e) bs))"
  by (rule taskloop_ull_partition) (code_simp, simp_all)

text \<open>At the end of the range the last block wraps around and its task runs nothing: the loop below has
  one iteration.\<close>

lemma taskloop_end_wraps:
  "iters 2 (LONG_MAX - 1) LONG_MAX = [LONG_MAX - 1]"
  "taskloop_long False 1 1 (LONG_MAX - 1) LONG_MAX 2 = Split 1 2 1"
  "map (\<lambda>(s, e). iters 2 s e) (taskloop_blocks s64 2 1 0 1 (LONG_MAX - 1) 2) = [[]]"
  by code_simp+

subsection \<open>The tasks of the loop\<close>

text \<open>\<open>c\<close> are the clauses; \<open>ts\<close> are the new blocks of memory. All tasks are created before \<open>task_lock\<close> is
  taken, and queued together.\<close>

definition taskloop_undeferred :: "nat \<Rightarrow> task_clauses \<Rightarrow> int \<Rightarrow> task_team \<Rightarrow> bool" where
  "taskloop_undeferred cur c num_tasks s \<longleftrightarrow>
    \<not> if_clause c \<or> final_task (task_of s cur) \<or> u64 (task_count s + num_tasks) > u32 (64 * tt_nthreads s)"

definition taskloop_priority :: "c_int \<Rightarrow> task_clauses \<Rightarrow> c_int" where
  "taskloop_priority gomp_max_task_priority_var c =
    (if prio_clause c > gomp_max_task_priority_var then gomp_max_task_priority_var else prio_clause c)"

fun taskloop_insert :: "nat \<Rightarrow> nat option \<Rightarrow> nat list \<Rightarrow> task_team \<Rightarrow> task_team option" where
  "taskloop_insert par g [] s = Some s"
| "taskloop_insert par g (t # ts) s = do {
     s1 \<leftarrow> insert_child par t False s;
     s2 \<leftarrow> insert_in_group g t s1;
     s3 \<leftarrow> insert_in_team PRIORITY_INSERT_END t s2;
     taskloop_insert par g ts (count_task s3)
   }"

text \<open>The number of threads to wake.\<close>

definition taskloop_wake :: "nat \<Rightarrow> int \<Rightarrow> task_team \<Rightarrow> int" where
  "taskloop_wake par num_tasks s =
    (let tied = (if in_tied_task (task_of s par) then 0 else 1) in
     if u32 (task_running_count s + tied) < tt_nthreads s then
       let do_wake = s32 (tt_nthreads s - task_running_count s - tied)
       in if u64 do_wake > num_tasks then s32 num_tasks else do_wake
     else 0)"

definition taskloop_deferred ::
  "nat list \<Rightarrow> nat \<Rightarrow> icv \<Rightarrow> c_int \<Rightarrow> nat \<Rightarrow> task_clauses \<Rightarrow> task_team \<Rightarrow> (int \<times> task_team) option"
where
  "taskloop_deferred ts par ic prio f c s =
    (let s1 = fold (\<lambda>t. deferred_new t par ic prio f c) ts s; g = taskgroup (task_of s par) in
     if (team_cancelled s1 \<or> group_cancelled g s1) \<and> \<not> cpyfn c then Some (0, s1)
     else
       let s2 = (case g of None \<Rightarrow> s1
                 | Some g \<Rightarrow> upd_group g (\<lambda>x. x\<lparr>num_children := u64 (num_children x + int (length ts))\<rparr>) s1)
       in map_option (\<lambda>s3. let s4 = set_task_pending s3 in (taskloop_wake par (int (length ts)) s4, s4))
            (taskloop_insert par g ts s2))"

text \<open>Before: nothing is started in a cancelled region, nor, without a group of its own, in a cancelled
  group; otherwise a new group \<open>g\<close> is entered.\<close>

definition taskloop_enter :: "bool \<Rightarrow> nat \<Rightarrow> nat \<Rightarrow> task_team \<Rightarrow> task_team option" where
  "taskloop_enter nogroup g cur s =
    (if nogroup then if group_cancelled (taskgroup (task_of s cur)) s then None else Some s
     else Some (GOMP_taskgroup_start g cur s))"

end
