(* ===== verification/TeamQueue.thy ===== *)
theory TeamQueue
  imports TaskLoop
begin

text \<open>
  The queue of the team as a first-in first-out queue with priorities: one list of the ready tasks in the
  order in which they became ready. Its queue operations append a task at the end or take one out, and
  the task that a thread picks at the barrier is the first one of the highest priority.
\<close>

subsection \<open>The sequence of ready tasks\<close>

definition fifo :: "(nat \<Rightarrow> full_task) \<Rightarrow> nat list \<Rightarrow> int \<Rightarrow> nat list" where
  "fifo T qs p = filter (\<lambda>t. priority (T t) = p) qs"

definition best_first :: "(nat \<Rightarrow> full_task) \<Rightarrow> nat list \<Rightarrow> nat" where
  "best_first T qs = hd (filter (\<lambda>t. priority (T t) = Max ((\<lambda>u. priority (T u)) ` set qs)) qs)"

text \<open>The queue of the team, with its counter, holds exactly the tasks \<open>qs\<close>.\<close>

definition queue_holds :: "task_team \<Rightarrow> nat list \<Rightarrow> bool" where
  "queue_holds s qs \<longleftrightarrow> distinct qs \<and> pq_ok (team_links s) (team_queue s) (fifo (task_of s) qs)
    \<and> task_queued_count s = u32 (int (length qs)) \<and> (\<forall>t \<in> set qs. 0 \<le> priority (task_of s t))"

lemma fifo_mem: "t \<in> set (fifo T qs p) \<longleftrightarrow> t \<in> set qs \<and> priority (T t) = p"
  by (auto simp: fifo_def)

lemma fifo_cong: "(\<And>t. t \<in> set qs \<Longrightarrow> priority (T' t) = priority (T t)) \<Longrightarrow> fifo T' qs = fifo T qs"
  by (rule ext) (simp add: fifo_def cong: filter_cong)

lemma fifo_snoc: "fifo T (qs @ [t]) = (fifo T qs)(priority (T t) := fifo T qs (priority (T t)) @ [t])"
  by (rule ext) (simp add: fifo_def)

lemma fifo_remove1: "fifo T (remove1 t qs) = (fifo T qs)(priority (T t) := remove1 t (fifo T qs (priority (T t))))"
proof (rule ext)
  fix p
  have "filter (\<lambda>x. priority (T x) = p) (remove1 t qs)
      = (if priority (T t) = p then remove1 t (filter (\<lambda>x. priority (T x) = p) qs) else filter (\<lambda>x. priority (T x) = p) qs)"
    by (induction qs) auto
  then show "fifo T (remove1 t qs) p = ((fifo T qs)(priority (T t) := remove1 t (fifo T qs (priority (T t))))) p"
    by (simp add: fifo_def)
qed

lemma u32_Suc: "u32 (u32 a + 1) = u32 (a + 1)" "u32 (1 + u32 a) = u32 (1 + a)" "u32 (u32 a - 1) = u32 (a - 1)"
  by (simp_all add: u32_def mod_simps)

subsection \<open>What leaves the queue alone\<close>

text \<open>Priorities, kinds and the queue of the team, as far as the tasks \<open>X\<close> are concerned.\<close>

definition queue_same :: "nat set \<Rightarrow> task_team \<Rightarrow> task_team \<Rightarrow> bool" where
  "queue_same X s s' \<longleftrightarrow> team_links s' = team_links s \<and> team_queue s' = team_queue s
    \<and> task_queued_count s' = task_queued_count s
    \<and> (\<forall>t \<in> X. priority (task_of s' t) = priority (task_of s t) \<and> kind (task_of s' t) = kind (task_of s t))"

lemma queue_same_refl [simp]: "queue_same X s s"
  by (simp add: queue_same_def)

lemma queue_same_trans: "queue_same X s s' \<Longrightarrow> queue_same X s' s'' \<Longrightarrow> queue_same X s s''"
  by (simp add: queue_same_def)

lemma queue_holds_same: "queue_same X s s' \<Longrightarrow> set qs \<subseteq> X \<Longrightarrow> queue_holds s qs \<Longrightarrow> queue_holds s' qs"
proof -
  assume same: "queue_same X s s'" and X: "set qs \<subseteq> X" and h: "queue_holds s qs"
  have pr: "priority (task_of s' t) = priority (task_of s t)" if "t \<in> set qs" for t
    using same X that unfolding queue_same_def by blast
  show ?thesis using h same fifo_cong [OF pr] pr by (simp add: queue_holds_def queue_same_def)
qed

lemma upd_queue_same:
  assumes "\<And>x. priority (f x) = priority x" and "\<And>x. kind (f x) = kind x"
  shows "queue_same X s (upd t f s)"
  using assms by (simp add: queue_same_def upd_def)

lemma on_children_queue: "on_children p f s = Some s' \<Longrightarrow> queue_same X s s'"
  by (auto simp: on_children_def queue_same_def upd_def)

lemma on_group_queue: "on_group g f s = Some s' \<Longrightarrow> queue_same X s s'"
  by (auto simp: on_group_def queue_same_def upd_group_def)

lemma insert_child_queue: "insert_child p t adjust s = Some s' \<Longrightarrow> queue_same X s s'"
  by (simp add: insert_child_def on_children_queue)

lemma insert_in_group_queue: "insert_in_group g t s = Some s' \<Longrightarrow> queue_same X s s'"
  by (auto simp: insert_in_group_def intro: on_group_queue split: option.splits)

lemma wake_parent_queue: "queue_same X s (wake_parent p s)"
  unfolding wake_parent_def by (rule upd_queue_same) (auto split: option.split)

lemma wake_group_queue: "queue_same X s (wake_group g s)"
  by (simp add: wake_group_def upd_group_def queue_same_def split: option.split)

lemma set_task_pending_queue: "queue_same X s (set_task_pending s)"
  by (simp add: set_task_pending_def queue_same_def)

subsection \<open>The operations on the queue\<close>

lemma queue_insert:
  assumes "queue_holds s qs" and "t \<notin> set qs" and "0 \<le> priority (task_of s t)"
    and "insert_in_team PRIORITY_INSERT_END t s = Some s'"
  shows "queue_holds (count_task s') (qs @ [t])" and "task_of s' = task_of s"
proof -
  let ?T = "task_of s" and ?p = "priority (task_of s t)"
  have q: "pq_ok (team_links s) (team_queue s) (fifo ?T qs)" using assms(1) by (simp add: queue_holds_def)
  have "\<forall>p. t \<notin> set (fifo ?T qs p)" using assms(2) by (simp add: fifo_mem)
  from priority_queue_insert_ok [OF q this _ assms(3), of False PRIORITY_INSERT_END "parent_depends_on (?T t)"]
  obtain L' q' where i: "priority_queue_insert t ?p PRIORITY_INSERT_END False (parent_depends_on (?T t)) (team_links s, team_queue s) = Some (L', q')"
    "pq_ok L' q' ((fifo ?T qs)(?p := fifo ?T qs ?p @ [t]))"
    by (auto simp: placed_def)
  have s': "s' = s\<lparr>team_links := L', team_queue := q'\<rparr>"
    using assms(4) i(1) by (simp add: insert_in_team_def on_team_def)
  show "task_of s' = task_of s" by (simp add: s')
  show "queue_holds (count_task s') (qs @ [t])"
    using assms(1-3) i(2) by (auto simp: queue_holds_def count_task_def s' fifo_snoc u32_Suc add.commute)
qed

text \<open>A thread takes the task \<open>t\<close> out of the queue before it runs it.\<close>

lemma queue_run_pre:
  assumes h: "queue_holds s qs" and t: "t \<in> set qs" and r: "gomp_task_run_pre t par s = Some (c, s')"
  shows "queue_holds s' (remove1 t qs)" and "kind (task_of s' t) = GOMP_TASK_TIED"
    and "priority (task_of s' x) = priority (task_of s x)" and "x \<noteq> t \<Longrightarrow> kind (task_of s' x) = kind (task_of s x)"
proof -
  obtain s1 where 1: "(case par of None \<Rightarrow> Some s | Some p \<Rightarrow> on_children p (priority_queue_downgrade_task (plain_tasks s) t) s) = Some s1"
    using r by (auto simp: gomp_task_run_pre_def bind_eq_Some_conv)
  obtain s2 where 2: "(case taskgroup (task_of s1 t) of None \<Rightarrow> Some s1
      | Some g \<Rightarrow> on_group g (priority_queue_downgrade_task (plain_tasks s1) t) s1) = Some s2"
    using r 1 by (auto simp: gomp_task_run_pre_def bind_eq_Some_conv Let_def [of "taskgroup (task_of s1 t)"])
  obtain s3 where 3: "on_team (\<lambda>q. map_option snd (priority_queue_remove t (priority (task_of s2 t)) q)) s2 = Some s3"
    using r 1 2 by (auto simp: gomp_task_run_pre_def bind_eq_Some_conv Let_def)
  have "queue_same UNIV s s1" using 1 by (auto intro: on_children_queue split: option.splits)
  moreover have "queue_same UNIV s1 s2" using 2 by (auto intro: on_group_queue split: option.splits)
  ultimately have q2: "queue_same UNIV s s2" by (rule queue_same_trans)
  have h2: "queue_holds s2 qs" by (rule queue_holds_same [OF q2 _ h]) simp
  let ?T = "task_of s2" and ?p = "priority (task_of s2 t)"
  have "t \<in> set (fifo ?T qs ?p)" using t by (simp add: fifo_mem)
  then obtain e L' q' where i: "priority_queue_remove t ?p (team_links s2, team_queue s2) = Some (e, L', q')"
    "pq_ok L' q' ((fifo ?T qs)(?p := remove1 t (fifo ?T qs ?p)))"
    using priority_queue_remove_ok [of "team_links s2" "team_queue s2" "fifo ?T qs" t ?p] h2 by (auto simp: queue_holds_def)
  have s3: "s3 = s2\<lparr>team_links := L', team_queue := q'\<rparr>" using 3 i(1) by (simp add: on_team_def)
  have T: "task_of s' = ?T(t := (?T t)\<lparr>kind := GOMP_TASK_TIED\<rparr>)" "team_links s' = L'" "team_queue s' = q'"
    "task_queued_count s' = u32 (task_queued_count s2 - 1)"
    using r 1 2 3 by (auto simp: gomp_task_run_pre_def Let_def upd_def s3 split: if_splits)
  have pr: "priority (task_of s' x) = priority (?T x)" for x by (simp add: T)
  show "priority (task_of s' x) = priority (task_of s x)" for x using q2 by (simp add: pr queue_same_def)
  show "kind (task_of s' t) = GOMP_TASK_TIED" by (simp add: T)
  show "x \<noteq> t \<Longrightarrow> kind (task_of s' x) = kind (task_of s x)" using q2 by (simp add: T queue_same_def)
  have f: "fifo (task_of s') (remove1 t qs) = (fifo ?T qs)(?p := remove1 t (fifo ?T qs ?p))"
    using fifo_cong [of "remove1 t qs" "task_of s'" ?T] pr by (simp add: fifo_remove1)
  have len: "int (length (remove1 t qs)) = int (length qs) - 1"
    using t length_pos_if_in_set [OF t] by (cases "length qs") (simp_all add: length_remove1)
  show "queue_holds s' (remove1 t qs)"
    using h2 i(2) pr by (auto simp: queue_holds_def f T(2-4) u32_Suc len dest: notin_set_remove1 set_remove1_subset [THEN subsetD])
qed

text \<open>One dependence of \<open>x\<close> is satisfied; it was the last one if the counter was 1.\<close>

lemma queue_depender_done:
  assumes h: "queue_holds s qs" and x: "x \<notin> set qs" "0 \<le> priority (task_of s x)"
    and d: "depender_done par x (n, s) = Some (m, s')"
  shows "queue_holds s' (if num_dependees (dec_dependees x (task_of s) x) = 0 then qs @ [x] else qs)"
    and "priority (task_of s' y) = priority (task_of s y)" and "kind (task_of s' y) = kind (task_of s y)"
proof -
  let ?s1 = "upd x (\<lambda>y. y\<lparr>num_dependees := u64 (num_dependees y - 1)\<rparr>) s"
  have s1: "task_of ?s1 = dec_dependees x (task_of s)" by (simp add: upd_task_of dec_dependees_def)
  have q1: "queue_same UNIV s ?s1" by (rule upd_queue_same) simp_all
  have all: "queue_holds s' (if num_dependees (dec_dependees x (task_of s) x) = 0 then qs @ [x] else qs)
      \<and> (\<forall>y. priority (task_of s' y) = priority (task_of s y) \<and> kind (task_of s' y) = kind (task_of s y))"
  proof (cases "num_dependees (task_of ?s1 x) \<noteq> 0")
    case True
    then have "s' = ?s1" using d by (simp add: depender_done_def Let_def)
    then show ?thesis using True queue_holds_same [OF q1 _ h] q1 by (simp add: s1 queue_same_def)
  next
    case False
    then obtain s2 s3 s4 where
      2: "(case par of None \<Rightarrow> Some ?s1 | Some p \<Rightarrow> map_option (wake_parent p) (insert_child p x True ?s1)) = Some s2"
      and 3: "map_option (wake_group (taskgroup (task_of ?s1 x))) (insert_in_group (taskgroup (task_of ?s1 x)) x s2) = Some s3"
      and 4: "insert_in_team PRIORITY_INSERT_END x s3 = Some s4" "s' = count_task s4"
      using d by (auto simp: depender_done_def Let_def bind_eq_Some_conv)
    have "queue_same UNIV ?s1 s2"
      using 2 by (auto split: option.splits intro: queue_same_trans [OF insert_child_queue wake_parent_queue])
    moreover have "queue_same UNIV s2 s3"
      using 3 by (auto intro: queue_same_trans [OF insert_in_group_queue wake_group_queue])
    ultimately have q3: "queue_same UNIV s s3" using q1 by (blast intro: queue_same_trans)
    then have h3: "queue_holds s3 qs" by (rule queue_holds_same [OF _ _ h]) simp
    have p3: "priority (task_of s3 y) = priority (task_of s y) \<and> kind (task_of s3 y) = kind (task_of s y)" for y
      using q3 by (simp add: queue_same_def)
    have "queue_holds s' (qs @ [x])" "task_of s' = task_of s3"
      using queue_insert [OF h3 x(1) _ 4(1)] x(2) p3 [of x] 4(2) by simp_all
    then show ?thesis using False p3 s1 by simp
  qed
  then show "queue_holds s' (if num_dependees (dec_dependees x (task_of s) x) = 0 then qs @ [x] else qs)"
    and "priority (task_of s' y) = priority (task_of s y)" and "kind (task_of s' y) = kind (task_of s y)"
    by blast+
qed

lemma queue_dependers_done:
  assumes "queue_holds s qs" and "distinct xs" and "\<And>x. x \<in> set xs \<Longrightarrow> x \<notin> set qs \<and> 0 \<le> priority (task_of s x)"
    and "dependers_done par xs (n, s) = Some (m, s')"
  shows "queue_holds s' (qs @ filter (\<lambda>x. u64 (num_dependees (task_of s x) - 1) = 0) xs)
    \<and> (\<forall>y. priority (task_of s' y) = priority (task_of s y) \<and> kind (task_of s' y) = kind (task_of s y))"
  using assms
proof (induction xs arbitrary: n s qs)
  case (Cons x xs)
  obtain k s1 where 1: "depender_done par x (n, s) = Some (k, s1)" "dependers_done par xs (k, s1) = Some (m, s')"
    using Cons.prems(4) by (auto simp: bind_eq_Some_conv)
  let ?ok = "u64 (num_dependees (task_of s x) - 1) = 0"
  note d = queue_depender_done [OF Cons.prems(1) _ _ 1(1)]
  have z: "num_dependees (dec_dependees x (task_of s) x) = 0 \<longleftrightarrow> ?ok" by (simp add: dec_dependees_def)
  have h1: "queue_holds s1 (if ?ok then qs @ [x] else qs)" using d(1) Cons.prems(3) by (simp add: z)
  have same: "priority (task_of s1 y) = priority (task_of s y)" "kind (task_of s1 y) = kind (task_of s y)" for y
    using d(2,3) Cons.prems(3) by simp_all
  have num: "num_dependees (task_of s1 y) = num_dependees (task_of s y)" if "y \<noteq> x" for y
    using depender_done_same [OF 1(1), of UNIV] that by (simp add: dep_same_def dec_dependees_def)
  have "queue_holds s' ((if ?ok then qs @ [x] else qs) @ filter (\<lambda>x. u64 (num_dependees (task_of s1 x) - 1) = 0) xs)
    \<and> (\<forall>y. priority (task_of s' y) = priority (task_of s1 y) \<and> kind (task_of s' y) = kind (task_of s1 y))"
    using Cons.prems(2,3) same by (intro Cons.IH [OF h1 _ _ 1(2)]) auto
  moreover have "filter (\<lambda>x. u64 (num_dependees (task_of s1 x) - 1) = 0) xs = filter (\<lambda>x. u64 (num_dependees (task_of s x) - 1) = 0) xs"
  proof (rule filter_cong [OF refl])
    fix y assume "y \<in> set xs"
    then have "y \<noteq> x" using Cons.prems(2) by auto
    then show "(u64 (num_dependees (task_of s1 y) - 1) = 0) = (u64 (num_dependees (task_of s y) - 1) = 0)" by (simp add: num)
  qed
  ultimately show ?case by (cases ?ok) (simp_all add: same)
qed simp

text \<open>A task has ended: those that waited only for it become ready, in the order of its list.\<close>

definition made_ready :: "task_team \<Rightarrow> nat \<Rightarrow> nat list" where
  "made_ready s t = (if depend_count (task_of s t) = 0 then []
     else filter (\<lambda>x. u64 (num_dependees (task_of s x) - 1) = 0) (elems (task_of s) t))"

lemma unlink_entry_same: "dependers (unlink_entry P e T x) = dependers (T x) \<and> num_dependees (unlink_entry P e T x) = num_dependees (T x)
    \<and> priority (unlink_entry P e T x) = priority (T x) \<and> kind (unlink_entry P e T x) = kind (T x)
    \<and> depend (unlink_entry P e T x) = depend (T x) \<and> depend_count (unlink_entry P e T x) = depend_count (T x)
    \<and> parent (unlink_entry P e T x) = parent (T x) \<and> (x \<noteq> P \<longrightarrow> depend_hash (unlink_entry P e T x) = depend_hash (T x))"
  by (simp add: unlink_entry_def set_chain_def)

lemma depend_hash_same:
  fixes T :: "nat \<Rightarrow> full_task" and P t :: nat
  defines "T' \<equiv> gomp_task_run_post_handle_depend_hash t P T"
  shows "dependers (T' x) = dependers (T x) \<and> num_dependees (T' x) = num_dependees (T x)
    \<and> priority (T' x) = priority (T x) \<and> kind (T' x) = kind (T x)
    \<and> depend (T' x) = depend (T x) \<and> depend_count (T' x) = depend_count (T x)
    \<and> parent (T' x) = parent (T x) \<and> (x \<noteq> P \<longrightarrow> depend_hash (T' x) = depend_hash (T x))"
proof -
  have "dependers (fold (\<lambda>i. unlink_entry P (t, i)) is T x) = dependers (T x) \<and> num_dependees (fold (\<lambda>i. unlink_entry P (t, i)) is T x) = num_dependees (T x)
    \<and> priority (fold (\<lambda>i. unlink_entry P (t, i)) is T x) = priority (T x) \<and> kind (fold (\<lambda>i. unlink_entry P (t, i)) is T x) = kind (T x)
    \<and> depend (fold (\<lambda>i. unlink_entry P (t, i)) is T x) = depend (T x) \<and> depend_count (fold (\<lambda>i. unlink_entry P (t, i)) is T x) = depend_count (T x)
    \<and> parent (fold (\<lambda>i. unlink_entry P (t, i)) is T x) = parent (T x)
    \<and> (x \<noteq> P \<longrightarrow> depend_hash (fold (\<lambda>i. unlink_entry P (t, i)) is T x) = depend_hash (T x))" for "is"
    by (induction "is" arbitrary: T) (simp_all add: unlink_entry_same)
  then show ?thesis by (simp add: T'_def gomp_task_run_post_handle_depend_hash_def)
qed

lemma queue_post_handle_depend:
  assumes h: "queue_holds s qs" and xs: "distinct (elems (task_of s) t)"
    "\<And>x. x \<in> set (elems (task_of s) t) \<Longrightarrow> x \<notin> set qs \<and> 0 \<le> priority (task_of s x)"
    and r: "gomp_task_run_post_handle_depend t s = Some (n, s')"
  shows "queue_holds s' (qs @ made_ready s t)"
    and "priority (task_of s' y) = priority (task_of s y)" and "kind (task_of s' y) = kind (task_of s y)"
proof -
  have "queue_holds s' (qs @ made_ready s t)
      \<and> (\<forall>y. priority (task_of s' y) = priority (task_of s y) \<and> kind (task_of s' y) = kind (task_of s y))"
  proof (cases "depend_count (task_of s t) = 0")
    case True
    then show ?thesis using r h by (simp add: gomp_task_run_post_handle_depend_def made_ready_def)
  next
    case False
    define s1 where "s1 = (case parent (task_of s t) of None \<Rightarrow> s
        | Some p \<Rightarrow> s\<lparr>task_of := gomp_task_run_post_handle_depend_hash t p (task_of s)\<rparr>)"
    have e: "dependers (task_of s1 x) = dependers (task_of s x)" "num_dependees (task_of s1 x) = num_dependees (task_of s x)"
      "priority (task_of s1 x) = priority (task_of s x)" "kind (task_of s1 x) = kind (task_of s x)" for x
      by (simp_all add: s1_def depend_hash_same split: option.split)
    have q1: "queue_same UNIV s s1" using e by (simp add: queue_same_def) (simp add: s1_def split: option.split)
    have h1: "queue_holds s1 qs" by (rule queue_holds_same [OF q1 _ h]) simp
    have r1: "(case dependers (task_of s1 t) of None \<Rightarrow> Some (0, s1)
        | Some e \<Rightarrow> gomp_task_run_post_handle_dependers t e s1) = Some (n, s')"
      using r False by (simp add: gomp_task_run_post_handle_depend_def Let_def flip: s1_def)
    show ?thesis
    proof (cases "dependers (task_of s t)")
      case None
      then show ?thesis using r1 e h1 by (simp add: made_ready_def elems_def)
    next
      case (Some xs)
      then have el: "elems (task_of s) t = xs" by (simp add: elems_def)
      obtain m s2 where 2: "dependers_done (parent (task_of s1 t)) xs (0, s1) = Some (m, s2)"
        "s' = (if 1 < m then set_task_pending (upd t (\<lambda>x. x\<lparr>dependers := None\<rparr>) s2) else upd t (\<lambda>x. x\<lparr>dependers := None\<rparr>) s2)"
        using r1 Some e by (auto simp: gomp_task_run_post_handle_dependers_def bind_eq_Some_conv Let_def split: if_splits)
      have q: "queue_holds s2 (qs @ filter (\<lambda>x. u64 (num_dependees (task_of s1 x) - 1) = 0) xs)
        \<and> (\<forall>y. priority (task_of s2 y) = priority (task_of s1 y) \<and> kind (task_of s2 y) = kind (task_of s1 y))"
        by (rule queue_dependers_done [OF h1 _ _ 2(1)]) (use assms(2,3) el e in auto)
      have "queue_same UNIV s2 (upd t (\<lambda>x. x\<lparr>dependers := None\<rparr>) s2)" by (rule upd_queue_same) simp_all
      then have s': "queue_same UNIV s2 s'" unfolding 2(2) by (auto intro: queue_same_trans [OF _ set_task_pending_queue])
      have "made_ready s t = filter (\<lambda>x. u64 (num_dependees (task_of s1 x) - 1) = 0) xs"
        using False by (simp add: made_ready_def el e)
      then show ?thesis using queue_holds_same [OF s' _ conjunct1 [OF q]] q s' e by (simp add: queue_same_def)
    qed
  qed
  then show "queue_holds s' (qs @ made_ready s t)"
    and "priority (task_of s' y) = priority (task_of s y)" and "kind (task_of s' y) = kind (task_of s y)"
    by blast+
qed

subsection \<open>What the handling of the clauses of a new task leaves alone\<close>

text \<open>\<open>t\<close> is the new task, \<open>P\<close> its parent, and \<open>X\<close> holds the tasks with entries in the hash table of \<open>P\<close>.\<close>

definition only_deps :: "nat \<Rightarrow> nat \<Rightarrow> nat set \<Rightarrow> (nat \<Rightarrow> full_task) \<Rightarrow> (nat \<Rightarrow> full_task) \<Rightarrow> bool" where
  "only_deps t P X T T' \<longleftrightarrow> (\<forall>x. priority (T' x) = priority (T x) \<and> kind (T' x) = kind (T x)
     \<and> (x \<noteq> P \<longrightarrow> depend_hash (T' x) = depend_hash (T x)) \<and> (x \<noteq> t \<longrightarrow> num_dependees (T' x) = num_dependees (T x))
     \<and> (x \<noteq> t \<and> x \<notin> X \<longrightarrow> parent (T' x) = parent (T x) \<and> dependers (T' x) = dependers (T x)
         \<and> depend (T' x) = depend (T x) \<and> depend_count (T' x) = depend_count (T x)))"

lemma only_deps_refl: "only_deps t P X T T"
  by (simp add: only_deps_def)

lemma only_deps_trans: "only_deps t P X T T' \<Longrightarrow> only_deps t P X T' T'' \<Longrightarrow> only_deps t P X T T''"
  by (simp add: only_deps_def)

lemma only_deps_steps:
  "u \<in> insert t X \<Longrightarrow> only_deps t P X T (add_depender t u T)"
  "only_deps t P X T (append_entry t d T)"
  "only_deps t P X T (set_chain P a xs T)"
  "fst e \<in> insert t X \<Longrightarrow> only_deps t P X T (upd_entry e f T)"
  by (auto simp: only_deps_def add_depender_def append_entry_def set_chain_def upd_entry_def Let_def)

lemma depend_scan_frame:
  assumes "depend_scan t new_in xs T out lst = (T', out', lst')" and "fst ` set xs \<subseteq> insert t X"
  shows "only_deps t P X T T'" and "\<And>e. out' = Some e \<Longrightarrow> out = Some e \<or> e \<in> set xs"
    and "(out' = out \<and> lst' = lst) \<or> (\<exists>e \<in> set xs. lst' = Some e)" and "chain_of P a T' = chain_of P a T"
proof -
  have "only_deps t P X T T' \<and> (\<forall>e. out' = Some e \<longrightarrow> out = Some e \<or> e \<in> set xs)
      \<and> ((out' = out \<and> lst' = lst) \<or> (\<exists>e \<in> set xs. lst' = Some e)) \<and> chain_of P a T' = chain_of P a T"
    using assms
  proof (induction xs arbitrary: T out lst)
    case (Cons e es)
    show ?case
    proof (cases "d_redundant_out (entry T e)")
      case True
      then show ?thesis using Cons.prems by (simp add: only_deps_refl)
    next
      case False
      have X: "fst e \<in> insert t X" "fst ` set es \<subseteq> insert t X" using Cons.prems(2) by simp_all
      show ?thesis
      proof (cases "new_in \<and> d_is_in (entry T e)")
        case True
        then have "depend_scan t new_in es T out (Some e) = (T', out', lst')" using Cons.prems(1) False by simp
        from Cons.IH [OF this X(2)] show ?thesis by auto
      next
        case nb: False
        then have "depend_scan t new_in es (add_depender t (fst e) T) (if d_is_in (entry T e) then out else Some e) (Some e) = (T', out', lst')"
          using Cons.prems(1) False by auto
        note IH = Cons.IH [OF this X(2)]
        have "only_deps t P X T T'" using only_deps_trans [OF only_deps_steps(1) [OF X(1)]] IH by blast
        moreover have "chain_of P a (add_depender t (fst e) T) = chain_of P a T"
          by (simp add: chain_of_def add_depender_def Let_def)
        ultimately show ?thesis using IH by (auto split: if_splits)
      qed
    qed
  qed (simp add: only_deps_refl)
  then show "only_deps t P X T T'" and "\<And>e. out' = Some e \<Longrightarrow> out = Some e \<or> e \<in> set xs"
    and "(out' = out \<and> lst' = lst) \<or> (\<exists>e \<in> set xs. lst' = Some e)" and "chain_of P a T' = chain_of P a T"
    by blast+
qed

text \<open>The entries of the chains stay those of \<open>X\<close> and of the new task.\<close>

definition chains_in :: "nat \<Rightarrow> nat set \<Rightarrow> (nat \<Rightarrow> full_task) \<Rightarrow> bool" where
  "chains_in P Y T \<longleftrightarrow> (\<forall>a. fst ` set (chain_of P a T) \<subseteq> Y)"

lemma chains_in_set_chain: "chains_in P Y T \<Longrightarrow> fst ` set xs \<subseteq> Y \<Longrightarrow> chains_in P Y (set_chain P a xs T)"
  by (auto simp: chains_in_def)

lemma set_move_after: "set (move_after e p xs) \<subseteq> insert e (insert p (set xs))"
proof -
  let ?ys = "remove1 e xs"
  have "set (takeWhile (\<lambda>x. x \<noteq> p) ?ys) \<subseteq> set ?ys" "set (tl (dropWhile (\<lambda>x. x \<noteq> p) ?ys)) \<subseteq> set ?ys"
    by (meson set_takeWhileD subsetI) (meson in_set_tlD set_dropWhileD subsetI)
  moreover have "set ?ys \<subseteq> set xs" by (rule set_remove1_subset)
  moreover have "set (move_after e p xs) = set (takeWhile (\<lambda>x. x \<noteq> p) ?ys) \<union> insert p (insert e (set (tl (dropWhile (\<lambda>x. x \<noteq> p) ?ys))))"
    by (simp add: move_after_def Let_def)
  ultimately show ?thesis by blast
qed

lemma depend_one_frame:
  assumes c: "chains_in P (insert t X) T" and tP: "t \<noteq> P"
  shows "only_deps t P X T (depend_one t P (a, new_in) T) \<and> chains_in P (insert t X) (depend_one t P (a, new_in) T)"
proof -
  let ?Y = "insert t X" and ?i = "length (depend (T t))"
  define TA where "TA = append_entry t (new_entry a new_in) T"
  have A: "only_deps t P X T TA" "chain_of P b TA = chain_of P b T" for b
    using tP by (simp_all add: TA_def only_deps_steps(2))
  have cA: "chains_in P ?Y TA" using c by (simp add: chains_in_def A(2))
  have sc: "only_deps t P X T' (set_chain P a xs T') \<and> chains_in P ?Y (set_chain P a xs T')"
    if "chains_in P ?Y T'" "fst ` set xs \<subseteq> ?Y" for T' xs
    using that by (simp add: only_deps_steps(3) chains_in_set_chain)
  show ?thesis
  proof (cases "chain_of P a T")
    case Nil
    then have "depend_one t P (a, new_in) T = set_chain P a [(t, ?i)] TA" by (simp add: depend_one_unfold TA_def)
    then show ?thesis using sc [OF cA, of "[(t, ?i)]"] only_deps_trans [OF A(1)] by auto
  next
    case (Cons h es)
    have slot: "fst ` set (h # es) \<subseteq> ?Y" using c Cons by (metis chains_in_def)
    show ?thesis
    proof (cases "fst h = t")
      case True
      then have "depend_one t P (a, new_in) T = upd_entry (t, ?i) (\<lambda>e. e\<lparr>d_redundant := True\<rparr>) TA"
        using Cons by (simp add: depend_one_unfold TA_def Let_def)
      moreover have "chain_of P b (upd_entry (t, ?i) f TA) = chain_of P b TA" for b f by simp
      ultimately show ?thesis
        using only_deps_trans [OF A(1) only_deps_steps(4)] cA by (simp add: chains_in_def)
    next
      case False
      obtain T1 out lst where scan: "depend_scan t new_in (h # es) TA None None = (T1, out, lst)" by (metis prod_cases3)
      have one: "depend_one t P (a, new_in) T = (case (if new_in then None else out) of
            None \<Rightarrow> set_chain P a ((t, ?i) # h # es) T1
          | Some e \<Rightarrow> upd_entry e (\<lambda>x. x\<lparr>d_redundant_out := True\<rparr>)
              (set_chain P a (if lst \<noteq> Some e then move_after e (the lst) ((t, ?i) # h # es) else (t, ?i) # h # es) T1))"
        using Cons False scan by (simp add: depend_one_unfold TA_def Let_def)
      have slotA: "fst ` set (h # es) \<subseteq> insert t X" by (rule slot)
      note f = depend_scan_frame [OF scan slotA]
      have 1: "only_deps t P X T T1" by (rule only_deps_trans [OF A(1) f(1)])
      have c1: "chains_in P ?Y T1" using cA f(4) by (simp add: chains_in_def)
      have new: "fst ` set ((t, ?i) # h # es) \<subseteq> ?Y" using slot by simp
      show ?thesis
      proof (cases "if new_in then None else out")
        case None
        then show ?thesis using one sc [OF c1 new] only_deps_trans [OF 1] by simp
      next
        case (Some e)
        then have e: "e \<in> set (h # es)" "out \<noteq> None" using f(2) [of e] by (auto split: if_splits)
        then obtain l where l: "l \<in> set (h # es)" "lst = Some l" using f(3) e(2) by blast
        let ?xs = "if lst \<noteq> Some e then move_after e (the lst) ((t, ?i) # h # es) else (t, ?i) # h # es"
        have "set ?xs \<subseteq> set ((t, ?i) # h # es)"
          using set_move_after [of e l "(t, ?i) # h # es"] e(1) l by auto
        then have "fst ` set ?xs \<subseteq> ?Y" using new by blast
        note 2 = sc [OF c1 this]
        have u: "fst e \<in> insert t X" using e(1) slot by auto
        have "chain_of P b (upd_entry e f T') = chain_of P b T'" for b f T' by simp
        then show ?thesis
          using one Some 2 only_deps_trans [OF 1 only_deps_trans [OF _ only_deps_steps(4) [OF u]]] by (simp add: chains_in_def)
      qed
    qed
  qed
qed

lemma handle_depend_frame:
  assumes c: "chains_in P X T" and t: "t \<noteq> P"
  shows "only_deps t P X T (gomp_task_handle_depend t P nout addrs T)"
proof -
  have fold: "only_deps t P X T' (fold (depend_one t P) ds T') \<and> chains_in P (insert t X) (fold (depend_one t P) ds T')"
    if "chains_in P (insert t X) T'" for ds T'
    using that
  proof (induction ds arbitrary: T')
    case (Cons d ds)
    obtain a n where d: "d = (a, n)" by fastforce
    note 1 = depend_one_frame [OF Cons.prems t, of a n]
    note 2 = Cons.IH [OF conjunct2 [OF 1]]
    show ?case unfolding d fold_Cons comp_def using only_deps_trans [OF conjunct1 [OF 1]] 2 by blast
  qed (simp add: only_deps_refl)
  define T1 where "T1 = T(t := (T t)\<lparr>depend_count := length addrs, num_dependees := 0, depend := []\<rparr>)"
  define T2 where "T2 = (if depend_hash (T1 P) = None then T1(P := (T1 P)\<lparr>depend_hash := Some (\<lambda>a. [])\<rparr>) else T1)"
  have T2: "only_deps t P X T T2" "chain_of P a T2 = chain_of P a T" for a
    using t by (auto simp: T2_def T1_def only_deps_def chain_of_def)
  have "chains_in P (insert t X) T2" using c by (auto simp: chains_in_def T2(2))
  note f = fold [OF this, of "zip addrs (map (\<lambda>i. nout \<le> i) [0..<length addrs])"]
  have "gomp_task_handle_depend t P nout addrs T = fold (depend_one t P) (zip addrs (map (\<lambda>i. nout \<le> i) [0..<length addrs])) T2"
    by (simp add: gomp_task_handle_depend_def T1_def T2_def Let_def)
  then show ?thesis using only_deps_trans [OF T2(1)] f by simp
qed

subsection \<open>A new task\<close>

definition depends :: "task_clauses \<Rightarrow> bool" where
  "depends c \<longleftrightarrow> depend_flag c \<and> dep_addrs c \<noteq> []"

text \<open>Everything but the new task \<open>t\<close>; the clauses reach the other children \<open>X\<close> with clauses and the hash table.\<close>

definition others_kept :: "nat \<Rightarrow> nat \<Rightarrow> nat set \<Rightarrow> (nat \<Rightarrow> full_task) \<Rightarrow> (nat \<Rightarrow> full_task) \<Rightarrow> bool" where
  "others_kept t P X T T' \<longleftrightarrow> (\<forall>x. x \<noteq> t \<longrightarrow> priority (T' x) = priority (T x) \<and> kind (T' x) = kind (T x)
     \<and> num_dependees (T' x) = num_dependees (T x) \<and> (x \<noteq> P \<longrightarrow> depend_hash (T' x) = depend_hash (T x))
     \<and> (x \<notin> X \<longrightarrow> parent (T' x) = parent (T x) \<and> dependers (T' x) = dependers (T x)
         \<and> depend (T' x) = depend (T x) \<and> depend_count (T' x) = depend_count (T x)))"

lemma others_kept_dep: "others_kept t P X T T1 \<Longrightarrow> only_deps t P X T1 T2 \<Longrightarrow> others_kept t P X T T2"
  by (simp add: others_kept_def only_deps_def)

lemma others_kept_same: "others_kept t P X T T1 \<Longrightarrow> dep_same UNIV T1 (task_of s2) \<Longrightarrow> queue_same UNIV s1 s2 \<Longrightarrow> task_of s1 = T1
    \<Longrightarrow> others_kept t P X T (task_of s2)"
  by (simp add: others_kept_def dep_same_def queue_same_def)

lemma deferred_task_effect:
  assumes r: "deferred_task t P ic prio f c s = Some (w, s')" and go: "\<not> task_cancelled P s" and tP: "t \<noteq> P"
    and ch: "chains_in P X (task_of s)" and h: "queue_holds s qs" and new: "t \<notin> set qs" "0 \<le> prio"
  shows "others_kept t P X (task_of s) (task_of s')"
    and "priority (task_of s' t) = prio" and "kind (task_of s' t) = GOMP_TASK_WAITING" and "depend_hash (task_of s' t) = None"
    and "\<not> depends c \<Longrightarrow> depend_count (task_of s' t) = 0 \<and> dep_same (- {t}) (task_of s) (task_of s')"
    and "queue_holds s' (if depends c \<and> num_dependees (task_of s' t) \<noteq> 0 then qs else qs @ [t])"
proof -
  let ?T = "task_of s" and ?g = "taskgroup (task_of s P)"
  define s1 where "s1 = deferred_new t P ic prio f c s"
  have T1: "task_of s1 x = ?T x" if "x \<noteq> t" for x
    using that by (simp add: s1_def deferred_new_def gomp_init_task_def upd_def Let_def)
  have t1: "priority (task_of s1 t) = prio" "kind (task_of s1 t) = GOMP_TASK_WAITING" "depend_count (task_of s1 t) = 0" "depend_hash (task_of s1 t) = None"
    by (simp_all add: s1_def deferred_new_def gomp_init_task_def upd_def Let_def)
  have rest: "tt_barrier s1 = tt_barrier s" "group_of s1 = group_of s" "team_links s1 = team_links s" "team_queue s1 = team_queue s"
    "task_queued_count s1 = task_queued_count s"
    by (simp_all add: s1_def deferred_new_def gomp_init_task_def upd_def Let_def)
  have "\<not> (team_cancelled s1 \<or> group_cancelled ?g s1)"
    using go rest by (simp add: task_cancelled_def group_cancelled_def split: option.splits)
  then have go': "\<not> ((team_cancelled s1 \<or> group_cancelled ?g s1) \<and> \<not> copy_ctors_done (task_of s1 t))" by blast
  define s2 where "s2 = (case ?g of None \<Rightarrow> s1 | Some g \<Rightarrow> upd_group g (\<lambda>x. x\<lparr>num_children := u64 (num_children x + 1)\<rparr>) s1)"
  have s2: "task_of s2 = task_of s1" "team_links s2 = team_links s" "team_queue s2 = team_queue s"
    "task_queued_count s2 = task_queued_count s"
    using rest by (simp_all add: s2_def upd_group_def split: option.split)
  define s3 where "s3 = (if depends c then s2\<lparr>task_of := gomp_task_handle_depend t P (dep_nout c) (dep_addrs c) (task_of s2)\<rparr> else s2)"
  have "chains_in P X (task_of s2)" using ch tP T1 s2(1) by (simp add: chains_in_def chain_of_def)
  then have od: "only_deps t P X (task_of s2) (task_of s3)"
    using handle_depend_frame [OF _ tP] by (simp add: s3_def only_deps_refl)
  have k2: "others_kept t P X ?T (task_of s2)" using T1 s2(1) by (simp add: others_kept_def)
  have k3: "others_kept t P X ?T (task_of s3)" by (rule others_kept_dep [OF k2 od])
  have t3: "priority (task_of s3 t) = prio" "kind (task_of s3 t) = GOMP_TASK_WAITING" "depend_hash (task_of s3 t) = None" using od t1 s2(1) tP by (simp_all add: only_deps_def)
  have q3: "queue_same (- {t}) s s3"
    using k3 s2 by (auto simp: queue_same_def others_kept_def s3_def)
  have h3: "queue_holds s3 qs" by (rule queue_holds_same [OF q3 _ h]) (use new(1) in auto)
  have unf: "deferred_task t P ic prio f c s = (if depends c \<and> num_dependees (task_of s3 t) \<noteq> 0 then Some (False, s3)
      else do {
        s4 \<leftarrow> insert_child P t False s3;
        s5 \<leftarrow> insert_in_group ?g t s4;
        s6 \<leftarrow> insert_in_team PRIORITY_INSERT_END t s5;
        let s7 = set_task_pending (count_task s6);
        Some (u32 (task_running_count s7 + (if in_tied_task (task_of s7 P) then 0 else 1)) < tt_nthreads s7, s7)
      })"
    unfolding deferred_task_def Let_def s1_def [symmetric] s2_def [symmetric] if_not_P [OF go'] s3_def depends_def
    by (simp only: conj_assoc)
  have all: "others_kept t P X ?T (task_of s') \<and> priority (task_of s' t) = prio \<and> kind (task_of s' t) = GOMP_TASK_WAITING
    \<and> dep_same UNIV (task_of s3) (task_of s')
    \<and> queue_holds s' (if depends c \<and> num_dependees (task_of s' t) \<noteq> 0 then qs else qs @ [t])"
  proof (cases "depends c \<and> num_dependees (task_of s3 t) \<noteq> 0")
    case True
    then have "s' = s3" using r unf by simp
    then show ?thesis using True k3 t3 h3 by simp
  next
    case False
    then obtain s4 s5 s6 where i: "insert_child P t False s3 = Some s4" "insert_in_group ?g t s4 = Some s5"
      "insert_in_team PRIORITY_INSERT_END t s5 = Some s6" "s' = set_task_pending (count_task s6)"
      using r unf by (auto simp: bind_eq_Some_conv Let_def split: if_splits)
    have d: "dep_same UNIV (task_of s3) (task_of s5)"
      using dep_same_trans [OF insert_child_same [OF i(1)] insert_in_group_same [OF i(2)]] .
    have q: "queue_same UNIV s3 s5" using queue_same_trans [OF insert_child_queue [OF i(1)] insert_in_group_queue [OF i(2)]] .
    have h5: "queue_holds s5 qs" by (rule queue_holds_same [OF q _ h3]) simp
    have p5: "priority (task_of s5 t) = prio" "kind (task_of s5 t) = GOMP_TASK_WAITING" using q t3 by (simp_all add: queue_same_def)
    have h6: "queue_holds (count_task s6) (qs @ [t])" "task_of s6 = task_of s5"
      using queue_insert [OF h5 new(1) _ i(3)] p5 new(2) by simp_all
    have "queue_holds s' (qs @ [t])" unfolding i(4) by (rule queue_holds_same [OF set_task_pending_queue [of UNIV] _ h6(1)]) simp
    moreover have T': "task_of s' = task_of s5" by (simp add: i(4) h6(2))
    moreover have "num_dependees (task_of s' t) = num_dependees (task_of s3 t)" using d by (simp add: T' dep_same_def)
    ultimately show ?thesis using False others_kept_same [OF k3 d q refl] p5 d by auto
  qed
  then show "others_kept t P X (task_of s) (task_of s')" "priority (task_of s' t) = prio" "kind (task_of s' t) = GOMP_TASK_WAITING"
    "queue_holds s' (if depends c \<and> num_dependees (task_of s' t) \<noteq> 0 then qs else qs @ [t])"
    by blast+
  show "\<not> depends c \<Longrightarrow> depend_count (task_of s' t) = 0 \<and> dep_same (- {t}) (task_of s) (task_of s')"
    using all t1(3) T1 s2(1) by (simp add: s3_def dep_same_def)
  show "depend_hash (task_of s' t) = None" using all t3(3) by (simp add: dep_same_def)
qed

subsection \<open>The tasks of a taskloop\<close>

lemma taskloop_insert_effect:
  assumes "taskloop_insert P g ts s = Some s'" and "queue_holds s qs" and "distinct ts" and "set ts \<inter> set qs = {}"
    and "\<And>t. t \<in> set ts \<Longrightarrow> 0 \<le> priority (task_of s t)"
  shows "queue_holds s' (qs @ ts)" and "dep_same UNIV (task_of s) (task_of s')"
    and "priority (task_of s' x) = priority (task_of s x) \<and> kind (task_of s' x) = kind (task_of s x)"
proof -
  have "queue_holds s' (qs @ ts) \<and> dep_same UNIV (task_of s) (task_of s')
      \<and> (\<forall>x. priority (task_of s' x) = priority (task_of s x) \<and> kind (task_of s' x) = kind (task_of s x))"
    using assms
  proof (induction ts arbitrary: s qs)
    case (Cons t ts)
    obtain s1 s2 s3 where i: "insert_child P t False s = Some s1" "insert_in_group g t s1 = Some s2"
      "insert_in_team PRIORITY_INSERT_END t s2 = Some s3" "taskloop_insert P g ts (count_task s3) = Some s'"
      using Cons.prems(1) by (auto simp: bind_eq_Some_conv)
    have d: "dep_same UNIV (task_of s) (task_of s2)"
      using dep_same_trans [OF insert_child_same [OF i(1)] insert_in_group_same [OF i(2)]] .
    have q: "queue_same UNIV s s2" using queue_same_trans [OF insert_child_queue [OF i(1)] insert_in_group_queue [OF i(2)]] .
    have h2: "queue_holds s2 qs" by (rule queue_holds_same [OF q _ Cons.prems(2)]) simp
    have p2: "priority (task_of s2 x) = priority (task_of s x) \<and> kind (task_of s2 x) = kind (task_of s x)" for x
      using q by (simp add: queue_same_def)
    have h3: "queue_holds (count_task s3) (qs @ [t])" "task_of s3 = task_of s2"
      using queue_insert [OF h2 _ _ i(3)] Cons.prems(4,5) p2 by simp_all
    have "queue_holds s' ((qs @ [t]) @ ts) \<and> dep_same UNIV (task_of (count_task s3)) (task_of s')
      \<and> (\<forall>x. priority (task_of s' x) = priority (task_of (count_task s3) x) \<and> kind (task_of s' x) = kind (task_of (count_task s3) x))"
      by (rule Cons.IH [OF i(4) h3(1)]) (use Cons.prems(3-5) p2 h3(2) in auto)
    then show ?case using d p2 h3(2) by (simp add: dep_same_def)
  qed simp
  then show "queue_holds s' (qs @ ts)" "dep_same UNIV (task_of s) (task_of s')"
    "priority (task_of s' x) = priority (task_of s x) \<and> kind (task_of s' x) = kind (task_of s x)"
    by blast+
qed

lemma fold_deferred_new:
  shows "team_links (fold (\<lambda>t. deferred_new t P ic prio f c) ts s) = team_links s"
    and "team_queue (fold (\<lambda>t. deferred_new t P ic prio f c) ts s) = team_queue s"
    and "task_queued_count (fold (\<lambda>t. deferred_new t P ic prio f c) ts s) = task_queued_count s"
    and "tt_barrier (fold (\<lambda>t. deferred_new t P ic prio f c) ts s) = tt_barrier s"
    and "group_of (fold (\<lambda>t. deferred_new t P ic prio f c) ts s) = group_of s"
    and "x \<notin> set ts \<Longrightarrow> task_of (fold (\<lambda>t. deferred_new t P ic prio f c) ts s) x = task_of s x"
    and "x \<in> set ts \<Longrightarrow> priority (task_of (fold (\<lambda>t. deferred_new t P ic prio f c) ts s) x) = prio
      \<and> kind (task_of (fold (\<lambda>t. deferred_new t P ic prio f c) ts s) x) = GOMP_TASK_WAITING
      \<and> depend_count (task_of (fold (\<lambda>t. deferred_new t P ic prio f c) ts s) x) = 0
      \<and> depend_hash (task_of (fold (\<lambda>t. deferred_new t P ic prio f c) ts s) x) = None"
proof -
  have new: "team_links (deferred_new t P ic prio f c s) = team_links s \<and> team_queue (deferred_new t P ic prio f c s) = team_queue s
    \<and> task_queued_count (deferred_new t P ic prio f c s) = task_queued_count s \<and> tt_barrier (deferred_new t P ic prio f c s) = tt_barrier s
    \<and> group_of (deferred_new t P ic prio f c s) = group_of s
    \<and> (x \<noteq> t \<longrightarrow> task_of (deferred_new t P ic prio f c s) x = task_of s x)
    \<and> priority (task_of (deferred_new t P ic prio f c s) t) = prio \<and> kind (task_of (deferred_new t P ic prio f c s) t) = GOMP_TASK_WAITING
    \<and> depend_count (task_of (deferred_new t P ic prio f c s) t) = 0 \<and> depend_hash (task_of (deferred_new t P ic prio f c s) t) = None" for t s
    by (simp add: deferred_new_def gomp_init_task_def upd_def Let_def)
  let ?F = "\<lambda>ts s. fold (\<lambda>t. deferred_new t P ic prio f c) ts s"
  have all: "team_links (?F ts s) = team_links s \<and> team_queue (?F ts s) = team_queue s
    \<and> task_queued_count (?F ts s) = task_queued_count s \<and> tt_barrier (?F ts s) = tt_barrier s \<and> group_of (?F ts s) = group_of s
    \<and> (x \<notin> set ts \<longrightarrow> task_of (?F ts s) x = task_of s x)
    \<and> (x \<in> set ts \<longrightarrow> priority (task_of (?F ts s) x) = prio \<and> kind (task_of (?F ts s) x) = GOMP_TASK_WAITING
      \<and> depend_count (task_of (?F ts s) x) = 0 \<and> depend_hash (task_of (?F ts s) x) = None)"
  proof (induction ts arbitrary: s)
    case (Cons t ts)
    then show ?case using new [of t s] by (cases "x \<in> set ts"; cases "x = t") simp_all
  qed simp
  then show "team_links (?F ts s) = team_links s" "team_queue (?F ts s) = team_queue s"
    "task_queued_count (?F ts s) = task_queued_count s" "tt_barrier (?F ts s) = tt_barrier s" "group_of (?F ts s) = group_of s"
    "x \<notin> set ts \<Longrightarrow> task_of (?F ts s) x = task_of s x"
    "x \<in> set ts \<Longrightarrow> priority (task_of (?F ts s) x) = prio \<and> kind (task_of (?F ts s) x) = GOMP_TASK_WAITING
      \<and> depend_count (task_of (?F ts s) x) = 0 \<and> depend_hash (task_of (?F ts s) x) = None"
    by blast+
qed

lemma taskloop_effect:
  assumes r: "taskloop_deferred ts P ic prio f c s = Some (w, s')" and go: "\<not> task_cancelled P s" and P: "P \<notin> set ts"
    and ts: "distinct ts" "set ts \<inter> set qs = {}" "0 \<le> prio" and h: "queue_holds s qs"
  shows "dep_same (- set ts) (task_of s) (task_of s')"
    and "x \<notin> set ts \<Longrightarrow> priority (task_of s' x) = priority (task_of s x) \<and> kind (task_of s' x) = kind (task_of s x)"
    and "t \<in> set ts \<Longrightarrow> priority (task_of s' t) = prio \<and> kind (task_of s' t) = GOMP_TASK_WAITING
      \<and> depend_count (task_of s' t) = 0 \<and> depend_hash (task_of s' t) = None"
    and "queue_holds s' (qs @ ts)"
proof -
  let ?g = "taskgroup (task_of s P)"
  define s1 where "s1 = fold (\<lambda>t. deferred_new t P ic prio f c) ts s"
  note new = fold_deferred_new [where P = P and ic = ic and prio = prio and f = f and c = c and ts = ts and s = s, folded s1_def]
  define s2 where "s2 = (case ?g of None \<Rightarrow> s1 | Some g \<Rightarrow> upd_group g (\<lambda>x. x\<lparr>num_children := u64 (num_children x + int (length ts))\<rparr>) s1)"
  have s2: "task_of s2 = task_of s1" "team_links s2 = team_links s" "team_queue s2 = team_queue s" "task_queued_count s2 = task_queued_count s"
    using new(1-3) by (simp_all add: s2_def upd_group_def split: option.split)
  have "\<not> ((team_cancelled s1 \<or> group_cancelled ?g s1) \<and> \<not> cpyfn c)"
    using go new(4,5) by (simp add: task_cancelled_def group_cancelled_def split: option.splits)
  then obtain s3 where 3: "taskloop_insert P ?g ts s2 = Some s3" "s' = set_task_pending s3"
    using r by (auto simp: taskloop_deferred_def Let_def s1_def [symmetric] s2_def [symmetric])
  have q: "queue_same (- set ts) s s2" using s2 new(6) by (simp add: queue_same_def)
  have h2: "queue_holds s2 qs" by (rule queue_holds_same [OF q _ h]) (use ts(2) in auto)
  note e = taskloop_insert_effect [OF 3(1) h2 ts(1,2)]
  have pos: "0 \<le> priority (task_of s2 t)" if "t \<in> set ts" for t using new(7) [OF that] ts(3) s2(1) by simp
  have T': "task_of s' = task_of s3" by (simp add: 3(2))
  show "dep_same (- set ts) (task_of s) (task_of s')" using e(2) [OF pos] new(6) s2(1) by (simp add: dep_same_def T')
  show "x \<notin> set ts \<Longrightarrow> priority (task_of s' x) = priority (task_of s x) \<and> kind (task_of s' x) = kind (task_of s x)"
    using e(3) [OF pos, of x] new(6) [of x] s2(1) by (simp add: T')
  show "t \<in> set ts \<Longrightarrow> priority (task_of s' t) = prio \<and> kind (task_of s' t) = GOMP_TASK_WAITING
      \<and> depend_count (task_of s' t) = 0 \<and> depend_hash (task_of s' t) = None"
    using e(3) [OF pos, of t] e(2) [OF pos] new(7) [of t] s2(1) by (simp add: T' dep_same_def)
  show "queue_holds s' (qs @ ts)" unfolding 3(2) by (rule queue_holds_same [OF set_task_pending_queue [of UNIV] _ e(1) [OF pos]]) simp_all
qed

subsection \<open>The end of a parent\<close>

text \<open>\<open>gomp_clear_parent\<close> sets parent fields to null and changes nothing else that matters here.\<close>

definition parents_cleared :: "(nat \<Rightarrow> full_task) \<Rightarrow> (nat \<Rightarrow> full_task) \<Rightarrow> bool" where
  "parents_cleared T T' \<longleftrightarrow> (\<forall>x. (parent (T' x) = parent (T x) \<or> parent (T' x) = None)
     \<and> dependers (T' x) = dependers (T x) \<and> num_dependees (T' x) = num_dependees (T x) \<and> depend (T' x) = depend (T x)
     \<and> depend_count (T' x) = depend_count (T x) \<and> depend_hash (T' x) = depend_hash (T x)
     \<and> priority (T' x) = priority (T x) \<and> kind (T' x) = kind (T x))"

lemma parents_cleared_refl [simp]: "parents_cleared T T"
  by (simp add: parents_cleared_def)

lemma parents_cleared_trans: "parents_cleared T T' \<Longrightarrow> parents_cleared T' T'' \<Longrightarrow> parents_cleared T T''"
  unfolding parents_cleared_def by metis

lemma clear_parents_from_cleared: "clear_parents_from L h p T = Some T' \<Longrightarrow> parents_cleared T T'"
proof (rule clear_parents_from.raw_induct [where P = "\<lambda>L h p. parents_cleared"])
  fix walk :: "links \<Rightarrow> nat \<Rightarrow> nat \<Rightarrow> (nat \<Rightarrow> full_task) \<Rightarrow> (nat \<Rightarrow> full_task) option" and L :: links and h p :: nat and T T' :: "nat \<Rightarrow> full_task"
  let ?T1 = "T(p := (T p)\<lparr>parent := None\<rparr>)"
  assume IH: "\<And>L h p T T'. walk L h p T = Some T' \<Longrightarrow> parents_cleared T T'"
    and r: "(let T1 = ?T1 in if node_next L p = h then Some T1 else walk L h (node_next L p) T1) = Some T'"
  have 1: "parents_cleared T ?T1" by (simp add: parents_cleared_def)
  show "parents_cleared T T'"
  proof (cases "node_next L p = h")
    case False
    then show ?thesis using r parents_cleared_trans [OF 1 IH] by simp
  qed (use r 1 in simp)
qed assumption

definition cleared_team :: "task_team \<Rightarrow> task_team \<Rightarrow> bool" where
  "cleared_team s s' \<longleftrightarrow> parents_cleared (task_of s) (task_of s') \<and> team_links s' = team_links s \<and> team_queue s' = team_queue s
     \<and> task_queued_count s' = task_queued_count s"

lemma cleared_team_trans: "cleared_team s s' \<Longrightarrow> cleared_team s' s'' \<Longrightarrow> cleared_team s s''"
  using parents_cleared_trans [of "task_of s" "task_of s'" "task_of s''"] by (simp add: cleared_team_def)

lemma clear_list_cleared: "gomp_clear_parent_in_list l s = Some s' \<Longrightarrow> cleared_team s s'"
  by (auto simp: gomp_clear_parent_in_list_def cleared_team_def dest: clear_parents_from_cleared split: option.splits)

lemma clear_tree_cleared: "gomp_clear_parent_in_tree t s = Some s' \<Longrightarrow> cleared_team s s'"
proof (induction t arbitrary: s s')
  case Leaf
  then show ?case by (simp add: cleared_team_def)
next
  case (Node l k r)
  then obtain s1 s2 where "gomp_clear_parent_in_list k s = Some s1" "gomp_clear_parent_in_tree l s1 = Some s2"
    "gomp_clear_parent_in_tree r s2 = Some s'"
    by (auto simp: bind_eq_Some_conv)
  then have "cleared_team s s1" "cleared_team s1 s2" "cleared_team s2 s'" using clear_list_cleared Node.IH by blast+
  then show ?case using cleared_team_trans by blast
qed

lemma clear_parent_cleared: "gomp_clear_parent t s = Some s' \<Longrightarrow> cleared_team s s'"
proof -
  assume r: "gomp_clear_parent t s = Some s'"
  have u: "cleared_team s1 (upd t (\<lambda>x. x\<lparr>children_queue := q x\<rparr>) s1)" for s1 q
    by (simp add: cleared_team_def parents_cleared_def upd_def)
  show ?thesis
  proof (cases "priority_queue_multi_p (children_queue (task_of s t))")
    case True
    then obtain s1 where "gomp_clear_parent_in_tree (t_root (children_queue (task_of s t))) s = Some s1"
      "s' = upd t (\<lambda>x. x\<lparr>children_queue := (children_queue x)\<lparr>t_root := Leaf\<rparr>\<rparr>) s1"
      using r by (auto simp: gomp_clear_parent_def Let_def)
    then show ?thesis using cleared_team_trans [OF clear_tree_cleared u] by simp
  qed (use r clear_list_cleared in \<open>auto simp: gomp_clear_parent_def Let_def\<close>)
qed

lemma cleared_queue_same: "cleared_team s s' \<Longrightarrow> queue_same X s s'"
  by (simp add: cleared_team_def queue_same_def parents_cleared_def)

subsection \<open>The choice at the barrier\<close>

lemma best_first_props:
  assumes "qs \<noteq> []"
  shows "best_first T qs \<in> set qs" and "u \<in> set qs \<Longrightarrow> priority (T u) \<le> priority (T (best_first T qs))"
    and "best_first T qs = hd (fifo T qs (priority (T (best_first T qs))))"
proof -
  let ?M = "Max ((\<lambda>u. priority (T u)) ` set qs)"
  have "?M \<in> (\<lambda>u. priority (T u)) ` set qs" using assms by (intro Max_in) auto
  then have "filter (\<lambda>t. priority (T t) = ?M) qs \<noteq> []" by (auto simp: filter_empty_conv)
  then have b: "best_first T qs \<in> set qs" "priority (T (best_first T qs)) = ?M"
    using hd_in_set by (fastforce simp: best_first_def)+
  show "best_first T qs \<in> set qs" by (rule b(1))
  show "u \<in> set qs \<Longrightarrow> priority (T u) \<le> priority (T (best_first T qs))" unfolding b(2) by simp
  show "best_first T qs = hd (fifo T qs (priority (T (best_first T qs))))" unfolding b(2) by (simp add: best_first_def fifo_def)
qed

lemma queue_empty_p:
  assumes "queue_holds s qs"
  shows "priority_queue_empty_p (team_queue s) \<longleftrightarrow> qs = []"
proof -
  let ?m = "fifo (task_of s) qs" and ?q = "team_queue s"
  have q: "pq_ok (team_links s) ?q ?m" using assms by (simp add: queue_holds_def)
  have m: "(\<forall>p. ?m p = []) \<longleftrightarrow> qs = []" by (cases qs) (auto simp: fifo_def)
  show ?thesis
  proof (cases "t_root ?q = Leaf")
    case True
    then have "list_of_tasks (team_links s) (pq_l ?q) (?m 0)" "\<And>p. p \<noteq> 0 \<Longrightarrow> ?m p = []" using q by (auto simp: pq_ok_def)
    then have "tasks (pq_l ?q) = None \<longleftrightarrow> (\<forall>p. ?m p = [])" by (auto simp: list_of_tasks_def split: if_splits) (metis list.distinct(1))
    then show ?thesis using True m by (simp add: priority_queue_empty_p_def priority_queue_multi_p_def)
  next
    case False
    then obtain k where "k \<in> set_tree (t_root ?q)" by (cases "t_root ?q") auto
    then have "?m (list_priority k) \<noteq> []" using pq_key [OF q] by blast
    then show ?thesis using False m by (auto simp: priority_queue_empty_p_def priority_queue_multi_p_def)
  qed
qed

lemma queue_next:
  assumes h: "queue_holds s qs" and ne: "qs \<noteq> []" and w: "\<forall>t \<in> set qs. kind (task_of s t) = GOMP_TASK_WAITING"
  shows "priority_queue_next_task (plain_tasks s) (team_queue s) None = (Some (best_first (task_of s) qs), True)"
proof -
  let ?T = "task_of s" and ?m = "fifo (task_of s) qs" and ?q = "team_queue s"
  let ?b = "best_first ?T qs"
  have q: "pq_ok (team_links s) ?q ?m" using h by (simp add: queue_holds_def)
  note b = best_first_props [OF ne, where T = ?T]
  show ?thesis
  proof (cases "t_root ?q = Leaf")
    case True
    then have m: "list_of_tasks (team_links s) (pq_l ?q) (?m 0)" "\<And>p. p \<noteq> 0 \<Longrightarrow> ?m p = []" using q by (auto simp: pq_ok_def)
    have "?b \<in> set (?m (priority (?T ?b)))" using b(1) by (simp add: fifo_mem)
    then have ne: "?m (priority (?T ?b)) \<noteq> []" by (cases "?m (priority (?T ?b))") auto
    then have "priority (?T ?b) = 0" using m(2) [of "priority (?T ?b)"] by blast
    moreover from this have "?m 0 \<noteq> []" using ne by simp
    ultimately have "?b = hd (?m 0)" using b(3) by simp
    then have "tasks (pq_l ?q) = Some ?b" using m(1) \<open>?m 0 \<noteq> []\<close> by (simp add: list_of_tasks_def split: if_splits)
    then show ?thesis using True by (simp add: priority_queue_next_task_def)
  next
    case False
    have tr: "kind (plain_tasks s t) = kind (?T t)" "priority (plain_tasks s t) = priority (?T t)" for t
      by (simp_all add: gomp_task.truncate_def)
    have wf: "waiting_first (plain_tasks s) ?m" unfolding waiting_first_def
    proof (intro allI ballI conjI impI)
      fix p x assume x: "x \<in> set (?m p)"
      then show "priority (plain_tasks s x) = p" by (simp add: fifo_mem tr)
      have "hd (?m p) \<in> set (?m p)" using x by (cases "?m p") auto
      then show "kind (plain_tasks s (hd (?m p))) = GOMP_TASK_WAITING" using w by (simp add: fifo_mem tr)
    qed
    note n = next_task_1_best [OF q False wf]
    have "\<not> no_waiting (plain_tasks s) ?m"
      using b(1) w by (auto simp: no_waiting_def fifo_mem tr)
    then obtain a where a: "priority_tree_next_task_1 (plain_tasks s) (t_root ?q) = Some a" "best_task (plain_tasks s) ?m a"
      using n by (auto split: option.splits)
    then obtain p where p: "?m p \<noteq> []" "a = hd (?m p)" "\<forall>p' > p. \<forall>x \<in> set (?m p'). kind (plain_tasks s x) \<noteq> GOMP_TASK_WAITING"
      by (auto simp: best_task_def)
    have am: "a \<in> set qs" "priority (?T a) = p" using p(1,2) hd_in_set [OF p(1)] by (simp_all add: fifo_mem)
    have "\<not> p < priority (?T ?b)" using p(3) b(1) w by (auto simp: fifo_mem tr)
    then have "priority (?T ?b) = p" using b(2) [OF am(1)] am(2) by linarith
    then have "a = ?b" using b(3) p(2) by simp
    moreover have "priority_queue_next_task (plain_tasks s) ?q None = (Some a, True)"
      using False a(1) by (cases "t_root ?q") (simp_all add: priority_queue_next_task_def priority_tree_next_task_def)
    ultimately show ?thesis by simp
  qed
qed

text \<open>The first half of a round of \<open>gomp_barrier_handle_tasks\<close>.\<close>

lemma barrier_pick_choice:
  assumes h: "queue_holds s qs" and w: "\<forall>t \<in> set qs. kind (task_of s t) = GOMP_TASK_WAITING"
    and r: "barrier_task_pick s = Some (t, c, s')"
  shows "t = (if qs = [] then None else Some (best_first (task_of s) qs))"
proof (cases "qs = []")
  case True
  then show ?thesis using r queue_empty_p [OF h] by (simp add: barrier_task_pick_def)
next
  case False
  then show ?thesis using r queue_empty_p [OF h] queue_next [OF h False w]
    by (auto simp: barrier_task_pick_def bind_eq_Some_conv split: if_splits)
qed

end
