(* ===== verification/TeamTasks.thy ===== *)
theory TeamTasks
  imports TeamQueue
begin

text \<open>
  Whole runs of the tasks of a team: tasks of any parents are created, with and without \<open>depend\<close> clauses
  or by taskloops, picked from the queue by any wait, run and finished, also when their parent has
  ended before them. No task is lost, none is queued twice, and the team is never stuck: the
  composition of the queue of the team with the dependences of each parent. The steps at the barrier and
  the quiet operations (waits, groups, undeferred tasks) are shown to be steps of a run. Not in a run:
  target tasks, creations in a cancelled region, negative priorities.
\<close>

subsection \<open>Runs\<close>

text \<open>What has happened so far: the tasks seen, the children with clauses of each parent in the order of
  their creation, their clauses, those of them that have not finished, the ready tasks in the order in
  which they became ready, the tasks picked and not finished, all that have not finished, and the parents
  that have let go of their children because they have ended.\<close>

record task_history =
  seen :: "nat set"
  kids :: "nat \<Rightarrow> nat list"
  given :: "nat \<Rightarrow> nat \<Rightarrow> (int \<times> bool) list"
  waiting_kids :: "nat \<Rightarrow> nat set"
  ready_line :: "nat list"
  busy :: "nat set"
  unfinished :: "nat set"
  gone :: "nat set"

definition no_history :: task_history where
  "no_history = \<lparr>seen = {}, kids = (\<lambda>P. []), given = (\<lambda>P t. []), waiting_kids = (\<lambda>P. {}), ready_line = [], busy = {}, unfinished = {}, gone = {}\<rparr>"

definition after_create :: "nat \<Rightarrow> nat \<Rightarrow> task_clauses \<Rightarrow> bool \<Rightarrow> task_history \<Rightarrow> task_history" where
  "after_create t P c queued h = h\<lparr>seen := insert t (insert P (seen h)),
     kids := (if depends c then (kids h)(P := kids h P @ [t]) else kids h),
     given := (if depends c then (given h)(P := (given h P)(t := given_clauses (dep_nout c) (dep_addrs c))) else given h),
     waiting_kids := (if depends c then (waiting_kids h)(P := insert t (waiting_kids h P)) else waiting_kids h),
     ready_line := (if queued then ready_line h @ [t] else ready_line h),
     unfinished := insert t (unfinished h)\<rparr>"

definition after_pick :: "nat \<Rightarrow> task_history \<Rightarrow> task_history" where
  "after_pick t h = h\<lparr>ready_line := remove1 t (ready_line h), busy := insert t (busy h)\<rparr>"

definition after_finish :: "nat \<Rightarrow> nat list \<Rightarrow> task_history \<Rightarrow> task_history" where
  "after_finish t ready h = h\<lparr>waiting_kids := (\<lambda>P. waiting_kids h P - {t}), ready_line := ready_line h @ ready,
     busy := busy h - {t}, unfinished := unfinished h - {t}\<rparr>"

text \<open>The tasks \<open>ts\<close> of a taskloop have no \<open>depend\<close> clauses.\<close>

definition after_loop :: "nat list \<Rightarrow> nat \<Rightarrow> task_history \<Rightarrow> task_history" where
  "after_loop ts P h = h\<lparr>seen := set ts \<union> insert P (seen h), ready_line := ready_line h @ ts, unfinished := set ts \<union> unfinished h\<rparr>"

definition after_end :: "nat \<Rightarrow> task_history \<Rightarrow> task_history" where
  "after_end P h = h\<lparr>seen := insert P (seen h), gone := insert P (gone h)\<rparr>"

text \<open>Other operations (groups, waits, undeferred tasks and what tasks do) leave the tasks of the run as they are.\<close>

definition others_only :: "task_history \<Rightarrow> task_team \<Rightarrow> task_team \<Rightarrow> bool" where
  "others_only h s s' \<longleftrightarrow> dep_same (seen h) (task_of s) (task_of s') \<and> queue_same (seen h) s s'
    \<and> (\<forall>P. P \<notin> seen h \<longrightarrow> depend_hash (task_of s' P) = depend_hash (task_of s P) \<or> depend_hash (task_of s' P) = None)"

text \<open>The queue of the children of \<open>P\<close>, which \<open>gomp_clear_parent\<close> walks, holds children of \<open>P\<close> only.\<close>

definition own_children :: "nat \<Rightarrow> task_team \<Rightarrow> task_team \<Rightarrow> bool" where
  "own_children P s s' \<longleftrightarrow> (\<forall>x. parent (task_of s' x) = parent (task_of s x) \<or> parent (task_of s x) = Some P)"

inductive team_run :: "task_team \<Rightarrow> task_history \<Rightarrow> bool" where
  start: "(\<And>P a. chain_of P a (task_of s) = []) \<Longrightarrow> queue_holds s [] \<Longrightarrow> team_run s no_history"
| create: "team_run s h \<Longrightarrow> t \<notin> seen h \<Longrightarrow> t \<noteq> P \<Longrightarrow> P \<notin> gone h \<Longrightarrow> 0 \<le> prio \<Longrightarrow> \<not> task_cancelled P s
    \<Longrightarrow> deferred_task t P ic prio f c s = Some (w, s')
    \<Longrightarrow> team_run s' (after_create t P c (depends c \<longrightarrow> num_dependees (task_of s' t) = 0) h)"
| loop: "team_run s h \<Longrightarrow> distinct ts \<Longrightarrow> set ts \<inter> insert P (seen h) = {} \<Longrightarrow> P \<notin> gone h \<Longrightarrow> 0 \<le> prio \<Longrightarrow> \<not> task_cancelled P s
    \<Longrightarrow> taskloop_deferred ts P ic prio f c s = Some (k, s') \<Longrightarrow> team_run s' (after_loop ts P h)"
| pick: "team_run s h \<Longrightarrow> t \<in> set (ready_line h) \<Longrightarrow> gomp_task_run_pre t par s = Some (b, s')
    \<Longrightarrow> team_run s' (after_pick t h)"
| finish: "team_run s h \<Longrightarrow> t \<in> busy h \<Longrightarrow> gomp_task_run_post_handle_depend t s = Some (n, s')
    \<Longrightarrow> team_run s' (after_finish t (made_ready s t) h)"
| clear: "team_run s h \<Longrightarrow> gomp_clear_parent P s = Some s' \<Longrightarrow> own_children P s s' \<Longrightarrow> team_run s' (after_end P h)"
| other: "team_run s h \<Longrightarrow> others_only h s s' \<Longrightarrow> team_run s' h"

subsection \<open>The invariant\<close>

definition blocked_kids :: "task_team \<Rightarrow> task_history \<Rightarrow> nat set" where
  "blocked_kids s h = {t. \<exists>P. t \<in> waiting_kids h P \<and> num_dependees (task_of s t) \<noteq> 0}"

text \<open>The children with clauses of a parent that has ended: their pointer to it is null, or stale when they were held back.\<close>

definition orphans_ok :: "nat \<Rightarrow> nat list \<Rightarrow> (nat \<Rightarrow> (int \<times> bool) list) \<Rightarrow> nat set \<Rightarrow> (nat \<Rightarrow> full_task) \<Rightarrow> bool" where
  "orphans_ok P cs D U T \<longleftrightarrow> dep_core cs U T
    \<and> (\<forall>t \<in> U. (parent (T t) = None \<or> parent (T t) = Some P) \<and> clauses (depend (T t)) = D t
         \<and> depend_count (T t) = length (depend (T t)) \<and> depend (T t) \<noteq> [])"

definition family_ok :: "nat \<Rightarrow> task_team \<Rightarrow> task_history \<Rightarrow> bool" where
  "family_ok P s h \<longleftrightarrow> (if P \<in> gone h then orphans_ok P (kids h P) (given h P) (waiting_kids h P) (task_of s)
     else dep_run P s (kids h P) (given h P) (waiting_kids h P) \<and> (\<forall>t \<in> set (kids h P). parent (task_of s t) = Some P))"

text \<open>Who belongs where.\<close>

definition families :: "task_team \<Rightarrow> task_history \<Rightarrow> bool" where
  "families s h \<longleftrightarrow> (\<forall>P. set (kids h P) \<subseteq> seen h) \<and> (\<forall>P. kids h P \<noteq> [] \<longrightarrow> P \<in> seen h)
    \<and> (\<forall>P Q. P \<noteq> Q \<longrightarrow> set (kids h P) \<inter> set (kids h Q) = {})
    \<and> unfinished h \<subseteq> seen h \<and> gone h \<subseteq> seen h \<and> (\<forall>P. waiting_kids h P \<subseteq> set (kids h P) \<inter> unfinished h)
    \<and> (\<forall>P. P \<notin> seen h \<longrightarrow> (\<forall>a. chain_of P a (task_of s) = []))
    \<and> (\<forall>t \<in> unfinished h. (\<forall>P. t \<notin> waiting_kids h P) \<longrightarrow> depend_count (task_of s t) = 0)"

definition in_line :: "task_team \<Rightarrow> task_history \<Rightarrow> bool" where
  "in_line s h \<longleftrightarrow> queue_holds s (ready_line h) \<and> unfinished h = set (ready_line h) \<union> busy h \<union> blocked_kids s h
    \<and> set (ready_line h) \<inter> busy h = {} \<and> blocked_kids s h \<inter> (set (ready_line h) \<union> busy h) = {}
    \<and> (\<forall>t \<in> unfinished h - busy h. kind (task_of s t) = GOMP_TASK_WAITING \<and> 0 \<le> priority (task_of s t))"

definition team_inv :: "task_team \<Rightarrow> task_history \<Rightarrow> bool" where
  "team_inv s h \<longleftrightarrow> (\<forall>P. family_ok P s h) \<and> families s h \<and> in_line s h"

lemma team_invD:
  assumes "team_inv s h"
  shows "family_ok P s h" "families s h" "in_line s h"
    and "set (kids h P) \<subseteq> seen h" "kids h P \<noteq> [] \<Longrightarrow> P \<in> seen h" "P \<noteq> Q \<Longrightarrow> set (kids h P) \<inter> set (kids h Q) = {}"
    and "unfinished h \<subseteq> seen h" "waiting_kids h P \<subseteq> set (kids h P)" "waiting_kids h P \<subseteq> unfinished h"
    and "queue_holds s (ready_line h)" "unfinished h = set (ready_line h) \<union> busy h \<union> blocked_kids s h"
proof -
  show "family_ok P s h" and f: "families s h" and l: "in_line s h"
    using assms by (simp_all add: team_inv_def)
  show "set (kids h P) \<subseteq> seen h" "kids h P \<noteq> [] \<Longrightarrow> P \<in> seen h" "P \<noteq> Q \<Longrightarrow> set (kids h P) \<inter> set (kids h Q) = {}"
    "unfinished h \<subseteq> seen h" "waiting_kids h P \<subseteq> set (kids h P)" "waiting_kids h P \<subseteq> unfinished h"
    using f by (simp_all add: families_def)
  show "queue_holds s (ready_line h)" "unfinished h = set (ready_line h) \<union> busy h \<union> blocked_kids s h"
    using l by (simp_all add: in_line_def)
qed

text \<open>A step that leaves the children of a parent alone.\<close>

lemma dep_run_none:
  assumes "dep_run Q s [] D U"
  shows "U = {}" and "chain_of Q a (task_of s) = []"
proof -
  have inv: "dep_inv Q [] U (task_of s)" using dep_run_inv [OF assms] by simp
  then show U: "U = {}" by (simp add: dep_inv_def)
  have "chain_inv U (task_of s) a (chain_of Q a (task_of s))" using inv unfolding dep_inv_def by blast
  then show "chain_of Q a (task_of s) = []" by (simp add: chain_inv_def live_def U)
qed

lemma dep_run_elsewhere:
  assumes "dep_run Q s cs D U" and "kid_same (set cs) (task_of s) (task_of s')"
    and "depend_hash (task_of s' Q) = depend_hash (task_of s Q) \<or> cs = [] \<and> (\<forall>a. chain_of Q a (task_of s') = [])"
  shows "dep_run Q s' cs D U"
proof (cases "cs = []")
  case True
  have "chain_of Q a (task_of s') = []" for a
    using assms(3) dep_run_none(2) [OF assms(1) [unfolded True], of a] by (auto simp: chain_of_def)
  then show ?thesis using dep_run.start [of Q s'] dep_run_none(1) [OF assms(1) [unfolded True]] True by simp
next
  case False
  then show ?thesis using dep_run.other [OF assms(1,2)] assms(3) by blast
qed

lemma orphans_same:
  assumes "orphans_ok P cs D U T" and "kid_same U T T'"
  shows "orphans_ok P cs D U T'"
proof -
  have k: "elems T' x = elems T x" "num_dependees (T' x) = num_dependees (T x)" "depend (T' x) = depend (T x)"
    "parent (T' x) = parent (T x)" "depend_count (T' x) = depend_count (T x)" if "x \<in> U" for x
    using assms(2) that by (simp_all add: kid_same_def elems_def)
  have "dep_core cs U T'" by (rule dep_core_cong [where T = T]) (use assms(1) k in \<open>simp_all add: orphans_ok_def\<close>)
  then show ?thesis using assms(1) k by (simp add: orphans_ok_def)
qed

text \<open>A family that a step does not touch.\<close>

lemma family_elsewhere:
  assumes f: "family_ok Q s h" and w: "waiting_kids h Q \<subseteq> set (kids h Q)"
    and k: "kid_same (set (kids h Q)) (task_of s) (task_of s')"
    and hash: "depend_hash (task_of s' Q) = depend_hash (task_of s Q) \<or> kids h Q = [] \<and> (\<forall>a. chain_of Q a (task_of s') = [])"
    and h': "kids h' Q = kids h Q" "given h' Q = given h Q" "waiting_kids h' Q = waiting_kids h Q" "Q \<in> gone h' \<longleftrightarrow> Q \<in> gone h"
  shows "family_ok Q s' h'"
proof (cases "Q \<in> gone h")
  case True
  have "kid_same (waiting_kids h Q) (task_of s) (task_of s')" using k w unfolding kid_same_def by blast
  then show ?thesis using True f h' orphans_same by (simp add: family_ok_def)
next
  case False
  have "parent (task_of s' t) = Some Q" if "t \<in> set (kids h Q)" for t
    using f False k that by (simp add: family_ok_def kid_same_def)
  then show ?thesis using False f h' dep_run_elsewhere [OF _ k hash] by (simp add: family_ok_def)
qed

text \<open>The tasks in the chains of a parent are its unfinished children with clauses.\<close>

definition small :: "task_history \<Rightarrow> bool" where
  "small h \<longleftrightarrow> (\<forall>P. length (kids h P) < 2 ^ 64)"

lemma kids_inv:
  assumes "team_inv s h" and "small h" and "P \<notin> gone h"
  shows "dep_inv P (kids h P) (waiting_kids h P) (task_of s)" and "clauses_kept P (given h P) (waiting_kids h P) (task_of s)"
proof -
  have "dep_run P s (kids h P) (given h P) (waiting_kids h P)" using team_invD(1) [OF assms(1), of P] assms(3) by (simp add: family_ok_def)
  then show "dep_inv P (kids h P) (waiting_kids h P) (task_of s)" "clauses_kept P (given h P) (waiting_kids h P) (task_of s)"
    using dep_run_inv assms(2) unfolding small_def by blast+
qed

lemma orphans:
  assumes "team_inv s h" and "small h"
  shows "orphans_ok P (kids h P) (given h P) (waiting_kids h P) (task_of s)"
proof (cases "P \<in> gone h")
  case True
  then show ?thesis using team_invD(1) [OF assms(1), of P] by (simp add: family_ok_def)
next
  case False
  then show ?thesis using dep_inv_core kids_inv [OF assms False] by (auto simp: orphans_ok_def clauses_kept_def)
qed

lemma kids_core:
  assumes "team_inv s h" and "small h"
  shows "dep_core (kids h P) (waiting_kids h P) (task_of s)"
    and "t \<in> waiting_kids h P \<Longrightarrow> clauses (depend (task_of s t)) = given h P t"
  using orphans [OF assms, of P] by (simp_all add: orphans_ok_def)


lemma kids_chains:
  assumes "team_inv s h" and "small h" and "P \<notin> gone h"
  shows "chains_in P (waiting_kids h P) (task_of s)"
  unfolding chains_in_def
proof (intro allI subsetI)
  fix a x assume x: "x \<in> fst ` set (chain_of P a (task_of s))"
  have "chain_inv (waiting_kids h P) (task_of s) a (chain_of P a (task_of s))"
    using kids_inv(1) [OF assms] unfolding dep_inv_def by blast
  then have "set (chain_of P a (task_of s)) = live (waiting_kids h P) (task_of s) a" by (simp add: chain_inv_def)
  then show "x \<in> waiting_kids h P" using x by (auto simp: live_def)
qed

lemma one_family:
  assumes "team_inv s h" and "t \<in> waiting_kids h P" and "t \<in> waiting_kids h Q"
  shows "P = Q"
proof (rule ccontr)
  assume "P \<noteq> Q"
  then show False using team_invD(6) [OF assms(1)] team_invD(8) [OF assms(1)] assms(2,3) by blast
qed

subsection \<open>Creation\<close>

lemma after_create_simps [simp]:
  "seen (after_create t P c q h) = insert t (insert P (seen h))"
  "unfinished (after_create t P c q h) = insert t (unfinished h)" "gone (after_create t P c q h) = gone h" "busy (after_create t P c q h) = busy h"
  "ready_line (after_create t P c q h) = (if q then ready_line h @ [t] else ready_line h)"
  "kids (after_create t P c q h) Q = (if depends c \<and> Q = P then kids h P @ [t] else kids h Q)"
  "waiting_kids (after_create t P c q h) Q = (if depends c \<and> Q = P then insert t (waiting_kids h P) else waiting_kids h Q)"
  "given (after_create t P c q h) Q = (if depends c \<and> Q = P then (given h P)(t := given_clauses (dep_nout c) (dep_addrs c)) else given h Q)"
  by (simp_all add: after_create_def)

lemma small_create: "small (after_create t P c q h) \<Longrightarrow> small h"
  unfolding small_def
proof
  fix Q assume "\<forall>P'. length (kids (after_create t P c q h) P') < 2 ^ 64"
  moreover have "length (kids h Q) \<le> length (kids (after_create t P c q h) Q)" by simp
  ultimately show "length (kids h Q) < 2 ^ 64" by (meson order_le_less_trans)
qed

lemma create_inv:
  assumes inv: "team_inv s h" and t: "t \<notin> seen h" "t \<noteq> P" "P \<notin> gone h" and prio: "0 \<le> prio"
    and go: "\<not> task_cancelled P s" and r: "deferred_task t P ic prio f c s = Some (w, s')"
  defines "h' \<equiv> after_create t P c (depends c \<longrightarrow> num_dependees (task_of s' t) = 0) h"
  assumes sm': "small h'"
  shows "team_inv s' h'"
proof -
  let ?T = "task_of s" and ?T' = "task_of s'" and ?W = "waiting_kids h P"
  have sm: "small h" using sm' small_create unfolding h'_def by blast
  have new: "t \<notin> unfinished h" "t \<notin> set (kids h Q)" "t \<notin> waiting_kids h Q" for Q
    using t(1) team_invD(4,7,8) [OF inv] by blast+
  have nq: "t \<notin> set (ready_line h)" using new(1) team_invD(11) [OF inv] by blast
  note e = deferred_task_effect [OF r go t(2) kids_chains [OF inv sm t(3)] team_invD(10) [OF inv] nq prio]
  have old: "priority (?T' x) = priority (?T x)" "kind (?T' x) = kind (?T x)" "num_dependees (?T' x) = num_dependees (?T x)"
    "x \<noteq> P \<Longrightarrow> depend_hash (?T' x) = depend_hash (?T x)" if "x \<noteq> t" for x
    using e(1) that by (simp_all add: others_kept_def)
  have chain_t: "chain_of t a ?T' = []" for a using e(4) by (simp add: chain_of_def)
  have fams: "family_ok Q s' h'" for Q
  proof (cases "depends c \<and> Q = P")
    case True
    have run: "dep_run P s (kids h P) (given h P) ?W" and par: "\<And>x. x \<in> set (kids h P) \<Longrightarrow> parent (?T x) = Some P"
      using team_invD(1) [OF inv, of P] t(3) by (simp_all add: family_ok_def)
    have run': "dep_run P s' (kids h' P) (given h' P) (waiting_kids h' P)"
      using dep_run.create [OF run new(2) t(2) _ _ go r] True by (simp add: h'_def depends_def)
    have "length (kids h' P) < 2 ^ 64" using True sm' unfolding small_def by blast
    then have k: "clauses_kept P (given h' P) (waiting_kids h' P) ?T'" using dep_run_inv [OF run'] by blast
    have "parent (?T' x) = Some P" if x: "x \<in> set (kids h' P)" for x
    proof (cases "x \<in> waiting_kids h' P")
      case True
      then show ?thesis using k by (simp add: clauses_kept_def)
    next
      case no: False
      then have "x \<noteq> t" "x \<notin> ?W" "x \<in> set (kids h P)" using x True by (auto simp: h'_def)
      then show ?thesis using e(1) par by (simp add: others_kept_def)
    qed
    then show ?thesis using run' True t(3) by (simp add: family_ok_def h'_def)
  next
    case False
    have kept: "kid_same (set (kids h Q)) ?T ?T'"
    proof (cases "depends c")
      case True
      then have "set (kids h Q) \<inter> ?W = {}" using False team_invD(6) [OF inv, of Q P] team_invD(8) [OF inv, of P] by blast
      then have "x \<noteq> t \<and> x \<notin> ?W" if "x \<in> set (kids h Q)" for x using that new(2) by blast
      then show ?thesis using e(1) by (simp add: kid_same_def others_kept_def)
    next
      case no: False
      have "set (kids h Q) \<subseteq> - {t}" using new(2) by blast
      then show ?thesis using dep_kid_same e(5) [OF no] by blast
    qed
    have hash: "depend_hash (?T' Q) = depend_hash (?T Q) \<or> kids h Q = [] \<and> (\<forall>a. chain_of Q a ?T' = [])"
    proof (cases "Q = t")
      case True
      then show ?thesis using team_invD(5) [OF inv, of t] t(1) chain_t by blast
    next
      case nt: False
      show ?thesis
      proof (cases "Q = P")
        case True
        then show ?thesis using False e(5) t(2) by (auto simp: dep_same_def)
      qed (use old(4) [OF nt] in blast)
    qed
    show ?thesis
      by (rule family_elsewhere [OF team_invD(1) [OF inv] team_invD(8) [OF inv] kept hash]) (use False in \<open>auto simp: h'_def\<close>)
  qed
  let ?q = "depends c \<longrightarrow> num_dependees (?T' t) = 0"
  have fam: "families s h" and lin: "in_line s h" by (rule team_invD(2,3) [OF inv])+
  have "families s' h'" unfolding families_def
  proof (intro conjI allI impI ballI)
    fix Q
    show "set (kids h' Q) \<subseteq> seen h'" using team_invD(4) [OF inv, of Q] team_invD(4) [OF inv, of P] by (auto simp: h'_def)
    show "Q \<in> seen h'" if "kids h' Q \<noteq> []" using that team_invD(5) [OF inv, of Q] by (auto simp: h'_def split: if_splits)
    show "waiting_kids h' Q \<subseteq> set (kids h' Q) \<inter> unfinished h'"
      using team_invD(8,9) [OF inv, of Q] team_invD(8,9) [OF inv, of P] by (auto simp: h'_def)
    show "chain_of Q a ?T' = []" if "Q \<notin> seen h'" for a
    proof -
      have "Q \<noteq> t" "Q \<noteq> P" "Q \<notin> seen h" using that by (auto simp: h'_def)
      then show ?thesis using old(4) [of Q] fam by (simp add: families_def chain_of_def)
    qed
  next
    fix Q R :: nat assume "Q \<noteq> R"
    then show "set (kids h' Q) \<inter> set (kids h' R) = {}"
      using team_invD(6) [OF inv, of Q R] new(2) [of Q] new(2) [of R] by (auto simp: h'_def)
  next
    show "unfinished h' \<subseteq> seen h'" using team_invD(7) [OF inv] by (auto simp: h'_def)
  next
    show "gone h' \<subseteq> seen h'" using fam by (auto simp: families_def h'_def)
  next
    fix x assume x: "x \<in> unfinished h'" "\<forall>Q. x \<notin> waiting_kids h' Q"
    show "depend_count (?T' x) = 0"
    proof (cases "x = t")
      case True
      then have "\<not> depends c" using spec [OF x(2), of P] by (auto simp: h'_def)
      then show ?thesis using e(5) True by blast
    next
      case False
      have w: "x \<notin> waiting_kids h Q" for Q using x(2) by (auto simp: h'_def split: if_splits)
      then have "depend_count (?T x) = 0" using x(1) False fam by (simp add: families_def h'_def)
      then show ?thesis using e(1) w [of P] False by (simp add: others_kept_def)
    qed
  qed
  moreover have "in_line s' h'"
  proof -
    have b: "blocked_kids s' h' = blocked_kids s h \<union> (if ?q then {} else {t})"
    proof (rule set_eqI)
      fix x
      show "x \<in> blocked_kids s' h' \<longleftrightarrow> x \<in> blocked_kids s h \<union> (if ?q then {} else {t})"
      proof (cases "x = t")
        case True
        then show ?thesis using new(3) by (auto simp: blocked_kids_def h'_def)
      next
        case False
        then show ?thesis using old(3) [OF False] by (auto simp: blocked_kids_def h'_def)
      qed
    qed
    have nb: "t \<notin> blocked_kids s h" "t \<notin> busy h" using new(1) team_invD(11) [OF inv] by blast+
    have l: "unfinished h = set (ready_line h) \<union> busy h \<union> blocked_kids s h" "set (ready_line h) \<inter> busy h = {}"
      "blocked_kids s h \<inter> (set (ready_line h) \<union> busy h) = {}"
      "\<And>x. x \<in> unfinished h - busy h \<Longrightarrow> kind (?T x) = GOMP_TASK_WAITING \<and> 0 \<le> priority (?T x)"
      using lin by (auto simp: in_line_def)
    have kinds: "kind (?T' x) = GOMP_TASK_WAITING \<and> 0 \<le> priority (?T' x)" if x: "x \<in> unfinished h' - busy h'" for x
    proof (cases "x = t")
      case True
      then show ?thesis using e(2,3) prio by simp
    next
      case False
      then show ?thesis using old(1,2) [OF False] l(4) [of x] x by (simp add: h'_def)
    qed
    show ?thesis unfolding in_line_def
    proof (intro conjI ballI)
      show "queue_holds s' (ready_line h')" using e(6) by (auto simp: h'_def)
      show "unfinished h' = set (ready_line h') \<union> busy h' \<union> blocked_kids s' h'" using l(1) by (simp add: b) (simp add: h'_def)
      show "set (ready_line h') \<inter> busy h' = {}" using l(2) nb by (auto simp: h'_def)
      show "blocked_kids s' h' \<inter> (set (ready_line h') \<union> busy h') = {}" unfolding b using l(3) nb nq by (auto simp: h'_def)
    qed (use kinds in blast)+
  qed
  ultimately show ?thesis using fams by (simp add: team_inv_def)
qed

subsection \<open>Picking a task\<close>

lemma after_pick_simps [simp]:
  "seen (after_pick t h) = seen h" "unfinished (after_pick t h) = unfinished h" "busy (after_pick t h) = insert t (busy h)"
  "ready_line (after_pick t h) = remove1 t (ready_line h)" "kids (after_pick t h) = kids h"
  "waiting_kids (after_pick t h) = waiting_kids h" "gone (after_pick t h) = gone h" "given (after_pick t h) = given h"
  by (simp_all add: after_pick_def)

lemma families_same:
  assumes "families s h" and "\<And>x. depend_count (task_of s' x) = depend_count (task_of s x)"
    and "\<And>x. depend_hash (task_of s' x) = depend_hash (task_of s x)"
  shows "families s' h"
  using assms by (simp add: families_def chain_of_def)

lemma pick_inv:
  assumes inv: "team_inv s h" and t: "t \<in> set (ready_line h)" and r: "gomp_task_run_pre t par s = Some (b, s')"
  shows "team_inv s' (after_pick t h)"
proof -
  have d: "dep_same UNIV (task_of s) (task_of s')" by (rule run_pre_same [OF r])
  have q: "queue_holds s (ready_line h)" by (rule team_invD(10) [OF inv])
  note e = queue_run_pre [OF q t r]
  have "family_ok Q s' (after_pick t h)" for Q
    by (rule family_elsewhere [OF team_invD(1) [OF inv] team_invD(8) [OF inv] dep_kid_same [OF d subset_UNIV]])
      (use d in \<open>simp_all add: dep_same_def\<close>)
  moreover have "families s' (after_pick t h)"
    using families_same [OF team_invD(2) [OF inv], of s'] d by (simp add: families_def dep_same_def)
  moreover have "in_line s' (after_pick t h)"
  proof -
    have l: "unfinished h = set (ready_line h) \<union> busy h \<union> blocked_kids s h" "set (ready_line h) \<inter> busy h = {}"
      "blocked_kids s h \<inter> (set (ready_line h) \<union> busy h) = {}"
      "\<And>x. x \<in> unfinished h - busy h \<Longrightarrow> kind (task_of s x) = GOMP_TASK_WAITING \<and> 0 \<le> priority (task_of s x)"
      using team_invD(3) [OF inv] by (auto simp: in_line_def)
    have dist: "distinct (ready_line h)" using q by (simp add: queue_holds_def)
    have b: "blocked_kids s' (after_pick t h) = blocked_kids s h" using d by (simp add: blocked_kids_def dep_same_def)
    have "kind (task_of s' x) = GOMP_TASK_WAITING \<and> 0 \<le> priority (task_of s' x)" if "x \<in> unfinished h" "x \<notin> insert t (busy h)" for x
      using e(3,4) [of x] l(4) [of x] that by simp
    moreover have "set (remove1 t (ready_line h)) = set (ready_line h) - {t}" using dist by simp
    ultimately show ?thesis using e(1) l(1-3) t by (auto simp: in_line_def b)
  qed
  ultimately show ?thesis by (simp add: team_inv_def)
qed

subsection \<open>The end of a task\<close>

lemma after_finish_simps [simp]:
  "seen (after_finish t xs h) = seen h" "unfinished (after_finish t xs h) = unfinished h - {t}" "busy (after_finish t xs h) = busy h - {t}"
  "ready_line (after_finish t xs h) = ready_line h @ xs" "kids (after_finish t xs h) = kids h"
  "waiting_kids (after_finish t xs h) = (\<lambda>P. waiting_kids h P - {t})" "gone (after_finish t xs h) = gone h" "given (after_finish t xs h) = given h"
  by (simp_all add: after_finish_def)

lemma post_handle_depend_effect:
  assumes r: "gomp_task_run_post_handle_depend t s = Some (n, s')" and el: "distinct (elems (task_of s) t)"
    and dc: "depend_count (task_of s t) \<noteq> 0" and par: "parent (task_of s t) = None \<or> parent (task_of s t) = Some P"
  shows "num_dependees (task_of s' x) = (if x \<in> set (elems (task_of s) t) then u64 (num_dependees (task_of s x) - 1) else num_dependees (task_of s x))"
    and "x \<noteq> t \<Longrightarrow> dependers (task_of s' x) = dependers (task_of s x)"
    and "parent (task_of s' x) = parent (task_of s x)" and "depend (task_of s' x) = depend (task_of s x)"
    and "depend_count (task_of s' x) = depend_count (task_of s x)"
    and "x \<noteq> P \<Longrightarrow> depend_hash (task_of s' x) = depend_hash (task_of s x)"
proof -
  let ?T = "task_of s"
  define s1 where "s1 = (case parent (?T t) of None \<Rightarrow> s
      | Some p \<Rightarrow> s\<lparr>task_of := gomp_task_run_post_handle_depend_hash t p ?T\<rparr>)"
  have e: "dependers (task_of s1 x) = dependers (?T x) \<and> num_dependees (task_of s1 x) = num_dependees (?T x)
    \<and> depend (task_of s1 x) = depend (?T x) \<and> depend_count (task_of s1 x) = depend_count (?T x)
    \<and> parent (task_of s1 x) = parent (?T x) \<and> (x \<noteq> P \<longrightarrow> depend_hash (task_of s1 x) = depend_hash (?T x))" for x
    using par depend_hash_same [of t P ?T] by (auto simp: s1_def)
  have r1: "(case dependers (task_of s1 t) of None \<Rightarrow> Some (0, s1)
      | Some e \<Rightarrow> gomp_task_run_post_handle_dependers t e s1) = Some (n, s')"
    using r dc by (simp add: gomp_task_run_post_handle_depend_def Let_def flip: s1_def)
  have all: "num_dependees (task_of s' x) = (if x \<in> set (elems ?T t) then u64 (num_dependees (?T x) - 1) else num_dependees (?T x))
    \<and> (x \<noteq> t \<longrightarrow> dependers (task_of s' x) = dependers (?T x))
    \<and> parent (task_of s' x) = parent (?T x) \<and> depend (task_of s' x) = depend (?T x) \<and> depend_count (task_of s' x) = depend_count (?T x)
    \<and> (x \<noteq> P \<longrightarrow> depend_hash (task_of s' x) = depend_hash (?T x))" for x
  proof (cases "dependers (?T t)")
    case None
    then have "s' = s1" "elems ?T t = []" using r1 e by (simp_all add: elems_def)
    then show ?thesis using e by simp
  next
    case (Some xs)
    then have xs: "xs = elems ?T t" by (simp add: elems_def)
    obtain m s2 where 2: "dependers_done (parent (task_of s1 t)) xs (0, s1) = Some (m, s2)"
      "task_of s' = (task_of s2)(t := (task_of s2 t)\<lparr>dependers := None\<rparr>)"
      using r1 Some e by (auto simp: gomp_task_run_post_handle_dependers_def bind_eq_Some_conv Let_def upd_task_of split: if_splits)
    have d: "dep_same UNIV (fold dec_dependees xs (task_of s1)) (task_of s2)" using dependers_done_same [OF 2(1), of UNIV] by simp
    note fd = fold_dec [OF el [folded xs], of "task_of s1" x]
    show ?thesis using d fd e [of x] by (cases "x = t") (simp_all add: 2(2) dep_same_def xs)
  qed
  show "num_dependees (task_of s' x) = (if x \<in> set (elems (task_of s) t) then u64 (num_dependees (task_of s x) - 1) else num_dependees (task_of s x))"
    and "x \<noteq> t \<Longrightarrow> dependers (task_of s' x) = dependers (task_of s x)"
    and "parent (task_of s' x) = parent (task_of s x)" and "depend (task_of s' x) = depend (task_of s x)"
    and "depend_count (task_of s' x) = depend_count (task_of s x)"
    and "x \<noteq> P \<Longrightarrow> depend_hash (task_of s' x) = depend_hash (task_of s x)"
    using all [of x] by simp_all
qed

lemma finish_family:
  assumes inv: "team_inv s h" and sm: "small h" and t: "t \<in> busy h" "t \<in> waiting_kids h P"
    and r: "gomp_task_run_post_handle_depend t s = Some (n, s')"
  shows "team_inv s' (after_finish t (made_ready s t) h)"
proof -
  let ?T = "task_of s" and ?T' = "task_of s'" and ?W = "waiting_kids h P" and ?ys = "made_ready s t"
  let ?h = "after_finish t ?ys h"
  have l: "unfinished h = set (ready_line h) \<union> busy h \<union> blocked_kids s h" "set (ready_line h) \<inter> busy h = {}"
    "blocked_kids s h \<inter> (set (ready_line h) \<union> busy h) = {}"
    "\<And>x. x \<in> unfinished h - busy h \<Longrightarrow> kind (?T x) = GOMP_TASK_WAITING \<and> 0 \<le> priority (?T x)"
    using team_invD(3) [OF inv] by (auto simp: in_line_def)
  note core = kids_core [OF inv sm, of P]
  have zero: "num_dependees (?T t) = 0" using l(3) t by (auto simp: blocked_kids_def)
  have tk: "parent (?T t) = None \<or> parent (?T t) = Some P" "depend_count (?T t) \<noteq> 0"
    using orphans [OF inv sm, of P] t(2) by (auto simp: orphans_ok_def)
  have W: "finite ?W" "card ?W < 2 ^ 64"
  proof -
    have sub: "?W \<subseteq> set (kids h P)" by (rule team_invD(8) [OF inv])
    then show "finite ?W" by (rule finite_subset) simp
    have "card ?W \<le> length (kids h P)" using card_mono [OF _ sub] card_length [of "kids h P"] by simp
    then show "card ?W < 2 ^ 64" using sm unfolding small_def by (meson order_le_less_trans)
  qed
  have el1: "distinct (elems ?T t)" using core(1) t(2) unfolding dep_core_def by blast
  have el2: "x \<in> ?W \<and> before (kids h P) t x" if "x \<in> set (elems ?T t)" for x
    using core_num(1,2) [OF core(1) W t(2) that] by blast
  note el = el1 el2
  note num = core_num(3,4) [OF core(1) W t(2)]
  have blocked: "x \<in> blocked_kids s h \<and> x \<noteq> t" if x: "x \<in> set (elems ?T t)" for x
    using el(2) [OF x] num(1) [OF x] zero before_in by (auto simp: blocked_kids_def)
  have elq: "x \<notin> set (ready_line h) \<and> 0 \<le> priority (?T x)" if x: "x \<in> set (elems ?T t)" for x
    using blocked [OF x] l(1,3,4) by blast
  note q = queue_post_handle_depend [OF team_invD(10) [OF inv] el(1) elq r]
  note e = post_handle_depend_effect [OF r el(1) tk(2,1)]
  have dec: "num_dependees (?T' x) = num_dependees (?T x) - 1" if "x \<in> set (elems ?T t)" for x
    using e(1) [of x] num [OF that] that by (simp add: u64_id)
  have fams: "family_ok Q s' ?h" for Q
  proof (cases "Q = P")
    case True
    show ?thesis
    proof (cases "P \<in> gone h")
      case gone: True
      have o: "orphans_ok P (kids h P) (given h P) ?W ?T" by (rule orphans [OF inv sm])
      have "dep_core (kids h P) (?W - {t}) ?T'"
      proof (rule finish_core(1) [OF core(1) t(2) zero W(1)])
        show "num_dependees (?T' u) = num_dependees (?T u) - (if u \<in> set (elems ?T t) then 1 else 0)" for u
          using e(1) [of u] dec [of u] by auto
      qed (use e(2,4) in \<open>simp_all add: elems_def\<close>)
      then show ?thesis using o e(3-5) gone by (simp add: orphans_ok_def family_ok_def True)
    next
      case False
      have "dep_run P s (kids h P) (given h P) ?W" "\<forall>x \<in> set (kids h P). parent (?T x) = Some P"
        using team_invD(1) [OF inv, of P] False by (simp_all add: family_ok_def)
      then show ?thesis using dep_run.finish [OF _ t(2) zero r] e(3) False by (simp add: family_ok_def True)
    qed
  next
    case False
    have dis: "set (kids h Q) \<inter> set (kids h P) = {}" using team_invD(6) [OF inv] False by blast
    have "x \<noteq> t \<and> x \<notin> set (elems ?T t)" if "x \<in> set (kids h Q)" for x
      using that dis t(2) el(2) [of x] team_invD(8) [OF inv, of P] by blast
    then have k: "kid_same (set (kids h Q)) ?T ?T'" using e(1-5) by (simp add: kid_same_def)
    have "t \<notin> waiting_kids h Q" using one_family [OF inv t(2), of Q] False by blast
    then show ?thesis
      by (intro family_elsewhere [OF team_invD(1) [OF inv] team_invD(8) [OF inv] k]) (use e(6) False in simp_all)
  qed
  have ready: "set ?ys = {x \<in> set (elems ?T t). num_dependees (?T' x) = 0}" "distinct ?ys"
    using tk(2) e(1) el(1) by (auto simp: made_ready_def)
  have b: "blocked_kids s' ?h = blocked_kids s h - set ?ys"
  proof (rule set_eqI)
    fix x
    show "x \<in> blocked_kids s' ?h \<longleftrightarrow> x \<in> blocked_kids s h - set ?ys"
    proof (cases "x \<in> set (elems ?T t)")
      case True
      then show ?thesis using blocked [OF True] ready(1) by (auto simp: blocked_kids_def)
    next
      case False
      have "num_dependees (?T' x) = num_dependees (?T x)" using e(1) [of x] False by simp
      then show ?thesis using False ready(1) zero by (auto simp: blocked_kids_def)
    qed
  qed
  have Pseen: "P \<in> seen h" using t(2) team_invD(5,8) [OF inv, of P] by (cases "kids h P") auto
  have ch: "chain_of Q a ?T' = chain_of Q a ?T" if "Q \<notin> seen h" for Q a
  proof -
    have "Q \<noteq> P" using that Pseen by blast
    then show ?thesis using e(6) [of Q] by (simp add: chain_of_def)
  qed
  have "families s' ?h" unfolding families_def
  proof (intro conjI allI impI ballI)
    show "chain_of Q a ?T' = []" if "Q \<notin> seen ?h" for Q a
      using ch [of Q a] that team_invD(2) [OF inv] by (simp add: families_def)
    show "depend_count (?T' x) = 0" if "x \<in> unfinished ?h" "\<forall>Q. x \<notin> waiting_kids ?h Q" for x
      using that team_invD(2) [OF inv] e(5) [of x] by (simp add: families_def)
    show "waiting_kids ?h Q \<subseteq> set (kids ?h Q) \<inter> unfinished ?h" for Q using team_invD(8,9) [OF inv, of Q] by auto
    show "gone ?h \<subseteq> seen ?h" using team_invD(2) [OF inv] by (simp add: families_def)
  qed (use team_invD(4-7) [OF inv] in auto)
  moreover have "in_line s' ?h"
  proof -
    have ys: "set ?ys \<subseteq> blocked_kids s h" "t \<notin> set ?ys" using blocked ready(1) by auto
    have qt: "t \<notin> set (ready_line h)" "t \<notin> blocked_kids s h" using t(1) l(2,3) by blast+
    show ?thesis unfolding in_line_def
    proof (intro conjI ballI)
      show "queue_holds s' (ready_line ?h)" using q(1) by simp
      show "unfinished ?h = set (ready_line ?h) \<union> busy ?h \<union> blocked_kids s' ?h" using l(1) ys qt by (auto simp: b)
      show "set (ready_line ?h) \<inter> busy ?h = {}" using l(2,3) ys by auto
      show "blocked_kids s' ?h \<inter> (set (ready_line ?h) \<union> busy ?h) = {}" using l(3) by (auto simp: b)
      show "kind (?T' x) = GOMP_TASK_WAITING" "0 \<le> priority (?T' x)" if "x \<in> unfinished ?h - busy ?h" for x
        using that l(4) [of x] q(2,3) by auto
    qed
  qed
  ultimately show ?thesis using fams by (simp add: team_inv_def)
qed

lemma finish_plain:
  assumes inv: "team_inv s h" and t: "t \<in> busy h" "\<And>P. t \<notin> waiting_kids h P"
    and r: "gomp_task_run_post_handle_depend t s = Some (n, s')"
  shows "team_inv s' (after_finish t (made_ready s t) h)"
proof -
  have "t \<in> unfinished h" using t(1) team_invD(11) [OF inv] by blast
  then have "depend_count (task_of s t) = 0" using team_invD(2) [OF inv] t(2) by (simp add: families_def)
  then have s': "s' = s" "made_ready s t = []" using r by (simp_all add: gomp_task_run_post_handle_depend_def made_ready_def)
  have W: "waiting_kids h P - {t} = waiting_kids h P" for P using t(2) by auto
  let ?h = "after_finish t [] h"
  have b: "blocked_kids s ?h = blocked_kids s h" by (simp add: blocked_kids_def W)
  have nb: "t \<notin> blocked_kids s h" using t(2) by (auto simp: blocked_kids_def)
  have "families s ?h" using team_invD(2) [OF inv] t(2) by (auto simp: families_def W)
  moreover have "in_line s ?h" using team_invD(3) [OF inv] t(1) nb unfolding in_line_def b by (simp, blast)
  moreover have "family_ok P s ?h" for P using team_invD(1) [OF inv, of P] by (simp add: family_ok_def W)
  ultimately show ?thesis by (simp add: team_inv_def s')
qed

subsection \<open>Taskloops, ends of parents and other operations\<close>

lemma after_loop_simps [simp]:
  "seen (after_loop ts P h) = set ts \<union> insert P (seen h)" "unfinished (after_loop ts P h) = set ts \<union> unfinished h"
  "busy (after_loop ts P h) = busy h" "ready_line (after_loop ts P h) = ready_line h @ ts" "kids (after_loop ts P h) = kids h"
  "waiting_kids (after_loop ts P h) = waiting_kids h" "given (after_loop ts P h) = given h" "gone (after_loop ts P h) = gone h"
  by (simp_all add: after_loop_def)

lemma after_end_simps [simp]:
  "seen (after_end P h) = insert P (seen h)" "unfinished (after_end P h) = unfinished h"
  "busy (after_end P h) = busy h" "ready_line (after_end P h) = ready_line h" "kids (after_end P h) = kids h"
  "waiting_kids (after_end P h) = waiting_kids h" "given (after_end P h) = given h" "gone (after_end P h) = insert P (gone h)"
  by (simp_all add: after_end_def)

lemma in_lineD:
  assumes "in_line s h"
  shows "queue_holds s (ready_line h)" "unfinished h = set (ready_line h) \<union> busy h \<union> blocked_kids s h"
    "set (ready_line h) \<inter> busy h = {}" "blocked_kids s h \<inter> (set (ready_line h) \<union> busy h) = {}"
    "x \<in> unfinished h - busy h \<Longrightarrow> kind (task_of s x) = GOMP_TASK_WAITING \<and> 0 \<le> priority (task_of s x)"
  using assms by (auto simp: in_line_def)

lemma loop_inv:
  assumes inv: "team_inv s h" and ts: "distinct ts" "set ts \<inter> insert P (seen h) = {}" "P \<notin> gone h" and prio: "0 \<le> prio"
    and go: "\<not> task_cancelled P s" and r: "taskloop_deferred ts P ic prio f c s = Some (k, s')"
  shows "team_inv s' (after_loop ts P h)"
proof -
  let ?T = "task_of s" and ?T' = "task_of s'" and ?h = "after_loop ts P h"
  note l = in_lineD [OF team_invD(3) [OF inv]]
  have fam: "families s h" by (rule team_invD(2) [OF inv])
  have un: "unfinished h \<subseteq> seen h" by (rule team_invD(7) [OF inv])
  have new: "set ts \<inter> unfinished h = {}" "set ts \<inter> set (ready_line h) = {}" "set ts \<inter> busy h = {}"
    using ts(2) un l(2) by blast+
  have Pts: "P \<notin> set ts" using ts(2) by blast
  note e = taskloop_effect [OF r go Pts ts(1) new(2) prio l(1)]
  have old: "x \<notin> set ts" if "x \<in> seen h" for x using ts(2) that by blast
  have same: "num_dependees (?T' x) = num_dependees (?T x)" "depend_count (?T' x) = depend_count (?T x)"
    "depend_hash (?T' x) = depend_hash (?T x)" if "x \<notin> set ts" for x
    using e(1) that by (simp_all add: dep_same_def)
  have "family_ok Q s' ?h" for Q
  proof (rule family_elsewhere [OF team_invD(1) [OF inv] team_invD(8) [OF inv]])
    show "kid_same (set (kids h Q)) ?T ?T'"
      by (rule dep_kid_same [OF e(1)]) (use team_invD(4) [OF inv, of Q] ts(2) in blast)
    show "depend_hash (?T' Q) = depend_hash (?T Q) \<or> kids h Q = [] \<and> (\<forall>a. chain_of Q a ?T' = [])"
    proof (cases "Q \<in> set ts")
      case True
      then show ?thesis using e(3) [OF True] team_invD(5) [OF inv, of Q] old by (auto simp: chain_of_def)
    qed (use same in blast)
  qed simp_all
  moreover have "families s' ?h"
  proof -
    have ch: "chain_of Q a ?T' = []" if "Q \<notin> seen ?h" for Q a
      using that fam same(3) [of Q] by (simp add: families_def chain_of_def)
    have dc: "depend_count (?T' x) = 0" if "x \<in> unfinished ?h" "\<forall>Q. x \<notin> waiting_kids h Q" for x
      using that fam e(3) [of x] same(2) [of x] by (cases "x \<in> set ts") (simp_all add: families_def)
    show ?thesis using fam ch dc unfolding families_def by (auto simp: subset_iff)
  qed
  moreover have "in_line s' ?h"
  proof -
    have "x \<notin> set ts" if "x \<in> waiting_kids h Q" for x Q using that team_invD(9) [OF inv, of Q] un old by blast
    then have b: "blocked_kids s' ?h = blocked_kids s h" using same(1) by (fastforce simp: blocked_kids_def)
    have nb: "set ts \<inter> blocked_kids s h = {}" using l(2) new(1) by blast
    show ?thesis unfolding in_line_def
    proof (intro conjI ballI)
      show "queue_holds s' (ready_line ?h)" using e(4) by simp
      show "unfinished ?h = set (ready_line ?h) \<union> busy ?h \<union> blocked_kids s' ?h" using l(2) by (simp add: b Un_ac)
      show "set (ready_line ?h) \<inter> busy ?h = {}" using l(3) new(3) by auto
      show "blocked_kids s' ?h \<inter> (set (ready_line ?h) \<union> busy ?h) = {}" using l(4) nb by (auto simp: b)
      show "kind (?T' x) = GOMP_TASK_WAITING" "0 \<le> priority (?T' x)" if "x \<in> unfinished ?h - busy ?h" for x
        using that l(5) [of x] e(2,3) [of x] prio by (cases "x \<in> set ts"; simp)+
    qed
  qed
  ultimately show ?thesis by (simp add: team_inv_def)
qed

lemma clear_inv:
  assumes inv: "team_inv s h" and sm: "small h" and r: "gomp_clear_parent P s = Some s'" and own: "own_children P s s'"
  shows "team_inv s' (after_end P h)"
proof -
  let ?T = "task_of s" and ?T' = "task_of s'" and ?h = "after_end P h"
  have c: "cleared_team s s'" by (rule clear_parent_cleared [OF r])
  then have e: "parent (?T' x) = parent (?T x) \<or> parent (?T' x) = None" "dependers (?T' x) = dependers (?T x)"
    "num_dependees (?T' x) = num_dependees (?T x)" "depend (?T' x) = depend (?T x)" "depend_count (?T' x) = depend_count (?T x)"
    "depend_hash (?T' x) = depend_hash (?T x)" "priority (?T' x) = priority (?T x)" "kind (?T' x) = kind (?T x)" for x
    by (simp_all add: cleared_team_def parents_cleared_def)
  have "family_ok Q s' ?h" for Q
  proof (cases "Q \<in> gone ?h")
    case True
    have o: "orphans_ok Q (kids h Q) (given h Q) (waiting_kids h Q) ?T" by (rule orphans [OF inv sm])
    have "dep_core (kids h Q) (waiting_kids h Q) ?T'"
      by (rule dep_core_cong [OF _ _ _ kids_core(1) [OF inv sm]]) (use e in \<open>simp_all add: elems_def\<close>)
    moreover have "parent (?T' t) = None \<or> parent (?T' t) = Some Q" if "t \<in> waiting_kids h Q" for t
      using o that e(1) [of t] by (auto simp: orphans_ok_def)
    ultimately have "orphans_ok Q (kids h Q) (given h Q) (waiting_kids h Q) ?T'" using o e(4,5) by (simp add: orphans_ok_def)
    then show ?thesis using True by (simp add: family_ok_def)
  next
    case False
    then have ok: "\<forall>t \<in> set (kids h Q). parent (?T t) = Some Q" and Q: "Q \<noteq> P"
      using team_invD(1) [OF inv, of Q] by (simp_all add: family_ok_def)
    have "parent (?T' t) = parent (?T t)" if "t \<in> set (kids h Q)" for t
      using spec [OF own [unfolded own_children_def], of t] bspec [OF ok that] Q by auto
    then have "kid_same (set (kids h Q)) ?T ?T'" using e(2-5) by (simp add: kid_same_def)
    then show ?thesis
      by (rule family_elsewhere [OF team_invD(1) [OF inv] team_invD(8) [OF inv]]) (use e(6) False in simp_all)
  qed
  moreover have "families s' ?h" using team_invD(2) [OF inv] e(5,6) unfolding families_def by (auto simp: chain_of_def)
  moreover have "in_line s' ?h"
  proof -
    have b: "blocked_kids s' ?h = blocked_kids s h" by (simp add: blocked_kids_def e(3))
    have "queue_holds s' (ready_line h)" by (rule queue_holds_same [OF cleared_queue_same [OF c, of UNIV] _ team_invD(10) [OF inv]]) simp
    then show ?thesis using team_invD(3) [OF inv] unfolding in_line_def after_end_simps b e(7,8) by blast
  qed
  ultimately show ?thesis by (simp add: team_inv_def)
qed

lemma others_inv:
  assumes inv: "team_inv s h" and o: "others_only h s s'"
  shows "team_inv s' h"
proof -
  have d: "dep_same (seen h) (task_of s) (task_of s')" and q: "queue_same (seen h) s s'"
    and hash: "\<And>P. P \<notin> seen h \<Longrightarrow> depend_hash (task_of s' P) = depend_hash (task_of s P) \<or> depend_hash (task_of s' P) = None"
    using o by (auto simp: others_only_def)
  have n: "chain_of P a (task_of s') = []" if "P \<notin> seen h" for P a
    using hash [OF that] that team_invD(2) [OF inv] by (auto simp: families_def chain_of_def)
  have "family_ok Q s' h" for Q
  proof (rule family_elsewhere [OF team_invD(1) [OF inv] team_invD(8) [OF inv] dep_kid_same [OF d team_invD(4) [OF inv]]])
    show "depend_hash (task_of s' Q) = depend_hash (task_of s Q) \<or> kids h Q = [] \<and> (\<forall>a. chain_of Q a (task_of s') = [])"
      using d n [of Q] team_invD(5) [OF inv, of Q] by (cases "Q \<in> seen h") (auto simp: dep_same_def)
  qed simp_all
  moreover have u: "unfinished h \<subseteq> seen h" by (rule team_invD(7) [OF inv])
  have "families s' h" using team_invD(2) [OF inv] d u n unfolding families_def dep_same_def by (simp add: subset_iff)
  moreover have "in_line s' h"
  proof -
    note l = in_lineD [OF team_invD(3) [OF inv]]
    have W: "waiting_kids h P \<subseteq> seen h" for P using team_invD(9) [OF inv] u by blast
    then have num: "num_dependees (task_of s' x) = num_dependees (task_of s x)" if "x \<in> waiting_kids h P" for x P
      using d that unfolding dep_same_def by blast
    have b: "blocked_kids s' h = blocked_kids s h" using num unfolding blocked_kids_def by fastforce
    have "set (ready_line h) \<subseteq> seen h" using team_invD(11) [OF inv] u by blast
    then have "queue_holds s' (ready_line h)" by (rule queue_holds_same [OF q _ l(1)])
    moreover have "kind (task_of s' x) = GOMP_TASK_WAITING \<and> 0 \<le> priority (task_of s' x)" if x: "x \<in> unfinished h - busy h" for x
    proof -
      have "kind (task_of s' x) = kind (task_of s x) \<and> priority (task_of s' x) = priority (task_of s x)"
        using q u x unfolding queue_same_def by blast
      then show ?thesis using l(5) [OF x] by simp
    qed
    ultimately show ?thesis using l(2-4) unfolding in_line_def b by blast
  qed
  ultimately show ?thesis by (simp add: team_inv_def)
qed

lemma team_run_inv: "team_run s h \<Longrightarrow> small h \<Longrightarrow> team_inv s h"
proof (induction rule: team_run.induct)
  case (start s)
  have "dep_run P s [] (\<lambda>t. []) {}" for P by (rule dep_run.start) (rule start(1))
  then show ?case using start
    by (simp add: team_inv_def family_ok_def families_def in_line_def blocked_kids_def no_history_def)
next
  case (create s h t P prio ic f c w s')
  show ?case by (rule create_inv [OF create.IH [OF small_create [OF create.prems]] create.hyps(2-7) create.prems])
next
  case (loop s h ts P prio ic f c k s')
  then show ?case using loop_inv [of s h ts P prio ic f c k s'] by (simp add: small_def)
next
  case (pick s h t par b s')
  then show ?case using pick_inv [of s h t par b s'] by (simp add: small_def)
next
  case (finish s h t n s')
  then have inv: "team_inv s h" and sm: "small h" by (simp_all add: small_def)
  show ?case
  proof (cases "\<exists>P. t \<in> waiting_kids h P")
    case True
    then show ?thesis using finish_family [OF inv sm finish.hyps(2) _ finish.hyps(3)] by blast
  next
    case False
    then show ?thesis using finish_plain [OF inv finish.hyps(2) _ finish.hyps(3)] by blast
  qed
next
  case (clear s h P s')
  then show ?case using clear_inv [of s h P s'] by (simp add: small_def)
next
  case (other s h s')
  then show ?case using others_inv by blast
qed

subsection \<open>The steps of the code are steps of a run\<close>

text \<open>Operations that leave the dependences and the queue of the team alone.\<close>

definition quiet :: "task_team \<Rightarrow> task_team \<Rightarrow> bool" where
  "quiet s s' \<longleftrightarrow> dep_same UNIV (task_of s) (task_of s') \<and> queue_same UNIV s s'"

lemma quiet_refl [simp]: "quiet s s"
  by (simp add: quiet_def)

lemma quiet_trans: "quiet s s' \<Longrightarrow> quiet s' s'' \<Longrightarrow> quiet s s''"
  unfolding quiet_def using dep_same_trans queue_same_trans by blast

lemma run_quiet: "team_run s h \<Longrightarrow> quiet s s' \<Longrightarrow> team_run s' h"
  by (erule team_run.other) (simp add: quiet_def others_only_def dep_same_def queue_same_def)

lemma upd_quiet:
  assumes "\<And>x. priority (f x) = priority x \<and> kind (f x) = kind x \<and> parent (f x) = parent x \<and> dependers (f x) = dependers x
    \<and> num_dependees (f x) = num_dependees x \<and> depend (f x) = depend x \<and> depend_count (f x) = depend_count x \<and> depend_hash (f x) = depend_hash x"
  shows "quiet s (upd t f s)"
  using assms by (simp add: quiet_def dep_same_def queue_same_def upd_def)

lemma upd_group_quiet [simp]: "quiet s (upd_group g f s)"
  by (simp add: quiet_def dep_same_def queue_same_def upd_group_def)

lemma on_children_quiet: "on_children P f s = Some s' \<Longrightarrow> quiet s s'"
  using on_children_same on_children_queue unfolding quiet_def by blast

lemma remove_child_quiet: "remove_child P t s = Some (e, s') \<Longrightarrow> quiet s s'"
  by (auto simp: remove_child_def quiet_def dep_same_def queue_same_def upd_def)

lemma remove_from_group_quiet: "remove_from_group g t s = Some (e, s') \<Longrightarrow> quiet s s'"
  by (auto simp: remove_from_group_def quiet_def dep_same_def queue_same_def upd_group_def)

lemma wake_group_quiet: "quiet s (wake_group g s)"
  by (simp add: quiet_def wake_group_queue)

lemma remove_taskgroup_quiet:
  assumes "gomp_task_run_post_remove_taskgroup t s = Some s'"
  shows "quiet s s'"
proof (cases "taskgroup (task_of s t)")
  case (Some g)
  obtain e s1 where 1: "remove_from_group g t s = Some (e, s1)" using assms Some
    by (auto simp: gomp_task_run_post_remove_taskgroup_def bind_eq_Some_conv)
  let ?s2 = "upd_group g (\<lambda>x. x\<lparr>num_children := (if num_children x > 1 then u64 (num_children x - 1) else 0)\<rparr>) s1"
  have "s' = (if e then wake_group (Some g) ?s2 else ?s2)"
    using assms Some 1 unfolding gomp_task_run_post_remove_taskgroup_def by (simp add: Let_def)
  then have "quiet ?s2 s'" using wake_group_quiet by simp
  then show ?thesis using quiet_trans [OF quiet_trans [OF remove_from_group_quiet [OF 1] upd_group_quiet]] by blast
qed (use assms in \<open>simp add: gomp_task_run_post_remove_taskgroup_def\<close>)

lemma remove_parent_quiet:
  assumes "gomp_task_run_post_remove_parent t s = Some s'"
  shows "quiet s s'"
proof (cases "parent (task_of s t)")
  case None
  then show ?thesis using assms by (simp add: gomp_task_run_post_remove_parent_def)
next
  case (Some P)
  define W :: "full_task \<Rightarrow> full_task" where "W = (\<lambda>x. case taskwait x of None \<Rightarrow> x
     | Some w \<Rightarrow> if in_taskwait w then x\<lparr>taskwait := Some (w\<lparr>in_taskwait := False, taskwait_sem := taskwait_sem w + 1\<rparr>)\<rparr> else x)"
  define f where "f = (\<lambda>s1. Option.bind (remove_child P t s1) (\<lambda>(e, s2). Some (if e then upd P W s2 else s2)))"
  have f: "quiet s1 s'" if r: "f s1 = Some s'" for s1
  proof -
    obtain e s2 where 2: "remove_child P t s1 = Some (e, s2)" "s' = (if e then upd P W s2 else s2)"
      using r by (auto simp: f_def bind_eq_Some_conv)
    have "quiet s2 (upd P W s2)" by (rule upd_quiet) (auto simp: W_def split: option.split)
    then have "quiet s2 s'" by (simp add: 2(2))
    then show ?thesis using quiet_trans remove_child_quiet [OF 2(1)] by blast
  qed
  show ?thesis
  proof (cases "parent_depends_on (task_of s t)")
    case True
    then obtain w where w: "taskwait (task_of s P) = Some w"
      using assms Some by (auto simp: gomp_task_run_post_remove_parent_def split: option.splits)
    define w2 where "w2 = (let w1 = w\<lparr>n_depend := u64 (n_depend w - 1)\<rparr> in if n_depend w1 = 0 \<and> in_depend_wait w1
       then w1\<lparr>in_depend_wait := False, taskwait_sem := taskwait_sem w1 + 1\<rparr> else w1)"
    have "f (upd P (\<lambda>x. x\<lparr>taskwait := Some w2\<rparr>) s) = Some s'"
      using assms Some True w unfolding gomp_task_run_post_remove_parent_def f_def W_def w2_def by (simp add: Let_def)
    moreover have "quiet s (upd P (\<lambda>x. x\<lparr>taskwait := Some w2\<rparr>) s)" by (rule upd_quiet) simp
    ultimately show ?thesis using f quiet_trans by blast
  next
    case False
    then have "f s = Some s'"
      using assms Some unfolding gomp_task_run_post_remove_parent_def f_def W_def by simp
    then show ?thesis by (rule f)
  qed
qed

text \<open>Waits for dependences mark tasks and move them to the front of the queue of their parent.\<close>

lemma mark_chain_quiet: "mark_chain P i es (n, s) = Some (m, s') \<Longrightarrow> quiet s s'"
proof (induction es arbitrary: n s)
  case Nil
  then show ?case by simp
next
  case (Cons e es)
  let ?s1 = "upd (fst e) (\<lambda>x. x\<lparr>parent_depends_on := True\<rparr>) s"
  show ?case
  proof (cases "i \<and> d_is_in (entry (task_of s) e) \<or> parent_depends_on (task_of s (fst e))")
    case False
    obtain s2 where 2: "s2 = ?s1 \<or> on_children P (priority_queue_upgrade_task (fst e) (priority (task_of ?s1 (fst e)))) ?s1 = Some s2"
      "mark_chain P i es (Suc n, s2) = Some (m, s')"
      using Cons.prems False by (auto simp: Let_def bind_eq_Some_conv split: if_splits)
    have "quiet s ?s1" by (rule upd_quiet) simp
    then have "quiet s s2" using 2(1) quiet_trans on_children_quiet by blast
    then show ?thesis using quiet_trans Cons.IH [OF 2(2)] by blast
  qed (use Cons in auto)
qed

lemma depend_wait_start_quiet:
  assumes "depend_wait_start P ds s = Some (n, s')"
  shows "quiet s s'"
proof -
  have m: "mark_awaited P ds (k, s) = Some (l, s1) \<Longrightarrow> quiet s s1" for k l s s1
  proof (induction ds arbitrary: k s)
    case Nil
    then show ?case by simp
  next
    case (Cons d ds)
    then obtain j s2 where "mark_chain P (snd d) (chain_of P (fst d) (task_of s)) (k, s) = Some (j, s2)" "mark_awaited P ds (j, s2) = Some (l, s1)"
      by (auto simp: bind_eq_Some_conv)
    then show ?case using quiet_trans mark_chain_quiet Cons.IH by blast
  qed
  obtain s1 where 1: "mark_awaited P ds (0, s) = Some (n, s1)"
    "s' = (if n = 0 then s1 else upd P (\<lambda>x. x\<lparr>taskwait := Some (fresh_taskwait\<lparr>n_depend := int n\<rparr>)\<rparr>) s1)"
    using assms by (auto simp: depend_wait_start_def)
  have "quiet s1 s'" unfolding 1(2) by (auto intro!: upd_quiet)
  then show ?thesis using quiet_trans m [OF 1(1)] by blast
qed

lemma group_quiet: "quiet s (GOMP_taskgroup_start g P s)" "quiet s (taskgroup_leave g P s)"
proof -
  show "quiet s (GOMP_taskgroup_start g P s)" unfolding GOMP_taskgroup_start_def
    by (rule quiet_trans [OF upd_group_quiet upd_quiet]) simp
  show "quiet s (taskgroup_leave g P s)" unfolding taskgroup_leave_def by (rule upd_quiet) simp
qed

text \<open>An undeferred task, a new block of memory, begins.\<close>

lemma run_undeferred:
  assumes "team_run s h" and "t \<notin> seen h"
  shows "team_run (undeferred_begin t P ic prio c s) h"
proof (rule team_run.other [OF assms(1)])
  show "others_only h s (undeferred_begin t P ic prio c s)"
    using assms(2) by (auto simp: others_only_def undeferred_begin_def gomp_init_task_def upd_def Let_def dep_same_def queue_same_def)
qed

text \<open>A thread at the barrier takes a task.\<close>

lemma run_barrier_pick:
  assumes "team_run s h" and "small h" and "barrier_task_pick s = Some (Some t, c, s')"
  shows "team_run s' (after_pick t h)"
proof -
  have inv: "team_inv s h" by (rule team_run_inv [OF assms(1,2)])
  note l = in_lineD [OF team_invD(3) [OF inv]]
  have "x \<in> unfinished h - busy h" if "x \<in> set (ready_line h)" for x using that l(2,3) by blast
  then have "\<forall>x \<in> set (ready_line h). kind (task_of s x) = GOMP_TASK_WAITING" using l(5) by blast
  from barrier_pick_choice [OF l(1) this assms(3)] have t: "ready_line h \<noteq> []" "t = best_first (task_of s) (ready_line h)"
    by (auto split: if_splits)
  have tin: "t \<in> set (ready_line h)" using best_first_props(1) [OF t(1)] t(2) by simp
  obtain i where n: "\<not> priority_queue_empty_p (team_queue s)" "priority_queue_next_task (plain_tasks s) (team_queue s) None = (Some t, i)"
    using assms(3) by (auto simp: barrier_task_pick_def bind_eq_Some_conv split: if_splits option.splits prod.splits)
  obtain c1 s1 where p: "gomp_task_run_pre t (parent (task_of s t)) s = Some (c1, s1)"
    using assms(3) n by (auto simp: barrier_task_pick_def bind_eq_Some_conv)
  have s': "s' = s1 \<or> s' = upd t (\<lambda>x. x\<lparr>in_tied_task := True\<rparr>) (s1\<lparr>task_running_count := u32 (task_running_count s1 + 1)\<rparr>)"
    using assms(3) n p by (auto simp: barrier_task_pick_def split: if_splits)
  have "quiet s1 s'" using s' by (auto simp: quiet_def dep_same_def queue_same_def upd_def)
  then show ?thesis using run_quiet team_run.pick [OF assms(1) tin p] by blast
qed

text \<open>What follows the body of a task, at the barrier and in the waits.\<close>

lemma run_end:
  assumes "team_run s h" and "t \<in> busy h" and "gomp_task_run_post_handle_depend t s = Some (n, s1)" and "quiet s1 s2"
    and "gomp_clear_parent t s2 = Some s3" and "own_children t s2 s3" and "quiet s3 s'"
  shows "team_run s' (after_end t (after_finish t (made_ready s t) h))"
  by (rule run_quiet [OF team_run.clear [OF run_quiet [OF team_run.finish [OF assms(1-3)] assms(4)] assms(5,6)] assms(7)])

lemma run_barrier_done:
  assumes "team_run s h" and "t \<in> busy h" and r: "barrier_task_done c st t s = Some (n, d, s')"
  obtains s2 s3 where "gomp_clear_parent t s2 = Some s3"
    and "own_children t s2 s3 \<Longrightarrow> team_run s' (after_end t (after_finish t (made_ready s t) h))"
proof -
  obtain k s1 s2 s3 s4 where 1: "gomp_task_run_post_handle_depend t s = Some (k, s1)" "gomp_task_run_post_remove_parent t s1 = Some s2"
    "gomp_clear_parent t s2 = Some s3" "gomp_task_run_post_remove_taskgroup t s3 = Some s4"
    and e: "\<exists>b tc rc. s' = s4\<lparr>task_running_count := rc, task_count := tc, tt_barrier := b\<rparr>"
  proof -
    obtain k s1 s2 s3 s4 where 1: "gomp_task_run_post_handle_depend t s = Some (k, s1)" "gomp_task_run_post_remove_parent t s1 = Some s2"
      "gomp_clear_parent t s2 = Some s3" "gomp_task_run_post_remove_taskgroup t s3 = Some s4"
      using r by (auto simp: barrier_task_done_def bind_eq_Some_conv)
    let ?s5 = "if c then s4 else s4\<lparr>task_running_count := u32 (task_running_count s4 - 1)\<rparr>"
    let ?s6 = "?s5\<lparr>task_count := u32 (task_count ?s5 - 1)\<rparr>"
    have "s' = ?s6 \<or> s' = ?s6\<lparr>tt_barrier := gomp_team_barrier_done st (tt_barrier ?s6)\<rparr>"
      using r 1 unfolding barrier_task_done_def Let_def by (simp split: if_splits)
    then have "s' = s4\<lparr>task_running_count := task_running_count s', task_count := task_count s', tt_barrier := tt_barrier s'\<rparr>"
      by (cases c) auto
    then show thesis using that [OF 1] by blast
  qed
  have "quiet s4 s'" using e by (auto simp: quiet_def dep_same_def queue_same_def)
  then have "quiet s3 s'" using quiet_trans remove_taskgroup_quiet [OF 1(4)] by blast
  then show thesis using that [OF 1(3)] run_end [OF assms(1,2) 1(1) remove_parent_quiet [OF 1(2)] 1(3)] by blast
qed

subsection \<open>No task is lost\<close>





text \<open>
  C22. At the barrier a thread picks, of all ready tasks of the team, the one that became ready first among
  those of the highest priority, and finds none only when there is none. The runs are those of
  \<open>team_run\<close>: creations by \<open>GOMP_task\<close> and taskloops, picks of queued tasks, ends of tasks and of parents
  and operations that leave dependences and the queue alone; with creations that are not cancelled,
  priorities that are not negative (a negative one can become zero, see the findings), fewer than
  \<open>2 ^ 64\<close> children with clauses for each parent, lists of children that hold children of their parent
  only, and no target tasks, whose completion puts them at the front of the queue.
\<close>

theorem barrier_takes_best_first:
  assumes "team_run s h" and "small h" and "barrier_task_pick s = Some (t, c, s')"
  shows "t = (if ready_line h = [] then None else Some (best_first (task_of s) (ready_line h)))"
proof (rule barrier_pick_choice [OF _ _ assms(3)])
  have inv: "team_inv s h" by (rule team_run_inv [OF assms(1,2)])
  show "queue_holds s (ready_line h)" by (rule team_invD(10) [OF inv])
  have "x \<in> unfinished h - busy h" if "x \<in> set (ready_line h)" for x
    using that team_invD(3) [OF inv] by (auto simp: in_line_def)
  then show "\<forall>x \<in> set (ready_line h). kind (task_of s x) = GOMP_TASK_WAITING"
    using team_invD(3) [OF inv] unfolding in_line_def by blast
qed

text \<open>An example: a writer and a reader of the same address.\<close>

definition pair_history :: task_history where
  "pair_history = after_create 2 0 (example_clauses 0 [5]) False (after_create 1 0 (example_clauses 1 [5]) True no_history)"

lemma pair_run: "team_run reader_team pair_history"
proof -
  have some: "(case x of None \<Rightarrow> False | Some r \<Rightarrow> True) \<Longrightarrow> x = Some (fst (the x), snd (the x))" for x :: "(bool \<times> task_team) option"
    by (simp split: option.splits)
  note 1 = some [OF example_steps(1), folded writer_team_def, unfolded new_child_def]
    and 2 = some [OF example_steps(2), folded reader_team_def, unfolded new_child_def]
  have n: "num_dependees (task_of writer_team 1) = 0" "num_dependees (task_of reader_team 2) \<noteq> 0" by code_simp+
  have d: "depends (example_clauses k [5])" for k by (simp add: depends_def example_clauses_def)
  have s: "team_run example_team no_history"
  proof (rule team_run.start)
    show "chain_of P a (task_of example_team) = []" for P a by (simp add: chain_of_def example_team_def idle_task_def)
    have "fifo T [] = (\<lambda>p. [])" for T by (rule ext) (simp add: fifo_def)
    then show "queue_holds example_team []" by (simp add: queue_holds_def example_team_def empty_queue_ok u32_def)
  qed
  have w: "team_run writer_team (after_create 1 0 (example_clauses 1 [5]) True no_history)"
    using team_run.create [OF s _ _ _ _ example_steps(3) 1] n(1) d by (simp add: no_history_def)
  show ?thesis
    using team_run.create [OF w _ _ _ _ example_steps(4) 2] n(2) d by (simp add: no_history_def pair_history_def after_create_def)
qed

lemma pair_history_facts:
  "small pair_history" "ready_line pair_history = [1]" "busy pair_history = {}" "unfinished pair_history = {1, 2}"
  by (auto simp: pair_history_def small_def no_history_def depends_def example_clauses_def)



theorem barrier_takes_best_first_witness:
  "fst (the (barrier_task_pick reader_team)) = Some 1"
proof -
  have "(case barrier_task_pick reader_team of None \<Rightarrow> False | Some r \<Rightarrow> True)" by code_simp
  then obtain t c s' where p: "barrier_task_pick reader_team = Some (t, c, s')" by (auto split: option.splits)
  show ?thesis using barrier_takes_best_first [OF pair_run pair_history_facts(1) p]
    by (simp add: p pair_history_facts best_first_def)
qed

end
