(* ===== verification/Mutex.thy ===== *)
theory Mutex
  imports Prelude
begin

text \<open>
  The futex mutex of \<open>gcc/libgomp/config/linux/mutex.h\<close> and \<open>mutex.c\<close>, which also is the lock of OpenMP
  (\<open>lock.c\<close>) and the lock of a critical section (\<open>critical.c\<close>). The word is 0 (free), 1 (held) or -1
  (held, somebody may sleep). Any number of threads take one step for each access to the word, in any
  order; the kernel's futex compares and goes to sleep in one step, and wakes any one sleeper.
\<close>

subsection \<open>Spinning and sleeping\<close>

text \<open>\<open>do_spin\<close> of \<open>wait.h\<close>: the number of rounds, and one round, which either ends the loop with a result
  or goes on.\<close>

definition do_spin_count :: "int \<Rightarrow> int \<Rightarrow> nat \<Rightarrow> nat \<Rightarrow> nat" where
  "do_spin_count managed_threads available_cpus spin_count throttled_spin_count =
    (if managed_threads > available_cpus then throttled_spin_count else spin_count)"

definition do_spin :: "'w \<Rightarrow> 'w \<Rightarrow> nat \<Rightarrow> int option" where
  "do_spin now val rounds_left = (if rounds_left = 0 then Some 1 else if now \<noteq> val then Some 0 else None)"

text \<open>Of the sleeping threads below \<open>T\<close>, the kernel wakes one of its choice.\<close>

definition sleepers :: "nat \<Rightarrow> 'pc \<Rightarrow> (nat \<Rightarrow> 'pc) \<Rightarrow> nat list" where
  "sleepers T asleep pcs = filter (\<lambda>t. pcs t = asleep) [0..<T]"

definition futex_wake :: "nat \<Rightarrow> nat \<Rightarrow> 'pc \<Rightarrow> 'pc \<Rightarrow> (nat \<Rightarrow> 'pc) \<Rightarrow> nat \<Rightarrow> 'pc" where
  "futex_wake T c asleep woken pcs =
    (case sleepers T asleep pcs of [] \<Rightarrow> pcs | q \<Rightarrow> pcs(q ! (c mod length q) := woken))"

lemma futex_wake_cases:
  obtains (none) "futex_wake T c a w pcs = pcs" "\<forall>t < T. pcs t \<noteq> a"
  | (one) v where "v < T" "pcs v = a" "futex_wake T c a w pcs = pcs(v := w)"
proof (cases "sleepers T a pcs")
  case Nil
  then have "\<forall>t < T. pcs t \<noteq> a" by (auto simp: sleepers_def filter_empty_conv)
  then show ?thesis using none Nil by (simp add: futex_wake_def)
next
  case (Cons x xs)
  define v where "v = sleepers T a pcs ! (c mod length (sleepers T a pcs))"
  have "v \<in> set (sleepers T a pcs)" unfolding v_def using Cons by (intro nth_mem) simp
  then have "v < T" "pcs v = a" by (auto simp: sleepers_def)
  then show ?thesis using one [of v] Cons by (simp add: futex_wake_def v_def)
qed

subsection \<open>The mutex\<close>

text \<open>Where a thread is. \<open>M_Cas\<close>, \<open>M_Test\<close>: in \<open>gomp_mutex_lock\<close>, \<open>gomp_test_lock_30\<close>; \<open>M_Spin\<close> to \<open>M_Spin2\<close>:
  in \<open>gomp_mutex_lock_slow\<close>, in its first loop up to \<open>M_Retry\<close>, in its second loop from \<open>M_Exch\<close>; both loops
  sleep in \<open>M_Futex\<close> and \<open>M_Sleep\<close>, after which the second one goes on. \<open>M_Wake\<close>: in
  \<open>gomp_mutex_unlock_slow\<close>.\<close>

datatype mutex_pc = M_Out | M_Cas | M_Test | M_Spin nat | M_Mark | M_Retry | M_Futex | M_Sleep
  | M_Exch | M_Spin2 nat | M_Hold | M_Wake

definition gomp_mutex_init :: int where "gomp_mutex_init = 0"

text \<open>The entry of \<open>gomp_mutex_lock_slow\<close> and the test of its first loop, with the value \<open>oldval\<close>; a spin
  starts with \<open>c\<close> rounds.\<close>

definition lock_slow_test :: "int \<Rightarrow> nat \<Rightarrow> mutex_pc" where
  "lock_slow_test oldval c = (if oldval = 1 then M_Spin c else M_Exch)"

definition gomp_mutex_lock :: "nat \<Rightarrow> int \<Rightarrow> int \<times> mutex_pc" where
  "gomp_mutex_lock c m = (if m = 0 then (1, M_Hold) else (m, lock_slow_test m c))"

fun gomp_mutex_lock_slow :: "nat \<Rightarrow> int \<Rightarrow> mutex_pc \<Rightarrow> int \<times> mutex_pc" where
  "gomp_mutex_lock_slow c m (M_Spin i) =
    (m, case do_spin m 1 i of None \<Rightarrow> M_Spin (i - 1) | Some r \<Rightarrow> if r \<noteq> 0 then M_Mark else M_Retry)"
| "gomp_mutex_lock_slow c m M_Mark = (-1, if m = 0 then M_Hold else M_Futex)"
| "gomp_mutex_lock_slow c m M_Retry = (if m = 0 then (1, M_Hold) else (m, lock_slow_test m c))"
| "gomp_mutex_lock_slow c m M_Futex = (m, if m = -1 then M_Sleep else M_Exch)"
| "gomp_mutex_lock_slow c m M_Sleep = (m, if c = 0 then M_Sleep else M_Exch)"
| "gomp_mutex_lock_slow c m M_Exch = (-1, if m = 0 then M_Hold else M_Spin2 c)"
| "gomp_mutex_lock_slow c m (M_Spin2 i) =
    (m, case do_spin m (-1) i of None \<Rightarrow> M_Spin2 (i - 1) | Some r \<Rightarrow> if r \<noteq> 0 then M_Futex else M_Exch)"
| "gomp_mutex_lock_slow c m p = (m, p)"

definition gomp_mutex_unlock :: "int \<Rightarrow> int \<times> mutex_pc" where
  "gomp_mutex_unlock m = (0, if m < 0 then M_Wake else M_Out)"

definition gomp_mutex_unlock_slow :: "nat \<Rightarrow> nat \<Rightarrow> (nat \<Rightarrow> mutex_pc) \<Rightarrow> nat \<Rightarrow> mutex_pc" where
  "gomp_mutex_unlock_slow T c pcs = futex_wake T c M_Sleep M_Exch pcs"

definition gomp_test_lock_30 :: "int \<Rightarrow> int \<times> mutex_pc" where
  "gomp_test_lock_30 m = (if m = 0 then (1, M_Hold) else (m, M_Out))"

text \<open>A step of thread \<open>t\<close>; the number \<open>c\<close> is what the environment contributes: which operation the thread
  starts, how long it spins, which sleeper the kernel wakes, and that a sleeper returns without a
  wake (\<open>c \<noteq> 0\<close>).\<close>

record mutex_sys =
  mutex :: int
  mutex_pcs :: "nat \<Rightarrow> mutex_pc"

definition mutex_step :: "nat \<Rightarrow> nat \<Rightarrow> nat \<Rightarrow> mutex_sys \<Rightarrow> mutex_sys" where
  "mutex_step T c t s = (case mutex_pcs s t of
     M_Out \<Rightarrow> s\<lparr>mutex_pcs := (mutex_pcs s)(t := if even c then M_Cas else M_Test)\<rparr>
   | M_Wake \<Rightarrow> s\<lparr>mutex_pcs := gomp_mutex_unlock_slow T c ((mutex_pcs s)(t := M_Out))\<rparr>
   | p \<Rightarrow> let (m, p') = (case p of M_Cas \<Rightarrow> gomp_mutex_lock c (mutex s) | M_Test \<Rightarrow> gomp_test_lock_30 (mutex s)
              | M_Hold \<Rightarrow> gomp_mutex_unlock (mutex s) | _ \<Rightarrow> gomp_mutex_lock_slow c (mutex s) p)
          in s\<lparr>mutex := m, mutex_pcs := (mutex_pcs s)(t := p')\<rparr>)"

definition mutex_start :: mutex_sys where
  "mutex_start = \<lparr>mutex = gomp_mutex_init, mutex_pcs = (\<lambda>t. M_Out)\<rparr>"

inductive mutex_reach :: "nat \<Rightarrow> mutex_sys \<Rightarrow> bool" for T where
  start: "mutex_reach T mutex_start"
| step: "mutex_reach T s \<Longrightarrow> t < T \<Longrightarrow> mutex_reach T (mutex_step T c t s)"

subsection \<open>What a step can do\<close>

text \<open>Seen from outside, a step is one of six: the word is not written and the thread moves; it takes
  the free mutex; it marks a held one; it frees it; it wakes a sleeper.\<close>

definition waits_awake :: "mutex_pc \<Rightarrow> bool" where
  "waits_awake p \<longleftrightarrow> p \<notin> {M_Out, M_Hold, M_Wake, M_Sleep}"

lemma lock_slow_test_neq [simp]: "lock_slow_test m c \<noteq> M_Hold" "lock_slow_test m c \<noteq> M_Sleep"
  by (simp_all add: lock_slow_test_def)

lemma mutex_step_cases:
  fixes T c t s
  defines "s' \<equiv> mutex_step T c t s" and "p \<equiv> mutex_pcs s t"
  obtains (move) p' where "s' = s\<lparr>mutex_pcs := (mutex_pcs s)(t := p')\<rparr>" "p \<noteq> M_Hold" "p' \<noteq> M_Hold"
      "p \<noteq> M_Exch" "p \<noteq> M_Wake" "p' = M_Sleep \<Longrightarrow> p = M_Sleep \<or> mutex s = -1"
  | (take) m where "s' = s\<lparr>mutex := m, mutex_pcs := (mutex_pcs s)(t := M_Hold)\<rparr>" "mutex s = 0"
      "p \<noteq> M_Hold" "p \<noteq> M_Wake" "m = 1 \<or> m = -1" "p = M_Exch \<Longrightarrow> m = -1"
  | (mark) p' where "s' = s\<lparr>mutex := -1, mutex_pcs := (mutex_pcs s)(t := p')\<rparr>" "mutex s \<noteq> 0"
      "p \<noteq> M_Hold" "p' \<noteq> M_Hold" "p' \<noteq> M_Sleep" "p \<noteq> M_Wake"
  | (free) p' where "s' = s\<lparr>mutex := 0, mutex_pcs := (mutex_pcs s)(t := p')\<rparr>" "p = M_Hold"
      "p' \<in> {M_Out, M_Wake}" "mutex s < 0 \<Longrightarrow> p' = M_Wake"
  | (wake) v where "s' = s\<lparr>mutex_pcs := (mutex_pcs s)(t := M_Out, v := M_Exch)\<rparr>" "p = M_Wake" "v \<noteq> t"
      "mutex_pcs s v = M_Sleep"
  | (no_wake) "s' = s\<lparr>mutex_pcs := (mutex_pcs s)(t := M_Out)\<rparr>" "p = M_Wake" "\<forall>u < T. mutex_pcs s u \<noteq> M_Sleep"
proof (cases "p = M_Wake")
  case True
  let ?f = "(mutex_pcs s)(t := M_Out)"
  have s': "s' = s\<lparr>mutex_pcs := futex_wake T c M_Sleep M_Exch ?f\<rparr>"
    using True by (simp add: s'_def p_def mutex_step_def gomp_mutex_unlock_slow_def)
  show ?thesis
  proof (cases rule: futex_wake_cases [of T c M_Sleep M_Exch ?f])
    case none
    then have "\<forall>u < T. mutex_pcs s u \<noteq> M_Sleep" using True by (auto simp: p_def split: if_splits)
    then show ?thesis using no_wake s' none True by simp
  next
    case (one v)
    then have "v \<noteq> t" "mutex_pcs s v = M_Sleep" by (auto split: if_splits)
    then show ?thesis using wake [of v] s' one True by simp
  qed
next
  case False
  have id: "s\<lparr>mutex := mutex s, mutex_pcs := f\<rparr> = s\<lparr>mutex_pcs := f\<rparr>" for f by simp
  note step = s'_def mutex_step_def p_def [symmetric]
  show ?thesis
  proof (cases p)
    case M_Out then show ?thesis by (intro move [of "if even c then M_Cas else M_Test"]) (simp_all add: step split: if_splits)
  next
    case M_Cas then show ?thesis
      using take [of 1] move [of "lock_slow_test (mutex s) c"] by (cases "mutex s = 0") (simp_all add: step gomp_mutex_lock_def)
  next
    case M_Test then show ?thesis
      using take [of 1] move [of M_Out] by (cases "mutex s = 0") (simp_all add: step gomp_test_lock_30_def)
  next
    case (M_Spin i) then show ?thesis
      by (intro move [of "if i = 0 then M_Mark else if mutex s \<noteq> 1 then M_Retry else M_Spin (i - 1)"])
        (simp_all add: step do_spin_def split: if_splits)
  next
    case M_Mark then show ?thesis
      using take [of "-1"] mark [of M_Futex] by (cases "mutex s = 0") (simp_all add: step)
  next
    case M_Retry then show ?thesis
      using take [of 1] move [of "lock_slow_test (mutex s) c"] by (cases "mutex s = 0") (simp_all add: step)
  next
    case M_Futex then show ?thesis
      by (intro move [of "if mutex s = -1 then M_Sleep else M_Exch"]) (simp_all add: step split: if_splits)
  next
    case M_Sleep then show ?thesis
      by (intro move [of "if c = 0 then M_Sleep else M_Exch"]) (simp_all add: step split: if_splits)
  next
    case M_Exch then show ?thesis
      using take [of "-1"] mark [of "M_Spin2 c"] by (cases "mutex s = 0") (simp_all add: step)
  next
    case (M_Spin2 i) then show ?thesis
      by (intro move [of "if i = 0 then M_Futex else if mutex s \<noteq> -1 then M_Exch else M_Spin2 (i - 1)"])
        (simp_all add: step do_spin_def split: if_splits)
  next
    case M_Hold then show ?thesis
      by (intro free [of "if mutex s < 0 then M_Wake else M_Out"]) (simp_all add: step gomp_mutex_unlock_def)
  next
    case M_Wake then show ?thesis using False by simp
  qed
qed

subsection \<open>Invariant\<close>

definition mutex_inv :: "nat \<Rightarrow> mutex_sys \<Rightarrow> bool" where
  "mutex_inv T s \<longleftrightarrow>
    mutex s \<in> {0, 1, -1}
  \<and> (\<forall>t u. mutex_pcs s t = M_Hold \<longrightarrow> mutex_pcs s u = M_Hold \<longrightarrow> t = u)
  \<and> (mutex s = 0 \<longleftrightarrow> (\<forall>t. mutex_pcs s t \<noteq> M_Hold))
  \<and> (\<forall>t \<ge> T. mutex_pcs s t = M_Out)
  \<and> ((\<exists>t. mutex_pcs s t = M_Sleep) \<longrightarrow> mutex s = -1 \<or> (\<exists>t. mutex_pcs s t \<in> {M_Wake, M_Exch}))"

lemma mutex_inv_step:
  assumes inv: "mutex_inv T s" and t: "t < T"
  shows "mutex_inv T (mutex_step T c t s)"
proof (cases rule: mutex_step_cases [of T c t s])
  case (move p')
  have "(\<exists>u. ((mutex_pcs s)(t := p')) u = M_Sleep) \<Longrightarrow> (\<exists>u. mutex_pcs s u = M_Sleep) \<or> mutex s = -1"
    using move(6) by (auto split: if_splits)
  moreover have "mutex_pcs s u \<in> {M_Wake, M_Exch} \<Longrightarrow> ((mutex_pcs s)(t := p')) u \<in> {M_Wake, M_Exch}" for u
    using move(4,5) by auto
  ultimately have "(\<exists>u. ((mutex_pcs s)(t := p')) u = M_Sleep) \<longrightarrow> mutex s = -1 \<or> (\<exists>u. ((mutex_pcs s)(t := p')) u \<in> {M_Wake, M_Exch})"
    using inv unfolding mutex_inv_def by blast
  then have l: "(\<exists>u. ((mutex_pcs s)(t := p')) u = M_Sleep) \<longrightarrow> mutex s = -1 \<or> (\<exists>u. ((mutex_pcs s)(t := p')) u \<in> {M_Wake, M_Exch})" .
  have s': "mutex (mutex_step T c t s) = mutex s" "mutex_pcs (mutex_step T c t s) = (mutex_pcs s)(t := p')"
    unfolding move(1) by simp_all
  have h: "((mutex_pcs s)(t := p')) u = M_Hold \<longleftrightarrow> mutex_pcs s u = M_Hold" for u using move(2,3) by auto
  have o: "\<forall>u \<ge> T. ((mutex_pcs s)(t := p')) u = M_Out" using inv t by (simp add: mutex_inv_def)
  show ?thesis unfolding mutex_inv_def s' h using o l inv unfolding mutex_inv_def by (intro conjI) blast+
next
  case (take m)
  have l: "m = -1 \<or> (\<exists>u. ((mutex_pcs s)(t := M_Hold)) u \<in> {M_Wake, M_Exch})"
    if "((mutex_pcs s)(t := M_Hold)) w = M_Sleep" for w
  proof -
    have "mutex_pcs s w = M_Sleep" using that by (simp split: if_splits)
    then obtain u where u: "mutex_pcs s u \<in> {M_Wake, M_Exch}" using inv take(2) unfolding mutex_inv_def by auto
    show ?thesis
    proof (cases "u = t")
      case True then show ?thesis using u take(4,6) by auto
    next
      case False then show ?thesis using u by auto
    qed
  qed
  have none: "\<forall>u. mutex_pcs s u \<noteq> M_Hold" using inv take(2) by (simp add: mutex_inv_def)
  have m: "m \<in> {0, 1, -1}" "m \<noteq> 0" using take(5) by auto
  have o: "\<forall>u \<ge> T. ((mutex_pcs s)(t := M_Hold)) u = M_Out" using inv t by (simp add: mutex_inv_def)
  have h: "((mutex_pcs s)(t := M_Hold)) u = M_Hold \<longleftrightarrow> u = t" for u using none by simp
  have l: "(\<exists>w. ((mutex_pcs s)(t := M_Hold)) w = M_Sleep) \<longrightarrow> m = -1 \<or> (\<exists>u. ((mutex_pcs s)(t := M_Hold)) u \<in> {M_Wake, M_Exch})"
    using l by blast
  show ?thesis unfolding mutex_inv_def take(1) mutex_sys.simps h 
    using m o l none by (intro conjI) auto
next
  case (mark p')
  have s': "mutex (mutex_step T c t s) = -1" "mutex_pcs (mutex_step T c t s) = (mutex_pcs s)(t := p')"
    unfolding mark(1) by simp_all
  have h: "((mutex_pcs s)(t := p')) u = M_Hold \<longleftrightarrow> mutex_pcs s u = M_Hold" for u using mark(3,4) by auto
  have o: "\<forall>u \<ge> T. ((mutex_pcs s)(t := p')) u = M_Out" using inv t by (simp add: mutex_inv_def)
  show ?thesis unfolding mutex_inv_def s' h using o inv mark(2) unfolding mutex_inv_def by (intro conjI) auto
next
  case (free p')
  have none: "u \<noteq> t \<Longrightarrow> mutex_pcs s u \<noteq> M_Hold" for u using inv free(2) unfolding mutex_inv_def by metis
  have l: "\<exists>u. ((mutex_pcs s)(t := p')) u \<in> {M_Wake, M_Exch}" if "((mutex_pcs s)(t := p')) w = M_Sleep" for w
  proof -
    have "mutex_pcs s w = M_Sleep" using that free(3) by (auto split: if_splits)
    then consider "mutex s = -1" | u where "mutex_pcs s u \<in> {M_Wake, M_Exch}" using inv unfolding mutex_inv_def by auto
    then show ?thesis
    proof cases
      case 1 then show ?thesis using free(4) by auto
    next
      case (2 u) then show ?thesis using free(2) by (intro exI [of _ u]) auto
    qed
  qed
  have o: "\<forall>u \<ge> T. ((mutex_pcs s)(t := p')) u = M_Out" using inv t by (simp add: mutex_inv_def)
  have h: "((mutex_pcs s)(t := p')) u \<noteq> M_Hold" for u using none free(3) by auto
  have s': "mutex (mutex_step T c t s) = 0" "mutex_pcs (mutex_step T c t s) = (mutex_pcs s)(t := p')"
    unfolding free(1) by simp_all
  show ?thesis unfolding mutex_inv_def s' using o h l by (intro conjI) blast+
next
  case (wake v)
  let ?f = "(mutex_pcs s)(t := M_Out, v := M_Exch)"
  have s': "mutex (mutex_step T c t s) = mutex s" "mutex_pcs (mutex_step T c t s) = ?f"
    unfolding wake(1) by simp_all
  have h: "?f u = M_Hold \<longleftrightarrow> mutex_pcs s u = M_Hold" for u using wake(2,4) by auto
  have "\<not> T \<le> v" using inv wake(4) by (auto simp: mutex_inv_def)
  then have o: "\<forall>u \<ge> T. ?f u = M_Out" using inv by (auto simp: mutex_inv_def)
  have l: "?f v \<in> {M_Wake, M_Exch}" by simp
  show ?thesis unfolding mutex_inv_def s' h using o l inv unfolding mutex_inv_def by (intro conjI) blast+
next
  case no_wake
  let ?f = "(mutex_pcs s)(t := M_Out)"
  have s': "mutex (mutex_step T c t s) = mutex s" "mutex_pcs (mutex_step T c t s) = ?f"
    unfolding no_wake(1) by simp_all
  have h: "?f u = M_Hold \<longleftrightarrow> mutex_pcs s u = M_Hold" for u using no_wake(2) by auto
  have o: "\<forall>u \<ge> T. ?f u = M_Out" using inv t by (simp add: mutex_inv_def)
  have l: "?f u \<noteq> M_Sleep" for u
    using no_wake(3) o by (cases "u < T") auto
  show ?thesis unfolding mutex_inv_def s' h using o l inv unfolding mutex_inv_def by (intro conjI) blast+
qed

lemma mutex_reach_inv: "mutex_reach T s \<Longrightarrow> mutex_inv T s"
proof (induction rule: mutex_reach.induct)
  case start
  show ?case by (simp add: mutex_inv_def mutex_start_def gomp_mutex_init_def)
next
  case (step s t c)
  then show ?case by (simp add: mutex_inv_step)
qed

subsection \<open>Runs\<close>

text \<open>\<open>mutex_run\<close>: a list of threads that step, each with what the environment contributes.
  \<open>mutex_taken_within\<close>: whatever the environment contributes, at most \<open>k\<close> steps of threads that are
  awake and in the middle of an operation make somebody the holder.\<close>

definition mutex_run :: "nat \<Rightarrow> (nat \<times> nat) list \<Rightarrow> mutex_sys \<Rightarrow> mutex_sys" where
  "mutex_run T evs s = fold (\<lambda>(t, c). mutex_step T c t) evs s"

primrec mutex_taken_within :: "nat \<Rightarrow> nat \<Rightarrow> mutex_sys \<Rightarrow> bool" where
  "mutex_taken_within T 0 s = (\<exists>t < T. mutex_pcs s t = M_Hold)"
| "mutex_taken_within T (Suc k) s = ((\<exists>t < T. mutex_pcs s t = M_Hold)
     \<or> (\<exists>t < T. mutex_pcs s t \<notin> {M_Out, M_Sleep} \<and> (\<forall>c. mutex_taken_within T k (mutex_step T c t s))))"

lemma mutex_run_reach: "mutex_reach T s \<Longrightarrow> \<forall>(t, c) \<in> set evs. t < T \<Longrightarrow> mutex_reach T (mutex_run T evs s)"
  by (induction evs arbitrary: s) (auto simp: mutex_run_def intro: mutex_reach.step)

lemma taken_step:
  assumes "t < T" "mutex_pcs s t \<notin> {M_Out, M_Sleep}" "\<And>c. mutex_taken_within T k (mutex_step T c t s)"
  shows "mutex_taken_within T (Suc k) s"
  using assms by auto

lemma taken_now: "t < T \<Longrightarrow> mutex_pcs s t = M_Hold \<Longrightarrow> mutex_taken_within T k s"
  by (cases k) auto

declare mutex_taken_within.simps [simp del]

lemma taken_by_exchange:
  assumes "t < T" "mutex s = 0" "mutex_pcs s t \<in> {M_Cas, M_Test, M_Mark, M_Retry, M_Exch}"
  shows "mutex_taken_within T (Suc k) s"
proof (rule taken_step [OF assms(1)])
  show "mutex_pcs s t \<notin> {M_Out, M_Sleep}" using assms(3) by auto
  show "mutex_taken_within T k (mutex_step T c t s)" for c
    using assms(2,3) by (intro taken_now [OF assms(1)])
      (auto simp: mutex_step_def gomp_mutex_lock_def gomp_test_lock_30_def)
qed

lemma taken_by_awake:
  assumes t: "t < T" and m: "mutex s = 0" and p: "waits_awake (mutex_pcs s t)"
  shows "mutex_taken_within T 3 s"
proof -
  note step = mutex_step_def do_spin_def
  have three: "(3::nat) = Suc (Suc (Suc 0))" by simp
  have futex: "mutex_taken_within T (Suc (Suc k)) r" if "mutex r = 0" "mutex_pcs r t = M_Futex" for r k
    by (rule taken_step [OF t]) (use that t in \<open>auto intro!: taken_by_exchange [of t] simp: step\<close>)
  show ?thesis
  proof (cases "mutex_pcs s t")
    case (M_Spin i)
    show ?thesis unfolding three
      by (rule taken_step [OF t]) (use M_Spin m t in \<open>auto intro!: taken_by_exchange [of t] simp: step\<close>)
  next
    case (M_Spin2 i)
    show ?thesis unfolding three
    proof (rule taken_step [OF t])
      show "mutex_taken_within T (Suc (Suc 0)) (mutex_step T c t s)" for c
        using M_Spin2 m t futex [of "mutex_step T c t s" 0]
        by (cases i) (auto intro!: taken_by_exchange [of t] simp: step)
    qed (use M_Spin2 in auto)
  next
    case M_Futex
    show ?thesis unfolding three by (rule futex [OF m M_Futex])
  qed (use p m t in \<open>auto simp: waits_awake_def three intro: taken_by_exchange\<close>)
qed

lemma taken_by_wake:
  assumes t: "t < T" and m: "mutex s = 0" and p: "mutex_pcs s t = M_Wake" and v: "v < T" "mutex_pcs s v = M_Sleep"
    and out: "\<forall>u \<ge> T. mutex_pcs s u = M_Out"
  shows "mutex_taken_within T (Suc (Suc k)) s"
proof (rule taken_step [OF t])
  show "mutex_taken_within T (Suc k) (mutex_step T c t s)" for c
  proof (cases rule: mutex_step_cases [of T c t s])
    case (wake w)
    then have "w < T" using out by (metis linorder_not_le mutex_pc.distinct(13))
    moreover have "mutex (mutex_step T c t s) = 0" "mutex_pcs (mutex_step T c t s) w = M_Exch"
      unfolding wake(1) using m by simp_all
    ultimately show ?thesis by (intro taken_by_exchange [of w]) simp_all
  next
    case no_wake
    then show ?thesis using v by simp
  qed (use p in simp_all)
qed (use p in simp)

text \<open>
  C10. The mutex excludes: in every interleaving of the steps of any number of threads, with the kernel waking
  whom it likes and sleepers returning early, at most one thread holds the mutex, and the word is 0
  exactly when none does; it has no other values than 0, 1 and -1.
\<close>

theorem mutex_excludes:
  assumes "mutex_reach T s"
  shows "(\<forall>t u. mutex_pcs s t = M_Hold \<and> mutex_pcs s u = M_Hold \<longrightarrow> t = u)
    \<and> (mutex s = 0 \<longleftrightarrow> (\<forall>t. mutex_pcs s t \<noteq> M_Hold)) \<and> mutex s \<in> {0, 1, -1}"
  using mutex_reach_inv [OF assms] unfolding mutex_inv_def by blast

text \<open>Thread 1 falls asleep while thread 0 holds the mutex, which then frees it and has yet to wake 1.\<close>

definition mutex_example :: mutex_sys where
  "mutex_example = mutex_run 2 [(0, 0), (0, 0), (1, 0), (1, 0), (1, 0), (1, 0), (1, 0), (0, 0)] mutex_start"

lemma mutex_example_reach: "mutex_reach 2 mutex_example"
  unfolding mutex_example_def by (rule mutex_run_reach [OF mutex_reach.start]) simp

lemma mutex_example_simps: "mutex mutex_example = 0" "mutex_pcs mutex_example 0 = M_Wake" "mutex_pcs mutex_example 1 = M_Sleep"
  by (simp_all add: mutex_example_def mutex_run_def mutex_start_def mutex_step_def gomp_mutex_init_def
      gomp_mutex_lock_def lock_slow_test_def do_spin_def gomp_mutex_unlock_def)

theorem mutex_excludes_witness:
  "(mutex mutex_example = 0 \<longleftrightarrow> (\<forall>t. mutex_pcs mutex_example t \<noteq> M_Hold))
    \<and> mutex_pcs mutex_example 1 = M_Sleep"
  using mutex_excludes [OF mutex_example_reach] mutex_example_simps by blast

text \<open>
  C11. No wake-up is lost: when the mutex is free and a thread wants it, even if it is asleep, then at most
  three steps of threads that are awake and in the middle of an operation make somebody its holder,
  whatever the environment does. Nobody new has to come.
\<close>

theorem mutex_free_is_taken:
  assumes r: "mutex_reach T s" and m: "mutex s = 0" and w: "mutex_pcs s t \<notin> {M_Out, M_Wake}"
  shows "mutex_taken_within T 3 s"
proof -
  note inv = mutex_reach_inv [OF r, unfolded mutex_inv_def]
  have lt: "mutex_pcs s u \<noteq> M_Out \<Longrightarrow> u < T" for u using inv by (metis linorder_not_le)
  have nh: "mutex_pcs s u \<noteq> M_Hold" for u using inv m by blast
  show ?thesis
  proof (cases "mutex_pcs s t = M_Sleep")
    case False
    then show ?thesis using w nh lt [of t] by (intro taken_by_awake [OF _ m]) (auto simp: waits_awake_def)
  next
    case True
    then obtain u where u: "mutex_pcs s u \<in> {M_Wake, M_Exch}" using inv m by auto
    have "u < T" using u by (intro lt) auto
    then show ?thesis
    proof (cases "mutex_pcs s u = M_Wake")
      case wake: True
      have "mutex_taken_within T (Suc (Suc 1)) s"
        using inv True lt [of t] by (intro taken_by_wake [OF \<open>u < T\<close> m wake _ True]) auto
      then show ?thesis by (simp add: numeral_3_eq_3)
    next
      case False
      then show ?thesis using u \<open>u < T\<close> by (intro taken_by_awake [OF _ m]) (auto simp: waits_awake_def)
    qed
  qed
qed

theorem mutex_free_is_taken_witness: "mutex_taken_within 2 3 mutex_example"
  using mutex_free_is_taken [OF mutex_example_reach, of 1] mutex_example_simps by simp

end
