(* ===== verification/Semaphore.thy ===== *)
theory Semaphore
  imports Mutex
begin

unbundle bit_operations_syntax

text \<open>
  The counting semaphore of \<open>gcc/libgomp/config/linux/sem.h\<close> and \<open>sem.c\<close>: one \<open>int\<close> whose low 31 bits are
  the count and whose top bit says that somebody may sleep. Any number of threads wait and post, one
  step for each access to the word; a weak compare-and-swap may fail for no reason.
\<close>

abbreviation SEM_WAIT :: "32 word" where "SEM_WAIT \<equiv> 0x80000000"
abbreviation SEM_INC :: "32 word" where "SEM_INC \<equiv> 1"

subsection \<open>The steps\<close>

text \<open>\<open>S_Load\<close>, \<open>S_Fast\<close>: in \<open>gomp_sem_wait\<close>; \<open>S_Spin\<close> to \<open>S_Take\<close>: the first loop of
  \<open>gomp_sem_wait_slow\<close>; \<open>S_Futex\<close> to \<open>S_Reload\<close>: asleep, and reading the word again; \<open>S_Slow\<close>, \<open>S_Spin2\<close>: the
  second loop; \<open>S_More\<close>: waking another one; \<open>P_Load\<close> to \<open>P_Wake\<close>: in \<open>gomp_sem_post\<close>. The argument is
  the local \<open>count\<close>.\<close>

datatype sem_pc = S_Out | S_Load | S_Fast "32 word" | S_Spin nat | S_Set | S_Read | S_Take "32 word"
  | S_Futex | S_Sleep | S_Reload | S_Slow "32 word" | S_Spin2 nat | S_More | P_Load | P_Cas "32 word" | P_Wake

definition gomp_sem_init :: "nat \<Rightarrow> 32 word" where
  "gomp_sem_init value = of_nat value * SEM_INC"

definition sem_slow_test :: "32 word \<Rightarrow> nat \<Rightarrow> sem_pc" where
  "sem_slow_test cnt c = (if cnt = 0 then S_Spin c else S_Slow cnt)"

definition sem_wait_test :: "32 word \<Rightarrow> nat \<Rightarrow> sem_pc" where
  "sem_wait_test cnt c = (if cnt AND NOT SEM_WAIT \<noteq> 0 then S_Fast cnt else sem_slow_test cnt c)"

text \<open>A step gives the new word, the new place, and whether it has taken one from the count.\<close>

definition gomp_sem_wait :: "bool \<Rightarrow> nat \<Rightarrow> 32 word \<Rightarrow> sem_pc \<Rightarrow> 32 word \<times> sem_pc \<times> bool" where
  "gomp_sem_wait fails c w p = (case p of
     S_Load \<Rightarrow> (w, sem_wait_test w c, False)
   | S_Fast cnt \<Rightarrow> if w = cnt \<and> \<not> fails then (cnt - SEM_INC, S_Out, True) else (w, sem_wait_test w c, False)
   | _ \<Rightarrow> (w, p, False))"

fun gomp_sem_wait_slow :: "bool \<Rightarrow> nat \<Rightarrow> 32 word \<Rightarrow> sem_pc \<Rightarrow> 32 word \<times> sem_pc \<times> bool" where
  "gomp_sem_wait_slow early c w (S_Spin i) =
    (w, case do_spin w 0 i of None \<Rightarrow> S_Spin (i - 1) | Some r \<Rightarrow> if r \<noteq> 0 then S_Set else S_Read, False)"
| "gomp_sem_wait_slow early c w S_Set = (if w = 0 then (SEM_WAIT, S_Futex, False) else (w, S_Read, False))"
| "gomp_sem_wait_slow early c w S_Read =
    (w, if w AND SEM_WAIT = 0 \<and> w \<noteq> 0 then S_Take w else sem_slow_test w c, False)"
| "gomp_sem_wait_slow early c w (S_Take cnt) =
    (if w = cnt then (cnt - SEM_INC, S_Out, True) else (w, sem_slow_test w c, False))"
| "gomp_sem_wait_slow early c w S_Futex = (w, if w = SEM_WAIT then S_Sleep else S_Reload, False)"
| "gomp_sem_wait_slow early c w S_Sleep = (w, if early then S_Reload else S_Sleep, False)"
| "gomp_sem_wait_slow early c w S_Reload = (w, S_Slow w, False)"
| "gomp_sem_wait_slow early c w (S_Slow cnt) =
    (let wake = cnt AND NOT SEM_WAIT; newval = (if wake \<noteq> 0 then SEM_WAIT OR (wake - SEM_INC) else SEM_WAIT)
     in if w = cnt
        then (if wake \<noteq> 0 then (newval, if wake > SEM_INC then S_More else S_Out, True)
              else (newval, S_Spin2 c, False))
        else (w, S_Slow w, False))"
| "gomp_sem_wait_slow early c w (S_Spin2 i) =
    (w, case do_spin w SEM_WAIT i of None \<Rightarrow> S_Spin2 (i - 1) | Some r \<Rightarrow> if r \<noteq> 0 then S_Futex else S_Reload, False)"
| "gomp_sem_wait_slow early c w p = (w, p, False)"

text \<open>A step of a post gives the new word, the new place, and whether it has added one.\<close>

definition gomp_sem_post :: "bool \<Rightarrow> 32 word \<Rightarrow> sem_pc \<Rightarrow> 32 word \<times> sem_pc \<times> bool" where
  "gomp_sem_post fails w p = (case p of
     P_Load \<Rightarrow> (w, P_Cas w, False)
   | P_Cas cnt \<Rightarrow>
       if w = cnt \<and> \<not> fails
       then ((cnt + SEM_INC) AND NOT SEM_WAIT, if cnt AND SEM_WAIT \<noteq> 0 then P_Wake else S_Out, True)
       else (w, P_Cas w, False)
   | _ \<Rightarrow> (w, p, False))"

definition gomp_sem_post_slow :: "nat \<Rightarrow> nat \<Rightarrow> (nat \<Rightarrow> sem_pc) \<Rightarrow> nat \<Rightarrow> sem_pc" where
  "gomp_sem_post_slow T c pcs = futex_wake T c S_Sleep S_Reload pcs"

record sem_sys =
  sem :: "32 word"
  sem_pcs :: "nat \<Rightarrow> sem_pc"
  sem_waits :: nat
  sem_posts :: nat

definition sem_step :: "nat \<Rightarrow> bool \<Rightarrow> nat \<Rightarrow> nat \<Rightarrow> sem_sys \<Rightarrow> sem_sys" where
  "sem_step T b c t s =
    (let p = sem_pcs s t in
     if p = S_Out then s\<lparr>sem_pcs := (sem_pcs s)(t := if even c then S_Load else P_Load)\<rparr>
     else if p \<in> {S_More, P_Wake} then s\<lparr>sem_pcs := gomp_sem_post_slow T c ((sem_pcs s)(t := S_Out))\<rparr>
     else if p = P_Load \<or> (case p of P_Cas _ \<Rightarrow> True | _ \<Rightarrow> False)
     then let (w, p', added) = gomp_sem_post b (sem s) p
          in s\<lparr>sem := w, sem_pcs := (sem_pcs s)(t := p'), sem_posts := sem_posts s + (if added then 1 else 0)\<rparr>
     else let (w, p', taken) = (case p of S_Load \<Rightarrow> gomp_sem_wait b c (sem s) p | S_Fast _ \<Rightarrow> gomp_sem_wait b c (sem s) p
                | _ \<Rightarrow> gomp_sem_wait_slow b c (sem s) p)
          in s\<lparr>sem := w, sem_pcs := (sem_pcs s)(t := p'), sem_waits := sem_waits s + (if taken then 1 else 0)\<rparr>)"

definition sem_start :: "nat \<Rightarrow> sem_sys" where
  "sem_start value = \<lparr>sem = gomp_sem_init value, sem_pcs = (\<lambda>t. S_Out), sem_waits = 0, sem_posts = 0\<rparr>"

inductive sem_reach :: "nat \<Rightarrow> nat \<Rightarrow> sem_sys \<Rightarrow> bool" for T n where
  start: "sem_reach T n (sem_start n)"
| step: "sem_reach T n s \<Longrightarrow> t < T \<Longrightarrow> sem_reach T n (sem_step T b c t s)"

subsection \<open>The word\<close>

definition sem_value :: "32 word \<Rightarrow> nat" where "sem_value w = unat (take_bit 31 w)"

lemma count_bits: "w AND NOT SEM_WAIT = take_bit 31 (w :: 32 word)"
proof (rule bit_word_eqI)
  fix n :: nat
  assume n: "n < LENGTH(32)"
  have "bit SEM_WAIT n \<longleftrightarrow> n = 31"
    using bit_exp_iff [of 31 n, where 'a = "32 word"] by (auto simp: possible_bit_def)
  then show "bit (w AND NOT SEM_WAIT) n = bit (take_bit 31 w) n"
    using n unfolding bit_and_iff bit_not_iff bit_take_bit_iff by (auto simp: possible_bit_def)
qed

lemmas count_bits_simps = count_bits count_bits [simplified]

lemma wait_bit: "w AND SEM_WAIT = 0 \<longleftrightarrow> \<not> bit (w :: 32 word) 31"
  using and_exp_eq_0_iff_not_bit [of w 31] by simp

lemma sem_value_zero: "sem_value w = 0 \<longleftrightarrow> take_bit 31 w = 0"
  by (simp add: sem_value_def unat_eq_0)

lemma sem_value_mod: "sem_value w = unat w mod 2 ^ 31"
  unfolding sem_value_def unsigned_take_bit_eq by (rule take_bit_eq_mod)

lemma sem_value_wait [simp]: "sem_value SEM_WAIT = 0" "sem_value 0 = 0"
  by (simp_all add: sem_value_mod)

lemma sem_value_take_bit [simp]: "sem_value (take_bit 31 w) = sem_value w"
  by (simp add: sem_value_def)

lemma sem_value_post:
  assumes "sem_value w + 1 < 2 ^ 31"
  shows "sem_value ((w + SEM_INC) AND NOT SEM_WAIT) = sem_value w + 1"
proof -
  have "unat (w + 1) mod 2 ^ 31 = (unat w + 1) mod 2 ^ 31"
    by (simp add: unat_word_ariths mod_mod_cancel)
  also have "\<dots> = (unat w mod 2 ^ 31 + 1) mod 2 ^ 31" by (simp only: mod_add_left_eq)
  also have "\<dots> = unat w mod 2 ^ 31 + 1" using assms by (simp add: sem_value_mod)
  finally show ?thesis unfolding count_bits sem_value_take_bit by (simp add: sem_value_mod)
qed

lemma sem_value_take:
  assumes "sem_value w \<noteq> 0"
  shows "sem_value (w - SEM_INC) + 1 = sem_value w"
proof -
  have "unat w \<noteq> 0" using assms by (auto simp: sem_value_mod)
  then have "unat (w - 1) = unat w - 1" by (simp add: unat_minus_one unat_eq_0)
  moreover have "(unat w - 1) mod 2 ^ 31 + 1 = unat w mod 2 ^ 31"
    using assms mod_Suc [of "unat w - 1" "2 ^ 31"] by (auto simp: sem_value_mod split: if_splits)
  ultimately show ?thesis by (simp add: sem_value_mod)
qed

lemma sem_value_slow:
  assumes "sem_value w \<noteq> 0"
  shows "sem_value (SEM_WAIT OR (take_bit 31 w - SEM_INC)) + 1 = sem_value w"
proof -
  have "take_bit 31 (SEM_WAIT OR (take_bit 31 w - 1)) = take_bit 31 (take_bit 31 w - 1)"
    by (simp add: take_bit_or)
  then have "sem_value (SEM_WAIT OR (take_bit 31 w - 1)) = sem_value (take_bit 31 w - 1)"
    by (simp add: sem_value_def)
  then show ?thesis using sem_value_take [of "take_bit 31 w"] assms by simp
qed

lemma sem_unmarked:
  assumes "w AND SEM_WAIT = 0" "w \<noteq> 0"
  shows "sem_value w \<noteq> 0"
proof
  assume "sem_value w = 0"
  then have z: "take_bit 31 w = 0" by (simp add: sem_value_zero)
  have "\<not> bit w n" for n
  proof (cases "n < 31")
    case True
    then have "bit w n = bit (take_bit 31 w) n" by (simp add: bit_take_bit_iff)
    then show ?thesis using z by simp
  next
    case False
    then show ?thesis using assms(1) bit_imp_le_length [of w n] unfolding wait_bit
      by (cases "n = 31") auto
  qed
  then show False using assms(2) by (simp add: bit_eq_iff)
qed

lemma sem_slow_last: "sem_value w = 1 \<Longrightarrow> SEM_WAIT OR (take_bit 31 w - SEM_INC) = SEM_WAIT"
proof -
  assume "sem_value w = 1"
  then have "take_bit 31 w = 1" unfolding sem_value_def by (metis unat_1 unsigned_word_eqI)
  then show ?thesis by simp
qed

lemma sem_more_iff: "take_bit 31 w > SEM_INC \<longleftrightarrow> sem_value w > 1"
  unfolding sem_value_def by (simp add: word_less_nat_alt)

subsection \<open>What a step can do\<close>

definition sem_local :: "sem_pc \<Rightarrow> bool" where
  "sem_local p = (case p of S_Take cnt \<Rightarrow> cnt AND SEM_WAIT = 0 \<and> cnt \<noteq> 0 | S_Fast cnt \<Rightarrow> sem_value cnt \<noteq> 0 | _ \<Rightarrow> True)"

text \<open>A thread that is about to wake another one, or to mark the word or wake another one.\<close>

definition sem_pending :: "sem_pc \<Rightarrow> bool" where
  "sem_pending p = (case p of P_Wake \<Rightarrow> True | S_More \<Rightarrow> True | S_Reload \<Rightarrow> True | S_Slow _ \<Rightarrow> True | _ \<Rightarrow> False)"

lemma sem_local_simps [simp]:
  "sem_local S_Out" "sem_local S_Load" "sem_local (S_Spin i)" "sem_local S_Set" "sem_local S_Read" "sem_local S_Futex"
  "sem_local S_Sleep" "sem_local S_Reload" "sem_local (S_Slow w)" "sem_local (S_Spin2 i)" "sem_local S_More"
  "sem_local P_Load" "sem_local (P_Cas w)" "sem_local P_Wake"
  "sem_local (S_Take w) \<longleftrightarrow> w AND SEM_WAIT = 0 \<and> w \<noteq> 0" "sem_local (S_Fast w) \<longleftrightarrow> sem_value w \<noteq> 0"
  by (simp_all add: sem_local_def)

lemma sem_pending_simps [simp]:
  "\<not> sem_pending S_Out" "\<not> sem_pending S_Load" "\<not> sem_pending (S_Spin i)" "\<not> sem_pending S_Set" "\<not> sem_pending S_Read"
  "\<not> sem_pending S_Futex" "\<not> sem_pending S_Sleep" "sem_pending S_Reload" "sem_pending (S_Slow w)" "\<not> sem_pending (S_Spin2 i)"
  "sem_pending S_More" "\<not> sem_pending P_Load" "\<not> sem_pending (P_Cas w)" "sem_pending P_Wake"
  "\<not> sem_pending (S_Take w)" "\<not> sem_pending (S_Fast w)"
  by (simp_all add: sem_pending_def)

lemma sem_slow_test_simps [simp]: "sem_local (sem_slow_test w c)" "sem_slow_test w c \<noteq> S_Sleep"
  by (simp_all add: sem_slow_test_def)

lemma sem_wait_test_simps [simp]: "sem_local (sem_wait_test w c)" "sem_wait_test w c \<noteq> S_Sleep"
  by (simp_all add: sem_wait_test_def count_bits_simps sem_value_zero)

lemma sem_wake_cases:
  assumes p: "sem_pcs s t \<in> {S_More, P_Wake}"
  obtains (wake) v where "sem_step T b c t s = s\<lparr>sem_pcs := (sem_pcs s)(t := S_Out, v := S_Reload)\<rparr>" "v \<noteq> t"
      "v < T" "sem_pcs s v = S_Sleep"
  | (no_wake) "sem_step T b c t s = s\<lparr>sem_pcs := (sem_pcs s)(t := S_Out)\<rparr>" "\<forall>u < T. sem_pcs s u \<noteq> S_Sleep"
proof -
  let ?f = "(sem_pcs s)(t := S_Out)"
  have s': "sem_step T b c t s = s\<lparr>sem_pcs := futex_wake T c S_Sleep S_Reload ?f\<rparr>"
    using p by (auto simp: sem_step_def gomp_sem_post_slow_def)
  show ?thesis
  proof (cases rule: futex_wake_cases [of T c S_Sleep S_Reload ?f])
    case none
    then have "\<forall>u < T. sem_pcs s u \<noteq> S_Sleep" using p by (auto split: if_splits)
    then show ?thesis using no_wake s' none by simp
  next
    case (one v)
    then have "v \<noteq> t" "sem_pcs s v = S_Sleep" by (auto split: if_splits)
    then show ?thesis using wake [of v] s' one by simp
  qed
qed

lemma sem_step_cases:
  fixes T b c t s
  defines "s' \<equiv> sem_step T b c t s" and "p \<equiv> sem_pcs s t"
  assumes loc: "sem_local p"
  obtains (move) p' where "s' = s\<lparr>sem_pcs := (sem_pcs s)(t := p')\<rparr>" "sem_pending p \<Longrightarrow> sem_pending p'"
      "p' = S_Sleep \<Longrightarrow> p = S_Sleep \<or> sem s = SEM_WAIT" "sem_local p'"
  | (take) w p' where "s' = s\<lparr>sem := w, sem_pcs := (sem_pcs s)(t := p'), sem_waits := Suc (sem_waits s)\<rparr>"
      "sem_value (sem s) = sem_value w + 1" "sem_pending p \<Longrightarrow> w = SEM_WAIT \<or> p' = S_More" "p' = S_Out \<or> p' = S_More"
  | (mark) p' where "s' = s\<lparr>sem := SEM_WAIT, sem_pcs := (sem_pcs s)(t := p')\<rparr>" "sem_value (sem s) = 0"
      "p' \<noteq> S_Sleep" "sem_local p'"
  | (post) p' where "s' = s\<lparr>sem := (sem s + SEM_INC) AND NOT SEM_WAIT, sem_pcs := (sem_pcs s)(t := p'), sem_posts := Suc (sem_posts s)\<rparr>"
      "\<not> sem_pending p" "sem s = SEM_WAIT \<Longrightarrow> p' = P_Wake" "p' = S_Out \<or> p' = P_Wake"
  | (wake) v where "s' = s\<lparr>sem_pcs := (sem_pcs s)(t := S_Out, v := S_Reload)\<rparr>" "p \<in> {S_More, P_Wake}" "v \<noteq> t"
      "sem_pcs s v = S_Sleep"
  | (no_wake) "s' = s\<lparr>sem_pcs := (sem_pcs s)(t := S_Out)\<rparr>" "p \<in> {S_More, P_Wake}" "\<forall>u < T. sem_pcs s u \<noteq> S_Sleep"
proof (cases "p \<in> {S_More, P_Wake}")
  case True
  then have "sem_pcs s t \<in> {S_More, P_Wake}" by (simp add: p_def)
  then show ?thesis
    by (rule sem_wake_cases [of s t T b c]) (use wake no_wake True in \<open>simp_all add: s'_def\<close>)
next
  case False
  note step = s'_def sem_step_def p_def [symmetric] Let_def
  show ?thesis
  proof (cases p)
    case S_Out then show ?thesis
      by (intro move [of "if even c then S_Load else P_Load"]) (simp_all add: step split: if_splits)
  next
    case S_Load then show ?thesis by (intro move [of "sem_wait_test (sem s) c"]) (simp_all add: step gomp_sem_wait_def)
  next
    case (S_Fast cnt) then show ?thesis
      using take [where w = "cnt - SEM_INC" and p' = S_Out] move [of "sem_wait_test (sem s) c"] sem_value_take [of cnt] loc
      by (cases "sem s = cnt \<and> \<not> b") (auto simp: step gomp_sem_wait_def)
  next
    case (S_Spin i) then show ?thesis
      by (intro move [of "if i = 0 then S_Set else if sem s \<noteq> 0 then S_Read else S_Spin (i - 1)"])
        (simp_all add: step do_spin_def split: if_splits)
  next
    case S_Set then show ?thesis
      using mark [of S_Futex] move [of S_Read] by (cases "sem s = 0") (simp_all add: step)
  next
    case S_Read then show ?thesis
      by (intro move [of "if sem s AND SEM_WAIT = 0 \<and> sem s \<noteq> 0 then S_Take (sem s) else sem_slow_test (sem s) c"])
        (simp_all add: step split: if_splits)
  next
    case (S_Take cnt) then show ?thesis
      using take [where w = "cnt - SEM_INC" and p' = S_Out] move [of "sem_slow_test (sem s) c"] sem_value_take [of cnt] loc sem_unmarked [of cnt]
      by (cases "sem s = cnt") (auto simp: step)
  next
    case S_Futex then show ?thesis
      by (intro move [of "if sem s = SEM_WAIT then S_Sleep else S_Reload"]) (simp_all add: step split: if_splits)
  next
    case S_Sleep then show ?thesis
      by (intro move [of "if b then S_Reload else S_Sleep"]) (simp_all add: step split: if_splits)
  next
    case S_Reload then show ?thesis by (intro move [of "S_Slow (sem s)"]) (simp_all add: step)
  next
    case (S_Slow cnt)
    consider "sem s \<noteq> cnt" | "sem s = cnt" "sem_value cnt = 0" | "sem s = cnt" "sem_value cnt \<noteq> 0" by blast
    then show ?thesis
    proof cases
      case 1 then show ?thesis using S_Slow by (intro move [of "S_Slow (sem s)"]) (simp_all add: step count_bits_simps)
    next
      case 2 then show ?thesis
        using S_Slow by (intro mark [of "S_Spin2 c"]) (simp_all add: step count_bits_simps sem_value_zero)
    next
      case 3
      then show ?thesis using S_Slow sem_value_slow [of cnt] sem_slow_last [of cnt]
        by (intro take [where w = "SEM_WAIT OR (take_bit 31 cnt - SEM_INC)" and p' = "if sem_value cnt > 1 then S_More else S_Out"])
          (auto simp: step count_bits_simps sem_value_zero [symmetric] sem_more_iff)
    qed
  next
    case (S_Spin2 i) then show ?thesis
      by (intro move [of "if i = 0 then S_Futex else if sem s \<noteq> SEM_WAIT then S_Reload else S_Spin2 (i - 1)"])
        (simp_all add: step do_spin_def split: if_splits)
  next
    case P_Load then show ?thesis by (intro move [of "P_Cas (sem s)"]) (simp_all add: step gomp_sem_post_def)
  next
    case (P_Cas cnt) then show ?thesis
      using post [of "if cnt AND SEM_WAIT \<noteq> 0 then P_Wake else S_Out"] move [of "P_Cas (sem s)"]
      by (cases "sem s = cnt \<and> \<not> b") (auto simp: step gomp_sem_post_def)
  qed (use False in simp_all)
qed

subsection \<open>Invariant\<close>

definition sem_inv :: "nat \<Rightarrow> nat \<Rightarrow> sem_sys \<Rightarrow> bool" where
  "sem_inv T n s \<longleftrightarrow>
    (\<forall>t. sem_local (sem_pcs s t))
  \<and> (\<forall>t \<ge> T. sem_pcs s t = S_Out)
  \<and> (n + sem_posts s < 2 ^ 31 \<longrightarrow> sem_value (sem s) + sem_waits s = n + sem_posts s)
  \<and> ((\<exists>t. sem_pcs s t = S_Sleep) \<longrightarrow> sem s = SEM_WAIT \<or> (\<exists>t. sem_pending (sem_pcs s t)))"

text \<open>A step of \<open>t\<close> to \<open>p'\<close> that writes \<open>w\<close> keeps the last part if the thread stays pending, or nobody
  needs a wake.\<close>

lemma pending_kept:
  assumes "(\<exists>u. f u = S_Sleep) \<longrightarrow> w = SEM_WAIT \<or> (\<exists>u. sem_pending (f u))"
    and "p' = S_Sleep \<Longrightarrow> f t = S_Sleep \<or> w' = SEM_WAIT"
    and "w = SEM_WAIT \<Longrightarrow> w' = SEM_WAIT \<or> sem_pending p'"
    and "sem_pending (f t) \<Longrightarrow> w' = SEM_WAIT \<or> sem_pending p'"
  shows "(\<exists>u. (f(t := p')) u = S_Sleep) \<longrightarrow> w' = SEM_WAIT \<or> (\<exists>u. sem_pending ((f(t := p')) u))"
proof (intro impI)
  assume "\<exists>u. (f(t := p')) u = S_Sleep"
  then have "(\<exists>u. f u = S_Sleep) \<or> w' = SEM_WAIT" using assms(2) by (auto split: if_splits)
  then consider "w' = SEM_WAIT" | "w = SEM_WAIT" | u where "sem_pending (f u)" using assms(1) by blast
  then show "w' = SEM_WAIT \<or> (\<exists>u. sem_pending ((f(t := p')) u))"
  proof cases
    case 2 then show ?thesis using assms(3) by (metis fun_upd_same)
  next
    case (3 u)
    then show ?thesis using assms(4) by (cases "u = t") (metis fun_upd_same, metis fun_upd_other)
  qed simp
qed

lemma sem_inv_step:
  assumes inv: "sem_inv T n s" and t: "t < T"
  shows "sem_inv T n (sem_step T b c t s)"
proof -
  have loc: "sem_local (sem_pcs s u)" for u using inv by (simp add: sem_inv_def)
  have out: "\<forall>u \<ge> T. sem_pcs s u = S_Out" using inv by (simp add: sem_inv_def)
  have cnt: "n + sem_posts s < 2 ^ 31 \<Longrightarrow> sem_value (sem s) + sem_waits s = n + sem_posts s"
    using inv by (simp add: sem_inv_def)
  have pend: "(\<exists>u. sem_pcs s u = S_Sleep) \<longrightarrow> sem s = SEM_WAIT \<or> (\<exists>u. sem_pending (sem_pcs s u))"
    using inv unfolding sem_inv_def by blast
  let ?s' = "sem_step T b c t s"
  have one: "sem_inv T n ?s'" if "sem_pcs ?s' = (sem_pcs s)(t := p')" "sem_local p'"
      "n + sem_posts ?s' < 2 ^ 31 \<longrightarrow> sem_value (sem ?s') + sem_waits ?s' = n + sem_posts ?s'"
      "p' = S_Sleep \<Longrightarrow> sem_pcs s t = S_Sleep \<or> sem ?s' = SEM_WAIT"
      "sem s = SEM_WAIT \<Longrightarrow> sem ?s' = SEM_WAIT \<or> sem_pending p'"
      "sem_pending (sem_pcs s t) \<Longrightarrow> sem ?s' = SEM_WAIT \<or> sem_pending p'" for p'
    unfolding sem_inv_def that(1) using loc out t that(2,3) pending_kept [OF pend that(4-6)] by (intro conjI) simp_all
  show ?thesis
    using loc [of t]
  proof (cases rule: sem_step_cases [where s = s and t = t and T = T and b = b and c = c, consumes 1,
      case_names move take mark post wake no_wake])
    case (move p')
    then show ?thesis using cnt by (intro one [of p']) auto
  next
    case (take w p')
    have "sem s \<noteq> SEM_WAIT" using take(2) by auto
    then show ?thesis using take cnt by (intro one [of p']) auto
  next
    case (mark p')
    then show ?thesis using cnt by (intro one [of p']) auto
  next
    case (post p')
    have "sem_value ((sem s + SEM_INC) AND NOT SEM_WAIT) = sem_value (sem s) + 1" if "n + sem_posts s + 1 < 2 ^ 31"
      using that cnt by (intro sem_value_post) simp
    then show ?thesis using post cnt by (intro one [of p']) auto
  next
    case (wake v)
    have "\<not> T \<le> v" using out wake(4) by auto
    then have "\<forall>u \<ge> T. sem_pcs ?s' u = S_Out" using out wake(1) t by simp
    moreover have "\<forall>u. sem_local (sem_pcs ?s' u)" using loc wake(1) by simp
    moreover have "sem_pending (sem_pcs ?s' v)" using wake(1) by simp
    moreover have "n + sem_posts ?s' < 2 ^ 31 \<longrightarrow> sem_value (sem ?s') + sem_waits ?s' = n + sem_posts ?s'"
      using cnt wake(1) by simp
    ultimately show ?thesis unfolding sem_inv_def by blast
  next
    case no_wake
    have s': "sem_pcs ?s' = (sem_pcs s)(t := S_Out)" using no_wake(1) by simp
    have "sem_pcs ?s' u \<noteq> S_Sleep" for u
      unfolding s' using no_wake(3) out by (cases "u < T") auto
    moreover have "\<forall>u. sem_local (sem_pcs ?s' u)" "\<forall>u \<ge> T. sem_pcs ?s' u = S_Out"
      unfolding s' using loc out by simp_all
    ultimately show ?thesis unfolding sem_inv_def using cnt no_wake(1) by (intro conjI) auto
  qed
qed

lemma sem_reach_inv:
  assumes "sem_reach T n s" "n < 2 ^ 31"
  shows "sem_inv T n s"
  using assms
proof (induction rule: sem_reach.induct)
  case start
  then have "unat (of_nat n :: 32 word) = n" by (simp add: unsigned_of_nat take_bit_nat_eq_self)
  then show ?case using start by (simp add: sem_inv_def sem_start_def gomp_sem_init_def sem_value_mod)
next
  case (step s t b c)
  then show ?case by (simp add: sem_inv_step)
qed

subsection \<open>Progress\<close>

text \<open>\<open>sem_taken_within T k n s\<close>: whatever the environment contributes, except that a weak
  compare-and-swap does not fail and no sleeper returns early, at most \<open>k\<close> steps of threads that are
  awake and in the middle of an operation make the number of completed waits exceed \<open>n\<close>.\<close>

primrec sem_taken_within :: "nat \<Rightarrow> nat \<Rightarrow> nat \<Rightarrow> sem_sys \<Rightarrow> bool" where
  "sem_taken_within T 0 n s = (n < sem_waits s)"
| "sem_taken_within T (Suc k) n s = (n < sem_waits s
     \<or> (\<exists>t < T. sem_pcs s t \<notin> {S_Out, S_Sleep} \<and> (\<forall>c. sem_taken_within T k n (sem_step T False c t s))))"

lemma sem_taken_now: "n < sem_waits s \<Longrightarrow> sem_taken_within T k n s"
  by (cases k) auto

lemma sem_taken_step:
  assumes "t < T" "sem_pcs s t \<notin> {S_Out, S_Sleep}" "\<And>c. sem_taken_within T k n (sem_step T False c t s)"
  shows "sem_taken_within T (Suc k) n s"
  using assms by auto

declare sem_taken_within.simps [simp del]

text \<open>A step that leaves the word and the number of waits as they are.\<close>

lemma sem_taken_move:
  assumes "t < T" "sem_pcs s t \<notin> {S_Out, S_Sleep}"
    and "\<And>c. sem_step T False c t s = s\<lparr>sem_pcs := (sem_pcs s)(t := p)\<rparr>"
    and "\<And>r. sem r = sem s \<Longrightarrow> sem_waits r = sem_waits s \<Longrightarrow> sem_pcs r t = p \<Longrightarrow> sem_taken_within T k n r"
  shows "sem_taken_within T (Suc k) n s"
  by (rule sem_taken_step [OF assms(1,2)]) (simp add: assms(3,4))

text \<open>From where a waiting thread is, with a positive count that nobody else changes.\<close>

lemma sem_taken_1:
  assumes "t < T" "sem_pcs s t \<in> {S_Fast (sem s), S_Take (sem s), S_Slow (sem s)}" "sem_value (sem s) \<noteq> 0"
  shows "sem_taken_within T (Suc k) (sem_waits s) s"
proof (rule sem_taken_step [OF assms(1)])
  show "sem_taken_within T k (sem_waits s) (sem_step T False c t s)" for c
    using assms(2,3) by (intro sem_taken_now)
      (auto simp: sem_step_def gomp_sem_wait_def Let_def count_bits_simps sem_value_zero)
qed (use assms(2) in auto)

lemma sem_taken_2:
  assumes t: "t < T" and p: "sem_pcs s t = S_Load \<or> sem_pcs s t = S_Fast w \<or> sem_pcs s t = S_Slow w
      \<or> sem_pcs s t = S_Reload \<or> sem_pcs s t = S_Take w" and v: "sem_value (sem s) \<noteq> 0"
  shows "sem_taken_within T (Suc (Suc k)) (sem_waits s) s"
proof -
  have nz: "sem s \<noteq> 0" "take_bit 31 (sem s) \<noteq> 0" using v by (auto simp: sem_value_zero)
  note tests = sem_wait_test_def sem_slow_test_def count_bits_simps nz
  show ?thesis
  proof (cases "sem_pcs s t \<in> {S_Fast (sem s), S_Take (sem s), S_Slow (sem s)}")
    case True
    then show ?thesis by (rule sem_taken_1 [OF t _ v])
  next
    case False
    define q where "q = (if sem_pcs s t = S_Load \<or> sem_pcs s t = S_Fast w then S_Fast (sem s) else S_Slow (sem s))"
    have a: "sem_step T False c t s = s\<lparr>sem_pcs := (sem_pcs s)(t := q)\<rparr>" for c
      using p False by (auto simp: sem_step_def gomp_sem_wait_def Let_def q_def tests)
    have b: "sem_taken_within T (Suc k) (sem_waits s) r"
      if "sem r = sem s" "sem_waits r = sem_waits s" "sem_pcs r t = q" for r
      using sem_taken_1 [OF t, of r k] that v by (auto simp: q_def)
    show ?thesis by (rule sem_taken_move [OF t _ a b]) (use p in auto)
  qed
qed

lemma sem_taken_3:
  assumes t: "t < T" and p: "sem_pcs s t \<in> {S_Read, S_Futex}" and v: "sem_value (sem s) \<noteq> 0"
  shows "sem_taken_within T (Suc (Suc (Suc k))) (sem_waits s) s"
proof -
  have nz: "sem s \<noteq> 0" "sem s \<noteq> SEM_WAIT" using v by auto
  define q where "q = (if sem_pcs s t = S_Futex then S_Reload
    else if sem s AND SEM_WAIT = 0 then S_Take (sem s) else S_Slow (sem s))"
  have a: "sem_step T False c t s = s\<lparr>sem_pcs := (sem_pcs s)(t := q)\<rparr>" for c
    using p nz by (auto simp: sem_step_def Let_def q_def sem_slow_test_def)
  have b: "sem_taken_within T (Suc (Suc k)) (sem_waits s) r"
    if "sem r = sem s" "sem_waits r = sem_waits s" "sem_pcs r t = q" for r
    using sem_taken_2 [OF t, of r "sem r" k] that v by (auto simp: q_def split: if_splits)
  show ?thesis by (rule sem_taken_move [OF t _ a b]) (use p in auto)
qed

lemma sem_taken_4:
  assumes t: "t < T" and p: "sem_pcs s t = S_Set \<or> (\<exists>i. sem_pcs s t = S_Spin2 i)" and v: "sem_value (sem s) \<noteq> 0"
  shows "sem_taken_within T (Suc (Suc (Suc (Suc k)))) (sem_waits s) s"
proof -
  have nz: "sem s \<noteq> 0" "sem s \<noteq> SEM_WAIT" using v by auto
  define q where "q = (if sem_pcs s t = S_Set then S_Read else if sem_pcs s t = S_Spin2 0 then S_Futex else S_Reload)"
  have a: "sem_step T False c t s = s\<lparr>sem_pcs := (sem_pcs s)(t := q)\<rparr>" for c
    using p nz by (auto simp: sem_step_def Let_def q_def do_spin_def)
  have b: "sem_taken_within T (Suc (Suc (Suc k))) (sem_waits s) r"
    if "sem r = sem s" "sem_waits r = sem_waits s" "sem_pcs r t = q" for r
    using sem_taken_3 [OF t, of r k] sem_taken_2 [OF t, of r w "Suc k"] that v by (auto simp: q_def split: if_splits)
  show ?thesis by (rule sem_taken_move [OF t _ a b]) (use p in auto)
qed

lemma sem_taken_5:
  assumes t: "t < T" and p: "sem_pcs s t = S_Spin i" and v: "sem_value (sem s) \<noteq> 0"
  shows "sem_taken_within T (Suc (Suc (Suc (Suc (Suc k))))) (sem_waits s) s"
proof -
  have nz: "sem s \<noteq> 0" using v by auto
  define q where "q = (if i = 0 then S_Set else S_Read)"
  have a: "sem_step T False c t s = s\<lparr>sem_pcs := (sem_pcs s)(t := q)\<rparr>" for c
    using p nz by (auto simp: sem_step_def Let_def q_def do_spin_def)
  have b: "sem_taken_within T (Suc (Suc (Suc (Suc k)))) (sem_waits s) r"
    if "sem r = sem s" "sem_waits r = sem_waits s" "sem_pcs r t = q" for r
    using sem_taken_4 [OF t, of r k] sem_taken_3 [OF t, of r "Suc k"] that v by (auto simp: q_def split: if_splits)
  show ?thesis by (rule sem_taken_move [OF t _ a b]) (use p in auto)
qed

lemma sem_taken_wake:
  assumes t: "t < T" and p: "sem_pcs s t \<in> {S_More, P_Wake}" and v: "u < T" "sem_pcs s u = S_Sleep"
    and val: "sem_value (sem s) \<noteq> 0"
  shows "sem_taken_within T (Suc (Suc (Suc k))) (sem_waits s) s"
proof (rule sem_taken_step [OF t])
  show "sem_taken_within T (Suc (Suc k)) (sem_waits s) (sem_step T False c t s)" for c
    using p
  proof (cases rule: sem_wake_cases [where s = s and t = t and T = T and b = False and c = c, consumes 1, case_names wake no_wake])
    case (wake w)
    have "sem (sem_step T False c t s) = sem s" "sem_waits (sem_step T False c t s) = sem_waits s"
      "sem_pcs (sem_step T False c t s) w = S_Reload" unfolding wake(1) by simp_all
    then show ?thesis using sem_taken_2 [OF wake(3), of "sem_step T False c t s" 0 k] val by simp
  next
    case no_wake
    then show ?thesis using v by simp
  qed
qed (use p in auto)

subsection \<open>The properties\<close>

text \<open>Thread 0 waits on a semaphore without count and falls asleep; thread 1 posts and has yet to wake it.\<close>

definition sem_run :: "nat \<Rightarrow> (nat \<times> nat) list \<Rightarrow> sem_sys \<Rightarrow> sem_sys" where
  "sem_run T evs s = fold (\<lambda>(t, c). sem_step T False c t) evs s"

lemma sem_run_reach: "sem_reach T n s \<Longrightarrow> \<forall>(t, c) \<in> set evs. t < T \<Longrightarrow> sem_reach T n (sem_run T evs s)"
  by (induction evs arbitrary: s) (auto simp: sem_run_def intro: sem_reach.step)

definition sem_example :: sem_sys where
  "sem_example = sem_run 2 [(0, 0), (0, 0), (0, 0), (0, 0), (0, 0), (1, 1), (1, 0), (1, 0)] (sem_start 0)"

lemma sem_example_reach: "sem_reach 2 0 sem_example"
  unfolding sem_example_def by (rule sem_run_reach [OF sem_reach.start]) simp

lemma sem_example_simps: "sem sem_example = 1" "sem_pcs sem_example 0 = S_Sleep" "sem_pcs sem_example 1 = P_Wake"
  "sem_posts sem_example = 1" "sem_waits sem_example = 0"
  by (simp_all add: sem_example_def sem_run_def sem_start_def sem_step_def gomp_sem_init_def Let_def
      gomp_sem_wait_def gomp_sem_post_def sem_wait_test_def sem_slow_test_def do_spin_def count_bits_simps)

text \<open>One post too many loses the whole count.\<close>

lemma sem_post_wraps: "sem_value w = 2 ^ 31 - 1 \<Longrightarrow> sem_value ((w + SEM_INC) AND NOT SEM_WAIT) = 0"
proof -
  assume "sem_value w = 2 ^ 31 - 1"
  then have "Suc (unat w mod 2 ^ 31) = 2 ^ 31" by (simp add: sem_value_mod)
  moreover have "unat (w + 1) mod 2 ^ 31 = (unat w + 1) mod 2 ^ 31" by (simp add: unat_word_ariths mod_mod_cancel)
  ultimately show ?thesis unfolding count_bits sem_value_take_bit by (simp add: sem_value_mod mod_Suc)
qed

text \<open>
  C12. The count of a semaphore is exact and never goes below zero: in every interleaving of waits and
  posts, of which some sleep, spin or retry, the low 31 bits of the word are the initial value and the
  posts less the completed waits, as long as the initial value and the posts are fewer than \<open>2 ^ 31\<close> together (one
  more wraps to zero); so no more waits complete than there were posts for.
\<close>

theorem sem_count_exact:
  assumes "sem_reach T n s" and "n + sem_posts s < 2 ^ 31"
  shows "sem_waits s \<le> n + sem_posts s \<and> sem_value (sem s) = n + sem_posts s - sem_waits s"
proof -
  have "sem_inv T n s" using assms by (intro sem_reach_inv) simp_all
  then have "sem_value (sem s) + sem_waits s = n + sem_posts s" using assms(2) unfolding sem_inv_def by blast
  then show ?thesis by linarith
qed

theorem sem_count_exact_witness:
  "sem_waits sem_example \<le> 1 \<and> sem_value (sem sem_example) = 1"
  using sem_count_exact [OF sem_example_reach] by (simp add: sem_example_simps)

text \<open>
  C13. No post is lost on a sleeper: when the count is positive and a thread waits, even if all that wait are
  asleep, then at most five steps of threads that are awake and in the middle of an operation complete a
  wait, provided that a weak compare-and-swap does not fail for no reason and no sleeper returns early in these steps. So
  the wait flag, which a post clears, is set again or the wake passed on in time.
\<close>

theorem sem_post_reaches_waiter:
  assumes r: "sem_reach T n s" and n: "n < 2 ^ 31" and v: "0 < sem_value (sem s)"
    and w: "sem_pcs s t \<notin> {S_Out, S_More, P_Load, P_Wake} \<union> range P_Cas"
  shows "sem_taken_within T 5 (sem_waits s) s"
proof -
  note inv = sem_reach_inv [OF r n, unfolded sem_inv_def]
  have v': "sem_value (sem s) \<noteq> 0" using v by simp
  have lt: "sem_pcs s u \<noteq> S_Out \<Longrightarrow> u < T" for u using inv by (metis linorder_not_le)
  have t: "t < T" using w by (intro lt) auto
  have five: "5 = Suc (Suc (Suc (Suc (Suc 0))))" by simp
  show ?thesis unfolding five
  proof (cases "sem_pcs s t")
    case S_Sleep
    then obtain u where u: "sem_pending (sem_pcs s u)" using inv v by fastforce
    then have "u < T" by (intro lt) auto
    then show "sem_taken_within T (Suc (Suc (Suc (Suc (Suc 0))))) (sem_waits s) s"
      using u sem_taken_wake [OF \<open>u < T\<close> _ t S_Sleep v'] sem_taken_2 [OF \<open>u < T\<close> _ v'] by (cases "sem_pcs s u") auto
  qed (use w v' t in \<open>auto intro: sem_taken_2 sem_taken_3 sem_taken_4 sem_taken_5\<close>)
qed

theorem sem_post_reaches_waiter_witness: "sem_taken_within 2 5 0 sem_example"
  using sem_post_reaches_waiter [OF sem_example_reach, of 0] sem_example_simps by (simp add: sem_value_mod image_iff)

end
