(* ===== verification/Locks.thy ===== *)
theory Locks
  imports Mutex
begin

text \<open>
  The nested locks of OpenMP and the locks of critical sections: \<open>gcc/libgomp/lock.c\<close>, owned by a task, and the older ones of
  \<open>config/linux/lock.c\<close>, owned by a thread. Any number of owners set, test and unset one lock, one step
  for each access to a shared member. The mutex inside the first kind is held or free; that it excludes and that a
  free one is taken is the subject of \<open>Mutex\<close>. The older kind is a word with the owner and the futex on it.
\<close>

subsection \<open>The lock of a task\<close>

record nest_lock =
  nl_held :: bool
  nl_count :: c_int
  nl_owner :: "nat option"

definition gomp_init_nest_lock_30 :: nest_lock where
  "gomp_init_nest_lock_30 = \<lparr>nl_held = False, nl_count = 0, nl_owner = None\<rparr>"

text \<open>\<open>N_Lock\<close> to \<open>N_Count\<close>: in \<open>gomp_set_nest_lock_30\<close>; \<open>N_Inc\<close> to \<open>N_One\<close>: in \<open>gomp_test_nest_lock_30\<close>;
  \<open>N_Unown\<close>, \<open>N_Unlock\<close>: in \<open>gomp_unset_nest_lock_30\<close>.\<close>

datatype nest_pc = N_Out | N_Lock | N_Own | N_Count | N_Inc | N_Cas | N_Mine | N_One | N_Unown | N_Unlock

datatype nest_op = Nest_set | Nest_test | Nest_unset

definition nest_enter :: "nest_op \<Rightarrow> nat \<Rightarrow> nest_lock \<Rightarrow> nest_lock \<times> nest_pc" where
  "nest_enter opr me l = (case opr of
     Nest_set \<Rightarrow> (l, if nl_owner l \<noteq> Some me then N_Lock else N_Count)
   | Nest_test \<Rightarrow> (l, if nl_owner l = Some me then N_Inc else N_Cas)
   | Nest_unset \<Rightarrow> let c = s32 (nl_count l - 1) in (l\<lparr>nl_count := c\<rparr>, if c = 0 then N_Unown else N_Out))"

definition gomp_set_nest_lock_30 :: "nat \<Rightarrow> nest_pc \<Rightarrow> nest_lock \<Rightarrow> nest_lock \<times> nest_pc" where
  "gomp_set_nest_lock_30 me p l = (case p of
     N_Lock \<Rightarrow> if nl_held l then (l, N_Lock) else (l\<lparr>nl_held := True\<rparr>, N_Own)
   | N_Own \<Rightarrow> (l\<lparr>nl_owner := Some me\<rparr>, N_Count)
   | N_Count \<Rightarrow> (l\<lparr>nl_count := s32 (nl_count l + 1)\<rparr>, N_Out)
   | _ \<Rightarrow> (l, p))"

definition gomp_test_nest_lock_30 :: "nat \<Rightarrow> nest_pc \<Rightarrow> nest_lock \<Rightarrow> nest_lock \<times> nest_pc" where
  "gomp_test_nest_lock_30 me p l = (case p of
     N_Inc \<Rightarrow> (l\<lparr>nl_count := s32 (nl_count l + 1)\<rparr>, N_Out)
   | N_Cas \<Rightarrow> if nl_held l then (l, N_Out) else (l\<lparr>nl_held := True\<rparr>, N_Mine)
   | N_Mine \<Rightarrow> (l\<lparr>nl_owner := Some me\<rparr>, N_One)
   | N_One \<Rightarrow> (l\<lparr>nl_count := 1\<rparr>, N_Out)
   | _ \<Rightarrow> (l, p))"

definition gomp_unset_nest_lock_30 :: "nest_pc \<Rightarrow> nest_lock \<Rightarrow> nest_lock \<times> nest_pc" where
  "gomp_unset_nest_lock_30 p l = (case p of
     N_Unown \<Rightarrow> (l\<lparr>nl_owner := None\<rparr>, N_Unlock)
   | N_Unlock \<Rightarrow> (l\<lparr>nl_held := False\<rparr>, N_Out)
   | _ \<Rightarrow> (l, p))"

text \<open>\<open>depth t\<close>: how many of its sets and successful tests task \<open>t\<close> has completed and not undone.\<close>

record nest_sys =
  nest :: nest_lock
  nest_pcs :: "nat \<Rightarrow> nest_pc"
  depth :: "nat \<Rightarrow> nat"

definition nest_step :: "nat \<Rightarrow> nest_op \<Rightarrow> nest_sys \<Rightarrow> nest_sys" where
  "nest_step t opr s =
    (let p = nest_pcs s t;
         (l, p') = (if p = N_Out then nest_enter opr t (nest s)
                    else if p \<in> {N_Lock, N_Own, N_Count} then gomp_set_nest_lock_30 t p (nest s)
                    else if p \<in> {N_Inc, N_Cas, N_Mine, N_One} then gomp_test_nest_lock_30 t p (nest s)
                    else gomp_unset_nest_lock_30 p (nest s))
     in s\<lparr>nest := l, nest_pcs := (nest_pcs s)(t := p'),
          depth := (depth s)(t := (if p \<in> {N_Count, N_Inc, N_One} then Suc (depth s t)
                     else if p = N_Out \<and> opr = Nest_unset then depth s t - 1 else depth s t))\<rparr>)"

definition nest_start :: nest_sys where
  "nest_start = \<lparr>nest = gomp_init_nest_lock_30, nest_pcs = (\<lambda>t. N_Out), depth = (\<lambda>t. 0)\<rparr>"

text \<open>A task unsets only what it has set, and nests less than \<open>2 ^ 31 - 1\<close> deep.\<close>

definition nest_allowed :: "nat \<Rightarrow> nest_op \<Rightarrow> nest_sys \<Rightarrow> bool" where
  "nest_allowed t opr s \<longleftrightarrow> (nest_pcs s t = N_Out \<longrightarrow>
     (if opr = Nest_unset then 0 < depth s t else int (depth s t) < 2 ^ 31 - 1))"

inductive nest_reach :: "nest_sys \<Rightarrow> bool" where
  start: "nest_reach nest_start"
| step: "nest_reach s \<Longrightarrow> nest_allowed t opr s \<Longrightarrow> nest_reach (nest_step t opr s)"

subsection \<open>Its invariant\<close>

text \<open>Who is not in; what the lock looks like when \<open>t\<close> is the one that is in.\<close>

definition nest_out :: "nest_sys \<Rightarrow> nat \<Rightarrow> bool" where
  "nest_out s u \<longleftrightarrow> depth s u = 0 \<and> nest_pcs s u \<in> {N_Out, N_Lock, N_Cas}"

definition nest_in :: "nest_sys \<Rightarrow> nat \<Rightarrow> bool" where
  "nest_in s t \<longleftrightarrow> nl_held (nest s) \<and> nl_count (nest s) = int (depth s t) \<and> int (depth s t) < 2 ^ 31
    \<and> (case nest_pcs s t of
         N_Out \<Rightarrow> 0 < depth s t \<and> nl_owner (nest s) = Some t
       | N_Count \<Rightarrow> nl_owner (nest s) = Some t \<and> int (depth s t) < 2 ^ 31 - 1
       | N_Inc \<Rightarrow> 0 < depth s t \<and> nl_owner (nest s) = Some t \<and> int (depth s t) < 2 ^ 31 - 1
       | N_One \<Rightarrow> depth s t = 0 \<and> nl_owner (nest s) = Some t
       | N_Unown \<Rightarrow> depth s t = 0 \<and> nl_owner (nest s) = Some t
       | N_Lock \<Rightarrow> False | N_Cas \<Rightarrow> False
       | _ \<Rightarrow> depth s t = 0 \<and> nl_owner (nest s) = None)"

definition nest_free :: "nest_sys \<Rightarrow> bool" where
  "nest_free s \<longleftrightarrow> nest s = gomp_init_nest_lock_30 \<and> (\<forall>u. nest_out s u)"

definition nest_inv :: "nest_sys \<Rightarrow> bool" where
  "nest_inv s \<longleftrightarrow> nest_free s \<or> (\<exists>t. nest_in s t \<and> (\<forall>u. u \<noteq> t \<longrightarrow> nest_out s u))"

lemmas nest_step_defs = nest_step_def nest_enter_def gomp_set_nest_lock_30_def gomp_test_nest_lock_30_def
  gomp_unset_nest_lock_30_def Let_def

text \<open>A step of somebody who is out, while the lock is free and while somebody else is in.\<close>

lemma out_unchanged: "u \<noteq> t \<Longrightarrow> nest_out (nest_step t opr s) u = nest_out s u"
  by (simp add: nest_out_def nest_step_def Let_def split: prod.splits)

lemma nest_step_free:
  assumes "nest_free s" "nest_allowed t opr s"
  shows "nest_inv (nest_step t opr s)"
proof -
  have out: "\<forall>u. nest_out s u" and n: "nest s = gomp_init_nest_lock_30" using assms(1) by (simp_all add: nest_free_def)
  have rest: "\<forall>u. u \<noteq> t \<longrightarrow> nest_out (nest_step t opr s) u" using out out_unchanged by blast
  have "nest_in (nest_step t opr s) t \<or> nest (nest_step t opr s) = gomp_init_nest_lock_30 \<and> nest_out (nest_step t opr s) t"
    using out [rule_format, of t] assms(2) n
    by (cases opr) (auto simp: nest_out_def nest_in_def nest_allowed_def nest_step_defs gomp_init_nest_lock_30_def)
  then show ?thesis using rest unfolding nest_inv_def nest_free_def by metis
qed

lemma nest_step_other:
  assumes "nest_in s h" "nest_out s t" "t \<noteq> h" "nest_allowed t opr s"
  shows "nest_in (nest_step t opr s) h \<and> nest_out (nest_step t opr s) t"
proof -
  have own: "nl_owner (nest s) \<noteq> Some t" "nl_held (nest s)"
    using assms(1,3) by (auto simp: nest_in_def split: nest_pc.splits)
  have e: "nest (nest_step t opr s) = nest s" and out: "nest_out (nest_step t opr s) t"
    using assms(2,4) own by (cases opr; auto simp: nest_out_def nest_allowed_def nest_step_defs)+
  have "depth (nest_step t opr s) h = depth s h" "nest_pcs (nest_step t opr s) h = nest_pcs s h"
    using assms(3) by (simp_all add: nest_step_def Let_def split: prod.splits)
  then show ?thesis using assms(1) out unfolding nest_in_def e by presburger
qed

lemma nest_step_in:
  assumes "nest_in s t" "nest_allowed t opr s"
  shows "nest_in (nest_step t opr s) t \<or> nest (nest_step t opr s) = gomp_init_nest_lock_30 \<and> nest_out (nest_step t opr s) t"
proof (cases "nest_pcs s t = N_Out")
  case True
  then show ?thesis using assms
    by (cases opr) (auto simp: nest_in_def nest_out_def nest_allowed_def nest_step_defs s32_id gomp_init_nest_lock_30_def)
next
  case False
  then show ?thesis using assms(1)
    by (cases "nest_pcs s t") (auto simp: nest_in_def nest_out_def nest_step_defs s32_id gomp_init_nest_lock_30_def)
qed

lemma nest_inv_step:
  assumes "nest_inv s" "nest_allowed t opr s"
  shows "nest_inv (nest_step t opr s)"
proof -
  consider "nest_free s" | h where "nest_in s h" "\<forall>u. u \<noteq> h \<longrightarrow> nest_out s u" using assms(1) by (auto simp: nest_inv_def)
  then show ?thesis
  proof cases
    case 1 then show ?thesis using assms(2) by (rule nest_step_free)
  next
    case (2 h)
    show ?thesis
    proof (cases "t = h")
      case True
      then have "\<forall>u. u \<noteq> t \<longrightarrow> nest_out (nest_step t opr s) u" using 2(2) out_unchanged by blast
      then show ?thesis using nest_step_in [of s t opr] 2(1) True assms(2) unfolding nest_inv_def nest_free_def by metis
    next
      case False
      then have "nest_in (nest_step t opr s) h" "nest_out (nest_step t opr s) t" using nest_step_other 2 assms(2) by blast+
      then show ?thesis using 2(2) out_unchanged unfolding nest_inv_def by metis
    qed
  qed
qed

lemma nest_reach_inv: "nest_reach s \<Longrightarrow> nest_inv s"
proof (induction rule: nest_reach.induct)
  case start
  show ?case by (simp add: nest_inv_def nest_free_def nest_start_def nest_out_def)
next
  case (step s t opr)
  then show ?case by (intro nest_inv_step)
qed

text \<open>
  C15. A nested lock counts right and excludes: in every interleaving of tasks that set, test and unset it, at
  most one task has it, the count is the number of times that this task has set it and not unset it, and
  when nobody is in the middle of an operation and nobody has it, the lock is as it was initially, free.
\<close>

theorem nest_lock_excludes:
  assumes "nest_reach s"
  shows "(\<forall>t u. 0 < depth s t \<and> 0 < depth s u \<longrightarrow> t = u)
    \<and> (\<forall>t. 0 < depth s t \<longrightarrow> nl_held (nest s) \<and> nl_owner (nest s) = Some t \<and> nl_count (nest s) = int (depth s t))
    \<and> ((\<forall>t. depth s t = 0 \<and> nest_pcs s t = N_Out) \<longrightarrow> nest s = gomp_init_nest_lock_30)"
proof -
  consider "nest_free s" | h where "nest_in s h" "\<forall>u. u \<noteq> h \<longrightarrow> nest_out s u"
    using nest_reach_inv [OF assms] by (auto simp: nest_inv_def)
  then show ?thesis
  proof cases
    case 1 then show ?thesis by (simp add: nest_free_def nest_out_def)
  next
    case (2 h)
    then have h: "0 < depth s t \<Longrightarrow> t = h" for t by (auto simp: nest_out_def)
    have i: "0 < depth s h \<Longrightarrow> nl_held (nest s) \<and> nl_owner (nest s) = Some h \<and> nl_count (nest s) = int (depth s h)"
      "\<not> (depth s h = 0 \<and> nest_pcs s h = N_Out)"
      using 2(1) by (auto simp: nest_in_def split: nest_pc.splits)
    have "0 < depth s t \<and> 0 < depth s u \<longrightarrow> t = u" for t u using h by metis
    moreover have "0 < depth s t \<longrightarrow> nl_held (nest s) \<and> nl_owner (nest s) = Some t \<and> nl_count (nest s) = int (depth s t)" for t
      using h [of t] i(1) by auto
    ultimately show ?thesis using i(2) by (intro conjI allI impI) metis+
  qed
qed

definition nest_example :: nest_sys where
  "nest_example = fold (\<lambda>(t, opr). nest_step t opr)
    [(3, Nest_set), (3, Nest_set), (3, Nest_set), (3, Nest_set), (5, Nest_test), (5, Nest_test), (3, Nest_test), (3, Nest_test)] nest_start"

lemma nest_example_reach: "nest_reach nest_example"
  unfolding nest_example_def by (simp, intro nest_reach.intros)
    (simp_all add: nest_allowed_def nest_step_defs nest_start_def gomp_init_nest_lock_30_def s32_def)

theorem nest_lock_excludes_witness:
  "nl_owner (nest nest_example) = Some 3 \<and> nl_count (nest nest_example) = 2 \<and> depth nest_example 5 = 0"
proof -
  have d: "depth nest_example 3 = 2" "depth nest_example 5 = 0"
    by (simp_all add: nest_example_def nest_step_defs nest_start_def gomp_init_nest_lock_30_def)
  then have "0 < depth nest_example 3" by simp
  with nest_lock_excludes [OF nest_example_reach] d show ?thesis by (metis of_nat_numeral)
qed

subsection \<open>The lock of a thread\<close>

text \<open>The owner is the number of a thread; \<open>do_wait\<close> sleeps while it sees the same owner, and may return at any
  time, after which the loop looks again.\<close>

record nest_lock_25 =
  n25_owner :: "nat option"
  n25_count :: c_int

datatype nest25_pc = Q_Out | Q_Set | Q_Wait "nat option" | Q_Test | Q_One | Q_Inc | Q_Release

definition gomp_init_nest_lock_25 :: nest_lock_25 where
  "gomp_init_nest_lock_25 = \<lparr>n25_owner = None, n25_count = 0\<rparr>"

definition gomp_set_nest_lock_25 :: "nat \<Rightarrow> nest25_pc \<Rightarrow> nest_lock_25 \<Rightarrow> nest_lock_25 \<times> nest25_pc" where
  "gomp_set_nest_lock_25 tid p l = (case p of
     Q_Set \<Rightarrow> (case n25_owner l of None \<Rightarrow> (l\<lparr>n25_owner := Some tid\<rparr>, Q_One)
        | Some otid \<Rightarrow> (l, if otid = tid then Q_Inc else Q_Wait (Some otid)))
   | Q_Wait otid \<Rightarrow> (l, Q_Set)
   | Q_One \<Rightarrow> (l\<lparr>n25_count := 1\<rparr>, Q_Out)
   | Q_Inc \<Rightarrow> (l\<lparr>n25_count := s32 (n25_count l + 1)\<rparr>, Q_Out)
   | _ \<Rightarrow> (l, p))"

definition gomp_test_nest_lock_25 :: "nat \<Rightarrow> nest25_pc \<Rightarrow> nest_lock_25 \<Rightarrow> nest_lock_25 \<times> nest25_pc" where
  "gomp_test_nest_lock_25 tid p l = (case p of
     Q_Test \<Rightarrow> (case n25_owner l of None \<Rightarrow> (l\<lparr>n25_owner := Some tid\<rparr>, Q_One)
        | Some otid \<Rightarrow> (l, if otid = tid then Q_Inc else Q_Out))
   | _ \<Rightarrow> (l, p))"

definition gomp_unset_nest_lock_25 :: "nest25_pc \<Rightarrow> nest_lock_25 \<Rightarrow> nest_lock_25 \<times> nest25_pc" where
  "gomp_unset_nest_lock_25 p l = (case p of
     Q_Out \<Rightarrow> let c = s32 (n25_count l - 1) in (l\<lparr>n25_count := c\<rparr>, if c = 0 then Q_Release else Q_Out)
   | Q_Release \<Rightarrow> (l\<lparr>n25_owner := None\<rparr>, Q_Out)
   | _ \<Rightarrow> (l, p))"

record nest25_sys =
  nest25 :: nest_lock_25
  nest25_pcs :: "nat \<Rightarrow> nest25_pc"
  depth25 :: "nat \<Rightarrow> nat"

definition nest25_step :: "nat \<Rightarrow> nest_op \<Rightarrow> nest25_sys \<Rightarrow> nest25_sys" where
  "nest25_step t opr s =
    (let p = nest25_pcs s t;
         (l, p') = (if p = Q_Out
                    then (case opr of Nest_set \<Rightarrow> (nest25 s, Q_Set) | Nest_test \<Rightarrow> (nest25 s, Q_Test)
                          | Nest_unset \<Rightarrow> gomp_unset_nest_lock_25 p (nest25 s))
                    else if p = Q_Test then gomp_test_nest_lock_25 t p (nest25 s)
                    else if p = Q_Release then gomp_unset_nest_lock_25 p (nest25 s)
                    else gomp_set_nest_lock_25 t p (nest25 s))
     in s\<lparr>nest25 := l, nest25_pcs := (nest25_pcs s)(t := p'),
          depth25 := (depth25 s)(t := (if p \<in> {Q_One, Q_Inc} then Suc (depth25 s t)
                     else if p = Q_Out \<and> opr = Nest_unset then depth25 s t - 1 else depth25 s t))\<rparr>)"

definition nest25_start :: nest25_sys where
  "nest25_start = \<lparr>nest25 = gomp_init_nest_lock_25, nest25_pcs = (\<lambda>t. Q_Out), depth25 = (\<lambda>t. 0)\<rparr>"

definition nest25_allowed :: "nat \<Rightarrow> nest_op \<Rightarrow> nest25_sys \<Rightarrow> bool" where
  "nest25_allowed t opr s \<longleftrightarrow> (nest25_pcs s t = Q_Out \<longrightarrow>
     (if opr = Nest_unset then 0 < depth25 s t else int (depth25 s t) < 2 ^ 31 - 1))"

inductive nest25_reach :: "nest25_sys \<Rightarrow> bool" where
  start: "nest25_reach nest25_start"
| step: "nest25_reach s \<Longrightarrow> nest25_allowed t opr s \<Longrightarrow> nest25_reach (nest25_step t opr s)"

text \<open>The owner word says who is in; a thread that is in has a local state that fits the count.\<close>

definition nest25_inv :: "nest25_sys \<Rightarrow> bool" where
  "nest25_inv s \<longleftrightarrow> (\<forall>t.
     if n25_owner (nest25 s) = Some t
     then n25_count (nest25 s) = int (depth25 s t) \<and> int (depth25 s t) < 2 ^ 31
       \<and> (case nest25_pcs s t of Q_One \<Rightarrow> depth25 s t = 0 | Q_Release \<Rightarrow> depth25 s t = 0 | Q_Out \<Rightarrow> 0 < depth25 s t
          | _ \<Rightarrow> 0 < depth25 s t \<and> int (depth25 s t) < 2 ^ 31 - 1)
     else depth25 s t = 0 \<and> nest25_pcs s t \<notin> {Q_One, Q_Inc, Q_Release})
   \<and> (n25_owner (nest25 s) = None \<longrightarrow> n25_count (nest25 s) = 0)"

lemmas nest25_step_defs = nest25_step_def gomp_set_nest_lock_25_def gomp_test_nest_lock_25_def
  gomp_unset_nest_lock_25_def Let_def

definition nest25_fits :: "nest_lock_25 \<Rightarrow> nat \<Rightarrow> nest25_pc \<Rightarrow> nat \<Rightarrow> bool" where
  "nest25_fits l t p d \<longleftrightarrow>
    (if n25_owner l = Some t
     then n25_count l = int d \<and> int d < 2 ^ 31
       \<and> (case p of Q_One \<Rightarrow> d = 0 | Q_Release \<Rightarrow> d = 0 | Q_Out \<Rightarrow> 0 < d | _ \<Rightarrow> 0 < d \<and> int d < 2 ^ 31 - 1)
     else d = 0 \<and> p \<notin> {Q_One, Q_Inc, Q_Release})"

lemma nest25_inv_fits: "nest25_inv s \<longleftrightarrow>
    (\<forall>t. nest25_fits (nest25 s) t (nest25_pcs s t) (depth25 s t)) \<and> (n25_owner (nest25 s) = None \<longrightarrow> n25_count (nest25 s) = 0)"
  by (simp add: nest25_inv_def nest25_fits_def)

lemma nest25_inv_step:
  assumes inv: "nest25_inv s" and a: "nest25_allowed t opr s"
  shows "nest25_inv (nest25_step t opr s)"
proof -
  let ?s' = "nest25_step t opr s"
  have fit: "nest25_fits (nest25 s) u (nest25_pcs s u) (depth25 s u)" for u using inv by (simp add: nest25_inv_fits)
  have free: "n25_owner (nest25 s) = None \<Longrightarrow> n25_count (nest25 s) = 0" using inv by (simp add: nest25_inv_fits)
  have same: "nest25_pcs ?s' u = nest25_pcs s u" "depth25 ?s' u = depth25 s u" if "u \<noteq> t" for u
    using that by (simp_all add: nest25_step_def Let_def split: prod.splits)
  have own: "nest25_fits (nest25 ?s') t (nest25_pcs ?s' t) (depth25 ?s' t)
      \<and> (nest25 ?s' = nest25 s \<or> (n25_owner (nest25 s) = None \<or> n25_owner (nest25 s) = Some t)
          \<and> (n25_owner (nest25 ?s') = Some t \<or> n25_owner (nest25 ?s') = None \<and> n25_count (nest25 ?s') = 0))"
    using fit [of t] free a
    by (cases "nest25_pcs s t"; cases opr)
      (auto simp: nest25_fits_def nest25_step_defs nest25_allowed_def s32_id split: option.splits if_splits)
  have other: "nest25_fits (nest25 ?s') u (nest25_pcs ?s' u) (depth25 ?s' u)" if "u \<noteq> t" for u
    using fit [of u] own that unfolding same [OF that] by (auto simp: nest25_fits_def)
  show ?thesis unfolding nest25_inv_fits using own other free by (intro conjI allI impI) (metis, metis option.distinct(1))
qed

text \<open>The older lock excludes and counts right as well.\<close>

lemma nest25_excludes:
  "nest25_reach s \<Longrightarrow> 0 < depth25 s t \<Longrightarrow>
    n25_owner (nest25 s) = Some t \<and> n25_count (nest25 s) = int (depth25 s t) \<and> (\<forall>u. u \<noteq> t \<longrightarrow> depth25 s u = 0)"
proof -
  assume d: "0 < depth25 s t" and r: "nest25_reach s"
  from r have "nest25_inv s"
  proof (induction rule: nest25_reach.induct)
    case start
    show ?case by (simp add: nest25_inv_def nest25_start_def gomp_init_nest_lock_25_def)
  next
    case (step s t opr)
    then show ?case by (intro nest25_inv_step)
  qed
  then have fit: "nest25_fits (nest25 s) u (nest25_pcs s u) (depth25 s u)" for u by (simp add: nest25_inv_fits)
  then have "n25_owner (nest25 s) = Some t" using fit [of t] d by (simp add: nest25_fits_def split: if_splits)
  then show ?thesis using fit [of t] fit unfolding nest25_fits_def by (metis option.inject)
qed

subsection \<open>Critical sections\<close>

text \<open>One mutex for the unnamed critical section and, as a mutex of zeros is a free one and fits into a pointer,
  one in the pointer of each name (\<open>critical.c\<close>); entering and leaving are lock and unlock.\<close>

type_synonym criticals = "string option \<Rightarrow> mutex_sys"

definition critical_step :: "nat \<Rightarrow> nat \<Rightarrow> nat \<Rightarrow> string option \<Rightarrow> criticals \<Rightarrow> criticals" where
  "critical_step T c t n s = s(n := mutex_step T c t (s n))"

inductive critical_reach :: "nat \<Rightarrow> criticals \<Rightarrow> bool" for T where
  start: "critical_reach T (\<lambda>n. mutex_start)"
| step: "critical_reach T s \<Longrightarrow> t < T \<Longrightarrow> critical_reach T (critical_step T c t n s)"

lemma critical_reach_mutex: "critical_reach T s \<Longrightarrow> mutex_reach T (s n)"
  by (induction rule: critical_reach.induct) (auto simp: critical_step_def intro: mutex_reach.intros)

lemma critical_excludes:
  "critical_reach T s \<Longrightarrow> mutex_pcs (s n) t = M_Hold \<Longrightarrow> mutex_pcs (s n) u = M_Hold \<Longrightarrow> t = u"
  using mutex_reach_inv [OF critical_reach_mutex, of T s n] unfolding mutex_inv_def by blast

end
