(* ===== verification/Parallel.thy ===== *)
theory Parallel
  imports Icv DependOrder
begin

unbundle bit_operations_syntax

text \<open>
  Parallel regions (\<open>gcc/libgomp/parallel.c\<close>, and of \<open>team.c\<close> what concerns the numbers of threads): how many
  threads a region gets, the count of busy threads that the teams of a contention group share, the
  nest of regions that a thread is in with the queries on it, and cancellation.
\<close>

subsection \<open>The number of threads\<close>

text \<open>\<open>gomp_resolve_num_threads\<close> up to the test of the thread limit: \<open>Inl n\<close> when it returns \<open>n\<close> there,
  \<open>Inr max_num_threads\<close> when the limit has to be looked at. \<open>dyn\<close> is what
  \<open>gomp_dynamic_max_threads\<close> returns, which depends on the load of the machine.\<close>

definition num_threads_requested :: "icv \<Rightarrow> int \<Rightarrow> int \<Rightarrow> int \<Rightarrow> int \<Rightarrow> int \<Rightarrow> int + int" where
  "num_threads_requested i dyn active_level max_active_levels specified cnt =
    (if specified = 1 then Inl 1
     else if active_level \<ge> 1 \<and> \<not> nest_var i then Inl 1
     else if active_level \<ge> max_active_levels then Inl 1
     else let threads_requested = (if specified = 0 then u32 (nthreads_var i) else specified);
              max_num_threads =
                (if dyn_var i
                 then let m = (if dyn < threads_requested then dyn else threads_requested)
                      in if cnt \<noteq> 0 \<and> cnt < m then cnt else m
                 else threads_requested)
          in if thread_limit_var i = UINT_MAX \<or> max_num_threads = 1 then Inl max_num_threads else Inr max_num_threads)"

text \<open>The number from \<open>OMP_NUM_THREADS\<close> is an \<open>unsigned long\<close> that is cut to an \<open>unsigned\<close>.\<close>

lemma num_threads_truncated:
  "\<not> dyn_var i \<Longrightarrow> nthreads_var i = 2 ^ 32 \<Longrightarrow> thread_limit_var i = UINT_MAX \<Longrightarrow>
    num_threads_requested i dyn 0 1 0 cnt = Inl 0"
  by (simp add: num_threads_requested_def u32_def)

text \<open>Outside of nested parallelism the thread is alone in its group; the number of busy threads is set in
  the pool, at once or when the pool is made (\<open>gomp_get_thread_pool\<close>).\<close>

definition resolve_alone :: "int \<Rightarrow> int \<Rightarrow> int" where
  "resolve_alone limit max_num_threads = (if max_num_threads > limit then limit else max_num_threads)"

definition gomp_get_thread_pool :: "int option \<Rightarrow> int \<Rightarrow> int" where
  "gomp_get_thread_pool busy nthreads = (case busy of None \<Rightarrow> nthreads | Some b \<Rightarrow> b)"

text \<open>Inside, one round of the loop with the value \<open>busy\<close> that it has loaded, and the value that it
  stores if \<open>threads_busy\<close> is still \<open>busy\<close>.\<close>

definition resolve_nested :: "int \<Rightarrow> int \<Rightarrow> int \<Rightarrow> int" where
  "resolve_nested limit max_num_threads busy =
    (if u64 (limit - busy + 1) < max_num_threads then u32 (u64 (limit - busy + 1)) else max_num_threads)"

text \<open>What \<open>GOMP_parallel_end\<close> does besides ending the team: whether the tuner is told, and the new
  number of busy threads (\<open>still_nested\<close>: the thread is still in a team).\<close>

definition parallel_end_tunes :: "int \<Rightarrow> icv \<Rightarrow> bool" where
  "parallel_end_tunes region_id i \<longleftrightarrow> region_id \<noteq> 0 \<and> is_bo_schedule (run_sched_var i)"

definition parallel_end_busy :: "int \<Rightarrow> bool \<Rightarrow> int \<Rightarrow> int \<Rightarrow> int" where
  "parallel_end_busy limit still_nested nthreads busy =
    (if limit \<noteq> UINT_MAX \<and> nthreads > 1 then if \<not> still_nested then 1 else u64 (busy + (1 - nthreads)) else busy)"

subsection \<open>A contention group\<close>

text \<open>The threads of a group start and end nested regions in any order; one step for each access to
  \<open>threads_busy\<close>. \<open>regions t\<close> are the nested regions that thread \<open>t\<close> has started, the innermost first, with
  their numbers of threads.\<close>

datatype par_pc = R_Run | R_Load int | R_Cas int int

record par_group =
  threads_busy :: int
  par_pcs :: "nat \<Rightarrow> par_pc"
  regions :: "nat \<Rightarrow> int list"

datatype par_event = Par_start "int + int" | Par_go | Par_end

definition set_par_pc :: "nat \<Rightarrow> par_pc \<Rightarrow> par_group \<Rightarrow> par_group" where
  "set_par_pc t p g = g\<lparr>par_pcs := (par_pcs g)(t := p)\<rparr>"

definition open_region :: "nat \<Rightarrow> int \<Rightarrow> par_group \<Rightarrow> par_group" where
  "open_region t n g = g\<lparr>par_pcs := (par_pcs g)(t := R_Run), regions := (regions g)(t := n # regions g t)\<rparr>"

definition par_step :: "int \<Rightarrow> nat \<Rightarrow> par_event \<Rightarrow> par_group \<Rightarrow> par_group" where
  "par_step limit t ev g = (case par_pcs g t of
     R_Run \<Rightarrow> (case ev of
         Par_start (Inl n) \<Rightarrow> open_region t n g
       | Par_start (Inr m) \<Rightarrow> set_par_pc t (R_Load m) g
       | Par_end \<Rightarrow> (case regions g t of [] \<Rightarrow> g
           | n # ns \<Rightarrow> g\<lparr>threads_busy := parallel_end_busy limit True n (threads_busy g), regions := (regions g)(t := ns)\<rparr>)
       | Par_go \<Rightarrow> g)
   | R_Load m \<Rightarrow> set_par_pc t (R_Cas m (threads_busy g)) g
   | R_Cas m busy \<Rightarrow>
       let n = resolve_nested limit m busy in
       if threads_busy g = busy then open_region t n (g\<lparr>threads_busy := u64 (busy + n - 1)\<rparr>)
       else set_par_pc t (R_Load m) g)"

text \<open>The outermost region, of \<open>n\<close> threads, and all that may happen in it. What a thread asks for is a result
  of \<open>num_threads_requested\<close>: at least one thread, and exactly one if the limit is not looked at.\<close>

definition group_start :: "int \<Rightarrow> int \<Rightarrow> par_group" where
  "group_start limit m =
    \<lparr>threads_busy = gomp_get_thread_pool None (resolve_alone limit m), par_pcs = (\<lambda>t. R_Run), regions = (\<lambda>t. [])\<rparr>"

definition asks :: "par_event \<Rightarrow> bool" where
  "asks ev = (case ev of Par_start (Inl n) \<Rightarrow> n = 1 | Par_start (Inr m) \<Rightarrow> 1 \<le> m \<and> m \<le> UINT_MAX | _ \<Rightarrow> True)"

inductive group_reach :: "int \<Rightarrow> int \<Rightarrow> nat \<Rightarrow> par_group \<Rightarrow> bool" for limit m T where
  start: "group_reach limit m T (group_start limit m)"
| step: "group_reach limit m T g \<Longrightarrow> t < T \<Longrightarrow> asks ev \<Longrightarrow> group_reach limit m T (par_step limit t ev g)"

lemma asks_requested:
  assumes "is_ulong (nthreads_var i)" "1 \<le> u32 (nthreads_var i)" "1 \<le> dyn" "0 \<le> specified" "specified \<le> UINT_MAX" "0 \<le> cnt"
    and "thread_limit_var i \<noteq> UINT_MAX"
  shows "asks (Par_start (num_threads_requested i dyn active_level max_active_levels specified cnt))"
proof -
  have "u32 (nthreads_var i) < 2 ^ 32" unfolding u32_def by (rule pos_mod_bound) simp
  then have "u32 (nthreads_var i) \<le> UINT_MAX" by simp
  then show ?thesis using assms
    by (auto simp: num_threads_requested_def asks_def Let_def)
qed

definition extra_threads :: "int list \<Rightarrow> int" where
  "extra_threads ns = sum_list (map (\<lambda>n. n - 1) ns)"

definition group_inv :: "int \<Rightarrow> int \<Rightarrow> nat \<Rightarrow> par_group \<Rightarrow> bool" where
  "group_inv limit n0 T g \<longleftrightarrow>
    threads_busy g = n0 + (\<Sum>t<T. extra_threads (regions g t)) \<and> 1 \<le> threads_busy g \<and> threads_busy g \<le> limit
  \<and> (\<forall>t. \<forall>n \<in> set (regions g t). 1 \<le> n \<and> n \<le> limit)
  \<and> (\<forall>t. case par_pcs g t of R_Load m \<Rightarrow> 1 \<le> m \<and> m \<le> UINT_MAX | R_Cas m b \<Rightarrow> 1 \<le> m \<and> m \<le> UINT_MAX | R_Run \<Rightarrow> True)"

lemma extra_threads_Cons [simp]: "extra_threads (n # ns) = n - 1 + extra_threads ns" "extra_threads [] = 0"
  by (simp_all add: extra_threads_def)

lemma extra_threads_nonneg: "\<forall>n \<in> set ns. 1 \<le> n \<Longrightarrow> 0 \<le> extra_threads ns"
  by (induction ns) auto

lemma sum_extra_upd:
  fixes t T :: nat
  assumes "t < T"
  shows "(\<Sum>u<T. extra_threads ((r(t := ns)) u)) = (\<Sum>u<T. extra_threads (r u)) - extra_threads (r t) + extra_threads ns"
proof -
  have t: "t \<in> {..<T}" using assms by simp
  have "(\<Sum>u\<in>{..<T} - {t}. extra_threads ((r(t := ns)) u)) = (\<Sum>u\<in>{..<T} - {t}. extra_threads (r u))"
    by (rule sum.cong) auto
  then show ?thesis using sum.remove [OF finite_lessThan t, of "\<lambda>u. extra_threads ((r(t := ns)) u)"]
      sum.remove [OF finite_lessThan t, of "\<lambda>u. extra_threads (r u)"] by simp
qed

lemma resolve_nested_bounds:
  assumes "1 \<le> m" "m \<le> UINT_MAX" "1 \<le> b" "b \<le> limit" "limit < UINT_MAX"
  shows "resolve_nested limit m b = min m (limit - b + 1)" "1 \<le> resolve_nested limit m b"
    "b + resolve_nested limit m b - 1 \<le> limit"
proof -
  have "u64 (limit - b + 1) = limit - b + 1" using assms by (intro u64_id) simp_all
  moreover have "u32 (limit - b + 1) = limit - b + 1" using assms by (intro u32_id) simp_all
  ultimately show "resolve_nested limit m b = min m (limit - b + 1)" by (simp add: resolve_nested_def)
  then show "1 \<le> resolve_nested limit m b" "b + resolve_nested limit m b - 1 \<le> limit" using assms by simp_all
qed

lemma group_inv_step:
  assumes inv: "group_inv limit n0 T g" and t: "t < T" and ev: "asks ev" and l: "limit < UINT_MAX" and n0: "1 \<le> n0"
  shows "group_inv limit n0 T (par_step limit t ev g)"
proof -
  have busy: "threads_busy g = n0 + (\<Sum>u<T. extra_threads (regions g u))" "1 \<le> threads_busy g" "threads_busy g \<le> limit"
    and reg: "\<forall>u. \<forall>n \<in> set (regions g u). 1 \<le> n \<and> n \<le> limit"
    and pcs: "\<forall>u. case par_pcs g u of R_Load m \<Rightarrow> 1 \<le> m \<and> m \<le> UINT_MAX | R_Cas m b \<Rightarrow> 1 \<le> m \<and> m \<le> UINT_MAX | R_Run \<Rightarrow> True"
    using inv by (simp_all add: group_inv_def)
  have move: "group_inv limit n0 T (set_par_pc t p g)"
    if "case p of R_Load m \<Rightarrow> 1 \<le> m \<and> m \<le> UINT_MAX | R_Cas m b \<Rightarrow> 1 \<le> m \<and> m \<le> UINT_MAX | R_Run \<Rightarrow> True" for p
    using inv that by (simp add: group_inv_def set_par_pc_def)
  have opened: "group_inv limit n0 T (open_region t n (g\<lparr>threads_busy := b\<rparr>))"
    if "1 \<le> n" "n \<le> limit" "b = threads_busy g + n - 1" "b \<le> limit" for n b
    unfolding group_inv_def open_region_def
    using that busy reg pcs sum_extra_upd [OF t, of "regions g" "n # regions g t"] by simp
  show ?thesis
  proof (cases "par_pcs g t")
    case R_Run
    show ?thesis
    proof (cases ev)
      case (Par_start r)
      show ?thesis
      proof (cases r)
        case (Inl n)
        then have "n = 1" using ev Par_start by (simp add: asks_def)
        have "group_inv limit n0 T (open_region t 1 (g\<lparr>threads_busy := threads_busy g\<rparr>))"
          by (rule opened) (use busy in simp_all)
        then show ?thesis using \<open>n = 1\<close> R_Run Par_start Inl by (simp add: par_step_def)
      next
        case (Inr m)
        then show ?thesis using move [of "R_Load m"] ev R_Run Par_start by (simp add: par_step_def asks_def)
      qed
    next
      case Par_go
      then show ?thesis using inv R_Run by (simp add: par_step_def)
    next
      case Par_end
      show ?thesis
      proof (cases "regions g t")
        case Nil
        then show ?thesis using inv R_Run Par_end by (simp add: par_step_def)
      next
        case (Cons n ns)
        let ?b = "threads_busy g + (1 - n)"
        have n: "1 \<le> n" "n \<le> limit" using reg Cons by (metis list.set_intros(1))+
        have ns: "\<forall>n' \<in> set ns. 1 \<le> n' \<and> n' \<le> limit" using reg Cons by (metis list.set_intros(2))
        have "(\<Sum>u<T. extra_threads (((regions g)(t := ns)) u)) = (\<Sum>u<T. extra_threads (regions g u)) - (n - 1)"
          using sum_extra_upd [OF t, of "regions g" ns] Cons by simp
        moreover have "0 \<le> (\<Sum>u<T. extra_threads (((regions g)(t := ns)) u))"
          using reg ns by (intro sum_nonneg extra_threads_nonneg) auto
        ultimately have b: "?b = n0 + (\<Sum>u<T. extra_threads (((regions g)(t := ns)) u))" "1 \<le> ?b" "?b \<le> limit"
          using busy n n0 by simp_all
        have "parallel_end_busy limit True n (threads_busy g) = ?b"
          using n b l u64_id [of ?b] by (simp add: parallel_end_busy_def)
        then have s': "par_step limit t ev g = g\<lparr>threads_busy := ?b, regions := (regions g)(t := ns)\<rparr>"
          using R_Run Par_end Cons by (simp add: par_step_def)
        show ?thesis unfolding s' group_inv_def using b reg ns pcs by simp
      qed
    qed
  next
    case (R_Load m)
    then have "1 \<le> m \<and> m \<le> UINT_MAX" using spec [OF pcs, of t] by simp
    then show ?thesis using move [of "R_Cas m (threads_busy g)"] R_Load by (simp add: par_step_def)
  next
    case (R_Cas m b)
    then have m: "1 \<le> m" "m \<le> UINT_MAX" using spec [OF pcs, of t] by simp_all
    let ?n = "resolve_nested limit m b"
    show ?thesis
    proof (cases "threads_busy g = b")
      case True
      note n = resolve_nested_bounds [OF m _ _ l, of b]
      have "u64 (b + ?n - 1) = b + ?n - 1" using n busy True l by (intro u64_id) simp_all
      then show ?thesis using opened [of ?n "b + ?n - 1"] n busy True R_Cas by (simp add: par_step_def Let_def)
    next
      case False
      then show ?thesis using move [of "R_Load m"] m R_Cas by (simp add: par_step_def Let_def)
    qed
  qed
qed

lemma group_reach_inv:
  assumes "group_reach limit m T g" "1 \<le> m" "1 \<le> limit" "limit < UINT_MAX"
  shows "group_inv limit (resolve_alone limit m) T g"
  using assms
proof (induction rule: group_reach.induct)
  case start
  then show ?case by (simp add: group_inv_def group_start_def gomp_get_thread_pool_def resolve_alone_def)
next
  case (step g t ev)
  then have "1 \<le> resolve_alone limit m" by (simp add: resolve_alone_def)
  then show ?case using step by (intro group_inv_step) simp_all
qed

text \<open>
  C14. \<open>OMP_THREAD_LIMIT\<close> is never exceeded. A contention group with a limit set (at least 1, below \<open>UINT_MAX\<close>) in which
  every request is for at least one thread, the one for the outermost region (\<open>m\<close>) included: in every interleaving of
  the threads that start and end nested parallel regions, the count of busy threads is the
  outermost team and one less than the team for every nested region that is open, it is at most the limit, and every
  region gets at least one thread and no more than the limit. A region that is entered with a stale
  count tries again. The request that \<open>gomp_resolve_num_threads\<close> computes is such a request when the number of threads that
  it finds in \<open>nthreads_var\<close> is not a multiple of \<open>2 ^ 32\<close>, and is for no thread at all when it is, because
  the \<open>unsigned long\<close> is cut to an \<open>unsigned\<close>: that case is outside of what is shown.
\<close>

theorem thread_limit_kept:
  assumes "group_reach limit m T g" and "1 \<le> m" and "1 \<le> limit" and "limit < UINT_MAX"
  shows "threads_busy g = resolve_alone limit m + (\<Sum>t<T. extra_threads (regions g t)) \<and> threads_busy g \<le> limit
    \<and> (\<forall>t. \<forall>n \<in> set (regions g t). 1 \<le> n \<and> n \<le> limit)
    \<and> (is_ulong (nthreads_var i) \<and> nthreads_var i mod 2 ^ 32 \<noteq> 0 \<and> thread_limit_var i = limit
        \<and> 1 \<le> dyn \<and> 0 \<le> cnt \<and> 0 \<le> specified \<and> specified \<le> UINT_MAX \<longrightarrow>
        asks (Par_start (num_threads_requested i dyn active_level max_active_levels specified cnt)))
    \<and> (nthreads_var i mod 2 ^ 32 = 0 \<and> thread_limit_var i = limit \<and> \<not> dyn_var i \<and> active_level = 0 \<and> 1 \<le> max_active_levels \<longrightarrow>
        num_threads_requested i dyn active_level max_active_levels 0 cnt = Inr 0)"
proof -
  have "asks (Par_start (num_threads_requested i dyn active_level max_active_levels specified cnt))"
    if "is_ulong (nthreads_var i) \<and> nthreads_var i mod 2 ^ 32 \<noteq> 0 \<and> thread_limit_var i = limit
        \<and> 1 \<le> dyn \<and> 0 \<le> cnt \<and> 0 \<le> specified \<and> specified \<le> UINT_MAX"
  proof -
    have "0 \<le> u32 (nthreads_var i)" by (simp add: u32_def)
    moreover have "u32 (nthreads_var i) \<noteq> 0" using that by (simp add: u32_def)
    ultimately show ?thesis using that assms(4) by (intro asks_requested) auto
  qed
  moreover have "num_threads_requested i dyn active_level max_active_levels 0 cnt = Inr 0"
    if "nthreads_var i mod 2 ^ 32 = 0 \<and> thread_limit_var i = limit \<and> \<not> dyn_var i \<and> active_level = 0 \<and> 1 \<le> max_active_levels"
    using that assms(4) by (auto simp: num_threads_requested_def u32_def)
  ultimately show ?thesis using group_reach_inv [OF assms] by (simp add: group_inv_def)
qed

text \<open>Threads 0 and 1 of a team of two, with a limit of four, both ask for three threads; the slower one gets
  what is left.\<close>

definition group_example :: par_group where
  "group_example = fold (\<lambda>(t, ev). par_step 4 t ev)
    [(0, Par_start (Inr 3)), (1, Par_start (Inr 3)), (0, Par_go), (1, Par_go), (0, Par_go), (1, Par_go), (1, Par_go), (1, Par_go)]
    (group_start 4 2)"

lemma group_fold_reach:
  "group_reach limit m T g \<Longrightarrow> \<forall>(t, ev) \<in> set evs. t < T \<and> asks ev \<Longrightarrow>
    group_reach limit m T (fold (\<lambda>(t, ev). par_step limit t ev) evs g)"
  by (induction evs arbitrary: g) (auto intro: group_reach.step)

lemma group_example_reach: "group_reach 4 2 2 group_example"
  unfolding group_example_def by (rule group_fold_reach [OF group_reach.start]) (simp add: asks_def)

theorem thread_limit_kept_witness:
  "threads_busy group_example = resolve_alone 4 2 + (\<Sum>t<2. extra_threads (regions group_example t))
    \<and> threads_busy group_example \<le> 4 \<and> regions group_example 0 = [3] \<and> regions group_example 1 = [1]"
  using thread_limit_kept [OF group_example_reach]
  by (simp add: group_example_def group_start_def par_step_def set_par_pc_def open_region_def
      resolve_nested_def resolve_alone_def gomp_get_thread_pool_def u64_def u32_def)

subsection \<open>The nest of regions\<close>

text \<open>The state of a thread and the states that its teams have saved (\<open>team->prev_ts\<close>), the current one first.
  \<open>frame_nthreads\<close> is \<open>None\<close> when there is no team. In a query \<open>None\<close> is an access through a null pointer.\<close>

record ts_frame =
  frame_nthreads :: "int option"
  frame_id :: c_uint
  frame_level :: c_uint
  frame_active_level :: c_uint

definition initial_ts :: "ts_frame list" where
  "initial_ts = [\<lparr>frame_nthreads = None, frame_id = 0, frame_level = 0, frame_active_level = 0\<rparr>]"

text \<open>\<open>gomp_team_start\<close> by a thread in state \<open>st\<close>: what the master (\<open>i = 0\<close>) and each other member get.\<close>

definition team_start_ts :: "int \<Rightarrow> int \<Rightarrow> ts_frame list \<Rightarrow> ts_frame list" where
  "team_start_ts nthreads i st =
    (let ts = hd st in
     \<lparr>frame_nthreads = Some nthreads, frame_id = i, frame_level = u32 (frame_level ts + 1),
      frame_active_level = (if nthreads > 1 then u32 (frame_active_level ts + 1) else frame_active_level ts)\<rparr> # st)"

definition team_end_ts :: "ts_frame list \<Rightarrow> ts_frame list" where "team_end_ts st = tl st"

definition omp_get_num_threads :: "ts_frame list \<Rightarrow> int" where
  "omp_get_num_threads st = (case frame_nthreads (hd st) of None \<Rightarrow> 1 | Some n \<Rightarrow> s32 n)"

definition omp_get_thread_num :: "ts_frame list \<Rightarrow> int" where
  "omp_get_thread_num st = s32 (frame_id (hd st))"

definition omp_in_parallel :: "ts_frame list \<Rightarrow> bool" where
  "omp_in_parallel st \<longleftrightarrow> frame_active_level (hd st) > 0"

definition omp_get_level :: "ts_frame list \<Rightarrow> int" where
  "omp_get_level st = s32 (frame_level (hd st))"

definition omp_get_active_level :: "ts_frame list \<Rightarrow> int" where
  "omp_get_active_level st = s32 (frame_active_level (hd st))"

fun ts_walk :: "nat \<Rightarrow> ts_frame list \<Rightarrow> ts_frame option" where
  "ts_walk 0 (f # fs) = Some f"
| "ts_walk (Suc k) (f # fs) = (if frame_nthreads f = None then None else ts_walk k fs)"
| "ts_walk k [] = None"

definition omp_get_ancestor_thread_num :: "int \<Rightarrow> ts_frame list \<Rightarrow> int option" where
  "omp_get_ancestor_thread_num level st =
    (if level < 0 \<or> u32 level > frame_level (hd st) then Some (-1)
     else map_option (\<lambda>f. s32 (frame_id f)) (ts_walk (nat (s32 (frame_level (hd st) - level))) st))"

definition omp_get_team_size :: "int \<Rightarrow> ts_frame list \<Rightarrow> int option" where
  "omp_get_team_size level st =
    (if level < 0 \<or> u32 level > frame_level (hd st) then Some (-1)
     else map_option (\<lambda>f. case frame_nthreads f of None \<Rightarrow> 1 | Some n \<Rightarrow> s32 n) (ts_walk (nat (s32 (frame_level (hd st) - level))) st))"

text \<open>The states that nested regions lead to.\<close>

inductive nested_ts :: "ts_frame list \<Rightarrow> bool" where
  initial: "nested_ts initial_ts"
| start: "nested_ts st \<Longrightarrow> 1 \<le> n \<Longrightarrow> n < 2 ^ 31 \<Longrightarrow> 0 \<le> i \<Longrightarrow> i < n \<Longrightarrow> int (length st) < 2 ^ 31 \<Longrightarrow>
    nested_ts (team_start_ts n i st)"

lemma nested_shape:
  "nested_ts st \<Longrightarrow> st \<noteq> [] \<and> frame_level (hd st) = int (length st) - 1 \<and> int (length st) \<le> 2 ^ 31
    \<and> (\<forall>k < length st. 0 \<le> frame_id (st ! k) \<and> frame_id (st ! k) < 2 ^ 31
        \<and> (case frame_nthreads (st ! k) of None \<Rightarrow> Suc k = length st | Some n \<Rightarrow> Suc k < length st \<and> 1 \<le> n \<and> n < 2 ^ 31))"
proof (induction rule: nested_ts.induct)
  case initial
  show ?case by (simp add: initial_ts_def)
next
  case (start st n i)
  let ?st = "team_start_ts n i st"
  have "u32 (int (length st) - 1 + 1) = int (length st)" using start by (intro trans [OF u32_id]) simp_all
  then have l: "frame_level (hd ?st) = int (length ?st) - 1" using start by (simp add: team_start_ts_def Let_def)
  have "0 \<le> frame_id (?st ! k) \<and> frame_id (?st ! k) < 2 ^ 31
        \<and> (case frame_nthreads (?st ! k) of None \<Rightarrow> Suc k = length ?st | Some n \<Rightarrow> Suc k < length ?st \<and> 1 \<le> n \<and> n < 2 ^ 31)"
    if "k < length ?st" for k
  proof (cases k)
    case 0
    then show ?thesis using start by (simp add: team_start_ts_def Let_def)
  next
    case (Suc j)
    then have j: "j < length st" "?st ! k = st ! j" using that by (simp_all add: team_start_ts_def Let_def)
    have "0 \<le> frame_id (st ! j) \<and> frame_id (st ! j) < 2 ^ 31
        \<and> (case frame_nthreads (st ! j) of None \<Rightarrow> Suc j = length st | Some n \<Rightarrow> Suc j < length st \<and> 1 \<le> n \<and> n < 2 ^ 31)"
      using start.IH j(1) by blast
    moreover have "length ?st = Suc (length st)" by (simp add: team_start_ts_def Let_def)
    ultimately show ?thesis unfolding j(2) using Suc by (simp split: option.splits)
  qed
  then show ?case using l start by (simp add: team_start_ts_def Let_def)
qed

lemma ts_walk_nth:
  "k < length st \<Longrightarrow> \<forall>j < k. frame_nthreads (st ! j) \<noteq> None \<Longrightarrow> ts_walk k st = Some (st ! k)"
proof (induction k st rule: ts_walk.induct)
  case (2 k f fs)
  then have "frame_nthreads f \<noteq> None" by fastforce
  moreover have "\<forall>j < k. frame_nthreads (fs ! j) \<noteq> None" using 2(3) by fastforce
  ultimately show ?case using 2(1,2) by simp
qed simp_all

text \<open>
  C39. The queries on enclosing regions answer for the region of that level: a thread in nested regions
  that asks for level \<open>l\<close> gets the number that its ancestor has in the team of that level and the size of that
  team, 1 outside of any, and -1 for a level that is negative or deeper than it is; the query never
  runs into a null pointer.
\<close>

theorem ancestor_queries_ok:
  assumes "nested_ts st" and "is_long l" and "- (2 ^ 31) \<le> l" and "l < 2 ^ 31"
  shows "omp_get_ancestor_thread_num l st =
      Some (if 0 \<le> l \<and> l \<le> omp_get_level st then frame_id (st ! (length st - 1 - nat l)) else -1)
    \<and> omp_get_team_size l st =
      Some (if 0 \<le> l \<and> l \<le> omp_get_level st
            then (case frame_nthreads (st ! (length st - 1 - nat l)) of None \<Rightarrow> 1 | Some n \<Rightarrow> n) else -1)
    \<and> omp_get_level st = int (length st) - 1"
proof -
  note shape = nested_shape [OF assms(1)]
  have len: "omp_get_level st = int (length st) - 1" "frame_level (hd st) = int (length st) - 1"
    using shape by (simp_all add: omp_get_level_def s32_id)
  show ?thesis
  proof (cases "0 \<le> l \<and> l \<le> int (length st) - 1")
    case False
    then have "l < 0 \<or> u32 l > frame_level (hd st)" using assms len by (cases "l < 0") (simp_all add: u32_id)
    then show ?thesis using False len by (auto simp: omp_get_ancestor_thread_num_def omp_get_team_size_def)
  next
    case True
    define k where "k = length st - 1 - nat l"
    have k: "k < length st" "int k = int (length st) - 1 - l" using True shape by (auto simp: k_def)
    have "s32 (frame_level (hd st) - l) = int k" using k shape len True by (simp add: s32_id)
    moreover have "ts_walk k st = Some (st ! k)"
    proof (rule ts_walk_nth [OF k(1)], intro allI impI)
      fix j assume "j < k"
      then have "case frame_nthreads (st ! j) of None \<Rightarrow> Suc j = length st | Some n \<Rightarrow> True"
        using shape k(1) by (metis (no_types, lifting) less_trans option.case_eq_if)
      then show "frame_nthreads (st ! j) \<noteq> None"
        using \<open>j < k\<close> k(1) by (cases "frame_nthreads (st ! j)") simp_all
    qed
    moreover have "s32 (frame_id (st ! k)) = frame_id (st ! k)" using shape k by (intro s32_id) auto
    moreover have "frame_nthreads (st ! k) = Some n \<Longrightarrow> s32 n = n" for n
      using shape k(1) by (intro s32_id) (force split: option.splits)+
    moreover have "\<not> (l < 0 \<or> u32 l > frame_level (hd st))" using True len assms by (simp add: u32_id)
    ultimately show ?thesis unfolding k_def [symmetric] using True len
      by (auto simp: omp_get_ancestor_thread_num_def omp_get_team_size_def split: option.splits)
  qed
qed

theorem ancestor_queries_ok_witness:
  "omp_get_ancestor_thread_num 1 (team_start_ts 2 1 (team_start_ts 4 3 initial_ts)) = Some 3
    \<and> omp_get_team_size 1 (team_start_ts 2 1 (team_start_ts 4 3 initial_ts)) = Some 4"
proof -
  have "nested_ts (team_start_ts 2 1 (team_start_ts 4 3 initial_ts))"
    by (intro nested_ts.intros) (simp_all add: team_start_ts_def initial_ts_def)
  from ancestor_queries_ok [OF this, of 1] show ?thesis
    by (simp add: team_start_ts_def initial_ts_def omp_get_level_def u32_def s32_def)
qed

subsection \<open>Cancellation\<close>

definition GOMP_CANCEL_PARALLEL :: int where "GOMP_CANCEL_PARALLEL = 1"
definition GOMP_CANCEL_LOOP :: int where "GOMP_CANCEL_LOOP = 2"
definition GOMP_CANCEL_SECTIONS :: int where "GOMP_CANCEL_SECTIONS = 4"
definition GOMP_CANCEL_TASKGROUP :: int where "GOMP_CANCEL_TASKGROUP = 8"

lemmas cancel_kinds = GOMP_CANCEL_PARALLEL_def GOMP_CANCEL_LOOP_def GOMP_CANCEL_SECTIONS_def GOMP_CANCEL_TASKGROUP_def

record cancel_state =
  has_team :: bool
  work_share_cancelled :: bool
  team_flag :: bool
  cs_tasks :: task_team

text \<open>\<open>cur\<close> is the current task of the thread; \<open>None\<close> as a result is an access through a null pointer.\<close>

definition team_verdict :: "cancel_state \<Rightarrow> bool" where
  "team_verdict s \<longleftrightarrow> has_team s \<and> gomp_team_barrier_cancelled (tt_barrier (cs_tasks s))"

definition GOMP_cancellation_point :: "bool \<Rightarrow> int \<Rightarrow> nat option \<Rightarrow> cancel_state \<Rightarrow> bool option" where
  "GOMP_cancellation_point cancellation which cur s =
    (if \<not> cancellation then Some False
     else if which AND (GOMP_CANCEL_LOOP OR GOMP_CANCEL_SECTIONS) \<noteq> 0 then Some (has_team s \<and> work_share_cancelled s)
     else if which AND GOMP_CANCEL_TASKGROUP \<noteq> 0
     then (case cur of None \<Rightarrow> None
           | Some t \<Rightarrow> Some (group_cancelled (taskgroup (task_of (cs_tasks s) t)) (cs_tasks s) \<or> team_verdict s))
     else Some (team_verdict s))"

definition GOMP_cancel :: "bool \<Rightarrow> int \<Rightarrow> bool \<Rightarrow> nat option \<Rightarrow> cancel_state \<Rightarrow> (bool \<times> cancel_state) option" where
  "GOMP_cancel cancellation which do_cancel cur s =
    (if \<not> cancellation then Some (False, s)
     else if \<not> do_cancel then map_option (\<lambda>b. (b, s)) (GOMP_cancellation_point cancellation which cur s)
     else if which AND (GOMP_CANCEL_LOOP OR GOMP_CANCEL_SECTIONS) \<noteq> 0
     then Some (True, if has_team s then s\<lparr>work_share_cancelled := True\<rparr> else s)
     else if which AND GOMP_CANCEL_TASKGROUP \<noteq> 0
     then (case cur of None \<Rightarrow> None
           | Some t \<Rightarrow> (case taskgroup (task_of (cs_tasks s) t) of None \<Rightarrow> Some (True, s)
              | Some g \<Rightarrow>
                  if tg_cancelled (group_of (cs_tasks s) g) then Some (True, s)
                  else if \<not> has_team s then None
                  else Some (True, s\<lparr>cs_tasks := upd_group g (\<lambda>x. x\<lparr>tg_cancelled := True\<rparr>) (cs_tasks s)\<rparr>)))
     else if \<not> has_team s then None
     else Some (True, s\<lparr>team_flag := True,
            cs_tasks := (cs_tasks s)\<lparr>tt_barrier := gomp_team_barrier_cancel (tt_barrier (cs_tasks s))\<rparr>\<rparr>))"

lemma team_barrier_cancel_seen: "gomp_team_barrier_cancelled (gomp_team_barrier_cancel b)"
  using cancel_bit by (simp add: gomp_team_barrier_cancelled_def gomp_team_barrier_cancel_def)

text \<open>Calls of \<open>GOMP_cancel\<close> one after the other, by any tasks of the team.\<close>

record cancel_call =
  cc_which :: int
  cc_do :: bool
  cc_task :: nat

fun cancel_calls :: "bool \<Rightarrow> cancel_call list \<Rightarrow> cancel_state \<Rightarrow> cancel_state option" where
  "cancel_calls on [] s = Some s"
| "cancel_calls on (c # cs) s =
    (case GOMP_cancel on (cc_which c) (cc_do c) (Some (cc_task c)) s of
       None \<Rightarrow> None
     | Some (b, s') \<Rightarrow> cancel_calls on cs s')"

definition cancel_kind :: "int \<Rightarrow> bool" where
  "cancel_kind w \<longleftrightarrow> w \<in> {GOMP_CANCEL_PARALLEL, GOMP_CANCEL_LOOP, GOMP_CANCEL_SECTIONS, GOMP_CANCEL_TASKGROUP}"

text \<open>The group of a task, and whether a call cancels what concerns task \<open>u\<close> at a cancellation point of kind
  \<open>which\<close>: the work share for a loop or sections, the region, or the group of \<open>u\<close> or the region for a group.\<close>

definition concerns :: "(nat \<Rightarrow> nat option) \<Rightarrow> int \<Rightarrow> nat \<Rightarrow> cancel_call \<Rightarrow> bool" where
  "concerns grp which u c \<longleftrightarrow> cc_do c \<and>
    (if which = GOMP_CANCEL_LOOP \<or> which = GOMP_CANCEL_SECTIONS
     then cc_which c = GOMP_CANCEL_LOOP \<or> cc_which c = GOMP_CANCEL_SECTIONS
     else cc_which c = GOMP_CANCEL_PARALLEL
       \<or> which = GOMP_CANCEL_TASKGROUP \<and> cc_which c = GOMP_CANCEL_TASKGROUP
         \<and> grp u \<noteq> None \<and> grp (cc_task c) = grp u)"

definition group_map :: "cancel_state \<Rightarrow> nat \<Rightarrow> nat option" where
  "group_map s u = taskgroup (task_of (cs_tasks s) u)"

lemma cancel_point_some: "GOMP_cancellation_point on w (Some u) s \<noteq> None"
  by (auto simp: GOMP_cancellation_point_def)

lemma cancel_points:
  "GOMP_cancellation_point True GOMP_CANCEL_LOOP (Some u) s = Some (has_team s \<and> work_share_cancelled s)"
  "GOMP_cancellation_point True GOMP_CANCEL_SECTIONS (Some u) s = Some (has_team s \<and> work_share_cancelled s)"
  "GOMP_cancellation_point True GOMP_CANCEL_PARALLEL (Some u) s = Some (team_verdict s)"
  "GOMP_cancellation_point True GOMP_CANCEL_TASKGROUP (Some u) s =
    Some (group_cancelled (group_map s u) (cs_tasks s) \<or> team_verdict s)"
  by (simp_all add: GOMP_cancellation_point_def cancel_kinds group_map_def)

lemma concerns_kinds:
  "concerns f GOMP_CANCEL_LOOP u c \<longleftrightarrow> cc_do c \<and> (cc_which c = GOMP_CANCEL_LOOP \<or> cc_which c = GOMP_CANCEL_SECTIONS)"
  "concerns f GOMP_CANCEL_SECTIONS u c \<longleftrightarrow> cc_do c \<and> (cc_which c = GOMP_CANCEL_LOOP \<or> cc_which c = GOMP_CANCEL_SECTIONS)"
  "concerns f GOMP_CANCEL_PARALLEL u c \<longleftrightarrow> cc_do c \<and> cc_which c = GOMP_CANCEL_PARALLEL"
  "concerns f GOMP_CANCEL_TASKGROUP u c \<longleftrightarrow> cc_do c \<and> (cc_which c = GOMP_CANCEL_PARALLEL
    \<or> cc_which c = GOMP_CANCEL_TASKGROUP \<and> f u \<noteq> None \<and> f (cc_task c) = f u)"
  by (auto simp: concerns_def cancel_kinds)

lemma kinds_differ:
  "GOMP_CANCEL_LOOP \<noteq> GOMP_CANCEL_PARALLEL" "GOMP_CANCEL_SECTIONS \<noteq> GOMP_CANCEL_PARALLEL" "GOMP_CANCEL_LOOP \<noteq> GOMP_CANCEL_TASKGROUP"
  "GOMP_CANCEL_SECTIONS \<noteq> GOMP_CANCEL_TASKGROUP" "GOMP_CANCEL_PARALLEL \<noteq> GOMP_CANCEL_TASKGROUP"
  by (simp_all add: cancel_kinds)

lemma all_kinds: "(\<forall>w. cancel_kind w \<longrightarrow> P w) \<longleftrightarrow>
    P GOMP_CANCEL_PARALLEL \<and> P GOMP_CANCEL_LOOP \<and> P GOMP_CANCEL_SECTIONS \<and> P GOMP_CANCEL_TASKGROUP"
  by (auto simp: cancel_kind_def)

lemma cancel_one:
  assumes "has_team s" and "cancel_kind (cc_which c)"
  shows "\<exists>b s'. GOMP_cancel True (cc_which c) (cc_do c) (Some (cc_task c)) s = Some (b, s')
    \<and> has_team s' \<and> group_map s' = group_map s
    \<and> (\<forall>w. cancel_kind w \<longrightarrow> (\<forall>u. GOMP_cancellation_point True w (Some u) s' = Some True \<longleftrightarrow>
         GOMP_cancellation_point True w (Some u) s = Some True \<or> concerns (group_map s) w u c))"
proof (cases "cc_do c")
  case False
  then show ?thesis using assms(1) cancel_point_some [of True "cc_which c" "cc_task c" s]
    by (auto simp: GOMP_cancel_def concerns_def)
next
  case True
  consider (ws) "cc_which c = GOMP_CANCEL_LOOP \<or> cc_which c = GOMP_CANCEL_SECTIONS" | (par) "cc_which c = GOMP_CANCEL_PARALLEL"
    | (grp) "cc_which c = GOMP_CANCEL_TASKGROUP" using assms(2) by (auto simp: cancel_kind_def)
  then show ?thesis
  proof cases
    case ws
    then have "GOMP_cancel True (cc_which c) (cc_do c) (Some (cc_task c)) s = Some (True, s\<lparr>work_share_cancelled := True\<rparr>)"
      using True assms(1) by (auto simp: GOMP_cancel_def cancel_kinds)
    then show ?thesis using ws True assms(1)
      unfolding all_kinds cancel_points concerns_kinds
      by (auto simp: group_map_def team_verdict_def kinds_differ kinds_differ [symmetric])
  next
    case par
    then have "GOMP_cancel True (cc_which c) (cc_do c) (Some (cc_task c)) s = Some (True, s\<lparr>team_flag := True,
            cs_tasks := (cs_tasks s)\<lparr>tt_barrier := gomp_team_barrier_cancel (tt_barrier (cs_tasks s))\<rparr>\<rparr>)"
      using True assms(1) by (auto simp: GOMP_cancel_def cancel_kinds)
    then show ?thesis using par True assms(1)
      unfolding all_kinds cancel_points concerns_kinds
      by (auto simp: group_map_def team_verdict_def kinds_differ kinds_differ [symmetric]
        team_barrier_cancel_seen group_cancelled_def split: option.splits)
  next
    case grp
    show ?thesis
    proof (cases "taskgroup (task_of (cs_tasks s) (cc_task c))")
      case None
      then have "GOMP_cancel True (cc_which c) (cc_do c) (Some (cc_task c)) s = Some (True, s)"
        using True grp by (auto simp: GOMP_cancel_def cancel_kinds)
      then show ?thesis using None grp True assms(1)
        unfolding all_kinds cancel_points concerns_kinds
        by (auto simp: group_map_def kinds_differ kinds_differ [symmetric])
    next
      case (Some g)
      define s' where "s' = (if tg_cancelled (group_of (cs_tasks s) g) then s
          else s\<lparr>cs_tasks := upd_group g (\<lambda>x. x\<lparr>tg_cancelled := True\<rparr>) (cs_tasks s)\<rparr>)"
      have call: "GOMP_cancel True (cc_which c) (cc_do c) (Some (cc_task c)) s = Some (True, s')"
        using Some True grp assms(1) by (auto simp: GOMP_cancel_def cancel_kinds s'_def)
      have gc: "group_cancelled h (cs_tasks s') \<longleftrightarrow> group_cancelled h (cs_tasks s) \<or> h = Some g" for h
        by (auto simp: s'_def group_cancelled_def upd_group_def split: option.splits)
      have same: "has_team s' = has_team s" "work_share_cancelled s' = work_share_cancelled s"
        "tt_barrier (cs_tasks s') = tt_barrier (cs_tasks s)" "group_map s' = group_map s"
        by (simp_all add: s'_def upd_group_def group_map_def fun_eq_iff)
      have tv: "team_verdict s' = team_verdict s" using same by (simp add: team_verdict_def)
      have "\<forall>w. cancel_kind w \<longrightarrow> (\<forall>u. GOMP_cancellation_point True w (Some u) s' = Some True \<longleftrightarrow>
         GOMP_cancellation_point True w (Some u) s = Some True \<or> concerns (group_map s) w u c)"
        unfolding all_kinds cancel_points concerns_kinds same gc tv
        using Some grp True by (simp add: group_map_def kinds_differ kinds_differ [symmetric] eq_commute [of "Some g"]) blast
      then show ?thesis using call same assms(1) by (intro exI [of _ True] exI [of _ s']) simp
    qed
  qed
qed

lemma cancel_many:
  assumes "has_team s" and "\<forall>c \<in> set cs. cancel_kind (cc_which c)"
  shows "\<exists>s'. cancel_calls True cs s = Some s' \<and> (\<forall>w. cancel_kind w \<longrightarrow>
      (\<forall>u. GOMP_cancellation_point True w (Some u) s' = Some True \<longleftrightarrow>
         GOMP_cancellation_point True w (Some u) s = Some True \<or> (\<exists>c \<in> set cs. concerns (group_map s) w u c)))"
  using assms
proof (induction cs arbitrary: s)
  case (Cons c cs)
  obtain b s' where 1: "GOMP_cancel True (cc_which c) (cc_do c) (Some (cc_task c)) s = Some (b, s')" "has_team s'"
      "group_map s' = group_map s"
      "\<forall>w. cancel_kind w \<longrightarrow> (\<forall>u. GOMP_cancellation_point True w (Some u) s' = Some True \<longleftrightarrow>
         GOMP_cancellation_point True w (Some u) s = Some True \<or> concerns (group_map s) w u c)"
    using cancel_one [of s c] Cons.prems by auto
  obtain s'' where 2: "cancel_calls True cs s' = Some s''"
      "\<forall>w. cancel_kind w \<longrightarrow> (\<forall>u. GOMP_cancellation_point True w (Some u) s'' = Some True \<longleftrightarrow>
         GOMP_cancellation_point True w (Some u) s' = Some True \<or> (\<exists>c \<in> set cs. concerns (group_map s') w u c))"
    using Cons.IH [OF 1(2)] Cons.prems by auto
  have "(\<exists>d \<in> set (c # cs). concerns (group_map s) w u d) \<longleftrightarrow> concerns (group_map s) w u c \<or> (\<exists>d \<in> set cs. concerns (group_map s) w u d)" for w u
    by simp
  then show ?case using 1(1,4) 2 unfolding 1(3) by (intro exI [of _ s'']) (simp add: disj_assoc)
qed simp

lemma cancel_off: "cancel_calls False cs s = Some s" "GOMP_cancellation_point False w u s = Some False"
  by (induction cs) (simp_all add: GOMP_cancel_def GOMP_cancellation_point_def)

text \<open>
  C40. What a cancellation point answers after any sequence of calls of \<open>GOMP_cancel\<close>, by any tasks of one team and of any of
  the four kinds, with nothing else happening in between. With \<open>OMP_CANCELLATION\<close> on, no call runs into a
  null pointer, and a cancellation point tells the task to leave exactly when it did so before the calls or one of the
  calls, with its \<open>do_cancel\<close> argument set, concerns it: for a loop or sections a call for a loop or sections; for a
  parallel region a call for the region; for a task group a call for the region or a call for a
  task group by a task of the same group. With \<open>OMP_CANCELLATION\<close> off, the calls leave the state as it was and
  every cancellation point answers no.
\<close>

theorem cancellation_is_seen:
  assumes "has_team s" and "\<forall>c \<in> set cs. cancel_kind (cc_which c)" and "cancel_kind which"
  shows "(\<exists>s'. cancel_calls True cs s = Some s' \<and>
      GOMP_cancellation_point True which (Some u) s' =
        Some (GOMP_cancellation_point True which (Some u) s = Some True \<or> (\<exists>c \<in> set cs. concerns (group_map s) which u c)))
    \<and> cancel_calls False cs s = Some s \<and> GOMP_cancellation_point False which (Some u) s = Some False"
proof -
  obtain s' where s': "cancel_calls True cs s = Some s'"
      "GOMP_cancellation_point True which (Some u) s' = Some True \<longleftrightarrow>
         GOMP_cancellation_point True which (Some u) s = Some True \<or> (\<exists>c \<in> set cs. concerns (group_map s) which u c)"
    using cancel_many [OF assms(1,2)] assms(3) by blast
  then show ?thesis using cancel_point_some [of True which u s'] cancel_off by auto
qed
text \<open>Tasks 0 and 1 of a team are in one group.\<close>

definition cancel_example :: cancel_state where
  "cancel_example = \<lparr>has_team = True, work_share_cancelled = False, team_flag = False,
     cs_tasks = upd 0 (\<lambda>x. x\<lparr>taskgroup := Some 7\<rparr>) (upd 1 (\<lambda>x. x\<lparr>taskgroup := Some 7\<rparr>) example_team)\<rparr>"

definition cancels_example :: "cancel_call list" where
  "cancels_example = [\<lparr>cc_which = GOMP_CANCEL_LOOP, cc_do = True, cc_task = 0\<rparr>, \<lparr>cc_which = GOMP_CANCEL_TASKGROUP, cc_do = True, cc_task = 0\<rparr>,
     \<lparr>cc_which = GOMP_CANCEL_PARALLEL, cc_do = False, cc_task = 1\<rparr>]"

theorem cancellation_is_seen_witness:
  "\<exists>s'. cancel_calls True cancels_example cancel_example = Some s'
    \<and> GOMP_cancellation_point True GOMP_CANCEL_TASKGROUP (Some 1) s' = Some True"
  using cancellation_is_seen [of cancel_example cancels_example GOMP_CANCEL_TASKGROUP 1]
  by (auto simp: cancel_example_def cancels_example_def cancel_kind_def concerns_def group_map_def cancel_kinds upd_def)

end
