(* ===== verification/Places.thy ===== *)
theory Places
  imports Icv
begin

text \<open>
  Where the threads of a new team go when there is a list of places (\<open>gomp_team_start\<close> of
  \<open>gcc/libgomp/team.c\<close>): the place and the subpartition of places of each thread under the policies
  master, close and spread, for threads that are new or that the pool lends without moving them. Places
  are counted from 0 here; the runtime stores the number plus one.
\<close>

record place_state =
  pl_s :: c_uint
  pl_rest :: c_uint
  pl_p :: c_uint
  pl_k :: c_uint

type_synonym placed = "int \<times> int \<times> int"  \<comment> \<open>place, offset and length of the partition\<close>

text \<open>The first \<open>switch (bind)\<close>: the helper variables, and the partition of the master, whose place is \<open>p\<close>
  in the partition of \<open>plen\<close> places from \<open>off\<close>.\<close>

definition place_master :: "omp_proc_bind_t \<Rightarrow> int \<Rightarrow> placed \<Rightarrow> place_state \<times> placed" where
  "place_master bind nthreads = (\<lambda>(p, off, plen). case bind of
     omp_proc_bind_spread \<Rightarrow>
       if nthreads \<le> plen
       then let s = plen div nthreads;
                rest = u32 ((s + 1) * (plen mod nthreads) + off)
            in if p < rest
               then let p' = u32 (p - u32 (p - off) mod (s + 1))
                    in (\<lparr>pl_s = s, pl_rest = rest, pl_p = p', pl_k = 0\<rparr>, (p, p', s + 1))
               else let p' = u32 (p - u32 (p - rest) mod s)
                    in (\<lparr>pl_s = s, pl_rest = rest, pl_p = p', pl_k = 0\<rparr>, (p, p', s))
       else (\<lparr>pl_s = nthreads div plen, pl_rest = nthreads mod plen, pl_p = p, pl_k = 1\<rparr>, (p, p, 1))
   | omp_proc_bind_master \<Rightarrow> (\<lparr>pl_s = 0, pl_rest = 0, pl_p = p, pl_k = 0\<rparr>, (p, off, plen))
   | omp_proc_bind_false \<Rightarrow> (\<lparr>pl_s = 0, pl_rest = 0, pl_p = p, pl_k = 0\<rparr>, (p, off, plen))
   | _ \<Rightarrow>
       if nthreads > plen
       then (\<lparr>pl_s = nthreads div plen, pl_rest = nthreads mod plen, pl_p = p, pl_k = 1\<rparr>, (p, off, plen))
       else (\<lparr>pl_s = 1, pl_rest = 0, pl_p = p, pl_k = 1\<rparr>, (p, off, plen)))"

text \<open>The second \<open>switch (bind)\<close>, for thread \<open>i\<close>; \<open>poff\<close> and \<open>plen\<close> are the partition before the region,
  \<open>moff\<close> and \<open>mlen\<close> the one of the master in it.\<close>

definition place_wrap :: "int \<Rightarrow> int \<Rightarrow> int \<Rightarrow> int" where
  "place_wrap poff plen p = (if p = u32 (poff + plen) then poff else p)"

definition place_advance :: "int \<Rightarrow> int \<Rightarrow> int \<Rightarrow> int \<Rightarrow> place_state \<Rightarrow> place_state" where
  "place_advance nthreads poff plen i st =
    (if pl_k st = pl_s st
     then st\<lparr>pl_p := place_wrap poff plen (u32 (pl_p st + 1)), pl_k := 1,
             pl_s := (if i = u32 (nthreads - pl_rest st) then 1 else pl_s st)\<rparr>
     else st\<lparr>pl_k := u32 (pl_k st + 1)\<rparr>)"

definition place_next ::
  "omp_proc_bind_t \<Rightarrow> int \<Rightarrow> int \<Rightarrow> int \<Rightarrow> int \<Rightarrow> int \<Rightarrow> int \<Rightarrow> place_state \<Rightarrow> place_state \<times> placed"
where
  "place_next bind nthreads poff plen moff mlen i st = (case bind of
     omp_proc_bind_spread \<Rightarrow>
       if pl_k st = 0
       then let p = place_wrap poff plen
                  (if pl_p st < pl_rest st then u32 (pl_p st + (pl_s st + 1)) else u32 (pl_p st + pl_s st))
            in (st\<lparr>pl_p := p\<rparr>, (p, p, if p < pl_rest st then pl_s st + 1 else pl_s st))
       else let st' = place_advance nthreads poff plen i st in (st', (pl_p st', pl_p st', 1))
   | omp_proc_bind_master \<Rightarrow> (st, (pl_p st, moff, mlen))
   | omp_proc_bind_false \<Rightarrow> (st, (pl_p st, moff, mlen))
   | _ \<Rightarrow> let st' = place_advance nthreads poff plen i st in (st', (pl_p st', moff, mlen)))"

fun place_threads ::
  "omp_proc_bind_t \<Rightarrow> int \<Rightarrow> int \<Rightarrow> int \<Rightarrow> int \<Rightarrow> int \<Rightarrow> nat \<Rightarrow> nat \<Rightarrow> place_state \<Rightarrow> placed list"
where
  "place_threads bind nthreads poff plen moff mlen i 0 st = []"
| "place_threads bind nthreads poff plen moff mlen i (Suc n) st =
    (let (st', x) = place_next bind nthreads poff plen moff mlen (int i) st
     in x # place_threads bind nthreads poff plen moff mlen (Suc i) n st')"

text \<open>All threads of the team, the master first.\<close>

definition place_team :: "omp_proc_bind_t \<Rightarrow> nat \<Rightarrow> placed \<Rightarrow> placed list" where
  "place_team bind nthreads m =
    (let (st, x) = place_master bind (int nthreads) m
     in x # place_threads bind (int nthreads) (fst (snd m)) (snd (snd m)) (fst (snd x)) (snd (snd x)) 1 (nthreads - 1) st)"

definition place_ok :: "nat \<Rightarrow> placed \<Rightarrow> bool" where
  "place_ok nthreads = (\<lambda>(p, off, plen). 1 \<le> nthreads \<and> int nthreads < 2 ^ 32 \<and> 0 \<le> off \<and> off \<le> p \<and> p < off + plen \<and> off + plen < 2 ^ 32)"

subsection \<open>Threads after one another\<close>

text \<open>Thread \<open>i\<close> is \<open>place_index s L i\<close> places after the master: \<open>s\<close> threads on each of the \<open>L\<close> places, then one on each.\<close>

definition place_index :: "nat \<Rightarrow> nat \<Rightarrow> nat \<Rightarrow> nat" where
  "place_index s L i = (if i < s * L then i div s else L + (i - s * L))"

definition place_at :: "int \<Rightarrow> nat \<Rightarrow> nat \<Rightarrow> nat \<Rightarrow> nat \<Rightarrow> nat \<Rightarrow> place_state \<Rightarrow> bool" where
  "place_at off C L s rest i st \<longleftrightarrow>
    pl_p st = off + int ((C + place_index s L i) mod L) \<and> pl_rest st = int rest
  \<and> pl_s st = (if i < s * L then int s else 1) \<and> pl_k st = (if i < s * L then int (i mod s) + 1 else 1)"

lemma place_wrap_next:
  assumes "0 < L" "0 \<le> off" "off + int L < 2 ^ 32"
  shows "place_wrap off (int L) (u32 (off + int (x mod L) + 1)) = off + int (Suc x mod L)"
proof -
  have "int (x mod L) < int L" using assms(1) by simp
  then have "off + int (x mod L) + 1 < 2 ^ 32" "0 \<le> off + int (x mod L) + 1" using assms(2,3) by linarith+
  then have u: "u32 (off + int (x mod L) + 1) = off + int (x mod L) + 1" "u32 (off + int L) = off + int L"
    using assms u32_id by auto
  show ?thesis
  proof (cases "Suc (x mod L) = L")
    case True
    then have "Suc x mod L = 0" by (simp add: mod_Suc)
    then show ?thesis using u True by (simp add: place_wrap_def)
  next
    case False
    then have "Suc x mod L = Suc (x mod L)" by (simp add: mod_Suc)
    then show ?thesis using u False by (simp add: place_wrap_def)
  qed
qed

lemma place_index_Suc:
  assumes "0 < s" "0 < L"
  shows "place_index s L (Suc i) = (if i < s * L \<and> Suc (i mod s) \<noteq> s then place_index s L i else Suc (place_index s L i))"
proof (cases "i < s * L")
  case True
  show ?thesis
  proof (cases "Suc (i mod s) = s")
    case eq: True
    then have d: "Suc i div s = Suc (i div s)" by (simp add: div_Suc mod_Suc)
    show ?thesis
    proof (cases "Suc i < s * L")
      case True then show ?thesis using eq d \<open>i < s * L\<close> by (simp add: place_index_def)
    next
      case False
      then have "Suc i = s * L" using True by simp
      then have "Suc (i div s) = L" using d assms by simp
      then show ?thesis using eq True \<open>Suc i = s * L\<close> by (simp add: place_index_def)
    qed
  next
    case ne: False
    then have d: "Suc i div s = i div s" "Suc i mod s = Suc (i mod s)" by (simp_all add: div_Suc mod_Suc)
    have "Suc i \<noteq> s * L"
    proof
      assume "Suc i = s * L"
      then have "Suc i mod s = 0" by simp
      then show False using d(2) by simp
    qed
    then show ?thesis using d(1) ne True by (simp add: place_index_def)
  qed
next
  case False
  then show ?thesis by (simp add: place_index_def)
qed

lemma place_advance_at:
  assumes "0 < s" "0 < L" "0 \<le> off" "off + int L < 2 ^ 32" "T < 2 ^ 32" "Suc i < T"
    and rest: "s = 1 \<or> rest \<le> T \<and> T - rest = s * L" and st: "place_at off C L s rest i st"
  shows "place_at off C L s rest (Suc i) (place_advance (int T) off (int L) (int (Suc i)) st)"
proof -
  let ?x = "C + place_index s L i"
  have wrap: "place_wrap off (int L) (u32 (pl_p st + 1)) = off + int (Suc ?x mod L)"
    using st place_wrap_next [OF assms(2-4), of ?x] by (simp add: place_at_def)
  show ?thesis
  proof (cases "i < s * L \<and> Suc (i mod s) \<noteq> s")
    case True
    then have k: "pl_k st = int (i mod s) + 1" "pl_s st = int s" "int (i mod s) + 1 \<noteq> int s"
      using st by (auto simp: place_at_def)
    have m: "Suc i mod s = Suc (i mod s)" using True by (simp add: mod_Suc)
    have "Suc i \<noteq> s * L"
    proof
      assume "Suc i = s * L"
      then have "Suc i mod s = 0" by simp
      then show False using m by simp
    qed
    then have lt: "Suc i < s * L" using True by simp
    have "i mod s + 2 \<le> T" using mod_less_eq_dividend [of i s] assms(6) by linarith
    moreover have "int T < 2 ^ 32" using assms(5) by simp
    ultimately have "int (i mod s) + 1 + 1 \<le> int T" "int T < 2 ^ 32" by linarith+
    then have "u32 (int (i mod s) + 1 + 1) = int (i mod s) + 1 + 1" by (intro u32_id) linarith+
    then show ?thesis using st k m lt True place_index_Suc [OF assms(1,2), of i]
      by (simp add: place_at_def place_advance_def)
  next
    case False
    have k: "pl_k st = pl_s st" using st False by (auto simp: place_at_def)
    have idx: "place_index s L (Suc i) = Suc (place_index s L i)" using place_index_Suc [OF assms(1,2), of i] False by auto
    have s': "(if int (Suc i) = u32 (int T - pl_rest st) then 1 else pl_s st) = (if Suc i < s * L then int s else 1)"
    proof (cases "s = 1")
      case True then show ?thesis using st by (simp add: place_at_def)
    next
      case False
      then have r: "rest \<le> T" "T - rest = s * L" using rest by auto
      have "int T - int rest = int (s * L)" using r by (metis of_nat_diff)
      moreover have "s * L < 2 ^ 32" using r assms(5) by linarith
      then have "int (s * L) < 2 ^ 32" by (metis of_nat_less_iff of_nat_numeral of_nat_power)
      ultimately have "u32 (int T - int rest) = int (s * L)" by (metis of_nat_0_le_iff u32_id)
      then have "int (Suc i) = u32 (int T - pl_rest st) \<longleftrightarrow> Suc i = s * L"
        using st unfolding place_at_def by (metis of_nat_eq_iff)
      then show ?thesis using st by (auto simp: place_at_def)
    qed
    have k': "(if Suc i < s * L then int (Suc i mod s) + 1 else 1) = 1" using False by (auto simp: mod_Suc)
    show ?thesis using st wrap k idx s' k' by (simp add: place_at_def place_advance_def)
  qed
qed

lemma place_threads_at:
  assumes "0 < s" "0 < L" "0 \<le> off" "off + int L < 2 ^ 32" "T < 2 ^ 32"
    and "s = 1 \<or> rest \<le> T \<and> T - rest = s * L" and "i + n < T" and "place_at off C L s rest i st"
    and "bind \<in> {omp_proc_bind_true, omp_proc_bind_close} \<or> bind = omp_proc_bind_spread"
  shows "place_threads bind (int T) off (int L) moff mlen (Suc i) n st =
    map (\<lambda>j. let q = off + int ((C + place_index s L j) mod L) in
      if bind = omp_proc_bind_spread then (q, q, 1) else (q, moff, mlen)) [Suc i..<Suc (i + n)]"
  using assms(7,8)
proof (induction n arbitrary: i st)
  case 0
  show ?case by simp
next
  case (Suc n)
  let ?st = "place_advance (int T) off (int L) (int (Suc i)) st"
  have st: "place_at off C L s rest (Suc i) ?st"
    using Suc.prems by (intro place_advance_at [OF assms(1-5) _ assms(6)]) simp_all
  have "pl_k st \<noteq> 0" using Suc.prems(2) by (simp add: place_at_def)
  then have next': "place_next bind (int T) off (int L) moff mlen (int (Suc i)) st =
      (?st, let q = off + int ((C + place_index s L (Suc i)) mod L) in
        if bind = omp_proc_bind_spread then (q, q, 1) else (q, moff, mlen))"
    using assms(9) st by (auto simp: place_next_def place_at_def Let_def)
  have r: "[Suc i..<Suc (i + Suc n)] = Suc i # [Suc (Suc i)..<Suc (Suc i + n)]"
    by (simp add: upt_rec)
  have "place_threads bind (int T) off (int L) moff mlen (Suc (Suc i)) n ?st =
    map (\<lambda>j. let q = off + int ((C + place_index s L j) mod L) in
      if bind = omp_proc_bind_spread then (q, q, 1) else (q, moff, mlen)) [Suc (Suc i)..<Suc (Suc i + n)]"
    using Suc.prems(1) st by (intro Suc.IH) simp_all
  then show ?case unfolding r by (simp add: next' del: upt_Suc of_nat_Suc)
qed

text \<open>The whole team, for close and for a spread over fewer places than threads.\<close>

lemma place_team_shape:
  assumes ok: "place_ok T (p, off, int L)"
    and bind: "bind \<in> {omp_proc_bind_true, omp_proc_bind_close} \<or> bind = omp_proc_bind_spread \<and> L < T"
  defines "s \<equiv> (if L < T then T div L else 1)"
  shows "map fst (place_team bind T (p, off, int L)) = map (\<lambda>j. off + int ((nat (p - off) + place_index s L j) mod L)) [0..<T]"
    and "0 < s" "0 < L"
proof -
  have b: "1 \<le> T" "T < 2 ^ 32" "0 \<le> off" "off \<le> p" "p < off + int L" "off + int L < 2 ^ 32"
    using ok by (simp_all add: place_ok_def)
  show L: "0 < L" using b by linarith
  show s: "0 < s" using L by (simp add: s_def div_greater_zero_iff)
  let ?C = "nat (p - off)"
  define rest where "rest = (if L < T then T mod L else 0)"
  have rest: "s = 1 \<or> rest \<le> T \<and> T - rest = s * L"
  proof (cases "L < T")
    case True
    then show ?thesis by (simp add: s_def rest_def minus_mod_eq_div_mult)
  qed (simp add: s_def)
  define st where "st = \<lparr>pl_s = int s, pl_rest = int rest, pl_p = p, pl_k = 1\<rparr>"
  define x where "x = (p, if bind = omp_proc_bind_spread then p else off, if bind = omp_proc_bind_spread then 1 else int L)"
  have master: "place_master bind (int T) (p, off, int L) = (st, x)"
    using bind by (auto simp: place_master_def st_def x_def s_def rest_def zdiv_int zmod_int)
  have "?C mod L = ?C" using b by (intro mod_less) linarith
  then have C: "off + int (?C mod L) = p" using b by simp
  have z: "place_index s L 0 = 0" "0 < s * L" using s L by (simp_all add: place_index_def)
  have at: "place_at off ?C L s rest 0 st" using C z by (simp add: place_at_def st_def)
  have bind': "bind \<in> {omp_proc_bind_true, omp_proc_bind_close} \<or> bind = omp_proc_bind_spread" using bind by blast
  have threads: "place_threads bind (int T) off (int L) moff mlen 1 (T - 1) st =
    map (\<lambda>j. let q = off + int ((?C + place_index s L j) mod L) in
      if bind = omp_proc_bind_spread then (q, q, 1) else (q, moff, mlen)) [1..<T]" for moff mlen
    using place_threads_at [OF s L b(3,6,2) rest _ at bind', of "T - 1" moff mlen] b(1) by simp
  have fsts: "map fst (place_threads bind (int T) off (int L) moff mlen 1 (T - 1) st) =
    map (\<lambda>j. off + int ((?C + place_index s L j) mod L)) [1..<T]" for moff mlen
    unfolding threads by (simp add: Let_def if_distrib [of fst] comp_def)
  have "[0..<T] = 0 # [1..<T]" using b(1) by (simp add: upt_rec)
  then show "map fst (place_team bind T (p, off, int L)) = map (\<lambda>j. off + int ((?C + place_index s L j) mod L)) [0..<T]"
    using C z master fsts [of p 1] fsts [of off "int L"]
    by (cases "bind = omp_proc_bind_spread") (simp_all add: place_team_def x_def Let_def)
qed

lemma rotate_unique:
  fixes L :: nat
  assumes "i < L" "j < L" "(C + i) mod L = (C + j) mod L"
  shows "i = j"
  using assms
proof (induction i j rule: linorder_wlog)
  case (le i j)
  then have "L dvd (C + j) - (C + i)" by (metis add_le_cancel_left mod_eq_dvd_iff_nat)
  then have "L dvd j - i" by simp
  then show ?case using le by (metis diff_is_0_eq dvd_imp_le le_antisym less_imp_diff_less linorder_not_le not_gr_zero)
next
  case (sym i j)
  then show ?case by simp
qed

lemma rotate_onto:
  fixes y L C :: nat
  assumes "y < L"
  obtains j where "j < L" "(C + j) mod L = y"
proof
  let ?j = "(y + (L - C mod L)) mod L"
  show "?j < L" using assms by simp
  have "C mod L < L" using assms by simp
  moreover have "C = L * (C div L) + C mod L" by simp
  moreover have "L * Suc (C div L) = L + L * (C div L)" by simp
  ultimately have "C + (y + (L - C mod L)) = y + L * Suc (C div L)" by linarith
  then have "(C + (y + (L - C mod L))) mod L = y" using assms by (metis mod_less mod_mult_self2)
  then show "(C + ?j) mod L = y" by (simp add: mod_add_right_eq)
qed

lemma count_groups:
  fixes s L C y :: nat
  assumes "0 < s" "y < L"
  shows "card {i. i < s * L \<and> (C + i div s) mod L = y} = s"
proof -
  obtain j where j: "j < L" "(C + j) mod L = y" using rotate_onto [OF assms(2)] by metis
  have "i < s * L \<and> (C + i div s) mod L = y \<longleftrightarrow> i div s = j" for i
    using rotate_unique [of "i div s" L j C] j assms(1) by (auto simp: less_mult_imp_div_less mult.commute div_less_iff_less_mult)
  moreover have "i div s = j \<longleftrightarrow> i \<in> {j * s..<j * s + s}" for i
    using assms(1) div_nat_eqI [of s j i] div_times_less_eq_dividend [of i s] dividend_less_div_times [of s i]
    by (auto simp: mult.commute algebra_simps)
  ultimately have "{i. i < s * L \<and> (C + i div s) mod L = y} = {j * s..<j * s + s}" by blast
  then show ?thesis by simp
qed

lemma count_rest:
  fixes n L C y :: nat
  assumes "n \<le> L"
  shows "card {k. k < n \<and> (C + k) mod L = y} \<le> 1"
proof -
  have "i = j" if "i < n" "(C + i) mod L = y" "j < n" "(C + j) mod L = y" for i j
    using rotate_unique [of i L j C] that assms by simp
  then show ?thesis by (simp add: card_le_Suc0_iff_eq)
qed

lemma count_places:
  fixes T L C y :: nat
  assumes "0 < L" "y < L"
  defines "s \<equiv> (if L < T then T div L else 1)"
  shows "card {i. i < T \<and> (C + place_index s L i) mod L = y} \<in> {T div L, T div L + 1}"
proof (cases "L < T")
  case False
  then have s: "s = 1" by (simp add: s_def)
  have e: "{i. i < T \<and> (C + place_index s L i) mod L = y} = {i. i < T \<and> (C + i) mod L = y}"
    using False by (auto simp: s place_index_def)
  show ?thesis
  proof (cases "T = L")
    case True
    then have "card {i. i < T \<and> (C + i) mod L = y} = 1" using count_groups [of 1 y L C] assms(2) by simp
    then show ?thesis unfolding e using True assms(1) by simp
  next
    case ne: False
    then have "T div L = 0" using False by simp
    moreover have "card {i. i < T \<and> (C + i) mod L = y} \<le> 1" using False by (intro count_rest) simp
    then have "card {i. i < T \<and> (C + i) mod L = y} \<in> {0, 0 + 1}" unfolding insert_iff by linarith
    ultimately show ?thesis unfolding e by simp
  qed
next
  case True
  then have s: "s = T div L" "0 < s" using assms(1) by (simp_all add: s_def div_greater_zero_iff)
  have sl: "s * L \<le> T" "T - s * L < L" using assms(1) by (simp_all add: s(1) minus_div_mult_eq_mod)
  have shift: "(C + (L + d)) mod L = (C + d) mod L" for d by (metis add.left_commute mod_add_self1)
  let ?A = "{i. i < s * L \<and> (C + i div s) mod L = y}" and ?B = "{k. k < T - s * L \<and> (C + k) mod L = y}"
  have un: "{i. i < T \<and> (C + place_index s L i) mod L = y} = ?A \<union> (\<lambda>k. s * L + k) ` ?B"
  proof (intro set_eqI iffI)
    fix i assume i: "i \<in> {i. i < T \<and> (C + place_index s L i) mod L = y}"
    show "i \<in> ?A \<union> (\<lambda>k. s * L + k) ` ?B"
    proof (cases "i < s * L")
      case True then show ?thesis using i by (simp add: place_index_def)
    next
      case False
      then have "(C + (i - s * L)) mod L = y" using i shift [of "i - s * L"] by (simp add: place_index_def)
      moreover have "i - s * L < T - s * L" using i False by (intro diff_less_mono) simp_all
      ultimately have "i - s * L \<in> ?B" by blast
      moreover have "i = s * L + (i - s * L)" using False by simp
      ultimately show ?thesis by blast
    qed
  next
    fix i assume "i \<in> ?A \<union> (\<lambda>k. s * L + k) ` ?B"
    then consider "i \<in> ?A" | k where "k \<in> ?B" "i = s * L + k" by blast
    then show "i \<in> {i. i < T \<and> (C + place_index s L i) mod L = y}"
    proof cases
      case 1 then show ?thesis using sl(1) by (auto simp: place_index_def)
    next
      case (2 k)
      then have "i < T" using sl(1) by simp linarith
      then show ?thesis using 2 shift [of k] by (simp add: place_index_def)
    qed
  qed
  have "card (?A \<union> (\<lambda>k. s * L + k) ` ?B) = card ?A + card ((\<lambda>k. s * L + k) ` ?B)"
    by (rule card_Un_disjoint) auto
  moreover have "card ((\<lambda>k. s * L + k) ` ?B) = card ?B" by (rule card_image) (auto simp: inj_on_def)
  moreover have "card ?A = T div L" using count_groups [OF s(2) assms(2), of C] s(1) by simp
  ultimately have "card {i. i < T \<and> (C + place_index s L i) mod L = y} = T div L + card ?B" unfolding un by metis
  moreover have "card ?B \<le> 1" using sl(2) by (intro count_rest) simp
  ultimately show ?thesis unfolding insert_iff by linarith
qed

text \<open>
  C38. Close and spread share the places out evenly: of \<open>T\<close> threads on a partition of \<open>L\<close> places, each place
  gets \<open>T div L\<close> or one more, and nobody is placed outside of the partition; for spread this is the
  case of more threads than places.
\<close>

theorem places_balanced:
  assumes "place_ok T (p, off, int L)"
    and "bind \<in> {omp_proc_bind_true, omp_proc_bind_close} \<or> bind = omp_proc_bind_spread \<and> L < T"
  shows "(\<forall>y \<in> {off..<off + int L}. length (filter ((=) y) (map fst (place_team bind T (p, off, int L)))) \<in> {T div L, T div L + 1})
    \<and> set (map fst (place_team bind T (p, off, int L))) \<subseteq> {off..<off + int L}
    \<and> length (place_team bind T (p, off, int L)) = T"
proof -
  define s where "s = (if L < T then T div L else 1)"
  note shape = place_team_shape [OF assms, folded s_def]
  let ?C = "nat (p - off)"
  let ?f = "\<lambda>j. off + int ((?C + place_index s L j) mod L)"
  have len: "length (place_team bind T (p, off, int L)) = T" using arg_cong [OF shape(1), of length] by simp
  have range: "?f j \<in> {off..<off + int L}" for j using shape(3) by simp
  have "length (filter ((=) y) (map ?f [0..<T])) \<in> {T div L, T div L + 1}" if y: "y \<in> {off..<off + int L}" for y
  proof -
    have "?f j = y \<longleftrightarrow> (?C + place_index s L j) mod L = nat (y - off)" for j using y by auto
    then have "length (filter ((=) y) (map ?f [0..<T])) = card {j. j < T \<and> (?C + place_index s L j) mod L = nat (y - off)}"
      by (simp add: length_filter_map comp_def eq_commute [of y] length_filter_conv_card cong: conj_cong)
    moreover have "nat (y - off) < L" using y by auto
    ultimately show ?thesis using count_places [OF shape(3), of "nat (y - off)" T ?C] unfolding s_def by simp
  qed
  then show ?thesis unfolding shape(1) using len range by (intro conjI ballI) auto
qed

theorem places_balanced_witness:
  "length (filter ((=) 3) (map fst (place_team omp_proc_bind_close 11 (4, 2, 4)))) \<in> {2, 3}"
proof -
  have "place_ok 11 (4, 2, int 4)" by (simp add: place_ok_def)
  from places_balanced [OF this, of omp_proc_bind_close] show ?thesis by simp
qed

subsection \<open>Subpartitions\<close>

text \<open>A spread of \<open>T\<close> threads over at least as many places: block \<open>j\<close> of \<open>T\<close>, the first \<open>r\<close> of which are larger
  by one, begins at \<open>block_start off s r j\<close>.\<close>

definition block_start :: "int \<Rightarrow> nat \<Rightarrow> nat \<Rightarrow> nat \<Rightarrow> int" where
  "block_start off s r j = off + int (j * s + min j r)"

definition block_size :: "nat \<Rightarrow> nat \<Rightarrow> nat \<Rightarrow> int" where
  "block_size s r j = (if j < r then int s + 1 else int s)"

lemma block_start_Suc: "block_start off s r (Suc j) = block_start off s r j + block_size s r j"
  by (simp add: block_start_def block_size_def min_def)

lemma block_start_less: "0 < s \<Longrightarrow> block_start off s r i < block_start off s r j \<longleftrightarrow> i < j"
proof -
  assume s: "0 < s"
  have "strict_mono (block_start off s r)"
    unfolding strict_mono_Suc_iff block_start_Suc using s by (simp add: block_size_def)
  then show ?thesis by (rule strict_mono_less)
qed

lemma spread_blocks:
  assumes "0 < T" "T \<le> L"
  shows "0 < L div T" "block_start off (L div T) (L mod T) T = off + int L" "L mod T < T"
    "block_start off (L div T) (L mod T) 0 = off"
proof -
  show "0 < L div T" using assms by (simp add: div_greater_zero_iff)
  show r: "L mod T < T" using assms by simp
  have "T * (L div T) + L mod T = L" by simp
  then show "block_start off (L div T) (L mod T) T = off + int L"
    using r unfolding block_start_def by (metis min.absorb4 order_less_imp_le min_def)
  show "block_start off (L div T) (L mod T) 0 = off" by (simp add: block_start_def)
qed

lemma place_threads_spread:
  assumes T: "0 < T" "T \<le> L" and off: "0 \<le> off" "off + int L < 2 ^ 32" and j: "j < T"
    and "i + n \<le> T"
  defines "B \<equiv> block_start off (L div T) (L mod T)" and "z \<equiv> block_size (L div T) (L mod T)"
  shows "place_threads omp_proc_bind_spread (int T) off (int L) moff mlen i n
      \<lparr>pl_s = int (L div T), pl_rest = B (L mod T), pl_p = B ((j + c) mod T), pl_k = 0\<rparr> =
    map (\<lambda>m. let x = (j + m) mod T in (B x, B x, z x)) [Suc c..<Suc c + n]"
  using assms(6)
proof (induction n arbitrary: i c)
  case 0
  show ?case by simp
next
  case (Suc n)
  let ?s = "L div T" and ?r = "L mod T" and ?x = "(j + c) mod T" and ?y = "(j + Suc c) mod T"
  let ?st = "\<lambda>x. \<lparr>pl_s = int ?s, pl_rest = B ?r, pl_p = B x, pl_k = 0\<rparr>"
  note bl = spread_blocks(1,3) [OF T] spread_blocks(2,4) [OF T, of off, folded B_def]
  have less: "B i < B k \<longleftrightarrow> i < k" for i k using block_start_less [OF bl(1)] by (simp add: B_def)
  have x: "?x < T" using T by simp
  have le: "B (Suc ?x) \<le> off + int L" using less [of T "Suc ?x"] x bl(3) by simp
  have suc: "B (Suc ?x) = B ?x + z ?x" by (simp add: B_def z_def block_start_Suc)
  have "off \<le> B k" for k by (simp add: B_def block_start_def)
  then have u: "u32 (B (Suc ?x)) = B (Suc ?x)" "u32 (off + int L) = off + int L"
    using le off order_trans [OF off(1)] by (auto intro!: u32_id)
  have w: "place_wrap off (int L) (B (Suc ?x)) = B ?y"
  proof (cases "Suc ?x = T")
    case True
    then have "?y = 0" by (simp add: mod_Suc)
    then show ?thesis using True bl u by (simp add: place_wrap_def)
  next
    case False
    then have y: "?y = Suc ?x" by (simp add: mod_Suc)
    have "B (Suc ?x) \<noteq> B T" using less [of "Suc ?x" T] x False by simp
    then show ?thesis using y bl(3) u by (simp add: place_wrap_def)
  qed
  have a: "(if B ?x < B ?r then u32 (B ?x + (int ?s + 1)) else u32 (B ?x + int ?s)) = B (Suc ?x)"
    using less [of ?x ?r] u(1) suc by (cases "?x < ?r") (simp_all add: z_def block_size_def)
  have "place_next omp_proc_bind_spread (int T) off (int L) moff mlen (int i) (?st ?x) =
      (let q = place_wrap off (int L) (if B ?x < B ?r then u32 (B ?x + (int ?s + 1)) else u32 (B ?x + int ?s))
       in (\<lparr>pl_s = int ?s, pl_rest = B ?r, pl_p = q, pl_k = 0\<rparr>, (q, q, if q < B ?r then int ?s + 1 else int ?s)))"
    by (simp add: place_next_def Let_def)
  then have next': "place_next omp_proc_bind_spread (int T) off (int L) moff mlen (int i) (?st ?x) = (?st ?y, (B ?y, B ?y, z ?y))"
    unfolding a w Let_def using less [of ?y ?r] by (simp add: z_def block_size_def)
  have "[Suc c..<Suc c + Suc n] = Suc c # [Suc (Suc c)..<Suc (Suc c) + n]" by (simp add: upt_rec)
  moreover have "place_threads omp_proc_bind_spread (int T) off (int L) moff mlen (Suc i) n (?st ?y) =
      map (\<lambda>m. let x = (j + m) mod T in (B x, B x, z x)) [Suc (Suc c)..<Suc (Suc c) + n]"
    using Suc.prems Suc.IH [of "Suc i" "Suc c"] by simp
  ultimately show ?case using next' by (simp add: Let_def del: upt_Suc)
qed

text \<open>The block of the master is the one that its place lies in.\<close>

lemma place_master_spread:
  assumes ok: "place_ok T (p, off, int L)" and T: "T \<le> L"
  defines "B \<equiv> block_start off (L div T) (L mod T)" and "z \<equiv> block_size (L div T) (L mod T)"
  obtains j where "j < T" "B j \<le> p" "p < B j + z j"
    "place_master omp_proc_bind_spread (int T) (p, off, int L) =
      (\<lparr>pl_s = int (L div T), pl_rest = B (L mod T), pl_p = B j, pl_k = 0\<rparr>, (p, B j, z j))"
proof -
  have b: "0 < T" "int T < 2 ^ 32" "0 \<le> off" "off \<le> p" "p < off + int L" "off + int L < 2 ^ 32"
    using ok by (simp_all add: place_ok_def)
  let ?s = "L div T" and ?r = "L mod T"
  note bl = spread_blocks(1,3) [OF b(1) T] spread_blocks(2,4) [OF b(1) T, of off, folded B_def]
  have less: "B i < B k \<longleftrightarrow> i < k" for i k using block_start_less [OF bl(1)] by (simp add: B_def)
  have rest: "B ?r = (int ?s + 1) * int ?r + off" by (simp add: B_def block_start_def algebra_simps)
  have "off \<le> B ?r" "B ?r \<le> off + int L" using less [of T ?r] bl(2,3) by (simp_all add: B_def block_start_def)
  then have u: "u32 ((int ?s + 1) * int ?r + off) = B ?r" unfolding rest [symmetric] using b by (intro u32_id) simp_all
  define x where "x = nat (p - off)"
  have x: "p = off + int x" "x < L" using b by (simp_all add: x_def)
  show ?thesis
  proof (cases "p < B ?r")
    case True
    let ?j = "x div (?s + 1)"
    have m: "x = ?j * (?s + 1) + x mod (?s + 1)" "x mod (?s + 1) < ?s + 1"
      by (rule div_mult_mod_eq [symmetric]) simp
    have "int x < int ((?s + 1) * ?r)" using True x(1) rest by (simp add: algebra_simps)
    then have "x < (?s + 1) * ?r" by linarith
    then have j: "?j < ?r" by (metis less_mult_imp_div_less mult.commute)
    have Bj: "B ?j = off + int (?j * (?s + 1))" using j by (simp add: B_def block_start_def min_def algebra_simps)
    have "u32 (p - u32 (p - off) mod (int ?s + 1)) = B ?j"
    proof -
      have "u32 (p - off) = int x" using x b by (simp add: u32_id)
      moreover have "int x mod (int ?s + 1) = int (x mod (?s + 1))" by (simp add: zmod_int add.commute)
      ultimately have "p - u32 (p - off) mod (int ?s + 1) = p - int (x mod (?s + 1))" by simp
      moreover have "int x = int (?j * (?s + 1)) + int (x mod (?s + 1))" using m(1) by (metis of_nat_add)
      ultimately have "p - u32 (p - off) mod (int ?s + 1) = B ?j" using x(1) Bj by linarith
      moreover have "off \<le> B ?j" unfolding Bj by simp
      moreover have "B ?j \<le> p" using Bj m(1) x(1) by linarith
      ultimately show ?thesis using b by (intro trans [OF u32_id]) linarith+
    qed
    then have master: "place_master omp_proc_bind_spread (int T) (p, off, int L) =
      (\<lparr>pl_s = int ?s, pl_rest = B ?r, pl_p = B ?j, pl_k = 0\<rparr>, (p, B ?j, z ?j))"
      using True T j u by (simp add: place_master_def Let_def zdiv_int [symmetric] zmod_int [symmetric] z_def block_size_def)
    have "z ?j = int ?s + 1" using j by (simp add: z_def block_size_def)
    moreover have "int x = int (?j * (?s + 1)) + int (x mod (?s + 1))" using m(1) by (metis of_nat_add)
    moreover have "int (x mod (?s + 1)) < int ?s + 1" using m(2) by linarith
    ultimately have "B ?j \<le> p" "p < B ?j + z ?j" using x(1) Bj by linarith+
    moreover note master
    ultimately show ?thesis using that [of ?j] j bl(2) by simp
  next
    case False
    define y where "y = x - (?s + 1) * ?r"
    have "int ((?s + 1) * ?r) \<le> int x" using False x(1) rest by (simp add: algebra_simps)
    then have le: "(?s + 1) * ?r \<le> x" by linarith
    let ?j = "?r + y div ?s"
    have m: "y = y div ?s * ?s + y mod ?s" "y mod ?s < ?s"
      by (rule div_mult_mod_eq [symmetric]) (use bl(1) in simp)
    have "?s * T + ?r = L" by simp
    moreover have "(?s + 1) * ?r = ?s * ?r + ?r" by simp
    moreover have "?s * ?r \<le> ?s * T" using bl(2) by simp
    ultimately have "y < ?s * T - ?s * ?r" using le x(2) unfolding y_def by linarith
    then have "y < (T - ?r) * ?s" by (simp add: diff_mult_distrib2 mult.commute)
    then have "y div ?s < T - ?r" by (rule less_mult_imp_div_less)
    then have j: "?j < T" by simp
    have Bj: "B ?j = B ?r + int (y div ?s * ?s)" by (simp add: B_def block_start_def algebra_simps)
    have p: "p = B ?r + int y" using le x(1) rest by (simp add: y_def algebra_simps of_nat_diff)
    have "u32 (p - u32 (p - B ?r) mod int ?s) = B ?j"
    proof -
      have "u32 (p - B ?r) = int y" using p b \<open>off \<le> B ?r\<close> by (simp add: u32_id)
      then have "p - u32 (p - B ?r) mod int ?s = p - int (y mod ?s)" by (simp add: zmod_int)
      moreover have "int y = int (y div ?s * ?s) + int (y mod ?s)" using m(1) by (metis of_nat_add)
      ultimately have "p - u32 (p - B ?r) mod int ?s = B ?j" using p Bj by linarith
      moreover have "off \<le> B ?j" using Bj \<open>off \<le> B ?r\<close> by linarith
      moreover have "B ?j \<le> p" using Bj p m(1) by linarith
      ultimately show ?thesis using b by (intro trans [OF u32_id]) linarith+
    qed
    then have master: "place_master omp_proc_bind_spread (int T) (p, off, int L) =
      (\<lparr>pl_s = int ?s, pl_rest = B ?r, pl_p = B ?j, pl_k = 0\<rparr>, (p, B ?j, z ?j))"
      using False T u by (simp add: place_master_def Let_def zdiv_int [symmetric] zmod_int [symmetric] z_def block_size_def)
    have "z ?j = int ?s" by (simp add: z_def block_size_def)
    moreover have "int y = int (y div ?s * ?s) + int (y mod ?s)" using m(1) by (metis of_nat_add)
    moreover have "int (y mod ?s) < int ?s" using m(2) by simp
    ultimately have "B ?j \<le> p" "p < B ?j + z ?j" using p Bj by linarith+
    moreover note master
    ultimately show ?thesis using that [of ?j] j by simp
  qed
qed

lemma blocks_concat:
  assumes "0 < s"
  shows "concat (map (\<lambda>j. [block_start off s r j..block_start off s r j + block_size s r j - 1]) [0..<n]) =
    [off..block_start off s r n - 1]"
proof (induction n)
  case 0
  show ?case by (simp add: block_start_def)
next
  case (Suc n)
  have "off \<le> block_start off s r n" "0 < block_size s r n" using assms by (simp_all add: block_start_def block_size_def)
  then have "[off..block_start off s r (Suc n) - 1] =
      [off..block_start off s r n - 1] @ [block_start off s r n..block_start off s r (Suc n) - 1]"
    unfolding block_start_Suc by (intro upto_split1) simp_all
  then show ?case using Suc by (simp add: block_start_Suc)
qed

lemma mset_concat_map: "mset xs = mset ys \<Longrightarrow> mset (concat (map f xs)) = mset (concat (map f ys))"
proof -
  have "mset (concat (map f zs)) = (\<Sum>z\<in>#mset zs. mset (f z))" for zs by (induction zs) simp_all
  then show "mset xs = mset ys \<Longrightarrow> ?thesis" by simp
qed

lemma mset_rotated:
  assumes "0 < T"
  shows "mset (map (\<lambda>m. (j + m) mod T) [0..<T]) = mset [0..<T]"
proof -
  have "inj_on (\<lambda>m. (j + m) mod T) {0..<T}"
  proof (rule inj_onI)
    fix i k assume "i \<in> {0..<T}" "k \<in> {0..<T}" "(j + i) mod T = (j + k) mod T"
    then show "i = k" by (intro rotate_unique [of i T k j]) simp_all
  qed
  then have "distinct (map (\<lambda>m. (j + m) mod T) [0..<T])" by (simp add: distinct_map)
  moreover have "set (map (\<lambda>m. (j + m) mod T) [0..<T]) = set [0..<T]"
  proof
    show "set (map (\<lambda>m. (j + m) mod T) [0..<T]) \<subseteq> set [0..<T]" using assms by auto
    show "set [0..<T] \<subseteq> set (map (\<lambda>m. (j + m) mod T) [0..<T])"
    proof
      fix y assume "y \<in> set [0..<T]"
      then obtain i where "i < T" "(j + i) mod T = y" using rotate_onto [of y T j] by auto
      then show "y \<in> set (map (\<lambda>m. (j + m) mod T) [0..<T])" by auto
    qed
  qed
  ultimately show ?thesis by (metis distinct_upt set_eq_iff_mset_eq_distinct)
qed

definition subpartition :: "placed \<Rightarrow> int list" where
  "subpartition = (\<lambda>(p, off, plen). [off..off + plen - 1])"

text \<open>
  C37. Spread splits the places: when a team has no more threads than its parent has places, the
  subpartitions of the threads are disjoint and together are the partition of the parent, their sizes differ by at most
  one, and each thread is placed in its own.
\<close>

theorem spread_partitions:
  assumes "place_ok T (p, off, int L)" and "T \<le> L"
  shows "mset (concat (map subpartition (place_team omp_proc_bind_spread T (p, off, int L)))) = mset [off..off + int L - 1]
    \<and> (\<forall>(q, o', l) \<in> set (place_team omp_proc_bind_spread T (p, off, int L)).
         o' \<le> q \<and> q < o' + l \<and> l \<in> {int (L div T), int (L div T) + 1})
    \<and> length (place_team omp_proc_bind_spread T (p, off, int L)) = T"
proof -
  have b: "0 < T" "0 \<le> off" "off + int L < 2 ^ 32" using assms(1) by (simp_all add: place_ok_def)
  let ?B = "block_start off (L div T) (L mod T)" and ?z = "block_size (L div T) (L mod T)"
  note bl = spread_blocks(1) [OF b(1) assms(2)] spread_blocks(2) [OF b(1) assms(2), of off]
  obtain j where j: "j < T" "?B j \<le> p" "p < ?B j + ?z j" and m: "place_master omp_proc_bind_spread (int T) (p, off, int L) =
      (\<lparr>pl_s = int (L div T), pl_rest = ?B (L mod T), pl_p = ?B j, pl_k = 0\<rparr>, (p, ?B j, ?z j))"
    by (rule place_master_spread [OF assms])
  let ?blk = "\<lambda>m. let x = (j + m) mod T in (?B x, ?B x, ?z x)"
  let ?team = "place_team omp_proc_bind_spread T (p, off, int L)"
  have team: "?team = (p, ?B j, ?z j) # map ?blk [1..<T]"
    using place_threads_spread [OF b(1) assms(2) b(2,3) j(1), of 1 "T - 1" "?B j" "?z j" 0] b(1) j(1)
    by (simp add: place_team_def m)
  have up: "[0..<T] = 0 # [1..<T]" using b(1) by (simp add: upt_rec)
  let ?blocks = "\<lambda>x. [?B x..?B x + ?z x - 1]"
  have "map subpartition ?team = map ?blocks (map (\<lambda>m. (j + m) mod T) [0..<T])"
    unfolding up team using j(1) by (simp add: subpartition_def Let_def)
  then have "mset (concat (map subpartition ?team)) = mset (concat (map ?blocks [0..<T]))"
    using mset_concat_map [OF mset_rotated [OF b(1)]] by simp
  also have "\<dots> = mset [off..off + int L - 1]" using blocks_concat [OF bl(1)] bl(2) by simp
  finally have part: "mset (concat (map subpartition ?team)) = mset [off..off + int L - 1]" .
  have z: "0 < ?z x" "?z x \<in> {int (L div T), int (L div T) + 1}" for x using bl(1) by (simp_all add: block_size_def)
  then have "\<forall>(q, o', l) \<in> set ?team. o' \<le> q \<and> q < o' + l \<and> l \<in> {int (L div T), int (L div T) + 1}"
    unfolding team using j by (auto simp: Let_def)
  moreover have "length ?team = T" unfolding team using b(1) by simp
  ultimately show ?thesis using part by blast
qed

theorem spread_partitions_witness:
  "place_team omp_proc_bind_spread 3 (4, 2, 8) = [(4, 2, 3), (5, 5, 3), (8, 8, 2)]
    \<and> mset (concat (map subpartition (place_team omp_proc_bind_spread 3 (4, 2, 8)))) = mset [2..9]"
proof -
  have "place_ok 3 (4, 2, int 8)" by (simp add: place_ok_def)
  from spread_partitions [OF this] have "mset (concat (map subpartition (place_team omp_proc_bind_spread 3 (4, 2, 8)))) = mset [2..9]"
    by simp
  moreover have "place_team omp_proc_bind_spread 3 (4, 2, 8) = [(4, 2, 3), (5, 5, 3), (8, 8, 2)]" by code_simp
  ultimately show ?thesis by blast
qed

end
