(* ===== verification/Spec2Isabelle.thy ===== *)
theory Spec2Isabelle
  imports StaticShare ScheduleProps LoopProps LoopUll Sections TeamRuntime EnvProps TeamTasks Barrier Semaphore Locks Parallel Places
begin

text \<open>
  \<^bold>\<open>What this library is about.\<close> bosched adds to GNU libgomp loop schedules whose parameters
  are tuned by Bayesian optimisation. The program is the fork of libgomp under
  \<open>src/gcc/libgomp\<close> together with the tuner \<open>src/bosched.cpp\<close>, which libgomp calls through
  \<open>bo_scheduling.h\<close>. The library translates the C code of the runtime: how a parallel loop is set
  up, shared out and ended; the constructs beside it (sections, single, ordered, doacross); the
  tasks of a team with their queues and dependences; and what all of these stand on (barriers,
  locks, the environment). Names below \<open>src/gcc/libgomp\<close> are given without that prefix.

  \<^bold>\<open>How the parts interact.\<close> A thread that reaches a loop calls an entry point of \<open>loop.c\<close> or
  \<open>loop_ull.c\<close>. The first thread of the team to arrive takes a descriptor (\<open>struct gomp_work_share\<close>)
  from the free list of the team (\<open>work.c\<close>), fills it in (\<open>gomp_loop_init\<close>, which asks the tuner
  for a parameter) and publishes it through a pointer lock; the others wait for it. All of them
  then call an iterator (\<open>iter.c\<close>, \<open>iter_ull.c\<close>, \<open>schedules.h\<close>, \<open>thirdparty_schedules.h\<close>), which hands
  out one block of iterations for each call with loads, compare-and-swaps and fetch-and-adds on the
  descriptor, until it says that nothing is left; the last thread to end the loop frees the
  descriptor of the loop before. Tasks are created and taken by the threads of the team under one
  lock; a task is in up to three priority queues at once (children of its parent, its task group,
  the team), and at a barrier the threads empty the queue of the team.

  \<^bold>\<open>Theories and what they model.\<close>
  \<^item> \<open>Prelude\<close>: C integers as \<open>int\<close> with the wrap-around of their width written out (\<open>s64\<close>, \<open>u64\<close>,
    \<open>s32\<close>, \<open>u32\<close>), truncating division, lists of iterations. \<open>CDouble\<close>: binary64 arithmetic as
    rationals with rounding; \<open>pow\<close>, \<open>log\<close> and conversions out of range are the parameter \<open>fpenv\<close>.
    \<open>CString\<close>: \<open>strtol\<close>, \<open>strtoul\<close> and friends.
  \<^item> \<open>WorkShare\<close>: the descriptor, the enumeration of schedules, the team state of a thread
    (\<open>libgomp.h\<close>, \<open>bo_scheduling.h\<close>). \<open>Runtime\<close>: allocation, publication and release of descriptors
    (\<open>work.c\<close>, \<open>team.c\<close>, \<open>ptrlock.h\<close>) over a store; each operation is atomic.
  \<^item> \<open>IterStatic\<close>, \<open>StaticShare\<close>: the static schedule in both widths, and that a team running it
    executes each iteration once.
  \<^item> \<open>CasLoop\<close>, \<open>CasIter\<close>, \<open>IterDynamic\<close>, \<open>IterUll\<close>, \<open>FloatSched\<close>, \<open>BatchSched\<close>, \<open>ScheduleProps\<close>: the
    lock-free iterators as step functions, one step for each access to a shared word, run by any
    number of threads under any sequence of thread numbers.
  \<^item> \<open>Loop\<close>, \<open>LoopProps\<close>, \<open>LoopUll\<close>: \<open>gomp_loop_init\<close> and the entry points of \<open>loop.c\<close> and
    \<open>loop_ull.c\<close>, the iterators BinLPT and HSS. \<open>TeamLoop\<close>, \<open>TeamRuntime\<close>: a whole team on one loop.
  \<^item> \<open>Sections\<close> (\<open>sections.c\<close>, \<open>single.c\<close>), \<open>Ordered\<close> and \<open>Doacross\<close> (\<open>ordered.c\<close>).
  \<^item> \<open>Env\<close>, \<open>Icv\<close>, \<open>EnvProps\<close>: \<open>env.c\<close>, \<open>icv.c\<close>, \<open>icv-device.c\<close>.
  \<^item> \<open>SplayTree\<close> (\<open>splay-tree.c\<close>), \<open>TaskList\<close>, \<open>TaskOrder\<close>, \<open>PriorityQueue\<close> (\<open>priority_queue.h\<close>,
    \<open>priority_queue.c\<close>): the pointers of the lists of one priority, and the tree of such lists.
  \<^item> \<open>Task\<close>, \<open>TaskWait\<close>, \<open>TaskLoop\<close> (\<open>task.c\<close>, \<open>taskloop.c\<close>): the parts of the task operations that run
    with \<open>task_lock\<close> held, over one record of the state. \<open>TaskDepend\<close>, \<open>DependCreate\<close>, \<open>DependOrder\<close>:
    what \<open>depend\<close> clauses achieve. \<open>TeamQueue\<close>, \<open>TeamTasks\<close>: the queue of the team and whole runs.
  \<^item> \<open>Barrier\<close> (\<open>config/linux/bar.h\<close>, \<open>bar.c\<close>): 32-bit words, one step for each access.
  \<^item> \<open>Parallel\<close> (\<open>parallel.c\<close>): the number of threads of a region, the busy threads of a contention group
    (one step for each access), the nest of regions of a thread with the queries on it, cancellation.
  \<^item> \<open>Places\<close> (\<open>gomp_team_start\<close> of \<open>team.c\<close>): the place and the subpartition of places of every thread of
    a new team under the binding policies.
  \<^item> \<open>Mutex\<close> (\<open>config/linux/mutex.h\<close>, \<open>mutex.c\<close>, \<open>wait.h\<close>, \<open>lock.c\<close>) and \<open>Semaphore\<close> (\<open>sem.h\<close>, \<open>sem.c\<close>):
    the futex operations, one step for each access to the word. The kernel compares and sleeps in one
    step and wakes any sleeper; spinning has any bound, sleepers may return early. \<open>Locks\<close>: the nested
    locks (\<open>lock.c\<close>, \<open>config/linux/lock.c\<close>) and critical sections (\<open>critical.c\<close>) on top of them.

  \<^bold>\<open>Conventions.\<close> Structures are records with the fields of the C structure, enumerations are
  datatypes. A store of descriptors or tasks is a function from addresses (numbers). An error is a
  value: \<open>None\<close> or a fault for a null access, an abort or a fatal error; \<open>Bad\<close> with the message for a
  parser that complains. Lock-free code is a program counter with the locals of the thread and a step
  function on the shared words, in a sequentially consistent memory; a run is a list of thread
  numbers, so that a theorem about every list is one about every interleaving. Code that runs with
  a lock held is one function.

  \<^bold>\<open>What the groups of lemmas show.\<close>
  \<^item> The contract \<open>chunk_server\<close> (\<open>CasLoop\<close>): a block begins at the shared position, moves it, and cuts
    the rest of the loop in two; from it, for every interleaving, the blocks are a prefix of the
    loop in order and the whole loop once a thread is told to stop. \<open>obstruction_free\<close> adds that a
    thread running alone returns, \<open>lock_free\<close> that a thread is held up only by blocks that others take, from which the
    moves of a whole team are bounded under every schedule. \<open>cas_iterator\<close> and \<open>batch_iterator\<close> derive these
    (\<open>batch_iterator\<close> not the last) from laws on the arithmetic of a schedule and are interpreted on every iterator of the two
    widths: dynamic, guided, TAPE, TSS, FAC2 and FSS. \<open>locked_form\<close>: a lock-free iterator hands out what the routine
    that is called with the lock held returns in the same order, interpreted on dynamic and guided, whose two forms have separate
    arithmetic as in the code.
  \<^item> \<open>arrivals\<close> (\<open>Runtime\<close>): the threads of a team at one work-sharing construct, in any order, and which of them is told to set
    it up.
  \<^item> \<open>static_iterator\<close>: what a team gets from an iterator that computes blocks from thread numbers,
    interpreted on both static routines.
  \<^item> \<open>loop_client\<close> (\<open>TeamLoop\<close>): what the protocol of a loop needs of the schedule, interpreted on
    \<open>gomp_loop_init\<close> and the iterators behind \<open>schedule(runtime)\<close>; with it the theorems below.
  \<^item> \<open>splay_key\<close>: what a comparison function must satisfy, interpreted on the priorities of tasks and on
    mapped address ranges; the tree refines a set (map) of keys.
  \<^item> \<open>machine_int\<close> (\<open>TaskLoop\<close>): wrap-around to one width, interpreted on \<open>s64\<close> and \<open>u64\<close>.
  \<^item> \<open>ring\<close> (\<open>TaskList\<close>), \<open>queue_holds\<close> (\<open>TeamQueue\<close>): abstraction of pointers by sequences, and of the
    queue of the team by a first-in first-out sequence with priorities.
  \<^item> \<open>team_inv\<close> (\<open>TeamTasks\<close>): queued, running and blocked tasks are the unfinished ones, disjointly; a
    blocked one waits for an unfinished task. Hence no task is lost and the team is never stuck. The steps of
    \<open>team_run\<close> are deferred tasks, taskloops, starts and ends of tasks, the loss of a finished task's children to the
    team (\<open>gomp_clear_parent\<close>), and other operations that leave the parent of every task and the queue of the team alone; target
    tasks, tasks of negative priority and creations in a cancelled region are not steps.
  \<^item> \<open>mutex_inv\<close>, \<open>sem_inv\<close>: one holder, an exact count, and a pending wake or mark whenever somebody sleeps on
    a free mutex or a positive count; \<open>mutex_taken_within\<close> and \<open>sem_taken_within\<close> bound the steps until somebody
    gets through, against every choice of the environment. \<open>nest_inv\<close>: one owner and its depth.
  \<^item> \<open>place_index\<close>, \<open>block_start\<close> (\<open>Places\<close>): closed forms of the places, from which their balance and the
    partition follow.
  \<^item> \<open>group_inv\<close> (\<open>Parallel\<close>): the count of busy threads is what the open regions use, within the limit.

  \<^bold>\<open>Fuel and termination.\<close> Recursion over machine state that the code does not bound by itself is
  either proved terminating with a measure (splaying, the parsers) or given fuel. A call of a lock-free
  iterator by a thread that is not disturbed gets \<open>call_fuel = 16\<close> steps; the interpretations of
  \<open>obstruction_free\<close> give every program counter a measure that each undisturbed step decreases and that is at
  most 11, so no call runs out, and the theorems that state a result of a call state that it
  returns. A run of a whole team is a list of calls or steps that is given from outside.

  \<^bold>\<open>Findings.\<close> Where the translation showed that the code does not do what it means to, the
  behaviour is modelled as it is and, where it concerns a property, excluded by a named hypothesis
  (for instance the truncating \<open>1 / R\<close> of \<open>bo_iter_fac2_next\<close>, the shared code of \<open>GFS_DYNAMIC\<close> and
  CSS in \<open>gomp_loop_init\<close>, the lost marks of the lists of children) or proved as a property of its own.

  \<^bold>\<open>Not modelled.\<close>
  \<^item> The tuner \<open>src/bosched.cpp\<close> (C++): the parameter \<open>bo_env\<close>, with its calls logged.
  \<^item> Bodies of loops, sections and tasks, and the copying of their arguments: compiled user code.
  \<^item> Locks and semaphores inside the other operations: code that runs with a lock held is one function,
    which \<open>Mutex\<close> justifies, and releases of semaphores are counted.
  \<^item> Thread creation and pools (\<open>team.c\<close>), binding (\<open>affinity.c\<close>) and \<open>parse_places_var\<close> of \<open>env.c\<close>: calls of
    the operating system. Of \<open>team.c\<close>, the work-share part of \<open>gomp_new_team\<close> and the numbers and places of the
    threads of a new team are modelled, not the reuse of idle threads by their places.
  \<^item> Runs of a barrier during which somebody cancels, and barriers that run tasks while they wait, as step
    relations: the effect of a cancellation on a wait is a function, and the handling of tasks at a barrier is modelled as the
    part under \<open>task_lock\<close>.
  \<^item> Offloading and OpenACC (\<open>target.c\<close>, \<open>oacc-*.c\<close>), apart from the look-ups of mapped ranges: they drive
    device plugins. Fortran wrappers, allocation and error printing: glue.
  \<^item> Weak memory: the steps assume sequential consistency, while the code asks for acquire and release
    order in places.
  \<^item> The rest of the GCC tree, which is upstream code apart from the region id that the OpenMP expansion
    adds to the calls.
\<close>

subsection \<open>Properties that span components\<close>

text \<open>A new team of four, and a loop that it runs.\<close>

definition icv_example :: "gomp_schedule_type \<Rightarrow> task_icv" where
  "icv_example sc = \<lparr>run_sched_var = sc, run_sched_chunk_size = 2\<rparr>"

lemma team_example_ready: "team_ready 4 0 (new_team_example 4)"
proof -
  have "\<forall>i < 4. ts_work_share (threads (new_team_example 4) i) = Ref 0"
    by (simp add: new_team_example_def gomp_new_team_def gomp_init_work_share_def Let_def)
  moreover have "link (new_team_example 4) 0 = Null" by code_simp
  moreover have "\<exists>as fs us. pools (new_team_example 4) as fs us \<and> 0 \<in> set us"
    by (intro exI conjI) (rule new_team_example_pools(1), simp)
  ultimately show ?thesis using new_team_example_pools(2,3) by (simp add: team_ready_def)
qed

lemma runtime_pre_example:
  "sc = FS_FAC2 \<or> sc = GFS_GUIDED \<Longrightarrow>
    runtime_pre env_example (run_sched_var (icv_example sc)) 4 3 10 40 (runtime_chunk (icv_example sc)) 0"
  by (auto simp: runtime_pre_def central_def kind_defs loop_fits_def icv_example_def runtime_chunk_def env_example_def)

text \<open>
  C1. A team that runs a loop with \<open>schedule(runtime)\<close> under any schedule with a central queue that
  \<open>OMP_SCHEDULE\<close> can select (dynamic, guided, and the chunked, tapered, trapezoid and factored
  schedules, tuned or not) shares the loop out exactly: in whatever order the threads call
  \<open>GOMP_loop_runtime_start\<close> and \<open>GOMP_loop_runtime_next\<close>, the first arrival allocates and sets up the
  descriptor, no call fails, the blocks handed out are a prefix of the loop in order, and they are
  the whole loop as soon as one thread is told to stop. The loop has at least one step, its length is
  a \<open>long\<close>, factoring self-scheduling has no partial last step, and the tuner does not ask for the
  static fallback.
\<close>

theorem runtime_loop_shared_exactly:
  assumes "team_ready T c R" and "set is \<subseteq> {..<T}"
    and "runtime_pre env (run_sched_var icv) T k start e (runtime_chunk icv) region"
  shows "shared_exactly k start e (runtime_calls env icv start e k region is R)"
  using assms by (rule runtime_exact)

theorem runtime_loop_shared_exactly_witness:
  "shared_exactly 3 10 40 (runtime_calls env_example (icv_example FS_FAC2) 10 40 3 0 [2, 0, 3, 1, 1, 2, 0, 0] (new_team_example 4))"
  by (rule runtime_loop_shared_exactly [OF team_example_ready _ runtime_pre_example]) auto

text \<open>
  C2. The loop comes to an end: if every thread of the team keeps calling, at most one call more than
  the loop has iterations, all of them are told to stop and the loop has been handed out completely.
\<close>

theorem runtime_loop_completes:
  assumes "team_ready T c R" and "set is \<subseteq> {..<T}"
    and "runtime_pre env (run_sched_var icv) T k start e (runtime_chunk icv) region"
    and "\<And>i. i < T \<Longrightarrow> niter k start e < count_list is i"
  shows "\<exists>gs dn R'. runtime_calls env icv start e k region is R = Inr (gs, dn, R') \<and> set dn = {..<T}
    \<and> granted_iters k gs = iters k start e"
  unfolding runtime_calls_def
  by (rule shared_completely [OF runtime_exact [OF assms(1-3), unfolded runtime_calls_def] assms(2) _ assms(4)])
    (use assms(3) in \<open>simp_all add: runtime_pre_def\<close>)

theorem runtime_loop_completes_witness:
  "\<exists>gs dn R'. runtime_calls env_example (icv_example GFS_GUIDED) 10 40 3 0 (concat (replicate 11 [3, 1, 0, 2])) (new_team_example 4)
      = Inr (gs, dn, R') \<and> set dn = {..<4} \<and> granted_iters 3 gs = [10, 13, 16, 19, 22, 25, 28, 31, 34, 37]"
proof -
  have "niter 3 10 40 = 10" by (simp add: niter_def)
  moreover from this have "iters 3 10 40 = [10, 13, 16, 19, 22, 25, 28, 31, 34, 37]"
    by (simp add: iters_def upt_rec)
  moreover have "count_list (concat (replicate 11 [3, 1, 0, 2])) i = 11" if "i < 4" for i :: nat
  proof -
    from that consider "i = 0" | "i = 1" | "i = 2" | "i = 3" by linarith
    then show ?thesis by cases (simp_all add: eval_nat_numeral)
  qed
  ultimately show ?thesis
    using runtime_loop_completes [OF team_example_ready, of "concat (replicate 11 [3, 1, 0, 2])"
        env_example "icv_example GFS_GUIDED" 3 10 40 0] runtime_pre_example [of GFS_GUIDED]
    by (simp add: icv_example_def set_replicate_conv_if)
qed

end
